(* ===== verification/Rt_Prelude.thy ===== *)
theory Rt_Prelude
  imports Main "HOL-Library.Word" "HOL-Library.Monad_Syntax"
begin

unbundle bit_operations_syntax

text \<open>
  Shared vocabulary of the development: the integer types of \<^verbatim>\<open>rtdef.h\<close>, the error codes,
  the object classes, the assertion monad and the generic lemmas on lists, words and partial
  results that the component theories use.

  The modelled configuration is the one of \<^verbatim>\<open>src/rtconfig.h\<close>: one CPU (no
  \<^verbatim>\<open>RT_USING_SMP\<close>), 32 priorities, \<^verbatim>\<open>ARCH_CPU_64BIT\<close>, \<^verbatim>\<open>RT_DEBUG\<close> with active
  assertions, one timer skip-list level, software timers on, no signals.

  A C function is a HOL function to \<open>'a option\<close>: \<open>None\<close> means that an \<^verbatim>\<open>RT_ASSERT\<close> failed, after
  which \<^verbatim>\<open>rt_assert_handler\<close> never returns.
\<close>

section \<open>Machine integers and error codes\<close>

type_synonym u8 = "8 word"
type_synonym u16 = "16 word"
type_synonym u32 = "32 word"
type_synonym u64 = "64 word"

text \<open>\<^verbatim>\<open>rt_err_t\<close> is a signed long that only ever holds one of the codes below or its negation.\<close>

type_synonym rt_err_t = int

abbreviation (input) RT_EOK :: rt_err_t where "RT_EOK \<equiv> 0"
abbreviation (input) RT_ERROR :: rt_err_t where "RT_ERROR \<equiv> 1"
abbreviation (input) RT_ETIMEOUT :: rt_err_t where "RT_ETIMEOUT \<equiv> 2"
abbreviation (input) RT_EFULL :: rt_err_t where "RT_EFULL \<equiv> 3"
abbreviation (input) RT_EEMPTY :: rt_err_t where "RT_EEMPTY \<equiv> 4"
abbreviation (input) RT_ENOMEM :: rt_err_t where "RT_ENOMEM \<equiv> 5"
abbreviation (input) RT_ENOSYS :: rt_err_t where "RT_ENOSYS \<equiv> 6"
abbreviation (input) RT_EBUSY :: rt_err_t where "RT_EBUSY \<equiv> 7"
abbreviation (input) RT_EIO :: rt_err_t where "RT_EIO \<equiv> 8"
abbreviation (input) RT_EINTR :: rt_err_t where "RT_EINTR \<equiv> 9"
abbreviation (input) RT_EINVAL :: rt_err_t where "RT_EINVAL \<equiv> 10"

text \<open>\<^verbatim>\<open>RT_TICK_MAX / 2\<close>, the bound every tick difference is compared with.\<close>

abbreviation (input) RT_TICK_HALF :: u32 where "RT_TICK_HALF \<equiv> 0x7FFFFFFF"

section \<open>Assertions\<close>

definition rt_assert :: "bool \<Rightarrow> unit option" where
  "rt_assert b = (if b then Some () else None)"

lemma rt_assert_simps [simp]:
  "rt_assert True = Some ()" "rt_assert False = None"
  by (simp_all add: rt_assert_def)

lemma rt_assert_Some_iff [simp]: "(rt_assert b = Some u) = b"
  by (simp add: rt_assert_def)

lemma bind_assert_Some [simp]:
  "(rt_assert b \<bind> f = Some x) = (b \<and> f () = Some x)"
  by (simp add: rt_assert_def)

lemma bind_Some_ex: "(m \<bind> f = Some y) = (\<exists>x. m = Some x \<and> f x = Some y)"
  by (cases m) auto

section \<open>Collections of rewrite rules\<close>

text \<open>
  \<open>stat_simps\<close> holds the bit-level facts on the \<^verbatim>\<open>stat\<close> byte, \<open>frame_simps\<close> the facts that an
  operation leaves a field of the kernel state alone.
\<close>

named_theorems stat_simps
named_theorems frame_simps

section \<open>Lists\<close>

text \<open>Removal of a node from a list whose nodes are distinct.\<close>

abbreviation without :: "'a \<Rightarrow> 'a list \<Rightarrow> 'a list" where
  "without x xs \<equiv> filter (\<lambda>y. y \<noteq> x) xs"

lemma without_id [simp]: "x \<notin> set xs \<Longrightarrow> without x xs = xs"
  by (induction xs) auto

lemma without_split: "distinct (xs @ x # ys) \<Longrightarrow> without x (xs @ x # ys) = xs @ ys"
  by simp

lemma without_hd: "distinct (x # xs) \<Longrightarrow> without x (x # xs) = xs"
  by auto

lemma without_eq_Nil: "(without x xs = []) = (set xs \<subseteq> {x})"
  by (auto simp: filter_empty_conv)

lemma hd_in_set [simp]: "xs \<noteq> [] \<Longrightarrow> hd xs \<in> set xs"
  by (cases xs) auto

section \<open>Words\<close>

lemma bit_push_one: "bit (push_bit p (1 :: 'a :: len word)) n = (n = p \<and> n < LENGTH('a))"
  by (auto simp: bit_simps)

text \<open>The bit of a priority in the 32-bit ready group: \<^verbatim>\<open>1L << thread->current_priority\<close>.\<close>

definition prio_mask :: "u8 \<Rightarrow> u32" where
  "prio_mask p = push_bit (unat p) 1"

lemma bit_prio_mask: "bit (prio_mask p) n = (n = unat p \<and> n < 32)"
  by (auto simp: prio_mask_def bit_push_one simp del: push_bit_of_1)

lemma word_eq_zero_iff_bits: "(w = (0 :: 'a :: len word)) = (\<forall>n < LENGTH('a). \<not> bit w n)"
  by (metis bit_eqI bit_imp_le_length bit_0_eq bot_apply bot_bool_def)

lemma bit_or_iff_word: "bit (a OR b) n = (bit a n \<or> bit (b :: 'a :: len word) n)"
  by (simp add: bit_simps)

lemma bit_and_not_iff: "bit (a AND NOT b) n = (bit a n \<and> \<not> bit (b :: 'a :: len word) n)"
  by (auto simp: bit_simps dest: bit_imp_le_length)

section \<open>Alignment\<close>

text \<open>\<^verbatim>\<open>RT_ALIGN(size, RT_ALIGN_SIZE)\<close> and \<^verbatim>\<open>RT_ALIGN_DOWN(size, RT_ALIGN_SIZE)\<close>, with \<^verbatim>\<open>RT_ALIGN_SIZE\<close> 4.\<close>

definition align_up :: "u64 \<Rightarrow> u64" where
  "align_up x = (x + 3) AND NOT 3"

definition align_down :: "u64 \<Rightarrow> u64" where
  "align_down x = x AND NOT 3"

lemma and_not_mask: "(x :: 'a :: len word) AND NOT (mask k) = push_bit k (drop_bit k x)"
  by (rule bit_word_eqI) (auto simp: bit_simps)

lemma unat_align_down: "unat (align_down x) = unat x div 4 * 4"
proof -
  have "align_down x = push_bit 2 (drop_bit 2 x)"
    unfolding align_down_def and_not_mask [symmetric] by (simp add: mask_eq_exp_minus_1)
  then have eq: "align_down x = (x div 4) * 4" by (simp add: push_bit_eq_mult drop_bit_eq_div)
  have "unat (x div 4) * 4 < 2 ^ 64"
    using unsigned_less [of x, where ?'a = nat] by (simp add: unat_div)
  then show ?thesis unfolding eq by (subst unat_word_ariths) (simp add: unat_div)
qed

lemma unat_align_up:
  assumes "unat x + 3 < 2 ^ 64"
  shows "unat (align_up x) = (unat x + 3) div 4 * 4"
proof -
  have "unat (x + 3) = unat x + 3" using assms by (subst unat_word_ariths) simp
  then show ?thesis using unat_align_down [of "x + 3"] by (simp add: align_up_def align_down_def)
qed

end
