(* ===== verification/Rt_List.thy ===== *)
theory Rt_List
  imports Rt_Prelude
begin

text \<open>
  The doubly linked intrusive lists of \<^verbatim>\<open>include/rtservice.h\<close>, at two levels.

  The pointer level (\<open>lheap\<close>) is the memory the C code works on: every list head and every embedded
  node has a \<^verbatim>\<open>next\<close> and a \<^verbatim>\<open>prev\<close> pointer, and the operations are the assignments of the source in
  their order. The store level (\<open>lstore\<close>) keeps for each head the sequence of its nodes and for each
  node the head it hangs on. An operation of the store is \<open>None\<close> where the C code would corrupt a
  list: linking a node that is still linked. The simulation lemmas show that wherever the store
  operation succeeds, the pointer operation computes the same lists.
\<close>

section \<open>The pointer level\<close>

record 'a lheap =
  nxt :: "'a \<Rightarrow> 'a"
  prv :: "'a \<Rightarrow> 'a"

definition rt_list_init :: "'a \<Rightarrow> 'a lheap \<Rightarrow> 'a lheap" where
  "rt_list_init l h = h\<lparr>nxt := (nxt h)(l := l), prv := (prv h)(l := l)\<rparr>"

definition rt_list_insert_after :: "'a \<Rightarrow> 'a \<Rightarrow> 'a lheap \<Rightarrow> 'a lheap" where
  "rt_list_insert_after l n h =
     (let h1 = h\<lparr>prv := (prv h)(nxt h l := n)\<rparr>;
          h2 = h1\<lparr>nxt := (nxt h1)(n := nxt h1 l)\<rparr>;
          h3 = h2\<lparr>nxt := (nxt h2)(l := n)\<rparr>
      in h3\<lparr>prv := (prv h3)(n := l)\<rparr>)"

definition rt_list_insert_before :: "'a \<Rightarrow> 'a \<Rightarrow> 'a lheap \<Rightarrow> 'a lheap" where
  "rt_list_insert_before l n h =
     (let h1 = h\<lparr>nxt := (nxt h)(prv h l := n)\<rparr>;
          h2 = h1\<lparr>prv := (prv h1)(n := prv h1 l)\<rparr>;
          h3 = h2\<lparr>prv := (prv h2)(l := n)\<rparr>
      in h3\<lparr>nxt := (nxt h3)(n := l)\<rparr>)"

definition rt_list_remove :: "'a \<Rightarrow> 'a lheap \<Rightarrow> 'a lheap" where
  "rt_list_remove n h =
     (let h1 = h\<lparr>prv := (prv h)(nxt h n := prv h n)\<rparr>;
          h2 = h1\<lparr>nxt := (nxt h1)(prv h1 n := nxt h1 n)\<rparr>
      in h2\<lparr>nxt := (nxt h2)(n := n), prv := (prv h2)(n := n)\<rparr>)"

definition rt_list_isempty :: "'a \<Rightarrow> 'a lheap \<Rightarrow> bool" where
  "rt_list_isempty l h = (nxt h l = l)"

text \<open>The counting loop of \<^verbatim>\<open>rt_list_len\<close>; \<open>None\<close> would be a loop that never meets the head again.
  The counter is an \<^verbatim>\<open>unsigned int\<close>.\<close>

partial_function (option) rt_list_len_loop :: "'a lheap \<Rightarrow> 'a \<Rightarrow> 'a \<Rightarrow> u32 \<Rightarrow> u32 option" where
  "rt_list_len_loop h l p len =
     (if nxt h p \<noteq> l then rt_list_len_loop h l (nxt h p) (len + 1) else Some len)"

definition rt_list_len :: "'a lheap \<Rightarrow> 'a \<Rightarrow> u32 option" where
  "rt_list_len h l = rt_list_len_loop h l l 0"

section \<open>The sequence a list head stands for\<close>

fun chain :: "'a lheap \<Rightarrow> 'a list \<Rightarrow> bool" where
  "chain h [] = True"
| "chain h [a] = True"
| "chain h (a # b # xs) = (nxt h a = b \<and> prv h b = a \<and> chain h (b # xs))"

definition is_list :: "'a lheap \<Rightarrow> 'a \<Rightarrow> 'a list \<Rightarrow> bool" where
  "is_list h l xs = (distinct (l # xs) \<and> chain h (l # xs @ [l]))"

lemma chain_split: "chain h (us @ p # vs) = (chain h (us @ [p]) \<and> chain h (p # vs))"
  by (induction h us rule: chain.induct) (cases vs; auto)+

lemma in_set_tl: "a \<in> set (tl xs) \<Longrightarrow> a \<in> set xs"
  by (cases xs) auto

lemma chain_frame:
  assumes "\<And>a. a \<in> set (butlast ys) \<Longrightarrow> nxt h' a = nxt h a"
    and "\<And>a. a \<in> set (tl ys) \<Longrightarrow> prv h' a = prv h a"
  shows "chain h' ys = chain h ys"
  using assms
proof (induction h ys rule: chain.induct)
  case (3 h a b xs)
  then have "chain h' (b # xs) = chain h (b # xs)"
    by (intro "3.IH") (auto split: if_splits dest: in_set_tl)
  then show ?case using "3.prems" by simp
qed auto

text \<open>Splicing a fresh node between two neighbours, and taking one out, on any closed walk whose
  sources and targets are distinct.\<close>

lemma chain_splice_in:
  assumes c: "chain h (us @ p # q # vs)"
    and d: "distinct (us @ p # butlast (q # vs))" "distinct (tl (us @ [p]) @ q # vs)"
    and n: "n \<notin> set (us @ p # q # vs)"
    and h': "nxt h' = (nxt h)(p := n, n := q)" "prv h' = (prv h)(q := n, n := p)"
  shows "chain h' (us @ p # n # q # vs)"
proof -
  from c have c1: "chain h (us @ [p])" and c2: "chain h (q # vs)"
    by (simp_all add: chain_split [of h us p "q # vs"])
  have "chain h' (us @ [p]) = chain h (us @ [p])"
    by (rule chain_frame) (use d n h' in \<open>auto dest: in_set_tl\<close>)
  moreover have "chain h' (q # vs) = chain h (q # vs)"
    by (rule chain_frame) (use d n h' in \<open>auto dest: in_set_butlastD split: if_splits\<close>)
  moreover have "nxt h' p = n" "nxt h' n = q" "prv h' n = p" "prv h' q = n"
    using n h' by auto
  ultimately show ?thesis using c1 c2 by (simp add: chain_split [of h' us p "n # q # vs"])
qed

lemma chain_splice_out:
  assumes c: "chain h (us @ p # n # q # vs)"
    and d: "distinct (us @ p # butlast (q # vs))" "distinct (tl (us @ [p]) @ q # vs)"
    and n: "n \<notin> set (us @ p # q # vs)"
    and h': "nxt h' = (nxt h)(p := q, n := n)" "prv h' = (prv h)(q := p, n := n)"
  shows "chain h' (us @ p # q # vs)"
proof -
  from c have c1: "chain h (us @ [p])" and c2: "chain h (q # vs)"
    by (simp_all add: chain_split [of h us p "n # q # vs"])
  have "chain h' (us @ [p]) = chain h (us @ [p])"
    by (rule chain_frame) (use d n h' in \<open>auto dest: in_set_tl\<close>)
  moreover have "chain h' (q # vs) = chain h (q # vs)"
    by (rule chain_frame) (use d n h' in \<open>auto dest: in_set_butlastD split: if_splits\<close>)
  moreover have "nxt h' p = q" "prv h' q = p"
    using n h' by auto
  ultimately show ?thesis using c1 c2 by (simp add: chain_split [of h' us p "q # vs"])
qed

text \<open>Both insertions do the same to the neighbours they split.\<close>

lemma insert_after_upd:
  assumes "n \<noteq> p" "n \<noteq> nxt h p"
  shows "nxt (rt_list_insert_after p n h) = (nxt h)(p := n, n := nxt h p)"
    and "prv (rt_list_insert_after p n h) = (prv h)(nxt h p := n, n := p)"
  using assms by (simp_all add: rt_list_insert_after_def Let_def fun_upd_twist)

lemma insert_before_upd:
  assumes "n \<noteq> q" "n \<noteq> prv h q"
  shows "nxt (rt_list_insert_before q n h) = (nxt h)(prv h q := n, n := q)"
    and "prv (rt_list_insert_before q n h) = (prv h)(q := n, n := prv h q)"
  using assms by (simp_all add: rt_list_insert_before_def Let_def fun_upd_twist)

lemma remove_upd:
  assumes "n \<noteq> nxt h n" "n \<noteq> prv h n"
  shows "nxt (rt_list_remove n h) = (nxt h)(prv h n := nxt h n, n := n)"
    and "prv (rt_list_remove n h) = (prv h)(nxt h n := prv h n, n := n)"
  using assms by (simp_all add: rt_list_remove_def Let_def)

lemma chain_neighbours: "chain h (us @ p # q # vs) \<Longrightarrow> nxt h p = q \<and> prv h q = p"
  by (simp add: chain_split [of h us p "q # vs"])

text \<open>The closed walk around a list, split between two neighbours.\<close>

lemma cycle_split:
  "l # (us @ vs) @ [l] =
     butlast (l # us) @ last (l # us) # hd (vs @ [l]) # tl (vs @ [l])"
proof -
  have "butlast (l # us) @ [last (l # us)] = l # us" by (rule append_butlast_last_id) simp
  moreover have "hd (vs @ [l]) # tl (vs @ [l]) = vs @ [l]" by simp
  ultimately show ?thesis by (metis append.assoc append_Cons append_Nil)
qed

lemma is_list_insert:
  assumes l: "is_list h l (us @ vs)" and n: "n \<notin> set (l # us @ vs)"
    and p: "p = last (l # us)" and q: "q = hd (vs @ [l])"
  shows "is_list (rt_list_insert_after p n h) l (us @ n # vs)"
    and "is_list (rt_list_insert_before q n h) l (us @ n # vs)"
proof -
  define as where "as = butlast (l # us)"
  define bs where "bs = tl (vs @ [l])"
  have lu: "l # us = as @ [p]" by (simp add: as_def p)
  have vl: "vs @ [l] = q # bs" by (simp add: bs_def q)
  have cyc: "l # (us @ vs) @ [l] = as @ p # q # bs"
    using lu vl by (metis append.assoc append_Cons append_Nil)
  have cyc': "l # (us @ n # vs) @ [l] = as @ p # n # q # bs"
    using lu vl by (metis append.assoc append_Cons append_Nil)
  have d: "distinct (l # us @ vs)" and c: "chain h (as @ p # q # bs)"
    using l cyc by (simp_all add: is_list_def)
  have d1: "distinct (as @ p # butlast (q # bs))"
  proof -
    have "as @ p # butlast (q # bs) = butlast (as @ p # q # bs)"
      by (simp add: butlast_append)
    then show ?thesis using d by (simp add: cyc [symmetric] butlast_append)
  qed
  have d2: "distinct (tl (as @ [p]) @ q # bs)"
  proof -
    have "tl (as @ [p]) @ q # bs = us @ vs @ [l]"
      using lu vl by (metis list.sel(3))
    then show ?thesis using d by simp
  qed
  have nn: "n \<notin> set (as @ p # q # bs)"
    using n by (simp add: cyc [symmetric])
  have nb: "nxt h p = q" "prv h q = p"
    using chain_neighbours [OF c] by simp_all
  have np: "n \<noteq> p" "n \<noteq> q" using nn by auto
  note splice = chain_splice_in [OF c d1 d2 nn]
  have "chain (rt_list_insert_after p n h) (as @ p # n # q # bs)"
    by (rule splice) (use np nb in \<open>simp_all add: insert_after_upd\<close>)
  then show "is_list (rt_list_insert_after p n h) l (us @ n # vs)"
    using d n unfolding is_list_def cyc' by auto
  have "chain (rt_list_insert_before q n h) (as @ p # n # q # bs)"
    by (rule splice) (use np nb in \<open>simp_all add: insert_before_upd\<close>)
  then show "is_list (rt_list_insert_before q n h) l (us @ n # vs)"
    using d n unfolding is_list_def cyc' by auto
qed

lemma is_list_remove:
  assumes l: "is_list h l (us @ n # vs)"
  shows "is_list (rt_list_remove n h) l (us @ vs)"
    and "nxt (rt_list_remove n h) = (nxt h)(last (l # us) := hd (vs @ [l]), n := n)"
    and "prv (rt_list_remove n h) = (prv h)(hd (vs @ [l]) := last (l # us), n := n)"
proof -
  define p where "p = last (l # us)"
  define q where "q = hd (vs @ [l])"
  define as where "as = butlast (l # us)"
  define bs where "bs = tl (vs @ [l])"
  have lu: "l # us = as @ [p]" by (simp add: as_def p_def)
  have vl: "vs @ [l] = q # bs" by (simp add: bs_def q_def)
  have cyc: "l # (us @ vs) @ [l] = as @ p # q # bs"
    using lu vl by (metis append.assoc append_Cons append_Nil)
  have cyc': "l # (us @ n # vs) @ [l] = as @ p # n # q # bs"
    using lu vl by (metis append.assoc append_Cons append_Nil)
  have d: "distinct (l # us @ n # vs)" and c: "chain h (as @ p # n # q # bs)"
    using l cyc' by (simp_all add: is_list_def)
  have d1: "distinct (as @ p # butlast (q # bs))"
  proof -
    have "as @ p # butlast (q # bs) = butlast (as @ p # q # bs)"
      by (simp add: butlast_append)
    then show ?thesis using d by (simp add: cyc [symmetric] butlast_append)
  qed
  have d2: "distinct (tl (as @ [p]) @ q # bs)"
  proof -
    have "tl (as @ [p]) @ q # bs = us @ vs @ [l]"
      using lu vl by (metis list.sel(3))
    then show ?thesis using d by simp
  qed
  have nn: "n \<notin> set (as @ p # q # bs)"
    using d by (auto simp: cyc [symmetric])
  have nb: "nxt h n = q" "prv h n = p"
    using chain_neighbours [of h "as @ [p]" n q bs] chain_neighbours [of h as p n "q # bs"] c
    by simp_all
  have np: "n \<noteq> p" "n \<noteq> q" using nn by auto
  have upd: "nxt (rt_list_remove n h) = (nxt h)(p := q, n := n)"
    "prv (rt_list_remove n h) = (prv h)(q := p, n := n)"
    using np nb by (simp_all add: remove_upd)
  show "nxt (rt_list_remove n h) = (nxt h)(last (l # us) := hd (vs @ [l]), n := n)"
    and "prv (rt_list_remove n h) = (prv h)(hd (vs @ [l]) := last (l # us), n := n)"
    using upd by (simp_all only: p_def q_def)
  have "chain (rt_list_remove n h) (as @ p # q # bs)"
    by (rule chain_splice_out [OF c d1 d2 nn upd])
  then show "is_list (rt_list_remove n h) l (us @ vs)"
    using d unfolding is_list_def cyc by auto
qed

text \<open>Lists with other nodes are not touched.\<close>

lemma is_list_frame:
  assumes "is_list h l xs"
    and "\<And>a. a \<in> set (l # xs) \<Longrightarrow> nxt h' a = nxt h a \<and> prv h' a = prv h a"
  shows "is_list h' l xs"
proof -
  have "chain h' (l # xs @ [l]) = chain h (l # xs @ [l])"
    by (rule chain_frame) (use assms(2) in \<open>auto dest: in_set_tl in_set_butlastD\<close>)
  then show ?thesis using assms(1) by (simp add: is_list_def)
qed

lemma is_list_isempty: "is_list h l xs \<Longrightarrow> rt_list_isempty l h = (xs = [])"
  by (cases xs) (auto simp: is_list_def rt_list_isempty_def)

lemma len_loop_chain:
  "chain h (p # ys @ [l]) \<Longrightarrow> l \<notin> set ys \<Longrightarrow>
    rt_list_len_loop h l p k = Some (k + of_nat (length ys))"
proof (induction ys arbitrary: p k)
  case Nil
  then show ?case by (subst rt_list_len_loop.simps) simp
next
  case (Cons y ys)
  then show ?case by (subst rt_list_len_loop.simps) (auto simp: add.assoc)
qed

lemma is_list_len: "is_list h l xs \<Longrightarrow> rt_list_len h l = Some (of_nat (length xs))"
  using len_loop_chain [of h l xs l 0] by (simp add: is_list_def rt_list_len_def)

section \<open>The store level\<close>

record ('h, 'n) lstore =
  items :: "'h \<Rightarrow> 'n list"
  home :: "'n \<Rightarrow> 'h option"

definition lstore_ok :: "('h, 'n) lstore \<Rightarrow> bool" where
  "lstore_ok S = ((\<forall>h. distinct (items S h)) \<and> (\<forall>n h. n \<in> set (items S h) \<longleftrightarrow> home S n = Some h))"

definition empty_lstore :: "('h, 'n) lstore" where
  "empty_lstore = \<lparr>items = (\<lambda>_. []), home = (\<lambda>_. None)\<rparr>"

text \<open>Insertion before a head appends, insertion after a head prepends.\<close>

definition ls_set :: "'h \<Rightarrow> 'n list \<Rightarrow> 'n \<Rightarrow> ('h, 'n) lstore \<Rightarrow> ('h, 'n) lstore" where
  "ls_set h ns n S = S\<lparr>items := (items S)(h := ns), home := (home S)(n := Some h)\<rparr>"

definition ls_insert_before :: "'h \<Rightarrow> 'n \<Rightarrow> ('h, 'n) lstore \<Rightarrow> ('h, 'n) lstore option" where
  "ls_insert_before h n S = (if home S n = None then Some (ls_set h (items S h @ [n]) n S) else None)"

definition ls_insert_after :: "'h \<Rightarrow> 'n \<Rightarrow> ('h, 'n) lstore \<Rightarrow> ('h, 'n) lstore option" where
  "ls_insert_after h n S = (if home S n = None then Some (ls_set h (n # items S h) n S) else None)"

text \<open>Insertion next to a node \<open>m\<close> that is in a list.\<close>

fun list_ins_before :: "'a \<Rightarrow> 'a \<Rightarrow> 'a list \<Rightarrow> 'a list" where
  "list_ins_before m n [] = []"
| "list_ins_before m n (x # xs) = (if x = m then n # x # xs else x # list_ins_before m n xs)"

fun list_ins_after :: "'a \<Rightarrow> 'a \<Rightarrow> 'a list \<Rightarrow> 'a list" where
  "list_ins_after m n [] = []"
| "list_ins_after m n (x # xs) = (if x = m then x # n # xs else x # list_ins_after m n xs)"

definition ls_insert_before_node :: "'n \<Rightarrow> 'n \<Rightarrow> ('h, 'n) lstore \<Rightarrow> ('h, 'n) lstore option" where
  "ls_insert_before_node m n S =
     (case home S m of
        Some h \<Rightarrow>
          (if home S n = None then Some (ls_set h (list_ins_before m n (items S h)) n S) else None)
      | None \<Rightarrow> None)"

definition ls_insert_after_node :: "'n \<Rightarrow> 'n \<Rightarrow> ('h, 'n) lstore \<Rightarrow> ('h, 'n) lstore option" where
  "ls_insert_after_node m n S =
     (case home S m of
        Some h \<Rightarrow>
          (if home S n = None then Some (ls_set h (list_ins_after m n (items S h)) n S) else None)
      | None \<Rightarrow> None)"

definition ls_remove :: "'n \<Rightarrow> ('h, 'n) lstore \<Rightarrow> ('h, 'n) lstore" where
  "ls_remove n S =
     (case home S n of
        Some h \<Rightarrow> S\<lparr>items := (items S)(h := without n (items S h)), home := (home S)(n := None)\<rparr>
      | None \<Rightarrow> S)"

text \<open>\<^verbatim>\<open>rt_list_init\<close> of an embedded node: harmless where the node is in no list.\<close>

definition ls_init_node :: "'n \<Rightarrow> ('h, 'n) lstore \<Rightarrow> ('h, 'n) lstore option" where
  "ls_init_node n S = (if home S n = None then Some S else None)"

lemma ls_set_fields [simp]:
  "items (ls_set h ns n S) = (items S)(h := ns)"
  "home (ls_set h ns n S) = (home S)(n := Some h)"
  by (simp_all add: ls_set_def)

lemma lstore_okD:
  assumes "lstore_ok S"
  shows "distinct (items S h)" and "n \<in> set (items S h) \<longleftrightarrow> home S n = Some h"
  using assms by (auto simp: lstore_ok_def)

lemma lstore_okI:
  assumes "\<And>h. distinct (items S h)" and "\<And>n h. n \<in> set (items S h) \<longleftrightarrow> home S n = Some h"
  shows "lstore_ok S"
  using assms by (auto simp: lstore_ok_def)

lemma list_ins_split:
  "m \<notin> set us \<Longrightarrow> list_ins_before m n (us @ m # vs) = us @ n # m # vs"
  "m \<notin> set us \<Longrightarrow> list_ins_after m n (us @ m # vs) = us @ m # n # vs"
  by (induction us) auto

lemma set_list_ins:
  "m \<in> set xs \<Longrightarrow> set (list_ins_before m n xs) = insert n (set xs)"
  "m \<in> set xs \<Longrightarrow> set (list_ins_after m n xs) = insert n (set xs)"
  by (induction xs) auto

lemma list_ins_absent:
  "m \<notin> set xs \<Longrightarrow> list_ins_before m n xs = xs"
  "m \<notin> set xs \<Longrightarrow> list_ins_after m n xs = xs"
  by (induction xs) auto

lemma distinct_list_ins:
  "distinct xs \<Longrightarrow> n \<notin> set xs \<Longrightarrow> distinct (list_ins_before m n xs)"
  "distinct xs \<Longrightarrow> n \<notin> set xs \<Longrightarrow> distinct (list_ins_after m n xs)"
proof (induction xs)
  case (Cons x xs)
  { case 1
    then show ?case
      using Cons.IH(1) by (cases "m \<in> set xs") (auto simp: set_list_ins list_ins_absent) }
  { case 2
    then show ?case
      using Cons.IH(2) by (cases "m \<in> set xs") (auto simp: set_list_ins list_ins_absent) }
qed auto

lemma lstore_ok_empty [simp]: "lstore_ok empty_lstore"
  by (simp add: lstore_ok_def empty_lstore_def)

lemma lstore_ok_insert_before:
  "lstore_ok S \<Longrightarrow> ls_insert_before h n S = Some S' \<Longrightarrow> lstore_ok S'"
  by (auto simp: lstore_ok_def ls_insert_before_def ls_set_def split: if_splits)

lemma lstore_ok_insert_after:
  "lstore_ok S \<Longrightarrow> ls_insert_after h n S = Some S' \<Longrightarrow> lstore_ok S'"
  by (auto simp: lstore_ok_def ls_insert_after_def ls_set_def split: if_splits)

lemma lstore_ok_insert_before_node:
  assumes "lstore_ok S" and "ls_insert_before_node m n S = Some S'"
  shows "lstore_ok S'"
  using assms
  by (auto simp: lstore_ok_def ls_insert_before_node_def ls_set_def set_list_ins distinct_list_ins
      split: if_splits option.splits)

lemma lstore_ok_insert_after_node:
  assumes "lstore_ok S" and "ls_insert_after_node m n S = Some S'"
  shows "lstore_ok S'"
  using assms
  by (auto simp: lstore_ok_def ls_insert_after_node_def ls_set_def set_list_ins distinct_list_ins
      split: if_splits option.splits)

lemma lstore_ok_put:
  assumes ok: "lstore_ok S" and n: "home S n = None" and uv: "items S l = us @ vs"
  shows "lstore_ok (ls_set l (us @ n # vs) n S)"
  unfolding ls_set_def
proof (rule lstore_okI)
  note mem = lstore_okD(2) [OF ok] and dis = lstore_okD(1) [OF ok]
  have "n \<notin> set (us @ vs)" using mem [of n l] n uv by simp
  then have d: "distinct (us @ n # vs)" using dis [of l] uv by auto
  show "distinct (items (S\<lparr>items := (items S)(l := us @ n # vs), home := (home S)(n := Some l)\<rparr>) h)"
    for h using d dis [of h] by simp
  have ml: "m \<in> set us \<or> m \<in> set vs \<longleftrightarrow> home S m = Some l" for m
    using mem [of m l] uv by simp
  show "(m \<in> set (items (S\<lparr>items := (items S)(l := us @ n # vs), home := (home S)(n := Some l)\<rparr>) h))
      = (home (S\<lparr>items := (items S)(l := us @ n # vs), home := (home S)(n := Some l)\<rparr>) m = Some h)" for m h
    using ml [of m] mem [of m h] n by auto
qed

lemma lstore_ok_remove: "lstore_ok S \<Longrightarrow> lstore_ok (ls_remove n S)"
  by (auto simp: lstore_ok_def ls_remove_def split: option.splits)

lemma items_remove:
  assumes "lstore_ok S"
  shows "items (ls_remove n S) h = without n (items S h)"
    and "home (ls_remove n S) = (home S)(n := None)"
proof -
  show "items (ls_remove n S) h = without n (items S h)"
  proof (cases "home S n")
    case None
    then have "n \<notin> set (items S h)" using lstore_okD(2) [OF assms, of n h] by simp
    then show ?thesis using None by (simp add: ls_remove_def)
  next
    case (Some h')
    then show ?thesis
      using lstore_okD(2) [OF assms, of n h] by (auto simp: ls_remove_def)
  qed
  show "home (ls_remove n S) = (home S)(n := None)"
    by (cases "home S n") (auto simp: ls_remove_def)
qed

section \<open>The contract of an intrusive list store\<close>

text \<open>What the scheduler, the timers and the IPC objects rely on: nodes have one home, insertion at a
  head puts a free node at one of the two ends, removal frees the node, wherever it is.\<close>

locale list_store =
  fixes ok :: "'s \<Rightarrow> bool"
    and seq :: "'s \<Rightarrow> 'h \<Rightarrow> 'n list"
    and free :: "'s \<Rightarrow> 'n \<Rightarrow> bool"
    and ins_last :: "'h \<Rightarrow> 'n \<Rightarrow> 's \<Rightarrow> 's option"
    and ins_first :: "'h \<Rightarrow> 'n \<Rightarrow> 's \<Rightarrow> 's option"
    and del :: "'n \<Rightarrow> 's \<Rightarrow> 's"
  assumes seq_distinct: "ok s \<Longrightarrow> distinct (seq s h)"
    and seq_disjoint: "ok s \<Longrightarrow> h \<noteq> h' \<Longrightarrow> set (seq s h) \<inter> set (seq s h') = {}"
    and free_iff: "ok s \<Longrightarrow> free s n \<longleftrightarrow> (\<forall>h. n \<notin> set (seq s h))"
    and ins_last_free: "ok s \<Longrightarrow> free s n \<Longrightarrow>
      \<exists>s'. ins_last h n s = Some s' \<and> ok s' \<and> seq s' = (seq s)(h := seq s h @ [n])"
    and ins_first_free: "ok s \<Longrightarrow> free s n \<Longrightarrow>
      \<exists>s'. ins_first h n s = Some s' \<and> ok s' \<and> seq s' = (seq s)(h := n # seq s h)"
    and ins_linked: "ok s \<Longrightarrow> \<not> free s n \<Longrightarrow> ins_last h n s = None \<and> ins_first h n s = None"
    and del_ok: "ok s \<Longrightarrow> ok (del n s)"
    and del_seq: "ok s \<Longrightarrow> seq (del n s) h = without n (seq s h)"
begin

lemma free_del: "ok s \<Longrightarrow> free (del n s) n"
  by (simp add: free_iff del_ok del_seq)

lemma del_free: "ok s \<Longrightarrow> free s n \<Longrightarrow> seq (del n s) = seq s"
  by (rule ext) (simp add: del_seq free_iff)

text \<open>Moving a node always succeeds: the removal frees it first.\<close>

lemma move_last:
  assumes "ok s"
  shows "\<exists>s'. ins_last h n (del n s) = Some s' \<and> ok s' \<and>
    seq s' = (\<lambda>k. without n (seq s k))(h := without n (seq s h) @ [n])"
proof -
  obtain s' where s': "ins_last h n (del n s) = Some s'" "ok s'"
    "seq s' = (seq (del n s))(h := seq (del n s) h @ [n])"
    using ins_last_free [OF del_ok [OF assms] free_del [OF assms]] by blast
  moreover have "seq (del n s) = (\<lambda>k. without n (seq s k))"
    by (rule ext) (simp add: del_seq [OF assms])
  ultimately show ?thesis by auto
qed

text \<open>One turn of round robin: the first node of a list goes to its end.\<close>

lemma rotate:
  assumes "ok s" and "seq s h = n # ns"
  shows "\<exists>s'. ins_last h n (del n s) = Some s' \<and> ok s' \<and> seq s' h = ns @ [n]"
  using move_last [OF assms(1), of h n] seq_distinct [OF assms(1), of h] assms(2) by auto

lemma insert_then_delete:
  assumes "ok s" and "free s n" and "ins_first h n s = Some s'"
  shows "seq (del n s') = seq s"
proof (rule ext)
  fix k
  from ins_first_free [OF assms(1,2), of h] assms(3)
  have "ok s' \<and> seq s' = (seq s)(h := n # seq s h)" by auto
  then show "seq (del n s') k = seq s k"
    using assms(1,2) by (auto simp: del_seq free_iff)
qed

end

interpretation ls: list_store lstore_ok items "\<lambda>S n. home S n = None"
  ls_insert_before ls_insert_after ls_remove
proof unfold_locales
  fix s :: "('h, 'n) lstore" and h h' n
  assume ok: "lstore_ok s"
  show "distinct (items s h)" by (rule lstore_okD [OF ok])
  show "h \<noteq> h' \<Longrightarrow> set (items s h) \<inter> set (items s h') = {}"
    using lstore_okD(2) [OF ok] by auto
  show "(home s n = None) = (\<forall>h. n \<notin> set (items s h))"
    using lstore_okD(2) [OF ok] by auto
  show "lstore_ok (ls_remove n s)" by (rule lstore_ok_remove [OF ok])
  show "items (ls_remove n s) h = without n (items s h)" by (rule items_remove [OF ok])
next
  fix s :: "('h, 'n) lstore" and n h
  assume "lstore_ok s" "home s n = None"
  then show "\<exists>s'. ls_insert_before h n s = Some s' \<and> lstore_ok s' \<and>
      items s' = (items s)(h := items s h @ [n])"
    and "\<exists>s'. ls_insert_after h n s = Some s' \<and> lstore_ok s' \<and>
      items s' = (items s)(h := n # items s h)"
    by (auto simp: ls_insert_before_def ls_insert_after_def ls_set_def lstore_ok_def)
qed (simp add: ls_insert_before_def ls_insert_after_def)

section \<open>The pointer level implements the store\<close>

datatype ('h, 'n) lnode = Head 'h | Node 'n

definition rep :: "('h, 'n) lnode lheap \<Rightarrow> ('h, 'n) lstore \<Rightarrow> bool" where
  "rep h S = (lstore_ok S \<and> (\<forall>l. is_list h (Head l) (map Node (items S l))) \<and>
     (\<forall>n. home S n = None \<longrightarrow> nxt h (Node n) = Node n \<and> prv h (Node n) = Node n))"

lemma repD:
  assumes "rep h S"
  shows "lstore_ok S" and "is_list h (Head l) (map Node (items S l))"
    and "home S n = None \<Longrightarrow> nxt h (Node n) = Node n \<and> prv h (Node n) = Node n"
  using assms by (auto simp: rep_def)

text \<open>A change confined to one list and one node leaves the representation of the others.\<close>

lemma rep_update:
  assumes r: "rep h S" and ok: "lstore_ok S'"
    and eq: "\<And>k. k \<noteq> l \<Longrightarrow> items S' k = items S k"
    and un: "\<And>m. home S' m = None \<Longrightarrow> m = n \<or> home S m = None"
    and new: "is_list h' (Head l) (map Node (items S' l))"
    and frame: "\<And>x. x \<noteq> Head l \<Longrightarrow> x \<notin> Node ` set (items S l) \<Longrightarrow> x \<noteq> Node n \<Longrightarrow>
       nxt h' x = nxt h x \<and> prv h' x = prv h x"
    and n: "home S n = None \<or> home S n = Some l"
    and self: "home S' n = None \<Longrightarrow> nxt h' (Node n) = Node n \<and> prv h' (Node n) = Node n"
  shows "rep h' S'"
proof -
  have ok0: "lstore_ok S" by (rule repD [OF r])
  note mem = lstore_okD(2) [OF ok0]
  have lists: "is_list h' (Head k) (map Node (items S' k))" for k
  proof (cases "k = l")
    case False
    have "is_list h' (Head k) (map Node (items S k))"
      by (rule is_list_frame [OF repD(2) [OF r]], rule frame) (use False mem n in auto)
    then show ?thesis using eq [OF False] by simp
  qed (use new in simp)
  have "nxt h' (Node m) = Node m \<and> prv h' (Node m) = Node m" if m: "home S' m = None" for m
  proof (cases "m = n")
    case False
    with un [OF m] have hm: "home S m = None" by simp
    then have "nxt h' (Node m) = nxt h (Node m) \<and> prv h' (Node m) = prv h (Node m)"
      using False mem by (intro frame) auto
    then show ?thesis using repD(3) [OF r hm] by simp
  qed (use self m in simp)
  with lists ok show ?thesis by (simp add: rep_def)
qed

lemma rep_insert:
  assumes r: "rep h S" and n: "home S n = None" and uv: "items S l = us @ vs"
    and S': "S' = ls_set l (us @ n # vs) n S"
  shows "rep (rt_list_insert_after (last (Head l # map Node us)) (Node n) h) S'"
    and "rep (rt_list_insert_before (hd (map Node vs @ [Head l])) (Node n) h) S'"
proof -
  define p where "p = last (Head l # map Node us)"
  define q where "q = hd (map Node vs @ [Head l])"
  have ok0: "lstore_ok S" by (rule repD [OF r])
  have ok: "lstore_ok S'"
    unfolding S' by (rule lstore_ok_put [OF ok0 n uv])
  have il: "is_list h (Head l) (map Node us @ map Node vs)"
    using repD(2) [OF r, of l] uv by simp
  have fresh: "Node n \<notin> set (Head l # map Node us @ map Node vs)"
    using n lstore_okD(2) [OF ok0, of n l] uv by auto
  have pq: "nxt h p = q" "prv h q = p"
    using il chain_neighbours
    unfolding is_list_def cycle_split p_def [symmetric] q_def [symmetric] by fast+
  have pin: "p = Head l \<or> p \<in> Node ` set (items S l)"
    unfolding p_def uv by (cases us rule: rev_cases) auto
  have qin: "q = Head l \<or> q \<in> Node ` set (items S l)"
    unfolding q_def uv by (cases vs) auto
  have np: "Node n \<noteq> p" "Node n \<noteq> q"
    using fresh pin qin uv by auto
  note ins = is_list_insert [OF il fresh p_def q_def]
  have a: "rep (rt_list_insert_after p (Node n) h) S'"
  proof (rule rep_update [OF r ok, where l = l and n = n])
    show "is_list (rt_list_insert_after p (Node n) h) (Head l) (map Node (items S' l))"
      using ins(1) by (simp add: S' ls_set_def)
  qed (use np pq pin qin n in \<open>auto simp: S' ls_set_def insert_after_upd split: if_splits\<close>)
  have b: "rep (rt_list_insert_before q (Node n) h) S'"
  proof (rule rep_update [OF r ok, where l = l and n = n])
    show "is_list (rt_list_insert_before q (Node n) h) (Head l) (map Node (items S' l))"
      using ins(2) by (simp add: S' ls_set_def)
  qed (use np pq pin qin n in \<open>auto simp: S' ls_set_def insert_before_upd split: if_splits\<close>)
  show "rep (rt_list_insert_after (last (Head l # map Node us)) (Node n) h) S'"
    using a by (simp only: p_def)
  show "rep (rt_list_insert_before (hd (map Node vs @ [Head l])) (Node n) h) S'"
    using b by (simp only: q_def)
qed

lemma rep_insert_before_head:
  assumes "rep h S" and "ls_insert_before l n S = Some S'"
  shows "rep (rt_list_insert_before (Head l) (Node n) h) S'"
  using rep_insert(2) [OF assms(1), of n l "items S l" "[]"] assms(2)
  by (simp add: ls_insert_before_def split: if_splits)

lemma rep_insert_after_head:
  assumes "rep h S" and "ls_insert_after l n S = Some S'"
  shows "rep (rt_list_insert_after (Head l) (Node n) h) S'"
  using rep_insert(1) [OF assms(1), of n l "[]" "items S l"] assms(2)
  by (simp add: ls_insert_after_def split: if_splits)

lemma home_split:
  assumes "lstore_ok S" and "home S m = Some l"
  obtains us vs where "items S l = us @ m # vs" and "m \<notin> set us"
  using assms lstore_okD(2) [OF assms(1), of m l] by (metis split_list_first)

lemma rep_insert_before_node:
  assumes r: "rep h S" and i: "ls_insert_before_node m n S = Some S'"
  shows "rep (rt_list_insert_before (Node m) (Node n) h) S'"
proof -
  from i obtain l where l: "home S m = Some l" and n: "home S n = None"
    by (auto simp: ls_insert_before_node_def split: option.splits if_splits)
  obtain us vs where uv: "items S l = us @ m # vs" "m \<notin> set us"
    using home_split [OF repD(1) [OF r] l] .
  show ?thesis
    using rep_insert(2) [OF r n uv(1)] i l n uv by (simp add: ls_insert_before_node_def list_ins_split)
qed

lemma rep_insert_after_node:
  assumes r: "rep h S" and i: "ls_insert_after_node m n S = Some S'"
  shows "rep (rt_list_insert_after (Node m) (Node n) h) S'"
proof -
  from i obtain l where l: "home S m = Some l" and n: "home S n = None"
    by (auto simp: ls_insert_after_node_def split: option.splits if_splits)
  obtain us vs where uv: "items S l = us @ m # vs" "m \<notin> set us"
    using home_split [OF repD(1) [OF r] l] .
  show ?thesis
    using rep_insert(1) [OF r n, of l "us @ [m]" vs] i l n uv
    by (simp add: ls_insert_after_node_def list_ins_split)
qed

lemma rep_remove:
  assumes r: "rep h S"
  shows "rep (rt_list_remove (Node n) h) (ls_remove n S)"
proof (cases "home S n")
  case None
  have "nxt h (Node n) = Node n" "prv h (Node n) = Node n"
    using repD(3) [OF r None] by simp_all
  then have "rt_list_remove (Node n) h = h"
    by (simp add: rt_list_remove_def Let_def fun_upd_idem)
  then show ?thesis using r None by (simp add: ls_remove_def)
next
  case (Some l)
  note ok = repD(1) [OF r]
  obtain us vs where uv: "items S l = us @ n # vs" "n \<notin> set us"
    using home_split [OF ok Some] .
  have d: "n \<notin> set vs" using lstore_okD(1) [OF ok, of l] uv by simp
  have il: "is_list h (Head l) (map Node us @ Node n # map Node vs)"
    using repD(2) [OF r, of l] uv by simp
  note rm = is_list_remove [OF il]
  have ends: "last (Head l # map Node us) \<in> insert (Head l) (Node ` set (items S l))"
    "hd (map Node vs @ [Head l]) \<in> insert (Head l) (Node ` set (items S l))"
    unfolding uv by (cases us rule: rev_cases; simp) (cases vs; simp)
  show ?thesis
  proof (rule rep_update [OF r lstore_ok_remove [OF ok], where l = l and n = n])
    show "is_list (rt_list_remove (Node n) h) (Head l) (map Node (items (ls_remove n S) l))"
      using rm(1) uv d by (simp add: items_remove [OF ok])
  qed (use ends rm(2,3) Some in \<open>auto simp: ls_remove_def split: if_splits\<close>)
qed

text \<open>
  The operations of a run, at both levels. A run of the store that never links a linked node is
  matched step by step by the pointer code.
\<close>

datatype ('h, 'n) list_op =
    Ins_last 'h 'n
  | Ins_first 'h 'n
  | Ins_before_node 'n 'n
  | Ins_after_node 'n 'n
  | Del 'n

fun exec_store :: "('h, 'n) list_op \<Rightarrow> ('h, 'n) lstore \<Rightarrow> ('h, 'n) lstore option" where
  "exec_store (Ins_last l n) S = ls_insert_before l n S"
| "exec_store (Ins_first l n) S = ls_insert_after l n S"
| "exec_store (Ins_before_node m n) S = ls_insert_before_node m n S"
| "exec_store (Ins_after_node m n) S = ls_insert_after_node m n S"
| "exec_store (Del n) S = Some (ls_remove n S)"

fun exec_heap :: "('h, 'n) list_op \<Rightarrow> ('h, 'n) lnode lheap \<Rightarrow> ('h, 'n) lnode lheap" where
  "exec_heap (Ins_last l n) h = rt_list_insert_before (Head l) (Node n) h"
| "exec_heap (Ins_first l n) h = rt_list_insert_after (Head l) (Node n) h"
| "exec_heap (Ins_before_node m n) h = rt_list_insert_before (Node m) (Node n) h"
| "exec_heap (Ins_after_node m n) h = rt_list_insert_after (Node m) (Node n) h"
| "exec_heap (Del n) h = rt_list_remove (Node n) h"

fun run_store :: "('h, 'n) list_op list \<Rightarrow> ('h, 'n) lstore \<Rightarrow> ('h, 'n) lstore option" where
  "run_store [] S = Some S"
| "run_store (x # xs) S = exec_store x S \<bind> run_store xs"

lemma exec_simulation: "rep h S \<Longrightarrow> exec_store x S = Some S' \<Longrightarrow> rep (exec_heap x h) S'"
  by (cases x) (auto intro: rep_insert_before_head rep_insert_after_head rep_insert_before_node
      rep_insert_after_node rep_remove)

lemma run_simulation: "rep h S \<Longrightarrow> run_store xs S = Some S' \<Longrightarrow> rep (fold exec_heap xs h) S'"
proof (induction xs arbitrary: h S)
  case (Cons x xs)
  then obtain T where "exec_store x S = Some T" and "run_store xs T = Some S'"
    by (auto simp: bind_Some_ex)
  then show ?case using Cons.IH [OF exec_simulation [OF Cons.prems(1)]] by simp
qed simp

definition fresh_heap :: "'a lheap" where
  "fresh_heap = \<lparr>nxt = (\<lambda>x. x), prv = (\<lambda>x. x)\<rparr>"

lemma rep_fresh: "rep fresh_heap empty_lstore"
  by (simp add: rep_def fresh_heap_def is_list_def) (simp add: empty_lstore_def)

section \<open>Properties\<close>

text \<open>C1. The pointer code of the intrusive lists computes the abstract lists: from initialised heads and
  nodes, any sequence of insertions at either end, insertions next to a node and removals that never
  links a linked node leaves memory in which every head reaches exactly its abstract sequence,
  forwards and backwards, and every free node points to itself.\<close>

theorem list_code_refines_store:
  assumes "run_store xs empty_lstore = Some S"
  shows "rep (fold exec_heap xs fresh_heap) S"
  by (rule run_simulation [OF rep_fresh assms])

definition demo_ops :: "(nat, nat) list_op list" where
  "demo_ops = [Ins_last 0 10, Ins_last 0 11, Ins_first 0 12, Ins_after_node 12 13, Del 11, Ins_last 1 11]"

lemma demo_ops_run: "\<exists>S. run_store demo_ops empty_lstore = Some S \<and> items S 0 = [12, 13, 10] \<and> items S 1 = [11]"
  by (simp add: demo_ops_def ls_insert_before_def ls_insert_after_def ls_insert_after_node_def
      ls_remove_def empty_lstore_def ls_set_def)

theorem list_code_refines_store_witness:
  "\<exists>S. items S 0 = [12, 13, 10] \<and> rep (fold exec_heap demo_ops fresh_heap) S"
  using demo_ops_run list_code_refines_store [of demo_ops] by blast

text \<open>On a well-formed list \<^verbatim>\<open>rt_list_len\<close> terminates and returns the number of nodes (modulo the
  width of \<^verbatim>\<open>unsigned int\<close>), and \<^verbatim>\<open>rt_list_isempty\<close> tells whether there are none.\<close>

theorem list_len_isempty:
  assumes "is_list h l xs"
  shows "rt_list_len h l = Some (of_nat (length xs)) \<and> rt_list_isempty l h = (xs = [])"
  using assms by (simp add: is_list_len is_list_isempty)

theorem list_len_isempty_witness:
  "rt_list_len (rt_list_insert_before (0 :: nat) 1 fresh_heap) 0 = Some 1"
proof -
  have "is_list (rt_list_insert_before (0 :: nat) 1 fresh_heap) 0 [1]"
    by (simp add: is_list_def rt_list_insert_before_def fresh_heap_def Let_def)
  from list_len_isempty [OF this] show ?thesis by simp
qed

end
