(* ===== verification/Rt_Kservice.thy ===== *)
theory Rt_Kservice
  imports Rt_Prelude
begin

text \<open>
  Kernel services of \<^verbatim>\<open>src/kservice.c\<close>: the find-first-set routine the scheduler selects the
  highest ready priority with (the 256-entry table variant: neither \<^verbatim>\<open>RT_USING_CPU_FFS\<close> nor
  \<^verbatim>\<open>RT_USING_TINY_FFS\<close> is configured), and the bounded string copy and comparison object names go
  through. A C string is the list of its characters; the end of the list, or a NUL in it, ends it.
\<close>

section \<open>Find first set\<close>

definition lowest_bit_bitmap :: "nat list" where
  "lowest_bit_bitmap =
     [0, 0, 1, 0, 2, 0, 1, 0, 3, 0, 1, 0, 2, 0, 1, 0,
      4, 0, 1, 0, 2, 0, 1, 0, 3, 0, 1, 0, 2, 0, 1, 0,
      5, 0, 1, 0, 2, 0, 1, 0, 3, 0, 1, 0, 2, 0, 1, 0,
      4, 0, 1, 0, 2, 0, 1, 0, 3, 0, 1, 0, 2, 0, 1, 0,
      6, 0, 1, 0, 2, 0, 1, 0, 3, 0, 1, 0, 2, 0, 1, 0,
      4, 0, 1, 0, 2, 0, 1, 0, 3, 0, 1, 0, 2, 0, 1, 0,
      5, 0, 1, 0, 2, 0, 1, 0, 3, 0, 1, 0, 2, 0, 1, 0,
      4, 0, 1, 0, 2, 0, 1, 0, 3, 0, 1, 0, 2, 0, 1, 0,
      7, 0, 1, 0, 2, 0, 1, 0, 3, 0, 1, 0, 2, 0, 1, 0,
      4, 0, 1, 0, 2, 0, 1, 0, 3, 0, 1, 0, 2, 0, 1, 0,
      5, 0, 1, 0, 2, 0, 1, 0, 3, 0, 1, 0, 2, 0, 1, 0,
      4, 0, 1, 0, 2, 0, 1, 0, 3, 0, 1, 0, 2, 0, 1, 0,
      6, 0, 1, 0, 2, 0, 1, 0, 3, 0, 1, 0, 2, 0, 1, 0,
      4, 0, 1, 0, 2, 0, 1, 0, 3, 0, 1, 0, 2, 0, 1, 0,
      5, 0, 1, 0, 2, 0, 1, 0, 3, 0, 1, 0, 2, 0, 1, 0,
      4, 0, 1, 0, 2, 0, 1, 0, 3, 0, 1, 0, 2, 0, 1, 0]"

definition rt_ffs :: "u32 \<Rightarrow> nat" where
  "rt_ffs value =
     (if value = 0 then 0
      else if value AND 0xff \<noteq> 0
      then lowest_bit_bitmap ! unat (value AND 0xff) + 1
      else if value AND 0xff00 \<noteq> 0
      then lowest_bit_bitmap ! unat (drop_bit 8 (value AND 0xff00)) + 9
      else if value AND 0xff0000 \<noteq> 0
      then lowest_bit_bitmap ! unat (drop_bit 16 (value AND 0xff0000)) + 17
      else lowest_bit_bitmap ! unat (drop_bit 24 (value AND 0xff000000)) + 25)"

text \<open>The specification: one plus the position of the lowest set bit.\<close>

definition is_lowest_bit :: "'a :: semiring_bit_operations \<Rightarrow> nat \<Rightarrow> bool" where
  "is_lowest_bit v n = (bit v n \<and> (\<forall>j < n. \<not> bit v j))"

lemma is_lowest_bit_unique: "is_lowest_bit v m \<Longrightarrow> is_lowest_bit v n \<Longrightarrow> m = n"
  by (meson is_lowest_bit_def linorder_neqE_nat)

text \<open>A table entry is right when its index is an odd multiple of that power of two. The check runs
  along the table once, with the index counted up beside it.\<close>

fun table_ok :: "nat list \<Rightarrow> nat \<Rightarrow> bool" where
  "table_ok [] b = True"
| "table_ok (t # ts) b = ((b = 0 \<or> b mod 2 ^ t = 0 \<and> b div 2 ^ t mod 2 = 1) \<and> table_ok ts (b + 1))"

lemma bitmap_table_ok: "table_ok lowest_bit_bitmap 0"
  by (simp add: lowest_bit_bitmap_def)

lemma length_bitmap: "length lowest_bit_bitmap = 256"
  by (simp add: lowest_bit_bitmap_def)

lemma table_ok_nth:
  "table_ok ts b \<Longrightarrow> i < length ts \<Longrightarrow>
    b + i = 0 \<or> (b + i) mod 2 ^ (ts ! i) = 0 \<and> (b + i) div 2 ^ (ts ! i) mod 2 = 1"
proof (induction ts arbitrary: b i)
  case (Cons t ts)
  show ?case
  proof (cases i)
    case (Suc k)
    then show ?thesis using Cons.IH [of "b + 1" k] Cons.prems by simp
  qed (use Cons.prems in auto)
qed simp

lemma odd_multiple_lowest:
  assumes "(b :: nat) mod 2 ^ t = 0" and "b div 2 ^ t mod 2 = 1"
  shows "is_lowest_bit b t"
proof -
  have t: "take_bit t b = 0" using assms(1) by (simp add: take_bit_eq_mod)
  have "\<not> bit b j" if "j < t" for j
    using t that by (metis bit_0_eq bit_take_bit_iff bot_apply bot_bool_def)
  moreover have "bit b t" using assms(2) by (simp add: bit_iff_odd odd_iff_mod_2_eq_one)
  ultimately show ?thesis by (simp add: is_lowest_bit_def)
qed

lemma bitmap_lowest:
  assumes "b < 256" and "b \<noteq> 0"
  shows "is_lowest_bit b (lowest_bit_bitmap ! b)"
  using table_ok_nth [OF bitmap_table_ok, of b] assms
  by (intro odd_multiple_lowest) (simp_all add: length_bitmap)

text \<open>A byte of the value, as the index into the table.\<close>

lemma byte_index:
  fixes v :: u32
  assumes m: "m = push_bit k 0xff" and k: "k \<le> 24"
  shows "unat (drop_bit k (v AND m)) < 256"
    and "bit (unat (drop_bit k (v AND m))) j = (j < 8 \<and> bit v (k + j))"
proof -
  have ff: "bit (0xff :: int) j = (j < 8)" for j
  proof -
    have m8: "(0xff :: int) = mask 8" by (simp add: mask_eq_exp_minus_1)
    show ?thesis unfolding m8 bit_mask_iff by auto
  qed
  have b: "bit (drop_bit k (v AND m)) j = (j < 8 \<and> bit v (k + j))" for j
    using k by (auto simp: m bit_drop_bit_eq bit_and_iff bit_push_bit_iff ff dest: bit_imp_le_length)
  then show "bit (unat (drop_bit k (v AND m))) j = (j < 8 \<and> bit v (k + j))"
    by (simp add: bit_unsigned_iff)
  have "drop_bit k (v AND m) = take_bit 8 (drop_bit k (v AND m))"
    by (rule bit_word_eqI) (auto simp only: bit_take_bit_iff b)
  then have "unat (drop_bit k (v AND m)) = take_bit 8 (unat (drop_bit k (v AND m)))"
    by (metis unsigned_take_bit_eq)
  then show "unat (drop_bit k (v AND m)) < 256"
    using take_bit_nat_less_exp [of 8 "unat (drop_bit k (v AND m))"] by simp
qed

lemma byte_nonzero:
  fixes v :: u32
  assumes m: "m = push_bit k 0xff" and k: "k \<le> 24"
  shows "(v AND m \<noteq> 0) = (\<exists>j < 8. bit v (k + j))"
proof -
  have e: "drop_bit k (v AND m) = 0 \<longleftrightarrow> v AND m = 0"
  proof
    assume z: "drop_bit k (v AND m) = 0"
    show "v AND m = 0"
    proof (rule bit_word_eqI)
      fix n
      have "bit (v AND m) (k + (n - k)) = False"
        using z by (metis bit_0_eq bit_drop_bit_eq bot_apply bot_bool_def comp_apply)
      then show "bit (v AND m) n = bit 0 n"
        by (cases "k \<le> n") (auto simp: m bit_and_iff bit_push_bit_iff)
    qed
  qed simp
  have "drop_bit k (v AND m) = 0 \<longleftrightarrow> (\<forall>j. \<not> bit (unat (drop_bit k (v AND m))) j)"
    by (metis bit_0_eq bit_eq_iff bot_apply bot_bool_def unat_eq_zero)
  then show ?thesis using e byte_index(2) [OF m k] by metis
qed

text \<open>One step of the cascade: no bit below byte \<open>k\<close>, some bit in it.\<close>

lemma byte_lowest:
  fixes v :: u32
  assumes m: "m = push_bit k 0xff" and k: "k \<le> 24"
    and nz: "v AND m \<noteq> 0" and below: "\<forall>j < k. \<not> bit v j"
  shows "is_lowest_bit v (lowest_bit_bitmap ! unat (drop_bit k (v AND m)) + k)"
proof -
  let ?b = "unat (drop_bit k (v AND m))"
  have nzb: "?b \<noteq> 0"
    using nz byte_nonzero [OF m k, of v] byte_index(2) [OF m k, of v] by (metis bit_0_eq bot_apply bot_bool_def)
  then have "is_lowest_bit ?b (lowest_bit_bitmap ! ?b)"
    using byte_index(1) [OF m k] by (rule bitmap_lowest [rotated])
  then show ?thesis
    unfolding is_lowest_bit_def byte_index(2) [OF m k]
    by (auto simp: add.commute) (metis below le_add_diff_inverse less_diff_conv2 linorder_not_less
        add.commute)
qed

lemma no_bits_below_step:
  assumes "\<forall>j < k. \<not> bit v j" and "\<not> (\<exists>j < 8. bit v (k + j))"
  shows "\<forall>j < k + 8. \<not> bit v j"
  using assms by (metis add_diff_inverse_nat less_diff_conv2 add.commute linorder_not_less)

lemma rt_ffs_lowest:
  assumes "v \<noteq> 0"
  shows "\<exists>n < 32. rt_ffs v = n + 1 \<and> is_lowest_bit v n"
proof -
  have m: "(0xff :: u32) = push_bit 0 0xff" "(0xff00 :: u32) = push_bit 8 0xff"
    "(0xff0000 :: u32) = push_bit 16 0xff" "(0xff000000 :: u32) = push_bit 24 0xff"
    by simp_all
  note nz = byte_nonzero [OF m(1)] byte_nonzero [OF m(2)] byte_nonzero [OF m(3)]
    byte_nonzero [OF m(4)]
  have "\<exists>n. rt_ffs v = n + 1 \<and> is_lowest_bit v n"
  proof (cases "v AND 0xff \<noteq> 0")
    case True
    have "is_lowest_bit v (lowest_bit_bitmap ! unat (drop_bit 0 (v AND 0xff)) + 0)"
      by (rule byte_lowest [OF m(1) _ True]) simp_all
    then show ?thesis using True assms by (auto simp: rt_ffs_def)
  next
    case z0: False
    then have b8: "\<forall>j < 8. \<not> bit v j" using nz(1) [of v] by simp
    show ?thesis
    proof (cases "v AND 0xff00 \<noteq> 0")
      case True
      have "is_lowest_bit v (lowest_bit_bitmap ! unat (drop_bit 8 (v AND 0xff00)) + 8)"
        by (rule byte_lowest [OF m(2) _ True b8]) simp
      moreover have "rt_ffs v = lowest_bit_bitmap ! unat (drop_bit 8 (v AND 0xff00)) + 8 + 1"
        using True z0 assms by (simp add: rt_ffs_def)
      ultimately show ?thesis by blast
    next
      case z1: False
      then have "\<not> (\<exists>j < 8. bit v (8 + j))" by (simp only: nz(2)) simp
      from no_bits_below_step [OF b8 this] have b16: "\<forall>j < 16. \<not> bit v j" by simp
      show ?thesis
      proof (cases "v AND 0xff0000 \<noteq> 0")
        case True
      have "is_lowest_bit v (lowest_bit_bitmap ! unat (drop_bit 16 (v AND 0xff0000)) + 16)"
        by (rule byte_lowest [OF m(3) _ True b16]) simp
      moreover have "rt_ffs v = lowest_bit_bitmap ! unat (drop_bit 16 (v AND 0xff0000)) + 16 + 1"
        using True z0 z1 assms by (simp add: rt_ffs_def)
      ultimately show ?thesis by blast
      next
        case z2: False
        then have "\<not> (\<exists>j < 8. bit v (16 + j))" by (simp only: nz(3)) simp
        from no_bits_below_step [OF b16 this] have b24: "\<forall>j < 24. \<not> bit v j" by simp
        have True: "v AND 0xff000000 \<noteq> 0"
        proof
          assume "v AND 0xff000000 = 0"
          then have "\<not> (\<exists>j < 8. bit v (24 + j))" using nz(4) [of v] by simp
          from no_bits_below_step [OF b24 this] have "v = 0"
            by (simp add: word_eq_zero_iff_bits)
          with assms show False by simp
        qed
      have "is_lowest_bit v (lowest_bit_bitmap ! unat (drop_bit 24 (v AND 0xff000000)) + 24)"
        by (rule byte_lowest [OF m(4) _ True b24]) simp
      moreover have "rt_ffs v = lowest_bit_bitmap ! unat (drop_bit 24 (v AND 0xff000000)) + 24 + 1"
        using True z0 z1 z2 assms by (simp add: rt_ffs_def)
      ultimately show ?thesis by blast
      qed
    qed
  qed
  then obtain n where "rt_ffs v = n + 1" "is_lowest_bit v n" by blast
  moreover from this have "n < 32" by (auto simp: is_lowest_bit_def dest: bit_imp_le_length)
  ultimately show ?thesis by blast
qed

lemma rt_ffs_zero [simp]: "rt_ffs 0 = 0"
  by (simp add: rt_ffs_def)

section \<open>Bounded strings\<close>

abbreviation (input) NUL :: char where "NUL \<equiv> CHR 0x00"

text \<open>The bytes \<^verbatim>\<open>rt_strncpy\<close> writes to its destination: always \<open>n\<close> of them.\<close>

fun rt_strncpy :: "string \<Rightarrow> nat \<Rightarrow> string" where
  "rt_strncpy src 0 = []"
| "rt_strncpy [] (Suc n) = replicate (Suc n) NUL"
| "rt_strncpy (c # cs) (Suc n) = (if c = NUL then replicate (Suc n) NUL else c # rt_strncpy cs n)"

text \<open>The byte a pointer into a string reads, and the comparison loop with its signed byte result.\<close>

definition char_at :: "string \<Rightarrow> int" where
  "char_at s = (case s of [] \<Rightarrow> 0 | c # _ \<Rightarrow> of_char c)"

fun rt_strncmp :: "string \<Rightarrow> string \<Rightarrow> nat \<Rightarrow> int" where
  "rt_strncmp cs ct 0 = 0"
| "rt_strncmp cs ct (Suc count) =
     (let res = sint (word_of_int (char_at cs - char_at ct) :: u8)
      in if res \<noteq> 0 \<or> char_at cs = 0 then res else rt_strncmp (tl cs) (tl ct) count)"

lemma int_of_char_range: "0 \<le> (of_char c :: int) \<and> (of_char c :: int) < 256"
  by (metis of_nat_of_char of_nat_0_le_iff nat_of_char_less_256 of_nat_less_numeral_iff)

lemma char_at_range: "0 \<le> char_at s \<and> char_at s < 256"
  using int_of_char_range by (simp add: char_at_def split: list.split)

lemma char_at_diff_zero: "sint (word_of_int (char_at a - char_at b) :: u8) = 0 \<longleftrightarrow> char_at a = char_at b"
proof -
  have "sint (word_of_int (char_at a - char_at b) :: u8) = 0 \<longleftrightarrow>
      (word_of_int (char_at a - char_at b) :: u8) = 0"
    by (metis signed_0 signed_eq_0_iff)
  also have "\<dots> \<longleftrightarrow> 256 dvd (char_at a - char_at b)"
    by (simp only: word_of_int_eq_0_iff) simp
  also have "\<dots> \<longleftrightarrow> char_at a = char_at b"
    using char_at_range [of a] char_at_range [of b] dvd_imp_le_int [of "char_at a - char_at b" 256]
    by (cases "char_at a = char_at b") auto
  finally show ?thesis .
qed

lemma of_char_zero_iff [simp]: "(of_char c :: int) = 0 \<longleftrightarrow> c = NUL"
proof -
  have "(of_char NUL :: int) = 0" by simp
  then show ?thesis by (metis of_char_eq_iff)
qed

lemma char_at_simps [simp]: "char_at [] = 0" "char_at (c # cs) = of_char c"
  by (simp_all add: char_at_def)

lemma length_strncpy [simp]: "length (rt_strncpy s n) = n"
  by (induction s n rule: rt_strncpy.induct) auto

lemma strncpy_nuls: "rt_strncpy (replicate k NUL) n = replicate n NUL"
  by (cases n; cases k) auto

lemma strncpy_idem [simp]: "rt_strncpy (rt_strncpy s n) n = rt_strncpy s n"
  by (induction s n rule: rt_strncpy.induct) (auto simp: strncpy_nuls)

lemma strncmp_zero_iff: "rt_strncmp cs ct n = 0 \<longleftrightarrow> rt_strncpy cs n = rt_strncpy ct n"
proof (induction cs ct n rule: rt_strncmp.induct)
  case (2 cs ct n)
  note z = char_at_diff_zero [of cs ct]
  have c: "char_at cs \<noteq> char_at ct \<Longrightarrow> rt_strncpy cs (Suc n) \<noteq> rt_strncpy ct (Suc n)"
    by (cases cs; cases ct) auto
  have n: "char_at cs = char_at ct \<Longrightarrow> char_at cs = 0 \<Longrightarrow> rt_strncpy cs (Suc n) = rt_strncpy ct (Suc n)"
    by (cases cs; cases ct) auto
  have t: "char_at cs = char_at ct \<Longrightarrow> char_at cs \<noteq> 0 \<Longrightarrow>
      rt_strncpy cs (Suc n) = rt_strncpy ct (Suc n) \<longleftrightarrow> rt_strncpy (tl cs) n = rt_strncpy (tl ct) n"
    by (cases cs; cases ct) auto
  show ?case
    using z c n t "2.IH" by (cases "char_at cs = char_at ct"; cases "char_at cs = 0") (simp_all add: Let_def)
qed simp

section \<open>Properties\<close>

text \<open>C2. The table-driven \<^verbatim>\<open>__rt_ffs\<close> is exact on all 32-bit words: it returns 0 on 0 and otherwise one
  plus the index of the lowest set bit.\<close>

theorem rt_ffs_correct:
  "(rt_ffs v = 0 \<longleftrightarrow> v = 0) \<and> (\<forall>n. rt_ffs v = n + 1 \<longleftrightarrow> is_lowest_bit v n)"
proof (cases "v = 0")
  case False
  then obtain n where "rt_ffs v = n + 1" "is_lowest_bit v n" using rt_ffs_lowest by blast
  then show ?thesis using False is_lowest_bit_unique by auto
qed (simp add: is_lowest_bit_def)

end
