(* ===== verification/Rt_Kernel.thy ===== *)
theory Rt_Kernel
  imports Rt_List Rt_Kservice
begin

text \<open>
  The state of the kernel: the C structures of \<^verbatim>\<open>include/rtdef.h\<close> as records, the global variables
  of \<^verbatim>\<open>scheduler.c\<close>, \<^verbatim>\<open>clock.c\<close>, \<^verbatim>\<open>irq.c\<close>, \<^verbatim>\<open>idle.c\<close> and \<^verbatim>\<open>timer.c\<close> as the fields of \<open>kernel\<close>.

  Objects are named by their address; address 0 is \<^verbatim>\<open>RT_NULL\<close>. A structure that is embedded in a
  thread (its timer) has an identifier of its own. All \<^verbatim>\<open>tlist\<close> nodes live in one list store, keyed
  by the list head they can hang on, and all timer rows in another.
\<close>

type_synonym tid = nat

section \<open>Object classes\<close>

abbreviation (input) RT_Object_Class_Null :: u8 where "RT_Object_Class_Null \<equiv> 0x00"
abbreviation (input) RT_Object_Class_Thread :: u8 where "RT_Object_Class_Thread \<equiv> 0x01"
abbreviation (input) RT_Object_Class_Semaphore :: u8 where "RT_Object_Class_Semaphore \<equiv> 0x02"
abbreviation (input) RT_Object_Class_Mutex :: u8 where "RT_Object_Class_Mutex \<equiv> 0x03"
abbreviation (input) RT_Object_Class_Event :: u8 where "RT_Object_Class_Event \<equiv> 0x04"
abbreviation (input) RT_Object_Class_MailBox :: u8 where "RT_Object_Class_MailBox \<equiv> 0x05"
abbreviation (input) RT_Object_Class_MessageQueue :: u8 where "RT_Object_Class_MessageQueue \<equiv> 0x06"
abbreviation (input) RT_Object_Class_MemHeap :: u8 where "RT_Object_Class_MemHeap \<equiv> 0x07"
abbreviation (input) RT_Object_Class_MemPool :: u8 where "RT_Object_Class_MemPool \<equiv> 0x08"
abbreviation (input) RT_Object_Class_Device :: u8 where "RT_Object_Class_Device \<equiv> 0x09"
abbreviation (input) RT_Object_Class_Timer :: u8 where "RT_Object_Class_Timer \<equiv> 0x0a"
abbreviation (input) RT_Object_Class_Memory :: u8 where "RT_Object_Class_Memory \<equiv> 0x0c"
abbreviation (input) RT_Object_Class_Static :: u8 where "RT_Object_Class_Static \<equiv> 0x80"

text \<open>\<^verbatim>\<open>rt_object_get_type\<close> and \<^verbatim>\<open>rt_object_is_systemobject\<close>, on the type byte of an object.\<close>

definition rt_object_get_type :: "u8 \<Rightarrow> u8" where
  "rt_object_get_type ty = ty AND NOT RT_Object_Class_Static"

definition rt_object_is_systemobject :: "u8 \<Rightarrow> bool" where
  "rt_object_is_systemobject ty = (ty AND RT_Object_Class_Static \<noteq> 0)"

section \<open>Threads\<close>

abbreviation (input) RT_THREAD_INIT :: u8 where "RT_THREAD_INIT \<equiv> 0x00"
abbreviation (input) RT_THREAD_READY :: u8 where "RT_THREAD_READY \<equiv> 0x01"
abbreviation (input) RT_THREAD_SUSPEND :: u8 where "RT_THREAD_SUSPEND \<equiv> 0x02"
abbreviation (input) RT_THREAD_RUNNING :: u8 where "RT_THREAD_RUNNING \<equiv> 0x03"
abbreviation (input) RT_THREAD_CLOSE :: u8 where "RT_THREAD_CLOSE \<equiv> 0x04"
abbreviation (input) RT_THREAD_STAT_MASK :: u8 where "RT_THREAD_STAT_MASK \<equiv> 0x07"
abbreviation (input) RT_THREAD_STAT_YIELD :: u8 where "RT_THREAD_STAT_YIELD \<equiv> 0x08"

abbreviation (input) RT_THREAD_PRIORITY_MAX :: nat where "RT_THREAD_PRIORITY_MAX \<equiv> 32"

text \<open>\<open>stack_guard\<close> is the byte at \<^verbatim>\<open>stack_addr\<close>, which the overflow check reads; the thread timer is
  the entry \<open>Thread_timer t\<close> of the timer table.\<close>

record rt_thread =
  sp :: u64
  entry :: u64
  parameter :: u64
  stack_addr :: u64
  stack_size :: u32
  stack_guard :: u8
  thread_error :: rt_err_t
  stat :: u8
  current_priority :: u8
  number_mask :: u32
  event_set :: u32
  event_info :: u8
  init_tick :: u64
  remaining_tick :: u64
  cleanup :: u64
  user_data :: u64

definition null_thread :: rt_thread where
  "null_thread = \<lparr>sp = 0, entry = 0,
     parameter = 0, stack_addr = 0, stack_size = 0, stack_guard = 0, thread_error = 0, stat = 0,
     current_priority = 0, number_mask = 0, event_set = 0, event_info = 0, init_tick = 0,
     remaining_tick = 0, cleanup = 0, user_data = 0\<rparr>"

section \<open>Timers\<close>

datatype tmid = Thread_timer tid | Timer nat

abbreviation (input) RT_TIMER_FLAG_ACTIVATED :: u8 where "RT_TIMER_FLAG_ACTIVATED \<equiv> 0x1"
abbreviation (input) RT_TIMER_FLAG_PERIODIC :: u8 where "RT_TIMER_FLAG_PERIODIC \<equiv> 0x2"
abbreviation (input) RT_TIMER_FLAG_SOFT_TIMER :: u8 where "RT_TIMER_FLAG_SOFT_TIMER \<equiv> 0x4"

text \<open>The timeout function with its parameter: the kernel's \<^verbatim>\<open>_thread_timeout\<close> on a thread, or a
  callback of the application.\<close>

datatype timeout_fn = Thread_timeout tid | User_timeout nat

record rt_timer =
  timer_flag :: u8
  timeout_func :: timeout_fn
  timer_init_tick :: u32
  timeout_tick :: u32

definition null_timer :: rt_timer where
  "null_timer = \<lparr>timer_flag = 0, timeout_func = User_timeout 0,
     timer_init_tick = 0, timeout_tick = 0\<rparr>"

section \<open>IPC objects\<close>

record rt_semaphore =
  sem_flag :: u8
  sem_value :: u16

record rt_mutex =
  mutex_flag :: u8
  mutex_value :: u16
  original_priority :: u8
  hold :: u8
  owner :: tid

record rt_event =
  event_flag :: u8
  event_bits :: u32

record rt_mailbox =
  mb_flag :: u8
  mb_pool :: "u64 list"
  mb_size :: u16
  mb_entry :: u16
  mb_in_offset :: u16
  mb_out_offset :: u16

text \<open>The message pool of a queue: slot \<open>i\<close> is the \<open>i\<close>-th \<^verbatim>\<open>struct rt_mq_message\<close>, with its \<^verbatim>\<open>next\<close> pointer
  and the \<^verbatim>\<open>msg_size\<close> bytes behind it.\<close>

record rt_messagequeue =
  mq_flag :: u8
  msg_size :: u16
  max_msgs :: u16
  mq_entry :: u16
  msg_queue_head :: "nat option"
  msg_queue_tail :: "nat option"
  msg_queue_free :: "nat option"
  mq_next :: "nat \<Rightarrow> nat option"
  mq_body :: "nat \<Rightarrow> u8 list"

text \<open>The blocks of a memory pool are linked through their first words, which are kept in the memory of the kernel
  state.\<close>

record rt_mempool =
  start_address :: u64
  mp_size :: u64
  block_size :: u64
  block_list :: u64
  block_total_count :: u64
  block_free_count :: u64

section \<open>Devices\<close>

text \<open>The driver functions (\<^verbatim>\<open>struct rt_device_ops\<close>) act on the kernel state and are arguments of the operations;
  a device keeps its class, its flags and its counter, and the addresses of its two callbacks.\<close>

record rt_device =
  dev_type :: int
  dev_flag :: u16
  open_flag :: u16
  ref_count :: u8
  rx_indicate :: u64
  tx_complete :: u64

section \<open>Kernel objects\<close>

text \<open>Every object begins with a \<^verbatim>\<open>struct rt_object\<close>: a name, a type byte and a node in the list of its
  class. These three are kept apart from the records above, indexed by the object.\<close>

datatype obj =
    Thread_obj tid
  | Timer_obj tmid
  | Sem_obj nat
  | Mutex_obj nat
  | Event_obj nat
  | Mailbox_obj nat
  | Mq_obj nat
  | Mp_obj nat
  | Device_obj nat
  | Memory_obj nat
  | Memheap_obj nat

section \<open>List heads\<close>

text \<open>The heads a thread's \<^verbatim>\<open>tlist\<close> node can hang on.\<close>

datatype lhead =
    Ready nat            \<comment> \<open>\<^verbatim>\<open>rt_thread_priority_table[p]\<close>\<close>
  | Defunct              \<comment> \<open>\<^verbatim>\<open>_rt_thread_defunct\<close>\<close>
  | Sem_wait nat         \<comment> \<open>\<^verbatim>\<open>sem->parent.suspend_thread\<close>\<close>
  | Mutex_wait nat       \<comment> \<open>\<^verbatim>\<open>mutex->parent.suspend_thread\<close>\<close>
  | Event_wait nat       \<comment> \<open>\<^verbatim>\<open>event->parent.suspend_thread\<close>\<close>
  | Mb_recv_wait nat     \<comment> \<open>\<^verbatim>\<open>mb->parent.suspend_thread\<close>\<close>
  | Mb_send_wait nat     \<comment> \<open>\<^verbatim>\<open>mb->suspend_sender_thread\<close>\<close>
  | Mq_recv_wait nat     \<comment> \<open>\<^verbatim>\<open>mq->parent.suspend_thread\<close>\<close>
  | Mq_send_wait nat     \<comment> \<open>\<^verbatim>\<open>mq->suspend_sender_thread\<close>\<close>
  | Mp_wait nat          \<comment> \<open>\<^verbatim>\<open>mp->suspend_thread\<close>\<close>

text \<open>The heads a timer row can hang on: the hard list, the soft list and the local list of a running
  \<^verbatim>\<open>rt_timer_check\<close> or \<^verbatim>\<open>rt_soft_timer_check\<close>.\<close>

datatype thead = Hard_list | Soft_list | Hard_check | Soft_check

section \<open>The kernel state\<close>

record kernel =
  threads :: "tid \<Rightarrow> rt_thread"
  tlists :: "(lhead, tid) lstore"
  ready_group :: u32          \<comment> \<open>\<^verbatim>\<open>rt_thread_ready_priority_group\<close>\<close>
  lock_nest :: u16            \<comment> \<open>\<^verbatim>\<open>rt_scheduler_lock_nest\<close>, a signed 16-bit counter\<close>
  current_thread :: tid       \<comment> \<open>\<^verbatim>\<open>rt_current_thread\<close>\<close>
  running_priority :: u8      \<comment> \<open>\<^verbatim>\<open>rt_current_priority\<close>\<close>
  interrupt_nest :: u8        \<comment> \<open>\<^verbatim>\<open>rt_interrupt_nest\<close>\<close>
  rt_tick :: u32
  timers :: "tmid \<Rightarrow> rt_timer"
  trows :: "(thead, tmid) lstore"
  soft_timer_busy :: bool     \<comment> \<open>\<^verbatim>\<open>_soft_timer_status == RT_SOFT_TIMER_BUSY\<close>\<close>
  random_nr :: u32
  obj_type :: "obj \<Rightarrow> u8"
  obj_name :: "obj \<Rightarrow> string"
  olists :: "(u8, obj) lstore" \<comment> \<open>\<^verbatim>\<open>_object_container[].object_list\<close>, by class\<close>
  sems :: "nat \<Rightarrow> rt_semaphore"
  mutexes :: "nat \<Rightarrow> rt_mutex"
  events :: "nat \<Rightarrow> rt_event"
  mailboxes :: "nat \<Rightarrow> rt_mailbox"
  mqueues :: "nat \<Rightarrow> rt_messagequeue"
  mempools :: "nat \<Rightarrow> rt_mempool"
  memory :: "u64 \<Rightarrow> u64"      \<comment> \<open>the link words of the memory blocks, by address\<close>
  devices :: "nat \<Rightarrow> rt_device"
  errno :: rt_err_t           \<comment> \<open>\<^verbatim>\<open>__rt_errno\<close>\<close>

text \<open>The addresses of the two static thread objects \<^verbatim>\<open>_timer_thread\<close> and \<^verbatim>\<open>idle[0]\<close>.\<close>

abbreviation (input) timer_thread_addr :: tid where "timer_thread_addr \<equiv> 1"
abbreviation (input) idle_thread_addr :: tid where "idle_thread_addr \<equiv> 2"

definition boot_kernel :: kernel where
  "boot_kernel = \<lparr>threads = (\<lambda>_. null_thread), tlists = empty_lstore, ready_group = 0,
     lock_nest = 0, current_thread = 0, running_priority = 0, interrupt_nest = 0, rt_tick = 0,
     timers = (\<lambda>_. null_timer), trows = empty_lstore, soft_timer_busy = False, random_nr = 0,
     obj_type = (\<lambda>_. 0), obj_name = (\<lambda>_. []), olists = empty_lstore,
     sems = (\<lambda>_. \<lparr>sem_flag = 0, sem_value = 0\<rparr>),
     mutexes = (\<lambda>_. \<lparr>mutex_flag = 0, mutex_value = 0, original_priority = 0,
        hold = 0, owner = 0\<rparr>),
     events = (\<lambda>_. \<lparr>event_flag = 0, event_bits = 0\<rparr>),
     mailboxes = (\<lambda>_. \<lparr>mb_flag = 0, mb_pool = [], mb_size = 0, mb_entry = 0,
        mb_in_offset = 0, mb_out_offset = 0\<rparr>),
     mqueues = (\<lambda>_. \<lparr>mq_flag = 0, msg_size = 0, max_msgs = 0, mq_entry = 0, msg_queue_head = None,
        msg_queue_tail = None, msg_queue_free = None, mq_next = (\<lambda>_. None), mq_body = (\<lambda>_. [])\<rparr>),
     mempools = (\<lambda>_. \<lparr>start_address = 0, mp_size = 0, block_size = 0, block_list = 0, block_total_count = 0,
        block_free_count = 0\<rparr>), memory = (\<lambda>_. 0),
     devices = (\<lambda>_. \<lparr>dev_type = 0, dev_flag = 0, open_flag = 0, ref_count = 0, rx_indicate = 0, tx_complete = 0\<rparr>),
     errno = 0\<rparr>"

section \<open>Field access\<close>

definition upd_thread :: "tid \<Rightarrow> (rt_thread \<Rightarrow> rt_thread) \<Rightarrow> kernel \<Rightarrow> kernel" where
  "upd_thread t f s = s\<lparr>threads := (threads s)(t := f (threads s t))\<rparr>"

definition upd_timer :: "tmid \<Rightarrow> (rt_timer \<Rightarrow> rt_timer) \<Rightarrow> kernel \<Rightarrow> kernel" where
  "upd_timer m f s = s\<lparr>timers := (timers s)(m := f (timers s m))\<rparr>"

text \<open>\<^verbatim>\<open>thread->stat & RT_THREAD_STAT_MASK\<close> and \<^verbatim>\<open>thread->stat = v | (thread->stat & ~RT_THREAD_STAT_MASK)\<close>.\<close>

definition thread_stat :: "rt_thread \<Rightarrow> u8" where
  "thread_stat th = stat th AND RT_THREAD_STAT_MASK"

definition set_stat :: "u8 \<Rightarrow> rt_thread \<Rightarrow> rt_thread" where
  "set_stat v th = th\<lparr>stat := v OR (stat th AND NOT RT_THREAD_STAT_MASK)\<rparr>"

definition yield_flag :: "rt_thread \<Rightarrow> bool" where
  "yield_flag th = (stat th AND RT_THREAD_STAT_YIELD \<noteq> 0)"

definition clear_yield :: "rt_thread \<Rightarrow> rt_thread" where
  "clear_yield th = th\<lparr>stat := stat th AND NOT RT_THREAD_STAT_YIELD\<rparr>"

definition set_yield :: "rt_thread \<Rightarrow> rt_thread" where
  "set_yield th = th\<lparr>stat := stat th OR RT_THREAD_STAT_YIELD\<rparr>"

text \<open>The assertions \<^verbatim>\<open>thread != RT_NULL\<close> and \<^verbatim>\<open>rt_object_get_type(thread) == RT_Object_Class_Thread\<close>.\<close>

definition is_thread :: "tid \<Rightarrow> kernel \<Rightarrow> bool" where
  "is_thread t s = (t \<noteq> 0 \<and> rt_object_get_type (obj_type s (Thread_obj t)) = RT_Object_Class_Thread)"

definition is_timer :: "tmid \<Rightarrow> kernel \<Rightarrow> bool" where
  "is_timer m s = (rt_object_get_type (obj_type s (Timer_obj m)) = RT_Object_Class_Timer)"

lemma mask_or_keep:
  fixes v x m :: u8
  assumes "v AND m = v"
  shows "(v OR (x AND NOT m)) AND m = v"
  using assms by (auto simp: bit_eq_iff bit_simps)

lemma stat_set_stat [stat_simps]:
  "v \<in> {1, 2, 3} \<Longrightarrow> thread_stat (set_stat v th) = v"
  using mask_or_keep [of v 7 "stat th"] by (auto simp: thread_stat_def set_stat_def)

lemma yield_set_stat [stat_simps]:
  assumes "v \<in> {1, 2, 3}"
  shows "yield_flag (set_stat v th) = yield_flag th"
proof -
  have "(v OR (x AND NOT 7)) AND 8 = x AND 8" for x :: u8
  proof -
    have "v AND 8 = 0" "(NOT 7 :: u8) AND 8 = 8" using assms by auto
    then show ?thesis
      by (simp add: bit.conj_disj_distrib2 and.assoc)
  qed
  then show ?thesis by (simp add: yield_flag_def set_stat_def)
qed

lemma stat_clear_yield [stat_simps]:
  "thread_stat (clear_yield th) = thread_stat th"
  "\<not> yield_flag (clear_yield th)"
  by (simp_all add: thread_stat_def yield_flag_def clear_yield_def and.assoc)

lemma stat_set_yield [stat_simps]:
  "thread_stat (set_yield th) = thread_stat th"
  "yield_flag (set_yield th)"
  by (simp_all add: thread_stat_def yield_flag_def set_yield_def bit.conj_disj_distrib2)

lemma stat_plain [stat_simps]:
  "thread_stat (th\<lparr>stat := 0\<rparr>) = 0" "thread_stat (th\<lparr>stat := 2\<rparr>) = 2"
  "thread_stat (th\<lparr>stat := 3\<rparr>) = 3" "thread_stat (th\<lparr>stat := 4\<rparr>) = 4"
  by (simp_all add: thread_stat_def)

lemma upd_thread_fields [simp]:
  "threads (upd_thread t f s) = (threads s)(t := f (threads s t))"
  "tlists (upd_thread t f s) = tlists s"
  "ready_group (upd_thread t f s) = ready_group s"
  "lock_nest (upd_thread t f s) = lock_nest s"
  "current_thread (upd_thread t f s) = current_thread s"
  "running_priority (upd_thread t f s) = running_priority s"
  "interrupt_nest (upd_thread t f s) = interrupt_nest s"
  "rt_tick (upd_thread t f s) = rt_tick s"
  "timers (upd_thread t f s) = timers s"
  "trows (upd_thread t f s) = trows s"
  "soft_timer_busy (upd_thread t f s) = soft_timer_busy s"
  "random_nr (upd_thread t f s) = random_nr s"
  "obj_type (upd_thread t f s) = obj_type s"
  "obj_name (upd_thread t f s) = obj_name s"
  "olists (upd_thread t f s) = olists s"
  "sems (upd_thread t f s) = sems s"
  "mutexes (upd_thread t f s) = mutexes s"
  "events (upd_thread t f s) = events s"
  "mailboxes (upd_thread t f s) = mailboxes s"
  "mqueues (upd_thread t f s) = mqueues s"
  "mempools (upd_thread t f s) = mempools s"
  "memory (upd_thread t f s) = memory s" "devices (upd_thread t f s) = devices s" "errno (upd_thread t f s) = errno s"
  by (simp_all add: upd_thread_def)

lemma upd_timer_fields [simp]:
  "timers (upd_timer m g s) = (timers s)(m := g (timers s m))"
  "threads (upd_timer m g s) = threads s"
  "tlists (upd_timer m g s) = tlists s"
  "ready_group (upd_timer m g s) = ready_group s"
  "lock_nest (upd_timer m g s) = lock_nest s"
  "current_thread (upd_timer m g s) = current_thread s"
  "running_priority (upd_timer m g s) = running_priority s"
  "interrupt_nest (upd_timer m g s) = interrupt_nest s"
  "rt_tick (upd_timer m g s) = rt_tick s"
  "trows (upd_timer m g s) = trows s"
  "soft_timer_busy (upd_timer m g s) = soft_timer_busy s"
  "random_nr (upd_timer m g s) = random_nr s"
  "obj_type (upd_timer m g s) = obj_type s"
  "obj_name (upd_timer m g s) = obj_name s"
  "olists (upd_timer m g s) = olists s"
  "sems (upd_timer m g s) = sems s"
  "mutexes (upd_timer m g s) = mutexes s"
  "events (upd_timer m g s) = events s"
  "mailboxes (upd_timer m g s) = mailboxes s"
  "mqueues (upd_timer m g s) = mqueues s"
  "mempools (upd_timer m g s) = mempools s"
  "memory (upd_timer m g s) = memory s" "devices (upd_timer m g s) = devices s" "errno (upd_timer m g s) = errno s"
  by (simp_all add: upd_timer_def)

end
