(* ===== verification/Rt_Sched.thy ===== *)
theory Rt_Sched
  imports Rt_Kernel
begin

text \<open>
  The scheduler of \<^verbatim>\<open>src/scheduler.c\<close> (the single-CPU code): the ready queue with its priority
  bitmap, the choice of the next thread, and the scheduler lock. The hooks are not installed
  (\<^verbatim>\<open>RT_NULL\<close>), and \<^verbatim>\<open>rt_hw_context_switch\<close> is the change of \<open>current_thread\<close>: register contents
  are not modelled.
\<close>

section \<open>Operations\<close>

definition rt_system_scheduler_init :: "kernel \<Rightarrow> kernel" where
  "rt_system_scheduler_init s =
     s\<lparr>lock_nest := 0,
       tlists := (tlists s)\<lparr>items := (\<lambda>h. case h of Ready p \<Rightarrow> [] | _ \<Rightarrow> items (tlists s) h),
         home := (\<lambda>t. case home (tlists s) t of Some (Ready p) \<Rightarrow> None | x \<Rightarrow> x)\<rparr>,
       ready_group := 0\<rparr>"

text \<open>\<^verbatim>\<open>_scheduler_stack_check\<close>: an overflow prints a message and spins for ever with interrupts off.\<close>

definition stack_check :: "rt_thread \<Rightarrow> bool" where
  "stack_check th =
     (\<not> (stack_guard th \<noteq> 0x23 \<or> sp th \<le> stack_addr th \<or>
         stack_addr th + ucast (stack_size th) < sp th))"

definition scheduler_get_highest_priority_thread :: "kernel \<Rightarrow> (tid \<times> nat) option" where
  "scheduler_get_highest_priority_thread s =
     (let highest = rt_ffs (ready_group s) - 1
      in case items (tlists s) (Ready highest) of
           [] \<Rightarrow> None
         | t # _ \<Rightarrow> Some (t, highest))"

text \<open>The priority table has 32 entries: a larger index is an out-of-bounds access.\<close>

definition rt_schedule_insert_thread :: "tid \<Rightarrow> kernel \<Rightarrow> kernel option" where
  "rt_schedule_insert_thread t s = do {
     rt_assert (t \<noteq> 0);
     if t = current_thread s then Some (upd_thread t (set_stat RT_THREAD_RUNNING) s)
     else do {
       let s = upd_thread t (set_stat RT_THREAD_READY) s;
       let p = unat (current_priority (threads s t));
       rt_assert (p < RT_THREAD_PRIORITY_MAX);
       l \<leftarrow> (if yield_flag (threads s t)
            then ls_insert_before (Ready p) t (tlists s)
            else ls_insert_after (Ready p) t (tlists s));
       Some (s\<lparr>tlists := l, ready_group := ready_group s OR number_mask (threads s t)\<rparr>)
     }
   }"

definition rt_schedule_remove_thread :: "tid \<Rightarrow> kernel \<Rightarrow> kernel option" where
  "rt_schedule_remove_thread t s = do {
     rt_assert (t \<noteq> 0);
     let s = s\<lparr>tlists := ls_remove t (tlists s)\<rparr>;
     let p = unat (current_priority (threads s t));
     rt_assert (p < RT_THREAD_PRIORITY_MAX);
     Some (if items (tlists s) (Ready p) = []
           then s\<lparr>ready_group := ready_group s AND NOT (number_mask (threads s t))\<rparr>
           else s)
   }"

definition rt_system_scheduler_start :: "kernel \<Rightarrow> kernel option" where
  "rt_system_scheduler_start s = do {
     (to_thread, _) \<leftarrow> scheduler_get_highest_priority_thread s;
     let s = s\<lparr>current_thread := to_thread\<rparr>;
     s \<leftarrow> rt_schedule_remove_thread to_thread s;
     Some (upd_thread to_thread (\<lambda>th. th\<lparr>stat := RT_THREAD_RUNNING\<rparr>) s)
   }"

text \<open>The part of \<^verbatim>\<open>rt_schedule\<close> that hands the CPU to \<open>to_thread\<close>.\<close>

definition schedule_switch :: "tid \<Rightarrow> nat \<Rightarrow> bool \<Rightarrow> kernel \<Rightarrow> kernel option" where
  "schedule_switch to_thread highest need_insert_from_thread s = do {
     let from_thread = current_thread s;
     let s = s\<lparr>running_priority := of_nat highest, current_thread := to_thread\<rparr>;
     s \<leftarrow> (if need_insert_from_thread then rt_schedule_insert_thread from_thread s else Some s);
     s \<leftarrow> rt_schedule_remove_thread to_thread s;
     let s = upd_thread to_thread (set_stat RT_THREAD_RUNNING) s;
     rt_assert (stack_check (threads s to_thread));
     Some s
   }"

definition rt_schedule :: "kernel \<Rightarrow> kernel option" where
  "rt_schedule s =
     (if lock_nest s = 0 \<and> ready_group s \<noteq> 0 then do {
        (to_thread, highest) \<leftarrow> scheduler_get_highest_priority_thread s;
        let cur = current_thread s;
        let th = threads s cur;
        let running = (thread_stat th = RT_THREAD_RUNNING);
        let keep = (running \<and> (unat (current_priority th) < highest \<or>
                      unat (current_priority th) = highest \<and> \<not> yield_flag th));
        let to_thread = (if keep then cur else to_thread);
        let s = (if running
                 then upd_thread cur clear_yield s
                 else s);
        if to_thread \<noteq> cur
        then schedule_switch to_thread highest (running \<and> \<not> keep) s
        else do {
          s \<leftarrow> rt_schedule_remove_thread cur s;
          Some (upd_thread cur (set_stat RT_THREAD_RUNNING) s)
        }
      }
      else Some s)"

definition rt_enter_critical :: "kernel \<Rightarrow> kernel" where
  "rt_enter_critical s = s\<lparr>lock_nest := lock_nest s + 1\<rparr>"

definition rt_exit_critical :: "kernel \<Rightarrow> kernel option" where
  "rt_exit_critical s =
     (let s = s\<lparr>lock_nest := lock_nest s - 1\<rparr>
      in if sint (lock_nest s) \<le> 0
         then (let s = s\<lparr>lock_nest := 0\<rparr>
               in if current_thread s \<noteq> 0 then rt_schedule s else Some s)
         else Some s)"

definition rt_critical_level :: "kernel \<Rightarrow> u16" where
  "rt_critical_level s = lock_nest s"

section \<open>The invariant of the ready queue\<close>

text \<open>Where a thread's list node hangs agrees with its state.\<close>

fun home_ok :: "lhead option \<Rightarrow> rt_thread \<Rightarrow> bool" where
  "home_ok None th = (thread_stat th \<noteq> RT_THREAD_READY)"
| "home_ok (Some (Ready p)) th =
     (thread_stat th = RT_THREAD_READY \<and> unat (current_priority th) = p)"
| "home_ok (Some Defunct) th = (thread_stat th = RT_THREAD_CLOSE)"
| "home_ok (Some w) th = (thread_stat th = RT_THREAD_SUSPEND)"

text \<open>A thread that has been started: its priority is in range and its mask is that priority's bit.\<close>

definition prio_ok :: "rt_thread \<Rightarrow> bool" where
  "prio_ok th = (unat (current_priority th) < RT_THREAD_PRIORITY_MAX \<and>
     number_mask th = prio_mask (current_priority th) \<and> stack_check th)"

definition live :: "rt_thread \<Rightarrow> bool" where
  "live th = (thread_stat th \<in> {RT_THREAD_READY, RT_THREAD_SUSPEND, RT_THREAD_RUNNING})"

definition queue_ok :: "kernel \<Rightarrow> bool" where
  "queue_ok s =
     (lstore_ok (tlists s) \<and>
      (\<forall>p < RT_THREAD_PRIORITY_MAX. bit (ready_group s) p \<longleftrightarrow> items (tlists s) (Ready p) \<noteq> []) \<and>
      (\<forall>t. home_ok (home (tlists s) t) (threads s t)) \<and>
      (\<forall>t. live (threads s t) \<longrightarrow> t \<noteq> 0 \<and> prio_ok (threads s t)))"

text \<open>Between two kernel calls the current thread is the only one in state RUNNING.\<close>

definition sched_ok :: "kernel \<Rightarrow> bool" where
  "sched_ok s =
     (queue_ok s \<and>
      (\<forall>t. thread_stat (threads s t) = RT_THREAD_RUNNING \<longrightarrow> t = current_thread s) \<and>
      thread_stat (threads s (current_thread s)) \<noteq> RT_THREAD_READY)"

section \<open>Effect of the queue operations\<close>

definition ready_insert :: "tid \<Rightarrow> kernel \<Rightarrow> kernel" where
  "ready_insert t s =
     (let s = upd_thread t (set_stat RT_THREAD_READY) s;
          h = Ready (unat (current_priority (threads s t)));
          ns = (if yield_flag (threads s t) then items (tlists s) h @ [t] else t # items (tlists s) h)
      in s\<lparr>tlists := ls_set h ns t (tlists s), ready_group := ready_group s OR number_mask (threads s t)\<rparr>)"

definition ready_remove :: "tid \<Rightarrow> kernel \<Rightarrow> kernel" where
  "ready_remove t s =
     (let s = s\<lparr>tlists := ls_remove t (tlists s)\<rparr>
      in if items (tlists s) (Ready (unat (current_priority (threads s t)))) = []
         then s\<lparr>ready_group := ready_group s AND NOT (number_mask (threads s t))\<rparr>
         else s)"

lemma set_stat_fields [simp]:
  "current_priority (set_stat v th) = current_priority th"
  "number_mask (set_stat v th) = number_mask th"
  "thread_error (set_stat v th) = thread_error th"
  "event_set (set_stat v th) = event_set th"
  "event_info (set_stat v th) = event_info th"
  "init_tick (set_stat v th) = init_tick th"
  "remaining_tick (set_stat v th) = remaining_tick th"
  "stack_check (set_stat v th) = stack_check th"
  "prio_ok (set_stat v th) = prio_ok th"
  by (simp_all add: set_stat_def stack_check_def prio_ok_def)

lemma clear_yield_fields [simp]:
  "current_priority (clear_yield th) = current_priority th"
  "number_mask (clear_yield th) = number_mask th"
  "thread_error (clear_yield th) = thread_error th"
  "event_set (clear_yield th) = event_set th"
  "event_info (clear_yield th) = event_info th"
  "init_tick (clear_yield th) = init_tick th"
  "remaining_tick (clear_yield th) = remaining_tick th"
  "stack_check (clear_yield th) = stack_check th"
  "prio_ok (clear_yield th) = prio_ok th"
  by (simp_all add: clear_yield_def stack_check_def prio_ok_def)

lemma set_yield_fields [simp]:
  "current_priority (set_yield th) = current_priority th"
  "number_mask (set_yield th) = number_mask th"
  "thread_error (set_yield th) = thread_error th"
  "event_set (set_yield th) = event_set th"
  "event_info (set_yield th) = event_info th"
  "init_tick (set_yield th) = init_tick th"
  "remaining_tick (set_yield th) = remaining_tick th"
  "stack_check (set_yield th) = stack_check th"
  "prio_ok (set_yield th) = prio_ok th"
  by (simp_all add: set_yield_def stack_check_def prio_ok_def)

lemma insert_thread_eq:
  assumes "t \<noteq> 0" and "t \<noteq> current_thread s" and "home (tlists s) t = None"
    and "unat (current_priority (threads s t)) < 32"
  shows "rt_schedule_insert_thread t s = Some (ready_insert t s)"
  using assms
  by (simp add: rt_schedule_insert_thread_def ready_insert_def ls_insert_before_def
      ls_insert_after_def Let_def)

lemma insert_current_eq:
  "current_thread s \<noteq> 0 \<Longrightarrow> rt_schedule_insert_thread (current_thread s) s =
     Some (upd_thread (current_thread s) (set_stat RT_THREAD_RUNNING) s)"
  by (simp add: rt_schedule_insert_thread_def)

lemma remove_thread_eq:
  assumes "t \<noteq> 0" and "unat (current_priority (threads s t)) < 32"
  shows "rt_schedule_remove_thread t s = Some (ready_remove t s)"
  using assms by (simp add: rt_schedule_remove_thread_def ready_remove_def Let_def)

lemma ready_insert_fields [simp]:
  "threads (ready_insert t s) = (threads s)(t := set_stat RT_THREAD_READY (threads s t))"
  "home (tlists (ready_insert t s)) =
     (home (tlists s))(t := Some (Ready (unat (current_priority (threads s t)))))"
  "ready_group (ready_insert t s) = ready_group s OR number_mask (threads s t)"
  "current_thread (ready_insert t s) = current_thread s"
  "running_priority (ready_insert t s) = running_priority s"
  "lock_nest (ready_insert t s) = lock_nest s"
  "interrupt_nest (ready_insert t s) = interrupt_nest s"
  "rt_tick (ready_insert t s) = rt_tick s"
  "timers (ready_insert t s) = timers s"
  "trows (ready_insert t s) = trows s"
  "soft_timer_busy (ready_insert t s) = soft_timer_busy s"
  "random_nr (ready_insert t s) = random_nr s"
  "obj_type (ready_insert t s) = obj_type s"
  "obj_name (ready_insert t s) = obj_name s"
  "olists (ready_insert t s) = olists s"
  "sems (ready_insert t s) = sems s"
  "mutexes (ready_insert t s) = mutexes s"
  "events (ready_insert t s) = events s"
  "mailboxes (ready_insert t s) = mailboxes s"
  "mqueues (ready_insert t s) = mqueues s"
  "mempools (ready_insert t s) = mempools s"
  "memory (ready_insert t s) = memory s" "devices (ready_insert t s) = devices s" "errno (ready_insert t s) = errno s"
  by (simp_all add: ready_insert_def Let_def)

lemma ready_insert_items:
  "items (tlists (ready_insert t s)) =
     (let h = Ready (unat (current_priority (threads s t)))
      in (items (tlists s))(h := (if yield_flag (threads s t) then items (tlists s) h @ [t]
            else t # items (tlists s) h)))"
  by (simp add: ready_insert_def Let_def stat_simps)

lemma ready_remove_fields [simp]:
  "threads (ready_remove t s) = threads s"
  "tlists (ready_remove t s) = ls_remove t (tlists s)"
  "current_thread (ready_remove t s) = current_thread s"
  "running_priority (ready_remove t s) = running_priority s"
  "lock_nest (ready_remove t s) = lock_nest s"
  "interrupt_nest (ready_remove t s) = interrupt_nest s"
  "rt_tick (ready_remove t s) = rt_tick s"
  "timers (ready_remove t s) = timers s"
  "trows (ready_remove t s) = trows s"
  "soft_timer_busy (ready_remove t s) = soft_timer_busy s"
  "random_nr (ready_remove t s) = random_nr s"
  "obj_type (ready_remove t s) = obj_type s"
  "obj_name (ready_remove t s) = obj_name s"
  "olists (ready_remove t s) = olists s"
  "sems (ready_remove t s) = sems s"
  "mutexes (ready_remove t s) = mutexes s"
  "events (ready_remove t s) = events s"
  "mailboxes (ready_remove t s) = mailboxes s"
  "mqueues (ready_remove t s) = mqueues s"
  "mempools (ready_remove t s) = mempools s"
  "memory (ready_remove t s) = memory s" "devices (ready_remove t s) = devices s" "errno (ready_remove t s) = errno s"
  by (simp_all add: ready_remove_def Let_def)

lemma ready_remove_group:
  "ready_group (ready_remove t s) =
     (if items (ls_remove t (tlists s)) (Ready (unat (current_priority (threads s t)))) = []
      then ready_group s AND NOT (number_mask (threads s t)) else ready_group s)"
  by (simp add: ready_remove_def Let_def)

section \<open>The operations keep the invariant\<close>

lemma queue_okD:
  assumes "queue_ok s"
  shows "lstore_ok (tlists s)"
    and "p < 32 \<Longrightarrow> bit (ready_group s) p \<longleftrightarrow> items (tlists s) (Ready p) \<noteq> []"
    and "home_ok (home (tlists s) t) (threads s t)"
    and "live (threads s t) \<Longrightarrow> t \<noteq> 0 \<and> prio_ok (threads s t)"
  using assms by (auto simp: queue_ok_def)

lemma queue_okI:
  assumes "lstore_ok (tlists s)"
    and "\<And>p. p < 32 \<Longrightarrow> bit (ready_group s) p \<longleftrightarrow> items (tlists s) (Ready p) \<noteq> []"
    and "\<And>t. home_ok (home (tlists s) t) (threads s t)"
    and "\<And>t. live (threads s t) \<Longrightarrow> t \<noteq> 0 \<and> prio_ok (threads s t)"
  shows "queue_ok s"
  using assms by (auto simp: queue_ok_def)

lemma home_ok_ReadyD: "home_ok (Some (Ready p)) th \<Longrightarrow> thread_stat th = 1 \<and> unat (current_priority th) = p"
  by simp

lemma home_ok_cong:
  "thread_stat th' = thread_stat th \<Longrightarrow> current_priority th' = current_priority th \<Longrightarrow>
    home_ok h th' = home_ok h th"
  by (cases "(h, th)" rule: home_ok.cases) auto

lemma home_ok_stat3: "home_ok h th \<Longrightarrow> thread_stat th \<in> {0, 3} \<Longrightarrow> h = None"
  by (cases "(h, th)" rule: home_ok.cases) auto

lemma queue_ok_insert:
  assumes q: "queue_ok s" and t: "t \<noteq> 0" "home (tlists s) t = None" and p: "prio_ok (threads s t)"
  shows "queue_ok (ready_insert t s)"
proof (rule queue_okI)
  let ?p = "unat (current_priority (threads s t))"
  have lt: "?p < 32" and m: "number_mask (threads s t) = prio_mask (current_priority (threads s t))"
    using p by (auto simp: prio_ok_def)
  have "lstore_ok (ls_set (Ready ?p) ([] @ t # items (tlists s) (Ready ?p)) t (tlists s))"
    "lstore_ok (ls_set (Ready ?p) (items (tlists s) (Ready ?p) @ [t]) t (tlists s))"
    by (rule lstore_ok_put [OF queue_okD(1) [OF q] t(2)]; simp)+
  then show "lstore_ok (tlists (ready_insert t s))"
    by (simp add: ready_insert_def Let_def)
  show "bit (ready_group (ready_insert t s)) k = (items (tlists (ready_insert t s)) (Ready k) \<noteq> [])"
    if "k < 32" for k
    using queue_okD(2) [OF q that] that lt
    by (auto simp: m ready_insert_items Let_def bit_or_iff bit_prio_mask)
  show "home_ok (home (tlists (ready_insert t s)) x) (threads (ready_insert t s) x)" for x
    using queue_okD(3) [OF q, of x] by (auto simp: stat_simps)
  show "x \<noteq> 0 \<and> prio_ok (threads (ready_insert t s) x)"
    if "live (threads (ready_insert t s) x)" for x
    using that queue_okD(4) [OF q, of x] t(1) p by (auto split: if_splits)
qed

lemma queue_ok_remove:
  assumes q: "queue_ok s"
    and p: "unat (current_priority (threads s t)) < 32"
      "number_mask (threads s t) = prio_mask (current_priority (threads s t))"
    and th: "thread_stat (f (threads s t)) \<noteq> RT_THREAD_READY"
      "live (f (threads s t)) \<Longrightarrow> t \<noteq> 0 \<and> prio_ok (f (threads s t))"
  shows "queue_ok (upd_thread t f (ready_remove t s))"
proof (rule queue_okI)
  let ?p = "unat (current_priority (threads s t))"
  note ok = queue_okD(1) [OF q] and it = items_remove [OF queue_okD(1) [OF q], of t]
  show "lstore_ok (tlists (upd_thread t f (ready_remove t s)))"
    by (simp add: lstore_ok_remove [OF ok])
  show "bit (ready_group (upd_thread t f (ready_remove t s))) k =
      (items (tlists (upd_thread t f (ready_remove t s))) (Ready k) \<noteq> [])" if "k < 32" for k
  proof (cases "k = ?p")
    case True
    then show ?thesis
      using queue_okD(2) [OF q that] that
      by (auto simp: ready_remove_group p(2) bit_and_not_iff bit_prio_mask it)
  next
    case False
    have "home (tlists s) t \<noteq> Some (Ready k)"
      using queue_okD(3) [OF q, of t] False by auto
    then have "t \<notin> set (items (tlists s) (Ready k))"
      using lstore_okD(2) [OF ok] by simp
    then show ?thesis
      using queue_okD(2) [OF q that] False
      by (auto simp: ready_remove_group p(2) bit_and_not_iff bit_prio_mask it)
  qed
  show "home_ok (home (tlists (upd_thread t f (ready_remove t s))) x)
      (threads (upd_thread t f (ready_remove t s)) x)" for x
    using queue_okD(3) [OF q, of x] th(1) by (simp add: it)
  show "x \<noteq> 0 \<and> prio_ok (threads (upd_thread t f (ready_remove t s)) x)"
    if "live (threads (upd_thread t f (ready_remove t s)) x)" for x
    using that queue_okD(4) [OF q, of x] th(2) by (auto split: if_splits)
qed

text \<open>Writing the other fields of a thread, or of the kernel, does not matter to the queue.\<close>

lemma queue_ok_upd_thread:
  assumes q: "queue_ok s"
    and "thread_stat (f (threads s t)) = thread_stat (threads s t)"
    and "current_priority (f (threads s t)) = current_priority (threads s t)"
    and "number_mask (f (threads s t)) = number_mask (threads s t)"
    and "stack_check (f (threads s t)) = stack_check (threads s t)"
  shows "queue_ok (upd_thread t f s)"
proof (rule queue_okI)
  show "home_ok (home (tlists (upd_thread t f s)) x) (threads (upd_thread t f s) x)" for x
    using queue_okD(3) [OF q, of x] home_ok_cong [OF assms(2,3)] by auto
  show "x \<noteq> 0 \<and> prio_ok (threads (upd_thread t f s) x)" if "live (threads (upd_thread t f s) x)" for x
    using that queue_okD(4) [OF q, of x] assms by (auto simp: live_def prio_ok_def split: if_splits)
qed (use queue_okD [OF q] in auto)

text \<open>A thread in no list may change its state, except to READY.\<close>

lemma queue_ok_free_upd:
  assumes q: "queue_ok s" and h: "home (tlists s) t = None"
    and "thread_stat (f (threads s t)) \<noteq> RT_THREAD_READY"
    and "live (f (threads s t)) \<Longrightarrow> t \<noteq> 0 \<and> prio_ok (f (threads s t))"
  shows "queue_ok (upd_thread t f s)"
proof (rule queue_okI)
  show "home_ok (home (tlists (upd_thread t f s)) x) (threads (upd_thread t f s) x)" for x
    using queue_okD(3) [OF q, of x] h assms(3) by auto
  show "x \<noteq> 0 \<and> prio_ok (threads (upd_thread t f s) x)" if "live (threads (upd_thread t f s) x)" for x
    using that queue_okD(4) [OF q, of x] assms(4) by (auto split: if_splits)
qed (use queue_okD [OF q] in auto)

lemma queue_ok_cong:
  "threads s' = threads s \<Longrightarrow> tlists s' = tlists s \<Longrightarrow> ready_group s' = ready_group s \<Longrightarrow>
    queue_ok s' = queue_ok s"
  by (simp add: queue_ok_def)

lemma queue_ok_running_home:
  "queue_ok s \<Longrightarrow> thread_stat (threads s t) = RT_THREAD_RUNNING \<Longrightarrow> home (tlists s) t = None"
  using queue_okD(3) [of s t] home_ok_stat3 by simp

section \<open>The choice of the next thread\<close>

lemma group_zero_iff:
  assumes "queue_ok s"
  shows "ready_group s = 0 \<longleftrightarrow> (\<forall>t. thread_stat (threads s t) \<noteq> RT_THREAD_READY)"
proof
  assume g: "ready_group s = 0"
  show "\<forall>t. thread_stat (threads s t) \<noteq> RT_THREAD_READY"
  proof (rule ccontr)
    assume "\<not> ?thesis"
    then obtain t where t: "thread_stat (threads s t) = RT_THREAD_READY" by auto
    let ?p = "unat (current_priority (threads s t))"
    have "home (tlists s) t = Some (Ready ?p)"
      using queue_okD(3) [OF assms, of t] t
      by (cases "(home (tlists s) t, threads s t)" rule: home_ok.cases) auto
    then have "items (tlists s) (Ready ?p) \<noteq> []"
      using lstore_okD(2) [OF queue_okD(1) [OF assms], of t "Ready ?p"] by auto
    moreover have "?p < 32" using queue_okD(4) [OF assms, of t] t by (auto simp: live_def prio_ok_def)
    ultimately show False using queue_okD(2) [OF assms] g by auto
  qed
next
  assume r: "\<forall>t. thread_stat (threads s t) \<noteq> RT_THREAD_READY"
  have "items (tlists s) (Ready p) = []" for p
  proof (rule ccontr)
    assume "items (tlists s) (Ready p) \<noteq> []"
    then obtain t where "t \<in> set (items (tlists s) (Ready p))" by (meson hd_in_set)
    then have "home (tlists s) t = Some (Ready p)"
      using lstore_okD(2) [OF queue_okD(1) [OF assms]] by simp
    then show False using queue_okD(3) [OF assms, of t] r by simp
  qed
  then show "ready_group s = 0"
    using queue_okD(2) [OF assms] by (simp add: word_eq_zero_iff_bits)
qed

lemma ready_home:
  assumes "queue_ok s" and "thread_stat (threads s t) = RT_THREAD_READY"
  shows "home (tlists s) t = Some (Ready (unat (current_priority (threads s t))))"
  using queue_okD(3) [OF assms(1), of t] assms(2)
  by (cases "(home (tlists s) t, threads s t)" rule: home_ok.cases) auto

text \<open>The bitmap search finds the first thread of the best non-empty ready list.\<close>

lemma highest_thread:
  assumes q: "queue_ok s" and g: "ready_group s \<noteq> 0"
  obtains t p rest where "scheduler_get_highest_priority_thread s = Some (t, p)"
    and "items (tlists s) (Ready p) = t # rest" and "p < 32"
    and "\<And>x. thread_stat (threads s x) = RT_THREAD_READY \<Longrightarrow> p \<le> unat (current_priority (threads s x))"
    and "thread_stat (threads s t) = RT_THREAD_READY" and "unat (current_priority (threads s t)) = p"
proof -
  obtain p where p: "p < 32" "rt_ffs (ready_group s) = p + 1" "is_lowest_bit (ready_group s) p"
    using rt_ffs_lowest [OF g] by blast
  then have "items (tlists s) (Ready p) \<noteq> []"
    using queue_okD(2) [OF q p(1)] by (simp add: is_lowest_bit_def)
  then obtain t rest where l: "items (tlists s) (Ready p) = t # rest"
    by (cases "items (tlists s) (Ready p)") auto
  have low: "p \<le> unat (current_priority (threads s x))"
    if x: "thread_stat (threads s x) = RT_THREAD_READY" for x
  proof (rule ccontr)
    assume lt: "\<not> p \<le> unat (current_priority (threads s x))"
    let ?k = "unat (current_priority (threads s x))"
    have "x \<in> set (items (tlists s) (Ready ?k))"
      using ready_home [OF q x] lstore_okD(2) [OF queue_okD(1) [OF q]] by simp
    then have "bit (ready_group s) ?k"
      using queue_okD(2) [OF q, of ?k] lt p(1) by fastforce
    then show False using p(3) lt by (simp add: is_lowest_bit_def)
  qed
  have "home (tlists s) t = Some (Ready p)"
    using lstore_okD(2) [OF queue_okD(1) [OF q], of t "Ready p"] l by simp
  then have t: "thread_stat (threads s t) = RT_THREAD_READY" "unat (current_priority (threads s t)) = p"
    using queue_okD(3) [OF q, of t] by auto
  show thesis
    by (rule that [OF _ l p(1) low t])
      (simp_all add: scheduler_get_highest_priority_thread_def p(2) l)
qed

section \<open>Rescheduling\<close>

text \<open>The current thread runs and no ready thread has a better (smaller) priority.\<close>

definition runs_highest :: "kernel \<Rightarrow> bool" where
  "runs_highest s =
     (thread_stat (threads s (current_thread s)) = RT_THREAD_RUNNING \<and>
      (\<forall>t. thread_stat (threads s t) = RT_THREAD_READY \<longrightarrow>
         current_priority (threads s (current_thread s)) \<le> current_priority (threads s t)))"

lemma sched_okD:
  assumes "sched_ok s"
  shows "queue_ok s"
    and "thread_stat (threads s t) = RT_THREAD_RUNNING \<Longrightarrow> t = current_thread s"
    and "thread_stat (threads s (current_thread s)) \<noteq> RT_THREAD_READY"
  using assms by (auto simp: sched_ok_def)

lemma sched_okI:
  assumes "queue_ok s" and "current_thread s = c"
    and "\<And>x. thread_stat (threads s x) = RT_THREAD_RUNNING \<Longrightarrow> x = c"
    and "thread_stat (threads s c) \<noteq> RT_THREAD_READY"
  shows "sched_ok s"
  using assms unfolding sched_ok_def by blast

lemma live_stat: "live th \<longleftrightarrow> thread_stat th = 1 \<or> thread_stat th = 2 \<or> thread_stat th = 3"
  by (auto simp: live_def)

lemma schedule_keep_ok:
  assumes ok: "sched_ok s" and c: "thread_stat (threads s (current_thread s)) = RT_THREAD_RUNNING"
  defines "cur \<equiv> current_thread s"
  defines "s1 \<equiv> upd_thread cur clear_yield s"
  shows "rt_schedule_remove_thread cur s1 = Some (ready_remove cur s1)"
    and "sched_ok (upd_thread cur (set_stat RT_THREAD_RUNNING) (ready_remove cur s1))"
proof -
  have q: "queue_ok s" by (rule sched_okD [OF ok])
  have cur: "cur \<noteq> 0" "prio_ok (threads s cur)"
    using queue_okD(4) [OF q, of cur] c by (auto simp: live_def cur_def)
  have q1: "queue_ok s1"
    unfolding s1_def by (rule queue_ok_upd_thread [OF q]) (simp_all add: stat_simps)
  have p1: "prio_ok (threads s1 cur)"
    using cur(2) by (simp add: s1_def)
  show "rt_schedule_remove_thread cur s1 = Some (ready_remove cur s1)"
    using cur(1) p1 by (intro remove_thread_eq) (auto simp: prio_ok_def)
  have "queue_ok (upd_thread cur (set_stat RT_THREAD_RUNNING) (ready_remove cur s1))"
    by (rule queue_ok_remove [OF q1]) (use p1 cur in \<open>auto simp: prio_ok_def stat_simps\<close>)
  then show "sched_ok (upd_thread cur (set_stat RT_THREAD_RUNNING) (ready_remove cur s1))"
    using sched_okD(2) [OF ok] by (auto simp: sched_ok_def s1_def stat_simps cur_def)
qed

lemma schedule_switch_ok:
  fixes s :: kernel and t :: tid and p :: nat and b :: bool
  assumes q: "queue_ok s" and to: "thread_stat (threads s t) = RT_THREAD_READY"
    and cur: "t \<noteq> current_thread s"
    and run: "\<And>x. thread_stat (threads s x) = RT_THREAD_RUNNING \<Longrightarrow> x = current_thread s"
    and ins: "b \<longleftrightarrow> thread_stat (threads s (current_thread s)) = RT_THREAD_RUNNING"
  defines "c \<equiv> current_thread s"
  defines "s1 \<equiv> s\<lparr>running_priority := of_nat p, current_thread := t\<rparr>"
  defines "s2 \<equiv> (if b then ready_insert c s1 else s1)"
  defines "s3 \<equiv> upd_thread t (set_stat RT_THREAD_RUNNING) (ready_remove t s2)"
  shows "schedule_switch t p b s = Some s3" and "sched_ok s3"
proof -
  have tok: "t \<noteq> 0" "prio_ok (threads s t)"
    using queue_okD(4) [OF q, of t] to by (auto simp: live_def)
  have q1: "queue_ok s1" using q by (simp add: s1_def queue_ok_def)
  have c0: "c \<noteq> 0 \<and> prio_ok (threads s c) \<and> home (tlists s) c = None" if b
    using that ins queue_okD(4) [OF q, of c] queue_ok_running_home [OF q, of c]
    by (auto simp: live_def c_def)
  have s2: "(if b then rt_schedule_insert_thread c s1 else Some s1) = Some s2"
    using c0 cur by (auto simp: s2_def insert_thread_eq s1_def c_def prio_ok_def)
  have q2: "queue_ok s2"
    using q1 c0 by (auto simp: s2_def s1_def intro!: queue_ok_insert)
  have th2: "threads s2 t = threads s t"
    using cur by (auto simp: s2_def s1_def c_def)
  have rm: "rt_schedule_remove_thread t s2 = Some (ready_remove t s2)"
    using tok by (intro remove_thread_eq) (auto simp: th2 prio_ok_def)
  show "schedule_switch t p b s = Some s3"
    unfolding schedule_switch_def Let_def c_def [symmetric] s1_def [symmetric] s2
    using tok(2) by (simp add: rm s3_def th2 prio_ok_def)
  show "sched_ok s3"
  proof (rule sched_okI [where c = t])
    show "queue_ok s3"
      unfolding s3_def
      by (rule queue_ok_remove [OF q2]) (use tok in \<open>auto simp: th2 prio_ok_def stat_simps\<close>)
    show "current_thread s3 = t" by (simp add: s3_def s2_def s1_def)
    show "x = t" if x: "thread_stat (threads s3 x) = RT_THREAD_RUNNING" for x
    proof (rule ccontr)
      assume "x \<noteq> t"
      then have "threads s3 x = (if b \<and> x = c then set_stat RT_THREAD_READY (threads s c) else threads s x)"
        by (simp add: s3_def s2_def s1_def)
      with x have "thread_stat (threads s x) = RT_THREAD_RUNNING" and "\<not> (b \<and> x = c)"
        by (auto simp: stat_simps split: if_splits)
      then show False using run [of x] ins by (simp add: c_def)
    qed
    show "thread_stat (threads s3 t) \<noteq> RT_THREAD_READY"
      by (simp add: s3_def stat_simps)
  qed
qed

text \<open>One call of \<^verbatim>\<open>rt_schedule\<close>, case by case.\<close>

lemma schedule_cases:
  assumes ok: "sched_ok s"
  obtains (idle) "lock_nest s \<noteq> 0 \<or> ready_group s = 0" "rt_schedule s = Some s"
  | (keep) s1 where "lock_nest s = 0" "ready_group s \<noteq> 0"
      "thread_stat (threads s (current_thread s)) = RT_THREAD_RUNNING"
      "s1 = upd_thread (current_thread s) clear_yield s"
      "rt_schedule s = Some (upd_thread (current_thread s) (set_stat RT_THREAD_RUNNING)
         (ready_remove (current_thread s) s1))"
      "\<And>x. thread_stat (threads s x) = RT_THREAD_READY \<Longrightarrow>
         current_priority (threads s (current_thread s)) \<le> current_priority (threads s x)"
      "\<And>x. yield_flag (threads s (current_thread s)) \<Longrightarrow> thread_stat (threads s x) = RT_THREAD_READY \<Longrightarrow>
         current_priority (threads s (current_thread s)) < current_priority (threads s x)"
  | (switch) t p rest where "lock_nest s = 0" "ready_group s \<noteq> 0"
      "items (tlists s) (Ready p) = t # rest" "t \<noteq> current_thread s"
      "thread_stat (threads s t) = RT_THREAD_READY" "unat (current_priority (threads s t)) = p"
      "\<And>x. thread_stat (threads s x) = RT_THREAD_READY \<Longrightarrow> p \<le> unat (current_priority (threads s x))"
      "thread_stat (threads s (current_thread s)) = RT_THREAD_RUNNING \<Longrightarrow>
         p < unat (current_priority (threads s (current_thread s))) \<or>
         p = unat (current_priority (threads s (current_thread s))) \<and>
         yield_flag (threads s (current_thread s))"
      "rt_schedule s = schedule_switch t p
         (thread_stat (threads s (current_thread s)) = RT_THREAD_RUNNING)
         (if thread_stat (threads s (current_thread s)) = RT_THREAD_RUNNING
          then upd_thread (current_thread s) clear_yield s else s)"
proof (cases "lock_nest s = 0 \<and> ready_group s \<noteq> 0")
  case False
  then show thesis by (intro idle) (auto simp: rt_schedule_def)
next
  case True
  let ?c = "current_thread s"
  note q = sched_okD(1) [OF ok]
  obtain t p rest where t: "scheduler_get_highest_priority_thread s = Some (t, p)"
    "items (tlists s) (Ready p) = t # rest" "p < 32"
    "\<And>x. thread_stat (threads s x) = RT_THREAD_READY \<Longrightarrow> p \<le> unat (current_priority (threads s x))"
    "thread_stat (threads s t) = RT_THREAD_READY" "unat (current_priority (threads s t)) = p"
    using highest_thread [OF q] True by metis
  have tc: "t \<noteq> ?c" using t(5) sched_okD(3) [OF ok] by auto
  let ?run = "thread_stat (threads s ?c) = RT_THREAD_RUNNING"
  show thesis
  proof (cases "?run \<and> (unat (current_priority (threads s ?c)) < p \<or>
      unat (current_priority (threads s ?c)) = p \<and> \<not> yield_flag (threads s ?c))")
    case kept: True
    show thesis
    proof (rule keep)
      show "rt_schedule s = Some (upd_thread ?c (set_stat RT_THREAD_RUNNING)
          (ready_remove ?c (upd_thread ?c clear_yield s)))"
        using kept True t schedule_keep_ok(1) [OF ok] by (auto simp: rt_schedule_def Let_def)
      show "current_priority (threads s ?c) \<le> current_priority (threads s x)"
        if "thread_stat (threads s x) = RT_THREAD_READY" for x
        using t(4) [OF that] kept by (auto simp: word_le_nat_alt)
      show "current_priority (threads s ?c) < current_priority (threads s x)"
        if "yield_flag (threads s ?c)" "thread_stat (threads s x) = RT_THREAD_READY" for x
        using t(4) [OF that(2)] that(1) kept by (auto simp: word_less_nat_alt)
    qed (use kept True in auto)
  next
    case away: False
    show thesis
    proof (rule switch [OF _ _ t(2) tc t(5,6,4)])
      show "rt_schedule s = schedule_switch t p ?run (if ?run then upd_thread ?c clear_yield s else s)"
        using away True t tc by (auto simp: rt_schedule_def Let_def)
    qed (use away True in auto)
  qed
qed

lemma schedule_ok:
  assumes ok: "sched_ok s"
  shows "\<exists>s'. rt_schedule s = Some s' \<and> sched_ok s' \<and>
    (lock_nest s = 0 \<and> ready_group s \<noteq> 0 \<longrightarrow> runs_highest s')"
  using ok
proof (cases rule: schedule_cases)
  case idle
  then show ?thesis using ok by auto
next
  case (keep s1)
  then show ?thesis
    using schedule_keep_ok(2) [OF ok keep(3)]
    by (auto simp: runs_highest_def stat_simps)
next
  case (switch t p rest)
  let ?c = "current_thread s"
  let ?run = "thread_stat (threads s ?c) = RT_THREAD_RUNNING"
  let ?s0 = "if ?run then upd_thread ?c clear_yield s else s"
  have q: "queue_ok ?s0"
    using sched_okD(1) [OF ok] by (auto intro!: queue_ok_upd_thread simp: stat_simps)
  have th: "thread_stat (threads ?s0 x) = thread_stat (threads s x)"
    "current_priority (threads ?s0 x) = current_priority (threads s x)" for x
    by (auto simp: stat_simps)
  have cur: "current_thread ?s0 = ?c" by simp
  note sw = schedule_switch_ok [of ?s0 t ?run p]
  obtain s3 where s3: "schedule_switch t p ?run ?s0 = Some s3" "sched_ok s3"
    and def_: "s3 = upd_thread t (set_stat RT_THREAD_RUNNING) (ready_remove t
      (if ?run then ready_insert ?c (?s0\<lparr>running_priority := of_nat p, current_thread := t\<rparr>)
       else ?s0\<lparr>running_priority := of_nat p, current_thread := t\<rparr>))"
    using sw q switch(4,5) sched_okD(2) [OF ok] unfolding th cur by blast
  have "runs_highest s3"
    unfolding runs_highest_def def_
    using switch(4,6-8) by (auto simp: stat_simps word_le_nat_alt)
  then show ?thesis using s3 switch(9) by auto
qed

section \<open>What a reschedule leaves alone\<close>

text \<open>\<^verbatim>\<open>rt_schedule\<close> only moves threads between READY and RUNNING: it writes the state bytes of such
  threads, the ready lists with their bitmap, and the two variables that name the current thread.\<close>

definition sched_frame :: "kernel \<Rightarrow> kernel \<Rightarrow> bool" where
  "sched_frame s s' =
     (s' = s\<lparr>threads := threads s', tlists := tlists s', ready_group := ready_group s',
        current_thread := current_thread s', running_priority := running_priority s'\<rparr> \<and>
      (\<forall>t. threads s' t = (threads s t)\<lparr>stat := stat (threads s' t)\<rparr>) \<and>
      (\<forall>t. thread_stat (threads s t) \<notin> {RT_THREAD_READY, RT_THREAD_RUNNING} \<longrightarrow>
         threads s' t = threads s t) \<and>
      (\<forall>t. thread_stat (threads s t) \<in> {RT_THREAD_READY, RT_THREAD_RUNNING} \<longrightarrow>
         thread_stat (threads s' t) \<in> {RT_THREAD_READY, RT_THREAD_RUNNING}) \<and>
      (\<forall>h. (\<forall>p. h \<noteq> Ready p) \<longrightarrow> items (tlists s') h = items (tlists s) h))"

lemma sched_frame_kernel:
  assumes "sched_frame s s'"
  shows "lock_nest s' = lock_nest s" "interrupt_nest s' = interrupt_nest s" "rt_tick s' = rt_tick s"
    "timers s' = timers s" "trows s' = trows s" "soft_timer_busy s' = soft_timer_busy s"
    "random_nr s' = random_nr s" "obj_type s' = obj_type s" "obj_name s' = obj_name s"
    "olists s' = olists s" "sems s' = sems s" "mutexes s' = mutexes s" "events s' = events s"
    "mailboxes s' = mailboxes s" "mqueues s' = mqueues s" "mempools s' = mempools s"
    "memory s' = memory s" "devices s' = devices s" "errno s' = errno s"
  using assms unfolding sched_frame_def by (cases s, cases s', simp)+

lemma stat_upd_fields:
  assumes "th' = th\<lparr>stat := x\<rparr>"
  shows "current_priority th' = current_priority th" "number_mask th' = number_mask th"
    "thread_error th' = thread_error th" "event_set th' = event_set th"
    "event_info th' = event_info th" "init_tick th' = init_tick th"
    "remaining_tick th' = remaining_tick th" "stack_check th' = stack_check th"
  using assms by (simp_all add: stack_check_def)

lemma sched_frameD:
  assumes "sched_frame s s'"
  shows "threads s' t = (threads s t)\<lparr>stat := stat (threads s' t)\<rparr>"
    and "thread_stat (threads s t) \<noteq> 1 \<Longrightarrow> thread_stat (threads s t) \<noteq> 3 \<Longrightarrow> threads s' t = threads s t"
    and "thread_stat (threads s t) = 1 \<or> thread_stat (threads s t) = 3 \<Longrightarrow>
      thread_stat (threads s' t) = 1 \<or> thread_stat (threads s' t) = 3"
    and "(\<And>p. h \<noteq> Ready p) \<Longrightarrow> items (tlists s') h = items (tlists s) h"
  using assms unfolding sched_frame_def by auto

lemmas sched_frame_thread = stat_upd_fields [OF sched_frameD(1)]

lemma sched_frame_refl: "sched_frame s s"
  by (simp add: sched_frame_def)

lemma ready_items_other:
  assumes "queue_ok s" and "thread_stat (threads s t) \<in> {1, 3}" and "\<And>p. h \<noteq> Ready p"
  shows "t \<notin> set (items (tlists s) h)"
proof
  assume "t \<in> set (items (tlists s) h)"
  then have "home (tlists s) t = Some h" using lstore_okD(2) [OF queue_okD(1) [OF assms(1)]] by simp
  then show False
    using queue_okD(3) [OF assms(1), of t] assms(2,3) by (cases h) auto
qed

lemma kernel_eq_sched:
  "s\<lparr>threads := a, tlists := b, ready_group := c, current_thread := d, running_priority := e\<rparr> =
   s\<lparr>running_priority := e, current_thread := d, ready_group := c, tlists := b, threads := a\<rparr>"
  by simp

lemma ready_remove_eq: "ready_remove t s = s\<lparr>tlists := ls_remove t (tlists s),
    ready_group := ready_group (ready_remove t s)\<rparr>"
  by (simp add: ready_remove_def Let_def)

lemma ready_insert_eq: "ready_insert t s = s\<lparr>threads := threads (ready_insert t s),
    tlists := tlists (ready_insert t s), ready_group := ready_group (ready_insert t s)\<rparr>"
  by (simp add: ready_insert_def Let_def upd_thread_def)

lemma set_stat_upd: "set_stat v th = th\<lparr>stat := stat (set_stat v th)\<rparr>"
  by (simp add: set_stat_def)

lemma clear_yield_upd: "clear_yield th = th\<lparr>stat := stat (clear_yield th)\<rparr>"
  by (simp add: clear_yield_def)

lemma set_stat_clear_yield: "set_stat v (clear_yield th) = th\<lparr>stat := stat (set_stat v (clear_yield th))\<rparr>"
  by (simp add: set_stat_def clear_yield_def)

lemma sched_frame_keep:
  assumes q: "queue_ok s" and c: "thread_stat (threads s c) = RT_THREAD_RUNNING"
  shows "sched_frame s (upd_thread c (set_stat RT_THREAD_RUNNING)
      (ready_remove c (upd_thread c clear_yield s)))" (is "sched_frame s ?s'")
  unfolding sched_frame_def
proof (intro conjI allI impI)
  show "?s' = s\<lparr>threads := threads ?s', tlists := tlists ?s', ready_group := ready_group ?s',
      current_thread := current_thread ?s', running_priority := running_priority ?s'\<rparr>"
    by (simp add: upd_thread_def ready_remove_def Let_def)
  show "threads ?s' t = (threads s t)\<lparr>stat := stat (threads ?s' t)\<rparr>" for t
    by (simp add: set_stat_def clear_yield_def)
  show "items (tlists ?s') h = items (tlists s) h" if "\<forall>p. h \<noteq> Ready p" for h
    using ready_items_other [OF q, of c h] c that by (simp add: items_remove [OF queue_okD(1) [OF q]])
qed (use c in \<open>auto simp: stat_simps\<close>)

lemma sched_frame_switch:
  fixes p :: u8
  assumes q: "queue_ok s" and t: "thread_stat (threads s t) = RT_THREAD_READY"
    and c: "b \<Longrightarrow> thread_stat (threads s c) = RT_THREAD_RUNNING"
  defines "s0 \<equiv> (if b then upd_thread c clear_yield s else s)\<lparr>running_priority := p, current_thread := t\<rparr>"
  shows "sched_frame s (upd_thread t (set_stat RT_THREAD_RUNNING) (ready_remove t
      (if b then ready_insert c s0 else s0)))" (is "sched_frame s ?s'")
  unfolding sched_frame_def
proof (intro conjI allI impI)
  show "?s' = s\<lparr>threads := threads ?s', tlists := tlists ?s', ready_group := ready_group ?s',
      current_thread := current_thread ?s', running_priority := running_priority ?s'\<rparr>"
    by (simp add: s0_def upd_thread_def ready_remove_def ready_insert_def Let_def)
  show "threads ?s' x = (threads s x)\<lparr>stat := stat (threads ?s' x)\<rparr>" for x
    by (simp add: s0_def set_stat_def clear_yield_def)
  let ?s1 = "if b then ready_insert c s0 else s0"
  have q0: "queue_ok s0"
    using queue_ok_upd_thread [OF q, of clear_yield c] q by (simp add: s0_def stat_simps queue_ok_def)
  have q1: "queue_ok ?s1"
  proof (cases b)
    case True
    have "home (tlists s0) c = None" "c \<noteq> 0" "prio_ok (threads s0 c)"
      using c [OF True] queue_ok_running_home [OF q] queue_okD(4) [OF q, of c] by (auto simp: s0_def live_def)
    then show ?thesis using queue_ok_insert [OF q0] True by simp
  qed (use q0 in simp)
  show "items (tlists ?s') h = items (tlists s) h" if h: "\<forall>p. h \<noteq> Ready p" for h
  proof -
    have "t \<notin> set (items (tlists s) h)" using ready_items_other [OF q, of t h] t h by simp
    then show ?thesis
      using h by (simp add: items_remove [OF queue_okD(1) [OF q1]] ready_insert_items Let_def s0_def)
  qed
qed (use c t in \<open>auto simp: s0_def stat_simps\<close>)

lemma schedule_frame:
  assumes ok: "sched_ok s" and s': "rt_schedule s = Some s'"
  shows "sched_frame s s'"
  using ok
proof (cases rule: schedule_cases)
  case idle
  then show ?thesis using s' by (simp add: sched_frame_refl)
next
  case (keep s1)
  then show ?thesis using s' sched_frame_keep [OF sched_okD(1) [OF ok] keep(3)] by simp
next
  case (switch t p rest)
  let ?c = "current_thread s"
  let ?run = "thread_stat (threads s ?c) = RT_THREAD_RUNNING"
  let ?s0 = "if ?run then upd_thread ?c clear_yield s else s"
  have q: "queue_ok ?s0"
    using sched_okD(1) [OF ok] by (auto intro!: queue_ok_upd_thread simp: stat_simps)
  have th: "thread_stat (threads ?s0 x) = thread_stat (threads s x)" for x
    by (auto simp: stat_simps)
  have cur: "current_thread ?s0 = ?c" by simp
  have "schedule_switch t p ?run ?s0 = Some (upd_thread t (set_stat RT_THREAD_RUNNING) (ready_remove t
      (if ?run then ready_insert ?c (?s0\<lparr>running_priority := of_nat p, current_thread := t\<rparr>)
       else ?s0\<lparr>running_priority := of_nat p, current_thread := t\<rparr>)))"
    using schedule_switch_ok(1) [of ?s0 t ?run p] q switch(4,5) sched_okD(2) [OF ok]
    unfolding th cur by blast
  then show ?thesis
    using s' switch(9) sched_frame_switch [OF sched_okD(1) [OF ok] switch(5), of ?run ?c "of_nat p"] by simp
qed

lemma schedule_current:
  assumes ok: "sched_ok s" and s': "rt_schedule s = Some s'"
  shows "current_thread s' = current_thread s \<or> thread_stat (threads s' (current_thread s')) = RT_THREAD_RUNNING"
proof (cases "lock_nest s = 0 \<and> ready_group s \<noteq> 0")
  case True
  then show ?thesis using schedule_ok [OF ok] s' by (auto simp: runs_highest_def)
qed (use s' in \<open>auto simp: rt_schedule_def\<close>)

text \<open>Rescheduling while the best thread runs, with no yield pending, changes nothing.\<close>

lemma and_not_id: "(x :: u8) AND m = 0 \<Longrightarrow> x AND NOT m = x"
  by (metis and.right_neutral bit.conj_disj_distrib bit.disj_cancel_right or.left_neutral)

lemma clear_yield_id: "\<not> yield_flag th \<Longrightarrow> clear_yield th = th"
  using and_not_id [of "stat th" 8] by (simp add: clear_yield_def yield_flag_def)

lemma set_stat_id:
  assumes "thread_stat th = v"
  shows "set_stat v th = th"
proof -
  have "(stat th AND 7) OR (stat th AND NOT 7) = stat th"
    by (metis and.right_neutral bit.conj_disj_distrib bit.disj_cancel_right)
  then show ?thesis using assms by (auto simp: set_stat_def thread_stat_def)
qed

lemma upd_thread_id: "f (threads s t) = threads s t \<Longrightarrow> upd_thread t f s = s"
  by (simp add: upd_thread_def fun_upd_idem)

lemma ready_remove_running:
  assumes q: "queue_ok s" and c: "thread_stat (threads s c) = RT_THREAD_RUNNING"
  shows "ready_remove c s = s"
proof -
  let ?p = "unat (current_priority (threads s c))"
  have h: "home (tlists s) c = None" by (rule queue_ok_running_home [OF q c])
  have p: "?p < 32" "number_mask (threads s c) = prio_mask (current_priority (threads s c))"
    using queue_okD(4) [OF q, of c] c by (auto simp: live_def prio_ok_def)
  have "ready_group s AND NOT (number_mask (threads s c)) = ready_group s"
    if "items (tlists s) (Ready ?p) = []"
  proof (rule bit_word_eqI)
    fix n
    have "\<not> bit (ready_group s) ?p" using queue_okD(2) [OF q p(1)] that by simp
    then show "bit (ready_group s AND NOT (number_mask (threads s c))) n = bit (ready_group s) n"
      by (auto simp: bit_and_not_iff p(2) bit_prio_mask)
  qed
  then show ?thesis using h by (simp add: ready_remove_def ls_remove_def Let_def)
qed

lemma schedule_stable:
  assumes ok: "sched_ok s" and top: "runs_highest s"
    and y: "\<not> yield_flag (threads s (current_thread s))"
  shows "rt_schedule s = Some s"
  using ok
proof (cases rule: schedule_cases)
  case (keep s1)
  then have "s1 = s" using y by (simp add: clear_yield_id upd_thread_id)
  then show ?thesis
    using keep ready_remove_running [OF sched_okD(1) [OF ok] keep(3)]
    by (simp add: set_stat_id upd_thread_id)
next
  case (switch t p rest)
  then have "current_priority (threads s (current_thread s)) \<le> current_priority (threads s t)"
    and "p < unat (current_priority (threads s (current_thread s)))"
    using top y unfolding runs_highest_def by (blast+)
  then show ?thesis using switch(6) by (simp add: word_le_nat_alt)
qed simp

section \<open>The scheduler lock\<close>

lemma schedule_locked: "lock_nest s \<noteq> 0 \<Longrightarrow> rt_schedule s = Some s"
  by (simp add: rt_schedule_def)

lemma exit_enter_nested:
  assumes "0 < sint (lock_nest s)" and "lock_nest s \<noteq> 0x7FFF"
  shows "rt_exit_critical (rt_enter_critical s) = Some s"
  using assms by (simp add: rt_exit_critical_def rt_enter_critical_def Let_def)

lemma exit_enter_outer:
  assumes "lock_nest s = 0"
  shows "rt_exit_critical (rt_enter_critical s) = (if current_thread s \<noteq> 0 then rt_schedule s else Some s)"
  using assms by (cases s) (simp add: rt_exit_critical_def rt_enter_critical_def Let_def)

lemma exit_enter_stable:
  assumes "sched_ok s" and "lock_nest s = 0" and "current_thread s = 0 \<or> runs_highest s"
    and "\<not> yield_flag (threads s (current_thread s))"
  shows "rt_exit_critical (rt_enter_critical s) = Some s"
  using assms schedule_stable by (auto simp: exit_enter_outer)

section \<open>A concrete system\<close>

text \<open>Thread 3 runs at priority 10, thread 4 is ready at the same priority, the idle thread 2 is ready
  at the lowest priority, the timer thread 1 and thread 5 are suspended.\<close>

definition demo_thread :: "u8 \<Rightarrow> u8 \<Rightarrow> rt_thread" where
  "demo_thread p st = null_thread\<lparr>sp := 0x1100, stack_addr := 0x1000, stack_size := 0x200,
     stack_guard := 0x23, current_priority := p, number_mask := prio_mask p, stat := st,
     init_tick := 10, remaining_tick := 10\<rparr>"

definition demo_kernel :: kernel where
  "demo_kernel = boot_kernel\<lparr>
     threads := (threads boot_kernel)
       (1 := demo_thread 0 RT_THREAD_SUSPEND, 2 := demo_thread 31 RT_THREAD_READY,
        3 := demo_thread 10 RT_THREAD_RUNNING, 4 := demo_thread 10 RT_THREAD_READY,
        5 := demo_thread 5 RT_THREAD_SUSPEND),
     tlists := \<lparr>items = (\<lambda>_. [])(Ready 31 := [2], Ready 10 := [4]),
       home = (\<lambda>_. None)(2 := Some (Ready 31), 4 := Some (Ready 10))\<rparr>,
     ready_group := 0x80000400, current_thread := 3, running_priority := 10,
     obj_type := (\<lambda>x. case x of Thread_obj t \<Rightarrow> if t \<in> {1, 2, 3, 4, 5} then 0x81 else 0
        | Timer_obj (Thread_timer t) \<Rightarrow> if t \<in> {1, 2, 3, 4, 5} then 0x8a else 0 | _ \<Rightarrow> 0),
     timers := (\<lambda>m. case m of Thread_timer t \<Rightarrow> null_timer\<lparr>timeout_func := Thread_timeout t\<rparr>
        | Timer n \<Rightarrow> null_timer)\<rparr>"

lemma null_thread_fields [simp]:
  "stat null_thread = 0" "thread_stat null_thread = 0" "thread_error null_thread = 0"
  "current_priority null_thread = 0"
  by (simp_all add: null_thread_def thread_stat_def)

lemma demo_thread_fields [simp]:
  "stat (demo_thread p st) = st" "current_priority (demo_thread p st) = p"
  "number_mask (demo_thread p st) = prio_mask p" "stack_check (demo_thread p st)"
  "thread_stat (demo_thread p st) = st AND 7" "thread_error (demo_thread p st) = 0"
  "yield_flag (demo_thread p st) = (st AND 8 \<noteq> 0)"
  by (simp_all add: demo_thread_def stack_check_def null_thread_def thread_stat_def yield_flag_def)

lemma demo_prio_ok [simp]: "prio_ok (demo_thread p st) = (unat p < 32)"
  by (simp add: prio_ok_def)

lemma demo_bits: "bit (0x80000400 :: u32) p = (p = 10 \<or> p = 31)"
proof -
  have "(0x80000400 :: u32) = prio_mask 31 OR prio_mask 10" by (simp add: prio_mask_def)
  then have "bit (0x80000400 :: u32) p = (bit (prio_mask 31) p \<or> bit (prio_mask 10) p)"
    by (simp only: bit_or_iff_word)
  then show ?thesis by (auto simp only: bit_prio_mask) auto
qed

lemma demo_kernel_fields [simp]:
  "threads demo_kernel t =
     (if t = 1 then demo_thread 0 RT_THREAD_SUSPEND else if t = 2 then demo_thread 31 RT_THREAD_READY
      else if t = 3 then demo_thread 10 RT_THREAD_RUNNING else if t = 4 then demo_thread 10 RT_THREAD_READY
      else if t = 5 then demo_thread 5 RT_THREAD_SUSPEND else null_thread)"
  "items (tlists demo_kernel) = (\<lambda>_. [])(Ready 31 := [2], Ready 10 := [4])"
  "home (tlists demo_kernel) = (\<lambda>_. None)(2 := Some (Ready 31), 4 := Some (Ready 10))"
  "ready_group demo_kernel = 0x80000400" "lock_nest demo_kernel = 0"
  "current_thread demo_kernel = 3" "rt_tick demo_kernel = 0" "trows demo_kernel = empty_lstore"
  by (simp_all add: demo_kernel_def boot_kernel_def)

lemma demo_kernel_ok: "sched_ok demo_kernel"
proof (rule sched_okI [where c = 3])
  show "queue_ok demo_kernel"
  proof (rule queue_okI)
    show "lstore_ok (tlists demo_kernel)" by (auto simp: lstore_ok_def)
    show "bit (ready_group demo_kernel) p = (items (tlists demo_kernel) (Ready p) \<noteq> [])" for p
      by (simp only: demo_kernel_fields demo_bits) simp
    show "home_ok (home (tlists demo_kernel) t) (threads demo_kernel t)" for t by simp
    show "t \<noteq> 0 \<and> prio_ok (threads demo_kernel t)" if "live (threads demo_kernel t)" for t
      using that by (auto simp: live_def split: if_splits)
  qed
qed (auto split: if_splits)

section \<open>Properties\<close>

text \<open>C6. \<^verbatim>\<open>rt_schedule\<close> never trips an assertion on a consistent kernel, keeps it consistent, and when the
  scheduler is unlocked and some thread is ready, afterwards the current thread is running and no
  ready thread has a better priority.\<close>

theorem rt_schedule_picks_highest:
  assumes "sched_ok s"
  shows "\<exists>s'. rt_schedule s = Some s' \<and> sched_ok s' \<and>
    (lock_nest s = 0 \<and> ready_group s \<noteq> 0 \<longrightarrow> runs_highest s')"
  by (rule schedule_ok [OF assms])

theorem rt_schedule_picks_highest_witness:
  "\<exists>s'. rt_schedule demo_kernel = Some s' \<and> runs_highest s'"
  using rt_schedule_picks_highest [OF demo_kernel_ok] by auto

text \<open>A reschedule is confined: it only moves threads between READY and RUNNING, and leaves timers,
  wait queues, IPC objects, the tick, the lock depth and every other field of every thread alone.\<close>

theorem rt_schedule_confined:
  assumes "sched_ok s" and "rt_schedule s = Some s'"
  shows "sched_frame s s'"
  by (rule schedule_frame [OF assms])

theorem rt_schedule_confined_witness:
  "\<exists>s'. rt_schedule demo_kernel = Some s' \<and> sched_frame demo_kernel s'"
  using schedule_ok [OF demo_kernel_ok] rt_schedule_confined [OF demo_kernel_ok] by blast

text \<open>Queue operations agree with the bitmap: inserting a free started thread and taking a thread out
  both succeed and keep lists, states, homes and the priority bitmap consistent; the inserted thread
  is at the front of its list, or at the back when it carries the yield flag.\<close>

theorem ready_queue_ops:
  assumes "queue_ok s" and "t \<noteq> 0" and "t \<noteq> current_thread s" and "home (tlists s) t = None"
    and "prio_ok (threads s t)"
  defines "h \<equiv> Ready (unat (current_priority (threads s t)))"
  shows "\<exists>s1 s2. rt_schedule_insert_thread t s = Some s1 \<and> queue_ok s1 \<and>
    items (tlists s1) h = (if yield_flag (threads s t) then items (tlists s) h @ [t] else t # items (tlists s) h) \<and>
    rt_schedule_remove_thread t s1 = Some s2 \<and>
    queue_ok (upd_thread t (set_stat RT_THREAD_SUSPEND) s2) \<and> items (tlists s2) = items (tlists s)"
proof (intro exI conjI)
  let ?s1 = "ready_insert t s"
  have p: "unat (current_priority (threads s t)) < 32" using assms(5) by (simp add: prio_ok_def)
  show "rt_schedule_insert_thread t s = Some ?s1" by (rule insert_thread_eq [OF assms(2-4) p])
  show q1: "queue_ok ?s1" by (rule queue_ok_insert [OF assms(1,2,4,5)])
  show "items (tlists ?s1) h = (if yield_flag (threads s t) then items (tlists s) h @ [t] else t # items (tlists s) h)"
    by (simp add: ready_insert_items h_def Let_def)
  show "rt_schedule_remove_thread t ?s1 = Some (ready_remove t ?s1)"
    using assms(2) p by (intro remove_thread_eq) simp_all
  show "queue_ok (upd_thread t (set_stat RT_THREAD_SUSPEND) (ready_remove t ?s1))"
    by (rule queue_ok_remove [OF q1]) (use assms(2,5) in \<open>auto simp: stat_simps prio_ok_def\<close>)
  have "t \<notin> set (items (tlists s) k)" for k
    using lstore_okD(2) [OF queue_okD(1) [OF assms(1)], of t k] assms(4) by simp
  then show "items (tlists (ready_remove t ?s1)) = items (tlists s)"
    by (auto simp: items_remove [OF queue_okD(1) [OF q1]] ready_insert_items Let_def)
qed

theorem ready_queue_ops_witness:
  "\<exists>s1. rt_schedule_insert_thread 5 demo_kernel = Some s1 \<and> items (tlists s1) (Ready 5) = [5]"
  using ready_queue_ops [OF sched_okD(1) [OF demo_kernel_ok], of 5] by auto

text \<open>Critical sections nest: inside one, \<^verbatim>\<open>rt_schedule\<close> does nothing; an inner enter/exit pair restores
  the state exactly; and closing the outermost section does the reschedule that was held back.\<close>

theorem critical_sections_nest:
  assumes "0 \<le> sint (lock_nest s)" and "lock_nest s \<noteq> 0x7FFF"
  shows "rt_schedule (rt_enter_critical s) = Some (rt_enter_critical s) \<and>
    rt_critical_level (rt_enter_critical s) = rt_critical_level s + 1 \<and>
    rt_exit_critical (rt_enter_critical s) =
      (if lock_nest s \<noteq> 0 \<or> current_thread s = 0 then Some s else rt_schedule s)"
proof -
  have "lock_nest s \<noteq> - 1" using assms(1) by auto
  then have "lock_nest (rt_enter_critical s) \<noteq> 0"
    by (simp add: rt_enter_critical_def eq_neg_iff_add_eq_0)
  moreover have "lock_nest s \<noteq> 0 \<Longrightarrow> 0 < sint (lock_nest s)"
    using assms(1) by (metis less_le signed_0 sint_word_ariths(8) signed_eq_0_iff)
  ultimately show ?thesis
    using exit_enter_nested [of s] exit_enter_outer [of s] assms(2)
    by (cases "lock_nest s = 0") (auto simp: schedule_locked rt_critical_level_def, simp_all add: rt_enter_critical_def)
qed

theorem critical_sections_nest_witness:
  "rt_exit_critical (rt_enter_critical demo_kernel) = rt_schedule demo_kernel"
  using critical_sections_nest [of demo_kernel] by simp

end
