(* ===== verification/Rt_Object.thy ===== *)
theory Rt_Object
  imports Rt_Sched
begin

text \<open>
  The object system of \<^verbatim>\<open>src/object.c\<close>: every kernel object carries a name, a type byte and a node in
  the list of its class. The heap is not part of the state: what the allocator returns is an argument of
  \<^verbatim>\<open>rt_object_allocate\<close>. Hooks are not installed and there is no module system.
\<close>

section \<open>Operations\<close>

text \<open>The classes of \<^verbatim>\<open>_object_container\<close> in this configuration, in the order of the table.\<close>

definition object_container :: "u8 list" where
  "object_container =
     [RT_Object_Class_Thread, RT_Object_Class_Semaphore, RT_Object_Class_Mutex, RT_Object_Class_Event,
      RT_Object_Class_MailBox, RT_Object_Class_MessageQueue, RT_Object_Class_MemHeap,
      RT_Object_Class_MemPool, RT_Object_Class_Device, RT_Object_Class_Timer, 0x0c]"

fun container_find :: "u8 list \<Rightarrow> u8 \<Rightarrow> u8 option" where
  "container_find [] ty = None"
| "container_find (c # cs) ty = (if c = ty then Some c else container_find cs ty)"

definition rt_object_get_information :: "u8 \<Rightarrow> u8 option" where
  "rt_object_get_information ty = container_find object_container ty"

definition rt_object_get_length :: "u8 \<Rightarrow> kernel \<Rightarrow> int" where
  "rt_object_get_length ty s =
     (case rt_object_get_information ty of
        None \<Rightarrow> 0
      | Some c \<Rightarrow> int (length (items (olists s) c)))"

definition rt_object_get_pointers :: "u8 \<Rightarrow> int \<Rightarrow> kernel \<Rightarrow> obj list" where
  "rt_object_get_pointers ty maxlen s =
     (if maxlen \<le> 0 then []
      else case rt_object_get_information ty of
             None \<Rightarrow> []
           | Some c \<Rightarrow> take (nat maxlen) (items (olists s) c))"

definition rt_object_init :: "obj \<Rightarrow> u8 \<Rightarrow> string \<Rightarrow> kernel \<Rightarrow> kernel option" where
  "rt_object_init ob ty name s = do {
     information \<leftarrow> rt_object_get_information ty;
     let s = rt_enter_critical s;
     rt_assert (ob \<notin> set (items (olists s) information));
     s \<leftarrow> rt_exit_critical s;
     let s = s\<lparr>obj_type := (obj_type s)(ob := ty OR RT_Object_Class_Static),
               obj_name := (obj_name s)(ob := rt_strncpy name 8)\<rparr>;
     l \<leftarrow> ls_insert_after information ob (olists s);
     Some (s\<lparr>olists := l\<rparr>)
   }"

definition rt_object_detach :: "obj \<Rightarrow> kernel \<Rightarrow> kernel" where
  "rt_object_detach ob s =
     s\<lparr>obj_type := (obj_type s)(ob := 0), olists := ls_remove ob (olists s)\<rparr>"

text \<open>Dynamic objects. The heap is not part of the state: \<open>mem\<close> is the object at the address that
  \<^verbatim>\<open>RT_KERNEL_MALLOC\<close> returned, \<open>None\<close> for \<^verbatim>\<open>RT_NULL\<close>. The block is cleared by \<^verbatim>\<open>rt_memset\<close>; a thread carries its
  timer in the same block.\<close>

fun object_clear :: "obj \<Rightarrow> kernel \<Rightarrow> kernel" where
  "object_clear (Thread_obj t) s = s\<lparr>threads := (threads s)(t := null_thread),
     timers := (timers s)(Thread_timer t := null_timer),
     obj_type := (obj_type s)(Timer_obj (Thread_timer t) := 0)\<rparr>"
| "object_clear (Timer_obj m) s = s\<lparr>timers := (timers s)(m := null_timer)\<rparr>"
| "object_clear (Sem_obj n) s = s\<lparr>sems := (sems s)(n := sems boot_kernel n)\<rparr>"
| "object_clear (Mutex_obj n) s = s\<lparr>mutexes := (mutexes s)(n := mutexes boot_kernel n)\<rparr>"
| "object_clear (Event_obj n) s = s\<lparr>events := (events s)(n := events boot_kernel n)\<rparr>"
| "object_clear (Mailbox_obj n) s = s\<lparr>mailboxes := (mailboxes s)(n := mailboxes boot_kernel n)\<rparr>"
| "object_clear (Mq_obj n) s = s\<lparr>mqueues := (mqueues s)(n := mqueues boot_kernel n)\<rparr>"
| "object_clear (Mp_obj n) s = s\<lparr>mempools := (mempools s)(n := mempools boot_kernel n)\<rparr>"
| "object_clear (Device_obj n) s = s\<lparr>devices := (devices s)(n := devices boot_kernel n)\<rparr>"
| "object_clear (Memory_obj n) s = s"
| "object_clear (Memheap_obj n) s = s"

definition rt_object_allocate :: "obj option \<Rightarrow> u8 \<Rightarrow> string \<Rightarrow> kernel \<Rightarrow> (obj option \<times> kernel) option" where
  "rt_object_allocate mem ty name s = do {
     rt_assert (interrupt_nest s = 0);
     information \<leftarrow> rt_object_get_information ty;
     case mem of
       None \<Rightarrow> Some (None, s)
     | Some ob \<Rightarrow> do {
         let s = object_clear ob s;
         let s = s\<lparr>obj_type := (obj_type s)(ob := ty), obj_name := (obj_name s)(ob := rt_strncpy name 8)\<rparr>;
         l \<leftarrow> ls_insert_after information ob (olists s);
         Some (Some ob, s\<lparr>olists := l\<rparr>)
       }
   }"

definition rt_object_delete :: "obj \<Rightarrow> kernel \<Rightarrow> kernel option" where
  "rt_object_delete ob s = do {
     rt_assert (\<not> rt_object_is_systemobject (obj_type s ob));
     Some (s\<lparr>obj_type := (obj_type s)(ob := 0), olists := ls_remove ob (olists s)\<rparr>)
   }"

text \<open>The search of \<^verbatim>\<open>rt_object_find\<close> along one class list.\<close>

fun object_search :: "(obj \<Rightarrow> string) \<Rightarrow> string \<Rightarrow> obj list \<Rightarrow> obj option" where
  "object_search nm name [] = None"
| "object_search nm name (ob # obs) =
     (if rt_strncmp (nm ob) name 8 = 0 then Some ob else object_search nm name obs)"

definition rt_object_find :: "string option \<Rightarrow> u8 \<Rightarrow> kernel \<Rightarrow> (obj option \<times> kernel) option" where
  "rt_object_find name ty s =
     (case (name, rt_object_get_information ty) of
        (Some n, Some information) \<Rightarrow> do {
          rt_assert (interrupt_nest s = 0);
          let s = rt_enter_critical s;
          let r = object_search (obj_name s) n (items (olists s) information);
          s \<leftarrow> rt_exit_critical s;
          Some (r, s)
        }
      | _ \<Rightarrow> Some (None, s))"

section \<open>Invariant\<close>

definition obj_ok :: "kernel \<Rightarrow> bool" where
  "obj_ok s = (lstore_ok (olists s) \<and>
     (\<forall>ob c. home (olists s) ob = Some c \<longrightarrow>
        rt_object_get_type (obj_type s ob) = c \<and> obj_name s ob = rt_strncpy (obj_name s ob) 8))"

lemma container_class: "rt_object_get_information ty = Some c \<Longrightarrow> c = ty \<and> ty < 0x80 \<and> ty \<noteq> 0"
  by (auto simp: rt_object_get_information_def object_container_def split: if_splits)

lemma static_type:
  assumes "rt_object_get_information ty = Some c"
  shows "rt_object_get_type (ty OR RT_Object_Class_Static) = ty"
    and "rt_object_is_systemobject (ty OR RT_Object_Class_Static)"
  using assms
  by (auto simp: rt_object_get_information_def object_container_def rt_object_get_type_def
      rt_object_is_systemobject_def split: if_splits)

text \<open>An interrupt-free caller that keeps the CPU sees \<^verbatim>\<open>rt_object_init\<close> as one step.\<close>

definition quiet :: "kernel \<Rightarrow> bool" where
  "quiet s = (rt_exit_critical (rt_enter_critical s) = Some s)"

definition object_attach :: "obj \<Rightarrow> u8 \<Rightarrow> string \<Rightarrow> kernel \<Rightarrow> kernel" where
  "object_attach ob ty name s =
     s\<lparr>obj_type := (obj_type s)(ob := ty OR RT_Object_Class_Static),
       obj_name := (obj_name s)(ob := rt_strncpy name 8),
       olists := ls_set ty (ob # items (olists s) ty) ob (olists s)\<rparr>"

lemma object_init_eq:
  assumes "rt_object_get_information ty = Some c" and "quiet s"
    and "home (olists s) ob = None" and "lstore_ok (olists s)"
  shows "rt_object_init ob ty name s = Some (object_attach ob ty name s)"
proof -
  have "ob \<notin> set (items (olists s) ty)" using lstore_okD(2) [OF assms(4)] assms(3) by simp
  then show ?thesis
    using assms container_class [OF assms(1)]
    by (simp add: rt_object_init_def object_attach_def quiet_def ls_insert_after_def Let_def
        rt_enter_critical_def)
qed

lemma obj_ok_attach:
  assumes "obj_ok s" and "rt_object_get_information ty = Some c" and "home (olists s) ob = None"
  shows "obj_ok (object_attach ob ty name s)"
proof -
  have "lstore_ok (ls_set ty ([] @ ob # items (olists s) ty) ob (olists s))"
    by (rule lstore_ok_put) (use assms in \<open>auto simp: obj_ok_def\<close>)
  then show ?thesis
    using assms(1) static_type(1) [OF assms(2)] by (auto simp: obj_ok_def object_attach_def)
qed

lemma obj_ok_detach: "obj_ok s \<Longrightarrow> obj_ok (rt_object_detach ob s)"
  by (auto simp: obj_ok_def rt_object_detach_def lstore_ok_remove items_remove split: if_splits)

lemma quiet_stable:
  "sched_ok s \<Longrightarrow> lock_nest s = 0 \<Longrightarrow> current_thread s = 0 \<or> runs_highest s \<Longrightarrow>
    \<not> yield_flag (threads s (current_thread s)) \<Longrightarrow> quiet s"
  by (simp add: quiet_def exit_enter_stable)

lemma object_search_hd: "rt_strncpy n 8 = nm ob \<Longrightarrow> object_search nm n (ob # obs) = Some ob"
  by (metis object_search.simps(2) strncmp_zero_iff strncpy_idem)

lemma object_search_sound:
  "object_search nm n obs = Some ob \<Longrightarrow> ob \<in> set obs \<and> rt_strncpy (nm ob) 8 = rt_strncpy n 8"
  by (induction obs) (auto simp: strncmp_zero_iff split: if_splits)

lemma object_search_None:
  "object_search nm n obs = None \<longleftrightarrow> (\<forall>ob \<in> set obs. rt_strncpy (nm ob) 8 \<noteq> rt_strncpy n 8)"
  by (induction obs) (auto simp: strncmp_zero_iff)

section \<open>Properties\<close>

text \<open>Registering a static object: on a consistent object system, with no switch pending, it succeeds
  for an object in no class list, keeps the system consistent, counts one more object of the class,
  and a lookup by that name (names count up to 8 characters) then finds exactly this object.\<close>

theorem object_init_find:
  assumes "obj_ok s" and "quiet s" and "interrupt_nest s = 0" and "home (olists s) ob = None"
    and "rt_object_get_information ty = Some ty"
  shows "\<exists>s'. rt_object_init ob ty name s = Some s' \<and> obj_ok s' \<and>
    rt_object_get_length ty s' = rt_object_get_length ty s + 1 \<and>
    (quiet s' \<longrightarrow> rt_object_find (Some name) ty s' = Some (Some ob, s'))"
proof (intro exI conjI impI)
  let ?s' = "object_attach ob ty name s"
  show "rt_object_init ob ty name s = Some ?s'"
    using assms by (intro object_init_eq) (auto simp: obj_ok_def)
  show "obj_ok ?s'" by (rule obj_ok_attach [OF assms(1,5,4)])
  show "rt_object_get_length ty ?s' = rt_object_get_length ty s + 1"
    by (simp add: rt_object_get_length_def assms(5) object_attach_def)
  show "rt_object_find (Some name) ty ?s' = Some (Some ob, ?s')" if "quiet ?s'"
    using that assms(3,5)
    by (simp add: rt_object_find_def quiet_def Let_def rt_enter_critical_def object_attach_def
        object_search_hd del: object_search.simps)
qed

lemma demo_quiet: "quiet demo_kernel"
  by (rule quiet_stable [OF demo_kernel_ok]) (auto simp: runs_highest_def)

theorem object_init_find_witness:
  "\<exists>s'. rt_object_init (Sem_obj 7) RT_Object_Class_Semaphore ''lock'' demo_kernel = Some s' \<and>
    rt_object_get_length RT_Object_Class_Semaphore s' = 1"
  using object_init_find [of demo_kernel "Sem_obj 7" RT_Object_Class_Semaphore "''lock''"] demo_quiet
  by (auto simp: obj_ok_def demo_kernel_def boot_kernel_def empty_lstore_def lstore_ok_def
      rt_object_get_length_def rt_object_get_information_def object_container_def)

text \<open>Lookup is sound and complete: \<^verbatim>\<open>rt_object_find\<close> returns an object of the class list whose name
  agrees with the query up to 8 characters, and fails only if there is none.\<close>

lemma object_find_exact:
  assumes "obj_ok s" and "quiet s" and "interrupt_nest s = 0"
    and "rt_object_get_information ty = Some ty"
  shows "\<exists>r. rt_object_find (Some name) ty s = Some (r, s) \<and>
    (case r of
       Some ob \<Rightarrow> home (olists s) ob = Some ty \<and> rt_strncpy (obj_name s ob) 8 = rt_strncpy name 8
     | None \<Rightarrow> (\<forall>ob. home (olists s) ob = Some ty \<longrightarrow> rt_strncpy (obj_name s ob) 8 \<noteq> rt_strncpy name 8))"
proof (intro exI conjI)
  let ?r = "object_search (obj_name s) name (items (olists s) ty)"
  have ls: "lstore_ok (olists s)" using assms(1) by (simp add: obj_ok_def)
  show "rt_object_find (Some name) ty s = Some (?r, s)"
    using assms(2-4) by (simp add: rt_object_find_def quiet_def Let_def rt_enter_critical_def)
  show "case ?r of Some ob \<Rightarrow> home (olists s) ob = Some ty \<and> rt_strncpy (obj_name s ob) 8 = rt_strncpy name 8
     | None \<Rightarrow> (\<forall>ob. home (olists s) ob = Some ty \<longrightarrow> rt_strncpy (obj_name s ob) 8 \<noteq> rt_strncpy name 8)"
    using lstore_okD(2) [OF ls]
    by (auto split: option.split simp: object_search_None dest: object_search_sound)
qed

end
