(* ===== verification/Rt_Timer.thy ===== *)
theory Rt_Timer
  imports Rt_Object
begin

text \<open>
  The timer lists of \<^verbatim>\<open>src/timer.c\<close> with one skip-list level: initialisation, stop, control, detach,
  the ordered insertion that \<^verbatim>\<open>rt_timer_start\<close> does, and the order it keeps although the 32-bit tick
  wraps around.
\<close>

section \<open>Operations\<close>

definition tm_active :: "rt_timer \<Rightarrow> bool" where
  "tm_active tm = (timer_flag tm AND RT_TIMER_FLAG_ACTIVATED \<noteq> 0)"

definition tm_periodic :: "rt_timer \<Rightarrow> bool" where
  "tm_periodic tm = (timer_flag tm AND RT_TIMER_FLAG_PERIODIC \<noteq> 0)"

definition tm_soft :: "rt_timer \<Rightarrow> bool" where
  "tm_soft tm = (timer_flag tm AND RT_TIMER_FLAG_SOFT_TIMER \<noteq> 0)"

definition clear_active :: "rt_timer \<Rightarrow> rt_timer" where
  "clear_active tm = tm\<lparr>timer_flag := timer_flag tm AND NOT RT_TIMER_FLAG_ACTIVATED\<rparr>"

definition set_active :: "rt_timer \<Rightarrow> rt_timer" where
  "set_active tm = tm\<lparr>timer_flag := timer_flag tm OR RT_TIMER_FLAG_ACTIVATED\<rparr>"

definition timer_remove :: "tmid \<Rightarrow> kernel \<Rightarrow> kernel" where
  "timer_remove m s = s\<lparr>trows := ls_remove m (trows s)\<rparr>"

text \<open>\<^verbatim>\<open>_timer_init\<close>: initialising the row of a timer that is still in a list would corrupt that list.\<close>

definition timer_init :: "tmid \<Rightarrow> timeout_fn \<Rightarrow> u32 \<Rightarrow> u8 \<Rightarrow> kernel \<Rightarrow> kernel option" where
  "timer_init m timeout time flag s = do {
     let s = upd_timer m (\<lambda>tm. clear_active (tm\<lparr>timer_flag := flag\<rparr>)\<lparr>timeout_func := timeout,
       timeout_tick := 0, timer_init_tick := time\<rparr>) s;
     l \<leftarrow> ls_init_node m (trows s);
     Some (s\<lparr>trows := l\<rparr>)
   }"

definition rt_timer_init :: "tmid \<Rightarrow> string \<Rightarrow> timeout_fn \<Rightarrow> u32 \<Rightarrow> u8 \<Rightarrow> kernel \<Rightarrow> kernel option" where
  "rt_timer_init m name timeout time flag s = do {
     rt_assert (time < RT_TICK_HALF);
     s \<leftarrow> rt_object_init (Timer_obj m) RT_Object_Class_Timer name s;
     timer_init m timeout time flag s
   }"

definition rt_timer_detach :: "tmid \<Rightarrow> kernel \<Rightarrow> kernel option" where
  "rt_timer_detach m s = do {
     rt_assert (is_timer m s);
     rt_assert (rt_object_is_systemobject (obj_type s (Timer_obj m)));
     let s = timer_remove m s;
     let s = upd_timer m clear_active s;
     Some (rt_object_detach (Timer_obj m) s)
   }"

text \<open>Dynamic timers; \<open>mem\<close> is what the allocator returned.\<close>

definition rt_timer_create ::
    "nat option \<Rightarrow> string \<Rightarrow> timeout_fn \<Rightarrow> u32 \<Rightarrow> u8 \<Rightarrow> kernel \<Rightarrow> (nat option \<times> kernel) option" where
  "rt_timer_create mem name timeout time flag s = do {
     rt_assert (time < RT_TICK_HALF);
     (r, s) \<leftarrow> rt_object_allocate (map_option (\<lambda>n. Timer_obj (Timer n)) mem) RT_Object_Class_Timer name s;
     case mem of
       None \<Rightarrow> Some (None, s)
     | Some n \<Rightarrow> do { s \<leftarrow> timer_init (Timer n) timeout time flag s; Some (Some n, s) }
   }"

definition rt_timer_delete :: "tmid \<Rightarrow> kernel \<Rightarrow> kernel option" where
  "rt_timer_delete m s = do {
     rt_assert (is_timer m s);
     rt_assert (\<not> rt_object_is_systemobject (obj_type s (Timer_obj m)));
     let s = timer_remove m s;
     let s = upd_timer m clear_active s;
     rt_object_delete (Timer_obj m) s
   }"

definition rt_timer_stop :: "tmid \<Rightarrow> kernel \<Rightarrow> (rt_err_t \<times> kernel) option" where
  "rt_timer_stop m s = do {
     rt_assert (is_timer m s);
     if \<not> tm_active (timers s m) then Some (- RT_ERROR, s)
     else Some (RT_EOK, upd_timer m clear_active (timer_remove m s))
   }"

abbreviation (input) RT_TIMER_CTRL_SET_TIME :: int where "RT_TIMER_CTRL_SET_TIME \<equiv> 0"
abbreviation (input) RT_TIMER_CTRL_GET_TIME :: int where "RT_TIMER_CTRL_GET_TIME \<equiv> 1"
abbreviation (input) RT_TIMER_CTRL_SET_ONESHOT :: int where "RT_TIMER_CTRL_SET_ONESHOT \<equiv> 2"
abbreviation (input) RT_TIMER_CTRL_SET_PERIODIC :: int where "RT_TIMER_CTRL_SET_PERIODIC \<equiv> 3"
abbreviation (input) RT_TIMER_CTRL_GET_STATE :: int where "RT_TIMER_CTRL_GET_STATE \<equiv> 4"
abbreviation (input) RT_TIMER_CTRL_GET_REMAIN_TIME :: int where "RT_TIMER_CTRL_GET_REMAIN_TIME \<equiv> 5"

text \<open>\<^verbatim>\<open>rt_timer_control\<close>: \<open>arg\<close> is the tick the argument points to; the result has its value afterwards.
  The function itself always returns \<^verbatim>\<open>RT_EOK\<close>.\<close>

definition rt_timer_control :: "tmid \<Rightarrow> int \<Rightarrow> u32 \<Rightarrow> kernel \<Rightarrow> (u32 \<times> kernel) option" where
  "rt_timer_control m cmd arg s = do {
     rt_assert (is_timer m s);
     if cmd = RT_TIMER_CTRL_GET_TIME then Some (timer_init_tick (timers s m), s)
     else if cmd = RT_TIMER_CTRL_SET_TIME then do {
       rt_assert (arg < RT_TICK_HALF);
       Some (arg, upd_timer m (\<lambda>tm. tm\<lparr>timer_init_tick := arg\<rparr>) s)
     }
     else if cmd = RT_TIMER_CTRL_SET_ONESHOT then
       Some (arg, upd_timer m (\<lambda>tm. tm\<lparr>timer_flag := timer_flag tm AND NOT RT_TIMER_FLAG_PERIODIC\<rparr>) s)
     else if cmd = RT_TIMER_CTRL_SET_PERIODIC then
       Some (arg, upd_timer m (\<lambda>tm. tm\<lparr>timer_flag := timer_flag tm OR RT_TIMER_FLAG_PERIODIC\<rparr>) s)
     else if cmd = RT_TIMER_CTRL_GET_STATE then
       Some (if tm_active (timers s m) then 1 else 0, s)
     else if cmd = RT_TIMER_CTRL_GET_REMAIN_TIME then Some (timeout_tick (timers s m), s)
     else Some (arg, s)
   }"

definition timer_list_next_timeout :: "thead \<Rightarrow> kernel \<Rightarrow> u32 option" where
  "timer_list_next_timeout l s =
     (case items (trows s) l of
        [] \<Rightarrow> None
      | m # _ \<Rightarrow> Some (timeout_tick (timers s m)))"

definition rt_timer_next_timeout_tick :: "kernel \<Rightarrow> u32" where
  "rt_timer_next_timeout_tick s =
     (case timer_list_next_timeout Hard_list s of None \<Rightarrow> 0xFFFFFFFF | Some x \<Rightarrow> x)"

text \<open>The search of \<^verbatim>\<open>rt_timer_start\<close> for the node to insert behind: \<open>None\<close> is the list head.\<close>

fun row_head :: "(tmid \<Rightarrow> u32) \<Rightarrow> u32 \<Rightarrow> tmid option \<Rightarrow> tmid list \<Rightarrow> tmid option" where
  "row_head tt x prev [] = prev"
| "row_head tt x prev (t # ts) =
     (if tt t - x = 0 then row_head tt x (Some t) ts
      else if tt t - x < RT_TICK_HALF then prev
      else row_head tt x (Some t) ts)"

definition timer_insert :: "thead \<Rightarrow> tmid \<Rightarrow> kernel \<Rightarrow> kernel option" where
  "timer_insert l m s = do {
     let tt = (\<lambda>t. timeout_tick (timers s t));
     r \<leftarrow> (case row_head tt (tt m) None (items (trows s) l) of
             None \<Rightarrow> ls_insert_after l m (trows s)
           | Some p \<Rightarrow> ls_insert_after_node p m (trows s));
     Some (s\<lparr>trows := r\<rparr>)
   }"

definition rt_system_timer_init :: "kernel \<Rightarrow> kernel" where
  "rt_system_timer_init s =
     s\<lparr>trows := (trows s)\<lparr>items := (items (trows s))(Hard_list := []),
        home := (\<lambda>m. if home (trows s) m = Some Hard_list then None else home (trows s) m)\<rparr>\<rparr>"

section \<open>Timer flags\<close>

lemma clear_active_simps [simp]:
  "\<not> tm_active (clear_active tm)" "tm_periodic (clear_active tm) = tm_periodic tm"
  "tm_soft (clear_active tm) = tm_soft tm"
  "timeout_func (clear_active tm) = timeout_func tm" "timeout_tick (clear_active tm) = timeout_tick tm"
  "timer_init_tick (clear_active tm) = timer_init_tick tm"
  by (simp_all add: clear_active_def tm_active_def tm_periodic_def tm_soft_def and.assoc)

lemma set_active_simps [simp]:
  "tm_active (set_active tm)" "tm_periodic (set_active tm) = tm_periodic tm"
  "tm_soft (set_active tm) = tm_soft tm"
  "timeout_func (set_active tm) = timeout_func tm" "timeout_tick (set_active tm) = timeout_tick tm"
  "timer_init_tick (set_active tm) = timer_init_tick tm"
  by (simp_all add: set_active_def tm_active_def tm_periodic_def tm_soft_def bit.conj_disj_distrib2)

lemma tm_flags_upd [simp]:
  "tm_active (tm\<lparr>timer_init_tick := x\<rparr>) = tm_active tm" "tm_periodic (tm\<lparr>timer_init_tick := x\<rparr>) = tm_periodic tm"
  "tm_soft (tm\<lparr>timer_init_tick := x\<rparr>) = tm_soft tm"
  "tm_active (tm\<lparr>timeout_tick := x\<rparr>) = tm_active tm" "tm_periodic (tm\<lparr>timeout_tick := x\<rparr>) = tm_periodic tm"
  "tm_soft (tm\<lparr>timeout_tick := x\<rparr>) = tm_soft tm"
  by (simp_all add: tm_active_def tm_periodic_def tm_soft_def)

lemma timer_remove_fields [simp]:
  "timers (timer_remove m s) = timers s" "threads (timer_remove m s) = threads s"
  "tlists (timer_remove m s) = tlists s" "ready_group (timer_remove m s) = ready_group s"
  "lock_nest (timer_remove m s) = lock_nest s" "current_thread (timer_remove m s) = current_thread s"
  "running_priority (timer_remove m s) = running_priority s"
  "interrupt_nest (timer_remove m s) = interrupt_nest s" "rt_tick (timer_remove m s) = rt_tick s"
  "trows (timer_remove m s) = ls_remove m (trows s)"
  "soft_timer_busy (timer_remove m s) = soft_timer_busy s" "random_nr (timer_remove m s) = random_nr s"
  "obj_type (timer_remove m s) = obj_type s" "obj_name (timer_remove m s) = obj_name s"
  "olists (timer_remove m s) = olists s" "sems (timer_remove m s) = sems s"
  "mutexes (timer_remove m s) = mutexes s" "events (timer_remove m s) = events s"
  "mailboxes (timer_remove m s) = mailboxes s" "mqueues (timer_remove m s) = mqueues s"
  "mempools (timer_remove m s) = mempools s"
  "memory (timer_remove m s) = memory s" "devices (timer_remove m s) = devices s" "errno (timer_remove m s) = errno s"
  by (simp_all add: timer_remove_def)

section \<open>Where a timer is inserted\<close>

text \<open>The nodes the search steps over: the ones that do not expire later than \<open>x\<close>.\<close>

definition not_later :: "u32 \<Rightarrow> u32 \<Rightarrow> bool" where
  "not_later x y = (y - x = 0 \<or> \<not> y - x < RT_TICK_HALF)"

lemma row_head_last:
  "row_head tt x prev ts =
     (let us = takeWhile (\<lambda>t. not_later x (tt t)) ts in if us = [] then prev else Some (last us))"
  by (induction ts arbitrary: prev) (auto simp: not_later_def Let_def)

definition insert_row :: "(tmid \<Rightarrow> u32) \<Rightarrow> tmid \<Rightarrow> tmid list \<Rightarrow> tmid list" where
  "insert_row tt m xs =
     takeWhile (\<lambda>t. not_later (tt m) (tt t)) xs @ m # dropWhile (\<lambda>t. not_later (tt m) (tt t)) xs"

lemma timer_insert_eq:
  assumes ok: "lstore_ok (trows s)" and m: "home (trows s) m = None"
  shows "timer_insert l m s = Some (s\<lparr>trows :=
     ls_set l (insert_row (\<lambda>t. timeout_tick (timers s t)) m (items (trows s) l)) m (trows s)\<rparr>)"
proof -
  let ?tt = "\<lambda>t. timeout_tick (timers s t)"
  let ?P = "\<lambda>t. not_later (?tt m) (?tt t)"
  let ?xs = "items (trows s) l"
  have xs: "?xs = takeWhile ?P ?xs @ dropWhile ?P ?xs" by simp
  show ?thesis
  proof (cases "takeWhile ?P ?xs" rule: rev_cases)
    case Nil
    then have "dropWhile ?P ?xs = ?xs" using xs by (metis append_Nil)
    then show ?thesis
      using m Nil by (simp add: timer_insert_def row_head_last ls_insert_after_def insert_row_def)
  next
    case (snoc us p)
    then have eq: "?xs = us @ p # dropWhile ?P ?xs" using xs by (metis append.assoc append_Cons append_Nil)
    have h: "home (trows s) p = Some l"
      using lstore_okD(2) [OF ok, of p l] eq by (metis in_set_conv_decomp)
    have "p \<notin> set us"
      using lstore_okD(1) [OF ok, of l] eq by (metis distinct_append disjoint_iff list.set_intros(1))
    then have "list_ins_after p m ?xs = us @ p # m # dropWhile ?P ?xs"
      using eq list_ins_split(2) by metis
    then show ?thesis
      using m h snoc by (simp add: timer_insert_def row_head_last ls_insert_after_node_def insert_row_def)
  qed
qed

lemma insert_row_split: "\<exists>us vs. xs = us @ vs \<and> insert_row tt m xs = us @ m # vs"
  unfolding insert_row_def by (metis takeWhile_dropWhile_id)

lemma set_insert_row [simp]: "set (insert_row tt m xs) = insert m (set xs)"
  using insert_row_split [of xs tt m] by fastforce

lemma lstore_ok_insert_row:
  assumes "lstore_ok S" and "home S m = None"
  shows "lstore_ok (ls_set l (insert_row tt m (items S l)) m S)"
proof -
  obtain us vs where "items S l = us @ vs" "insert_row tt m (items S l) = us @ m # vs"
    using insert_row_split by blast
  then show ?thesis using lstore_ok_put [OF assms] by simp
qed

section \<open>Order on a wrapping clock\<close>

text \<open>The distance of a timeout from a base tick, on the circle of 32-bit ticks.\<close>

definition ahead :: "u32 \<Rightarrow> u32 \<Rightarrow> nat" where
  "ahead b x = unat (x - b)"

text \<open>The timeouts of a row are sorted by their distance from the base, and none is \<open>k\<close> ahead or more.\<close>

definition row_ok :: "u32 \<Rightarrow> nat \<Rightarrow> (tmid \<Rightarrow> u32) \<Rightarrow> tmid list \<Rightarrow> bool" where
  "row_ok b k tt xs = (sorted (map (\<lambda>t. ahead b (tt t)) xs) \<and> (\<forall>t \<in> set xs. ahead b (tt t) < k))"

lemma not_later_ahead:
  assumes "ahead b y < 0x80000000" and "ahead b x < 0x80000000" and "ahead b y < ahead b x + 0x7FFFFFFF"
  shows "not_later x y \<longleftrightarrow> ahead b y \<le> ahead b x"
proof -
  have d: "y - x = (y - b) - (x - b)" by simp
  have u: "unat (y - x) = (if ahead b x \<le> ahead b y then ahead b y - ahead b x
      else ahead b y + 2 ^ 32 - ahead b x)"
    unfolding d ahead_def by (subst unat_sub_if') simp
  have z: "y - x = 0 \<longleftrightarrow> ahead b y = ahead b x"
    unfolding ahead_def using d by (metis eq_iff_diff_eq_0 unsigned_word_eqI)
  have l: "y - x < RT_TICK_HALF \<longleftrightarrow> unat (y - x) < 0x7FFFFFFF"
    by (simp add: word_less_nat_alt)
  show ?thesis
    unfolding not_later_def z l u using assms by (auto split: if_splits)
qed

lemma sorted_insert_at:
  assumes "sorted (map f xs)" and "\<And>t. t \<in> set xs \<Longrightarrow> P t \<longleftrightarrow> f t \<le> (f m :: nat)"
  shows "sorted (map f (takeWhile P xs @ m # dropWhile P xs))"
proof -
  have "\<forall>a \<in> set (takeWhile P xs). f a \<le> f m"
    using assms(2) by (meson set_takeWhileD)
  moreover have "\<forall>a \<in> set (dropWhile P xs). f m \<le> f a"
    using assms
  proof (induction xs)
    case (Cons x xs)
    then show ?case by (cases "P x") fastforce+
  qed simp
  moreover have "sorted (map f (takeWhile P xs) @ map f (dropWhile P xs))"
    using assms(1) by (metis map_append takeWhile_dropWhile_id)
  ultimately show ?thesis unfolding sorted_append by (auto simp: sorted_append)
qed

lemma row_ok_insert:
  assumes r: "row_ok b k tt xs" and k: "k \<le> 0x80000000" and m: "ahead b (tt m) < k"
    and lt: "\<And>t. t \<in> set xs \<Longrightarrow> ahead b (tt t) < ahead b (tt m) + 0x7FFFFFFF"
  shows "row_ok b k tt (insert_row tt m xs)"
proof -
  have P: "not_later (tt m) (tt t) \<longleftrightarrow> ahead b (tt t) \<le> ahead b (tt m)" if "t \<in> set xs" for t
    using r that m k lt [OF that] by (intro not_later_ahead) (auto simp: row_ok_def)
  have "sorted (map (\<lambda>t. ahead b (tt t)) (insert_row tt m xs))"
    unfolding insert_row_def
    by (rule sorted_insert_at) (use r P in \<open>auto simp: row_ok_def\<close>)
  then show ?thesis using r m by (auto simp: row_ok_def)
qed

text \<open>Equal timeouts fire in the order they were started: the new timer goes behind all of them.\<close>

lemma insert_row_stable:
  assumes r: "row_ok b k tt xs" and k: "k \<le> 0x80000000" and m: "ahead b (tt m) < k"
    and lt: "\<And>t. t \<in> set xs \<Longrightarrow> ahead b (tt t) < ahead b (tt m) + 0x7FFFFFFF"
  obtains us vs where "xs = us @ vs" "insert_row tt m xs = us @ m # vs"
    "\<And>t. t \<in> set us \<Longrightarrow> ahead b (tt t) \<le> ahead b (tt m)" "\<And>t. t \<in> set vs \<Longrightarrow> ahead b (tt m) < ahead b (tt t)"
proof -
  let ?P = "\<lambda>t. not_later (tt m) (tt t)"
  have P: "?P t \<longleftrightarrow> ahead b (tt t) \<le> ahead b (tt m)" if "t \<in> set xs" for t
    using r that m k lt [OF that] by (intro not_later_ahead) (auto simp: row_ok_def)
  have s: "sorted (map (\<lambda>t. ahead b (tt t)) xs)" using r by (simp add: row_ok_def)
  have "ahead b (tt m) < ahead b (tt t)" if "t \<in> set (dropWhile ?P xs)" for t
    using that s P
  proof (induction xs)
    case (Cons x xs)
    show ?case
    proof (cases "?P x")
      case True
      then show ?thesis using Cons by auto
    next
      case False
      then have "ahead b (tt m) < ahead b (tt x)" using Cons.prems(3) [of x] by simp
      then show ?thesis using Cons.prems(1,2) False by fastforce
    qed
  qed simp
  moreover have "ahead b (tt t) \<le> ahead b (tt m)" if "t \<in> set (takeWhile ?P xs)" for t
    using that P by (meson set_takeWhileD)
  ultimately show thesis using that [of "takeWhile ?P xs" "dropWhile ?P xs"] by (simp add: insert_row_def)
qed

end
