(* ===== verification/Rt_ThreadState.thy ===== *)
theory Rt_ThreadState
  imports Rt_Timer
begin

text \<open>
  Suspending and resuming a thread (\<^verbatim>\<open>rt_thread_suspend\<close> and \<^verbatim>\<open>rt_thread_resume\<close> of \<^verbatim>\<open>src/thread.c\<close>),
  and the invariant that ties threads, ready queue and thread timers together. Every wait queue of the
  kernel is built on these two operations.
\<close>

section \<open>Operations\<close>

definition rt_thread_suspend :: "tid \<Rightarrow> kernel \<Rightarrow> (rt_err_t \<times> kernel) option" where
  "rt_thread_suspend t s = do {
     rt_assert (is_thread t s);
     rt_assert (t = current_thread s);
     let st = thread_stat (threads s t);
     if st \<noteq> RT_THREAD_READY \<and> st \<noteq> RT_THREAD_RUNNING then Some (- RT_ERROR, s)
     else do {
       s \<leftarrow> rt_schedule_remove_thread t s;
       let s = upd_thread t (set_stat RT_THREAD_SUSPEND) s;
       (_, s) \<leftarrow> rt_timer_stop (Thread_timer t) s;
       Some (RT_EOK, s)
     }
   }"

definition rt_thread_resume :: "tid \<Rightarrow> kernel \<Rightarrow> (rt_err_t \<times> kernel) option" where
  "rt_thread_resume t s = do {
     rt_assert (is_thread t s);
     if thread_stat (threads s t) \<noteq> RT_THREAD_SUSPEND then Some (- RT_ERROR, s)
     else do {
       let s = s\<lparr>tlists := ls_remove t (tlists s)\<rparr>;
       (_, s) \<leftarrow> rt_timer_stop (Thread_timer t) s;
       s \<leftarrow> rt_schedule_insert_thread t s;
       Some (RT_EOK, s)
     }
   }"

section \<open>The invariant of threads and timers\<close>

text \<open>A live thread is a registered object with a one-shot hard timer of its own; that timer is pending
  only while the thread is suspended.\<close>

definition thread_timer_ok :: "kernel \<Rightarrow> tid \<Rightarrow> bool" where
  "thread_timer_ok s t =
     ((live (threads s t) \<longrightarrow> is_thread t s \<and> is_timer (Thread_timer t) s \<and>
         timeout_func (timers s (Thread_timer t)) = Thread_timeout t \<and>
         \<not> tm_periodic (timers s (Thread_timer t)) \<and> \<not> tm_soft (timers s (Thread_timer t))) \<and>
      (home (trows s) (Thread_timer t) = Some Hard_list \<longrightarrow>
         thread_stat (threads s t) = RT_THREAD_SUSPEND) \<and>
      home (trows s) (Thread_timer t) \<noteq> Some Soft_list \<and>
      home (trows s) (Thread_timer t) \<noteq> Some Soft_check)"

text \<open>A timer in one of the two lists is a registered timer, flagged active; an active timer is linked;
  periods are below half the clock cycle; only thread timers have \<^verbatim>\<open>_thread_timeout\<close>, which is static in
  \<^verbatim>\<open>thread.c\<close>.\<close>

definition timer_ok :: "kernel \<Rightarrow> tmid \<Rightarrow> bool" where
  "timer_ok s m =
     ((home (trows s) m = Some Hard_list \<or> home (trows s) m = Some Soft_list \<longrightarrow>
         tm_active (timers s m) \<and> is_timer m s) \<and>
      (home (trows s) m = Some Hard_list \<longrightarrow> \<not> tm_soft (timers s m)) \<and>
      (tm_active (timers s m) \<longrightarrow> home (trows s) m \<noteq> None) \<and>
      timer_init_tick (timers s m) < RT_TICK_HALF \<and>
      (\<forall>n. m = Timer n \<longrightarrow> (\<exists>k. timeout_func (timers s m) = User_timeout k)))"

definition timers_ok :: "kernel \<Rightarrow> bool" where
  "timers_ok s = (lstore_ok (trows s) \<and> (\<forall>m. timer_ok s m) \<and> (\<forall>t. thread_timer_ok s t))"

definition order_ok :: "u32 \<Rightarrow> nat \<Rightarrow> kernel \<Rightarrow> bool" where
  "order_ok b k s = row_ok b k (\<lambda>m. timeout_tick (timers s m)) (items (trows s) Hard_list)"

text \<open>The state between two kernel calls: no timeout lies half a clock cycle ahead or more.\<close>

definition kernel_ok :: "kernel \<Rightarrow> bool" where
  "kernel_ok s = (sched_ok s \<and> timers_ok s \<and> order_ok (rt_tick s) 0x7FFFFFFF s)"

lemma timers_okD:
  assumes "timers_ok s"
  shows "lstore_ok (trows s)" and "timer_ok s m" and "thread_timer_ok s t"
  using assms by (auto simp: timers_ok_def)

lemma timers_okI:
  assumes "lstore_ok (trows s)" and "\<And>m. timer_ok s m" and "\<And>t. thread_timer_ok s t"
  shows "timers_ok s"
  using assms by (auto simp: timers_ok_def)

lemma kernel_okD:
  assumes "kernel_ok s"
  shows "sched_ok s" and "timers_ok s" and "order_ok (rt_tick s) 0x7FFFFFFF s"
  using assms by (auto simp: kernel_ok_def)

lemma is_thread_cong: "obj_type s' = obj_type s \<Longrightarrow> is_thread t s' = is_thread t s"
  by (simp add: is_thread_def)

lemma is_timer_cong: "obj_type s' = obj_type s \<Longrightarrow> is_timer m s' = is_timer m s"
  by (simp add: is_timer_def)

lemma timers_ok_threads:
  assumes ok: "timers_ok s" and eq: "timers s' = timers s" "trows s' = trows s" "obj_type s' = obj_type s"
    and live: "\<And>t. live (threads s' t) \<Longrightarrow> live (threads s t)"
    and pend: "\<And>t. home (trows s) (Thread_timer t) = Some Hard_list \<Longrightarrow>
      thread_stat (threads s' t) = RT_THREAD_SUSPEND"
  shows "timers_ok s'"
proof (rule timers_okI)
  show "lstore_ok (trows s')" using timers_okD(1) [OF ok] eq by simp
  show "timer_ok s' m" for m
    using timers_okD(2) [OF ok, of m] eq by (simp add: timer_ok_def is_timer_def)
  show "thread_timer_ok s' t" for t
    using timers_okD(3) [OF ok, of t] eq live [of t] pend [of t]
    by (auto simp: thread_timer_ok_def is_thread_def is_timer_def)
qed

lemma live_stat_cong: "thread_stat th' = thread_stat th \<Longrightarrow> live th' = live th"
  by (simp add: live_def)

lemma order_ok_cong: "timers s' = timers s \<Longrightarrow> trows s' = trows s \<Longrightarrow> order_ok b k s' = order_ok b k s"
  by (simp add: order_ok_def)

text \<open>Writing a thread's other fields.\<close>

lemma timers_ok_upd_thread:
  assumes ok: "timers_ok s" and st: "thread_stat (f (threads s t)) = thread_stat (threads s t)"
  shows "timers_ok (upd_thread t f s)"
proof (rule timers_ok_threads [OF ok])
  show "live (threads s x)" if "live (threads (upd_thread t f s) x)" for x
    using that live_stat_cong [OF st] by (simp split: if_splits)
  show "thread_stat (threads (upd_thread t f s) x) = RT_THREAD_SUSPEND"
    if "home (trows s) (Thread_timer x) = Some Hard_list" for x
    using that timers_okD(3) [OF ok, of x] st by (auto simp: thread_timer_ok_def)
qed simp_all

lemma sched_ok_upd_thread:
  assumes "sched_ok s"
    and "thread_stat (f (threads s t)) = thread_stat (threads s t)"
    and "current_priority (f (threads s t)) = current_priority (threads s t)"
    and "number_mask (f (threads s t)) = number_mask (threads s t)"
    and "stack_check (f (threads s t)) = stack_check (threads s t)"
  shows "sched_ok (upd_thread t f s)"
  using assms queue_ok_upd_thread [of s f t] by (auto simp: sched_ok_def)

lemma kernel_ok_upd_thread:
  assumes "kernel_ok s"
    and "thread_stat (f (threads s t)) = thread_stat (threads s t)"
    and "current_priority (f (threads s t)) = current_priority (threads s t)"
    and "number_mask (f (threads s t)) = number_mask (threads s t)"
    and "stack_check (f (threads s t)) = stack_check (threads s t)"
  shows "kernel_ok (upd_thread t f s)"
  using assms sched_ok_upd_thread [of s f t] timers_ok_upd_thread [of s f t]
  by (simp add: kernel_ok_def order_ok_def)

text \<open>Fields of a thread that no invariant reads.\<close>

lemma plain_fields [simp]:
  "thread_stat (th\<lparr>thread_error := e\<rparr>) = thread_stat th" "thread_stat (th\<lparr>event_set := b\<rparr>) = thread_stat th"
  "thread_stat (th\<lparr>event_info := i\<rparr>) = thread_stat th" "thread_stat (th\<lparr>remaining_tick := x\<rparr>) = thread_stat th"
  "yield_flag (th\<lparr>thread_error := e\<rparr>) = yield_flag th" "yield_flag (th\<lparr>event_set := b\<rparr>) = yield_flag th"
  "yield_flag (th\<lparr>event_info := i\<rparr>) = yield_flag th" "yield_flag (th\<lparr>remaining_tick := x\<rparr>) = yield_flag th"
  "stack_check (th\<lparr>thread_error := e\<rparr>) = stack_check th" "stack_check (th\<lparr>event_set := b\<rparr>) = stack_check th"
  "stack_check (th\<lparr>event_info := i\<rparr>) = stack_check th" "stack_check (th\<lparr>remaining_tick := x\<rparr>) = stack_check th"
  "live (th\<lparr>thread_error := e\<rparr>) = live th" "live (th\<lparr>event_set := b\<rparr>) = live th"
  "live (th\<lparr>event_info := i\<rparr>) = live th" "live (th\<lparr>remaining_tick := x\<rparr>) = live th"
  "prio_ok (th\<lparr>thread_error := e\<rparr>) = prio_ok th" "prio_ok (th\<lparr>event_set := b\<rparr>) = prio_ok th"
  "prio_ok (th\<lparr>event_info := i\<rparr>) = prio_ok th" "prio_ok (th\<lparr>remaining_tick := x\<rparr>) = prio_ok th"
  by (simp_all add: thread_stat_def yield_flag_def stack_check_def live_def prio_ok_def)

section \<open>Stopping a timer\<close>

definition stop_timer :: "tmid \<Rightarrow> kernel \<Rightarrow> kernel" where
  "stop_timer m s = (if tm_active (timers s m) then upd_timer m clear_active (timer_remove m s) else s)"

lemma timer_stop_eq:
  "is_timer m s \<Longrightarrow> rt_timer_stop m s =
     Some (if tm_active (timers s m) then RT_EOK else - RT_ERROR, stop_timer m s)"
  by (simp add: rt_timer_stop_def stop_timer_def)

lemma stop_timer_fields [simp]:
  "threads (stop_timer m s) = threads s" "tlists (stop_timer m s) = tlists s"
  "ready_group (stop_timer m s) = ready_group s" "lock_nest (stop_timer m s) = lock_nest s"
  "current_thread (stop_timer m s) = current_thread s"
  "running_priority (stop_timer m s) = running_priority s"
  "interrupt_nest (stop_timer m s) = interrupt_nest s" "rt_tick (stop_timer m s) = rt_tick s"
  "soft_timer_busy (stop_timer m s) = soft_timer_busy s" "random_nr (stop_timer m s) = random_nr s"
  "obj_type (stop_timer m s) = obj_type s" "obj_name (stop_timer m s) = obj_name s"
  "olists (stop_timer m s) = olists s" "sems (stop_timer m s) = sems s"
  "mutexes (stop_timer m s) = mutexes s" "events (stop_timer m s) = events s"
  "mailboxes (stop_timer m s) = mailboxes s" "mqueues (stop_timer m s) = mqueues s"
  "mempools (stop_timer m s) = mempools s"
  "memory (stop_timer m s) = memory s" "devices (stop_timer m s) = devices s" "errno (stop_timer m s) = errno s"
  by (simp_all add: stop_timer_def)

lemma stop_timer_same_ticks:
  "timeout_tick (timers (stop_timer m s) x) = timeout_tick (timers s x)"
  "timer_init_tick (timers (stop_timer m s) x) = timer_init_tick (timers s x)"
  "timeout_func (timers (stop_timer m s) x) = timeout_func (timers s x)"
  "tm_periodic (timers (stop_timer m s) x) = tm_periodic (timers s x)"
  "tm_soft (timers (stop_timer m s) x) = tm_soft (timers s x)"
  "tm_active (timers (stop_timer m s) x) = (x \<noteq> m \<and> tm_active (timers s x))"
  by (auto simp: stop_timer_def)

lemma stop_timer_rows:
  assumes "timers_ok s"
  shows "lstore_ok (trows (stop_timer m s))"
    and "home (trows (stop_timer m s)) x =
      (if x = m \<and> tm_active (timers s m) then None else home (trows s) x)"
    and "items (trows (stop_timer m s)) h =
      (if tm_active (timers s m) then without m (items (trows s) h) else items (trows s) h)"
  using timers_okD(1) [OF assms] by (auto simp: stop_timer_def lstore_ok_remove items_remove)

lemma timers_ok_stop:
  assumes "timers_ok s"
  shows "timers_ok (stop_timer m s)"
proof (rule timers_okI)
  show "lstore_ok (trows (stop_timer m s))" by (rule stop_timer_rows [OF assms])
  show "timer_ok (stop_timer m s) x" for x
    using timers_okD(2) [OF assms, of x] timers_okD(2) [OF assms, of m]
    by (auto simp: timer_ok_def stop_timer_same_ticks stop_timer_rows [OF assms] is_timer_def)
  show "thread_timer_ok (stop_timer m s) t" for t
    using timers_okD(3) [OF assms, of t]
    by (auto simp: thread_timer_ok_def stop_timer_same_ticks stop_timer_rows [OF assms] is_timer_def
        is_thread_def)
qed

lemma sorted_filter_map: "sorted (map f xs) \<Longrightarrow> sorted (map f (filter P xs))"
  by (induction xs) auto

lemma order_ok_stop: "timers_ok s \<Longrightarrow> order_ok b k s \<Longrightarrow> order_ok b k (stop_timer m s)"
  by (auto simp: order_ok_def row_ok_def stop_timer_same_ticks stop_timer_rows sorted_filter_map)

lemma stopped_home:
  assumes "timers_ok s"
  shows "home (trows (stop_timer m s)) m \<noteq> Some Hard_list"
  using timers_okD(2) [OF assms, of m] by (auto simp: stop_timer_rows [OF assms] timer_ok_def)

lemma queue_ok_stop [simp]: "queue_ok (stop_timer m s) = queue_ok s"
  by (simp add: queue_ok_def)

lemma sched_ok_stop [simp]: "sched_ok (stop_timer m s) = sched_ok s"
  by (simp add: sched_ok_def)

section \<open>Resuming\<close>

definition unlink :: "tid \<Rightarrow> kernel \<Rightarrow> kernel" where
  "unlink t s = s\<lparr>tlists := ls_remove t (tlists s)\<rparr>"

lemma unlink_fields [simp]:
  "threads (unlink t s) = threads s" "tlists (unlink t s) = ls_remove t (tlists s)"
  "ready_group (unlink t s) = ready_group s" "lock_nest (unlink t s) = lock_nest s"
  "current_thread (unlink t s) = current_thread s" "running_priority (unlink t s) = running_priority s"
  "interrupt_nest (unlink t s) = interrupt_nest s" "rt_tick (unlink t s) = rt_tick s"
  "timers (unlink t s) = timers s" "trows (unlink t s) = trows s"
  "soft_timer_busy (unlink t s) = soft_timer_busy s" "random_nr (unlink t s) = random_nr s"
  "obj_type (unlink t s) = obj_type s" "obj_name (unlink t s) = obj_name s"
  "olists (unlink t s) = olists s" "sems (unlink t s) = sems s"
  "mutexes (unlink t s) = mutexes s" "events (unlink t s) = events s"
  "mailboxes (unlink t s) = mailboxes s" "mqueues (unlink t s) = mqueues s"
  "mempools (unlink t s) = mempools s"
  "memory (unlink t s) = memory s" "devices (unlink t s) = devices s" "errno (unlink t s) = errno s"
  by (simp_all add: unlink_def)

lemma queue_ok_unlink:
  assumes q: "queue_ok s" and t: "thread_stat (threads s t) = RT_THREAD_SUSPEND"
  shows "queue_ok (unlink t s)"
proof (rule queue_okI)
  note it = items_remove [OF queue_okD(1) [OF q], of t]
  have "t \<notin> set (items (tlists s) (Ready p))" for p
    using lstore_okD(2) [OF queue_okD(1) [OF q], of t "Ready p"] queue_okD(3) [OF q, of t] t by auto
  then show "bit (ready_group (unlink t s)) p = (items (tlists (unlink t s)) (Ready p) \<noteq> [])"
    if "p < 32" for p
    using queue_okD(2) [OF q that] by (simp add: it)
  show "home_ok (home (tlists (unlink t s)) x) (threads (unlink t s) x)" for x
    using queue_okD(3) [OF q, of x] t by (auto simp: it)
qed (use queue_okD [OF q] in \<open>auto simp: lstore_ok_remove\<close>)

text \<open>The state after a successful resume. The current thread, suspended but not yet switched out, just
  goes on running.\<close>

definition make_ready :: "tid \<Rightarrow> kernel \<Rightarrow> kernel" where
  "make_ready t s = (if t = current_thread s then upd_thread t (set_stat RT_THREAD_RUNNING) s
     else ready_insert t s)"

definition resumed :: "tid \<Rightarrow> kernel \<Rightarrow> kernel" where
  "resumed t s = make_ready t (stop_timer (Thread_timer t) (unlink t s))"

lemma make_ready_fields [simp]:
  "lock_nest (make_ready t s) = lock_nest s" "current_thread (make_ready t s) = current_thread s"
  "running_priority (make_ready t s) = running_priority s"
  "interrupt_nest (make_ready t s) = interrupt_nest s" "rt_tick (make_ready t s) = rt_tick s"
  "timers (make_ready t s) = timers s" "trows (make_ready t s) = trows s"
  "soft_timer_busy (make_ready t s) = soft_timer_busy s" "random_nr (make_ready t s) = random_nr s"
  "obj_type (make_ready t s) = obj_type s" "obj_name (make_ready t s) = obj_name s"
  "olists (make_ready t s) = olists s" "sems (make_ready t s) = sems s"
  "mutexes (make_ready t s) = mutexes s" "events (make_ready t s) = events s"
  "mailboxes (make_ready t s) = mailboxes s" "mqueues (make_ready t s) = mqueues s"
  "mempools (make_ready t s) = mempools s"
  "memory (make_ready t s) = memory s" "devices (make_ready t s) = devices s" "errno (make_ready t s) = errno s"
  "threads (make_ready t s) = (threads s)(t :=
     set_stat (if t = current_thread s then RT_THREAD_RUNNING else RT_THREAD_READY) (threads s t))"
  by (simp_all add: make_ready_def)

lemma insert_thread_make_ready:
  assumes "t \<noteq> 0" and "home (tlists s) t = None" and "unat (current_priority (threads s t)) < 32"
  shows "rt_schedule_insert_thread t s = Some (make_ready t s)"
  using assms insert_thread_eq [of t s] by (auto simp: make_ready_def rt_schedule_insert_thread_def)

lemma sched_ok_make_ready:
  assumes ok: "sched_ok s" and t: "thread_stat (threads s t) = RT_THREAD_SUSPEND"
    and h: "home (tlists s) t = None"
  shows "sched_ok (make_ready t s)"
proof (rule sched_okI [where c = "current_thread s"])
  note q = sched_okD(1) [OF ok]
  have l: "t \<noteq> 0" "prio_ok (threads s t)" using queue_okD(4) [OF q, of t] t by (auto simp: live_def)
  have "queue_ok (upd_thread t (set_stat RT_THREAD_RUNNING) s)"
    by (rule queue_ok_free_upd [OF q h]) (use l in \<open>auto simp: stat_simps\<close>)
  then show "queue_ok (make_ready t s)"
    using queue_ok_insert [OF q l(1) h l(2)] by (auto simp: make_ready_def)
  show "x = current_thread s" if "thread_stat (threads (make_ready t s) x) = RT_THREAD_RUNNING" for x
    using that sched_okD(2) [OF ok, of x] by (auto simp: stat_simps split: if_splits)
  show "thread_stat (threads (make_ready t s) (current_thread s)) \<noteq> RT_THREAD_READY"
    using sched_okD(3) [OF ok] by (auto simp: stat_simps)
qed simp

lemma timers_ok_make_ready:
  assumes ok: "timers_ok s" and t: "live (threads s t)"
    and m: "home (trows s) (Thread_timer t) \<noteq> Some Hard_list"
  shows "timers_ok (make_ready t s)"
  by (rule timers_ok_threads [OF ok])
    (use t m timers_okD(3) [OF ok] in \<open>auto simp: thread_timer_ok_def split: if_splits\<close>)

lemma suspended_live: "thread_stat th = RT_THREAD_SUSPEND \<Longrightarrow> live th"
  by (simp add: live_def)

lemma thread_timer_facts:
  assumes "timers_ok s" and "live (threads s t)"
  shows "is_thread t s" "is_timer (Thread_timer t) s"
    "timeout_func (timers s (Thread_timer t)) = Thread_timeout t"
    "\<not> tm_periodic (timers s (Thread_timer t))" "\<not> tm_soft (timers s (Thread_timer t))"
  using timers_okD(3) [OF assms(1), of t] assms(2) by (auto simp: thread_timer_ok_def)

lemma timers_ok_unlink [simp]: "timers_ok (unlink t s) = timers_ok s"
  by (simp add: timers_ok_def timer_ok_def thread_timer_ok_def is_thread_def is_timer_def)

lemma order_ok_unlink [simp]: "order_ok b k (unlink t s) = order_ok b k s"
  by (simp add: order_ok_def)

lemma sched_ok_unlink:
  "sched_ok s \<Longrightarrow> thread_stat (threads s t) = RT_THREAD_SUSPEND \<Longrightarrow> sched_ok (unlink t s)"
  using queue_ok_unlink by (simp add: sched_ok_def)

text \<open>Both parts of the kernel invariant survive a resume; the order of the timer list is a separate
  statement, because a resume also happens while the tick interrupt is working on that list.\<close>

lemma resume_ok:
  assumes s: "sched_ok s" and k: "timers_ok s" and t: "thread_stat (threads s t) = RT_THREAD_SUSPEND"
  shows "rt_thread_resume t s = Some (RT_EOK, resumed t s)"
    and "sched_ok (resumed t s)" and "timers_ok (resumed t s)"
    and "order_ok b n s \<Longrightarrow> order_ok b n (resumed t s)"
proof -
  note lv = suspended_live [OF t] and q = sched_okD(1) [OF s]
  note f = thread_timer_facts [OF k lv]
  let ?s1 = "stop_timer (Thread_timer t) (unlink t s)"
  have l: "t \<noteq> 0" "prio_ok (threads s t)" using queue_okD(4) [OF q lv] by auto
  have h: "home (tlists ?s1) t = None" by (simp add: items_remove [OF queue_okD(1) [OF q]])
  have "is_timer (Thread_timer t) (unlink t s)" using f(2) by (simp add: is_timer_def)
  moreover have "rt_schedule_insert_thread t ?s1 = Some (make_ready t ?s1)"
    using l h by (intro insert_thread_make_ready) (auto simp: prio_ok_def)
  ultimately show "rt_thread_resume t s = Some (RT_EOK, resumed t s)"
    using f(1) t
    by (simp add: rt_thread_resume_def timer_stop_eq resumed_def unlink_def [symmetric] Let_def)
  show "sched_ok (resumed t s)"
    unfolding resumed_def by (rule sched_ok_make_ready) (use s t h sched_ok_unlink in auto)
  show "timers_ok (resumed t s)"
    unfolding resumed_def
    by (rule timers_ok_make_ready) (use k lv stopped_home [of "unlink t s"] timers_ok_stop in auto)
  show "order_ok b n (resumed t s)" if "order_ok b n s"
    using order_ok_stop [of "unlink t s" b n "Thread_timer t"] k that
    by (simp add: resumed_def order_ok_def)
qed

lemma resumed_fields [simp]:
  "lock_nest (resumed t s) = lock_nest s" "current_thread (resumed t s) = current_thread s"
  "running_priority (resumed t s) = running_priority s"
  "interrupt_nest (resumed t s) = interrupt_nest s" "rt_tick (resumed t s) = rt_tick s"
  "soft_timer_busy (resumed t s) = soft_timer_busy s" "random_nr (resumed t s) = random_nr s"
  "obj_type (resumed t s) = obj_type s" "obj_name (resumed t s) = obj_name s"
  "olists (resumed t s) = olists s" "sems (resumed t s) = sems s"
  "mutexes (resumed t s) = mutexes s" "events (resumed t s) = events s"
  "mailboxes (resumed t s) = mailboxes s" "mqueues (resumed t s) = mqueues s"
  "mempools (resumed t s) = mempools s"
  "memory (resumed t s) = memory s" "devices (resumed t s) = devices s" "errno (resumed t s) = errno s"
  "threads (resumed t s) = (threads s)(t :=
     set_stat (if t = current_thread s then RT_THREAD_RUNNING else RT_THREAD_READY) (threads s t))"
  by (simp_all add: resumed_def)

text \<open>A resume takes the thread out of the wait queue it was in and touches no other wait queue.\<close>

lemma resumed_waits:
  assumes "sched_ok s" and "\<And>p. h \<noteq> Ready p"
  shows "items (tlists (resumed t s)) h = without t (items (tlists s) h)"
  using items_remove [OF queue_okD(1) [OF sched_okD(1) [OF assms(1)]], of t] assms(2)
  by (auto simp: resumed_def make_ready_def ready_insert_items Let_def)

lemma kernel_ok_resumed:
  assumes "kernel_ok s" and "thread_stat (threads s t) = RT_THREAD_SUSPEND"
  shows "kernel_ok (resumed t s)"
  using resume_ok [OF kernel_okD(1,2) [OF assms(1)] assms(2)] kernel_okD(3) [OF assms(1)]
  by (simp add: kernel_ok_def)

section \<open>Suspending\<close>

definition suspended :: "kernel \<Rightarrow> kernel" where
  "suspended s = stop_timer (Thread_timer (current_thread s))
     (upd_thread (current_thread s) (set_stat RT_THREAD_SUSPEND) s)"

lemma suspended_fields [simp]:
  "lock_nest (suspended s) = lock_nest s" "current_thread (suspended s) = current_thread s"
  "running_priority (suspended s) = running_priority s"
  "interrupt_nest (suspended s) = interrupt_nest s" "rt_tick (suspended s) = rt_tick s"
  "tlists (suspended s) = tlists s" "ready_group (suspended s) = ready_group s"
  "soft_timer_busy (suspended s) = soft_timer_busy s" "random_nr (suspended s) = random_nr s"
  "obj_type (suspended s) = obj_type s" "obj_name (suspended s) = obj_name s"
  "olists (suspended s) = olists s" "sems (suspended s) = sems s"
  "mutexes (suspended s) = mutexes s" "events (suspended s) = events s"
  "mailboxes (suspended s) = mailboxes s" "mqueues (suspended s) = mqueues s"
  "mempools (suspended s) = mempools s"
  "memory (suspended s) = memory s" "devices (suspended s) = devices s" "errno (suspended s) = errno s"
  "threads (suspended s) = (threads s)(current_thread s :=
     set_stat RT_THREAD_SUSPEND (threads s (current_thread s)))"
  by (simp_all add: suspended_def)

lemma timers_ok_running_to_suspend:
  assumes ok: "timers_ok s" and c: "live (threads s c)"
  shows "timers_ok (upd_thread c (set_stat RT_THREAD_SUSPEND) s)"
  by (rule timers_ok_threads [OF ok])
    (use c timers_okD(3) [OF ok] in \<open>auto simp: thread_timer_ok_def stat_simps split: if_splits\<close>)

lemma running_live: "thread_stat th = RT_THREAD_RUNNING \<Longrightarrow> live th"
  by (simp add: live_def)

lemma suspend_ok:
  assumes ok: "kernel_ok s" and c: "thread_stat (threads s (current_thread s)) = RT_THREAD_RUNNING"
  shows "rt_thread_suspend (current_thread s) s = Some (RT_EOK, suspended s)"
    and "kernel_ok (suspended s)"
proof -
  let ?c = "current_thread s"
  note s = kernel_okD(1) [OF ok] and k = kernel_okD(2) [OF ok] and q = sched_okD(1) [OF kernel_okD(1) [OF ok]]
  note f = thread_timer_facts [OF k running_live [OF c]]
  have l: "?c \<noteq> 0" "prio_ok (threads s ?c)" using queue_okD(4) [OF q running_live [OF c]] by auto
  have "rt_schedule_remove_thread ?c s = Some s"
    using remove_thread_eq [of ?c s] ready_remove_running [OF q c] l by (simp add: prio_ok_def)
  moreover have "is_timer (Thread_timer ?c) (upd_thread ?c (set_stat RT_THREAD_SUSPEND) s)"
    using f(2) by (simp add: is_timer_def)
  ultimately show "rt_thread_suspend ?c s = Some (RT_EOK, suspended s)"
    using f(1) c by (simp add: rt_thread_suspend_def timer_stop_eq suspended_def)
  have "queue_ok (upd_thread ?c (set_stat RT_THREAD_SUSPEND) s)"
    by (rule queue_ok_free_upd [OF q queue_ok_running_home [OF q c]])
      (use l in \<open>auto simp: stat_simps\<close>)
  then have "sched_ok (suspended s)"
    using sched_okD(2) [OF s] by (auto simp: suspended_def sched_ok_def stat_simps)
  moreover have "timers_ok (suspended s)"
    unfolding suspended_def by (intro timers_ok_stop timers_ok_running_to_suspend k running_live c)
  moreover have "order_ok (rt_tick s) 0x7FFFFFFF (suspended s)"
    unfolding suspended_def
    by (intro order_ok_stop timers_ok_running_to_suspend k running_live c)
      (use kernel_okD(3) [OF ok] in \<open>simp add: order_ok_def\<close>)
  ultimately show "kernel_ok (suspended s)" by (simp add: kernel_ok_def)
qed

section \<open>Rescheduling\<close>

lemma timers_ok_frame:
  assumes ok: "timers_ok s" and f: "sched_frame s s'"
  shows "timers_ok s'"
proof (rule timers_ok_threads [OF ok])
  note g = sched_frame_kernel [OF f]
  show "timers s' = timers s" "trows s' = trows s" "obj_type s' = obj_type s" using g by auto
  show "live (threads s t)" if "live (threads s' t)" for t
    using that sched_frameD(2) [OF f, of t]
    by (cases "thread_stat (threads s t) = 1 \<or> thread_stat (threads s t) = 3") (auto simp: live_def)
  show "thread_stat (threads s' t) = RT_THREAD_SUSPEND"
    if "home (trows s) (Thread_timer t) = Some Hard_list" for t
    using that timers_okD(3) [OF ok, of t] sched_frameD(2) [OF f, of t] by (simp add: thread_timer_ok_def)
qed

lemma schedule_kernel_ok:
  assumes ok: "kernel_ok s"
  obtains s' where "rt_schedule s = Some s'" and "kernel_ok s'" and "sched_frame s s'"
    and "lock_nest s = 0 \<Longrightarrow> ready_group s \<noteq> 0 \<Longrightarrow> runs_highest s'"
proof -
  obtain s' where s': "rt_schedule s = Some s'" "sched_ok s'"
    "lock_nest s = 0 \<and> ready_group s \<noteq> 0 \<longrightarrow> runs_highest s'"
    using schedule_ok [OF kernel_okD(1) [OF ok]] by blast
  have f: "sched_frame s s'" by (rule schedule_frame [OF kernel_okD(1) [OF ok] s'(1)])
  have "kernel_ok s'"
    using s'(2) timers_ok_frame [OF kernel_okD(2) [OF ok] f] kernel_okD(3) [OF ok] sched_frame_kernel [OF f]
    by (simp add: kernel_ok_def order_ok_def)
  then show thesis using s' f that by blast
qed

section \<open>The concrete system\<close>

lemma demo_timers [simp]:
  "timers demo_kernel (Thread_timer t) = null_timer\<lparr>timeout_func := Thread_timeout t\<rparr>"
  "timers demo_kernel (Timer n) = null_timer"
  "obj_type demo_kernel (Thread_obj t) = (if t \<in> {1, 2, 3, 4, 5} then 0x81 else 0)"
  "obj_type demo_kernel (Timer_obj (Thread_timer t)) = (if t \<in> {1, 2, 3, 4, 5} then 0x8a else 0)"
  by (simp_all add: demo_kernel_def)

lemma null_thread_dead [simp]: "\<not> live null_thread"
  by (simp add: live_def)

lemma demo_live: "live (threads demo_kernel t) \<longleftrightarrow> t \<in> {1, 2, 3, 4, 5}"
  by (auto simp: live_def)

lemma demo_objects: "t \<in> {1, 2, 3, 4, 5} \<Longrightarrow> is_thread t demo_kernel \<and> is_timer (Thread_timer t) demo_kernel"
  by (auto simp: is_thread_def is_timer_def rt_object_get_type_def)

lemma null_timer_flags [simp]:
  "\<not> tm_active (null_timer\<lparr>timeout_func := f\<rparr>)" "\<not> tm_periodic (null_timer\<lparr>timeout_func := f\<rparr>)"
  "\<not> tm_soft (null_timer\<lparr>timeout_func := f\<rparr>)" "\<not> tm_active null_timer" "\<not> tm_periodic null_timer"
  "\<not> tm_soft null_timer" "timer_init_tick null_timer = 0" "timeout_func null_timer = User_timeout 0"
  by (simp_all add: tm_active_def tm_periodic_def tm_soft_def null_timer_def)

lemma demo_kernel_full: "kernel_ok demo_kernel"
  unfolding kernel_ok_def
proof (intro conjI)
  show "sched_ok demo_kernel" by (rule demo_kernel_ok)
  show "timers_ok demo_kernel"
  proof (rule timers_okI)
    show "lstore_ok (trows demo_kernel)" by simp
    show "timer_ok demo_kernel m" for m by (cases m) (simp_all add: timer_ok_def empty_lstore_def)
    show "thread_timer_ok demo_kernel t" for t
      using demo_objects [of t] by (auto simp: thread_timer_ok_def demo_live empty_lstore_def)
  qed
  show "order_ok (rt_tick demo_kernel) 0x7FFFFFFF demo_kernel"
    by (simp add: order_ok_def row_ok_def empty_lstore_def)
qed

end
