(* ===== verification/Rt_TimerRun.thy ===== *)
theory Rt_TimerRun
  imports Rt_ThreadState
begin

text \<open>
  Starting timers and running them (\<^verbatim>\<open>rt_timer_start\<close>, \<^verbatim>\<open>rt_timer_check\<close>, \<^verbatim>\<open>rt_soft_timer_check\<close> of
  \<^verbatim>\<open>src/timer.c\<close>), the timeout of a sleeping thread (\<^verbatim>\<open>_thread_timeout\<close> of \<^verbatim>\<open>src/thread.c\<close>) and the tick
  interrupt (\<^verbatim>\<open>src/clock.c\<close>). The timeout functions of application timers are the parameter \<open>cb\<close>. The
  check loops are partial functions: not returning is \<open>None\<close>.
\<close>

section \<open>Operations\<close>

definition rt_timer_start :: "tmid \<Rightarrow> kernel \<Rightarrow> kernel option" where
  "rt_timer_start m s = do {
     rt_assert (is_timer m s);
     let s = timer_remove m s;
     let s = upd_timer m clear_active s;
     let s = upd_timer m (\<lambda>tm. tm\<lparr>timeout_tick := rt_tick s + timer_init_tick tm\<rparr>) s;
     s \<leftarrow> timer_insert (if tm_soft (timers s m) then Soft_list else Hard_list) m s;
     let s = s\<lparr>random_nr := random_nr s + 1\<rparr>;
     let s = upd_timer m set_active s;
     if tm_soft (timers s m) \<and> \<not> soft_timer_busy s \<and>
        thread_stat (threads s timer_thread_addr) = RT_THREAD_SUSPEND
     then do {
       (_, s) \<leftarrow> rt_thread_resume timer_thread_addr s;
       rt_schedule s
     }
     else Some s
   }"

definition thread_timeout :: "tid \<Rightarrow> kernel \<Rightarrow> kernel option" where
  "thread_timeout t s = do {
     rt_assert (t \<noteq> 0);
     rt_assert (thread_stat (threads s t) = RT_THREAD_SUSPEND);
     rt_assert (is_thread t s);
     let s = upd_thread t (\<lambda>th. th\<lparr>thread_error := - RT_ETIMEOUT\<rparr>) s;
     let s = s\<lparr>tlists := ls_remove t (tlists s)\<rparr>;
     s \<leftarrow> rt_schedule_insert_thread t s;
     rt_schedule s
   }"

definition run_timeout :: "(nat \<Rightarrow> kernel \<Rightarrow> kernel option) \<Rightarrow> timeout_fn \<Rightarrow> kernel \<Rightarrow> kernel option" where
  "run_timeout cb f s = (case f of Thread_timeout t \<Rightarrow> thread_timeout t s | User_timeout n \<Rightarrow> cb n s)"

text \<open>The body of the loop of \<^verbatim>\<open>rt_timer_check\<close> on an expired timer.\<close>

definition timer_fire :: "(nat \<Rightarrow> kernel \<Rightarrow> kernel option) \<Rightarrow> tmid \<Rightarrow> kernel \<Rightarrow> kernel option" where
  "timer_fire cb t s = do {
     let s = timer_remove t s;
     let s = (if \<not> tm_periodic (timers s t) then upd_timer t clear_active s else s);
     l \<leftarrow> ls_insert_after Hard_check t (trows s);
     let s = s\<lparr>trows := l\<rparr>;
     s \<leftarrow> run_timeout cb (timeout_func (timers s t)) s;
     if items (trows s) Hard_check = [] then Some s
     else do {
       let s = timer_remove t s;
       if tm_periodic (timers s t) \<and> tm_active (timers s t)
       then rt_timer_start t (upd_timer t clear_active s)
       else Some s
     }
   }"

partial_function (option) timer_check_loop ::
    "(nat \<Rightarrow> kernel \<Rightarrow> kernel option) \<Rightarrow> u32 \<Rightarrow> kernel \<Rightarrow> kernel option" where
  "timer_check_loop cb current_tick s =
     (case items (trows s) Hard_list of
        [] \<Rightarrow> Some s
      | t # _ \<Rightarrow>
          if current_tick - timeout_tick (timers s t) < RT_TICK_HALF
          then timer_fire cb t s \<bind> (\<lambda>s. timer_check_loop cb (rt_tick s) s)
          else Some s)"

text \<open>The list of the timer being served is a local variable, empty on entry: the tick interrupt does not
  nest.\<close>

definition rt_timer_check :: "(nat \<Rightarrow> kernel \<Rightarrow> kernel option) \<Rightarrow> kernel \<Rightarrow> kernel option" where
  "rt_timer_check cb s = do {
     rt_assert (items (trows s) Hard_check = []);
     timer_check_loop cb (rt_tick s) s
   }"

definition soft_timer_fire :: "(nat \<Rightarrow> kernel \<Rightarrow> kernel option) \<Rightarrow> tmid \<Rightarrow> kernel \<Rightarrow> kernel option" where
  "soft_timer_fire cb t s = do {
     let s = timer_remove t s;
     let s = (if \<not> tm_periodic (timers s t) then upd_timer t clear_active s else s);
     l \<leftarrow> ls_insert_after Soft_check t (trows s);
     let s = s\<lparr>trows := l, soft_timer_busy := True\<rparr>;
     s \<leftarrow> run_timeout cb (timeout_func (timers s t)) s;
     let s = s\<lparr>soft_timer_busy := False\<rparr>;
     if items (trows s) Soft_check = [] then Some s
     else do {
       let s = timer_remove t s;
       if tm_periodic (timers s t) \<and> tm_active (timers s t)
       then rt_timer_start t (upd_timer t clear_active s)
       else Some s
     }
   }"

partial_function (option) soft_timer_check_loop ::
    "(nat \<Rightarrow> kernel \<Rightarrow> kernel option) \<Rightarrow> kernel \<Rightarrow> kernel option" where
  "soft_timer_check_loop cb s =
     (case items (trows s) Soft_list of
        [] \<Rightarrow> Some s
      | t # _ \<Rightarrow>
          if rt_tick s - timeout_tick (timers s t) < RT_TICK_HALF
          then soft_timer_fire cb t s \<bind> soft_timer_check_loop cb
          else Some s)"

definition rt_soft_timer_check :: "(nat \<Rightarrow> kernel \<Rightarrow> kernel option) \<Rightarrow> kernel \<Rightarrow> kernel option" where
  "rt_soft_timer_check cb s = do {
     rt_assert (items (trows s) Soft_check = []);
     soft_timer_check_loop cb s
   }"

text \<open>\<^verbatim>\<open>clock.c\<close>. Before the scheduler starts there is no current thread, and \<^verbatim>\<open>rt_tick_increase\<close> would go
  through a null pointer.\<close>

definition rt_tick_get :: "kernel \<Rightarrow> u32" where
  "rt_tick_get s = rt_tick s"

definition rt_tick_set :: "u32 \<Rightarrow> kernel \<Rightarrow> kernel" where
  "rt_tick_set tick s = s\<lparr>rt_tick := tick\<rparr>"

definition rt_tick_increase :: "(nat \<Rightarrow> kernel \<Rightarrow> kernel option) \<Rightarrow> kernel \<Rightarrow> kernel option" where
  "rt_tick_increase cb s = do {
     let s = s\<lparr>rt_tick := rt_tick s + 1\<rparr>;
     let t = current_thread s;
     rt_assert (t \<noteq> 0);
     let s = upd_thread t (\<lambda>th. th\<lparr>remaining_tick := remaining_tick th - 1\<rparr>) s;
     s \<leftarrow> (if remaining_tick (threads s t) = 0
          then rt_schedule (upd_thread t (\<lambda>th. set_yield (th\<lparr>remaining_tick := init_tick th\<rparr>)) s)
          else Some s);
     rt_timer_check cb s
   }"

text \<open>\<^verbatim>\<open>RT_TICK_PER_SECOND\<close> is 100; the argument is a signed 32-bit number of milliseconds. C division
  truncates, but the argument is not negative where it divides.\<close>

definition rt_tick_from_millisecond :: "int \<Rightarrow> u32" where
  "rt_tick_from_millisecond ms =
     (if ms < 0 then word_of_int (- 1)
      else word_of_int (100 * (ms div 1000)) + word_of_int ((100 * (ms mod 1000) + 999) div 1000))"

section \<open>Starting a hard timer\<close>

definition armed :: "tmid \<Rightarrow> kernel \<Rightarrow> kernel" where
  "armed m s =
     (let s1 = upd_timer m (\<lambda>tm. (clear_active tm)\<lparr>timeout_tick := rt_tick s + timer_init_tick tm\<rparr>)
                 (timer_remove m s)
      in upd_timer m set_active (s1\<lparr>trows := ls_set Hard_list
           (insert_row (\<lambda>t. timeout_tick (timers s1 t)) m (items (trows s1) Hard_list)) m (trows s1),
           random_nr := random_nr s + 1\<rparr>))"

lemma upd_timer_twice: "upd_timer m f (upd_timer m g s) = upd_timer m (\<lambda>x. f (g x)) s"
  by (simp add: upd_timer_def)

lemma timer_start_hard:
  assumes "is_timer m s" and "\<not> tm_soft (timers s m)" and "lstore_ok (trows s)"
  shows "rt_timer_start m s = Some (armed m s)"
proof -
  define s1 where "s1 = upd_timer m
    (\<lambda>tm. (clear_active tm)\<lparr>timeout_tick := rt_tick s + timer_init_tick tm\<rparr>) (timer_remove m s)"
  have e: "upd_timer m (\<lambda>tm. tm\<lparr>timeout_tick := rt_tick s + timer_init_tick tm\<rparr>)
      (upd_timer m clear_active (timer_remove m s)) = s1"
    by (simp add: upd_timer_twice s1_def)
  have i: "timer_insert Hard_list m s1 = Some (s1\<lparr>trows := ls_set Hard_list
      (insert_row (\<lambda>t. timeout_tick (timers s1 t)) m (items (trows s1) Hard_list)) m (trows s1)\<rparr>)"
    by (rule timer_insert_eq) (use assms(3) in \<open>simp_all add: s1_def lstore_ok_remove items_remove\<close>)
  have "\<not> tm_soft (timers s1 m)" "random_nr s1 = random_nr s"
    using assms(2) by (simp_all add: s1_def)
  then show ?thesis
    using assms(1,2) i
    by (simp add: rt_timer_start_def e Let_def armed_def s1_def [symmetric])
qed

lemma armed_fields [simp]:
  "threads (armed m s) = threads s" "tlists (armed m s) = tlists s"
  "ready_group (armed m s) = ready_group s" "lock_nest (armed m s) = lock_nest s"
  "current_thread (armed m s) = current_thread s"
  "running_priority (armed m s) = running_priority s"
  "interrupt_nest (armed m s) = interrupt_nest s" "rt_tick (armed m s) = rt_tick s"
  "soft_timer_busy (armed m s) = soft_timer_busy s"
  "obj_type (armed m s) = obj_type s" "obj_name (armed m s) = obj_name s"
  "olists (armed m s) = olists s" "sems (armed m s) = sems s"
  "mutexes (armed m s) = mutexes s" "events (armed m s) = events s"
  "mailboxes (armed m s) = mailboxes s" "mqueues (armed m s) = mqueues s"
  "mempools (armed m s) = mempools s"
  "memory (armed m s) = memory s" "devices (armed m s) = devices s" "errno (armed m s) = errno s"
  by (simp_all add: armed_def Let_def)

lemma armed_timers:
  "timers (armed m s) x = (if x = m then
     set_active ((clear_active (timers s m))\<lparr>timeout_tick := rt_tick s + timer_init_tick (timers s m)\<rparr>)
   else timers s x)"
  by (simp add: armed_def Let_def)

lemma armed_rows:
  assumes "lstore_ok (trows s)"
  shows "lstore_ok (trows (armed m s))"
    and "home (trows (armed m s)) = (home (trows s))(m := Some Hard_list)"
    and "items (trows (armed m s)) Hard_list =
      insert_row (\<lambda>t. timeout_tick (timers (armed m s) t)) m (without m (items (trows s) Hard_list))"
    and "h \<noteq> Hard_list \<Longrightarrow> items (trows (armed m s)) h = without m (items (trows s) h)"
proof -
  have tt: "(\<lambda>t. timeout_tick (timers (armed m s) t)) =
      (\<lambda>t. timeout_tick (if t = m then (clear_active (timers s m))
         \<lparr>timeout_tick := rt_tick s + timer_init_tick (timers s m)\<rparr> else timers s t))"
    by (auto simp: armed_timers)
  show "lstore_ok (trows (armed m s))"
    unfolding armed_def Let_def
    using lstore_ok_insert_row [OF lstore_ok_remove [OF assms], of _ m Hard_list]
    by (simp add: items_remove [OF assms] cong: if_cong)
  show "home (trows (armed m s)) = (home (trows s))(m := Some Hard_list)"
    by (simp add: armed_def Let_def items_remove [OF assms])
  show "items (trows (armed m s)) Hard_list =
      insert_row (\<lambda>t. timeout_tick (timers (armed m s) t)) m (without m (items (trows s) Hard_list))"
    unfolding tt by (simp add: armed_def Let_def items_remove [OF assms] cong: if_cong)
  show "items (trows (armed m s)) h = without m (items (trows s) h)" if "h \<noteq> Hard_list"
    using that by (simp add: armed_def Let_def items_remove [OF assms])
qed

lemma timers_ok_armed:
  assumes ok: "timers_ok s" and m: "is_timer m s" "\<not> tm_soft (timers s m)"
    and t: "\<And>t. m = Thread_timer t \<Longrightarrow> thread_stat (threads s t) = RT_THREAD_SUSPEND"
  shows "timers_ok (armed m s)"
proof (rule timers_okI)
  note r = armed_rows [OF timers_okD(1) [OF ok], where m = m]
  show "lstore_ok (trows (armed m s))" by (rule r)
  show "timer_ok (armed m s) x" for x
    using timers_okD(2) [OF ok, of x] m
    by (auto simp: timer_ok_def r armed_timers is_timer_def)
  show "thread_timer_ok (armed m s) x" for x
    using timers_okD(3) [OF ok, of x] m t [of x]
    by (auto simp: thread_timer_ok_def r armed_timers is_timer_def is_thread_def)
qed

lemma order_ok_armed:
  assumes ok: "timers_ok s" and o: "order_ok b k s" and k: "k \<le> 0x80000000"
    and m: "ahead b (rt_tick s + timer_init_tick (timers s m)) < k"
    and lt: "k \<le> ahead b (rt_tick s + timer_init_tick (timers s m)) + 0x7FFFFFFF"
  shows "order_ok b k (armed m s)"
proof -
  let ?tt = "\<lambda>t. timeout_tick (timers (armed m s) t)"
  let ?xs = "without m (items (trows s) Hard_list)"
  have eq: "?tt t = timeout_tick (timers s t)" if "t \<in> set ?xs" for t
    using that by (simp add: armed_timers)
  have r: "row_ok b k (\<lambda>t. timeout_tick (timers s t)) ?xs"
    using o by (auto simp: order_ok_def row_ok_def sorted_filter_map)
  have me: "map (\<lambda>t. ahead b (?tt t)) ?xs = map (\<lambda>t. ahead b (timeout_tick (timers s t))) ?xs"
    by (rule map_cong) (use eq in auto)
  have r': "row_ok b k ?tt ?xs" using r eq unfolding row_ok_def me by auto
  have "row_ok b k ?tt (insert_row ?tt m ?xs)"
  proof (rule row_ok_insert [OF r' k])
    show "ahead b (?tt m) < k" using m by (simp add: armed_timers)
    show "ahead b (?tt t) < ahead b (?tt m) + 0x7FFFFFFF" if "t \<in> set ?xs" for t
      using r' that lt by (auto simp: row_ok_def armed_timers)
  qed
  then show ?thesis by (simp add: order_ok_def armed_rows [OF timers_okD(1) [OF ok]])
qed

lemma ahead_now: "ahead now (now + x) = unat x"
  by (simp add: ahead_def)

text \<open>Arming the timer of a suspended thread between two ticks.\<close>

lemma kernel_ok_armed:
  assumes ok: "kernel_ok s" and m: "is_timer m s" "\<not> tm_soft (timers s m)"
    and t: "\<And>t. m = Thread_timer t \<Longrightarrow> thread_stat (threads s t) = RT_THREAD_SUSPEND"
  shows "kernel_ok (armed m s)"
proof -
  note k = kernel_okD(2) [OF ok]
  have i: "unat (timer_init_tick (timers s m)) < 0x7FFFFFFF"
    using timers_okD(2) [OF k, of m] by (simp add: timer_ok_def word_less_nat_alt)
  have "sched_ok (armed m s)"
    using kernel_okD(1) [OF ok] by (simp add: sched_ok_def queue_ok_def)
  moreover have "order_ok (rt_tick s) 0x7FFFFFFF (armed m s)"
    by (rule order_ok_armed [OF k kernel_okD(3) [OF ok]]) (use i in \<open>simp_all add: ahead_now\<close>)
  ultimately show ?thesis
    using timers_ok_armed [OF k m t] by (simp add: kernel_ok_def)
qed

section \<open>What may happen while the timer list is being served\<close>

definition awake :: "kernel \<Rightarrow> tid \<Rightarrow> bool" where
  "awake s t = (thread_stat (threads s t) = RT_THREAD_READY \<or> thread_stat (threads s t) = RT_THREAD_RUNNING)"

definition same_timing :: "rt_timer \<Rightarrow> rt_timer \<Rightarrow> bool" where
  "same_timing a b =
     (timeout_tick b = timeout_tick a \<and> timer_init_tick b = timer_init_tick a \<and>
      timeout_func b = timeout_func a \<and> tm_periodic b = tm_periodic a \<and> tm_soft b = tm_soft a)"

text \<open>A step that is safe in the tick interrupt: it keeps the kernel consistent, starts no timer and
  retunes none, may stop timers, and puts no thread to sleep; a thread timer it stops belongs to a
  thread it wakes.\<close>

definition isr_step :: "kernel \<Rightarrow> kernel \<Rightarrow> bool" where
  "isr_step s s' =
     (sched_ok s' \<and> timers_ok s' \<and> rt_tick s' = rt_tick s \<and> obj_type s' = obj_type s \<and>
      (\<exists>P. items (trows s') Hard_list = filter P (items (trows s) Hard_list)) \<and>
      items (trows s') Hard_check = items (trows s) Hard_check \<and>
      (\<forall>m. same_timing (timers s m) (timers s' m)) \<and>
      (\<forall>m. home (trows s') m = Some Hard_check \<longrightarrow> tm_active (timers s' m) = tm_active (timers s m)) \<and>
      (\<forall>t. awake s t \<longrightarrow> awake s' t) \<and>
      (\<forall>t. Thread_timer t \<in> set (items (trows s) Hard_list) \<and>
         Thread_timer t \<notin> set (items (trows s') Hard_list) \<longrightarrow> awake s' t) \<and>
      (current_thread s' = current_thread s \<or> awake s' (current_thread s')))"

lemma isr_stepD:
  assumes "isr_step s s'"
  shows "sched_ok s'" "timers_ok s'" "rt_tick s' = rt_tick s" "obj_type s' = obj_type s"
    "\<exists>P. items (trows s') Hard_list = filter P (items (trows s) Hard_list)"
    "items (trows s') Hard_check = items (trows s) Hard_check"
    "same_timing (timers s m) (timers s' m)"
    "home (trows s') m = Some Hard_check \<Longrightarrow> tm_active (timers s' m) = tm_active (timers s m)"
    "awake s t \<Longrightarrow> awake s' t"
    "Thread_timer t \<in> set (items (trows s) Hard_list) \<Longrightarrow>
       Thread_timer t \<notin> set (items (trows s') Hard_list) \<Longrightarrow> awake s' t"
    "current_thread s' = current_thread s \<or> awake s' (current_thread s')"
  using assms unfolding isr_step_def by auto

lemma awake_current: "sched_ok s \<Longrightarrow> awake s t \<Longrightarrow> t \<noteq> 0"
  using queue_okD(4) [OF sched_okD(1), of s t] by (auto simp: awake_def live_def)

lemma isr_step_trans:
  assumes a: "isr_step s s'" and b: "isr_step s' s''"
  shows "isr_step s s''"
  unfolding isr_step_def
proof (intro conjI allI impI)
  obtain P Q where "items (trows s') Hard_list = filter P (items (trows s) Hard_list)"
    and "items (trows s'') Hard_list = filter Q (items (trows s') Hard_list)"
    using isr_stepD(5) [OF a] isr_stepD(5) [OF b] by blast
  then have "items (trows s'') Hard_list = filter (\<lambda>m. P m \<and> Q m) (items (trows s) Hard_list)"
    by (simp add: conj_commute)
  then show "\<exists>P. items (trows s'') Hard_list = filter P (items (trows s) Hard_list)" by blast
  show "same_timing (timers s m) (timers s'' m)" for m
    using isr_stepD(7) [OF a, of m] isr_stepD(7) [OF b, of m] by (simp add: same_timing_def)
  have chk: "home (trows s') m = Some Hard_check" if "home (trows s'') m = Some Hard_check" for m
    using that lstore_okD(2) [OF timers_okD(1) [OF isr_stepD(2) [OF a]], of m Hard_check]
      lstore_okD(2) [OF timers_okD(1) [OF isr_stepD(2) [OF b]], of m Hard_check] isr_stepD(6) [OF b] by simp
  show "tm_active (timers s'' m) = tm_active (timers s m)" if "home (trows s'') m = Some Hard_check" for m
    using isr_stepD(8) [OF b that] isr_stepD(8) [OF a chk [OF that]] by simp
  show "awake s'' t" if "Thread_timer t \<in> set (items (trows s) Hard_list) \<and>
      Thread_timer t \<notin> set (items (trows s'') Hard_list)" for t
    using that isr_stepD(10) [OF a, of t] isr_stepD(10) [OF b, of t] isr_stepD(9) [OF b, of t] by blast
  show "current_thread s'' = current_thread s \<or> awake s'' (current_thread s'')"
    using isr_stepD(11) [OF a] isr_stepD(11) [OF b] isr_stepD(9) [OF b, of "current_thread s'"] by auto
qed (use isr_stepD [OF a] isr_stepD [OF b] in auto)

lemma isr_step_refl: "sched_ok s \<Longrightarrow> timers_ok s \<Longrightarrow> isr_step s s"
  unfolding isr_step_def by (auto simp: same_timing_def intro: exI [where x = "\<lambda>_. True"])

text \<open>Steps that leave the timers alone.\<close>

lemma isr_stepI:
  assumes "sched_ok s'" "timers_ok s'" "rt_tick s' = rt_tick s" "obj_type s' = obj_type s"
    and "timers s' = timers s" "trows s' = trows s" "\<And>t. awake s t \<Longrightarrow> awake s' t"
    and "current_thread s' = current_thread s \<or> awake s' (current_thread s')"
  shows "isr_step s s'"
  using assms unfolding isr_step_def
  by (auto simp: same_timing_def intro: exI [where x = "\<lambda>_. True"])

lemma isr_step_schedule:
  assumes "sched_ok s" and "timers_ok s"
  shows "\<exists>s'. rt_schedule s = Some s' \<and> isr_step s s' \<and> sched_frame s s'"
proof -
  obtain s' where s': "rt_schedule s = Some s'" "sched_ok s'" using schedule_ok [OF assms(1)] by blast
  have f: "sched_frame s s'" by (rule schedule_frame [OF assms(1) s'(1)])
  have "isr_step s s'"
    by (rule isr_stepI [OF s'(2) timers_ok_frame [OF assms(2) f]])
      (use sched_frame_kernel [OF f] sched_frameD(3) [OF f] schedule_current [OF assms(1) s'(1)] in \<open>auto simp: awake_def\<close>)
  then show ?thesis using s'(1) f by blast
qed

text \<open>Waking a thread from interrupt context.\<close>

lemma isr_step_resumed:
  assumes s: "sched_ok s" and k: "timers_ok s" and t: "thread_stat (threads s t) = RT_THREAD_SUSPEND"
    and a: "home (trows s) (Thread_timer t) \<noteq> Some Hard_check"
  shows "isr_step s (resumed t s)" and "awake (resumed t s) t"
proof -
  note r = resume_ok [OF s k t]
  let ?m = "Thread_timer t"
  have tm: "timers (resumed t s) = timers (stop_timer ?m (unlink t s))"
    "trows (resumed t s) = trows (stop_timer ?m (unlink t s))"
    by (simp_all add: resumed_def)
  have k': "timers_ok (unlink t s)" using k by simp
  note rows = stop_timer_rows [OF k', of ?m]
  have nc: "?m \<notin> set (items (trows s) Hard_check)"
    using a lstore_okD(2) [OF timers_okD(1) [OF k], of ?m Hard_check] by simp
  show aw: "awake (resumed t s) t" by (simp add: awake_def stat_simps)
  show "isr_step s (resumed t s)"
    unfolding isr_step_def
  proof (intro conjI allI impI)
    show "\<exists>P. items (trows (resumed t s)) Hard_list = filter P (items (trows s) Hard_list)"
      unfolding tm rows by (cases "tm_active (timers s ?m)") (auto intro: exI [where x = "\<lambda>_. True"])
    show "items (trows (resumed t s)) Hard_check = items (trows s) Hard_check"
      unfolding tm rows using nc by simp
    show "same_timing (timers s m) (timers (resumed t s) m)" for m
      unfolding tm by (simp add: same_timing_def stop_timer_same_ticks)
    show "tm_active (timers (resumed t s) m) = tm_active (timers s m)"
      if "home (trows (resumed t s)) m = Some Hard_check" for m
      using that a unfolding tm rows by (auto simp: stop_timer_same_ticks split: if_splits)
    show "awake (resumed t s) x" if "awake s x" for x
      using that by (auto simp: awake_def stat_simps)
    show "awake (resumed t s) x" if "Thread_timer x \<in> set (items (trows s) Hard_list) \<and>
        Thread_timer x \<notin> set (items (trows (resumed t s)) Hard_list)" for x
      using that aw unfolding tm rows by (auto split: if_splits)
  qed (use r in auto)
qed

lemma sched_ok_error [simp]: "sched_ok s \<Longrightarrow> sched_ok (upd_thread t (\<lambda>th. th\<lparr>thread_error := e\<rparr>) s)"
  by (rule sched_ok_upd_thread) simp_all

lemma timers_ok_error [simp]: "timers_ok s \<Longrightarrow> timers_ok (upd_thread t (\<lambda>th. th\<lparr>thread_error := e\<rparr>) s)"
  by (rule timers_ok_upd_thread) simp_all

lemma thread_timeout_ok:
  assumes s: "sched_ok s" and k: "timers_ok s" and t: "thread_stat (threads s t) = RT_THREAD_SUSPEND"
    and a: "home (trows s) (Thread_timer t) \<noteq> Some Hard_list"
  shows "\<exists>s'. thread_timeout t s = Some s' \<and> isr_step s s' \<and> awake s' t \<and>
    thread_error (threads s' t) = - RT_ETIMEOUT \<and>
    (\<forall>x. x \<noteq> t \<and> thread_stat (threads s x) = RT_THREAD_SUSPEND \<longrightarrow> threads s' x = threads s x)"
proof -
  define s1 where "s1 = upd_thread t (\<lambda>th. th\<lparr>thread_error := - RT_ETIMEOUT\<rparr>) s"
  define s2 where "s2 = unlink t s1"
  note lv = suspended_live [OF t]
  have ok1: "sched_ok s1" "timers_ok s1" using s k by (simp_all add: s1_def)
  have t1: "thread_stat (threads s1 t) = RT_THREAD_SUSPEND" using t by (simp add: s1_def)
  have l: "t \<noteq> 0" "prio_ok (threads s1 t)"
    using queue_okD(4) [OF sched_okD(1) [OF ok1(1)], of t] t1 suspended_live by auto
  have h: "home (tlists s2) t = None"
    by (simp add: s2_def items_remove [OF queue_okD(1) [OF sched_okD(1) [OF ok1(1)]]])
  have ok2: "sched_ok s2" "timers_ok s2" using ok1 t1 sched_ok_unlink by (simp_all add: s2_def)
  let ?s3 = "make_ready t s2"
  have ok3: "sched_ok ?s3" "timers_ok ?s3"
    using sched_ok_make_ready [OF ok2(1) _ h] timers_ok_make_ready [OF ok2(2), of t] t1 a
    by (auto simp: s2_def s1_def live_def)
  obtain s' where s': "rt_schedule ?s3 = Some s'" "isr_step ?s3 s'" "sched_frame ?s3 s'"
    using isr_step_schedule [OF ok3] by blast
  have "rt_schedule_insert_thread t s2 = Some ?s3"
    using l h by (intro insert_thread_make_ready) (auto simp: s2_def prio_ok_def)
  then have "thread_timeout t s = Some s'"
    using l(1) t thread_timer_facts(1) [OF k lv] s'(1)
    by (simp add: thread_timeout_def Let_def s1_def [symmetric] unlink_def [symmetric] s2_def [symmetric])
  moreover have "isr_step s ?s3"
    by (rule isr_stepI [OF ok3]) (auto simp: s2_def s1_def awake_def stat_simps)
  moreover have "awake ?s3 t" by (simp add: awake_def stat_simps)
  moreover have "thread_error (threads s' t) = - RT_ETIMEOUT"
    using sched_frame_thread(3) [OF s'(3), of t] by (simp add: s2_def s1_def)
  moreover have "threads s' x = threads s x" if "x \<noteq> t" "thread_stat (threads s x) = RT_THREAD_SUSPEND" for x
    using sched_frameD(2) [OF s'(3), of x] that by (simp add: s2_def s1_def)
  ultimately show ?thesis
    using isr_step_trans [OF _ s'(2)] isr_stepD(9) [OF s'(2)] by blast
qed

text \<open>The operations that application code may call from a timeout function or an interrupt: wherever
  their precondition holds they return, and their effect is an interrupt-safe step.\<close>

locale isr_op =
  fixes op :: "'a \<Rightarrow> kernel \<Rightarrow> kernel option"
    and pre :: "'a \<Rightarrow> kernel \<Rightarrow> bool"
  assumes op_step: "sched_ok s \<Longrightarrow> timers_ok s \<Longrightarrow> pre x s \<Longrightarrow> \<exists>s'. op x s = Some s' \<and> isr_step s s'"
begin

lemma op_after:
  assumes "isr_step s0 s" and "pre x s"
  shows "\<exists>s'. op x s = Some s' \<and> isr_step s0 s'"
  using op_step [OF isr_stepD(1,2) [OF assms(1)] assms(2)] isr_step_trans [OF assms(1)] by blast

text \<open>Any number of such calls in a row.\<close>

lemma op_sequence:
  assumes "isr_step s0 s" and "\<And>s x. x \<in> set xs \<Longrightarrow> isr_step s0 s \<Longrightarrow> pre x s"
  shows "\<exists>s'. foldr (\<lambda>x m. m \<bind> op x) xs (Some s) = Some s' \<and> isr_step s0 s'"
  using assms
proof (induction xs)
  case (Cons x xs)
  then obtain s' where "foldr (\<lambda>x m. m \<bind> op x) xs (Some s) = Some s'" "isr_step s0 s'" by auto
  then show ?case using op_after [of s0 s' x] Cons.prems(2) [of x s'] by auto
qed auto

end

interpretation timeout_op: isr_op thread_timeout
  "\<lambda>t s. thread_stat (threads s t) = RT_THREAD_SUSPEND \<and> home (trows s) (Thread_timer t) \<noteq> Some Hard_list"
  by unfold_locales (use thread_timeout_ok in blast)

section \<open>Serving the timer list\<close>

definition callbacks_ok :: "(nat \<Rightarrow> kernel \<Rightarrow> kernel option) \<Rightarrow> bool" where
  "callbacks_ok cb = (\<forall>n s. sched_ok s \<and> timers_ok s \<longrightarrow> (\<exists>s'. cb n s = Some s' \<and> isr_step s s'))"

definition periods_ok :: "kernel \<Rightarrow> bool" where
  "periods_ok s = (\<forall>m. tm_periodic (timers s m) \<longrightarrow> 0 < timer_init_tick (timers s m))"

definition due :: "kernel \<Rightarrow> tmid \<Rightarrow> bool" where
  "due s m = (rt_tick s - timeout_tick (timers s m) < RT_TICK_HALF)"

text \<open>The loop invariant: the list is sorted from the previous tick on.\<close>

definition check_inv :: "kernel \<Rightarrow> bool" where
  "check_inv s = (sched_ok s \<and> timers_ok s \<and> order_ok (rt_tick s - 1) 0x80000000 s \<and>
     items (trows s) Hard_check = [] \<and> periods_ok s)"

lemma due_ahead:
  assumes "ahead (now - 1) x < 0x80000000"
  shows "now - x < RT_TICK_HALF \<longleftrightarrow> ahead (now - 1) x \<le> 1"
proof -
  let ?a = "x - (now - 1)"
  have e: "now - x = 1 - ?a" by simp
  have "unat (1 - ?a) = (if unat ?a \<le> 1 then 1 - unat ?a else 1 + 2 ^ 32 - unat ?a)"
    by (subst unat_sub_if') simp
  then show ?thesis
    unfolding e ahead_def word_less_nat_alt using assms by (auto simp: ahead_def split: if_splits)
qed

lemma clear_active_id: "\<not> tm_active tm \<Longrightarrow> clear_active tm = tm"
  using and_not_id [of "timer_flag tm" 1] by (simp add: clear_active_def tm_active_def)

lemma upd_timer_id: "f (timers s m) = timers s m \<Longrightarrow> upd_timer m f s = s"
  by (simp add: upd_timer_def fun_upd_idem)

text \<open>Taking a timer off whatever list it is on.\<close>

definition dropped :: "tmid \<Rightarrow> kernel \<Rightarrow> kernel" where
  "dropped m s = upd_timer m clear_active (timer_remove m s)"

lemma dropped_timers: "timers (dropped m s) = (timers s)(m := clear_active (timers s m))"
  by (simp add: dropped_def)

lemma dropped_rows:
  assumes "lstore_ok (trows s)"
  shows "lstore_ok (trows (dropped m s))" and "home (trows (dropped m s)) = (home (trows s))(m := None)"
    and "items (trows (dropped m s)) h = without m (items (trows s) h)"
  using assms by (simp_all add: dropped_def lstore_ok_remove items_remove)

lemma dropped_fields [simp]:
  "threads (dropped m s) = threads s" "tlists (dropped m s) = tlists s"
  "ready_group (dropped m s) = ready_group s" "lock_nest (dropped m s) = lock_nest s"
  "current_thread (dropped m s) = current_thread s" "rt_tick (dropped m s) = rt_tick s"
  "obj_type (dropped m s) = obj_type s"
  by (simp_all add: dropped_def)

lemma timers_ok_dropped:
  assumes "timers_ok s"
  shows "timers_ok (dropped m s)"
proof (rule timers_okI)
  note r = dropped_rows [OF timers_okD(1) [OF assms], where m = m]
  show "lstore_ok (trows (dropped m s))" by (rule r)
  show "timer_ok (dropped m s) x" for x
    using timers_okD(2) [OF assms, of x] by (auto simp: timer_ok_def r dropped_timers is_timer_def)
  show "thread_timer_ok (dropped m s) x" for x
    using timers_okD(3) [OF assms, of x]
    by (auto simp: thread_timer_ok_def r dropped_timers is_timer_def is_thread_def)
qed

lemma sched_ok_dropped [simp]: "sched_ok (dropped m s) = sched_ok s"
  by (simp add: sched_ok_def queue_ok_def)

lemma order_ok_dropped:
  assumes "lstore_ok (trows s)" and "order_ok b k s"
  shows "order_ok b k (dropped m s)"
proof -
  have "timeout_tick (timers (dropped m s) x) = timeout_tick (timers s x)" for x
    by (simp add: dropped_timers)
  then show ?thesis
    using assms(2) by (auto simp: order_ok_def row_ok_def dropped_rows [OF assms(1)] sorted_filter_map)
qed

text \<open>The state in which the timeout function runs: the timer hangs on the local list.\<close>

definition popped :: "tmid \<Rightarrow> kernel \<Rightarrow> kernel" where
  "popped t s =
     (let s1 = timer_remove t s;
          s2 = (if \<not> tm_periodic (timers s1 t) then upd_timer t clear_active s1 else s1)
      in s2\<lparr>trows := ls_set Hard_check [t] t (trows s2)\<rparr>)"

lemma popped_fields [simp]:
  "threads (popped t s) = threads s" "tlists (popped t s) = tlists s"
  "ready_group (popped t s) = ready_group s" "lock_nest (popped t s) = lock_nest s"
  "current_thread (popped t s) = current_thread s" "rt_tick (popped t s) = rt_tick s"
  "obj_type (popped t s) = obj_type s"
  by (simp_all add: popped_def Let_def)

lemma popped_timers:
  "timers (popped t s) x = (if x = t \<and> \<not> tm_periodic (timers s t) then clear_active (timers s t) else timers s x)"
  by (auto simp: popped_def Let_def)

lemma popped_rows:
  assumes ok: "lstore_ok (trows s)" and c: "items (trows s) Hard_check = []"
    and h: "home (trows s) t = Some Hard_list"
  shows "lstore_ok (trows (popped t s))" "home (trows (popped t s)) = (home (trows s))(t := Some Hard_check)"
    "items (trows (popped t s)) Hard_list = without t (items (trows s) Hard_list)"
    "items (trows (popped t s)) Hard_check = [t]"
proof -
  have "lstore_ok (ls_set Hard_check ([] @ t # []) t (ls_remove t (trows s)))"
    by (rule lstore_ok_put [OF lstore_ok_remove [OF ok]]) (simp_all add: items_remove [OF ok] c)
  then show "lstore_ok (trows (popped t s))" by (simp add: popped_def Let_def)
qed (simp_all add: popped_def Let_def items_remove [OF ok])

lemma timers_ok_popped:
  assumes ok: "timers_ok s" and c: "items (trows s) Hard_check = []" and h: "home (trows s) t = Some Hard_list"
  shows "timers_ok (popped t s)"
proof (rule timers_okI)
  note r = popped_rows [OF timers_okD(1) [OF ok] c h]
  show "lstore_ok (trows (popped t s))" by (rule r)
  show "timer_ok (popped t s) x" for x
    using timers_okD(2) [OF ok, of x] by (auto simp: timer_ok_def r popped_timers is_timer_def)
  show "thread_timer_ok (popped t s) x" for x
    using timers_okD(3) [OF ok, of x]
    by (auto simp: thread_timer_ok_def r popped_timers is_timer_def is_thread_def)
qed

lemma sched_ok_popped [simp]: "sched_ok (popped t s) = sched_ok s"
  by (simp add: sched_ok_def queue_ok_def)

lemma run_popped:
  assumes inv: "check_inv s" and cb: "callbacks_ok cb" and h: "home (trows s) t = Some Hard_list"
  shows "\<exists>s1. run_timeout cb (timeout_func (timers s t)) (popped t s) = Some s1 \<and> isr_step (popped t s) s1 \<and>
    (\<forall>x. t = Thread_timer x \<longrightarrow> awake s1 x \<and> thread_error (threads s1 x) = - RT_ETIMEOUT \<and>
       (\<forall>y. y \<noteq> x \<and> thread_stat (threads s y) = RT_THREAD_SUSPEND \<longrightarrow> threads s1 y = threads s y)) \<and>
    (\<forall>n. t = Timer n \<longrightarrow> (\<exists>k. cb k (popped t s) = Some s1))"
proof (cases t)
  case (Thread_timer x)
  have ok: "sched_ok s" "timers_ok s" "items (trows s) Hard_check = []" using inv by (auto simp: check_inv_def)
  note r = popped_rows [OF timers_okD(1) [OF ok(2)] ok(3) h]
  have st: "thread_stat (threads s x) = RT_THREAD_SUSPEND"
    using timers_okD(3) [OF ok(2), of x] h Thread_timer by (simp add: thread_timer_ok_def)
  have "timeout_func (timers s t) = Thread_timeout x"
    using thread_timer_facts(3) [OF ok(2) suspended_live [OF st]] Thread_timer by simp
  moreover have "\<exists>s1. thread_timeout x (popped t s) = Some s1 \<and> isr_step (popped t s) s1 \<and> awake s1 x \<and>
      thread_error (threads s1 x) = - RT_ETIMEOUT \<and>
      (\<forall>y. y \<noteq> x \<and> thread_stat (threads (popped t s) y) = RT_THREAD_SUSPEND \<longrightarrow> threads s1 y = threads (popped t s) y)"
    by (rule thread_timeout_ok) (use ok st timers_ok_popped [OF ok(2,3) h] Thread_timer r in auto)
  ultimately show ?thesis using Thread_timer by (auto simp: run_timeout_def)
next
  case (Timer n)
  have ok: "sched_ok s" "timers_ok s" "items (trows s) Hard_check = []" using inv by (auto simp: check_inv_def)
  obtain k where "timeout_func (timers s t) = User_timeout k"
    using timers_okD(2) [OF ok(2), of t] Timer by (auto simp: timer_ok_def)
  moreover obtain s1 where "cb k (popped t s) = Some s1" "isr_step (popped t s) s1"
    using cb ok timers_ok_popped [OF ok(2,3) h] unfolding callbacks_ok_def by (metis sched_ok_popped)
  ultimately show ?thesis using Timer by (auto simp: run_timeout_def)
qed

text \<open>After the timeout function: the timer leaves the local list, and a periodic one starts again.\<close>

definition settled :: "tmid \<Rightarrow> kernel \<Rightarrow> kernel" where
  "settled t s = (if tm_periodic (timers s t) \<and> tm_active (timers s t) then armed t (dropped t s) else dropped t s)"

lemma timer_fire_eq:
  assumes c: "items (trows s) Hard_check = []" and ok: "timers_ok s" and h: "home (trows s) t = Some Hard_list"
    and r: "run_timeout cb (timeout_func (timers s t)) (popped t s) = Some s1" and st: "isr_step (popped t s) s1"
  shows "timer_fire cb t s = Some (settled t s1)"
proof -
  note rows = popped_rows [OF timers_okD(1) [OF ok] c h]
  let ?s0 = "if \<not> tm_periodic (timers (timer_remove t s) t) then upd_timer t clear_active (timer_remove t s)
    else timer_remove t s"
  have ins: "ls_insert_after Hard_check t (trows ?s0) = Some (ls_set Hard_check [t] t (trows ?s0))"
    using c by (simp add: ls_insert_after_def items_remove [OF timers_okD(1) [OF ok]])
  have pop: "?s0\<lparr>trows := ls_set Hard_check [t] t (trows ?s0)\<rparr> = popped t s" by (simp add: popped_def Let_def)
  have fn: "timeout_func (timers (popped t s) t) = timeout_func (timers s t)" by (simp add: popped_timers)
  have "timer_fire cb t s = run_timeout cb (timeout_func (timers (popped t s) t)) (popped t s) \<bind>
     (\<lambda>s. if items (trows s) Hard_check = [] then Some s
          else let s = timer_remove t s in
            if tm_periodic (timers s t) \<and> tm_active (timers s t)
            then rt_timer_start t (upd_timer t clear_active s) else Some s)"
    unfolding timer_fire_def Let_def ins bind.bind_lunit pop ..
  also have "\<dots> = (if tm_periodic (timers s1 t) \<and> tm_active (timers s1 t)
      then rt_timer_start t (dropped t s1) else Some (timer_remove t s1))"
    using isr_stepD(6) [OF st] by (simp add: fn r rows Let_def dropped_def)
  also have "\<dots> = Some (settled t s1)"
  proof (cases "tm_periodic (timers s1 t) \<and> tm_active (timers s1 t)")
    case True
    have "is_timer t s" "\<not> tm_soft (timers s t)"
      using timers_okD(2) [OF ok, of t] h by (auto simp: timer_ok_def)
    then have "is_timer t (dropped t s1)" "\<not> tm_soft (timers (dropped t s1) t)"
      using isr_stepD(4) [OF st] isr_stepD(7) [OF st, of t]
      by (auto simp: is_timer_def dropped_timers same_timing_def popped_timers)
    then have "rt_timer_start t (dropped t s1) = Some (armed t (dropped t s1))"
      using dropped_rows(1) [OF timers_okD(1) [OF isr_stepD(2) [OF st]]] by (rule timer_start_hard)
    then show ?thesis using True by (simp add: settled_def)
  next
    case False
    have "home (trows s1) t = Some Hard_check"
      using isr_stepD(6) [OF st] rows(4) lstore_okD(2) [OF timers_okD(1) [OF isr_stepD(2) [OF st]], of t Hard_check]
      by simp
    then have a: "tm_active (timers s1 t) = tm_active (timers (popped t s) t)" by (rule isr_stepD(8) [OF st])
    have "\<not> tm_active (timers s1 t)"
      using False isr_stepD(7) [OF st, of t] a by (auto simp: popped_timers same_timing_def split: if_splits)
    then have "dropped t s1 = timer_remove t s1"
      by (simp add: dropped_def upd_timer_id clear_active_id)
    then show ?thesis using False by (auto simp: settled_def)
  qed
  finally show ?thesis .
qed

lemma same_timing_order:
  assumes "\<And>m. same_timing (timers s m) (timers s' m)"
    and "\<exists>P. items (trows s') Hard_list = filter P (items (trows s) Hard_list)" and "order_ok b k s"
  shows "order_ok b k s'"
proof -
  have "timeout_tick (timers s' m) = timeout_tick (timers s m)" for m
    using assms(1) [of m] by (simp add: same_timing_def)
  then show ?thesis using assms(2,3) by (auto simp: order_ok_def row_ok_def sorted_filter_map)
qed

lemma settled_threads [simp]:
  "threads (settled t s) = threads s" "current_thread (settled t s) = current_thread s" "rt_tick (settled t s) = rt_tick s" "obj_type (settled t s) = obj_type s"
  by (simp_all add: settled_def)

lemma settled_same:
  "x \<noteq> t \<Longrightarrow> timers (settled t s) x = timers s x"
  "timer_init_tick (timers (settled t s) x) = timer_init_tick (timers s x)"
  "tm_periodic (timers (settled t s) x) = tm_periodic (timers s x)"
  "timeout_tick (timers (settled t s) t) = (if tm_periodic (timers s t) \<and> tm_active (timers s t)
     then rt_tick s + timer_init_tick (timers s t) else timeout_tick (timers s t))"
  by (auto simp: settled_def armed_timers dropped_timers)

lemma settled_items:
  assumes "lstore_ok (trows s)" and "t \<notin> set (items (trows s) Hard_list)"
  shows "set (items (trows (settled t s)) Hard_list) =
      (if tm_periodic (timers s t) \<and> tm_active (timers s t) then insert t (set (items (trows s) Hard_list))
       else set (items (trows s) Hard_list))"
    and "items (trows (settled t s)) Hard_check = without t (items (trows s) Hard_check)"
  using assms(2) dropped_rows [OF assms(1), where m = t]
  by (simp_all add: settled_def armed_rows)

text \<open>The sequence of due timers left to serve strictly shrinks.\<close>

lemma settled_due:
  assumes ok: "lstore_ok (trows s)" and t: "t \<notin> set (items (trows s) Hard_list)" and "\<not> due (settled t s) t"
  shows "filter (due (settled t s)) (items (trows (settled t s)) Hard_list) =
    filter (due s) (items (trows s) Hard_list)"
proof -
  let ?xs = "items (trows s) Hard_list"
  have d: "due (settled t s) x = due s x" if "x \<in> set ?xs" for x
    using that t settled_same(1) [of x t s] by (cases "x = t") (auto simp: due_def)
  have "filter (due (settled t s)) (items (trows (settled t s)) Hard_list) = filter (due (settled t s)) ?xs"
  proof (cases "tm_periodic (timers s t) \<and> tm_active (timers s t)")
    case True
    have "items (trows (settled t s)) Hard_list =
        insert_row (\<lambda>x. timeout_tick (timers (armed t (dropped t s)) x)) t ?xs"
      using True t dropped_rows [OF ok, where m = t] by (simp add: settled_def armed_rows)
    then show ?thesis
      using insert_row_split [of ?xs "\<lambda>x. timeout_tick (timers (armed t (dropped t s)) x)" t] assms(3) by auto
  next
    case False
    then have "items (trows (settled t s)) Hard_list = ?xs"
      using t dropped_rows [OF ok, where m = t] by (auto simp: settled_def)
    then show ?thesis by simp
  qed
  also have "\<dots> = filter (due s) ?xs" by (rule filter_cong) (use d in auto)
  finally show ?thesis .
qed

lemma not_due_restarted:
  assumes "0 < (i :: u32)" and "i < RT_TICK_HALF"
  shows "\<not> now - (now + i) < RT_TICK_HALF"
proof -
  have "ahead (now - 1) (now + i) = unat i + 1"
  proof -
    have e: "now + i - (now - 1) = i + 1" by simp
    have "unat (i + 1) = unat i + 1"
      using assms(2) by (subst unat_word_ariths) (simp add: word_less_nat_alt)
    then show ?thesis unfolding ahead_def e .
  qed
  then show ?thesis
    using due_ahead [of now "now + i"] assms by (simp add: word_less_nat_alt)
qed

lemma check_inv_settled:
  assumes ok: "sched_ok s1" "timers_ok s1" and o: "order_ok (rt_tick s1 - 1) 0x80000000 s1"
    and c: "items (trows s1) Hard_check = [t]" and p: "periods_ok s1"
    and m: "is_timer t s1" "\<not> tm_soft (timers s1 t)"
    and th: "\<And>x. t = Thread_timer x \<Longrightarrow> \<not> tm_periodic (timers s1 t)"
  shows "check_inv (settled t s1)"
proof -
  note ls = timers_okD(1) [OF ok(2)]
  have h: "home (trows s1) t = Some Hard_check" using lstore_okD(2) [OF ls, of t Hard_check] c by simp
  then have n: "t \<notin> set (items (trows s1) Hard_list)" using lstore_okD(2) [OF ls, of t Hard_list] by simp
  note td = timers_ok_dropped [OF ok(2), of t] and od = order_ok_dropped [OF ls o, of t]
  let ?i = "timer_init_tick (timers s1 t)"
  have i: "unat ?i < 0x7FFFFFFF" using timers_okD(2) [OF ok(2), of t] by (simp add: timer_ok_def word_less_nat_alt)
  have ah: "ahead (rt_tick s1 - 1) (rt_tick s1 + ?i) = unat ?i + 1"
  proof -
    have e: "rt_tick s1 + ?i - (rt_tick s1 - 1) = ?i + 1" by simp
    have "unat (?i + 1) = unat ?i + 1" using i by (subst unat_word_ariths) simp
    then show ?thesis unfolding ahead_def e .
  qed
  have "timers_ok (armed t (dropped t s1))" if "tm_periodic (timers s1 t)"
    by (rule timers_ok_armed [OF td]) (use m that th in \<open>auto simp: is_timer_def dropped_timers\<close>)
  moreover have "order_ok (rt_tick s1 - 1) 0x80000000 (armed t (dropped t s1))"
    by (rule order_ok_armed [OF td od]) (use i ah in \<open>simp_all add: dropped_timers\<close>)
  moreover have "sched_ok (armed t (dropped t s1))"
    using ok(1) by (simp add: sched_ok_def queue_ok_def)
  moreover have "items (trows (settled t s1)) Hard_check = []"
    using settled_items(2) [OF ls n] c by simp
  moreover have "periods_ok (settled t s1)" using p by (simp add: periods_ok_def settled_same)
  ultimately show ?thesis using td od ok(1) by (auto simp: check_inv_def settled_def)
qed

text \<open>What serving timers does to the rest: the tick stands, nobody falls asleep, a thread whose timer left
  the list was woken, and every pending deadline is an old one or that of a restarted periodic timer.\<close>

definition served :: "kernel \<Rightarrow> kernel \<Rightarrow> bool" where
  "served s s' =
     (rt_tick s' = rt_tick s \<and> (current_thread s' = current_thread s \<or> awake s' (current_thread s')) \<and>
      (\<forall>x. awake s x \<longrightarrow> awake s' x) \<and>
      (\<forall>x. Thread_timer x \<in> set (items (trows s) Hard_list) \<and>
         Thread_timer x \<notin> set (items (trows s') Hard_list) \<longrightarrow> awake s' x) \<and>
      (\<forall>m. timer_init_tick (timers s' m) = timer_init_tick (timers s m) \<and>
         tm_periodic (timers s' m) = tm_periodic (timers s m)) \<and>
      (\<forall>m \<in> set (items (trows s') Hard_list).
         m \<in> set (items (trows s) Hard_list) \<and> timeout_tick (timers s' m) = timeout_tick (timers s m) \<or>
         tm_periodic (timers s m) \<and> timeout_tick (timers s' m) = rt_tick s + timer_init_tick (timers s m)))"

lemma served_refl: "served s s"
  by (simp add: served_def)

lemma served_trans: "served s s' \<Longrightarrow> served s' s'' \<Longrightarrow> served s s''"
  unfolding served_def by (intro conjI; metis)

text \<open>A timeout function that ran from \<open>s0\<close> to \<open>s1\<close>, with the timer \<open>t\<close> on the local list.\<close>

lemma settled_count:
  assumes ls: "lstore_ok (trows s1)" and n: "t \<notin> set (items (trows s1) Hard_list)"
    and P: "items (trows s1) Hard_list = filter P ts" and ds: "\<And>x. due s1 x = due s x"
    and nd: "tm_periodic (timers s1 t) \<and> tm_active (timers s1 t) \<Longrightarrow> \<not> due (settled t s1) t"
  shows "length (filter (due (settled t s1)) (items (trows (settled t s1)) Hard_list)) \<le> length (filter (due s) ts)"
proof -
  have "filter (due (settled t s1)) (items (trows (settled t s1)) Hard_list) =
      filter (due s1) (items (trows s1) Hard_list)"
  proof (cases "tm_periodic (timers s1 t) \<and> tm_active (timers s1 t)")
    case False
    have "items (trows (settled t s1)) Hard_list = items (trows s1) Hard_list"
      using False n by (auto simp: settled_def dropped_rows [OF ls])
    moreover have "due (settled t s1) x = due s1 x" if "x \<in> set (items (trows s1) Hard_list)" for x
      using that n settled_same(1) [of x t s1] by (cases "x = t") (auto simp: due_def)
    ultimately show ?thesis by (auto intro: filter_cong)
  qed (use settled_due [OF ls n] nd in blast)
  also have "\<dots> = filter P (filter (due s) ts)"
    unfolding P filter_filter by (rule filter_cong) (auto simp: ds)
  finally show ?thesis by (metis length_filter_le)
qed

lemma settled_served:
  assumes st: "isr_step s0 s1" and i0: "items (trows s) Hard_list = t # ts" "items (trows s0) Hard_list = ts"
    and n: "t \<notin> set ts" and aw: "\<And>x. awake s0 x = awake s x" and wk: "\<And>x. t = Thread_timer x \<Longrightarrow> awake s1 x"
    and same: "\<And>m. timeout_tick (timers s1 m) = timeout_tick (timers s m) \<and>
      timer_init_tick (timers s1 m) = timer_init_tick (timers s m) \<and>
      tm_periodic (timers s1 m) = tm_periodic (timers s m)"
    and tick: "rt_tick s1 = rt_tick s" and cur: "current_thread s0 = current_thread s"
  shows "served s (settled t s1)"
  unfolding served_def
proof (intro conjI allI impI ballI)
  let ?s' = "settled t s1"
  note ls1 = timers_okD(1) [OF isr_stepD(2) [OF st]]
  obtain P where P: "items (trows s1) Hard_list = filter P ts" using isr_stepD(5) [OF st] i0 by auto
  have n1: "t \<notin> set (items (trows s1) Hard_list)" using P n by simp
  show "awake ?s' x" if "awake s x" for x
    using isr_stepD(9) [OF st, of x] that aw by (simp add: awake_def)
  show "awake ?s' x" if "Thread_timer x \<in> set (items (trows s) Hard_list) \<and>
      Thread_timer x \<notin> set (items (trows ?s') Hard_list)" for x
  proof (cases "t = Thread_timer x")
    case False
    then have "Thread_timer x \<in> set (items (trows s0) Hard_list)" "Thread_timer x \<notin> set (items (trows s1) Hard_list)"
      using that i0 settled_items(1) [OF ls1 n1] by (auto split: if_splits)
    then show ?thesis using isr_stepD(10) [OF st, of x] by (simp add: awake_def)
  qed (use wk in \<open>simp add: awake_def\<close>)
  show "m \<in> set (items (trows s) Hard_list) \<and> timeout_tick (timers ?s' m) = timeout_tick (timers s m) \<or>
      tm_periodic (timers s m) \<and> timeout_tick (timers ?s' m) = rt_tick s + timer_init_tick (timers s m)"
    if "m \<in> set (items (trows ?s') Hard_list)" for m
    using that settled_items(1) [OF ls1 n1] P i0 n1
    by (cases "m = t") (auto simp: settled_same same tick split: if_splits)
  show "current_thread ?s' = current_thread s \<or> awake ?s' (current_thread ?s')"
    using isr_stepD(11) [OF st] cur by (auto simp: awake_def)
qed (simp_all add: tick settled_same same)

lemma order_ok_popped:
  assumes "order_ok b k s" and "lstore_ok (trows s)" and "items (trows s) Hard_check = []"
    and "home (trows s) t = Some Hard_list"
  shows "order_ok b k (popped t s)"
proof -
  have pt: "timeout_tick (timers (popped t s) m) = timeout_tick (timers s m)" for m by (simp add: popped_timers)
  show ?thesis
    using assms(1) unfolding order_ok_def row_ok_def popped_rows(3) [OF assms(2-4)] pt
    by (auto simp: sorted_filter_map)
qed

lemma restarted_not_due:
  assumes "timers_ok s" and "periods_ok s" and "tm_periodic (timers s t)" and "rt_tick s1 = rt_tick s"
    and "timeout_tick (timers s1 t) = rt_tick s + timer_init_tick (timers s t)"
  shows "\<not> due s1 t"
proof -
  have "0 < timer_init_tick (timers s t)" "timer_init_tick (timers s t) < RT_TICK_HALF"
    using assms(2,3) timers_okD(2) [OF assms(1), of t] by (auto simp: periods_ok_def timer_ok_def)
  then have "\<not> rt_tick s - (rt_tick s + timer_init_tick (timers s t)) < RT_TICK_HALF"
    by (rule not_due_restarted)
  then show ?thesis using assms(4,5) by (simp add: due_def)
qed

lemma fire_ok:
  assumes inv: "check_inv s" and cb: "callbacks_ok cb" and hd: "items (trows s) Hard_list = t # ts" and d: "due s t"
  shows "\<exists>s'. timer_fire cb t s = Some s' \<and> check_inv s' \<and> served s s' \<and>
    length (filter (due s') (items (trows s') Hard_list)) < length (filter (due s) (items (trows s) Hard_list))"
proof -
  have ok: "sched_ok s" "timers_ok s" "order_ok (rt_tick s - 1) 0x80000000 s"
    "items (trows s) Hard_check = []" "periods_ok s" using inv by (auto simp: check_inv_def)
  note ls = timers_okD(1) [OF ok(2)]
  have h: "home (trows s) t = Some Hard_list" using lstore_okD(2) [OF ls, of t Hard_list] hd by simp
  have ts: "t \<notin> set ts" using lstore_okD(1) [OF ls, of Hard_list] hd by simp
  have tm: "is_timer t s" "\<not> tm_soft (timers s t)" using timers_okD(2) [OF ok(2), of t] h by (auto simp: timer_ok_def)
  obtain s1 where run: "run_timeout cb (timeout_func (timers s t)) (popped t s) = Some s1"
    and st: "isr_step (popped t s) s1" and wk: "\<And>x. t = Thread_timer x \<Longrightarrow> awake s1 x"
    using run_popped [OF inv cb h] by metis
  note r0 = popped_rows [OF ls ok(4) h] and ls1 = timers_okD(1) [OF isr_stepD(2) [OF st]]
  have i0: "items (trows (popped t s)) Hard_list = ts" using r0(3) hd ts by simp
  obtain P where P: "items (trows s1) Hard_list = filter P ts" using isr_stepD(5) [OF st] i0 by auto
  have same: "timeout_tick (timers s1 m) = timeout_tick (timers s m)"
    "timer_init_tick (timers s1 m) = timer_init_tick (timers s m)"
    "tm_periodic (timers s1 m) = tm_periodic (timers s m)" "tm_soft (timers s1 m) = tm_soft (timers s m)" for m
    using isr_stepD(7) [OF st, of m] by (auto simp: same_timing_def popped_timers)
  have tick: "rt_tick s1 = rt_tick s" using isr_stepD(3) [OF st] by simp
  have th: "\<not> tm_periodic (timers s t)" if "t = Thread_timer x" for x
    using that timers_okD(3) [OF ok(2), of x] h thread_timer_facts(4) [OF ok(2), of x]
    by (auto simp: thread_timer_ok_def live_def)
  have o1: "order_ok (rt_tick s1 - 1) 0x80000000 s1"
    using same_timing_order [of "popped t s" s1] isr_stepD(5,7) [OF st] tick order_ok_popped [OF ok(3) ls ok(4) h]
    by auto
  have "check_inv (settled t s1)"
    by (rule check_inv_settled [OF isr_stepD(1,2) [OF st] o1])
      (use isr_stepD(6) [OF st] r0 ok(5) same tm th isr_stepD(4) [OF st] in \<open>auto simp: periods_ok_def is_timer_def\<close>)
  moreover have "served s (settled t s1)"
    by (rule settled_served [OF st hd i0 ts]) (use wk same tick in \<open>auto simp: awake_def\<close>)
  moreover have "length (filter (due (settled t s1)) (items (trows (settled t s1)) Hard_list)) \<le> length (filter (due s) ts)"
  proof (rule settled_count [OF ls1 _ P])
    show "\<not> due (settled t s1) t" if "tm_periodic (timers s1 t) \<and> tm_active (timers s1 t)"
      by (rule restarted_not_due [OF ok(2,5)]) (use that in \<open>auto simp: same tick settled_same\<close>)
  qed (use P ts in \<open>auto simp: due_def same tick\<close>)
  ultimately show ?thesis
    using timer_fire_eq [OF ok(4,2) h run st] hd d by (intro exI [of _ "settled t s1"]) auto
qed

text \<open>In a sorted list, a first timer that is not due means that none is.\<close>

lemma none_due:
  assumes o: "order_ok (rt_tick s - 1) 0x80000000 s" and hd: "items (trows s) Hard_list = t # ts" and "\<not> due s t"
  shows "\<forall>m \<in> set (items (trows s) Hard_list). \<not> due s m"
proof
  fix m
  assume m: "m \<in> set (items (trows s) Hard_list)"
  let ?a = "\<lambda>m. ahead (rt_tick s - 1) (timeout_tick (timers s m))"
  have "?a t < 0x80000000" "?a m < 0x80000000" "?a t \<le> ?a m"
    using o m hd by (auto simp: order_ok_def row_ok_def)
  moreover from this have "due s t = (?a t \<le> 1)" "due s m = (?a m \<le> 1)"
    unfolding due_def by (simp_all only: due_ahead)
  ultimately show "\<not> due s m" using assms(3) by auto
qed

lemma check_loop_ok:
  assumes "check_inv s" and cb: "callbacks_ok cb"
  shows "\<exists>s'. timer_check_loop cb (rt_tick s) s = Some s' \<and> check_inv s' \<and> served s s' \<and>
    (\<forall>m \<in> set (items (trows s') Hard_list). \<not> due s' m)"
  using assms(1)
proof (induction "length (filter (due s) (items (trows s) Hard_list))" arbitrary: s rule: less_induct)
  case less
  show ?case
  proof (cases "items (trows s) Hard_list")
    case Nil
    then show ?thesis using less.prems served_refl by (subst timer_check_loop.simps) auto
  next
    case (Cons t ts)
    show ?thesis
    proof (cases "due s t")
      case True
      obtain s1 where s1: "timer_fire cb t s = Some s1" "check_inv s1" "served s s1"
        "length (filter (due s1) (items (trows s1) Hard_list)) < length (filter (due s) (items (trows s) Hard_list))"
        using fire_ok [OF less.prems cb Cons True] by blast
      obtain s' where "timer_check_loop cb (rt_tick s1) s1 = Some s'" "check_inv s'" "served s1 s'"
        "\<forall>m \<in> set (items (trows s') Hard_list). \<not> due s' m"
        using less.hyps [OF s1(4) s1(2)] by blast
      then show ?thesis
        using True Cons s1 served_trans [OF s1(3)] by (subst timer_check_loop.simps) (auto simp: due_def)
    next
      case False
      then show ?thesis
        using less.prems Cons served_refl none_due [of s t ts]
        by (subst timer_check_loop.simps) (auto simp: due_def check_inv_def)
    qed
  qed
qed

text \<open>From one tick to the next: the base moves on by one.\<close>

lemma order_ok_tick:
  assumes "order_ok b 0x7FFFFFFF s"
  shows "order_ok b 0x80000000 s"
  using assms by (auto simp: order_ok_def row_ok_def dest!: bspec)

lemma ahead_next:
  assumes "1 \<le> ahead (now - 1) x"
  shows "ahead now x = ahead (now - 1) x - 1"
proof -
  have e: "x - now = x - (now - 1) - 1" by simp
  show ?thesis using assms unfolding ahead_def e by (subst unat_sub_if') auto
qed

lemma order_ok_none_due:
  assumes o: "order_ok (rt_tick s - 1) 0x80000000 s" and n: "\<forall>m \<in> set (items (trows s) Hard_list). \<not> due s m"
  shows "order_ok (rt_tick s) 0x7FFFFFFF s"
proof -
  let ?xs = "items (trows s) Hard_list"
  let ?a = "\<lambda>m. ahead (rt_tick s - 1) (timeout_tick (timers s m))"
  have a: "?a m < 0x80000000" "2 \<le> ?a m" if "m \<in> set ?xs" for m
  proof -
    show "?a m < 0x80000000" using o that by (auto simp: order_ok_def row_ok_def)
    then show "2 \<le> ?a m" using n that due_ahead [of "rt_tick s" "timeout_tick (timers s m)"] by (auto simp: due_def)
  qed
  have e: "ahead (rt_tick s) (timeout_tick (timers s m)) = ?a m - 1" if "m \<in> set ?xs" for m
    using a(2) [OF that] by (intro ahead_next) simp
  have "sorted (map (\<lambda>m. ?a m - 1) ?xs)"
    using o by (auto simp: order_ok_def row_ok_def sorted_map elim: sorted_wrt_mono_rel [rotated])
  moreover have me: "map (\<lambda>m. ahead (rt_tick s) (timeout_tick (timers s m))) ?xs = map (\<lambda>m. ?a m - 1) ?xs"
    using e by (intro map_cong) auto
  moreover have "ahead (rt_tick s) (timeout_tick (timers s m)) < 0x7FFFFFFF" if "m \<in> set ?xs" for m
    using a [OF that] e [OF that] by simp
  ultimately show ?thesis unfolding order_ok_def row_ok_def me by blast
qed

lemma timer_check_ok:
  assumes "check_inv s" and "callbacks_ok cb"
  shows "\<exists>s'. rt_timer_check cb s = Some s' \<and> kernel_ok s' \<and> check_inv s' \<and> served s s' \<and>
    (\<forall>m \<in> set (items (trows s') Hard_list). \<not> due s' m)"
proof -
  obtain s' where s': "timer_check_loop cb (rt_tick s) s = Some s'" "check_inv s'" "served s s'"
    "\<forall>m \<in> set (items (trows s') Hard_list). \<not> due s' m"
    using check_loop_ok [OF assms] by blast
  moreover have "kernel_ok s'"
    using s'(2) order_ok_none_due [OF _ s'(4)] by (simp add: check_inv_def kernel_ok_def)
  ultimately show ?thesis using assms(1) by (auto simp: rt_timer_check_def check_inv_def)
qed

section \<open>The tick interrupt\<close>

lemma set_yield_upd [simp]:
  "thread_stat (set_yield (th\<lparr>remaining_tick := x\<rparr>)) = thread_stat th"
  "live (set_yield (th\<lparr>remaining_tick := x\<rparr>)) = live th"
  by (simp_all add: stat_simps live_def)

text \<open>The part of \<^verbatim>\<open>rt_tick_increase\<close> before the timers are checked.\<close>

definition slice_used :: "kernel \<Rightarrow> kernel option" where
  "slice_used s =
     (let t = current_thread s;
          s = upd_thread t (\<lambda>th. th\<lparr>remaining_tick := remaining_tick th - 1\<rparr>) (s\<lparr>rt_tick := rt_tick s + 1\<rparr>)
      in if remaining_tick (threads s t) = 0
         then rt_schedule (upd_thread t (\<lambda>th. set_yield (th\<lparr>remaining_tick := init_tick th\<rparr>)) s)
         else Some s)"

lemma tick_increase_split:
  "current_thread s \<noteq> 0 \<Longrightarrow> rt_tick_increase cb s = slice_used s \<bind> rt_timer_check cb"
  by (simp add: rt_tick_increase_def slice_used_def Let_def)

lemma slice_used_ok:
  assumes ok: "kernel_ok s" and c: "items (trows s) Hard_check = []" and p: "periods_ok s"
  shows "\<exists>s'. slice_used s = Some s' \<and> check_inv s' \<and> rt_tick s' = rt_tick s + 1 \<and> timers s' = timers s \<and>
    trows s' = trows s \<and> (\<forall>x. awake s x \<longrightarrow> awake s' x) \<and>
    (current_thread s' = current_thread s \<or> awake s' (current_thread s')) \<and>
    (\<forall>x. thread_stat (threads s x) = RT_THREAD_SUSPEND \<and> x \<noteq> current_thread s \<longrightarrow> threads s' x = threads s x)"
proof -
  let ?c = "current_thread s"
  define s1 where "s1 = upd_thread ?c (\<lambda>th. th\<lparr>remaining_tick := remaining_tick th - 1\<rparr>) (s\<lparr>rt_tick := rt_tick s + 1\<rparr>)"
  define s2 where "s2 = upd_thread ?c (\<lambda>th. set_yield (th\<lparr>remaining_tick := init_tick th\<rparr>)) s1"
  have s0: "sched_ok (s\<lparr>rt_tick := rt_tick s + 1\<rparr>)" "timers_ok (s\<lparr>rt_tick := rt_tick s + 1\<rparr>)"
    using kernel_okD [OF ok]
    by (auto simp: sched_ok_def queue_ok_def timers_ok_def timer_ok_def thread_timer_ok_def is_timer_def is_thread_def)
  have ok1: "sched_ok s1" "timers_ok s1"
    unfolding s1_def by (intro sched_ok_upd_thread timers_ok_upd_thread s0; simp)+
  have ok2: "sched_ok s2" "timers_ok s2"
    unfolding s2_def by (intro sched_ok_upd_thread timers_ok_upd_thread ok1; simp)+
  have inv: "check_inv s'" if "sched_ok s'" "timers_ok s'" "timers s' = timers s" "trows s' = trows s"
    "rt_tick s' = rt_tick s + 1" for s'
    using that c p order_ok_tick [OF kernel_okD(3) [OF ok]] by (simp add: check_inv_def order_ok_def periods_ok_def)
  have sl: "slice_used s = (if remaining_tick (threads s1 ?c) = 0 then rt_schedule s2 else Some s1)"
    unfolding slice_used_def Let_def s1_def s2_def by simp
  show ?thesis
  proof (cases "remaining_tick (threads s1 ?c) = 0")
    case True
    obtain s' where s': "rt_schedule s2 = Some s'" "isr_step s2 s'" "sched_frame s2 s'"
      using isr_step_schedule [OF ok2] by blast
    note f = sched_frame_kernel [OF s'(3)]
    have "slice_used s = Some s'" using True s'(1) sl by simp
    moreover have "current_thread s' = ?c \<or> awake s' (current_thread s')"
      using isr_stepD(11) [OF s'(2)] by (auto simp: s2_def s1_def)
    moreover have "check_inv s'"
      by (rule inv) (use isr_stepD(1,2) [OF s'(2)] f in \<open>auto simp: s2_def s1_def\<close>)
    moreover have "awake s2 x = awake s x" for x by (simp add: awake_def s2_def s1_def)
    then have "awake s' x" if "awake s x" for x using isr_stepD(9) [OF s'(2), of x] that by simp
    moreover have "threads s' x = threads s x" if "thread_stat (threads s x) = RT_THREAD_SUSPEND" "x \<noteq> ?c" for x
      using that sched_frameD(2) [OF s'(3), of x] by (simp add: s2_def s1_def)
    ultimately show ?thesis using f by (auto simp: s2_def s1_def)
  next
    case False
    then have "slice_used s = Some s1" using sl by simp
    moreover have "check_inv s1" by (rule inv [OF ok1]) (simp_all add: s1_def)
    ultimately show ?thesis by (auto simp: s1_def awake_def)
  qed
qed

lemma tick_increase_ok:
  assumes ok: "kernel_ok s" and cur: "current_thread s \<noteq> 0" and c: "items (trows s) Hard_check = []"
    and p: "periods_ok s" and cb: "callbacks_ok cb"
  shows "\<exists>s'. rt_tick_increase cb s = Some s' \<and> kernel_ok s' \<and> rt_tick s' = rt_tick s + 1 \<and>
    (current_thread s' = current_thread s \<or> awake s' (current_thread s')) \<and>
    items (trows s') Hard_check = [] \<and> periods_ok s' \<and>
    (\<forall>m \<in> set (items (trows s') Hard_list). \<not> due s' m) \<and>
    (\<forall>x. Thread_timer x \<in> set (items (trows s) Hard_list) \<and>
       timeout_tick (timers s (Thread_timer x)) = rt_tick s + 1 \<longrightarrow> awake s' x)"
proof -
  obtain s1 where s1: "slice_used s = Some s1" "check_inv s1" "rt_tick s1 = rt_tick s + 1" "timers s1 = timers s"
    "trows s1 = trows s" "current_thread s1 = current_thread s \<or> awake s1 (current_thread s1)"
    using slice_used_ok [OF ok c p] by blast
  obtain s' where s': "rt_timer_check cb s1 = Some s'" "kernel_ok s'" "check_inv s'" "served s1 s'"
    "\<forall>m \<in> set (items (trows s') Hard_list). \<not> due s' m"
    using timer_check_ok [OF s1(2) cb] by blast
  have "awake s' x" if x: "Thread_timer x \<in> set (items (trows s) Hard_list)"
    "timeout_tick (timers s (Thread_timer x)) = rt_tick s + 1" for x
  proof (rule ccontr)
    assume a: "\<not> awake s' x"
    then have i: "Thread_timer x \<in> set (items (trows s') Hard_list)"
      using s'(4) x(1) s1(5) by (auto simp: served_def)
    have "thread_stat (threads s x) = RT_THREAD_SUSPEND"
      using timers_okD(1,3) [OF kernel_okD(2) [OF ok]] x(1) by (auto simp: lstore_okD(2) thread_timer_ok_def)
    then have "\<not> tm_periodic (timers s (Thread_timer x))"
      using thread_timer_facts(4) [OF kernel_okD(2) [OF ok] suspended_live] by blast
    then have "timeout_tick (timers s' (Thread_timer x)) = rt_tick s + 1"
      using i s'(4) x(2) s1(4) by (auto simp: served_def)
    moreover have "rt_tick s' = rt_tick s + 1" using s'(4) s1(3) by (simp add: served_def)
    ultimately show False using s'(5) i by (auto simp: due_def)
  qed
  then show ?thesis
    using tick_increase_split [OF cur] s1 s' by (auto simp: served_def check_inv_def)
qed

section \<open>A thread that waits for its timer\<close>

text \<open>Thread \<open>x\<close> is suspended with its timer pending.\<close>

definition pending :: "kernel \<Rightarrow> tid \<Rightarrow> bool" where
  "pending s x = (thread_stat (threads s x) = RT_THREAD_SUSPEND \<and> Thread_timer x \<in> set (items (trows s) Hard_list))"

text \<open>Application timeout functions that leave the sleeping thread \<open>x\<close> alone.\<close>

definition callbacks_spare :: "(nat \<Rightarrow> kernel \<Rightarrow> kernel option) \<Rightarrow> tid \<Rightarrow> bool" where
  "callbacks_spare cb x = (\<forall>n s s'. cb n s = Some s' \<and> thread_stat (threads s x) = RT_THREAD_SUSPEND \<longrightarrow>
     threads s' x = threads s x)"

lemma fire_spares:
  assumes inv: "check_inv s" and cb: "callbacks_ok cb" "callbacks_spare cb x"
    and hd: "items (trows s) Hard_list = t # ts" and x: "pending s x" "t \<noteq> Thread_timer x"
    and s': "timer_fire cb t s = Some s'"
  shows "pending s' x \<and> threads s' x = threads s x \<and>
    timeout_tick (timers s' (Thread_timer x)) = timeout_tick (timers s (Thread_timer x))"
proof -
  have ok: "timers_ok s" "items (trows s) Hard_check = []" using inv by (auto simp: check_inv_def)
  note ls = timers_okD(1) [OF ok(1)]
  have h: "home (trows s) t = Some Hard_list" using lstore_okD(2) [OF ls, of t Hard_list] hd by simp
  have sx: "thread_stat (threads s x) = RT_THREAD_SUSPEND" using x(1) by (simp add: pending_def)
  obtain s1 where run: "run_timeout cb (timeout_func (timers s t)) (popped t s) = Some s1"
    and st: "isr_step (popped t s) s1"
    and wk: "\<And>y z. t = Thread_timer y \<Longrightarrow> z \<noteq> y \<Longrightarrow> thread_stat (threads s z) = RT_THREAD_SUSPEND \<Longrightarrow>
      threads s1 z = threads s z" and us: "\<And>n. t = Timer n \<Longrightarrow> \<exists>k. cb k (popped t s) = Some s1"
    using run_popped [OF inv cb(1) h] by metis
  have th: "threads s1 x = threads s x"
    using wk [of _ x] us cb(2) sx x(2) unfolding callbacks_spare_def
    by (cases t) (auto, metis popped_fields(1))
  have n1: "t \<notin> set (items (trows s1) Hard_list)"
    using isr_stepD(5) [OF st] popped_rows(3) [OF ls ok(2) h] by auto
  have "Thread_timer x \<in> set (items (trows (popped t s)) Hard_list)"
    using popped_rows(3) [OF ls ok(2) h] x by (simp add: pending_def)
  then have "Thread_timer x \<in> set (items (trows s1) Hard_list)"
    using isr_stepD(10) [OF st, of x] th sx by (auto simp: awake_def)
  moreover have "timeout_tick (timers s1 (Thread_timer x)) = timeout_tick (timers s (Thread_timer x))"
    using isr_stepD(7) [OF st, of "Thread_timer x"] by (auto simp: same_timing_def popped_timers)
  moreover have "s' = settled t s1" using timer_fire_eq [OF ok(2,1) h run st] s' by simp
  ultimately show ?thesis
    using th sx x(2) settled_items(1) [OF timers_okD(1) [OF isr_stepD(2) [OF st]] n1]
    by (auto simp: pending_def settled_same)
qed

lemma check_loop_spares:
  assumes "check_inv s" and cb: "callbacks_ok cb" "callbacks_spare cb x"
    and "pending s x" and "\<not> due s (Thread_timer x)" and "timer_check_loop cb (rt_tick s) s = Some s'"
  shows "pending s' x \<and> threads s' x = threads s x \<and>
    timeout_tick (timers s' (Thread_timer x)) = timeout_tick (timers s (Thread_timer x))"
  using assms(1,4-6)
proof (induction "length (filter (due s) (items (trows s) Hard_list))" arbitrary: s rule: less_induct)
  case less
  show ?case
  proof (cases "items (trows s) Hard_list")
    case Nil
    then show ?thesis using less.prems(2) by (simp add: pending_def)
  next
    case (Cons t ts)
    show ?thesis
    proof (cases "due s t")
      case True
      obtain s1 where s1: "timer_fire cb t s = Some s1" "check_inv s1" "served s s1"
        "length (filter (due s1) (items (trows s1) Hard_list)) < length (filter (due s) (items (trows s) Hard_list))"
        using fire_ok [OF less.prems(1) cb(1) Cons True] by blast
      have sp: "pending s1 x \<and> threads s1 x = threads s x \<and>
          timeout_tick (timers s1 (Thread_timer x)) = timeout_tick (timers s (Thread_timer x))"
        using fire_spares [OF less.prems(1) cb Cons less.prems(2) _ s1(1)] True less.prems(3) by blast
      moreover have "\<not> due s1 (Thread_timer x)"
        using less.prems(3) sp s1(3) by (simp add: due_def served_def)
      moreover have "timer_check_loop cb (rt_tick s1) s1 = Some s'"
        using less.prems(4) True Cons s1(1) by (subst (asm) timer_check_loop.simps) (simp add: due_def)
      ultimately show ?thesis using less.hyps [OF s1(4,2)] by simp
    next
      case False
      then show ?thesis
        using less.prems(2,4) Cons by (subst (asm) timer_check_loop.simps) (auto simp: due_def)
    qed
  qed
qed

text \<open>One tick brings a waiting thread one tick closer to its timeout, and the last tick wakes it.\<close>

definition tick_ready :: "kernel \<Rightarrow> bool" where
  "tick_ready s = (kernel_ok s \<and> current_thread s \<noteq> 0 \<and> items (trows s) Hard_check = [] \<and> periods_ok s)"

lemma tick_closer:
  assumes r: "tick_ready s" and cb: "callbacks_ok cb" "callbacks_spare cb x"
    and x: "pending s x" "x \<noteq> current_thread s"
    and n: "ahead (rt_tick s) (timeout_tick (timers s (Thread_timer x))) = Suc (Suc n)"
  shows "\<exists>s'. rt_tick_increase cb s = Some s' \<and> tick_ready s' \<and> pending s' x \<and> threads s' x = threads s x \<and>
    x \<noteq> current_thread s' \<and> ahead (rt_tick s') (timeout_tick (timers s' (Thread_timer x))) = Suc n"
proof -
  have k: "kernel_ok s" "current_thread s \<noteq> 0" "items (trows s) Hard_check = []" "periods_ok s"
    using r by (auto simp: tick_ready_def)
  obtain s' where s': "rt_tick_increase cb s = Some s'" "kernel_ok s'" "rt_tick s' = rt_tick s + 1"
    "current_thread s' = current_thread s \<or> awake s' (current_thread s')" "items (trows s') Hard_check = []"
    "periods_ok s'"
    using tick_increase_ok [OF k cb(1)] by blast
  obtain s1 where s1: "slice_used s = Some s1" "check_inv s1" "rt_tick s1 = rt_tick s + 1" "timers s1 = timers s"
    "trows s1 = trows s" "threads s1 x = threads s x"
    using slice_used_ok [OF k(1,3,4)] x by (auto simp: pending_def)
  let ?t = "timeout_tick (timers s (Thread_timer x))"
  have lt: "ahead (rt_tick s) ?t < 0x7FFFFFFF"
    using kernel_okD(3) [OF k(1)] x(1) by (auto simp: order_ok_def row_ok_def pending_def)
  have e: "rt_tick s + 1 - 1 = rt_tick s" by simp
  have "rt_tick s + 1 - ?t < RT_TICK_HALF \<longleftrightarrow> ahead (rt_tick s + 1 - 1) ?t \<le> 1"
    by (rule due_ahead) (use lt in \<open>unfold e, linarith\<close>)
  then have nd: "\<not> due s1 (Thread_timer x)"
    unfolding due_def s1(3,4) e n by simp
  have lp: "timer_check_loop cb (rt_tick s1) s1 = Some s'"
    using s'(1) s1(1) tick_increase_split [OF k(2)] by (auto simp: rt_timer_check_def)
  have p1: "pending s1 x" using x(1) s1(5,6) by (simp add: pending_def)
  have sp: "pending s' x \<and> threads s' x = threads s1 x \<and> timeout_tick (timers s' (Thread_timer x)) = ?t"
    using check_loop_spares [OF s1(2) cb p1 nd lp] by (simp add: s1(4))
  moreover have "ahead (rt_tick s + 1) ?t = Suc n"
    using ahead_next [of "rt_tick s + 1" ?t] unfolding e n by simp
  moreover have "x \<noteq> current_thread s'"
    using s'(4) x sp by (auto simp: pending_def awake_def)
  ultimately show ?thesis
    using s' s1(6) k(2) awake_current [OF kernel_okD(1) [OF s'(2)]] by (auto simp: tick_ready_def)
qed

fun ticks :: "(nat \<Rightarrow> kernel \<Rightarrow> kernel option) \<Rightarrow> nat \<Rightarrow> kernel \<Rightarrow> kernel option" where
  "ticks cb 0 s = Some s"
| "ticks cb (Suc n) s = rt_tick_increase cb s \<bind> ticks cb n"

lemma tick_wakes:
  assumes r: "tick_ready s" and cb: "callbacks_ok cb" and x: "pending s x"
    and n: "ahead (rt_tick s) (timeout_tick (timers s (Thread_timer x))) = 1"
  shows "\<exists>s'. rt_tick_increase cb s = Some s' \<and> awake s' x"
proof -
  have "timeout_tick (timers s (Thread_timer x)) - rt_tick s = 1"
    using n unfolding ahead_def by (metis unat_1 unsigned_word_eqI)
  then have "timeout_tick (timers s (Thread_timer x)) = rt_tick s + 1" by (simp add: diff_eq_eq add.commute)
  then show ?thesis
    using tick_increase_ok [of s cb] r cb x by (auto simp: tick_ready_def pending_def)
qed

lemma waits_exactly:
  assumes "tick_ready s" and cb: "callbacks_ok cb" "callbacks_spare cb x"
    and "pending s x" and "x \<noteq> current_thread s"
    and "ahead (rt_tick s) (timeout_tick (timers s (Thread_timer x))) = Suc n"
  shows "(\<forall>k \<le> n. \<exists>s'. ticks cb k s = Some s' \<and> threads s' x = threads s x) \<and>
    (\<exists>s'. ticks cb (Suc n) s = Some s' \<and> awake s' x)"
  using assms(1,4-6)
proof (induction n arbitrary: s)
  case 0
  then show ?case using tick_wakes [of s cb x] cb(1) by auto
next
  case (Suc n)
  obtain s' where s': "rt_tick_increase cb s = Some s'" "tick_ready s'" "pending s' x" "threads s' x = threads s x"
    "x \<noteq> current_thread s'" "ahead (rt_tick s') (timeout_tick (timers s' (Thread_timer x))) = Suc n"
    using tick_closer [OF Suc.prems(1) cb Suc.prems(2,3,4)] by blast
  note ih = Suc.IH [OF s'(2,3,5,6)]
  have "\<exists>s''. ticks cb k s = Some s'' \<and> threads s'' x = threads s x" if "k \<le> Suc n" for k
    using that ih s'(1,4) by (cases k) auto
  moreover have "\<exists>s''. ticks cb (Suc (Suc n)) s = Some s'' \<and> awake s'' x"
    using ih s'(1) by auto
  ultimately show ?case by blast
qed

section \<open>A timer that starves the system\<close>

text \<open>A periodic timer of period zero restarts at the current tick, so it is due again at once.\<close>

definition zero_period :: "nat \<Rightarrow> kernel \<Rightarrow> bool" where
  "zero_period n s =
     (sched_ok s \<and> timers_ok s \<and> items (trows s) Hard_check = [] \<and> items (trows s) Hard_list = [Timer n] \<and>
      tm_periodic (timers s (Timer n)) \<and> timer_init_tick (timers s (Timer n)) = 0 \<and>
      timeout_tick (timers s (Timer n)) = rt_tick s)"

lemma zero_period_step:
  assumes z: "zero_period n s"
  shows "\<exists>s'. timer_fire (\<lambda>_. Some) (Timer n) s = Some s' \<and> zero_period n s'"
proof -
  let ?t = "Timer n"
  have ok: "sched_ok s" "timers_ok s" "items (trows s) Hard_check = []" "items (trows s) Hard_list = [?t]"
    using z by (auto simp: zero_period_def)
  note ls = timers_okD(1) [OF ok(2)]
  have h: "home (trows s) ?t = Some Hard_list" using lstore_okD(2) [OF ls, of ?t Hard_list] ok(4) by simp
  note tp = timers_ok_popped [OF ok(2,3) h] and r = popped_rows [OF ls ok(3) h]
  obtain k where "timeout_func (timers s ?t) = User_timeout k"
    using timers_okD(2) [OF ok(2), of ?t] by (auto simp: timer_ok_def)
  then have run: "run_timeout (\<lambda>_. Some) (timeout_func (timers s ?t)) (popped ?t s) = Some (popped ?t s)"
    by (simp add: run_timeout_def)
  have f: "timer_fire (\<lambda>_. Some) ?t s = Some (settled ?t (popped ?t s))"
    by (rule timer_fire_eq [OF ok(3,2) h run isr_step_refl]) (use ok tp in auto)
  have tm: "tm_active (timers s ?t)" "is_timer ?t s" "\<not> tm_soft (timers s ?t)"
    using timers_okD(2) [OF ok(2), of ?t] h by (auto simp: timer_ok_def)
  have se: "settled ?t (popped ?t s) = armed ?t (dropped ?t (popped ?t s))"
    using z tm(1) by (simp add: settled_def popped_timers zero_period_def)
  note d = dropped_rows [OF r(1), where m = ?t] and td = timers_ok_dropped [OF tp, of ?t]
  have "timers_ok (armed ?t (dropped ?t (popped ?t s)))"
    by (rule timers_ok_armed [OF td]) (use tm in \<open>auto simp: is_timer_def dropped_timers popped_timers\<close>)
  moreover have "sched_ok (armed ?t (dropped ?t (popped ?t s)))"
    using ok(1) by (simp add: sched_ok_def queue_ok_def)
  ultimately have "zero_period n (settled ?t (popped ?t s))"
    using z r(3,4) d ok(4)
    by (simp add: zero_period_def se armed_rows armed_timers dropped_timers popped_timers insert_row_def)
  then show ?thesis using f by blast
qed

lemma zero_period_loops:
  assumes "timer_check_loop cb tick s = Some s'"
  shows "cb = (\<lambda>_. Some) \<longrightarrow> tick = rt_tick s \<longrightarrow> \<not> zero_period n s"
proof (rule timer_check_loop.raw_induct [OF _ assms,
      where P = "\<lambda>cb tick s s'. cb = (\<lambda>_. Some) \<longrightarrow> tick = rt_tick s \<longrightarrow> \<not> zero_period n s"], intro impI notI)
  fix loop cb tick s s'
  assume ih: "\<And>cb tick s s'. loop cb tick s = Some s' \<Longrightarrow>
      cb = (\<lambda>_. Some) \<longrightarrow> tick = rt_tick s \<longrightarrow> \<not> zero_period n s"
    and body: "(case items (trows s) Hard_list of [] \<Rightarrow> Some s
      | t # _ \<Rightarrow> if tick - timeout_tick (timers s t) < RT_TICK_HALF
          then timer_fire cb t s \<bind> (\<lambda>s. loop cb (rt_tick s) s) else Some s) = Some s'"
    and cb: "cb = (\<lambda>_. Some)" and t: "tick = rt_tick s" and z: "zero_period n s"
  obtain s1 where s1: "timer_fire (\<lambda>_. Some) (Timer n) s = Some s1" "zero_period n s1"
    using zero_period_step [OF z] by blast
  have "loop cb (rt_tick s1) s1 = Some s'"
    using body z s1(1) cb t by (simp add: zero_period_def)
  then show False using ih cb s1(2) by blast
qed

lemma zero_period_hangs: "zero_period n s \<Longrightarrow> rt_timer_check (\<lambda>_. Some) s = None"
  using zero_period_loops [of "\<lambda>_. Some" "rt_tick s" s _ n]
  by (cases "timer_check_loop (\<lambda>_. Some) (rt_tick s) s") (auto simp: rt_timer_check_def rt_assert_def)

section \<open>Properties\<close>

lemma no_callbacks_ok: "callbacks_ok (\<lambda>_. Some)"
  by (simp add: callbacks_ok_def isr_step_refl)

lemma demo_tick_ready: "tick_ready demo_kernel"
proof -
  have "\<not> tm_periodic (timers demo_kernel m)" for m by (cases m) simp_all
  then show ?thesis by (simp add: tick_ready_def demo_kernel_full periods_ok_def empty_lstore_def)
qed

text \<open>C7. Starting a hard timer on a consistent kernel keeps it consistent and puts the timer at its place:
  the list stays sorted by remaining time although the tick counter wraps around, and a timer that
  expires together with others goes behind all of them, so that equal timeouts fire in the order in
  which they were started.\<close>

theorem timer_start_sorted:
  assumes "kernel_ok s" and "is_timer m s" and "\<not> tm_soft (timers s m)"
    and "\<And>t. m = Thread_timer t \<Longrightarrow> thread_stat (threads s t) = RT_THREAD_SUSPEND"
  defines "left \<equiv> \<lambda>s m. unat (timeout_tick (timers s m) - rt_tick s)"
  shows "\<exists>s' us vs. rt_timer_start m s = Some s' \<and> kernel_ok s' \<and> left s' m = unat (timer_init_tick (timers s m)) \<and>
    items (trows s') Hard_list = us @ m # vs \<and> without m (items (trows s) Hard_list) = us @ vs \<and>
    (\<forall>u \<in> set us. left s' u \<le> left s' m) \<and> (\<forall>v \<in> set vs. left s' m < left s' v)"
proof -
  let ?s' = "armed m s"
  let ?tt = "\<lambda>t. timeout_tick (timers ?s' t)"
  let ?xs = "without m (items (trows s) Hard_list)"
  note k = kernel_okD(2) [OF assms(1)]
  have i: "unat (timer_init_tick (timers s m)) < 0x7FFFFFFF"
    using timers_okD(2) [OF k, of m] by (simp add: timer_ok_def word_less_nat_alt)
  have am: "ahead (rt_tick s) (?tt m) = unat (timer_init_tick (timers s m))"
    by (simp add: armed_timers ahead_now)
  have ok': "kernel_ok ?s'" by (rule kernel_ok_armed [OF assms(1-4)])
  have tt: "?tt t = timeout_tick (timers s t)" if "t \<in> set ?xs" for t
    using that by (simp add: armed_timers)
  have me: "map (\<lambda>t. ahead (rt_tick s) (?tt t)) ?xs = map (\<lambda>t. ahead (rt_tick s) (timeout_tick (timers s t))) ?xs"
    by (rule map_cong) (use tt in auto)
  have r: "row_ok (rt_tick s) 0x7FFFFFFF ?tt ?xs"
    using kernel_okD(3) [OF assms(1)] tt unfolding row_ok_def order_ok_def me by (auto simp: sorted_filter_map)
  have m: "ahead (rt_tick s) (?tt m) < 0x7FFFFFFF" using i am by simp
  have lt: "ahead (rt_tick s) (?tt t) < ahead (rt_tick s) (?tt m) + 0x7FFFFFFF" if "t \<in> set ?xs" for t
    using r that by (auto simp: row_ok_def)
  obtain us vs where "?xs = us @ vs" "insert_row ?tt m ?xs = us @ m # vs"
    "\<And>t. t \<in> set us \<Longrightarrow> ahead (rt_tick s) (?tt t) \<le> ahead (rt_tick s) (?tt m)"
    "\<And>t. t \<in> set vs \<Longrightarrow> ahead (rt_tick s) (?tt m) < ahead (rt_tick s) (?tt t)"
    using insert_row_stable [OF r _ m lt] by auto
  then show ?thesis
    using timer_start_hard [OF assms(2,3) timers_okD(1) [OF k]] ok' am armed_rows(3) [OF timers_okD(1) [OF k], of m]
    unfolding left_def ahead_def by (intro exI [of _ ?s'] exI [of _ us] exI [of _ vs]) auto
qed

theorem timer_start_sorted_witness:
  "\<exists>s'. rt_timer_start (Thread_timer 5) demo_kernel = Some s' \<and> kernel_ok s'"
  using timer_start_sorted [OF demo_kernel_full, of "Thread_timer 5"] demo_objects [of 5] by auto



text \<open>A periodic timer with period zero, which \<^verbatim>\<open>rt_timer_init\<close> and \<^verbatim>\<open>rt_timer_control\<close> accept, makes
  \<^verbatim>\<open>rt_timer_check\<close> loop for ever in the tick interrupt, even with a timeout function that does
  nothing: it restarts at the current tick and is due again at once.\<close>

theorem zero_period_timer_hangs:
  assumes "zero_period n s"
  shows "rt_timer_check (\<lambda>_. Some) s = None"
  by (rule zero_period_hangs [OF assms])

definition hang_kernel :: kernel where
  "hang_kernel = demo_kernel\<lparr>
     timers := (timers demo_kernel)(Timer 9 := null_timer\<lparr>timer_flag := 0x3\<rparr>),
     trows := ls_set Hard_list [Timer 9] (Timer 9) (trows demo_kernel),
     obj_type := (obj_type demo_kernel)(Timer_obj (Timer 9) := 0x8a)\<rparr>"

lemma hang_kernel_zero: "zero_period 9 hang_kernel"
proof -
  have k: "timers_ok demo_kernel" "sched_ok demo_kernel" using kernel_okD [OF demo_kernel_full] by auto
  have fl: "tm_active (null_timer\<lparr>timer_flag := 3\<rparr>)" "tm_periodic (null_timer\<lparr>timer_flag := 3\<rparr>)"
    "\<not> tm_soft (null_timer\<lparr>timer_flag := 3\<rparr>)" "timeout_tick null_timer = 0"
    by (simp_all add: tm_active_def tm_periodic_def tm_soft_def null_timer_def)
  have "lstore_ok (ls_set Hard_list ([] @ Timer 9 # []) (Timer 9) (trows demo_kernel))"
    by (rule lstore_ok_put) (simp_all add: empty_lstore_def lstore_ok_def)
  then have "timers_ok hang_kernel"
    using timers_okD(2,3) [OF k(1)] fl
    by (auto simp: timers_ok_def timer_ok_def thread_timer_ok_def hang_kernel_def is_timer_def is_thread_def
        empty_lstore_def rt_object_get_type_def)
  moreover have "sched_ok hang_kernel" using k(2) by (simp add: sched_ok_def queue_ok_def hang_kernel_def)
  ultimately show ?thesis
    using fl by (simp add: zero_period_def hang_kernel_def empty_lstore_def)
qed

theorem zero_period_timer_hangs_witness: "rt_timer_check (\<lambda>_. Some) hang_kernel = None"
  by (rule zero_period_timer_hangs [OF hang_kernel_zero])

text \<open>\<^verbatim>\<open>rt_tick_from_millisecond\<close> rounds up to whole ticks of 10 ms and never overflows on a non-negative
  argument; a negative one gives \<^verbatim>\<open>RT_WAITING_FOREVER\<close>.\<close>

theorem tick_from_millisecond_rounds_up:
  assumes "- (2 ^ 31) \<le> ms" and "ms < 2 ^ 31"
  shows "rt_tick_from_millisecond ms =
      (if ms < 0 then 0xFFFFFFFF else word_of_int ((ms + 9) div 10)) \<and>
    (0 \<le> ms \<longrightarrow> uint (rt_tick_from_millisecond ms) = (ms + 9) div 10)"
proof -
  have r: "(100 * r + 999) div 1000 = (r + 9) div 10" for r :: int
    by (rule int_div_pos_eq [where r = "100 * ((r + 9) mod 10) + 99"]) (simp_all add: mod_div_decomp algebra_simps minus_div_mult_eq_mod [symmetric])
  have "ms + 9 = 10 * (100 * (ms div 1000)) + (ms mod 1000 + 9)" by simp
  then have e: "100 * (ms div 1000) + (100 * (ms mod 1000) + 999) div 1000 = (ms + 9) div 10"
    unfolding r by (simp only: div_mult_self4)
  have w: "rt_tick_from_millisecond ms = (if ms < 0 then 0xFFFFFFFF else word_of_int ((ms + 9) div 10))"
    unfolding rt_tick_from_millisecond_def of_int_add [symmetric] e by simp
  moreover have "uint (word_of_int ((ms + 9) div 10) :: u32) = (ms + 9) div 10" if "0 \<le> ms"
    using that assms(2) zdiv_mono1 [of "ms + 9" "2 ^ 31 + 9" 10] pos_imp_zdiv_nonneg_iff [of 10 "ms + 9"]
    by (simp add: unsigned_of_int take_bit_int_eq_self_iff)
  ultimately show ?thesis by simp
qed

theorem tick_from_millisecond_rounds_up_witness: "uint (rt_tick_from_millisecond 25) = 3"
  using tick_from_millisecond_rounds_up [of 25] by simp

text \<open>\<^verbatim>\<open>RT_TIMER_CTRL_GET_REMAIN_TIME\<close> answers with the absolute timeout tick: right after the start, that is
  the remaining time only when the clock reads zero.\<close>

lemma remain_time_is_absolute:
  assumes "kernel_ok s" and "is_timer m s" and "\<not> tm_soft (timers s m)" and "rt_timer_start m s = Some s'"
  shows "rt_timer_control m RT_TIMER_CTRL_GET_REMAIN_TIME arg s' =
      Some (rt_tick s + timer_init_tick (timers s m), s')"
  using assms timer_start_hard [OF assms(2,3) timers_okD(1) [OF kernel_okD(2) [OF assms(1)]]]
  by (auto simp: rt_timer_control_def is_timer_def armed_timers)

end
