(* ===== verification/Rt_Thread.thy ===== *)
theory Rt_Thread
  imports Rt_TimerRun
begin

text \<open>
  Thread management of \<^verbatim>\<open>src/thread.c\<close> with the initial stack frame of
  \<^verbatim>\<open>libcpu/aarch64/common/stack.c\<close>, the defunct list of \<^verbatim>\<open>src/idle.c\<close> and the interrupt nesting of
  \<^verbatim>\<open>src/irq.c\<close>.

  A function that blocks is cut at its \<^verbatim>\<open>rt_schedule\<close>: the first part ends with \<open>Blocked\<close> when another
  thread was switched in, and the part behind the call is a function of its own (\<open>\<dots>_resume\<close>) that the
  thread runs once it is the current thread again.
\<close>

section \<open>The initial stack frame\<close>

definition RT_ALIGN_DOWN :: "'a :: len word \<Rightarrow> 'a word \<Rightarrow> 'a word" where
  "RT_ALIGN_DOWN sz al = sz AND NOT (al - 1)"

text \<open>\<^verbatim>\<open>*(--stk) = w\<close> on the words pushed so far (lowest address first) and the stack pointer.\<close>

definition push_word :: "u64 \<Rightarrow> u64 list \<times> u64 \<Rightarrow> u64 list \<times> u64" where
  "push_word w fs = (w # fst fs, snd fs - 8)"

definition rt_hw_stack_init :: "u64 \<Rightarrow> u64 \<Rightarrow> u64 \<Rightarrow> u64 \<Rightarrow> u64 \<Rightarrow> u64 list \<times> u64" where
  "rt_hw_stack_init spsr tentry param stack_top texit =
     fold push_word
       (replicate 32 0 @
        [11, param, 33, 22, 55, 44, 77, 66, 99, 88, 11, 10, 13, 12, 15, 14, 17, 16, 19, 18, 21, 20,
         23, 22, 25, 24, 27, 26, 29, 28, 0, 0, 0, texit, spsr, tentry])
       ([], RT_ALIGN_DOWN stack_top 16)"

section \<open>Interrupt nesting\<close>

definition rt_interrupt_enter :: "kernel \<Rightarrow> kernel" where
  "rt_interrupt_enter s = s\<lparr>interrupt_nest := interrupt_nest s + 1\<rparr>"

definition rt_interrupt_leave :: "kernel \<Rightarrow> kernel" where
  "rt_interrupt_leave s = s\<lparr>interrupt_nest := interrupt_nest s - 1\<rparr>"

definition rt_interrupt_get_nest :: "kernel \<Rightarrow> u8" where
  "rt_interrupt_get_nest s = interrupt_nest s"

section \<open>Creation and start\<close>

definition rt_thread_self :: "kernel \<Rightarrow> tid" where
  "rt_thread_self s = current_thread s"

text \<open>\<^verbatim>\<open>_thread_init\<close>. The stack is filled with \<^verbatim>\<open>'#'\<close> (0x23) and the frame is built at its top; the address
  of \<^verbatim>\<open>_thread_exit\<close> and the initial status word, which the frame holds, are irrelevant to \<^verbatim>\<open>sp\<close>.\<close>

definition thread_init ::
    "tid \<Rightarrow> u64 \<Rightarrow> u64 \<Rightarrow> u64 \<Rightarrow> u32 \<Rightarrow> u8 \<Rightarrow> u32 \<Rightarrow> kernel \<Rightarrow> kernel option" where
  "thread_init t ent param stack_start sz priority tick s = do {
     l \<leftarrow> ls_init_node t (tlists s);
     let s = s\<lparr>tlists := l\<rparr>;
     let frame = rt_hw_stack_init 0 ent param (stack_start + ucast sz - 8) 0;
     rt_assert (unat priority < RT_THREAD_PRIORITY_MAX);
     let s = upd_thread t (\<lambda>th. th\<lparr>entry := ent, parameter := param,
       stack_addr := stack_start, stack_size := sz,
       stack_guard := (if sz = 0 then stack_guard th else 0x23), sp := snd frame,
       current_priority := priority, number_mask := 0, event_set := 0, event_info := 0,
       init_tick := ucast tick, remaining_tick := ucast tick, thread_error := RT_EOK,
       stat := RT_THREAD_INIT, cleanup := 0, user_data := 0\<rparr>) s;
     rt_timer_init (Thread_timer t) (obj_name s (Thread_obj t)) (Thread_timeout t) 0 0 s
   }"

definition rt_thread_init ::
    "tid \<Rightarrow> string \<Rightarrow> u64 \<Rightarrow> u64 \<Rightarrow> u64 \<Rightarrow> u32 \<Rightarrow> u8 \<Rightarrow> u32 \<Rightarrow> kernel \<Rightarrow> kernel option" where
  "rt_thread_init t name ent param stack_start sz priority tick s = do {
     rt_assert (t \<noteq> 0);
     rt_assert (stack_start \<noteq> 0);
     s \<leftarrow> rt_object_init (Thread_obj t) RT_Object_Class_Thread name s;
     thread_init t ent param stack_start sz priority tick s
   }"

text \<open>\<open>mem\<close> and \<open>stack\<close> are the results of the two allocations of \<^verbatim>\<open>rt_thread_create\<close>, \<open>None\<close> for \<^verbatim>\<open>RT_NULL\<close>.\<close>

definition rt_thread_create ::
    "tid option \<Rightarrow> u64 option \<Rightarrow> string \<Rightarrow> u64 \<Rightarrow> u64 \<Rightarrow> u32 \<Rightarrow> u8 \<Rightarrow> u32 \<Rightarrow> kernel \<Rightarrow> (tid option \<times> kernel) option" where
  "rt_thread_create mem stack name ent param sz priority tick s = do {
     (_, s) \<leftarrow> rt_object_allocate (map_option Thread_obj mem) RT_Object_Class_Thread name s;
     case mem of
       None \<Rightarrow> Some (None, s)
     | Some t \<Rightarrow>
         (case stack of
            None \<Rightarrow> do { s \<leftarrow> rt_object_delete (Thread_obj t) s; Some (None, s) }
          | Some stack_start \<Rightarrow> do {
              s \<leftarrow> thread_init t ent param stack_start sz priority tick s;
              Some (Some t, s)
            })
   }"

definition rt_thread_startup :: "tid \<Rightarrow> kernel \<Rightarrow> kernel option" where
  "rt_thread_startup t s = do {
     rt_assert (t \<noteq> 0);
     rt_assert (thread_stat (threads s t) = RT_THREAD_INIT);
     rt_assert (is_thread t s);
     let s = upd_thread t (\<lambda>th. th\<lparr>number_mask := prio_mask (current_priority th)\<rparr>) s;
     let s = upd_thread t (\<lambda>th. th\<lparr>stat := RT_THREAD_SUSPEND\<rparr>) s;
     (_, s) \<leftarrow> rt_thread_resume t s;
     if rt_thread_self s \<noteq> 0 then rt_schedule s else Some s
   }"

section \<open>Termination of threads\<close>

definition rt_thread_defunct_enqueue :: "tid \<Rightarrow> kernel \<Rightarrow> kernel option" where
  "rt_thread_defunct_enqueue t s = do {
     l \<leftarrow> ls_insert_after Defunct t (tlists s);
     Some (s\<lparr>tlists := l\<rparr>)
   }"

definition rt_thread_defunct_dequeue :: "kernel \<Rightarrow> tid option \<times> kernel" where
  "rt_thread_defunct_dequeue s =
     (case items (tlists s) Defunct of
        [] \<Rightarrow> (None, s)
      | t # _ \<Rightarrow> (Some t, s\<lparr>tlists := ls_remove t (tlists s)\<rparr>))"

text \<open>The common end of \<^verbatim>\<open>rt_thread_detach\<close>, \<^verbatim>\<open>rt_thread_delete\<close> and \<^verbatim>\<open>_thread_exit\<close>.\<close>

definition thread_close :: "tid \<Rightarrow> kernel \<Rightarrow> kernel option" where
  "thread_close t s = do {
     s \<leftarrow> rt_timer_detach (Thread_timer t) s;
     let s = upd_thread t (\<lambda>th. th\<lparr>stat := RT_THREAD_CLOSE\<rparr>) s;
     rt_thread_defunct_enqueue t s
   }"

definition thread_exit :: "kernel \<Rightarrow> kernel option" where
  "thread_exit s = do {
     let t = rt_thread_self s;
     s \<leftarrow> rt_schedule_remove_thread t s;
     s \<leftarrow> thread_close t s;
     rt_schedule s
   }"

definition rt_thread_detach :: "tid \<Rightarrow> kernel \<Rightarrow> (rt_err_t \<times> kernel) option" where
  "rt_thread_detach t s = do {
     rt_assert (is_thread t s);
     rt_assert (rt_object_is_systemobject (obj_type s (Thread_obj t)));
     if thread_stat (threads s t) = RT_THREAD_CLOSE then Some (RT_EOK, s)
     else do {
       s \<leftarrow> (if thread_stat (threads s t) \<noteq> RT_THREAD_INIT then rt_schedule_remove_thread t s else Some s);
       s \<leftarrow> thread_close t s;
       Some (RT_EOK, s)
     }
   }"

text \<open>\<^verbatim>\<open>rt_thread_delete\<close> asserts a dynamic object; its memory is released later, by the idle thread.\<close>

definition rt_thread_delete :: "tid \<Rightarrow> kernel \<Rightarrow> (rt_err_t \<times> kernel) option" where
  "rt_thread_delete t s = do {
     rt_assert (is_thread t s);
     rt_assert (\<not> rt_object_is_systemobject (obj_type s (Thread_obj t)));
     if thread_stat (threads s t) = RT_THREAD_CLOSE then Some (RT_EOK, s)
     else do {
       s \<leftarrow> (if thread_stat (threads s t) \<noteq> RT_THREAD_INIT then rt_schedule_remove_thread t s else Some s);
       s \<leftarrow> thread_close t s;
       Some (RT_EOK, s)
     }
   }"

section \<open>Yielding, sleeping\<close>

definition rt_thread_yield :: "kernel \<Rightarrow> kernel option" where
  "rt_thread_yield s = do {
     let t = rt_thread_self s;
     rt_assert (t \<noteq> 0);
     let s = upd_thread t (\<lambda>th. th\<lparr>remaining_tick := init_tick th\<rparr>) s;
     let s = upd_thread t set_yield s;
     rt_schedule s
   }"

datatype outcome = Returned rt_err_t | Blocked

text \<open>What follows the \<^verbatim>\<open>rt_schedule\<close> of \<^verbatim>\<open>rt_thread_sleep\<close>: a timeout is the normal end of a sleep.\<close>

definition sleep_resume :: "tid \<Rightarrow> kernel \<Rightarrow> rt_err_t \<times> kernel" where
  "sleep_resume t s =
     (let s = (if thread_error (threads s t) = - RT_ETIMEOUT
               then upd_thread t (\<lambda>th. th\<lparr>thread_error := RT_EOK\<rparr>) s else s)
      in (thread_error (threads s t), s))"

text \<open>Suspend, set and start the thread timer, and reschedule; shared by the sleeping functions.\<close>

definition sleep_for :: "tid \<Rightarrow> u32 \<Rightarrow> kernel \<Rightarrow> (outcome \<times> kernel) option" where
  "sleep_for t tick s = do {
     (_, s) \<leftarrow> rt_thread_suspend t s;
     (_, s) \<leftarrow> rt_timer_control (Thread_timer t) RT_TIMER_CTRL_SET_TIME tick s;
     s \<leftarrow> rt_timer_start (Thread_timer t) s;
     s \<leftarrow> rt_schedule s;
     if current_thread s \<noteq> t then Some (Blocked, s)
     else Some (let (e, s) = sleep_resume t s in (Returned e, s))
   }"

definition rt_thread_sleep :: "u32 \<Rightarrow> kernel \<Rightarrow> (outcome \<times> kernel) option" where
  "rt_thread_sleep tick s = do {
     let t = rt_thread_self s;
     rt_assert (is_thread t s);
     sleep_for t tick (upd_thread t (\<lambda>th. th\<lparr>thread_error := RT_EOK\<rparr>) s)
   }"

definition rt_thread_delay :: "u32 \<Rightarrow> kernel \<Rightarrow> (outcome \<times> kernel) option" where
  "rt_thread_delay tick s = rt_thread_sleep tick s"

definition rt_thread_mdelay :: "int \<Rightarrow> kernel \<Rightarrow> (outcome \<times> kernel) option" where
  "rt_thread_mdelay ms s = rt_thread_sleep (rt_tick_from_millisecond ms) s"

text \<open>\<^verbatim>\<open>rt_thread_delay_until\<close>: the result has the value of \<^verbatim>\<open>*tick\<close> afterwards.\<close>

definition rt_thread_delay_until :: "u32 \<Rightarrow> u32 \<Rightarrow> kernel \<Rightarrow> (outcome \<times> u32 \<times> kernel) option" where
  "rt_thread_delay_until tick inc_tick s = do {
     let t = rt_thread_self s;
     rt_assert (is_thread t s);
     let s = upd_thread t (\<lambda>th. th\<lparr>thread_error := RT_EOK\<rparr>) s;
     let cur_tick = rt_tick_get s;
     if cur_tick - tick < inc_tick then do {
       let tick = tick + inc_tick;
       let left_tick = tick - cur_tick;
       (r, s) \<leftarrow> sleep_for t left_tick s;
       Some (r, tick, s)
     }
     else Some (Returned (thread_error (threads s t)), cur_tick, s)
   }"

section \<open>Control\<close>

definition rt_thread_change_priority :: "tid \<Rightarrow> u8 \<Rightarrow> kernel \<Rightarrow> kernel option" where
  "rt_thread_change_priority t prio s =
     (if thread_stat (threads s t) = RT_THREAD_READY
      then do {
        s \<leftarrow> rt_schedule_remove_thread t s;
        let s = upd_thread t (\<lambda>th. th\<lparr>current_priority := prio, number_mask := prio_mask prio\<rparr>) s;
        rt_schedule_insert_thread t s
      }
      else Some (upd_thread t (\<lambda>th. th\<lparr>current_priority := prio, number_mask := prio_mask prio\<rparr>) s))"

abbreviation (input) RT_THREAD_CTRL_STARTUP :: int where "RT_THREAD_CTRL_STARTUP \<equiv> 0"
abbreviation (input) RT_THREAD_CTRL_CLOSE :: int where "RT_THREAD_CTRL_CLOSE \<equiv> 1"
abbreviation (input) RT_THREAD_CTRL_CHANGE_PRIORITY :: int where "RT_THREAD_CTRL_CHANGE_PRIORITY \<equiv> 2"

definition rt_thread_control :: "tid \<Rightarrow> int \<Rightarrow> u8 \<Rightarrow> kernel \<Rightarrow> (rt_err_t \<times> kernel) option" where
  "rt_thread_control t cmd arg s = do {
     rt_assert (is_thread t s);
     if cmd = RT_THREAD_CTRL_CHANGE_PRIORITY then do {
       s \<leftarrow> rt_thread_change_priority t arg s;
       Some (RT_EOK, s)
     }
     else if cmd = RT_THREAD_CTRL_STARTUP then do {
       s \<leftarrow> rt_thread_startup t s;
       Some (RT_EOK, s)
     }
     else if cmd = RT_THREAD_CTRL_CLOSE then do {
       (err, s) \<leftarrow> (if rt_object_is_systemobject (obj_type s (Thread_obj t))
                    then rt_thread_detach t s else rt_thread_delete t s);
       s \<leftarrow> rt_schedule s;
       Some (err, s)
     }
     else Some (RT_EOK, s)
   }"

definition rt_thread_find :: "string option \<Rightarrow> kernel \<Rightarrow> (obj option \<times> kernel) option" where
  "rt_thread_find name s = rt_object_find name RT_Object_Class_Thread s"

section \<open>System threads\<close>

text \<open>The stacks are placed by the linker: their addresses and those of the entry functions are
  arguments.\<close>

definition rt_system_timer_thread_init :: "u64 \<Rightarrow> u64 \<Rightarrow> kernel \<Rightarrow> kernel option" where
  "rt_system_timer_thread_init ent stack s = do {
     let s = s\<lparr>trows := (trows s)\<lparr>items := (items (trows s))(Soft_list := []),
        home := (\<lambda>m. if home (trows s) m = Some Soft_list then None else home (trows s) m)\<rparr>\<rparr>;
     s \<leftarrow> rt_thread_init timer_thread_addr ''timer'' ent 0 stack 4096 4 10 s;
     rt_thread_startup timer_thread_addr s
   }"

definition rt_thread_idle_init :: "u64 \<Rightarrow> u64 \<Rightarrow> kernel \<Rightarrow> kernel option" where
  "rt_thread_idle_init ent stack s = do {
     s \<leftarrow> rt_thread_init idle_thread_addr ''tidle0'' ent 0 stack 4096 31 32 s;
     rt_thread_startup idle_thread_addr s
   }"

section \<open>Sleeping\<close>

text \<open>Retuning a timer between two ticks.\<close>

lemma kernel_ok_set_time:
  assumes ok: "kernel_ok s" and x: "x < RT_TICK_HALF"
  shows "kernel_ok (upd_timer m (\<lambda>tm. tm\<lparr>timer_init_tick := x\<rparr>) s)" (is "kernel_ok ?s")
proof -
  have "sched_ok ?s" using kernel_okD(1) [OF ok] by (simp add: sched_ok_def queue_ok_def)
  moreover have "timers_ok ?s"
  proof (rule timers_okI)
    note k = kernel_okD(2) [OF ok]
    show "lstore_ok (trows ?s)" using timers_okD(1) [OF k] by simp
    show "timer_ok ?s y" for y
      using timers_okD(2) [OF k, of y] x by (auto simp: timer_ok_def is_timer_def)
    show "thread_timer_ok ?s y" for y
      using timers_okD(3) [OF k, of y] by (auto simp: thread_timer_ok_def is_timer_def is_thread_def)
  qed
  moreover have "timeout_tick (timers ?s y) = timeout_tick (timers s y)" for y by simp
  then have "order_ok (rt_tick s) 0x7FFFFFFF ?s"
    using kernel_okD(3) [OF ok] unfolding order_ok_def by simp
  ultimately show ?thesis by (simp add: kernel_ok_def)
qed

text \<open>The timer of thread \<open>t\<close>, set to \<open>x\<close> ticks and started.\<close>

definition timed :: "tid \<Rightarrow> u32 \<Rightarrow> kernel \<Rightarrow> kernel" where
  "timed t x s = armed (Thread_timer t) (upd_timer (Thread_timer t) (\<lambda>tm. tm\<lparr>timer_init_tick := x\<rparr>) s)"

lemma timed_fields [simp]:
  "threads (timed t x s) = threads s" "tlists (timed t x s) = tlists s"
  "ready_group (timed t x s) = ready_group s" "lock_nest (timed t x s) = lock_nest s"
  "current_thread (timed t x s) = current_thread s" "running_priority (timed t x s) = running_priority s"
  "interrupt_nest (timed t x s) = interrupt_nest s" "rt_tick (timed t x s) = rt_tick s"
  "soft_timer_busy (timed t x s) = soft_timer_busy s"
  "obj_type (timed t x s) = obj_type s" "obj_name (timed t x s) = obj_name s"
  "olists (timed t x s) = olists s" "sems (timed t x s) = sems s"
  "mutexes (timed t x s) = mutexes s" "events (timed t x s) = events s"
  "mailboxes (timed t x s) = mailboxes s" "mqueues (timed t x s) = mqueues s"
  "mempools (timed t x s) = mempools s"
  "memory (timed t x s) = memory s" "devices (timed t x s) = devices s" "errno (timed t x s) = errno s"
  by (simp_all add: timed_def)

text \<open>The two timer calls every timed wait makes.\<close>

lemma timed_ok:
  assumes ok: "kernel_ok s" and st: "thread_stat (threads s t) = RT_THREAD_SUSPEND" and x: "x < RT_TICK_HALF"
  shows "rt_timer_control (Thread_timer t) RT_TIMER_CTRL_SET_TIME x s =
      Some (x, upd_timer (Thread_timer t) (\<lambda>tm. tm\<lparr>timer_init_tick := x\<rparr>) s)"
    and "rt_timer_start (Thread_timer t) (upd_timer (Thread_timer t) (\<lambda>tm. tm\<lparr>timer_init_tick := x\<rparr>) s) =
      Some (timed t x s)"
    and "kernel_ok (timed t x s)"
    and "home (trows (timed t x s)) (Thread_timer t) = Some Hard_list"
    and "timeout_tick (timers (timed t x s) (Thread_timer t)) = rt_tick s + x"
    and "items (trows (timed t x s)) Hard_check = without (Thread_timer t) (items (trows s) Hard_check)"
    and "periods_ok s \<Longrightarrow> periods_ok (timed t x s)"
proof -
  let ?s = "upd_timer (Thread_timer t) (\<lambda>tm. tm\<lparr>timer_init_tick := x\<rparr>) s"
  note f = thread_timer_facts [OF kernel_okD(2) [OF ok] suspended_live [OF st]]
  have k: "kernel_ok ?s" by (rule kernel_ok_set_time [OF ok x])
  have im: "is_timer (Thread_timer t) ?s" using f(2) by (simp add: is_timer_def)
  note ls = timers_okD(1) [OF kernel_okD(2) [OF k]]
  show "rt_timer_control (Thread_timer t) RT_TIMER_CTRL_SET_TIME x s = Some (x, ?s)"
    using f(2) x by (simp add: rt_timer_control_def)
  show "rt_timer_start (Thread_timer t) ?s = Some (timed t x s)"
    unfolding timed_def by (rule timer_start_hard [OF im _ ls]) (use f(5) in simp)
  show "kernel_ok (timed t x s)"
    unfolding timed_def by (rule kernel_ok_armed [OF k im]) (use f(5) st in auto)
  show "home (trows (timed t x s)) (Thread_timer t) = Some Hard_list"
    "items (trows (timed t x s)) Hard_check = without (Thread_timer t) (items (trows s) Hard_check)"
    using ls by (simp_all add: timed_def armed_rows)
  show "timeout_tick (timers (timed t x s) (Thread_timer t)) = rt_tick s + x"
    by (simp add: timed_def armed_timers)
  show "periods_ok (timed t x s)" if "periods_ok s"
    using that f(4) by (auto simp: periods_ok_def timed_def armed_timers)
qed

definition running :: "kernel \<Rightarrow> bool" where
  "running s = (kernel_ok s \<and> thread_stat (threads s (current_thread s)) = RT_THREAD_RUNNING)"

lemma runningD:
  assumes "running s"
  shows "kernel_ok s" "thread_stat (threads s (current_thread s)) = RT_THREAD_RUNNING"
    "current_thread s \<noteq> 0" "is_thread (current_thread s) s"
proof -
  show r: "kernel_ok s" "thread_stat (threads s (current_thread s)) = RT_THREAD_RUNNING"
    using assms by (auto simp: running_def)
  show "current_thread s \<noteq> 0"
    using queue_okD(4) [OF sched_okD(1) [OF kernel_okD(1) [OF r(1)]] running_live [OF r(2)]] by simp
  show "is_thread (current_thread s) s" by (rule thread_timer_facts(1) [OF kernel_okD(2) [OF r(1)] running_live [OF r(2)]])
qed

lemma running_error [simp]:
  assumes "running s"
  shows "running (upd_thread t (\<lambda>th. th\<lparr>thread_error := e\<rparr>) s)"
  using assms kernel_ok_upd_thread [of s "\<lambda>th. th\<lparr>thread_error := e\<rparr>" t] by (auto simp: running_def)

text \<open>A sleeping call suspends the caller with its timer set, and hands over to another thread.\<close>

lemma sleep_for_blocks:
  assumes r: "running s" and x: "x < RT_TICK_HALF" and l: "lock_nest s = 0" and g: "ready_group s \<noteq> 0"
  shows "\<exists>s'. sleep_for (current_thread s) x s = Some (Blocked, s') \<and> kernel_ok s' \<and> runs_highest s' \<and>
    sched_frame (timed (current_thread s) x (suspended s)) s'"
proof -
  let ?c = "current_thread s"
  let ?s1 = "timed ?c x (suspended s)"
  note su = suspend_ok [OF runningD(1,2) [OF r]]
  have st: "thread_stat (threads (suspended s) ?c) = RT_THREAD_SUSPEND" by (simp add: stat_simps)
  note tm = timed_ok [OF su(2) st x]
  obtain s' where s': "rt_schedule ?s1 = Some s'" "kernel_ok s'" "sched_frame ?s1 s'" "runs_highest s'"
    using schedule_kernel_ok [OF tm(3)] l g by auto
  have "threads s' ?c = threads ?s1 ?c" using sched_frameD(2) [OF s'(3), of ?c] st by simp
  then have "current_thread s' \<noteq> ?c" using s'(4) st by (auto simp: runs_highest_def)
  then have "sleep_for ?c x s = Some (Blocked, s')"
    using su(1) tm(1,2) s'(1) by (simp add: sleep_for_def)
  then show ?thesis using s' by blast
qed

lemma sleeper_pending:
  assumes r: "running s" and x: "x < RT_TICK_HALF" and f: "sched_frame (timed (current_thread s) x (suspended s)) s'"
    and k: "kernel_ok s'" "runs_highest s'" and c: "items (trows s) Hard_check = []" and p: "periods_ok s"
  shows "tick_ready s'" and "pending s' (current_thread s)" and "current_thread s \<noteq> current_thread s'"
    and "ahead (rt_tick s') (timeout_tick (timers s' (Thread_timer (current_thread s)))) = unat x"
proof -
  let ?c = "current_thread s"
  let ?s1 = "timed ?c x (suspended s)"
  note su = suspend_ok [OF runningD(1,2) [OF r]]
  have st: "thread_stat (threads (suspended s) ?c) = RT_THREAD_SUSPEND" by (simp add: stat_simps)
  note tm = timed_ok [OF su(2) st x] and g = sched_frame_kernel [OF f]
  have th: "threads s' ?c = threads ?s1 ?c" using sched_frameD(2) [OF f, of ?c] st by simp
  have cs: "current_thread s' \<noteq> 0"
    using k(2) awake_current [OF kernel_okD(1) [OF k(1)], of "current_thread s'"]
    by (simp add: runs_highest_def awake_def)
  have nc: "items (trows (suspended s)) Hard_check = []"
    using stop_timer_rows(3) [OF timers_ok_running_to_suspend [OF kernel_okD(2) [OF runningD(1) [OF r]] running_live [OF runningD(2) [OF r]]]] c
    by (simp add: suspended_def)
  have ps: "periods_ok (suspended s)"
    using p by (simp add: periods_ok_def suspended_def stop_timer_same_ticks)
  show "tick_ready s'"
    using k(1) cs g tm(6) nc tm(7) [OF ps] by (simp add: tick_ready_def periods_ok_def)
  show "pending s' ?c"
    using th st g tm(4) lstore_okD(2) [OF timers_okD(1) [OF kernel_okD(2) [OF tm(3)]], of "Thread_timer ?c" Hard_list]
    by (simp add: pending_def)
  show "?c \<noteq> current_thread s'" using k(2) th st by (auto simp: runs_highest_def)
  show "ahead (rt_tick s') (timeout_tick (timers s' (Thread_timer ?c))) = unat x"
    using g tm(5) by (simp add: ahead_now)
qed

end
