(* ===== verification/Rt_ThreadProps.thy ===== *)
theory Rt_ThreadProps
  imports Rt_Thread
begin

text \<open>Properties of the thread operations of \<^verbatim>\<open>src/thread.c\<close>.\<close>

section \<open>Sleeping\<close>

lemma sleep_running:
  assumes "running s" and "1 \<le> n" and "n < RT_TICK_HALF" and "lock_nest s = 0" and "ready_group s \<noteq> 0"
    and "items (trows s) Hard_check = []" and "periods_ok s" and "callbacks_ok cb" "callbacks_spare cb (current_thread s)"
  shows "\<exists>s'. rt_thread_sleep n s = Some (Blocked, s') \<and> kernel_ok s' \<and> current_thread s' \<noteq> current_thread s \<and>
    thread_stat (threads s' (current_thread s)) = RT_THREAD_SUSPEND \<and>
    (\<forall>k < unat n. \<exists>s''. ticks cb k s' = Some s'' \<and> threads s'' (current_thread s) = threads s' (current_thread s)) \<and>
    (\<exists>s''. ticks cb (unat n) s' = Some s'' \<and> awake s'' (current_thread s))"
proof -
  let ?c = "current_thread s" and ?s = "upd_thread (current_thread s) (\<lambda>th. th\<lparr>thread_error := RT_EOK\<rparr>) s"
  have r: "running ?s" by (rule running_error [OF assms(1)])
  obtain s' where s': "sleep_for ?c n ?s = Some (Blocked, s')" "kernel_ok s'" "runs_highest s'"
    "sched_frame (timed ?c n (suspended ?s)) s'"
    using sleep_for_blocks [OF r assms(3)] assms(4,5) by auto
  have p: "periods_ok ?s" using assms(7) by (simp add: periods_ok_def)
  note f = sleeper_pending [of ?s n s', unfolded upd_thread_fields, OF r assms(3) s'(4,2,3) assms(6) p]
  have "unat n \<noteq> 0" using assms(2) by (metis unat_eq_zero word_le_0_iff zero_neq_one)
  then obtain m where m: "unat n = Suc m" using not0_implies_Suc by blast
  have "rt_thread_sleep n s = Some (Blocked, s')"
    using runningD(4) [OF assms(1)] s'(1) by (simp add: rt_thread_sleep_def rt_thread_self_def)
  moreover have "(\<forall>k \<le> m. \<exists>s''. ticks cb k s' = Some s'' \<and> threads s'' ?c = threads s' ?c) \<and>
    (\<exists>s''. ticks cb (Suc m) s' = Some s'' \<and> awake s'' ?c)"
    using f m by (intro waits_exactly assms(8,9)) auto
  moreover have "thread_stat (threads s' ?c) = RT_THREAD_SUSPEND" using f(2) by (simp add: pending_def)
  ultimately show ?thesis using s'(2) f(3) m by (auto simp: less_Suc_eq_le)
qed

section \<open>Yielding\<close>

text \<open>What the scheduler does with a running thread that gave up the processor to its list head \<open>t\<close>.\<close>

lemma schedule_yielding:
  assumes ok: "sched_ok s" and c: "thread_stat (threads s (current_thread s)) = RT_THREAD_RUNNING"
    and l: "lock_nest s = 0" and y: "yield_flag (threads s (current_thread s))" and top: "runs_highest s"
    and it: "items (tlists s) (Ready (unat (current_priority (threads s (current_thread s))))) = t # rest"
  shows "\<exists>s'. rt_schedule s = Some s' \<and> current_thread s' = t \<and>
    items (tlists s') (Ready (unat (current_priority (threads s (current_thread s))))) = current_thread s # rest"
proof -
  let ?c = "current_thread s" and ?p = "unat (current_priority (threads s (current_thread s)))"
  note q = sched_okD(1) [OF ok]
  have "home (tlists s) t = Some (Ready ?p)" using lstore_okD(2) [OF queue_okD(1) [OF q], of t "Ready ?p"] it by simp
  then have t: "thread_stat (threads s t) = RT_THREAD_READY" "unat (current_priority (threads s t)) = ?p"
    using queue_okD(3) [OF q, of t] by auto
  have d: "t \<notin> set rest" using lstore_okD(1) [OF queue_okD(1) [OF q], of "Ready ?p"] it by simp
  have hc: "home (tlists s) ?c = None" by (rule queue_ok_running_home [OF q c])
  show ?thesis
    using ok
  proof (cases rule: schedule_cases)
    case idle
    then show ?thesis using l t group_zero_iff [OF q] by auto
  next
    case (keep s1)
    have "current_priority (threads s ?c) < current_priority (threads s t)" by (rule keep(7) [OF y t(1)])
    then show ?thesis using t(2) by (simp add: word_less_nat_alt)
  next
    case (switch t' p rest')
    let ?s0 = "upd_thread ?c clear_yield s"
    have p: "p = ?p" using switch(7) [OF t(1)] switch(5,6) t(2) top by (auto simp: runs_highest_def word_le_nat_alt)
    then have eq: "t' = t" "rest' = rest" using switch(3) it by auto
    have q0: "queue_ok ?s0" by (rule queue_ok_upd_thread [OF q]) (simp_all add: stat_simps)
    let ?s1 = "ready_insert ?c (?s0\<lparr>running_priority := of_nat p, current_thread := t\<rparr>)"
    have tc: "t \<noteq> ?c" using switch(4) eq by simp
    have st0: "thread_stat (threads ?s0 x) = thread_stat (threads s x)" for x by (simp add: stat_simps)
    have run0: "x = current_thread ?s0" if "thread_stat (threads ?s0 x) = RT_THREAD_RUNNING" for x
      using sched_okD(2) [OF ok, of x] that st0 by simp
    have "schedule_switch t p True ?s0 = Some (upd_thread t (set_stat RT_THREAD_RUNNING) (ready_remove t ?s1))"
      using schedule_switch_ok(1) [of ?s0 t True p, OF q0 _ _ run0] t(1) tc c by (simp add: stat_simps)
    then have s3: "rt_schedule s = Some (upd_thread t (set_stat RT_THREAD_RUNNING) (ready_remove t ?s1))"
      using switch(9) c eq by simp
    have q1: "queue_ok ?s1"
      by (rule queue_ok_insert)
        (use q0 hc queue_okD(4) [OF q running_live [OF c]] in \<open>auto simp: queue_ok_def\<close>)
    have "items (tlists ?s1) (Ready ?p) = ?c # t # rest"
      using it by (simp add: ready_insert_items Let_def stat_simps)
    then have "items (tlists (ready_remove t ?s1)) (Ready ?p) = ?c # rest"
      using items_remove [OF queue_okD(1) [OF q1], of t] d tc by simp
    then show ?thesis using s3 by simp
  qed
qed

text \<open>A thread and its peers: the current thread runs, unlocked, and the ready list of its priority is
  \<open>ts\<close>.\<close>

definition peers :: "kernel \<Rightarrow> tid \<Rightarrow> tid list \<Rightarrow> bool" where
  "peers s c ts = (kernel_ok s \<and> runs_highest s \<and> lock_nest s = 0 \<and> current_thread s = c \<and>
     items (tlists s) (Ready (unat (current_priority (threads s c)))) = ts)"

lemma yield_step:
  assumes p: "peers s c (t # rest)"
  shows "\<exists>s'. rt_thread_yield s = Some s' \<and> peers s' t (c # rest)"
proof -
  let ?p = "unat (current_priority (threads s c))"
  have k: "kernel_ok s" "runs_highest s" "lock_nest s = 0" "current_thread s = c"
    "items (tlists s) (Ready ?p) = t # rest"
    using p by (auto simp: peers_def)
  have r: "thread_stat (threads s c) = RT_THREAD_RUNNING" using k(2,4) by (simp add: runs_highest_def)
  then have run: "running s" using k by (simp add: running_def)
  let ?s1 = "upd_thread c set_yield (upd_thread c (\<lambda>th. th\<lparr>remaining_tick := init_tick th\<rparr>) s)"
  have k1: "kernel_ok ?s1"
    by (intro kernel_ok_upd_thread k(1)) (auto simp: stat_simps)
  have th: "thread_stat (threads ?s1 x) = thread_stat (threads s x)"
    "current_priority (threads ?s1 x) = current_priority (threads s x)" for x
    by (auto simp: stat_simps)
  have h1: "runs_highest ?s1" using k(2) th by (auto simp: runs_highest_def)
  note q = sched_okD(1) [OF kernel_okD(1) [OF k(1)]]
  have rt: "thread_stat (threads s t) = RT_THREAD_READY" "unat (current_priority (threads s t)) = ?p"
    using queue_okD(3) [OF q, of t] lstore_okD(2) [OF queue_okD(1) [OF q], of t "Ready ?p"] k(5) by auto
  have g: "ready_group s \<noteq> 0" using group_zero_iff [OF q] rt by auto
  obtain s' where s': "rt_schedule ?s1 = Some s'" "kernel_ok s'" "sched_frame ?s1 s'" "runs_highest s'"
    using schedule_kernel_ok [OF k1] k(3) g by auto
  have y: "current_thread s' = t" "items (tlists s') (Ready ?p) = c # rest"
    using schedule_yielding [OF kernel_okD(1) [OF k1] _ _ _ h1, of t rest] k r s'(1) th(1) [of c]
    by (auto simp: stat_simps)
  have "current_priority (threads s' t) = current_priority (threads s t)"
    using sched_frame_thread [OF s'(3), of t] th(2) [of t] by simp
  then have "peers s' t (c # rest)"
    using s' y rt k(3) sched_frame_kernel [OF s'(3)] by (simp add: peers_def)
  moreover have "rt_thread_yield s = Some s'"
    using s'(1) runningD(3) [OF run] k(4) by (simp add: rt_thread_yield_def rt_thread_self_def)
  ultimately show ?thesis by blast
qed

fun yields :: "nat \<Rightarrow> kernel \<Rightarrow> kernel option" where
  "yields 0 s = Some s"
| "yields (Suc n) s = rt_thread_yield s \<bind> yields n"

lemma yields_alternate:
  assumes "peers s c (t # rest)"
  shows "\<exists>s'. yields n s = Some s' \<and> (if even n then peers s' c (t # rest) else peers s' t (c # rest))"
  using assms
proof (induction n arbitrary: s c t)
  case (Suc n)
  obtain s1 where s1: "rt_thread_yield s = Some s1" "peers s1 t (c # rest)"
    using yield_step [OF Suc.prems] by blast
  then show ?case using Suc.IH [OF s1(2)] by auto
qed auto

section \<open>Changing a priority\<close>

definition with_prio :: "u8 \<Rightarrow> rt_thread \<Rightarrow> rt_thread" where
  "with_prio prio th = th\<lparr>current_priority := prio, number_mask := prio_mask prio\<rparr>"

definition reprio :: "tid \<Rightarrow> u8 \<Rightarrow> kernel \<Rightarrow> kernel" where
  "reprio t prio s =
     (if thread_stat (threads s t) = RT_THREAD_READY
      then ready_insert t (upd_thread t (with_prio prio) (ready_remove t s))
      else upd_thread t (with_prio prio) s)"

lemma with_prio_fields [simp]:
  "current_priority (with_prio p th) = p" "number_mask (with_prio p th) = prio_mask p"
  "thread_stat (with_prio p th) = thread_stat th" "stat (with_prio p th) = stat th"
  "yield_flag (with_prio p th) = yield_flag th" "stack_check (with_prio p th) = stack_check th"
  "thread_error (with_prio p th) = thread_error th" "event_set (with_prio p th) = event_set th"
  "event_info (with_prio p th) = event_info th" "init_tick (with_prio p th) = init_tick th"
  "remaining_tick (with_prio p th) = remaining_tick th"
  by (simp_all add: with_prio_def thread_stat_def yield_flag_def stack_check_def)

lemma set_stat_twice: "v \<in> {1, 2, 3} \<Longrightarrow> set_stat w (set_stat v th) = set_stat w th"
proof -
  assume v: "v \<in> {1, 2, 3}"
  have "(v OR (x AND NOT 7)) AND NOT 7 = x AND NOT 7" for x :: u8
    using v by (auto simp: bit.conj_disj_distrib2 and.assoc)
  then show ?thesis by (simp add: set_stat_def)
qed

lemma reprio_fields [simp]:
  "lock_nest (reprio t p s) = lock_nest s" "current_thread (reprio t p s) = current_thread s"
  "running_priority (reprio t p s) = running_priority s"
  "interrupt_nest (reprio t p s) = interrupt_nest s" "rt_tick (reprio t p s) = rt_tick s"
  "timers (reprio t p s) = timers s" "trows (reprio t p s) = trows s"
  "soft_timer_busy (reprio t p s) = soft_timer_busy s" "random_nr (reprio t p s) = random_nr s"
  "obj_type (reprio t p s) = obj_type s" "obj_name (reprio t p s) = obj_name s"
  "olists (reprio t p s) = olists s" "sems (reprio t p s) = sems s"
  "mutexes (reprio t p s) = mutexes s" "events (reprio t p s) = events s"
  "mailboxes (reprio t p s) = mailboxes s" "mqueues (reprio t p s) = mqueues s"
  "mempools (reprio t p s) = mempools s"
  "memory (reprio t p s) = memory s" "devices (reprio t p s) = devices s" "errno (reprio t p s) = errno s"
  "threads (reprio t p s) = (threads s)(t := with_prio p (threads s t))"
  by (auto simp: reprio_def set_stat_id)

lemma queue_ok_reprio:
  assumes q: "queue_ok s" and t: "live (threads s t)" and p: "unat p < RT_THREAD_PRIORITY_MAX"
  shows "queue_ok (reprio t p s)"
proof (cases "thread_stat (threads s t) = RT_THREAD_READY")
  case True
  let ?f = "\<lambda>th. set_stat RT_THREAD_SUSPEND (with_prio p th)"
  have pt: "t \<noteq> 0" "prio_ok (threads s t)" using queue_okD(4) [OF q t] by auto
  have "queue_ok (upd_thread t ?f (ready_remove t s))"
    by (rule queue_ok_remove [OF q]) (use pt p in \<open>auto simp: prio_ok_def stat_simps\<close>)
  then have "queue_ok (ready_insert t (upd_thread t ?f (ready_remove t s)))"
    by (rule queue_ok_insert) (use pt p items_remove [OF queue_okD(1) [OF q], of t] in \<open>auto simp: prio_ok_def\<close>)
  moreover have "ready_insert t (upd_thread t ?f (ready_remove t s)) = reprio t p s"
    using True by (simp add: reprio_def ready_insert_def upd_thread_def set_stat_twice Let_def stat_simps)
  ultimately show ?thesis by simp
next
  case False
  have "home_ok (home (tlists s) t) (with_prio p (threads s t))"
    using queue_okD(3) [OF q, of t] False
    by (cases "(home (tlists s) t, threads s t)" rule: home_ok.cases) auto
  then show ?thesis
    using False p queue_okD [OF q] t
    by (auto simp: reprio_def queue_ok_def prio_ok_def live_def)
qed

lemma kernel_ok_reprio:
  assumes ok: "kernel_ok s" and t: "live (threads s t)" and p: "unat p < RT_THREAD_PRIORITY_MAX"
  shows "kernel_ok (reprio t p s)"
proof -
  have "sched_ok (reprio t p s)"
    using queue_ok_reprio [OF sched_okD(1) [OF kernel_okD(1) [OF ok]] t p] kernel_okD(1) [OF ok]
    by (auto simp: sched_ok_def)
  moreover have "timers_ok (reprio t p s)"
    by (rule timers_ok_threads [OF kernel_okD(2) [OF ok]])
      (use timers_okD(3) [OF kernel_okD(2) [OF ok]] in \<open>auto simp: live_def thread_timer_ok_def split: if_splits\<close>)
  moreover have "order_ok (rt_tick s) 0x7FFFFFFF (reprio t p s)"
    using kernel_okD(3) [OF ok] by (simp add: order_ok_def)
  ultimately show ?thesis by (simp add: kernel_ok_def)
qed

lemma change_priority_eq:
  assumes ok: "kernel_ok s" and t: "live (threads s t)" and p: "unat p < RT_THREAD_PRIORITY_MAX"
  shows "rt_thread_change_priority t p s = Some (reprio t p s)"
proof (cases "thread_stat (threads s t) = RT_THREAD_READY")
  case True
  note s = kernel_okD(1) [OF ok]
  note q = sched_okD(1) [OF s]
  have pt: "t \<noteq> 0" "unat (current_priority (threads s t)) < 32"
    using queue_okD(4) [OF q t] by (auto simp: prio_ok_def)
  have tc: "t \<noteq> current_thread s" using sched_okD(3) [OF s] True by auto
  let ?s1 = "upd_thread t (with_prio p) (ready_remove t s)"
  have "rt_schedule_insert_thread t ?s1 = Some (ready_insert t ?s1)"
    by (rule insert_thread_eq) (use pt tc p items_remove [OF queue_okD(1) [OF q], of t] in auto)
  then show ?thesis
    using True remove_thread_eq [OF pt]
    by (simp add: rt_thread_change_priority_def reprio_def with_prio_def [abs_def] Let_def)
qed (simp add: rt_thread_change_priority_def reprio_def with_prio_def [abs_def])

lemma control_priority_eq:
  assumes ok: "kernel_ok s" and t: "live (threads s t)" and p: "unat p < RT_THREAD_PRIORITY_MAX"
  shows "rt_thread_control t RT_THREAD_CTRL_CHANGE_PRIORITY p s = Some (RT_EOK, reprio t p s)"
  using change_priority_eq [OF assms] thread_timer_facts(1) [OF kernel_okD(2) [OF ok] t]
  by (simp add: rt_thread_control_def)

text \<open>Only the ready lists see the change: a thread in a wait queue keeps its place there.\<close>

lemma reprio_waits:
  assumes ok: "queue_ok s" and "\<And>k. h \<noteq> Ready k"
  shows "items (tlists (reprio t p s)) h = items (tlists s) h"
  using assms ready_home [OF ok, of t] items_remove [OF queue_okD(1) [OF ok], of t]
    lstore_okD(2) [OF queue_okD(1) [OF ok], of t h]
  by (auto simp: reprio_def ready_insert_items Let_def)

section \<open>Properties\<close>

text \<open>C9. A sleep lasts exactly as long as asked: \<^verbatim>\<open>rt_thread_sleep(n)\<close> hands the CPU to another thread, the
  sleeper stays suspended, untouched, through the next \<open>n - 1\<close> tick interrupts, and the \<open>n\<close>-th one makes it
  ready or running; for every \<open>n\<close> below half the tick range, whatever other timers are due in between, as
  long as application timeout functions keep the kernel consistent and leave the sleeper alone.\<close>

theorem sleep_wakes_on_time:
  assumes "running s" and "1 \<le> n" and "n < RT_TICK_HALF" and "lock_nest s = 0" and "ready_group s \<noteq> 0"
    and "items (trows s) Hard_check = []" and "periods_ok s"
    and "callbacks_ok cb" and "callbacks_spare cb (current_thread s)"
  shows "\<exists>s'. rt_thread_sleep n s = Some (Blocked, s') \<and> kernel_ok s' \<and> current_thread s' \<noteq> current_thread s \<and>
    thread_stat (threads s' (current_thread s)) = RT_THREAD_SUSPEND \<and>
    (\<forall>k < unat n. \<exists>s''. ticks cb k s' = Some s'' \<and> threads s'' (current_thread s) = threads s' (current_thread s)) \<and>
    (\<exists>s''. ticks cb (unat n) s' = Some s'' \<and> awake s'' (current_thread s))"
  by (rule sleep_running [OF assms])

lemma demo_running: "running demo_kernel"
  by (simp add: running_def demo_kernel_full)

theorem sleep_wakes_on_time_witness:
  "\<exists>s' s''. rt_thread_sleep 5 demo_kernel = Some (Blocked, s') \<and> ticks (\<lambda>_. Some) 5 s' = Some s'' \<and> awake s'' 3"
proof -
  have "callbacks_spare (\<lambda>_. Some) 3" by (simp add: callbacks_spare_def)
  then show ?thesis
    using sleep_wakes_on_time [OF demo_running, of 5 "\<lambda>_. Some"] demo_tick_ready no_callbacks_ok
    by (auto simp: tick_ready_def)
qed

text \<open>Two threads that yield to each other starve their peers: a yield runs the head of the caller's
  ready list and puts the caller at the front of that list, not at its end, so after any number of yields
  one of the two first threads runs and the other one is next; the rest of the list never moves.\<close>

theorem yield_keeps_the_rest_waiting:
  assumes "peers s c (t # rest)"
  shows "\<exists>s'. yields n s = Some s' \<and> (if even n then peers s' c (t # rest) else peers s' t (c # rest))"
  by (rule yields_alternate [OF assms])

lemma demo_peers: "peers demo_kernel 3 [4]"
  by (auto simp: peers_def demo_kernel_full runs_highest_def split: if_splits)

theorem yield_keeps_the_rest_waiting_witness:
  "\<exists>s'. yields 7 demo_kernel = Some s' \<and> current_thread s' = 4"
  using yield_keeps_the_rest_waiting [OF demo_peers, of 7] by (auto simp: peers_def)

text \<open>\<^verbatim>\<open>rt_thread_control(RT_THREAD_CTRL_CHANGE_PRIORITY)\<close> on a started thread succeeds, keeps the whole
  kernel invariant (a ready thread moves to the ready list of its new priority, lists and bitmap agree),
  sets the priority, and leaves every other thread and every wait queue as it was.\<close>

theorem change_priority_requeues:
  assumes "kernel_ok s" and "live (threads s t)" and "unat p < RT_THREAD_PRIORITY_MAX"
  shows "\<exists>s'. rt_thread_control t RT_THREAD_CTRL_CHANGE_PRIORITY p s = Some (RT_EOK, s') \<and> kernel_ok s' \<and>
    current_priority (threads s' t) = p \<and> thread_stat (threads s' t) = thread_stat (threads s t) \<and>
    (thread_stat (threads s t) = RT_THREAD_READY \<longrightarrow> home (tlists s') t = Some (Ready (unat p))) \<and>
    (\<forall>x. x \<noteq> t \<longrightarrow> threads s' x = threads s x) \<and>
    (\<forall>h. (\<forall>k. h \<noteq> Ready k) \<longrightarrow> items (tlists s') h = items (tlists s) h)"
proof -
  note k = kernel_ok_reprio [OF assms]
  have "home (tlists (reprio t p s)) t = Some (Ready (unat p))" if "thread_stat (threads s t) = RT_THREAD_READY"
    using ready_home [OF sched_okD(1) [OF kernel_okD(1) [OF k]], of t] that by simp
  then show ?thesis
    using control_priority_eq [OF assms] k reprio_waits [OF sched_okD(1) [OF kernel_okD(1) [OF assms(1)]]]
    by auto
qed

theorem change_priority_requeues_witness:
  "\<exists>s'. rt_thread_control 4 RT_THREAD_CTRL_CHANGE_PRIORITY 7 demo_kernel = Some (RT_EOK, s') \<and>
    home (tlists s') 4 = Some (Ready 7)"
  using change_priority_requeues [OF demo_kernel_full, of 4 7] by (auto simp: live_def)

end
