(* ===== verification/Rt_IpcList.thy ===== *)
theory Rt_IpcList
  imports Rt_ThreadProps
begin

text \<open>
  The wait queues of \<^verbatim>\<open>src/ipc.c\<close>: a blocking call hangs the current thread on the list of an IPC object,
  in arrival or priority order, and another call takes threads off it again. The locale \<open>wait_head\<close> states
  what the IPC objects rely on; each object interprets it on its own list heads.
\<close>

lemma unat_pred: "(x :: 'a :: len word) \<noteq> 0 \<Longrightarrow> unat x = Suc (unat (x - 1))"
  by (simp add: unat_minus_one unat_gt_0)

section \<open>Operations\<close>

abbreviation (input) RT_IPC_FLAG_FIFO :: u8 where "RT_IPC_FLAG_FIFO \<equiv> 0"
abbreviation (input) RT_IPC_FLAG_PRIO :: u8 where "RT_IPC_FLAG_PRIO \<equiv> 1"
abbreviation (input) RT_IPC_CMD_RESET :: int where "RT_IPC_CMD_RESET \<equiv> 1"

text \<open>\<^verbatim>\<open>_ipc_object_init\<close> makes the list head empty: nothing may be waiting on it.\<close>

definition ipc_object_init :: "lhead \<Rightarrow> kernel \<Rightarrow> kernel option" where
  "ipc_object_init h s = (if items (tlists s) h = [] then Some s else None)"

text \<open>The position a thread of priority \<open>p\<close> takes in a priority-ordered list: before the first thread of
  lower urgency, \<open>None\<close> for the end.\<close>

fun ipc_list_position :: "(tid \<Rightarrow> u8) \<Rightarrow> u8 \<Rightarrow> tid list \<Rightarrow> tid option" where
  "ipc_list_position pr p [] = None"
| "ipc_list_position pr p (x # xs) = (if p < pr x then Some x else ipc_list_position pr p xs)"

definition ipc_list_suspend :: "lhead \<Rightarrow> tid \<Rightarrow> u8 \<Rightarrow> kernel \<Rightarrow> kernel option" where
  "ipc_list_suspend h t flag s = do {
     (_, s) \<leftarrow> rt_thread_suspend t s;
     l \<leftarrow> (if flag = RT_IPC_FLAG_FIFO then ls_insert_before h t (tlists s)
          else if flag = RT_IPC_FLAG_PRIO
          then (case ipc_list_position (\<lambda>x. current_priority (threads s x)) (current_priority (threads s t))
                       (items (tlists s) h) of
                  Some x \<Rightarrow> ls_insert_before_node x t (tlists s)
                | None \<Rightarrow> ls_insert_before h t (tlists s))
          else None);
     Some (s\<lparr>tlists := l\<rparr>)
   }"

text \<open>\<^verbatim>\<open>_ipc_list_resume\<close> on an empty list would treat the list head as a thread.\<close>

definition ipc_list_resume :: "lhead \<Rightarrow> kernel \<Rightarrow> kernel option" where
  "ipc_list_resume h s =
     (case items (tlists s) h of
        [] \<Rightarrow> None
      | t # _ \<Rightarrow> do { (_, s) \<leftarrow> rt_thread_resume t s; Some s })"

text \<open>The loop of \<^verbatim>\<open>_ipc_list_resume_all\<close> does not end if a thread stays on the list.\<close>

partial_function (option) ipc_list_resume_all :: "lhead \<Rightarrow> kernel \<Rightarrow> kernel option" where
  "ipc_list_resume_all h s =
     (case items (tlists s) h of
        [] \<Rightarrow> Some s
      | t # _ \<Rightarrow> do {
          let s = upd_thread t (\<lambda>th. th\<lparr>thread_error := - RT_ERROR\<rparr>) s;
          (_, s) \<leftarrow> rt_thread_resume t s;
          ipc_list_resume_all h s
        })"

text \<open>\<^verbatim>\<open>RT_DEBUG_SCHEDULER_AVAILABLE(RT_TRUE)\<close>: unlocked scheduler, thread context, no interrupt.\<close>

definition scheduler_available :: "kernel \<Rightarrow> bool" where
  "scheduler_available s = (rt_critical_level s = 0 \<and> rt_thread_self s \<noteq> 0 \<and> interrupt_nest s = 0)"

text \<open>The timer calls of a blocking function with a timeout; a negative timeout waits for ever.\<close>

definition ipc_start_timeout :: "tid \<Rightarrow> int \<Rightarrow> kernel \<Rightarrow> kernel option" where
  "ipc_start_timeout t timeout s =
     (if timeout > 0 then do {
        (_, s) \<leftarrow> rt_timer_control (Thread_timer t) RT_TIMER_CTRL_SET_TIME (word_of_int timeout) s;
        rt_timer_start (Thread_timer t) s
      }
      else Some s)"

section \<open>The kernel invariant does not read IPC objects\<close>

lemma kernel_ok_cong:
  assumes "threads s' = threads s" "tlists s' = tlists s" "ready_group s' = ready_group s"
    "current_thread s' = current_thread s" "rt_tick s' = rt_tick s" "timers s' = timers s"
    "trows s' = trows s" "obj_type s' = obj_type s"
  shows "kernel_ok s' = kernel_ok s"
  using assms
  by (simp add: kernel_ok_def sched_ok_def queue_ok_def timers_ok_def timer_ok_def thread_timer_ok_def
      is_thread_def is_timer_def order_ok_def)

text \<open>Registering an object other than a thread or a timer.\<close>

lemma kernel_ok_object:
  assumes "\<And>t. ob \<noteq> Thread_obj t" and "\<And>m. ob \<noteq> Timer_obj m"
  shows "kernel_ok (s\<lparr>obj_type := (obj_type s)(ob := ty)\<rparr>) = kernel_ok s"
  using assms [symmetric]
  by (simp add: kernel_ok_def sched_ok_def queue_ok_def timers_ok_def timer_ok_def thread_timer_ok_def
      is_thread_def is_timer_def order_ok_def)

lemma kernel_ok_ipc [simp]:
  "kernel_ok (s\<lparr>sems := v\<rparr>) = kernel_ok s" "kernel_ok (s\<lparr>mutexes := w\<rparr>) = kernel_ok s"
  "kernel_ok (s\<lparr>events := x\<rparr>) = kernel_ok s" "kernel_ok (s\<lparr>mailboxes := y\<rparr>) = kernel_ok s"
  "kernel_ok (s\<lparr>mqueues := z\<rparr>) = kernel_ok s" "kernel_ok (s\<lparr>mempools := u\<rparr>) = kernel_ok s"
  "kernel_ok (s\<lparr>memory := mm\<rparr>) = kernel_ok s" "kernel_ok (s\<lparr>devices := dd\<rparr>) = kernel_ok s" "kernel_ok (s\<lparr>errno := ee\<rparr>) = kernel_ok s"
  by (rule kernel_ok_cong; simp)+

lemma running_ipc [simp]:
  "running (s\<lparr>sems := v\<rparr>) = running s" "running (s\<lparr>mutexes := w\<rparr>) = running s"
  "running (s\<lparr>events := x\<rparr>) = running s" "running (s\<lparr>mailboxes := y\<rparr>) = running s"
  "running (s\<lparr>mqueues := z\<rparr>) = running s" "running (s\<lparr>mempools := u\<rparr>) = running s"
  "running (s\<lparr>memory := mm\<rparr>) = running s" "running (s\<lparr>devices := dd\<rparr>) = running s" "running (s\<lparr>errno := ee\<rparr>) = running s"
  by (simp_all add: running_def)

lemma runs_highest_ipc [simp]:
  "runs_highest (s\<lparr>sems := v\<rparr>) = runs_highest s" "runs_highest (s\<lparr>mutexes := w\<rparr>) = runs_highest s"
  "runs_highest (s\<lparr>events := x\<rparr>) = runs_highest s" "runs_highest (s\<lparr>mailboxes := y\<rparr>) = runs_highest s"
  "runs_highest (s\<lparr>mqueues := z\<rparr>) = runs_highest s" "runs_highest (s\<lparr>mempools := u\<rparr>) = runs_highest s"
  "runs_highest (s\<lparr>memory := mm\<rparr>) = runs_highest s" "runs_highest (s\<lparr>devices := dd\<rparr>) = runs_highest s" "runs_highest (s\<lparr>errno := ee\<rparr>) = runs_highest s"
  by (simp_all add: runs_highest_def)

section \<open>Places in a wait queue\<close>

definition wait_insert :: "u8 \<Rightarrow> (tid \<Rightarrow> u8) \<Rightarrow> tid \<Rightarrow> tid list \<Rightarrow> tid list" where
  "wait_insert flag pr t xs =
     (if flag = RT_IPC_FLAG_FIFO then xs @ [t]
      else takeWhile (\<lambda>x. \<not> pr t < pr x) xs @ t # dropWhile (\<lambda>x. \<not> pr t < pr x) xs)"

lemma wait_insert_split: "\<exists>us vs. xs = us @ vs \<and> wait_insert flag pr t xs = us @ t # vs"
  unfolding wait_insert_def by (metis append_Nil2 takeWhile_dropWhile_id)

lemma set_wait_insert [simp]: "set (wait_insert flag pr t xs) = insert t (set xs)"
  using wait_insert_split [of xs flag pr t] by auto

lemma position_None: "ipc_list_position pr (pr t) xs = None \<Longrightarrow> wait_insert RT_IPC_FLAG_PRIO pr t xs = xs @ [t]"
  by (induction xs) (auto simp: wait_insert_def split: if_splits)

lemma position_Some:
  assumes "ipc_list_position pr p xs = Some y" and "distinct xs"
  shows "y \<in> set xs"
    and "list_ins_before y t xs = takeWhile (\<lambda>x. \<not> p < pr x) xs @ t # dropWhile (\<lambda>x. \<not> p < pr x) xs"
  using assms by (induction xs) (auto split: if_splits)

text \<open>Priority order: most urgent first, arrival order among equals.\<close>

lemma wait_insert_sorted:
  assumes "sorted (map pr xs)"
  shows "sorted (map pr (wait_insert RT_IPC_FLAG_PRIO pr t xs))"
  using assms
proof (induction xs)
  case (Cons x xs)
  have eq: "wait_insert 1 pr t (x # xs) = (if pr t < pr x then t # x # xs else x # wait_insert 1 pr t xs)"
    by (simp add: wait_insert_def)
  show ?case using Cons unfolding eq by (auto simp: not_less)
qed (simp add: wait_insert_def)

lemma wait_insert_equal:
  "filter (\<lambda>x. pr x = pr t) (wait_insert RT_IPC_FLAG_PRIO pr t xs) = filter (\<lambda>x. pr x = pr t) xs @ [t]"
  if "sorted (map pr xs)"
  using that
proof (induction xs)
  case (Cons x xs)
  have eq: "wait_insert 1 pr t (x # xs) = (if pr t < pr x then t # x # xs else x # wait_insert 1 pr t xs)"
    by (simp add: wait_insert_def)
  have "filter (\<lambda>x. pr x = pr t) (x # xs) = []" if "pr t < pr x"
    using that Cons.prems by (auto simp: filter_empty_conv)
  then show ?case using Cons unfolding eq by auto
qed (simp add: wait_insert_def)

section \<open>Waiting\<close>

abbreviation prio_of :: "kernel \<Rightarrow> tid \<Rightarrow> u8" where
  "prio_of s x \<equiv> current_priority (threads s x)"

text \<open>The state in which the current thread is suspended on the list \<open>h\<close>, which then is \<open>xs\<close>.\<close>

definition enqueued_at :: "lhead \<Rightarrow> tid list \<Rightarrow> kernel \<Rightarrow> kernel" where
  "enqueued_at h xs s = (suspended s)\<lparr>tlists := ls_set h xs (current_thread s) (tlists s)\<rparr>"

lemma enqueued_fields [simp]:
  "lock_nest (enqueued_at h xs s) = lock_nest s" "current_thread (enqueued_at h xs s) = current_thread s"
  "running_priority (enqueued_at h xs s) = running_priority s"
  "interrupt_nest (enqueued_at h xs s) = interrupt_nest s" "rt_tick (enqueued_at h xs s) = rt_tick s"
  "ready_group (enqueued_at h xs s) = ready_group s" "timers (enqueued_at h xs s) = timers (suspended s)"
  "trows (enqueued_at h xs s) = trows (suspended s)"
  "soft_timer_busy (enqueued_at h xs s) = soft_timer_busy s" "random_nr (enqueued_at h xs s) = random_nr s"
  "obj_type (enqueued_at h xs s) = obj_type s" "obj_name (enqueued_at h xs s) = obj_name s"
  "olists (enqueued_at h xs s) = olists s" "sems (enqueued_at h xs s) = sems s"
  "mutexes (enqueued_at h xs s) = mutexes s" "events (enqueued_at h xs s) = events s"
  "mailboxes (enqueued_at h xs s) = mailboxes s" "mqueues (enqueued_at h xs s) = mqueues s"
  "mempools (enqueued_at h xs s) = mempools s"
  "memory (enqueued_at h xs s) = memory s" "devices (enqueued_at h xs s) = devices s" "errno (enqueued_at h xs s) = errno s"
  "threads (enqueued_at h xs s) = (threads s)(current_thread s :=
     set_stat RT_THREAD_SUSPEND (threads s (current_thread s)))"
  "items (tlists (enqueued_at h xs s)) = (items (tlists s))(h := xs)"
  "home (tlists (enqueued_at h xs s)) = (home (tlists s))(current_thread s := Some h)"
  by (simp_all add: enqueued_at_def)

abbreviation enqueued :: "lhead \<Rightarrow> u8 \<Rightarrow> kernel \<Rightarrow> kernel" where
  "enqueued h flag s \<equiv>
     enqueued_at h (wait_insert flag (prio_of s) (current_thread s) (items (tlists s) h)) s"

text \<open>The state after the timer calls of a blocking function.\<close>

definition wait_timed :: "tid \<Rightarrow> int \<Rightarrow> kernel \<Rightarrow> kernel" where
  "wait_timed t timeout s = (if timeout > 0 then timed t (word_of_int timeout) s else s)"

lemma wait_timed_fields [simp]:
  "threads (wait_timed t x s) = threads s" "tlists (wait_timed t x s) = tlists s"
  "ready_group (wait_timed t x s) = ready_group s" "lock_nest (wait_timed t x s) = lock_nest s"
  "current_thread (wait_timed t x s) = current_thread s" "rt_tick (wait_timed t x s) = rt_tick s"
  "interrupt_nest (wait_timed t x s) = interrupt_nest s" "obj_type (wait_timed t x s) = obj_type s"
  "obj_name (wait_timed t x s) = obj_name s" "olists (wait_timed t x s) = olists s"
  "sems (wait_timed t x s) = sems s" "mutexes (wait_timed t x s) = mutexes s"
  "events (wait_timed t x s) = events s" "mailboxes (wait_timed t x s) = mailboxes s"
  "mqueues (wait_timed t x s) = mqueues s" "mempools (wait_timed t x s) = mempools s"
  "memory (wait_timed t x s) = memory s" "devices (wait_timed t x s) = devices s" "errno (wait_timed t x s) = errno s"
  by (simp_all add: wait_timed_def)

lemma start_timeout_ok:
  assumes ok: "kernel_ok s" and st: "thread_stat (threads s t) = RT_THREAD_SUSPEND" and x: "x < 0x7FFFFFFF"
  shows "ipc_start_timeout t x s = Some (wait_timed t x s)" and "kernel_ok (wait_timed t x s)"
proof -
  have w: "word_of_int x < RT_TICK_HALF" if "x > 0"
    using that x by (simp add: word_less_def uint_word_of_int)
  show "ipc_start_timeout t x s = Some (wait_timed t x s)"
    using timed_ok(1,2) [OF ok st w] by (simp add: ipc_start_timeout_def wait_timed_def)
  show "kernel_ok (wait_timed t x s)"
    using timed_ok(3) [OF ok st w] ok by (simp add: wait_timed_def)
qed

lemma resume_all_unfold:
  "ipc_list_resume_all h s =
     (case items (tlists s) h of
        [] \<Rightarrow> Some s
      | t # _ \<Rightarrow> rt_thread_resume t (upd_thread t (\<lambda>th. th\<lparr>thread_error := - RT_ERROR\<rparr>) s) \<bind>
                 (\<lambda>(_, s). ipc_list_resume_all h s))"
  by (subst ipc_list_resume_all.simps) (simp add: Let_def split: list.split)

text \<open>All that a wake-up of the threads \<open>W\<close> changes: they become ready, with the error code of an aborted
  wait; the IPC objects keep their contents.\<close>

definition ipc_same :: "kernel \<Rightarrow> kernel \<Rightarrow> bool" where
  "ipc_same s s' = (sems s' = sems s \<and> mutexes s' = mutexes s \<and> events s' = events s \<and>
     mailboxes s' = mailboxes s \<and> mqueues s' = mqueues s \<and> mempools s' = mempools s \<and>
     memory s' = memory s \<and> devices s' = devices s \<and> errno s' = errno s \<and>
     obj_type s' = obj_type s \<and> obj_name s' = obj_name s \<and> olists s' = olists s \<and>
     lock_nest s' = lock_nest s \<and> rt_tick s' = rt_tick s \<and> interrupt_nest s' = interrupt_nest s)"

definition wakes :: "tid set \<Rightarrow> kernel \<Rightarrow> kernel \<Rightarrow> bool" where
  "wakes W s s' = (ipc_same s s' \<and> current_thread s' = current_thread s \<and>
     (\<forall>x. threads s' x = (if x \<in> W
        then set_stat (if x = current_thread s then RT_THREAD_RUNNING else RT_THREAD_READY)
               ((threads s x)\<lparr>thread_error := - RT_ERROR\<rparr>)
        else threads s x)))"

lemma ipc_same_refl [simp]: "ipc_same s s"
  by (simp add: ipc_same_def)

lemma ipc_same_trans: "ipc_same s s' \<Longrightarrow> ipc_same s' s'' \<Longrightarrow> ipc_same s s''"
  by (simp add: ipc_same_def)

lemma ipc_same_resumed [simp]: "ipc_same s (resumed t s)"
  by (simp add: ipc_same_def)

lemma ipc_same_frame: "sched_frame s s' \<Longrightarrow> ipc_same s s'"
  using sched_frame_kernel [of s s'] by (simp add: ipc_same_def)

lemma wakes_insert:
  assumes "s1 = resumed t (upd_thread t (\<lambda>th. th\<lparr>thread_error := - RT_ERROR\<rparr>) s)" and "wakes W s1 s'" and "t \<notin> W"
  shows "wakes (insert t W) s s'"
  using assms by (auto simp: wakes_def ipc_same_def)

text \<open>The current thread of \<open>s\<close> blocks on \<open>h\<close>, which becomes \<open>xs\<close>, and \<open>s'\<close> is the state in which the next thread
  runs.\<close>

definition blocked_at :: "lhead \<Rightarrow> tid list \<Rightarrow> int \<Rightarrow> kernel \<Rightarrow> kernel \<Rightarrow> bool" where
  "blocked_at h xs x s s' =
     (ipc_start_timeout (current_thread s) x (enqueued_at h xs s) = Some (wait_timed (current_thread s) x (enqueued_at h xs s)) \<and>
      rt_schedule (wait_timed (current_thread s) x (enqueued_at h xs s)) = Some s' \<and>
      kernel_ok s' \<and> runs_highest s' \<and> current_thread s' \<noteq> current_thread s \<and>
      sched_frame (wait_timed (current_thread s) x (enqueued_at h xs s)) s' \<and>
      threads s' (current_thread s) = set_stat RT_THREAD_SUSPEND (threads s (current_thread s)) \<and>
      items (tlists s') h = xs)"

lemma blocked_atD:
  assumes "blocked_at h xs x s s'"
  shows "ipc_start_timeout (current_thread s) x (enqueued_at h xs s) = Some (wait_timed (current_thread s) x (enqueued_at h xs s))"
    and "rt_schedule (wait_timed (current_thread s) x (enqueued_at h xs s)) = Some s'"
    and "kernel_ok s'" and "runs_highest s'" and "current_thread s' \<noteq> current_thread s"
    and "sched_frame (wait_timed (current_thread s) x (enqueued_at h xs s)) s'"
    and "threads s' (current_thread s) = set_stat RT_THREAD_SUSPEND (threads s (current_thread s))"
    and "items (tlists s') h = xs"
  using assms unfolding blocked_at_def by blast+

text \<open>Apart from that thread and its queue, blocking shows in no IPC object, wait queue or suspended thread.\<close>

lemma blocked_at_frame:
  assumes "blocked_at h xs x s s'"
  shows "ipc_same s s'"
    and "\<And>k. k \<noteq> h \<Longrightarrow> (\<And>p. k \<noteq> Ready p) \<Longrightarrow> items (tlists s') k = items (tlists s) k"
    and "t \<noteq> current_thread s \<Longrightarrow> threads s' t = (threads s t)\<lparr>stat := stat (threads s' t)\<rparr>"
    and "t \<noteq> current_thread s \<Longrightarrow> thread_stat (threads s t) = RT_THREAD_SUSPEND \<Longrightarrow> threads s' t = threads s t"
proof -
  note f = blocked_atD(6) [OF assms]
  show "ipc_same s s'" using ipc_same_frame [OF f] by (simp add: ipc_same_def)
  show "\<And>k. k \<noteq> h \<Longrightarrow> (\<And>p. k \<noteq> Ready p) \<Longrightarrow> items (tlists s') k = items (tlists s) k"
    using sched_frameD(4) [OF f] by simp
  show "t \<noteq> current_thread s \<Longrightarrow> threads s' t = (threads s t)\<lparr>stat := stat (threads s' t)\<rparr>"
    using sched_frameD(1) [OF f, of t] by simp
  show "t \<noteq> current_thread s \<Longrightarrow> thread_stat (threads s t) = RT_THREAD_SUSPEND \<Longrightarrow> threads s' t = threads s t"
    using sched_frameD(2) [OF f, of t] by simp
qed

definition blocked_on :: "lhead \<Rightarrow> u8 \<Rightarrow> int \<Rightarrow> kernel \<Rightarrow> kernel \<Rightarrow> bool" where
  "blocked_on h flag x s s' =
     (ipc_list_suspend h (current_thread s) flag s = Some (enqueued h flag s) \<and>
      blocked_at h (wait_insert flag (prio_of s) (current_thread s) (items (tlists s) h)) x s s')"

lemma blocked_onD:
  assumes "blocked_on h flag x s s'"
  shows "ipc_list_suspend h (current_thread s) flag s = Some (enqueued h flag s)"
    and "ipc_start_timeout (current_thread s) x (enqueued h flag s) =
       Some (wait_timed (current_thread s) x (enqueued h flag s))"
    and "rt_schedule (wait_timed (current_thread s) x (enqueued h flag s)) = Some s'"
    and "kernel_ok s'" and "runs_highest s'" and "current_thread s' \<noteq> current_thread s"
    and "sched_frame (wait_timed (current_thread s) x (enqueued h flag s)) s'"
    and "threads s' (current_thread s) = set_stat RT_THREAD_SUSPEND (threads s (current_thread s))"
    and "items (tlists s') h = wait_insert flag (prio_of s) (current_thread s) (items (tlists s) h)"
  using assms unfolding blocked_on_def blocked_at_def by blast+

lemma blocked_on_at:
  "blocked_on h flag x s s' \<Longrightarrow> blocked_at h (wait_insert flag (prio_of s) (current_thread s) (items (tlists s) h)) x s s'"
  by (simp add: blocked_on_def)

lemmas blocked_on_frame = blocked_at_frame [OF blocked_on_at]

lemma frame_live: "sched_frame s s' \<Longrightarrow> live (threads s t) \<Longrightarrow> live (threads s' t)"
  using sched_frameD(2,3) [of s s' t] unfolding live_stat by metis

lemma blocked_on_live:
  assumes "blocked_on h flag x s s'" and "t \<noteq> current_thread s" and "live (threads s t)"
  shows "live (threads s' t)"
  using frame_live [OF blocked_onD(7) [OF assms(1)], of t] assms(2,3) by simp

lemma wait_insert_cong:
  assumes "pr t = pr' t" and "\<And>x. x \<in> set xs \<Longrightarrow> pr x = pr' x"
  shows "wait_insert flag pr t xs = wait_insert flag pr' t xs"
proof -
  have "takeWhile (\<lambda>x. \<not> pr t < pr x) xs = takeWhile (\<lambda>x. \<not> pr' t < pr' x) xs"
    "dropWhile (\<lambda>x. \<not> pr t < pr x) xs = dropWhile (\<lambda>x. \<not> pr' t < pr' x) xs"
    using assms by (auto intro: takeWhile_cong dropWhile_cong)
  then show ?thesis by (simp add: wait_insert_def)
qed

text \<open>A thread that may block: it runs, with interrupts and scheduler lock off, and somebody else is ready.\<close>

definition may_block :: "kernel \<Rightarrow> bool" where
  "may_block s = (running s \<and> lock_nest s = 0 \<and> interrupt_nest s = 0 \<and> ready_group s \<noteq> 0)"

lemma may_blockD:
  assumes "may_block s"
  shows "running s" "lock_nest s = 0" "interrupt_nest s = 0" "ready_group s \<noteq> 0" "kernel_ok s" "scheduler_available s"
  using assms runningD [of s]
  by (auto simp: may_block_def scheduler_available_def rt_critical_level_def rt_thread_self_def)

text \<open>The start of every blocking path: the error code is reset before the thread is suspended.\<close>

abbreviation no_error :: "kernel \<Rightarrow> kernel" where
  "no_error s \<equiv> upd_thread (current_thread s) (\<lambda>th. th\<lparr>thread_error := RT_EOK\<rparr>) s"

lemma prio_of_error [simp]:
  "current_priority (if x = c then (g c)\<lparr>thread_error := e\<rparr> else g x) = current_priority (g x)"
  by auto

definition demo_wait :: "lhead \<Rightarrow> obj \<Rightarrow> u8 \<Rightarrow> kernel" where
  "demo_wait h ob ty = demo_kernel\<lparr>tlists := ls_set h [5] 5 (tlists demo_kernel),
     obj_type := (obj_type demo_kernel)(ob := ty)\<rparr>"

lemma demo_wait_items [simp]:
  "items (tlists (demo_wait h ob ty)) h = [5]" "obj_type (demo_wait h ob ty) ob = ty"
  "current_thread (demo_wait h ob ty) = 3" "threads (demo_wait h ob ty) = threads demo_kernel"
  "rt_tick (demo_wait h ob ty) = 0" "interrupt_nest (demo_wait h ob ty) = 0"
  by (simp_all add: demo_wait_def) (simp add: demo_kernel_def boot_kernel_def)

locale wait_head =
  fixes h :: lhead
  assumes waiter: "home_ok (Some h) th = (thread_stat th = RT_THREAD_SUSPEND)"
    and not_ready: "h \<noteq> Ready p"
begin

lemma waiters:
  assumes "kernel_ok s" and "t \<in> set (items (tlists s) h)"
  shows "thread_stat (threads s t) = RT_THREAD_SUSPEND" and "home (tlists s) t = Some h"
proof -
  note q = sched_okD(1) [OF kernel_okD(1) [OF assms(1)]]
  show "home (tlists s) t = Some h" using lstore_okD(2) [OF queue_okD(1) [OF q]] assms(2) by simp
  then show "thread_stat (threads s t) = RT_THREAD_SUSPEND" using queue_okD(3) [OF q, of t] waiter by simp
qed

lemma distinct_waiters: "kernel_ok s \<Longrightarrow> distinct (items (tlists s) h)"
  using lstore_okD(1) [OF queue_okD(1) [OF sched_okD(1) [OF kernel_okD(1)]]] by blast

lemma enqueued_at_ok:
  assumes r: "running s" and l: "items (tlists s) h = us @ vs"
  shows "kernel_ok (enqueued_at h (us @ current_thread s # vs) s)"
proof -
  note k = runningD(1) [OF r] and st = runningD(2) [OF r]
  note q = sched_okD(1) [OF kernel_okD(1) [OF k]] and su = suspend_ok [OF k st]
  have hc: "home (tlists s) (current_thread s) = None" by (rule queue_ok_running_home [OF q st])
  note sk = sched_okD(1) [OF kernel_okD(1) [OF su(2)]]
  have "queue_ok (enqueued_at h (us @ current_thread s # vs) s)"
  proof (rule queue_okI)
    show "lstore_ok (tlists (enqueued_at h (us @ current_thread s # vs) s))"
      using lstore_ok_put [OF queue_okD(1) [OF q] hc l] by (simp add: enqueued_at_def)
    show "bit (ready_group (enqueued_at h (us @ current_thread s # vs) s)) p = (items (tlists (enqueued_at h (us @ current_thread s # vs) s)) (Ready p) \<noteq> [])"
      if "p < 32" for p
      using queue_okD(2) [OF q that] not_ready [of p] by simp
    show "home_ok (home (tlists (enqueued_at h (us @ current_thread s # vs) s)) x) (threads (enqueued_at h (us @ current_thread s # vs) s) x)" for x
      using queue_okD(3) [OF q, of x] by (simp add: waiter stat_simps)
    show "x \<noteq> 0 \<and> prio_ok (threads (enqueued_at h (us @ current_thread s # vs) s) x)" if "live (threads (enqueued_at h (us @ current_thread s # vs) s) x)" for x
      using queue_okD(4) [OF sk, of x] that by simp
  qed
  then have "sched_ok (enqueued_at h (us @ current_thread s # vs) s)"
    using kernel_okD(1) [OF su(2)] unfolding sched_ok_def enqueued_fields suspended_fields by blast
  moreover have "timers_ok (enqueued_at h (us @ current_thread s # vs) s)"
    using kernel_okD(2) [OF su(2)] by (rule timers_ok_threads) (use timers_okD(3) [OF kernel_okD(2) [OF su(2)]] in \<open>auto simp: thread_timer_ok_def\<close>)
  moreover have "order_ok (rt_tick s) 0x7FFFFFFF (enqueued_at h (us @ current_thread s # vs) s)"
    using kernel_okD(3) [OF su(2)] by (simp add: order_ok_def)
  ultimately show "kernel_ok (enqueued_at h (us @ current_thread s # vs) s)" by (simp add: kernel_ok_def)
qed

lemma suspend_on:
  assumes r: "running s" and f: "flag \<in> {RT_IPC_FLAG_FIFO, RT_IPC_FLAG_PRIO}"
  shows "ipc_list_suspend h (current_thread s) flag s = Some (enqueued h flag s)"
    and "kernel_ok (enqueued h flag s)"
proof -
  let ?c = "current_thread s" and ?l = "items (tlists s) h"
  note k = runningD(1) [OF r] and st = runningD(2) [OF r]
  note q = sched_okD(1) [OF kernel_okD(1) [OF k]] and su = suspend_ok [OF k st]
  have hc: "home (tlists s) ?c = None" by (rule queue_ok_running_home [OF q st])
  have tl: "tlists (suspended s) = tlists s" by simp
  have pr': "(\<lambda>x. current_priority (threads (suspended s) x)) = prio_of s" by auto
  have fifo: "ls_insert_before h ?c (tlists s) = Some (ls_set h (?l @ [?c]) ?c (tlists s))"
    using hc by (simp add: ls_insert_before_def ls_set_def)
  have prio: "(case ipc_list_position (prio_of s) (prio_of s ?c) ?l of
      Some x \<Rightarrow> ls_insert_before_node x ?c (tlists s) | None \<Rightarrow> ls_insert_before h ?c (tlists s)) =
      Some (ls_set h (wait_insert 1 (prio_of s) ?c ?l) ?c (tlists s))"
  proof (cases "ipc_list_position (prio_of s) (prio_of s ?c) ?l")
    case None
    then have "wait_insert 1 (prio_of s) ?c ?l = ?l @ [?c]" by (rule position_None)
    then show ?thesis using None fifo by simp
  next
    case (Some x)
    note x = position_Some [OF Some distinct_waiters [OF k]]
    have "home (tlists s) x = Some h" by (rule waiters(2) [OF k x(1)])
    then show ?thesis
      using Some x(2) [of ?c] hc by (simp add: ls_insert_before_node_def ls_set_def wait_insert_def)
  qed
  show "ipc_list_suspend h ?c flag s = Some (enqueued h flag s)"
    using su(1) f fifo prio unfolding ipc_list_suspend_def enqueued_at_def
    by (auto simp: pr' fun_cong [OF pr'] tl wait_insert_def simp del: suspended_fields split: option.splits)
  obtain us vs where uv: "?l = us @ vs" "wait_insert flag (prio_of s) ?c ?l = us @ ?c # vs"
    using wait_insert_split by blast
  show "kernel_ok (enqueued h flag s)" using enqueued_at_ok [OF r uv(1)] uv(2) by simp
qed

text \<open>Blocking on the queue: suspended there, the thread starts its timeout and the scheduler runs.\<close>

lemma block_at_ok:
  assumes r: "running s" and it: "items (tlists s) h = us @ vs" and x: "x < 0x7FFFFFFF"
    and l: "lock_nest s = 0" and g: "ready_group s \<noteq> 0"
  obtains s' where "blocked_at h (us @ current_thread s # vs) x s s'"
proof -
  let ?c = "current_thread s" and ?e = "enqueued_at h (us @ current_thread s # vs) s"
  note su = enqueued_at_ok [OF r it]
  have st: "thread_stat (threads ?e ?c) = RT_THREAD_SUSPEND" by (simp add: stat_simps)
  note tm = start_timeout_ok [OF su st x]
  obtain s' where s': "rt_schedule (wait_timed ?c x ?e) = Some s'" "kernel_ok s'"
    "sched_frame (wait_timed ?c x ?e) s'" "runs_highest s'"
    using schedule_kernel_ok [OF tm(2)] l g by auto
  have th: "threads s' ?c = set_stat RT_THREAD_SUSPEND (threads s ?c)"
    using sched_frameD(2) [OF s'(3), of ?c] st by simp
  have "current_thread s' \<noteq> ?c" using s'(4) th st by (auto simp: runs_highest_def)
  moreover have "items (tlists s') h = us @ ?c # vs"
    using sched_frameD(4) [OF s'(3) not_ready] by simp
  ultimately show thesis using that su tm s' th unfolding blocked_at_def by blast
qed

lemma block_ok:
  assumes r: "running s" and f: "flag \<in> {RT_IPC_FLAG_FIFO, RT_IPC_FLAG_PRIO}" and x: "x < 0x7FFFFFFF"
    and l: "lock_nest s = 0" and g: "ready_group s \<noteq> 0"
  obtains s' where "blocked_on h flag x s s'"
proof -
  let ?xs = "wait_insert flag (prio_of s) (current_thread s) (items (tlists s) h)"
  obtain us vs where uv: "items (tlists s) h = us @ vs" "?xs = us @ current_thread s # vs"
    using wait_insert_split by blast
  obtain s' where "blocked_at h ?xs x s s'" using block_at_ok [OF r uv(1) x l g] uv(2) by auto
  then show thesis using that suspend_on(1) [OF r f] unfolding blocked_on_def by blast
qed

lemma may_block_on:
  assumes "may_block s" and "flag \<in> {RT_IPC_FLAG_FIFO, RT_IPC_FLAG_PRIO}" and "x < 0x7FFFFFFF"
  obtains s' where "blocked_on h flag x (no_error s) s'"
  using block_ok [of "no_error s" flag x] running_error [OF may_blockD(1) [OF assms(1)]]
    may_blockD(2,4) [OF assms(1)] assms(2,3) by auto

lemma resume_first:
  assumes k: "kernel_ok s" and it: "items (tlists s) h = t # ts"
  shows "ipc_list_resume h s = Some (resumed t s)" and "kernel_ok (resumed t s)"
    and "items (tlists (resumed t s)) h = ts"
proof -
  have st: "thread_stat (threads s t) = RT_THREAD_SUSPEND" using waiters(1) [OF k, of t] it by simp
  show "ipc_list_resume h s = Some (resumed t s)"
    using resume_ok(1) [OF kernel_okD(1,2) [OF k] st] it by (simp add: ipc_list_resume_def)
  show "kernel_ok (resumed t s)" by (rule kernel_ok_resumed [OF k st])
  show "items (tlists (resumed t s)) h = ts"
    using resumed_waits [OF kernel_okD(1) [OF k] not_ready, of t] it distinct_waiters [OF k] by simp
qed

lemma resume_all_step:
  assumes k: "kernel_ok s" and it: "items (tlists s) h = t # ts"
  defines "s1 \<equiv> resumed t (upd_thread t (\<lambda>th. th\<lparr>thread_error := - RT_ERROR\<rparr>) s)"
  shows "ipc_list_resume_all h s = ipc_list_resume_all h s1" and "kernel_ok s1" and "items (tlists s1) h = ts"
    and "threads s1 = (threads s)(t := set_stat (if t = current_thread s then RT_THREAD_RUNNING else RT_THREAD_READY)
           ((threads s t)\<lparr>thread_error := - RT_ERROR\<rparr>))"
proof -
  let ?e = "upd_thread t (\<lambda>th. th\<lparr>thread_error := - RT_ERROR\<rparr>) s"
  have ke: "kernel_ok ?e" by (rule kernel_ok_upd_thread [OF k]) simp_all
  have ie: "items (tlists ?e) h = t # ts" using it by simp
  note r = resume_first [OF ke ie]
  have "thread_stat (threads ?e t) = RT_THREAD_SUSPEND" using waiters(1) [OF ke, of t] ie by simp
  then have "rt_thread_resume t ?e = Some (RT_EOK, s1)"
    unfolding s1_def by (rule resume_ok(1) [OF kernel_okD(1,2) [OF ke]])
  then show "ipc_list_resume_all h s = ipc_list_resume_all h s1"
    by (subst resume_all_unfold) (simp add: it)
  show "kernel_ok s1" "items (tlists s1) h = ts" using r by (simp_all add: s1_def)
  show "threads s1 = (threads s)(t := set_stat (if t = current_thread s then RT_THREAD_RUNNING else RT_THREAD_READY)
           ((threads s t)\<lparr>thread_error := - RT_ERROR\<rparr>))"
    by (simp add: s1_def)
qed

text \<open>The wake-up loop ends, empties the queue and marks every thread it wakes.\<close>

lemma resume_all_ok:
  assumes "kernel_ok s"
  shows "\<exists>s'. ipc_list_resume_all h s = Some s' \<and> kernel_ok s' \<and> items (tlists s') h = [] \<and>
    wakes (set (items (tlists s) h)) s s'"
  using assms
proof (induction "items (tlists s) h" arbitrary: s)
  case Nil
  then show ?case by (subst resume_all_unfold) (auto simp: wakes_def)
next
  case (Cons t ts)
  note st = resume_all_step [OF Cons.prems Cons.hyps(2) [symmetric]]
  let ?s1 = "resumed t (upd_thread t (\<lambda>th. th\<lparr>thread_error := - RT_ERROR\<rparr>) s)"
  obtain s' where s': "ipc_list_resume_all h ?s1 = Some s'" "kernel_ok s'" "items (tlists s') h = []"
    "wakes (set ts) ?s1 s'"
    using Cons.hyps(1) [OF st(3) [symmetric] st(2)] st(3) by auto
  have d: "t \<notin> set ts" using distinct_waiters [OF Cons.prems] Cons.hyps(2) by (metis distinct.simps(2))
  have "wakes (insert t (set ts)) s s'"
    by (rule wakes_insert [OF _ s'(4) d]) simp
  then show ?case using s' st(1) Cons.hyps(2) [symmetric] by simp
qed

text \<open>The concrete system with thread 5 waiting on the queue of a registered object.\<close>

lemma demo_wait_ok:
  assumes "\<And>t. ob \<noteq> Thread_obj t" and "\<And>m. ob \<noteq> Timer_obj m"
  shows "kernel_ok (demo_wait h ob ty)"
proof -
  let ?d = "demo_wait h ob ty"
  have e: "items (tlists demo_kernel) h = []" using not_ready by simp
  have "queue_ok ?d"
  proof (rule queue_okI)
    note q = sched_okD(1) [OF demo_kernel_ok]
    show "lstore_ok (tlists ?d)"
      using lstore_ok_put [OF queue_okD(1) [OF q], of 5 h "[]" "[]"] e by (simp add: demo_wait_def)
    show "bit (ready_group ?d) p = (items (tlists ?d) (Ready p) \<noteq> [])" if "p < 32" for p
      using queue_okD(2) [OF q that] not_ready [of p] by (simp add: demo_wait_def del: demo_kernel_fields)
    show "home_ok (home (tlists ?d) t) (threads ?d t)" for t
      using queue_okD(3) [OF q, of t] by (auto simp: demo_wait_def waiter)
    show "t \<noteq> 0 \<and> prio_ok (threads ?d t)" if "live (threads ?d t)" for t
      using queue_okD(4) [OF q, of t] that by (simp add: demo_wait_def del: demo_kernel_fields)
  qed
  then have "sched_ok ?d" using demo_kernel_ok unfolding sched_ok_def by (auto simp: demo_wait_def split: if_splits)
  moreover have "timers_ok ?d"
    using kernel_okD(2) [OF demo_kernel_full] assms [symmetric]
    by (simp add: timers_ok_def timer_ok_def thread_timer_ok_def is_thread_def is_timer_def demo_wait_def
        del: demo_kernel_fields demo_timers)
  moreover have "order_ok (rt_tick ?d) 0x7FFFFFFF ?d"
    using kernel_okD(3) [OF demo_kernel_full] by (simp add: order_ok_def demo_wait_def)
  ultimately show ?thesis by (simp add: kernel_ok_def)
qed

lemma demo_wait_may_block:
  assumes "\<And>t. ob \<noteq> Thread_obj t" and "\<And>m. ob \<noteq> Timer_obj m"
  shows "may_block (demo_wait h ob ty)"
  using demo_wait_ok [OF assms] by (simp add: may_block_def running_def demo_wait_def demo_kernel_def boot_kernel_def)

end

end
