(* ===== verification/Rt_Sem.thy ===== *)
theory Rt_Sem
  imports Rt_IpcList
begin

text \<open>
  Counting semaphores of \<^verbatim>\<open>src/ipc.c\<close>. The interrupt-disabled sections are atomic; \<^verbatim>\<open>rt_sem_take\<close> is cut at
  its \<^verbatim>\<open>rt_schedule\<close> and continued by \<open>sem_take_resume\<close> when the thread runs again.
\<close>

section \<open>Operations\<close>

abbreviation (input) RT_SEM_VALUE_MAX :: u16 where "RT_SEM_VALUE_MAX \<equiv> 0xFFFF"

definition is_sem :: "nat \<Rightarrow> kernel \<Rightarrow> bool" where
  "is_sem n s = (n \<noteq> 0 \<and> rt_object_get_type (obj_type s (Sem_obj n)) = RT_Object_Class_Semaphore)"

definition upd_sem :: "nat \<Rightarrow> (rt_semaphore \<Rightarrow> rt_semaphore) \<Rightarrow> kernel \<Rightarrow> kernel" where
  "upd_sem n f s = s\<lparr>sems := (sems s)(n := f (sems s n))\<rparr>"

definition rt_sem_init :: "nat \<Rightarrow> string \<Rightarrow> u32 \<Rightarrow> u8 \<Rightarrow> kernel \<Rightarrow> (rt_err_t \<times> kernel) option" where
  "rt_sem_init n name v flag s = do {
     rt_assert (n \<noteq> 0);
     rt_assert (v < 0x10000);
     rt_assert (flag = RT_IPC_FLAG_FIFO \<or> flag = RT_IPC_FLAG_PRIO);
     s \<leftarrow> rt_object_init (Sem_obj n) RT_Object_Class_Semaphore name s;
     s \<leftarrow> ipc_object_init (Sem_wait n) s;
     let s = upd_sem n (\<lambda>sem. sem\<lparr>sem_value := ucast v\<rparr>) s;
     let s = upd_sem n (\<lambda>sem. sem\<lparr>sem_flag := flag\<rparr>) s;
     Some (RT_EOK, s)
   }"

definition rt_sem_detach :: "nat \<Rightarrow> kernel \<Rightarrow> (rt_err_t \<times> kernel) option" where
  "rt_sem_detach n s = do {
     rt_assert (is_sem n s);
     rt_assert (rt_object_is_systemobject (obj_type s (Sem_obj n)));
     s \<leftarrow> ipc_list_resume_all (Sem_wait n) s;
     Some (RT_EOK, rt_object_detach (Sem_obj n) s)
   }"

definition rt_sem_create :: "nat option \<Rightarrow> string \<Rightarrow> u32 \<Rightarrow> u8 \<Rightarrow> kernel \<Rightarrow> (nat option \<times> kernel) option" where
  "rt_sem_create mem name v flag s = do {
     rt_assert (v < 0x10000);
     rt_assert (flag = RT_IPC_FLAG_FIFO \<or> flag = RT_IPC_FLAG_PRIO);
     rt_assert (interrupt_nest s = 0);
     (_, s) \<leftarrow> rt_object_allocate (map_option Sem_obj mem) RT_Object_Class_Semaphore name s;
     case mem of
       None \<Rightarrow> Some (None, s)
     | Some n \<Rightarrow> do {
         s \<leftarrow> ipc_object_init (Sem_wait n) s;
         let s = upd_sem n (\<lambda>sem. sem\<lparr>sem_value := ucast v\<rparr>) s;
         let s = upd_sem n (\<lambda>sem. sem\<lparr>sem_flag := flag\<rparr>) s;
         Some (Some n, s)
       }
   }"

definition rt_sem_delete :: "nat \<Rightarrow> kernel \<Rightarrow> (rt_err_t \<times> kernel) option" where
  "rt_sem_delete n s = do {
     rt_assert (is_sem n s);
     rt_assert (\<not> rt_object_is_systemobject (obj_type s (Sem_obj n)));
     rt_assert (interrupt_nest s = 0);
     s \<leftarrow> ipc_list_resume_all (Sem_wait n) s;
     s \<leftarrow> rt_object_delete (Sem_obj n) s;
     Some (RT_EOK, s)
   }"

text \<open>The end of \<^verbatim>\<open>rt_sem_take\<close>, for a thread that had to wait.\<close>

definition sem_take_resume :: "tid \<Rightarrow> kernel \<Rightarrow> rt_err_t" where
  "sem_take_resume t s = (if thread_error (threads s t) \<noteq> RT_EOK then thread_error (threads s t) else RT_EOK)"

definition rt_sem_take :: "nat \<Rightarrow> int \<Rightarrow> kernel \<Rightarrow> (outcome \<times> kernel) option" where
  "rt_sem_take n timeout s = do {
     rt_assert (is_sem n s);
     if sem_value (sems s n) > 0
     then Some (Returned RT_EOK, upd_sem n (\<lambda>sem. sem\<lparr>sem_value := sem_value sem - 1\<rparr>) s)
     else if timeout = 0 then Some (Returned (- RT_ETIMEOUT), s)
     else do {
       rt_assert (scheduler_available s);
       let t = rt_thread_self s;
       let s = upd_thread t (\<lambda>th. th\<lparr>thread_error := RT_EOK\<rparr>) s;
       s \<leftarrow> ipc_list_suspend (Sem_wait n) t (sem_flag (sems s n)) s;
       s \<leftarrow> ipc_start_timeout t timeout s;
       s \<leftarrow> rt_schedule s;
       if current_thread s \<noteq> t then Some (Blocked, s)
       else Some (Returned (sem_take_resume t s), s)
     }
   }"

definition rt_sem_trytake :: "nat \<Rightarrow> kernel \<Rightarrow> (outcome \<times> kernel) option" where
  "rt_sem_trytake n s = rt_sem_take n 0 s"

definition rt_sem_release :: "nat \<Rightarrow> kernel \<Rightarrow> (rt_err_t \<times> kernel) option" where
  "rt_sem_release n s = do {
     rt_assert (is_sem n s);
     if items (tlists s) (Sem_wait n) \<noteq> [] then do {
       s \<leftarrow> ipc_list_resume (Sem_wait n) s;
       s \<leftarrow> rt_schedule s;
       Some (RT_EOK, s)
     }
     else if sem_value (sems s n) < RT_SEM_VALUE_MAX
     then Some (RT_EOK, upd_sem n (\<lambda>sem. sem\<lparr>sem_value := sem_value sem + 1\<rparr>) s)
     else Some (- RT_EFULL, s)
   }"

definition rt_sem_control :: "nat \<Rightarrow> int \<Rightarrow> u64 \<Rightarrow> kernel \<Rightarrow> (rt_err_t \<times> kernel) option" where
  "rt_sem_control n cmd arg s = do {
     rt_assert (is_sem n s);
     if cmd = RT_IPC_CMD_RESET then do {
       s \<leftarrow> ipc_list_resume_all (Sem_wait n) s;
       let s = upd_sem n (\<lambda>sem. sem\<lparr>sem_value := ucast arg\<rparr>) s;
       s \<leftarrow> rt_schedule s;
       Some (RT_EOK, s)
     }
     else Some (- RT_ERROR, s)
   }"

section \<open>The semaphore invariant\<close>

interpretation sem_wait: wait_head "Sem_wait n" for n
  by unfold_locales auto

lemma upd_sem_fields [simp]:
  "sems (upd_sem n f s) = (sems s)(n := f (sems s n))"
  "threads (upd_sem n f s) = threads s" "tlists (upd_sem n f s) = tlists s"
  "current_thread (upd_sem n f s) = current_thread s" "lock_nest (upd_sem n f s) = lock_nest s"
  "ready_group (upd_sem n f s) = ready_group s" "obj_type (upd_sem n f s) = obj_type s"
  "interrupt_nest (upd_sem n f s) = interrupt_nest s" "rt_tick (upd_sem n f s) = rt_tick s"
  "kernel_ok (upd_sem n f s) = kernel_ok s" "runs_highest (upd_sem n f s) = runs_highest s"
  by (simp_all add: upd_sem_def)

text \<open>A semaphore with units left has no waiter. A waiting list in priority order is sorted.\<close>

definition sem_ok :: "nat \<Rightarrow> kernel \<Rightarrow> bool" where
  "sem_ok n s = (is_sem n s \<and> sem_flag (sems s n) \<in> {RT_IPC_FLAG_FIFO, RT_IPC_FLAG_PRIO} \<and>
     (sem_value (sems s n) > 0 \<longrightarrow> items (tlists s) (Sem_wait n) = []))"

lemma sem_ok_same:
  assumes "ipc_same s s'" and "items (tlists s') (Sem_wait n) = items (tlists s) (Sem_wait n)"
  shows "sem_ok n s' = sem_ok n s"
  using assms by (simp add: sem_ok_def ipc_same_def is_sem_def)

text \<open>What the users of a semaphore see: the free units and the queue of waiting threads.\<close>

definition sem_view :: "nat \<Rightarrow> kernel \<Rightarrow> nat \<times> tid list" where
  "sem_view n s = (unat (sem_value (sems s n)), items (tlists s) (Sem_wait n))"

section \<open>Correctness\<close>

text \<open>The contract of a semaphore, on its view. A take with units left uses one up; without, it fails at
  once or joins the queue. A release hands its unit to the first waiter, or keeps it, up to the
  maximum.\<close>

fun sem_spec_take :: "bool \<Rightarrow> (tid list \<Rightarrow> tid list) \<Rightarrow> nat \<times> tid list \<Rightarrow> outcome \<times> nat \<times> tid list" where
  "sem_spec_take wait join (Suc v, ws) = (Returned RT_EOK, v, ws)"
| "sem_spec_take wait join (0, ws) = (if wait then (Blocked, 0, join ws) else (Returned (- RT_ETIMEOUT), 0, ws))"

fun sem_spec_release :: "nat \<times> tid list \<Rightarrow> rt_err_t \<times> nat \<times> tid list" where
  "sem_spec_release (v, t # ws) = (RT_EOK, v, ws)"
| "sem_spec_release (v, []) = (if v < 65535 then (RT_EOK, v + 1, []) else (- RT_EFULL, v, []))"

lemma sem_take_blocks:
  assumes b: "may_block s" and ok: "sem_ok n s" and v: "sem_value (sems s n) = 0"
    and x: "timeout \<noteq> 0" "timeout < 0x7FFFFFFF"
  shows "\<exists>s'. rt_sem_take n timeout s = Some (Blocked, s') \<and> kernel_ok s' \<and> runs_highest s' \<and> sem_ok n s' \<and>
    sem_view n s' = (0, wait_insert (sem_flag (sems s n)) (prio_of s) (current_thread s) (items (tlists s) (Sem_wait n))) \<and>
    threads s' (current_thread s) = set_stat RT_THREAD_SUSPEND ((threads s (current_thread s))\<lparr>thread_error := RT_EOK\<rparr>)"
proof -
  note m = may_blockD [OF b]
  let ?c = "current_thread s" and ?f = "sem_flag (sems s n)"
  have f: "?f \<in> {0, 1}" using ok by (simp add: sem_ok_def)
  obtain s' where s': "blocked_on (Sem_wait n) ?f timeout (no_error s) s'"
    using sem_wait.may_block_on [OF b f x(2)] by blast
  note d = blocked_onD [OF s', simplified] and g = blocked_on_frame(1) [OF s']
  have "rt_sem_take n timeout s = Some (Blocked, s')"
    using ok v x(1) m(6) d(1-3,6) by (simp add: rt_sem_take_def sem_ok_def rt_thread_self_def Let_def)
  moreover have "sem_ok n s'" using ok v g by (simp add: sem_ok_def is_sem_def ipc_same_def)
  ultimately show ?thesis using d v g by (simp add: sem_view_def ipc_same_def)
qed

lemma sem_release_wakes:
  assumes k: "kernel_ok s" and ok: "sem_ok n s" and it: "items (tlists s) (Sem_wait n) = t # ws"
  shows "\<exists>s'. rt_sem_release n s = Some (RT_EOK, s') \<and> kernel_ok s' \<and> sem_ok n s' \<and>
    sem_view n s' = (0, ws) \<and> awake s' t \<and> thread_error (threads s' t) = thread_error (threads s t)"
proof -
  note r = sem_wait.resume_first [OF k it]
  obtain s' where s': "rt_schedule (resumed t s) = Some s'" "kernel_ok s'" "sched_frame (resumed t s) s'"
    using schedule_kernel_ok [OF r(2)] by blast
  have it': "items (tlists s') (Sem_wait n) = ws"
    using sched_frameD(4) [OF s'(3), of "Sem_wait n"] r(3) by simp
  have g: "ipc_same s s'" using ipc_same_trans [OF ipc_same_resumed ipc_same_frame [OF s'(3)]] .
  have v: "sem_value (sems s n) = 0" using ok it by (auto simp: sem_ok_def word_gt_0)
  have "rt_sem_release n s = Some (RT_EOK, s')"
    using ok it r(1) s'(1) by (simp add: rt_sem_release_def sem_ok_def)
  moreover have "sem_ok n s'" using ok g v by (simp add: sem_ok_def is_sem_def ipc_same_def)
  moreover have "awake s' t"
    using sched_frameD(3) [OF s'(3), of t] by (auto simp: awake_def stat_simps)
  moreover have "thread_error (threads s' t) = thread_error (threads s t)"
    using sched_frame_thread(3) [OF s'(3), of t] by simp
  ultimately show ?thesis using s'(2) it' g v by (simp add: sem_view_def ipc_same_def)
qed

text \<open>Resetting or removing a semaphore ends every wait on it with an error.\<close>

lemma sem_reset:
  assumes k: "kernel_ok s" and ok: "sem_ok n s"
  shows "\<exists>s'. rt_sem_control n RT_IPC_CMD_RESET arg s = Some (RT_EOK, s') \<and> kernel_ok s' \<and> sem_ok n s' \<and>
    sem_view n s' = (unat (ucast arg :: u16), []) \<and>
    (\<forall>t \<in> set (items (tlists s) (Sem_wait n)). awake s' t \<and> sem_take_resume t s' = - RT_ERROR)"
proof -
  obtain s1 where s1: "ipc_list_resume_all (Sem_wait n) s = Some s1" "kernel_ok s1"
    "items (tlists s1) (Sem_wait n) = []" "wakes (set (items (tlists s) (Sem_wait n))) s s1"
    using sem_wait.resume_all_ok [OF k] by blast
  let ?s2 = "upd_sem n (\<lambda>sem. sem\<lparr>sem_value := ucast arg\<rparr>) s1"
  have "kernel_ok ?s2" using s1(2) by simp
  then obtain s' where s': "rt_schedule ?s2 = Some s'" "kernel_ok s'" "sched_frame ?s2 s'"
    using schedule_kernel_ok by blast
  have it': "items (tlists s') (Sem_wait n) = []"
    using sched_frameD(4) [OF s'(3), of "Sem_wait n"] s1(3) by simp
  have g: "sems s' = sems ?s2" "obj_type s' = obj_type s"
    using sched_frame_kernel [OF s'(3)] s1(4) by (simp_all add: wakes_def ipc_same_def)
  have "rt_sem_control n RT_IPC_CMD_RESET arg s = Some (RT_EOK, s')"
    using ok s1(1) s'(1) by (simp add: rt_sem_control_def sem_ok_def Let_def)
  moreover have "sem_ok n s'" using ok g it' s1(4) by (simp add: sem_ok_def is_sem_def wakes_def ipc_same_def)
  moreover have "awake s' t \<and> sem_take_resume t s' = - RT_ERROR" if t: "t \<in> set (items (tlists s) (Sem_wait n))" for t
  proof -
    have "thread_stat (threads ?s2 t) = RT_THREAD_READY \<or> thread_stat (threads ?s2 t) = RT_THREAD_RUNNING"
      "thread_error (threads ?s2 t) = - RT_ERROR"
      using s1(4) t by (auto simp: wakes_def stat_simps)
    then show ?thesis
      using sched_frameD(3) [OF s'(3), of t] sched_frame_thread(3) [OF s'(3), of t]
      by (auto simp: awake_def sem_take_resume_def)
  qed
  ultimately show ?thesis using s'(2) it' g by (simp add: sem_view_def)
qed

section \<open>Properties\<close>

definition demo_sem :: kernel where
  "demo_sem = demo_wait (Sem_wait 7) (Sem_obj 7) 0x82"

lemma demo_sem_ok: "may_block demo_sem" "kernel_ok demo_sem" "sem_ok 7 demo_sem"
proof -
  show b: "may_block demo_sem" unfolding demo_sem_def by (rule sem_wait.demo_wait_may_block) auto
  then show "kernel_ok demo_sem" by (rule may_blockD)
  show "sem_ok 7 demo_sem"
    by (simp add: sem_ok_def is_sem_def demo_sem_def rt_object_get_type_def) (simp add: demo_wait_def demo_kernel_def boot_kernel_def)
qed

lemma demo_sem_fields [simp]:
  "items (tlists demo_sem) (Sem_wait 7) = [5]" "sem_flag (sems demo_sem 7) = 0" "sem_value (sems demo_sem 7) = 0"
  "current_thread demo_sem = 3" "threads demo_sem = threads demo_kernel"
  by (simp_all add: demo_sem_def) (simp_all add: demo_wait_def demo_kernel_def boot_kernel_def)

text \<open>C10. \<^verbatim>\<open>rt_sem_take\<close> implements the abstract semaphore: whatever the value, queue, timeout and queueing
  discipline, it never trips an assertion, keeps kernel and semaphore consistent, and result and new
  view are those of the contract; a caller that blocks is suspended with a clean error code and another
  thread runs.\<close>

theorem sem_take_refines:
  assumes "may_block s" and "sem_ok n s" and "timeout < 0x7FFFFFFF"
  defines "c \<equiv> current_thread s"
  shows "\<exists>r s'. rt_sem_take n timeout s = Some (r, s') \<and> kernel_ok s' \<and> sem_ok n s' \<and>
    (r, sem_view n s') =
      sem_spec_take (timeout \<noteq> 0) (wait_insert (sem_flag (sems s n)) (prio_of s) c) (sem_view n s) \<and>
    (r = Blocked \<longrightarrow> current_thread s' \<noteq> c \<and> thread_stat (threads s' c) = RT_THREAD_SUSPEND \<and>
       thread_error (threads s' c) = RT_EOK)"
proof (cases "sem_value (sems s n) = 0 \<and> timeout \<noteq> 0")
  case True
  then obtain s' where s': "rt_sem_take n timeout s = Some (Blocked, s')" "kernel_ok s'" "runs_highest s'"
    "sem_ok n s'" "sem_view n s' = (0, wait_insert (sem_flag (sems s n)) (prio_of s) c (items (tlists s) (Sem_wait n)))"
    "threads s' c = set_stat RT_THREAD_SUSPEND ((threads s c)\<lparr>thread_error := RT_EOK\<rparr>)"
    using sem_take_blocks [OF assms(1,2)] assms(3) unfolding c_def by blast
  have "current_thread s' \<noteq> c" using s'(3,6) by (auto simp: runs_highest_def stat_simps)
  then show ?thesis using s' True by (auto simp: sem_view_def stat_simps)
next
  case False
  note k = may_blockD(5) [OF assms(1)]
  show ?thesis
  proof (cases "sem_value (sems s n) = 0")
    case True
    then show ?thesis
      using False k assms(2) by (simp add: rt_sem_take_def sem_view_def sem_ok_def)
  next
    case pos: False
    then obtain m where "unat (sem_value (sems s n)) = Suc m" "unat (sem_value (sems s n) - 1) = m"
      using unat_pred [of "sem_value (sems s n)"] by blast
    then show ?thesis
      using pos k assms(2) by (simp add: rt_sem_take_def sem_view_def sem_ok_def is_sem_def word_gt_0)
  qed
qed

theorem sem_take_refines_witness:
  "\<exists>s'. rt_sem_take 7 20 demo_sem = Some (Blocked, s') \<and> sem_view 7 s' = (0, [5, 3])"
  using sem_take_refines [OF demo_sem_ok(1,3), of 20] by (auto simp: sem_view_def wait_insert_def)

text \<open>C11. \<^verbatim>\<open>rt_sem_release\<close> implements the abstract semaphore: the first waiter is woken and its take will
  return with the code it was suspended with, or the value grows, or the call reports \<^verbatim>\<open>-RT_EFULL\<close> at the
  16-bit maximum; it can run in any context.\<close>

theorem sem_release_refines:
  assumes "kernel_ok s" and "sem_ok n s"
  shows "\<exists>e s'. rt_sem_release n s = Some (e, s') \<and> kernel_ok s' \<and> sem_ok n s' \<and>
    (e, sem_view n s') = sem_spec_release (sem_view n s) \<and>
    (\<forall>t ws. items (tlists s) (Sem_wait n) = t # ws \<longrightarrow>
       awake s' t \<and> thread_error (threads s' t) = thread_error (threads s t))"
proof (cases "items (tlists s) (Sem_wait n)")
  case (Cons t ws)
  then have "sem_value (sems s n) = 0" using assms(2) by (auto simp: sem_ok_def word_gt_0)
  then show ?thesis
    using sem_release_wakes [OF assms Cons] Cons by (auto simp: sem_view_def)
next
  case Nil
  have lt: "sem_value (sems s n) < 0xFFFF \<longleftrightarrow> unat (sem_value (sems s n)) < 65535" by (simp add: word_less_nat_alt)
  have inc: "unat (sem_value (sems s n) + 1) = unat (sem_value (sems s n)) + 1" if "sem_value (sems s n) < 0xFFFF"
    using that lt by (subst unat_word_ariths) simp
  show ?thesis
    using Nil assms inc by (auto simp: rt_sem_release_def sem_view_def sem_ok_def is_sem_def lt)
qed

theorem sem_release_refines_witness:
  "\<exists>s'. rt_sem_release 7 demo_sem = Some (RT_EOK, s') \<and> sem_view 7 s' = (0, []) \<and> awake s' 5"
  using sem_release_refines [OF demo_sem_ok(2,3)] by (auto simp: sem_view_def)

text \<open>C12. \<^verbatim>\<open>rt_sem_control(RT_IPC_CMD_RESET)\<close> ends: it wakes every waiter, each of whose takes then returns
  \<^verbatim>\<open>-RT_ERROR\<close>, empties the queue and sets the value to the low 16 bits of the argument.\<close>

theorem sem_reset_aborts_waits:
  assumes "kernel_ok s" and "sem_ok n s"
  shows "\<exists>s'. rt_sem_control n RT_IPC_CMD_RESET arg s = Some (RT_EOK, s') \<and> kernel_ok s' \<and> sem_ok n s' \<and>
    sem_view n s' = (unat (ucast arg :: u16), []) \<and>
    (\<forall>t \<in> set (items (tlists s) (Sem_wait n)). awake s' t \<and> sem_take_resume t s' = - RT_ERROR)"
  by (rule sem_reset [OF assms])

theorem sem_reset_aborts_waits_witness:
  "\<exists>s'. rt_sem_control 7 RT_IPC_CMD_RESET 3 demo_sem = Some (RT_EOK, s') \<and> sem_take_resume 5 s' = - RT_ERROR"
  using sem_reset_aborts_waits [OF demo_sem_ok(2,3), of 3] by auto

end
