(* ===== verification/Rt_Mutex.thy ===== *)
theory Rt_Mutex
  imports Rt_IpcList
begin

text \<open>
  Recursive mutexes with priority inheritance, of \<^verbatim>\<open>src/ipc.c\<close>. A blocking take raises the priority of the
  owner through \<^verbatim>\<open>rt_thread_control\<close>; the last release sets it back to the value remembered at the take.
\<close>

section \<open>Operations\<close>

abbreviation (input) RT_MUTEX_VALUE_MAX :: u16 where "RT_MUTEX_VALUE_MAX \<equiv> 0xFFFF"
abbreviation (input) RT_MUTEX_HOLD_MAX :: u8 where "RT_MUTEX_HOLD_MAX \<equiv> 0xFF"

definition is_mutex :: "nat \<Rightarrow> kernel \<Rightarrow> bool" where
  "is_mutex n s = (n \<noteq> 0 \<and> rt_object_get_type (obj_type s (Mutex_obj n)) = RT_Object_Class_Mutex)"

definition upd_mutex :: "nat \<Rightarrow> (rt_mutex \<Rightarrow> rt_mutex) \<Rightarrow> kernel \<Rightarrow> kernel" where
  "upd_mutex n f s = s\<lparr>mutexes := (mutexes s)(n := f (mutexes s n))\<rparr>"

text \<open>The field assignments shared by \<^verbatim>\<open>rt_mutex_init\<close> and \<^verbatim>\<open>rt_mutex_create\<close>.\<close>

definition mutex_fresh :: rt_mutex where
  "mutex_fresh = \<lparr>mutex_flag = RT_IPC_FLAG_PRIO, mutex_value = 1, original_priority = 0xFF, hold = 0, owner = 0\<rparr>"

definition rt_mutex_init :: "nat \<Rightarrow> string \<Rightarrow> u8 \<Rightarrow> kernel \<Rightarrow> (rt_err_t \<times> kernel) option" where
  "rt_mutex_init n name flag s = do {
     rt_assert (n \<noteq> 0);
     s \<leftarrow> rt_object_init (Mutex_obj n) RT_Object_Class_Mutex name s;
     s \<leftarrow> ipc_object_init (Mutex_wait n) s;
     Some (RT_EOK, upd_mutex n (\<lambda>_. mutex_fresh) s)
   }"

definition rt_mutex_detach :: "nat \<Rightarrow> kernel \<Rightarrow> (rt_err_t \<times> kernel) option" where
  "rt_mutex_detach n s = do {
     rt_assert (is_mutex n s);
     rt_assert (rt_object_is_systemobject (obj_type s (Mutex_obj n)));
     s \<leftarrow> ipc_list_resume_all (Mutex_wait n) s;
     Some (RT_EOK, rt_object_detach (Mutex_obj n) s)
   }"

definition rt_mutex_create :: "nat option \<Rightarrow> string \<Rightarrow> u8 \<Rightarrow> kernel \<Rightarrow> (nat option \<times> kernel) option" where
  "rt_mutex_create mem name flag s = do {
     rt_assert (interrupt_nest s = 0);
     (_, s) \<leftarrow> rt_object_allocate (map_option Mutex_obj mem) RT_Object_Class_Mutex name s;
     case mem of
       None \<Rightarrow> Some (None, s)
     | Some n \<Rightarrow> do {
         s \<leftarrow> ipc_object_init (Mutex_wait n) s;
         Some (Some n, upd_mutex n (\<lambda>_. mutex_fresh) s)
       }
   }"

definition rt_mutex_delete :: "nat \<Rightarrow> kernel \<Rightarrow> (rt_err_t \<times> kernel) option" where
  "rt_mutex_delete n s = do {
     rt_assert (is_mutex n s);
     rt_assert (\<not> rt_object_is_systemobject (obj_type s (Mutex_obj n)));
     rt_assert (interrupt_nest s = 0);
     s \<leftarrow> ipc_list_resume_all (Mutex_wait n) s;
     s \<leftarrow> rt_object_delete (Mutex_obj n) s;
     Some (RT_EOK, s)
   }"

text \<open>The end of \<^verbatim>\<open>rt_mutex_take\<close>, for a thread that had to wait.\<close>

definition mutex_take_resume :: "tid \<Rightarrow> kernel \<Rightarrow> rt_err_t" where
  "mutex_take_resume t s = (if thread_error (threads s t) \<noteq> RT_EOK then thread_error (threads s t) else RT_EOK)"

text \<open>The priority inheritance step of \<^verbatim>\<open>rt_mutex_take\<close>.\<close>

definition mutex_boost :: "nat \<Rightarrow> tid \<Rightarrow> kernel \<Rightarrow> kernel option" where
  "mutex_boost n t s =
     (if current_priority (threads s t) < current_priority (threads s (owner (mutexes s n))) then do {
        (_, s) \<leftarrow> rt_thread_control (owner (mutexes s n)) RT_THREAD_CTRL_CHANGE_PRIORITY (current_priority (threads s t)) s;
        Some s
      }
      else Some s)"

definition rt_mutex_take :: "nat \<Rightarrow> int \<Rightarrow> kernel \<Rightarrow> (outcome \<times> kernel) option" where
  "rt_mutex_take n timeout s = do {
     rt_assert (scheduler_available s);
     rt_assert (is_mutex n s);
     let t = rt_thread_self s;
     let s = upd_thread t (\<lambda>th. th\<lparr>thread_error := RT_EOK\<rparr>) s;
     if owner (mutexes s n) = t then
       (if hold (mutexes s n) < RT_MUTEX_HOLD_MAX
        then Some (Returned RT_EOK, upd_mutex n (\<lambda>m. m\<lparr>hold := hold m + 1\<rparr>) s)
        else Some (Returned (- RT_EFULL), s))
     else if mutex_value (mutexes s n) > 0 then do {
       let s = upd_mutex n (\<lambda>m. m\<lparr>mutex_value := mutex_value m - 1, owner := t,
         original_priority := current_priority (threads s t)\<rparr>) s;
       if hold (mutexes s n) < RT_MUTEX_HOLD_MAX
       then Some (Returned RT_EOK, upd_mutex n (\<lambda>m. m\<lparr>hold := hold m + 1\<rparr>) s)
       else Some (Returned (- RT_EFULL), s)
     }
     else if timeout = 0 then
       Some (Returned (- RT_ETIMEOUT), upd_thread t (\<lambda>th. th\<lparr>thread_error := - RT_ETIMEOUT\<rparr>) s)
     else do {
       s \<leftarrow> mutex_boost n t s;
       s \<leftarrow> ipc_list_suspend (Mutex_wait n) t (mutex_flag (mutexes s n)) s;
       s \<leftarrow> ipc_start_timeout t timeout s;
       s \<leftarrow> rt_schedule s;
       if current_thread s \<noteq> t then Some (Blocked, s)
       else Some (Returned (mutex_take_resume t s), s)
     }
   }"

definition rt_mutex_trytake :: "nat \<Rightarrow> kernel \<Rightarrow> (outcome \<times> kernel) option" where
  "rt_mutex_trytake n s = rt_mutex_take n 0 s"

text \<open>The priority restoring step of \<^verbatim>\<open>rt_mutex_release\<close>.\<close>

definition mutex_unboost :: "nat \<Rightarrow> kernel \<Rightarrow> kernel option" where
  "mutex_unboost n s =
     (if original_priority (mutexes s n) \<noteq> current_priority (threads s (owner (mutexes s n))) then do {
        (_, s) \<leftarrow> rt_thread_control (owner (mutexes s n)) RT_THREAD_CTRL_CHANGE_PRIORITY (original_priority (mutexes s n)) s;
        Some s
      }
      else Some s)"

definition rt_mutex_release :: "nat \<Rightarrow> kernel \<Rightarrow> (rt_err_t \<times> kernel) option" where
  "rt_mutex_release n s = do {
     rt_assert (is_mutex n s);
     rt_assert (rt_thread_self s \<noteq> 0 \<and> interrupt_nest s = 0);
     let t = rt_thread_self s;
     if t \<noteq> owner (mutexes s n)
     then Some (- RT_ERROR, upd_thread t (\<lambda>th. th\<lparr>thread_error := - RT_ERROR\<rparr>) s)
     else do {
       let s = upd_mutex n (\<lambda>m. m\<lparr>hold := hold m - 1\<rparr>) s;
       if hold (mutexes s n) \<noteq> 0 then Some (RT_EOK, s)
       else do {
         s \<leftarrow> mutex_unboost n s;
         case items (tlists s) (Mutex_wait n) of
           w # _ \<Rightarrow> do {
             let s = upd_mutex n (\<lambda>m. m\<lparr>owner := w, original_priority := current_priority (threads s w)\<rparr>) s;
             if hold (mutexes s n) < RT_MUTEX_HOLD_MAX then do {
               let s = upd_mutex n (\<lambda>m. m\<lparr>hold := hold m + 1\<rparr>) s;
               s \<leftarrow> ipc_list_resume (Mutex_wait n) s;
               s \<leftarrow> rt_schedule s;
               Some (RT_EOK, s)
             }
             else Some (- RT_EFULL, s)
           }
         | [] \<Rightarrow>
             (if mutex_value (mutexes s n) < RT_MUTEX_VALUE_MAX
              then Some (RT_EOK, upd_mutex n (\<lambda>m. m\<lparr>mutex_value := mutex_value m + 1, owner := 0,
                original_priority := 0xFF\<rparr>) s)
              else Some (- RT_EFULL, s))
       }
     }
   }"

definition rt_mutex_control :: "nat \<Rightarrow> int \<Rightarrow> u64 \<Rightarrow> kernel \<Rightarrow> (rt_err_t \<times> kernel) option" where
  "rt_mutex_control n cmd arg s = do {
     rt_assert (is_mutex n s);
     Some (- RT_ERROR, s)
   }"

section \<open>The mutex invariant\<close>

interpretation mutex_wait: wait_head "Mutex_wait n" for n
  by unfold_locales auto

lemma upd_mutex_fields [simp]:
  "mutexes (upd_mutex n f s) = (mutexes s)(n := f (mutexes s n))"
  "threads (upd_mutex n f s) = threads s" "tlists (upd_mutex n f s) = tlists s"
  "current_thread (upd_mutex n f s) = current_thread s" "lock_nest (upd_mutex n f s) = lock_nest s"
  "ready_group (upd_mutex n f s) = ready_group s" "obj_type (upd_mutex n f s) = obj_type s"
  "interrupt_nest (upd_mutex n f s) = interrupt_nest s" "rt_tick (upd_mutex n f s) = rt_tick s"
  "kernel_ok (upd_mutex n f s) = kernel_ok s" "runs_highest (upd_mutex n f s) = runs_highest s"
  "running (upd_mutex n f s) = running s" "may_block (upd_mutex n f s) = may_block s"
  by (simp_all add: upd_mutex_def may_block_def)

text \<open>A mutex is free, with nobody waiting, or held by a started thread that does not wait for it.\<close>

definition mutex_ok :: "nat \<Rightarrow> kernel \<Rightarrow> bool" where
  "mutex_ok n s = (is_mutex n s \<and> mutex_flag (mutexes s n) = RT_IPC_FLAG_PRIO \<and>
     (if owner (mutexes s n) = 0
      then mutex_value (mutexes s n) = 1 \<and> hold (mutexes s n) = 0 \<and> items (tlists s) (Mutex_wait n) = []
      else mutex_value (mutexes s n) = 0 \<and> hold (mutexes s n) \<noteq> 0 \<and> live (threads s (owner (mutexes s n))) \<and>
           unat (original_priority (mutexes s n)) < RT_THREAD_PRIORITY_MAX \<and>
           owner (mutexes s n) \<notin> set (items (tlists s) (Mutex_wait n))))"

lemma mutex_ok_cong:
  assumes "mutexes s' n = mutexes s n" and "obj_type s' = obj_type s"
    and "items (tlists s') (Mutex_wait n) = items (tlists s) (Mutex_wait n)"
    and "live (threads s (owner (mutexes s n))) \<Longrightarrow> live (threads s' (owner (mutexes s n)))"
  shows "mutex_ok n s \<Longrightarrow> mutex_ok n s'"
  using assms by (auto simp: mutex_ok_def is_mutex_def split: if_splits)

text \<open>What the users of a mutex see: its owner, the depth of the holding and the waiting threads.\<close>

definition mutex_view :: "nat \<Rightarrow> kernel \<Rightarrow> tid option \<times> nat \<times> tid list" where
  "mutex_view n s = (if owner (mutexes s n) = 0 then None else Some (owner (mutexes s n)),
     unat (hold (mutexes s n)), items (tlists s) (Mutex_wait n))"

section \<open>Correctness\<close>

fun mutex_spec_take :: "tid \<Rightarrow> bool \<Rightarrow> (tid list \<Rightarrow> tid list) \<Rightarrow> tid option \<times> nat \<times> tid list \<Rightarrow>
    outcome \<times> tid option \<times> nat \<times> tid list" where
  "mutex_spec_take c wait join (None, h, ws) = (Returned RT_EOK, Some c, 1, ws)"
| "mutex_spec_take c wait join (Some t, h, ws) =
     (if t = c then (if h < 255 then (Returned RT_EOK, Some c, h + 1, ws) else (Returned (- RT_EFULL), Some c, h, ws))
      else if wait then (Blocked, Some t, h, join ws)
      else (Returned (- RT_ETIMEOUT), Some t, h, ws))"

fun mutex_spec_release :: "tid \<Rightarrow> tid option \<times> nat \<times> tid list \<Rightarrow> rt_err_t \<times> tid option \<times> nat \<times> tid list" where
  "mutex_spec_release c (t, h, ws) =
     (if t \<noteq> Some c then (- RT_ERROR, t, h, ws)
      else if h > 1 then (RT_EOK, t, h - 1, ws)
      else (case ws of [] \<Rightarrow> (RT_EOK, None, 0, []) | w # ws' \<Rightarrow> (RT_EOK, Some w, 1, ws')))"

text \<open>Raising the priority of another thread.\<close>

lemma may_block_reprio:
  assumes b: "may_block s" and o: "live (threads s t)" "t \<noteq> current_thread s" and p: "unat p < RT_THREAD_PRIORITY_MAX"
  shows "may_block (reprio t p s)"
proof -
  note m = may_blockD [OF b]
  have k: "kernel_ok (reprio t p s)" by (rule kernel_ok_reprio [OF m(5) o(1) p])
  have "ready_group (reprio t p s) \<noteq> 0"
    using group_zero_iff [OF sched_okD(1) [OF kernel_okD(1) [OF k]]]
      group_zero_iff [OF sched_okD(1) [OF kernel_okD(1) [OF m(5)]]] m(4) by auto
  then show ?thesis
    using k m runningD(2) [OF m(1)] o by (auto simp: may_block_def running_def)
qed

definition boosted :: "nat \<Rightarrow> kernel \<Rightarrow> kernel" where
  "boosted n s = (if prio_of s (current_thread s) < prio_of s (owner (mutexes s n))
     then reprio (owner (mutexes s n)) (prio_of s (current_thread s)) s else s)"

lemma boosted_fields [simp]:
  "current_thread (boosted n s) = current_thread s" "mutexes (boosted n s) = mutexes s"
  "obj_type (boosted n s) = obj_type s"
  by (simp_all add: boosted_def)

lemma running_prio: "running s \<Longrightarrow> unat (prio_of s (current_thread s)) < RT_THREAD_PRIORITY_MAX"
  using queue_okD(4) [OF sched_okD(1) [OF kernel_okD(1) [OF runningD(1)]] running_live [OF runningD(2)]]
  by (simp add: prio_ok_def)

lemma boosted_ok:
  assumes b: "may_block s" and o: "live (threads s (owner (mutexes s n)))" "owner (mutexes s n) \<noteq> current_thread s"
  shows "mutex_boost n (current_thread s) s = Some (boosted n s)" and "may_block (boosted n s)"
    and "items (tlists (boosted n s)) (Mutex_wait k) = items (tlists s) (Mutex_wait k)"
    and "prio_of (boosted n s) (owner (mutexes s n)) \<le> prio_of s (current_thread s)"
    and "x \<noteq> owner (mutexes s n) \<Longrightarrow> threads (boosted n s) x = threads s x"
    and "live (threads (boosted n s) x) = live (threads s x)"
proof -
  note m = may_blockD [OF b]
  note p = running_prio [OF m(1)]
  show "mutex_boost n (current_thread s) s = Some (boosted n s)"
    using control_priority_eq [OF m(5) o(1) p] by (simp add: mutex_boost_def boosted_def)
  show "may_block (boosted n s)" using may_block_reprio [OF b o p] b by (simp add: boosted_def)
  show "items (tlists (boosted n s)) (Mutex_wait k) = items (tlists s) (Mutex_wait k)"
    using reprio_waits [OF sched_okD(1) [OF kernel_okD(1) [OF m(5)]], of "Mutex_wait k"] by (simp add: boosted_def)
  show "prio_of (boosted n s) (owner (mutexes s n)) \<le> prio_of s (current_thread s)"
    by (auto simp: boosted_def)
  show "x \<noteq> owner (mutexes s n) \<Longrightarrow> threads (boosted n s) x = threads s x" by (simp add: boosted_def)
  show "live (threads (boosted n s) x) = live (threads s x)" by (auto simp: boosted_def live_def)
qed

lemma mutex_take_blocks:
  assumes b: "may_block s" and ok: "mutex_ok n s" and o: "owner (mutexes s n) \<noteq> 0" "owner (mutexes s n) \<noteq> current_thread s"
    and x: "timeout \<noteq> 0" "timeout < 0x7FFFFFFF"
  shows "\<exists>s'. rt_mutex_take n timeout s = Some (Blocked, s') \<and> kernel_ok s' \<and> mutex_ok n s' \<and>
    current_thread s' \<noteq> current_thread s \<and>
    mutexes s' = mutexes s \<and> items (tlists s') (Mutex_wait n) =
      wait_insert RT_IPC_FLAG_PRIO (prio_of s) (current_thread s) (items (tlists s) (Mutex_wait n)) \<and>
    thread_stat (threads s' (current_thread s)) = RT_THREAD_SUSPEND \<and> thread_error (threads s' (current_thread s)) = RT_EOK \<and>
    prio_of s' (owner (mutexes s n)) \<le> prio_of s (current_thread s)"
proof -
  let ?c = "current_thread s" and ?o = "owner (mutexes s n)" and ?s1 = "boosted n (no_error s)"
  have b1: "may_block (no_error s)"
    using b running_error [OF may_blockD(1) [OF b], where e = 0] by (simp add: may_block_def)
  have v: "mutex_value (mutexes s n) = 0" "live (threads s ?o)" "mutex_flag (mutexes s n) = 1" "is_mutex n s"
    "?o \<notin> set (items (tlists s) (Mutex_wait n))"
    using ok o by (auto simp: mutex_ok_def)
  have lo: "live (threads (no_error s) ?o)" using v(2) by (auto simp: live_def)
  note bo = boosted_ok [of "no_error s" n, simplified, OF b1 v(2) o(2)]
  note m = may_blockD [OF bo(2)]
  obtain s' where s': "blocked_on (Mutex_wait n) RT_IPC_FLAG_PRIO timeout ?s1 s'"
    using mutex_wait.block_ok [OF m(1) _ x(2) m(2,4), of RT_IPC_FLAG_PRIO] by auto
  note d = blocked_onD [OF s'] and g = blocked_on_frame [OF s']
  have ms: "mutexes s' = mutexes s" "obj_type s' = obj_type s" using g(1) by (simp_all add: ipc_same_def)
  have th: "threads s' ?c = set_stat RT_THREAD_SUSPEND ((threads s ?c)\<lparr>thread_error := RT_EOK\<rparr>)"
    using d(8) bo(5) [of ?c] o(2) by simp
  have "wait_insert 1 (prio_of ?s1) ?c (items (tlists s) (Mutex_wait n)) =
      wait_insert 1 (prio_of s) ?c (items (tlists s) (Mutex_wait n))"
  proof (rule wait_insert_cong)
    show "prio_of ?s1 ?c = prio_of s ?c" using bo(5) [of ?c] o(2) by simp
    show "prio_of ?s1 y = prio_of s y" if "y \<in> set (items (tlists s) (Mutex_wait n))" for y
    proof -
      have "y \<noteq> ?o" using that v(5) by metis
      then show ?thesis using bo(5) [of y] by simp
    qed
  qed
  then have it: "items (tlists s') (Mutex_wait n) = wait_insert 1 (prio_of s) ?c (items (tlists s) (Mutex_wait n))"
    using d(9) bo(3) [of n] by simp
  have "rt_mutex_take n timeout s = Some (Blocked, s')"
    using may_blockD(6) [OF b] v x(1) o bo(1) d(1-3,6)
    by (simp add: rt_mutex_take_def rt_thread_self_def Let_def)
  moreover have "prio_of s' ?o \<le> prio_of s ?c"
    using bo(4) stat_upd_fields(1) [OF g(3) [of ?o]] o(2) by simp
  moreover have "mutex_ok n s'"
    using ok o v(5) ms it blocked_on_live [OF s', of ?o] bo(6) [of ?o] lo
    by (simp add: mutex_ok_def is_mutex_def split: if_splits)
  ultimately show ?thesis using d(4,6) ms it th by (simp add: stat_simps)
qed

text \<open>The last release: the priority goes back to the one remembered at the take.\<close>

definition unboosted :: "nat \<Rightarrow> kernel \<Rightarrow> kernel" where
  "unboosted n s = (if original_priority (mutexes s n) \<noteq> prio_of s (owner (mutexes s n))
     then reprio (owner (mutexes s n)) (original_priority (mutexes s n)) s else s)"

lemma unboosted_ok:
  assumes k: "kernel_ok s" and o: "live (threads s (owner (mutexes s n)))" "unat (original_priority (mutexes s n)) < 32"
  shows "mutex_unboost n s = Some (unboosted n s)" and "kernel_ok (unboosted n s)"
    and "items (tlists (unboosted n s)) (Mutex_wait m) = items (tlists s) (Mutex_wait m)"
    and "prio_of (unboosted n s) (owner (mutexes s n)) = original_priority (mutexes s n)"
    and "mutexes (unboosted n s) = mutexes s" and "obj_type (unboosted n s) = obj_type s"
    and "current_thread (unboosted n s) = current_thread s"
    and "t \<noteq> owner (mutexes s n) \<Longrightarrow> threads (unboosted n s) t = threads s t"
proof -
  show "mutex_unboost n s = Some (unboosted n s)"
    using control_priority_eq [OF k o] by (simp add: mutex_unboost_def unboosted_def)
  show "kernel_ok (unboosted n s)" using kernel_ok_reprio [OF k o] k by (simp add: unboosted_def)
  show "items (tlists (unboosted n s)) (Mutex_wait m) = items (tlists s) (Mutex_wait m)"
    using reprio_waits [OF sched_okD(1) [OF kernel_okD(1) [OF k]], of "Mutex_wait m"] by (simp add: unboosted_def)
qed (simp_all add: unboosted_def)

lemma mutex_release_hands_over:
  assumes k: "kernel_ok s" and ok: "mutex_ok n s" and c: "owner (mutexes s n) = current_thread s" "current_thread s \<noteq> 0"
    and i: "interrupt_nest s = 0" and h: "hold (mutexes s n) = 1" and it: "items (tlists s) (Mutex_wait n) = w # ws"
  shows "\<exists>s'. rt_mutex_release n s = Some (RT_EOK, s') \<and> kernel_ok s' \<and> mutex_ok n s' \<and>
    mutex_view n s' = (Some w, 1, ws) \<and> awake s' w \<and> thread_error (threads s' w) = thread_error (threads s w) \<and>
    original_priority (mutexes s' n) = prio_of s w \<and> prio_of s' (current_thread s) = original_priority (mutexes s n)"
proof -
  let ?c = "current_thread s"
  let ?s0 = "upd_mutex n (\<lambda>m. m\<lparr>hold := hold m - 1\<rparr>) s"
  have f: "is_mutex n s" "live (threads s ?c)" "unat (original_priority (mutexes s n)) < 32"
    "?c \<notin> set (w # ws)" "mutex_flag (mutexes s n) = 1" "mutex_value (mutexes s n) = 0"
    using ok c it by (auto simp: mutex_ok_def)
  note u = unboosted_ok [of ?s0 n, simplified, OF k, unfolded c(1), OF f(2,3)]
  let ?s1 = "unboosted n ?s0"
  let ?s2 = "upd_mutex n (\<lambda>m. m\<lparr>hold := hold m + 1\<rparr>)
    (upd_mutex n (\<lambda>m. m\<lparr>owner := w, original_priority := prio_of ?s1 w\<rparr>) ?s1)"
  have wc: "w \<noteq> ?c" using f(4) by auto
  have tw: "threads ?s1 w = threads s w" using u(8) [of w] wc by simp
  have k2: "kernel_ok ?s2" and it2: "items (tlists ?s2) (Mutex_wait n) = w # ws" using u(2,3) it by simp_all
  have "thread_stat (threads s w) = RT_THREAD_SUSPEND"
    using mutex_wait.waiters(1) [OF k, where t = w and n = n] it by simp
  then have w: "w \<noteq> 0" "unat (prio_of s w) < 32"
    using queue_okD(4) [OF sched_okD(1) [OF kernel_okD(1) [OF k]] suspended_live] by (auto simp: prio_ok_def)
  note r = mutex_wait.resume_first [OF k2 it2]
  obtain s' where s': "rt_schedule (resumed w ?s2) = Some s'" "kernel_ok s'" "sched_frame (resumed w ?s2) s'"
    using schedule_kernel_ok [OF r(2)] by blast
  have g: "ipc_same ?s2 s'" using ipc_same_trans [OF ipc_same_resumed ipc_same_frame [OF s'(3)]] .
  have it': "items (tlists s') (Mutex_wait n) = ws"
    using sched_frameD(4) [OF s'(3), of "Mutex_wait n"] r(3) by simp
  have m': "mutexes s' n = (mutexes s n)\<lparr>owner := w, original_priority := prio_of s w, hold := 1\<rparr>"
    using g u(5) tw h by (simp add: ipc_same_def)
  have aw: "awake s' w"
    using sched_frameD(3) [OF s'(3), of w] by (auto simp: awake_def stat_simps)
  have "rt_mutex_release n s = Some (RT_EOK, s')"
    using f(1) c i h it u(1,3,5) r(1) s'(1)
    by (simp add: rt_mutex_release_def rt_thread_self_def Let_def)
  moreover have "thread_error (threads s' w) = thread_error (threads s w)"
    using sched_frame_thread(3) [OF s'(3), of w] tw by simp
  moreover have "prio_of s' ?c = original_priority (mutexes s n)"
    using sched_frame_thread(1) [OF s'(3), of ?c] u(4) wc by simp
  moreover have "mutex_ok n s'"
    using m' it' g f aw w u(6) mutex_wait.distinct_waiters [OF k2, of n] it2
    by (auto simp: mutex_ok_def is_mutex_def ipc_same_def awake_def live_def)
  ultimately show ?thesis using s'(2) m' it' aw w(1) by (simp add: mutex_view_def)
qed

lemma mutex_release_frees:
  assumes k: "kernel_ok s" and ok: "mutex_ok n s" and c: "owner (mutexes s n) = current_thread s" "current_thread s \<noteq> 0"
    and i: "interrupt_nest s = 0" and h: "hold (mutexes s n) = 1" and it: "items (tlists s) (Mutex_wait n) = []"
  shows "\<exists>s'. rt_mutex_release n s = Some (RT_EOK, s') \<and> kernel_ok s' \<and> mutex_ok n s' \<and>
    mutex_view n s' = (None, 0, []) \<and> prio_of s' (current_thread s) = original_priority (mutexes s n) \<and>
    (\<forall>m. m \<noteq> n \<longrightarrow> mutexes s' m = mutexes s m \<and>
       items (tlists s') (Mutex_wait m) = items (tlists s) (Mutex_wait m)) \<and>
    (\<forall>t. t \<noteq> current_thread s \<longrightarrow> threads s' t = threads s t)"
proof -
  let ?c = "current_thread s"
  let ?s0 = "upd_mutex n (\<lambda>m. m\<lparr>hold := hold m - 1\<rparr>) s"
  have f: "is_mutex n s" "live (threads s ?c)" "unat (original_priority (mutexes s n)) < 32"
    "mutex_flag (mutexes s n) = 1" "mutex_value (mutexes s n) = 0"
    using ok c by (auto simp: mutex_ok_def)
  note u = unboosted_ok [of ?s0 n, simplified, OF k, unfolded c(1), OF f(2,3)]
  let ?s1 = "upd_mutex n (\<lambda>m. m\<lparr>mutex_value := mutex_value m + 1, owner := 0, original_priority := 0xFF\<rparr>) (unboosted n ?s0)"
  have "rt_mutex_release n s = Some (RT_EOK, ?s1)"
    using f c i h it u(1,3,5) by (simp add: rt_mutex_release_def rt_thread_self_def Let_def)
  moreover have "mutex_ok n ?s1" using f it h u(3,5,6) by (simp add: mutex_ok_def is_mutex_def)
  moreover have "mutex_view n ?s1 = (None, 0, [])" using it h u(3,5) by (simp add: mutex_view_def)
  moreover have "prio_of ?s1 ?c = original_priority (mutexes s n)" using u(4) by simp
  ultimately show ?thesis using u(2,3,5,8) by auto
qed

section \<open>A concrete system\<close>

text \<open>Thread 3 holds the mutexes 7 and 8, taken at its own priority 10, and runs at priority 5, inherited from
  thread 5, which waits for mutex 7.\<close>

definition demo_mutex :: kernel where
  "demo_mutex = reprio 3 5 ((demo_wait (Mutex_wait 7) (Mutex_obj 7) 0x83)
     \<lparr>obj_type := (obj_type (demo_wait (Mutex_wait 7) (Mutex_obj 7) 0x83))(Mutex_obj 8 := 0x83),
      mutexes := (\<lambda>_. \<lparr>mutex_flag = 1, mutex_value = 0, original_priority = 10, hold = 1, owner = 3\<rparr>)\<rparr>)"

lemma demo_mutex_fields [simp]:
  "current_thread demo_mutex = 3" "interrupt_nest demo_mutex = 0" "lock_nest demo_mutex = 0"
  "mutexes demo_mutex n = \<lparr>mutex_flag = 1, mutex_value = 0, original_priority = 10, hold = 1, owner = 3\<rparr>"
  "threads demo_mutex t = (if t = 3 then with_prio 5 (threads demo_kernel 3) else threads demo_kernel t)"
  by (simp_all add: demo_mutex_def) (simp add: demo_wait_def)

lemma demo_mutex_waits [simp]:
  "items (tlists demo_mutex) (Mutex_wait n) = (if n = 7 then [5] else [])"
  by (simp add: demo_mutex_def reprio_def demo_wait_def)

lemma demo_mutex_ok: "kernel_ok demo_mutex" "mutex_ok 7 demo_mutex" "mutex_ok 8 demo_mutex"
proof -
  let ?d = "demo_wait (Mutex_wait 7) (Mutex_obj 7) 0x83"
  have "kernel_ok ?d" by (rule mutex_wait.demo_wait_ok) auto
  then have "kernel_ok (?d\<lparr>obj_type := (obj_type ?d)(Mutex_obj 8 := 0x83)\<rparr>)"
    by (subst kernel_ok_object) auto
  then show "kernel_ok demo_mutex"
    unfolding demo_mutex_def by (intro kernel_ok_reprio) (auto simp: live_def)
  have "obj_type demo_mutex (Mutex_obj 7) = 0x83" "obj_type demo_mutex (Mutex_obj 8) = 0x83"
    by (simp_all add: demo_mutex_def)
  then show "mutex_ok 7 demo_mutex" "mutex_ok 8 demo_mutex"
    by (simp_all add: mutex_ok_def is_mutex_def rt_object_get_type_def live_def)
qed

lemma demo_mutex_view: "mutex_view 7 demo_mutex = (Some 3, 1, [5])"
  by (simp add: mutex_view_def)

text \<open>Mutex 7 held by the ready thread 4, with thread 5 waiting for it.\<close>

definition demo_held :: kernel where
  "demo_held = (demo_wait (Mutex_wait 7) (Mutex_obj 7) 0x83)\<lparr>mutexes :=
     (\<lambda>_. \<lparr>mutex_flag = 1, mutex_value = 0, original_priority = 10, hold = 1, owner = 4\<rparr>)\<rparr>"

lemma demo_held_ok: "may_block demo_held" "mutex_ok 7 demo_held"
proof -
  have "may_block (demo_wait (Mutex_wait 7) (Mutex_obj 7) 0x83)" by (rule mutex_wait.demo_wait_may_block) auto
  then show "may_block demo_held" by (simp add: may_block_def demo_held_def)
  show "mutex_ok 7 demo_held"
    by (simp add: mutex_ok_def is_mutex_def demo_held_def rt_object_get_type_def live_def)
qed

lemma demo_held_view: "mutex_view 7 demo_held = (Some 4, 1, [5])"
  by (simp add: mutex_view_def demo_held_def)

section \<open>Properties\<close>

text \<open>C13. \<^verbatim>\<open>rt_mutex_take\<close> implements the abstract recursive mutex: at most one owner, nested takes by the owner
  counted up to 255, everybody else refused or queued by priority; and with priority inheritance, so that
  while the caller waits the owner runs at least as urgently as the caller.\<close>

theorem mutex_take_refines:
  assumes "may_block s" and "mutex_ok n s" and "timeout < 0x7FFFFFFF"
  defines "c \<equiv> current_thread s"
  shows "\<exists>r s'. rt_mutex_take n timeout s = Some (r, s') \<and> kernel_ok s' \<and> mutex_ok n s' \<and>
    (r, mutex_view n s') =
      mutex_spec_take c (timeout \<noteq> 0) (wait_insert RT_IPC_FLAG_PRIO (prio_of s) c) (mutex_view n s) \<and>
    (r = Blocked \<longrightarrow> current_thread s' \<noteq> c \<and> thread_stat (threads s' c) = RT_THREAD_SUSPEND \<and>
       thread_error (threads s' c) = RT_EOK \<and> prio_of s' (owner (mutexes s' n)) \<le> prio_of s c)"
proof (cases "owner (mutexes s n) \<noteq> 0 \<and> owner (mutexes s n) \<noteq> c \<and> timeout \<noteq> 0")
  case True
  then obtain s' where "rt_mutex_take n timeout s = Some (Blocked, s') \<and> kernel_ok s' \<and> mutex_ok n s' \<and>
    current_thread s' \<noteq> c \<and> mutexes s' = mutexes s \<and> items (tlists s') (Mutex_wait n) =
      wait_insert RT_IPC_FLAG_PRIO (prio_of s) c (items (tlists s) (Mutex_wait n)) \<and>
    thread_stat (threads s' c) = RT_THREAD_SUSPEND \<and> thread_error (threads s' c) = RT_EOK \<and>
    prio_of s' (owner (mutexes s n)) \<le> prio_of s c"
    using mutex_take_blocks [OF assms(1,2)] assms(3) unfolding c_def by blast
  then show ?thesis using True by (simp add: mutex_view_def)
next
  case False
  note m = may_blockD [OF assms(1)]
  have c0: "c \<noteq> 0" using runningD(3) [OF m(1)] by (simp add: c_def)
  have k: "kernel_ok (upd_thread c (\<lambda>th. th\<lparr>thread_error := e\<rparr>) s)" for e
    by (rule kernel_ok_upd_thread [OF m(5)]) simp_all
  have k2: "kernel_ok (upd_thread c (\<lambda>th. th\<lparr>thread_error := e\<rparr>) (upd_thread c (\<lambda>th. th\<lparr>thread_error := e'\<rparr>) s))" for e e'
    by (rule kernel_ok_upd_thread [OF k]) simp_all
  have lc: "live (threads s c)" using running_live [OF runningD(2) [OF m(1)]] by (simp add: c_def)
  have pc: "unat (prio_of s c) < 32" using running_prio [OF m(1)] by (simp add: c_def)
  have inc: "unat (h + 1) = unat h + 1" if "h < 0xFF" for h :: u8
    using that by (subst unat_word_ariths) (simp add: word_less_nat_alt)
  have lt: "h < 0xFF \<longleftrightarrow> unat h < 255" for h :: u8 by (simp add: word_less_nat_alt)
  have nz: "h + 1 \<noteq> 0" if "h < 0xFF" for h :: u8 using inc [OF that] by (metis add_is_0 unat_0 zero_neq_one)
  have lv: "live (if x = c then (threads s c)\<lparr>thread_error := e\<rparr> else threads s x) = live (threads s x)" for x e
    by (simp add: live_def)
  show ?thesis
  proof (cases "owner (mutexes s n) = 0")
    case True
    then show ?thesis
      using m(6) assms(2) k c0 lc pc
      by (simp add: rt_mutex_take_def rt_thread_self_def Let_def c_def [symmetric] mutex_ok_def is_mutex_def
          mutex_view_def live_def)
  next
    case owned: False
    show ?thesis
    proof (cases "owner (mutexes s n) = c")
      case True
      then show ?thesis
        using owned m(6) assms(2) k lc inc nz
        by (auto simp: rt_mutex_take_def rt_thread_self_def Let_def c_def [symmetric] mutex_ok_def is_mutex_def
            mutex_view_def live_def lt)
    next
      case other: False
      then show ?thesis
        using owned False m(6) assms(2) k2
        by (auto simp: rt_mutex_take_def rt_thread_self_def Let_def c_def [symmetric] mutex_ok_def is_mutex_def
            mutex_view_def lv)
    qed
  qed
qed

theorem mutex_take_refines_witness:
  "\<exists>s'. rt_mutex_take 7 20 demo_held = Some (Blocked, s') \<and> mutex_view 7 s' = (Some 4, 1, [5, 3])"
  using mutex_take_refines [OF demo_held_ok, of 20] demo_held_view by (auto simp: wait_insert_def demo_held_def)

text \<open>C14. \<^verbatim>\<open>rt_mutex_release\<close> implements the abstract mutex: only the owner can release; inner releases count
  down; the last one frees the mutex or makes the first waiter its owner, awake and with the wait's error
  code untouched; and the releaser's priority is back at the one it had when it took the mutex.\<close>

theorem mutex_release_refines:
  assumes "kernel_ok s" and "mutex_ok n s" and "current_thread s \<noteq> 0" and "interrupt_nest s = 0"
  defines "c \<equiv> current_thread s"
  shows "\<exists>e s'. rt_mutex_release n s = Some (e, s') \<and> kernel_ok s' \<and> mutex_ok n s' \<and>
    (e, mutex_view n s') = mutex_spec_release c (mutex_view n s) \<and>
    (owner (mutexes s n) = c \<and> hold (mutexes s n) = 1 \<longrightarrow> prio_of s' c = original_priority (mutexes s n) \<and>
      (\<forall>w ws. items (tlists s) (Mutex_wait n) = w # ws \<longrightarrow>
         awake s' w \<and> thread_error (threads s' w) = thread_error (threads s w)))"
proof (cases "owner (mutexes s n) = c \<and> hold (mutexes s n) = 1")
  case True
  then show ?thesis
    using mutex_release_hands_over [OF assms(1,2) _ assms(3,4)] mutex_release_frees [OF assms(1,2) _ assms(3,4)] assms(3)
    by (cases "items (tlists s) (Mutex_wait n)") (fastforce simp: c_def mutex_view_def)+
next
  case False
  show ?thesis
  proof (cases "owner (mutexes s n) = c")
    case True
    let ?h = "hold (mutexes s n)"
    have h0: "?h \<noteq> 0" "?h \<noteq> 1" using assms(2,3) True False by (auto simp: mutex_ok_def c_def)
    then have "?h - 1 \<noteq> 0" by simp
    moreover have "unat ?h > 1"
      using h0 by (metis One_nat_def less_one linorder_neqE_nat unat_1 unat_eq_zero unsigned_word_eqI)
    moreover have "unat (?h - 1) = unat ?h - 1" using h0(1) by (rule unat_minus_one)
    ultimately show ?thesis
      using True False assms(1-4)
      by (simp add: c_def rt_mutex_release_def rt_thread_self_def Let_def mutex_ok_def is_mutex_def mutex_view_def)
  next
    case other: False
    have k: "kernel_ok (upd_thread c (\<lambda>th. th\<lparr>thread_error := - RT_ERROR\<rparr>) s)"
      by (rule kernel_ok_upd_thread [OF assms(1)]) simp_all
    have "mutex_ok n (upd_thread c (\<lambda>th. th\<lparr>thread_error := - RT_ERROR\<rparr>) s)"
      by (rule mutex_ok_cong [OF _ _ _ _ assms(2)]) (auto simp: live_def)
    then show ?thesis
      using other assms(2-4) k
      by (auto simp: rt_mutex_release_def rt_thread_self_def Let_def mutex_view_def mutex_ok_def c_def)
  qed
qed

theorem mutex_release_refines_witness:
  "\<exists>s'. rt_mutex_release 7 demo_mutex = Some (RT_EOK, s') \<and> mutex_view 7 s' = (Some 5, 1, []) \<and> prio_of s' 3 = 10"
  using mutex_release_refines [OF demo_mutex_ok(1,2)] demo_mutex_view by auto

text \<open>Inherited priority is lost too early: a thread that owns two mutexes, with a waiter on the first, and
  releases the second, drops back to the priority remembered by the second. It still owns the first and
  now runs less urgently than the thread that waits for it.\<close>

theorem nested_release_drops_inheritance:
  assumes "kernel_ok s" and "mutex_ok b s" and "current_thread s \<noteq> 0" and "interrupt_nest s = 0" and "a \<noteq> b"
    and "owner (mutexes s a) = current_thread s" and "owner (mutexes s b) = current_thread s"
    and "hold (mutexes s b) = 1" and "items (tlists s) (Mutex_wait b) = []"
    and "t \<in> set (items (tlists s) (Mutex_wait a))" and "t \<noteq> current_thread s"
    and "prio_of s t < original_priority (mutexes s b)"
  shows "\<exists>s'. rt_mutex_release b s = Some (RT_EOK, s') \<and> owner (mutexes s' a) = current_thread s \<and>
    t \<in> set (items (tlists s') (Mutex_wait a)) \<and> prio_of s' t < prio_of s' (current_thread s)"
proof -
  obtain s' where "rt_mutex_release b s = Some (RT_EOK, s')"
    "prio_of s' (current_thread s) = original_priority (mutexes s b)"
    "\<forall>m. m \<noteq> b \<longrightarrow> mutexes s' m = mutexes s m \<and> items (tlists s') (Mutex_wait m) = items (tlists s) (Mutex_wait m)"
    "\<forall>t. t \<noteq> current_thread s \<longrightarrow> threads s' t = threads s t"
    using mutex_release_frees [OF assms(1,2,7,3,4,8,9)] by blast
  then show ?thesis using assms(5,6,10-12) by auto
qed

theorem nested_release_drops_inheritance_witness:
  "\<exists>s'. rt_mutex_release 8 demo_mutex = Some (RT_EOK, s') \<and> owner (mutexes s' 7) = 3 \<and> prio_of s' 5 < prio_of s' 3"
  using nested_release_drops_inheritance [OF demo_mutex_ok(1,3), of 7 5] by auto

end
