(* ===== verification/Rt_Event.thy ===== *)
theory Rt_Event
  imports Rt_IpcList
begin

text \<open>
  Event flags of \<^verbatim>\<open>src/ipc.c\<close>: 32 bits, a thread waits for all or for any of a set of them. \<^verbatim>\<open>rt_event_send\<close>
  walks the queue once; the node of the next thread is read before the current one is taken off, so the
  walk visits the threads of the queue as it was at the start.
\<close>

section \<open>Operations\<close>

abbreviation (input) RT_EVENT_FLAG_AND :: u8 where "RT_EVENT_FLAG_AND \<equiv> 0x01"
abbreviation (input) RT_EVENT_FLAG_OR :: u8 where "RT_EVENT_FLAG_OR \<equiv> 0x02"
abbreviation (input) RT_EVENT_FLAG_CLEAR :: u8 where "RT_EVENT_FLAG_CLEAR \<equiv> 0x04"

definition has_flag :: "u8 \<Rightarrow> u8 \<Rightarrow> bool" where
  "has_flag info f = (info AND f \<noteq> 0)"

definition is_event :: "nat \<Rightarrow> kernel \<Rightarrow> bool" where
  "is_event n s = (n \<noteq> 0 \<and> rt_object_get_type (obj_type s (Event_obj n)) = RT_Object_Class_Event)"

definition upd_event :: "nat \<Rightarrow> (rt_event \<Rightarrow> rt_event) \<Rightarrow> kernel \<Rightarrow> kernel" where
  "upd_event n f s = s\<lparr>events := (events s)(n := f (events s n))\<rparr>"

definition rt_event_init :: "nat \<Rightarrow> string \<Rightarrow> u8 \<Rightarrow> kernel \<Rightarrow> (rt_err_t \<times> kernel) option" where
  "rt_event_init n name flag s = do {
     rt_assert (n \<noteq> 0);
     rt_assert (flag = RT_IPC_FLAG_FIFO \<or> flag = RT_IPC_FLAG_PRIO);
     s \<leftarrow> rt_object_init (Event_obj n) RT_Object_Class_Event name s;
     let s = upd_event n (\<lambda>e. e\<lparr>event_flag := flag\<rparr>) s;
     s \<leftarrow> ipc_object_init (Event_wait n) s;
     Some (RT_EOK, upd_event n (\<lambda>e. e\<lparr>event_bits := 0\<rparr>) s)
   }"

definition rt_event_detach :: "nat \<Rightarrow> kernel \<Rightarrow> (rt_err_t \<times> kernel) option" where
  "rt_event_detach n s = do {
     rt_assert (is_event n s);
     rt_assert (rt_object_is_systemobject (obj_type s (Event_obj n)));
     s \<leftarrow> ipc_list_resume_all (Event_wait n) s;
     Some (RT_EOK, rt_object_detach (Event_obj n) s)
   }"

definition rt_event_create :: "nat option \<Rightarrow> string \<Rightarrow> u8 \<Rightarrow> kernel \<Rightarrow> (nat option \<times> kernel) option" where
  "rt_event_create mem name flag s = do {
     rt_assert (flag = RT_IPC_FLAG_FIFO \<or> flag = RT_IPC_FLAG_PRIO);
     rt_assert (interrupt_nest s = 0);
     (_, s) \<leftarrow> rt_object_allocate (map_option Event_obj mem) RT_Object_Class_Event name s;
     case mem of
       None \<Rightarrow> Some (None, s)
     | Some n \<Rightarrow> do {
         let s = upd_event n (\<lambda>e. e\<lparr>event_flag := flag\<rparr>) s;
         s \<leftarrow> ipc_object_init (Event_wait n) s;
         Some (Some n, upd_event n (\<lambda>e. e\<lparr>event_bits := 0\<rparr>) s)
       }
   }"

definition rt_event_delete :: "nat \<Rightarrow> kernel \<Rightarrow> (rt_err_t \<times> kernel) option" where
  "rt_event_delete n s = do {
     rt_assert (is_event n s);
     rt_assert (\<not> rt_object_is_systemobject (obj_type s (Event_obj n)));
     rt_assert (interrupt_nest s = 0);
     s \<leftarrow> ipc_list_resume_all (Event_wait n) s;
     s \<leftarrow> rt_object_delete (Event_obj n) s;
     Some (RT_EOK, s)
   }"

text \<open>The test of one waiting thread: \<open>None\<close> when its options name neither mode, else whether it is
  satisfied and the value of its \<^verbatim>\<open>event_set\<close> afterwards.\<close>

definition event_test :: "u32 \<Rightarrow> rt_thread \<Rightarrow> (bool \<times> u32) option" where
  "event_test bits th =
     (if has_flag (event_info th) RT_EVENT_FLAG_AND
      then Some (event_set th AND bits = event_set th, event_set th)
      else if has_flag (event_info th) RT_EVENT_FLAG_OR
      then Some (if event_set th AND bits \<noteq> 0 then (True, event_set th AND bits) else (False, event_set th))
      else None)"

text \<open>The walk of \<^verbatim>\<open>rt_event_send\<close>; the flag in the result is false when it was cut short.\<close>

fun event_scan :: "nat \<Rightarrow> tid list \<Rightarrow> bool \<Rightarrow> kernel \<Rightarrow> (bool \<times> bool \<times> kernel) option" where
  "event_scan n [] need_schedule s = Some (True, need_schedule, s)"
| "event_scan n (t # ts) need_schedule s =
     (case event_test (event_bits (events s n)) (threads s t) of
        None \<Rightarrow> Some (False, need_schedule, s)
      | Some (ok, es) \<Rightarrow> do {
          let s = upd_thread t (\<lambda>th. th\<lparr>event_set := es\<rparr>) s;
          s \<leftarrow> (if ok then do {
                  let s = (if has_flag (event_info (threads s t)) RT_EVENT_FLAG_CLEAR
                    then upd_event n (\<lambda>e. e\<lparr>event_bits := event_bits e AND NOT (event_set (threads s t))\<rparr>) s else s);
                  (_, s) \<leftarrow> rt_thread_resume t s;
                  Some s
                }
                else Some s);
          event_scan n ts (need_schedule \<or> ok) s
        })"

definition rt_event_send :: "nat \<Rightarrow> u32 \<Rightarrow> kernel \<Rightarrow> (rt_err_t \<times> kernel) option" where
  "rt_event_send n bits s = do {
     rt_assert (is_event n s);
     if bits = 0 then Some (- RT_ERROR, s)
     else do {
       let s = upd_event n (\<lambda>e. e\<lparr>event_bits := event_bits e OR bits\<rparr>) s;
       (complete, need_schedule, s) \<leftarrow> event_scan n (items (tlists s) (Event_wait n)) False s;
       if \<not> complete then Some (- RT_EINVAL, s)
       else do {
         s \<leftarrow> (if need_schedule then rt_schedule s else Some s);
         Some (RT_EOK, s)
       }
     }
   }"

text \<open>The end of \<^verbatim>\<open>rt_event_recv\<close> for a thread that had to wait: error code and \<^verbatim>\<open>*recved\<close>, if it was written.\<close>

definition event_recv_resume :: "tid \<Rightarrow> kernel \<Rightarrow> rt_err_t \<times> u32 option" where
  "event_recv_resume t s =
     (if thread_error (threads s t) \<noteq> RT_EOK then (thread_error (threads s t), None)
      else (thread_error (threads s t), Some (event_set (threads s t))))"

definition rt_event_recv :: "nat \<Rightarrow> u32 \<Rightarrow> u8 \<Rightarrow> int \<Rightarrow> kernel \<Rightarrow> (outcome \<times> u32 option \<times> kernel) option" where
  "rt_event_recv n bits opt timeout s = do {
     rt_assert (is_event n s);
     rt_assert (scheduler_available s);
     if bits = 0 then Some (Returned (- RT_ERROR), None, s)
     else do {
       let t = rt_thread_self s;
       let s = upd_thread t (\<lambda>th. th\<lparr>thread_error := RT_EOK\<rparr>) s;
       let e = event_bits (events s n);
       rt_assert (has_flag opt RT_EVENT_FLAG_AND \<or> has_flag opt RT_EVENT_FLAG_OR);
       let ok = (if has_flag opt RT_EVENT_FLAG_AND then e AND bits = bits else e AND bits \<noteq> 0);
       if ok then do {
         let s = upd_thread t (\<lambda>th. th\<lparr>event_set := e AND bits, event_info := opt\<rparr>) s;
         let s = (if has_flag opt RT_EVENT_FLAG_CLEAR
                  then upd_event n (\<lambda>ev. ev\<lparr>event_bits := event_bits ev AND NOT bits\<rparr>) s else s);
         Some (Returned (thread_error (threads s t)), Some (e AND bits), s)
       }
       else if timeout = 0 then
         Some (Returned (- RT_ETIMEOUT), None, upd_thread t (\<lambda>th. th\<lparr>thread_error := - RT_ETIMEOUT\<rparr>) s)
       else do {
         let s = upd_thread t (\<lambda>th. th\<lparr>event_set := bits, event_info := opt\<rparr>) s;
         s \<leftarrow> ipc_list_suspend (Event_wait n) t (event_flag (events s n)) s;
         s \<leftarrow> ipc_start_timeout t timeout s;
         s \<leftarrow> rt_schedule s;
         if current_thread s \<noteq> t then Some (Blocked, None, s)
         else Some (let (err, recved) = event_recv_resume t s in (Returned err, recved, s))
       }
     }
   }"

definition rt_event_control :: "nat \<Rightarrow> int \<Rightarrow> u64 \<Rightarrow> kernel \<Rightarrow> (rt_err_t \<times> kernel) option" where
  "rt_event_control n cmd arg s = do {
     rt_assert (is_event n s);
     if cmd = RT_IPC_CMD_RESET then do {
       s \<leftarrow> ipc_list_resume_all (Event_wait n) s;
       let s = upd_event n (\<lambda>e. e\<lparr>event_bits := 0\<rparr>) s;
       s \<leftarrow> rt_schedule s;
       Some (RT_EOK, s)
     }
     else Some (- RT_ERROR, s)
   }"

section \<open>The walk as a function of the queue\<close>

interpretation event_wait: wait_head "Event_wait n" for n
  by unfold_locales auto

lemma upd_event_fields [simp]:
  "events (upd_event n f s) = (events s)(n := f (events s n))"
  "threads (upd_event n f s) = threads s" "tlists (upd_event n f s) = tlists s"
  "current_thread (upd_event n f s) = current_thread s" "lock_nest (upd_event n f s) = lock_nest s"
  "ready_group (upd_event n f s) = ready_group s" "obj_type (upd_event n f s) = obj_type s"
  "interrupt_nest (upd_event n f s) = interrupt_nest s" "rt_tick (upd_event n f s) = rt_tick s"
  "kernel_ok (upd_event n f s) = kernel_ok s" "runs_highest (upd_event n f s) = runs_highest s"
  "running (upd_event n f s) = running s" "may_block (upd_event n f s) = may_block s"
  by (simp_all add: upd_event_def may_block_def)

definition valid_mode :: "u8 \<Rightarrow> bool" where
  "valid_mode info = (has_flag info RT_EVENT_FLAG_AND \<or> has_flag info RT_EVENT_FLAG_OR)"

text \<open>The condition a thread waits for, and the bits it then receives.\<close>

definition satisfied :: "u32 \<Rightarrow> u32 \<Rightarrow> u8 \<Rightarrow> bool" where
  "satisfied bits es info = (if has_flag info RT_EVENT_FLAG_AND then es AND bits = es else es AND bits \<noteq> 0)"

definition received :: "u32 \<Rightarrow> u32 \<Rightarrow> u8 \<Rightarrow> u32" where
  "received bits es info = (if has_flag info RT_EVENT_FLAG_AND then es else es AND bits)"

fun event_spec :: "(tid \<Rightarrow> u32) \<Rightarrow> (tid \<Rightarrow> u8) \<Rightarrow> tid list \<Rightarrow> u32 \<Rightarrow> (tid \<times> u32) list \<times> tid list \<times> u32" where
  "event_spec es info [] b = ([], [], b)"
| "event_spec es info (t # ts) b =
     (if satisfied b (es t) (info t)
      then let r = received b (es t) (info t);
               (woken, rest, b') = event_spec es info ts (if has_flag (info t) RT_EVENT_FLAG_CLEAR then b AND NOT r else b)
           in ((t, r) # woken, rest, b')
      else let (woken, rest, b') = event_spec es info ts b in (woken, t # rest, b'))"

lemma event_test_spec:
  "valid_mode (event_info th) \<Longrightarrow> event_test b th =
     Some (satisfied b (event_set th) (event_info th),
       if satisfied b (event_set th) (event_info th) then received b (event_set th) (event_info th) else event_set th)"
  by (auto simp: event_test_def valid_mode_def satisfied_def received_def)

lemma event_spec_cong:
  "(\<And>x. x \<in> set ts \<Longrightarrow> es x = es' x \<and> info x = info' x) \<Longrightarrow> event_spec es info ts b = event_spec es' info' ts b"
  by (induction ts arbitrary: b) (auto simp: Let_def split: prod.splits)

definition left_over :: "u32 \<Rightarrow> u32 \<Rightarrow> u8 \<Rightarrow> u32" where
  "left_over b es info = (if has_flag info RT_EVENT_FLAG_CLEAR then b AND NOT (received b es info) else b)"

lemma event_spec_ConsE:
  assumes "event_spec es info (t # ts) b = (woken, rest, b')"
  obtains (hit) w where "satisfied b (es t) (info t)" "woken = (t, received b (es t) (info t)) # w"
      "event_spec es info ts (left_over b (es t) (info t)) = (w, rest, b')"
  | (miss) r where "\<not> satisfied b (es t) (info t)" "rest = t # r" "event_spec es info ts b = (woken, r, b')"
  using assms by (auto simp: Let_def left_over_def split: prod.splits if_splits)

lemma event_spec_sets:
  "event_spec es info ts b = (woken, rest, b') \<Longrightarrow> fst ` set woken \<union> set rest = set ts"
proof (induction ts arbitrary: b woken rest b')
  case (Cons t ts)
  from Cons.prems show ?case
  proof (cases rule: event_spec_ConsE)
    case (hit w)
    then show ?thesis using Cons.IH [OF hit(3)] by auto
  next
    case (miss r)
    then show ?thesis using Cons.IH [OF miss(3)] by auto
  qed
qed simp

lemma event_spec_disjoint:
  "event_spec es info ts b = (woken, rest, b') \<Longrightarrow> distinct ts \<Longrightarrow>
    distinct (map fst woken) \<and> fst ` set woken \<inter> set rest = {}"
proof (induction ts arbitrary: b woken rest b')
  case (Cons t ts)
  from Cons.prems(1) show ?case
  proof (cases rule: event_spec_ConsE)
    case (hit w)
    then show ?thesis using Cons.IH [OF hit(3)] event_spec_sets [OF hit(3)] Cons.prems(2) by auto
  next
    case (miss r)
    then show ?thesis using Cons.IH [OF miss(3)] event_spec_sets [OF miss(3)] Cons.prems(2) by auto
  qed
qed simp

text \<open>The bits only shrink on the way, so that a thread that was passed over stays unsatisfied.\<close>

definition within :: "u32 \<Rightarrow> u32 \<Rightarrow> bool" where
  "within a b = (\<forall>i. bit a i \<longrightarrow> bit b i)"

lemma within_refl [simp]: "within b b"
  by (simp add: within_def)

lemma within_trans: "within a b \<Longrightarrow> within b c \<Longrightarrow> within a c"
  by (simp add: within_def)

lemma within_left_over [simp]: "within (left_over b es info) b"
  by (simp add: within_def left_over_def bit_and_iff)

lemma satisfied_mono:
  assumes "within a b" and "satisfied a es info"
  shows "satisfied b es info"
proof -
  have "es AND b = es" if "es AND a = es"
  proof (rule bit_word_eqI)
    fix i
    have "bit es i \<longrightarrow> bit a i" using that by (metis bit_and_iff)
    then show "bit (es AND b) i = bit es i" using assms(1) by (auto simp: within_def bit_and_iff)
  qed
  moreover have "es AND b \<noteq> 0" if "es AND a \<noteq> 0"
  proof -
    obtain i where "bit (es AND a) i" using \<open>es AND a \<noteq> 0\<close> word_eq_zero_iff_bits by blast
    then have "bit (es AND b) i" using assms(1) by (auto simp: within_def bit_and_iff)
    then show ?thesis by auto
  qed
  ultimately show ?thesis using assms(2) by (auto simp: satisfied_def split: if_splits)
qed

lemma event_spec_shrinks: "event_spec es info ts b = (woken, rest, b') \<Longrightarrow> within b' b"
proof (induction ts arbitrary: b woken rest b')
  case (Cons t ts)
  from Cons.prems show ?case
    by (cases rule: event_spec_ConsE) (use Cons.IH within_trans within_left_over in blast)+
qed simp

lemma event_spec_rest:
  "event_spec es info ts b = (woken, rest, b') \<Longrightarrow> t \<in> set rest \<Longrightarrow> \<not> satisfied b' (es t) (info t)"
proof (induction ts arbitrary: b woken rest b')
  case (Cons x ts)
  from Cons.prems(1) show ?case
  proof (cases rule: event_spec_ConsE)
    case (hit w)
    then show ?thesis using Cons.IH Cons.prems(2) by blast
  next
    case (miss r)
    then show ?thesis
      using Cons.IH [OF miss(3)] Cons.prems(2) satisfied_mono [OF event_spec_shrinks [OF miss(3)]] by auto
  qed
qed simp

text \<open>Every thread that is woken had its condition met by bits that were set.\<close>

lemma event_spec_woken:
  "event_spec es info ts b = (woken, rest, b') \<Longrightarrow> (t, r) \<in> set woken \<Longrightarrow>
    \<exists>a. within a b \<and> satisfied a (es t) (info t) \<and> r = received a (es t) (info t)"
proof (induction ts arbitrary: b woken rest b')
  case (Cons x ts)
  from Cons.prems(1) show ?case
  proof (cases rule: event_spec_ConsE)
    case (hit w)
    show ?thesis
    proof (cases "(t, r) \<in> set w")
      case True
      then show ?thesis using Cons.IH [OF hit(3)] within_trans [OF _ within_left_over] by blast
    next
      case False
      then show ?thesis using hit(1,2) Cons.prems(2) by (intro exI [of _ b]) auto
    qed
  next
    case (miss q)
    then show ?thesis using Cons.IH Cons.prems(2) by blast
  qed
qed simp

section \<open>The walk implements its specification\<close>

abbreviation wanted :: "kernel \<Rightarrow> tid \<Rightarrow> u32" where "wanted s t \<equiv> event_set (threads s t)"
abbreviation mode :: "kernel \<Rightarrow> tid \<Rightarrow> u8" where "mode s t \<equiv> event_info (threads s t)"

definition handed :: "(tid \<times> u32) list \<Rightarrow> kernel \<Rightarrow> kernel \<Rightarrow> bool" where
  "handed woken s s' = (\<forall>x. threads s' x = (case map_of woken x of
     None \<Rightarrow> threads s x
   | Some r \<Rightarrow> set_stat (if x = current_thread s then RT_THREAD_RUNNING else RT_THREAD_READY)
       ((threads s x)\<lparr>event_set := r\<rparr>)))"

lemma event_set_fields [simp]:
  "thread_stat (th\<lparr>event_set := r\<rparr>) = thread_stat th" "event_info (set_stat v th) = event_info th"
  "stack_check (th\<lparr>event_set := r\<rparr>) = stack_check th"
  by (simp_all add: set_stat_def)

lemma scan_hit:
  assumes k: "kernel_ok s" and it: "items (tlists s) (Event_wait n) = pre @ t # ts" and v: "valid_mode (mode s t)"
    and sat: "satisfied (event_bits (events s n)) (wanted s t) (mode s t)"
  defines "r \<equiv> received (event_bits (events s n)) (wanted s t) (mode s t)"
  shows "\<exists>s1. event_scan n (t # ts) need s = event_scan n ts True s1 \<and> kernel_ok s1 \<and>
    items (tlists s1) (Event_wait n) = pre @ ts \<and> ipc_same s (s1\<lparr>events := events s\<rparr>) \<and>
    events s1 = (events s)(n := (events s n)\<lparr>event_bits := left_over (event_bits (events s n)) (wanted s t) (mode s t)\<rparr>) \<and>
    current_thread s1 = current_thread s \<and>
    threads s1 = (threads s)(t := set_stat (if t = current_thread s then RT_THREAD_RUNNING else RT_THREAD_READY)
      ((threads s t)\<lparr>event_set := r\<rparr>))"
proof -
  let ?a = "upd_thread t (\<lambda>th. th\<lparr>event_set := r\<rparr>) s"
  let ?b = "upd_event n (\<lambda>e. e\<lparr>event_bits := left_over (event_bits (events s n)) (wanted s t) (mode s t)\<rparr>) ?a"
  have ka: "kernel_ok ?a" by (rule kernel_ok_upd_thread [OF k]) simp_all
  have kb: "kernel_ok ?b" using ka by simp
  have st: "thread_stat (threads ?b t) = RT_THREAD_SUSPEND"
    using event_wait.waiters(1) [OF k, where t = t and n = n] it by simp
  note re = resume_ok(1) [OF kernel_okD(1,2) [OF kb] st]
  have eb: "(if has_flag (mode ?a t) 4 then upd_event n (\<lambda>e. e\<lparr>event_bits := event_bits e AND NOT (wanted ?a t)\<rparr>) ?a else ?a) = ?b"
    by (cases s) (auto simp: left_over_def r_def upd_event_def upd_thread_def)
  have "event_scan n (t # ts) need s = event_scan n ts True (resumed t ?b)"
    using event_test_spec [OF v, of "event_bits (events s n)"] sat re eb by (simp add: r_def [symmetric] Let_def)
  moreover have "items (tlists (resumed t ?b)) (Event_wait n) = pre @ ts"
    using resumed_waits [OF kernel_okD(1) [OF kb], of "Event_wait n" t] it event_wait.distinct_waiters [OF k, of n] by simp
  ultimately show ?thesis
    using kernel_ok_resumed [OF kb st] by (intro exI [of _ "resumed t ?b"]) (simp add: ipc_same_def upd_event_def)
qed

lemma scan_miss:
  assumes v: "valid_mode (mode s t)" and sat: "\<not> satisfied (event_bits (events s n)) (wanted s t) (mode s t)"
  shows "event_scan n (t # ts) need s = event_scan n ts need s"
proof -
  have id: "upd_thread t (\<lambda>th. th\<lparr>event_set := wanted s t\<rparr>) s = s" by (rule upd_thread_id) simp
  show ?thesis using event_test_spec [OF v, of "event_bits (events s n)"] sat by (simp add: id)
qed

lemma scan_ok:
  assumes "kernel_ok s" and "items (tlists s) (Event_wait n) = pre @ ts" and "\<And>t. t \<in> set ts \<Longrightarrow> valid_mode (mode s t)"
    and "event_spec (wanted s) (mode s) ts (event_bits (events s n)) = (woken, rest, b)"
  shows "\<exists>s'. event_scan n ts need s = Some (True, need \<or> woken \<noteq> [], s') \<and> kernel_ok s' \<and>
    items (tlists s') (Event_wait n) = pre @ rest \<and> ipc_same s (s'\<lparr>events := events s\<rparr>) \<and>
    events s' = (events s)(n := (events s n)\<lparr>event_bits := b\<rparr>) \<and> current_thread s' = current_thread s \<and>
    handed woken s s'"
  using assms
proof (induction ts arbitrary: s pre need woken rest)
  case Nil
  then show ?case by (auto simp: handed_def)
next
  case (Cons t ts)
  have v: "valid_mode (mode s t)" using Cons.prems(3) by simp
  from Cons.prems(4) show ?case
  proof (cases rule: event_spec_ConsE)
    case (hit w)
    obtain s1 where s1: "event_scan n (t # ts) need s = event_scan n ts True s1" "kernel_ok s1"
      "items (tlists s1) (Event_wait n) = pre @ ts" "ipc_same s (s1\<lparr>events := events s\<rparr>)"
      "events s1 = (events s)(n := (events s n)\<lparr>event_bits := left_over (event_bits (events s n)) (wanted s t) (mode s t)\<rparr>)"
      "current_thread s1 = current_thread s"
      "threads s1 = (threads s)(t := set_stat (if t = current_thread s then RT_THREAD_RUNNING else RT_THREAD_READY)
        ((threads s t)\<lparr>event_set := received (event_bits (events s n)) (wanted s t) (mode s t)\<rparr>))"
      using scan_hit [OF Cons.prems(1,2) v hit(1)] by blast
    have d: "t \<notin> set ts" using event_wait.distinct_waiters [OF Cons.prems(1), of n] Cons.prems(2) by simp
    have same: "wanted s1 x = wanted s x \<and> mode s1 x = mode s x" if "x \<in> set ts" for x
      using s1(7) d that by auto
    have sp: "event_spec (wanted s1) (mode s1) ts (event_bits (events s1 n)) = (w, rest, b)"
      using hit(3) s1(5) event_spec_cong [OF same] by simp
    have "valid_mode (mode s1 x)" if "x \<in> set ts" for x using same [OF that] Cons.prems(3) that by simp
    from Cons.IH [OF s1(2,3) this sp, of True] obtain s' where s': "event_scan n ts True s1 = Some (True, True \<or> w \<noteq> [], s')"
      "kernel_ok s'" "items (tlists s') (Event_wait n) = pre @ rest" "ipc_same s1 (s'\<lparr>events := events s1\<rparr>)"
      "events s' = (events s1)(n := (events s1 n)\<lparr>event_bits := b\<rparr>)" "current_thread s' = current_thread s1" "handed w s1 s'"
      by blast
    have "map_of w t = None" using event_spec_sets [OF sp] d by (auto simp: map_of_eq_None_iff)
    then have "handed woken s s'" using s'(7) s1(6,7) hit(2) by (auto simp: handed_def split: option.splits)
    then show ?thesis using s1 s' hit(2) by (intro exI [of _ s']) (auto simp: ipc_same_def)
  next
    case (miss r)
    have "items (tlists s) (Event_wait n) = (pre @ [t]) @ ts" using Cons.prems(2) by simp
    from Cons.IH [OF Cons.prems(1) this _ miss(3)] show ?thesis
      using Cons.prems(3) scan_miss [OF v miss(1)] miss(2) by simp
  qed
qed

section \<open>The event invariant\<close>

text \<open>No thread waits for a condition that holds.\<close>

definition event_ok :: "nat \<Rightarrow> kernel \<Rightarrow> bool" where
  "event_ok n s = (is_event n s \<and> event_flag (events s n) \<in> {RT_IPC_FLAG_FIFO, RT_IPC_FLAG_PRIO} \<and>
     (\<forall>t \<in> set (items (tlists s) (Event_wait n)).
        valid_mode (mode s t) \<and> \<not> satisfied (event_bits (events s n)) (wanted s t) (mode s t)))"

abbreviation event_walk :: "nat \<Rightarrow> u32 \<Rightarrow> kernel \<Rightarrow> (tid \<times> u32) list \<times> tid list \<times> u32" where
  "event_walk n bits s \<equiv> event_spec (wanted s) (mode s) (items (tlists s) (Event_wait n)) (event_bits (events s n) OR bits)"

lemma event_send_walk:
  assumes k: "kernel_ok s" and ok: "event_ok n s" and bits: "bits \<noteq> 0" and sp: "event_walk n bits s = (woken, rest, b)"
  shows "\<exists>s'. rt_event_send n bits s = Some (RT_EOK, s') \<and> kernel_ok s' \<and> event_ok n s' \<and>
    items (tlists s') (Event_wait n) = rest \<and> event_bits (events s' n) = b \<and>
    (\<forall>t \<in> set rest. threads s' t = threads s t) \<and>
    (\<forall>(t, r) \<in> set woken. awake s' t \<and> wanted s' t = r \<and> thread_error (threads s' t) = thread_error (threads s t))"
proof -
  let ?e = "upd_event n (\<lambda>e. e\<lparr>event_bits := event_bits e OR bits\<rparr>) s" and ?l = "items (tlists s) (Event_wait n)"
  have v: "valid_mode (mode ?e t)" if "t \<in> set ?l" for t using ok that by (simp add: event_ok_def)
  obtain s1 where s1: "event_scan n ?l False ?e = Some (True, False \<or> woken \<noteq> [], s1)" "kernel_ok s1"
    "items (tlists s1) (Event_wait n) = [] @ rest" "ipc_same ?e (s1\<lparr>events := events ?e\<rparr>)"
    "events s1 = (events ?e)(n := (events ?e n)\<lparr>event_bits := b\<rparr>)" "current_thread s1 = current_thread ?e" "handed woken ?e s1"
    using scan_ok [of ?e n "[]" ?l woken rest b False] k v sp by auto
  have "\<exists>s'. (if woken \<noteq> [] then rt_schedule s1 else Some s1) = Some s' \<and> kernel_ok s' \<and> sched_frame s1 s'"
    using schedule_kernel_ok [OF s1(2)] s1(2) sched_frame_refl by metis
  then obtain s' where s': "(if woken \<noteq> [] then rt_schedule s1 else Some s1) = Some s'" "kernel_ok s'" "sched_frame s1 s'"
    by blast
  note g = sched_frame_kernel [OF s'(3)]
  have it': "items (tlists s') (Event_wait n) = rest"
    using sched_frameD(4) [OF s'(3), of "Event_wait n"] s1(3) by simp
  have dj: "distinct (map fst woken) \<and> fst ` set woken \<inter> set rest = {}"
    using event_spec_disjoint [OF sp event_wait.distinct_waiters [OF k]] .
  have rest: "threads s' t = threads s t" if "t \<in> set rest" for t
  proof -
    have "map_of woken t = None" using dj that by (auto simp: map_of_eq_None_iff)
    then have "threads s1 t = threads s t" using s1(7) by (simp add: handed_def)
    moreover have "thread_stat (threads s t) = RT_THREAD_SUSPEND"
      using event_wait.waiters(1) [OF k, where t = t and n = n] event_spec_sets [OF sp] that by auto
    ultimately show ?thesis using sched_frameD(2) [OF s'(3), of t] by simp
  qed
  have woken: "awake s' t \<and> wanted s' t = r \<and> thread_error (threads s' t) = thread_error (threads s t)"
    if "(t, r) \<in> set woken" for t r
  proof -
    have "map_of woken t = Some r" using dj that by simp
    then have "threads s1 t = set_stat (if t = current_thread s then RT_THREAD_RUNNING else RT_THREAD_READY)
        ((threads s t)\<lparr>event_set := r\<rparr>)"
      using s1(7) by (simp add: handed_def)
    then show ?thesis
      using sched_frameD(3) [OF s'(3), of t] sched_frame_thread(3,4) [OF s'(3), of t]
      by (auto simp: awake_def stat_simps split: if_splits)
  qed
  have "rt_event_send n bits s = Some (RT_EOK, s')"
    using ok bits s1(1) s'(1) by (auto simp: rt_event_send_def event_ok_def)
  moreover have "event_bits (events s' n) = b" using g s1(5) by simp
  moreover have "event_ok n s'"
    using ok g s1(4,5) it' rest event_spec_rest [OF sp] event_spec_sets [OF sp]
    by (auto simp: event_ok_def is_event_def ipc_same_def)
  ultimately show ?thesis using s'(2) it' rest woken by auto
qed

lemma event_recv_blocks:
  assumes b: "may_block s" and ok: "event_ok n s" and bits: "bits \<noteq> 0" and v: "valid_mode opt"
    and no: "\<not> satisfied (event_bits (events s n)) bits opt" and x: "timeout \<noteq> 0" "timeout < 0x7FFFFFFF"
  shows "\<exists>s'. rt_event_recv n bits opt timeout s = Some (Blocked, None, s') \<and> kernel_ok s' \<and> event_ok n s' \<and>
    events s' = events s \<and> items (tlists s') (Event_wait n) =
      wait_insert (event_flag (events s n)) (prio_of s) (current_thread s) (items (tlists s) (Event_wait n)) \<and>
    thread_stat (threads s' (current_thread s)) = RT_THREAD_SUSPEND \<and> thread_error (threads s' (current_thread s)) = RT_EOK"
proof -
  let ?c = "current_thread s" and ?f = "event_flag (events s n)"
  let ?s1 = "upd_thread ?c (\<lambda>th. th\<lparr>event_set := bits, event_info := opt\<rparr>) (no_error s)"
  note m = may_blockD [OF b]
  have r: "running ?s1"
    using running_error [OF m(1), where e = 0 and t = ?c]
      kernel_ok_upd_thread [of "no_error s" "\<lambda>th. th\<lparr>event_set := bits, event_info := opt\<rparr>" ?c]
    by (auto simp: running_def thread_stat_def stack_check_def)
  have f: "?f \<in> {0, 1}" using ok by (simp add: event_ok_def)
  obtain s' where s': "blocked_on (Event_wait n) ?f timeout ?s1 s'"
    using event_wait.block_ok [OF r f x(2)] m(2,4) by auto
  note d = blocked_onD [OF s', unfolded upd_thread_fields] and g = blocked_on_frame [OF s', unfolded upd_thread_fields]
  have pr: "prio_of ?s1 = prio_of s" by auto
  have it: "items (tlists s') (Event_wait n) = wait_insert ?f (prio_of s) ?c (items (tlists s) (Event_wait n))"
    using d(9) pr unfolding upd_thread_fields by simp
  have th: "threads s' ?c = set_stat RT_THREAD_SUSPEND
      ((threads s ?c)\<lparr>thread_error := RT_EOK, event_set := bits, event_info := opt\<rparr>)"
    using d(8) by simp
  have same: "events s' = events s" "obj_type s' = obj_type s" using g(1) by (simp_all add: ipc_same_def)
  have e: "has_flag opt 1 \<Longrightarrow> event_bits (events s n) AND bits \<noteq> bits"
    "\<not> has_flag opt 1 \<Longrightarrow> event_bits (events s n) AND bits = 0"
    using no by (auto simp: satisfied_def and.commute)
  have "rt_event_recv n bits opt timeout s = Some (Blocked, None, s')"
    using ok m(6) bits v no x(1) d(1-3,6)
    by (simp add: rt_event_recv_def event_ok_def valid_mode_def rt_thread_self_def Let_def e)
  moreover have "event_ok n s'"
  proof -
    have "threads s' t = threads s t" if "t \<in> set (items (tlists s) (Event_wait n))" for t
    proof -
      have "thread_stat (threads s t) = RT_THREAD_SUSPEND" by (rule event_wait.waiters(1) [OF m(5) that])
      moreover have "t \<noteq> ?c" using calculation runningD(2) [OF m(1)] by auto
      ultimately show ?thesis using g(4) [of t] by simp
    qed
    then show ?thesis using ok same it th v no by (auto simp: event_ok_def is_event_def)
  qed
  ultimately show ?thesis using d(4) same it th by (simp add: stat_simps)
qed

section \<open>Properties\<close>

definition demo_event :: kernel where
  "demo_event = upd_thread 5 (\<lambda>th. th\<lparr>event_set := 6, event_info := RT_EVENT_FLAG_AND OR RT_EVENT_FLAG_CLEAR\<rparr>)
     ((demo_wait (Event_wait 7) (Event_obj 7) 0x84)\<lparr>events := (\<lambda>_. \<lparr>event_flag = 0, event_bits = 2\<rparr>)\<rparr>)"

lemma demo_event_ok: "may_block demo_event" "kernel_ok demo_event" "event_ok 7 demo_event"
proof -
  have b: "may_block (demo_wait (Event_wait 7) (Event_obj 7) 0x84)" by (rule event_wait.demo_wait_may_block) auto
  have "kernel_ok demo_event"
    unfolding demo_event_def
    by (rule kernel_ok_upd_thread) (use may_blockD(5) [OF b] in \<open>auto simp: thread_stat_def stack_check_def\<close>)
  then show "kernel_ok demo_event" "may_block demo_event"
    using b by (auto simp: may_block_def running_def demo_event_def)
  show "event_ok 7 demo_event"
    by (simp add: event_ok_def is_event_def demo_event_def rt_object_get_type_def valid_mode_def has_flag_def satisfied_def)
qed

lemma demo_event_walk: "event_walk 7 4 demo_event = ([(5, 6)], [], 0)"
  by (simp add: demo_event_def satisfied_def received_def has_flag_def Let_def)

text \<open>C15. \<^verbatim>\<open>rt_event_send\<close> implements one walk over the queue, in queue order: each thread whose condition the
  current bits meet is woken with the bits it receives in its \<^verbatim>\<open>event_set\<close> and, with the clear option, uses
  them up for the threads behind it; all others keep waiting, untouched. The call never trips an
  assertion and keeps kernel and event consistent.\<close>

theorem event_send_refines:
  assumes "kernel_ok s" and "event_ok n s" and "bits \<noteq> 0" and "event_walk n bits s = (woken, rest, b)"
  shows "\<exists>s'. rt_event_send n bits s = Some (RT_EOK, s') \<and> kernel_ok s' \<and> event_ok n s' \<and>
    items (tlists s') (Event_wait n) = rest \<and> event_bits (events s' n) = b \<and>
    (\<forall>t \<in> set rest. threads s' t = threads s t) \<and>
    (\<forall>(t, r) \<in> set woken. awake s' t \<and> wanted s' t = r \<and> thread_error (threads s' t) = thread_error (threads s t))"
  by (rule event_send_walk [OF assms])

theorem event_send_refines_witness:
  "\<exists>s'. rt_event_send 7 4 demo_event = Some (RT_EOK, s') \<and> awake s' 5 \<and> event_bits (events s' 7) = 0"
  using event_send_refines [OF demo_event_ok(2,3) _ demo_event_walk] by auto

text \<open>No lost and no spurious wake-up: after a send, every thread that was waiting either still waits, for
  a condition the remaining bits do not meet, or is awake, holding bits that were set and that meet its
  condition.\<close>

theorem event_send_wakes_exactly:
  assumes "kernel_ok s" and "event_ok n s" and "bits \<noteq> 0"
  shows "\<exists>s'. rt_event_send n bits s = Some (RT_EOK, s') \<and>
    (\<forall>t \<in> set (items (tlists s) (Event_wait n)).
       t \<in> set (items (tlists s') (Event_wait n)) \<and>
         \<not> satisfied (event_bits (events s' n)) (wanted s t) (mode s t) \<or>
       awake s' t \<and> (\<exists>a. within a (event_bits (events s n) OR bits) \<and>
         satisfied a (wanted s t) (mode s t) \<and> wanted s' t = received a (wanted s t) (mode s t)))"
proof -
  obtain woken rest b where sp: "event_walk n bits s = (woken, rest, b)" by (metis prod_cases3)
  obtain s' where s': "rt_event_send n bits s = Some (RT_EOK, s')" "items (tlists s') (Event_wait n) = rest"
    "event_bits (events s' n) = b" "\<forall>(t, r) \<in> set woken. awake s' t \<and> wanted s' t = r"
    using event_send_walk [OF assms sp] by fastforce
  have "t \<in> set rest \<or> (\<exists>r. (t, r) \<in> set woken)" if "t \<in> set (items (tlists s) (Event_wait n))" for t
    using event_spec_sets [OF sp] that by force
  then show ?thesis
    using s' event_spec_rest [OF sp] event_spec_woken [OF sp] by (intro exI [of _ s']) fast
qed

theorem event_send_wakes_exactly_witness:
  "\<exists>s'. rt_event_send 7 1 demo_event = Some (RT_EOK, s') \<and>
    (5 \<in> set (items (tlists s') (Event_wait 7)) \<or> awake s' 5)"
  using event_send_wakes_exactly [OF demo_event_ok(2,3), of 1] by (auto simp: demo_event_def)

text \<open>\<^verbatim>\<open>rt_event_recv\<close>, all paths: asking for no bits is an error; a condition that holds is answered at
  once with the common bits, cleared on request; otherwise the call times out at once or suspends the
  caller, at its place in the queue, with what it waits for recorded. The invariant of the event is kept
  on each path.\<close>

theorem event_recv_correct:
  assumes "may_block s" and "event_ok n s" and "valid_mode opt" and "timeout < 0x7FFFFFFF"
  defines "c \<equiv> current_thread s" and "e \<equiv> event_bits (events s n)"
  shows "\<exists>r got s'. rt_event_recv n bits opt timeout s = Some (r, got, s') \<and> kernel_ok s' \<and> event_ok n s' \<and>
    (if bits = 0 then r = Returned (- RT_ERROR) \<and> got = None \<and> s' = s
     else if satisfied e bits opt then r = Returned RT_EOK \<and> got = Some (e AND bits) \<and>
       event_bits (events s' n) = (if has_flag opt RT_EVENT_FLAG_CLEAR then e AND NOT bits else e)
     else if timeout = 0 then r = Returned (- RT_ETIMEOUT) \<and> got = None \<and> events s' = events s
     else r = Blocked \<and> got = None \<and> events s' = events s \<and> thread_stat (threads s' c) = RT_THREAD_SUSPEND \<and>
       items (tlists s') (Event_wait n) = wait_insert (event_flag (events s n)) (prio_of s) c (items (tlists s) (Event_wait n)))"
proof -
  note m = may_blockD [OF assms(1)]
  have ie: "is_event n s" using assms(2) by (simp add: event_ok_def)
  have wt: "t \<noteq> c" if "t \<in> set (items (tlists s) (Event_wait n))" for t
    using event_wait.waiters(1) [OF m(5) that] runningD(2) [OF m(1)] by (auto simp: c_def)
  have plain: "event_ok n (upd_thread c f s)" for f
    using assms(2) wt by (auto simp: event_ok_def is_event_def)
  have k: "kernel_ok (upd_thread c (\<lambda>th. th\<lparr>thread_error := x\<rparr>) s)" for x
    by (rule kernel_ok_upd_thread [OF m(5)]) simp_all
  consider "bits = 0" | "bits \<noteq> 0" "satisfied e bits opt" | "bits \<noteq> 0" "\<not> satisfied e bits opt" "timeout = 0"
    | "bits \<noteq> 0" "\<not> satisfied e bits opt" "timeout \<noteq> 0" by blast
  then show ?thesis
  proof cases
    case 1
    then show ?thesis using m assms(2) ie by (simp add: rt_event_recv_def)
  next
    case 2
    let ?s2 = "upd_thread c (\<lambda>th. th\<lparr>event_set := e AND bits, event_info := opt\<rparr>) (upd_thread c (\<lambda>th. th\<lparr>thread_error := RT_EOK\<rparr>) s)"
    let ?s3 = "if has_flag opt RT_EVENT_FLAG_CLEAR then upd_event n (\<lambda>ev. ev\<lparr>event_bits := event_bits ev AND NOT bits\<rparr>) ?s2 else ?s2"
    have "has_flag opt 1 \<Longrightarrow> e AND bits = bits" "\<not> has_flag opt 1 \<Longrightarrow> e AND bits \<noteq> 0"
      using 2(2) by (auto simp: satisfied_def and.commute)
    then have run: "rt_event_recv n bits opt timeout s = Some (Returned RT_EOK, Some (e AND bits), ?s3)"
      using 2(1) m(6) ie assms(3)
      by (simp add: rt_event_recv_def rt_thread_self_def Let_def c_def e_def valid_mode_def)
    have "kernel_ok ?s2"
      by (rule kernel_ok_upd_thread [OF k]) (simp_all add: thread_stat_def stack_check_def)
    moreover have "event_ok n ?s3"
    proof -
      have "within (e AND NOT bits) e" by (simp add: within_def bit_and_iff)
      then show ?thesis
        using assms(2) wt satisfied_mono [of "e AND NOT bits" e] by (auto simp: event_ok_def is_event_def e_def)
    qed
    ultimately show ?thesis using 2 run by (intro exI [of _ "?s3"] exI) (auto simp: e_def)
  next
    case 3
    have "has_flag opt 1 \<Longrightarrow> e AND bits \<noteq> bits" "\<not> has_flag opt 1 \<Longrightarrow> e AND bits = 0"
      using 3(2) by (auto simp: satisfied_def and.commute)
    then have run: "rt_event_recv n bits opt timeout s = Some (Returned (- RT_ETIMEOUT), None,
        upd_thread c (\<lambda>th. th\<lparr>thread_error := - RT_ETIMEOUT\<rparr>) (upd_thread c (\<lambda>th. th\<lparr>thread_error := RT_EOK\<rparr>) s))"
      using 3 m(6) ie assms(3)
      by (simp add: rt_event_recv_def rt_thread_self_def Let_def c_def e_def valid_mode_def)
    have eq: "upd_thread c (\<lambda>th. th\<lparr>thread_error := - RT_ETIMEOUT\<rparr>) (upd_thread c (\<lambda>th. th\<lparr>thread_error := RT_EOK\<rparr>) s) =
        upd_thread c (\<lambda>th. th\<lparr>thread_error := - RT_ETIMEOUT\<rparr>) s" by (simp add: upd_thread_def)
    show ?thesis using 3 run k plain by (simp add: eq)
  next
    case 4
    then show ?thesis
      using event_recv_blocks [OF assms(1,2) 4(1) assms(3) _ 4(3) assms(4)] by (auto simp: c_def e_def)
  qed
qed

theorem event_recv_correct_witness:
  "\<exists>s'. rt_event_recv 7 3 RT_EVENT_FLAG_OR 0 demo_event = Some (Returned RT_EOK, Some 2, s')"
proof -
  have v: "valid_mode RT_EVENT_FLAG_OR" by (simp add: valid_mode_def has_flag_def)
  have "satisfied (event_bits (events demo_event 7)) 3 RT_EVENT_FLAG_OR" "event_bits (events demo_event 7) = 2"
    by (simp_all add: satisfied_def has_flag_def demo_event_def)
  then show ?thesis
    using event_recv_correct [OF demo_event_ok(1,3) v, of 0 3] by auto
qed

end
