(* ===== verification/Rt_Fifo.thy ===== *)
theory Rt_Fifo
  imports Rt_Prelude
begin

text \<open>
  The contract of a bounded first-in first-out buffer, as the ring buffer of the device drivers and the
  message slots of a mailbox offer it, and what follows from it for any sequence of operations.
\<close>

section \<open>Runs\<close>

text \<open>A run of pushes (\<open>Some x\<close>) and pops (\<open>None\<close>): the accepted elements, the delivered elements, the
  final state.\<close>

fun fifo_run :: "('e \<Rightarrow> 's \<Rightarrow> (bool \<times> 's) option) \<Rightarrow> ('s \<Rightarrow> ('e option \<times> 's) option) \<Rightarrow> 'e option list \<Rightarrow> 's \<Rightarrow>
    ('e list \<times> 'e list \<times> 's) option" where
  "fifo_run push pop [] s = Some ([], [], s)"
| "fifo_run push pop (Some x # cs) s = do {
     (b, s) \<leftarrow> push x s;
     (ins, outs, s) \<leftarrow> fifo_run push pop cs s;
     Some (if b then x # ins else ins, outs, s)
   }"
| "fifo_run push pop (None # cs) s = do {
     (r, s) \<leftarrow> pop s;
     (ins, outs, s) \<leftarrow> fifo_run push pop cs s;
     Some (ins, (case r of Some x \<Rightarrow> x # outs | None \<Rightarrow> outs), s)
   }"

section \<open>Circular views\<close>

text \<open>The \<open>e\<close> elements of a circular array of size \<open>n\<close> from index \<open>i\<close> on.\<close>

definition ring_view :: "'e list \<Rightarrow> nat \<Rightarrow> nat \<Rightarrow> nat \<Rightarrow> 'e list" where
  "ring_view p n i e = map (\<lambda>j. p ! ((i + j) mod n)) [0..<e]"

lemma length_ring_view [simp]: "length (ring_view p n i e) = e"
  by (simp add: ring_view_def)

lemma ring_view_0 [simp]: "ring_view p n i 0 = []"
  by (simp add: ring_view_def)

lemma ring_index_distinct: "j < e \<Longrightarrow> e < n \<Longrightarrow> (i + e) mod n \<noteq> (i + j) mod n" for n :: nat
  using mod_eq_dvd_iff_nat [of "i + j" "i + e" n] nat_dvd_not_less [of "e - j" n] by auto

lemma ring_view_append:
  assumes "e < n" "n \<le> length p"
  shows "ring_view (p[(i + e) mod n := v]) n i (Suc e) = ring_view p n i e @ [v]"
proof -
  have "(i + e) mod n < n" using assms(1) by simp
  then have "(i + e) mod n < length p" using assms(2) by linarith
  then show ?thesis using ring_index_distinct [OF _ assms(1), of _ i] by (auto simp: ring_view_def)
qed

lemma ring_view_pop:
  assumes "i < n"
  shows "ring_view p n i (Suc e) = p ! i # ring_view p n ((i + 1) mod n) e"
proof -
  have "ring_view p n i (Suc e) = p ! (i mod n) # map (\<lambda>j. p ! ((i + Suc j) mod n)) [0..<e]"
    unfolding ring_view_def by (simp add: upt_conv_Cons map_Suc_upt [symmetric] del: upt_Suc map_map)
      (simp add: comp_def)
  then show ?thesis using assms by (simp add: ring_view_def mod_simps)
qed

lemma ring_view_push:
  assumes "i < n" "e < n" "n \<le> length p"
  defines "k \<equiv> (if i > 0 then i - 1 else n - 1)"
  shows "ring_view (p[k := v]) n k (Suc e) = v # ring_view p n i e"
proof -
  have k: "k < n" "(k + 1) mod n = i" using assms(1) by (auto simp: k_def)
  have "k \<noteq> (i + j) mod n" if "j < e" for j
  proof -
    have "(i + (n - 1)) mod n = k" using assms(1) by (auto simp: k_def mod_if)
    then show ?thesis using ring_index_distinct [of j "n - 1" n i] that assms(2) by auto
  qed
  then have "ring_view (p[k := v]) n i e = ring_view p n i e" by (auto simp: ring_view_def)
  then show ?thesis using ring_view_pop [OF k(1), of "p[k := v]" e] k assms(3) by simp
qed

section \<open>The contract\<close>

text \<open>\<open>push\<close> and \<open>pop\<close> return \<open>None\<close> when they would leave the memory of the buffer, otherwise whether they
  did anything; \<open>fits\<close> is what the client may push.\<close>

locale bounded_fifo =
  fixes ok :: "'s \<Rightarrow> bool"
    and seq :: "'s \<Rightarrow> 'e list"
    and capacity :: "'s \<Rightarrow> nat"
    and fits :: "'e \<Rightarrow> bool"
    and push :: "'e \<Rightarrow> 's \<Rightarrow> (bool \<times> 's) option"
    and pop :: "'s \<Rightarrow> ('e option \<times> 's) option"
  assumes bounded: "ok s \<Longrightarrow> length (seq s) \<le> capacity s"
    and push_room: "ok s \<Longrightarrow> fits x \<Longrightarrow> length (seq s) < capacity s \<Longrightarrow>
      \<exists>s'. push x s = Some (True, s') \<and> ok s' \<and> seq s' = seq s @ [x] \<and> capacity s' = capacity s"
    and push_full: "ok s \<Longrightarrow> fits x \<Longrightarrow> length (seq s) = capacity s \<Longrightarrow> push x s = Some (False, s)"
    and pop_some: "ok s \<Longrightarrow> seq s = x # xs \<Longrightarrow>
      \<exists>s'. pop s = Some (Some x, s') \<and> ok s' \<and> seq s' = xs \<and> capacity s' = capacity s"
    and pop_empty: "ok s \<Longrightarrow> seq s = [] \<Longrightarrow> pop s = Some (None, s)"
begin

lemma push_ok:
  assumes "ok s" and "fits x"
  shows "\<exists>b s'. push x s = Some (b, s') \<and> ok s' \<and> seq s' = seq s @ (if b then [x] else []) \<and> capacity s' = capacity s"
proof (cases "length (seq s) < capacity s")
  case True
  then show ?thesis using push_room [OF assms True] by auto
next
  case False
  then show ?thesis using push_full [OF assms] bounded [OF assms(1)] assms(1) by auto
qed

lemma pop_ok:
  assumes "ok s"
  shows "\<exists>r s'. pop s = Some (r, s') \<and> ok s' \<and> seq s = (case r of Some x \<Rightarrow> [x] | None \<Rightarrow> []) @ seq s' \<and>
    capacity s' = capacity s"
proof (cases "seq s")
  case Nil
  then show ?thesis using pop_empty [OF assms] assms by auto
next
  case (Cons x xs)
  then show ?thesis using pop_some [OF assms Cons] by auto
qed

text \<open>No sequence of operations fails, and what comes out is what went in, in order, nothing lost,
  duplicated or invented.\<close>

lemma stream:
  assumes "ok s" and "\<And>x. Some x \<in> set cs \<Longrightarrow> fits x"
  shows "\<exists>ins outs s'. fifo_run push pop cs s = Some (ins, outs, s') \<and> ok s' \<and> capacity s' = capacity s \<and>
    seq s @ ins = outs @ seq s'"
  using assms
proof (induction cs arbitrary: s)
  case (Cons c cs)
  show ?case
  proof (cases c)
    case None
    obtain r s1 where p: "pop s = Some (r, s1)" "ok s1" "seq s = (case r of Some x \<Rightarrow> [x] | None \<Rightarrow> []) @ seq s1"
      "capacity s1 = capacity s"
      using pop_ok [OF Cons.prems(1)] by blast
    then show ?thesis using Cons.IH [OF p(2)] Cons.prems(2) None by (fastforce split: option.splits)
  next
    case (Some x)
    obtain b s1 where p: "push x s = Some (b, s1)" "ok s1" "seq s1 = seq s @ (if b then [x] else [])"
      "capacity s1 = capacity s"
      using push_ok [OF Cons.prems(1), of x] Cons.prems(2) [of x] Some by auto
    then show ?thesis using Cons.IH [OF p(2)] Cons.prems(2) Some by fastforce
  qed
qed simp

end

end
