(* ===== verification/Rt_MsgWait.thy ===== *)
theory Rt_MsgWait
  imports Rt_IpcList Rt_Fifo
begin

text \<open>
  What mailboxes and message queues of \<^verbatim>\<open>src/ipc.c\<close> have in common: both keep a queue of receivers and one of
  senders, wake one thread of the other side per message, and wait in a loop with a shrinking timeout.
\<close>

section \<open>Operations\<close>

text \<open>The wake-up at the end of every send and receive.\<close>

definition ipc_wake_one :: "lhead \<Rightarrow> kernel \<Rightarrow> kernel option" where
  "ipc_wake_one h s =
     (if items (tlists s) h \<noteq> [] then do {
        s \<leftarrow> ipc_list_resume h s;
        rt_schedule s
      }
      else Some s)"

text \<open>The blocking part of the waiting loops, up to the return of \<^verbatim>\<open>rt_schedule\<close>.\<close>

definition ipc_block :: "lhead \<Rightarrow> u8 \<Rightarrow> int \<Rightarrow> kernel \<Rightarrow> kernel option" where
  "ipc_block h flag timeout s = do {
     let t = rt_thread_self s;
     s \<leftarrow> ipc_list_suspend h t flag s;
     s \<leftarrow> ipc_start_timeout t timeout s;
     rt_schedule s
   }"

text \<open>The time left after a wait that began at tick \<open>t0\<close>: \<^verbatim>\<open>timeout -= tick_delta\<close> is computed in 32 bits.\<close>

definition ipc_remaining :: "int \<Rightarrow> u32 \<Rightarrow> kernel \<Rightarrow> int" where
  "ipc_remaining timeout t0 s =
     (if timeout > 0
      then (let d = rt_tick s - t0; r = sint (word_of_int timeout - d) in if r < 0 then 0 else r)
      else timeout)"

section \<open>Correctness\<close>

text \<open>The state \<open>s'\<close> after a wake-up on \<open>h\<close>: the first waiter, if any, is awake with its error code.\<close>

definition woken_on :: "lhead \<Rightarrow> kernel \<Rightarrow> kernel \<Rightarrow> bool" where
  "woken_on h s s' =
     (kernel_ok s' \<and> ipc_same s s' \<and> items (tlists s') h = tl (items (tlists s) h) \<and>
      (\<forall>k. k \<noteq> h \<longrightarrow> (\<forall>p. k \<noteq> Ready p) \<longrightarrow>
         items (tlists s') k = items (tlists s) k) \<and>
      (\<forall>t ts. items (tlists s) h = t # ts \<longrightarrow> awake s' t \<and> thread_error (threads s' t) = thread_error (threads s t)))"

lemma remaining_time:
  assumes "0 < timeout" "timeout < 2 ^ 31" "unat (rt_tick s - t0) < 2 ^ 31"
  shows "ipc_remaining timeout t0 s = max 0 (timeout - int (unat (rt_tick s - t0)))"
proof -
  define d where "d = rt_tick s - t0"
  have d: "0 \<le> uint d" "uint d < 2 ^ 31" using assms(3) unfolding d_def [symmetric] uint_nat by (simp_all del: of_nat_unat)
  have "sint (word_of_int timeout - d :: u32) = timeout - uint d"
  proof -
    have eq: "word_of_int timeout - d = (word_of_int (timeout - uint d) :: u32)" by simp
    have "signed_take_bit 31 (timeout - uint d) = timeout - uint d"
      by (rule signed_take_bit_int_eq_self) (use d assms(1,2) in linarith)+
    then show ?thesis unfolding eq sint_sbintrunc' by simp
  qed
  then show ?thesis using assms(1) by (simp add: ipc_remaining_def Let_def d_def max_def)
qed

lemma remaining_forever [simp]: "timeout \<le> 0 \<Longrightarrow> ipc_remaining timeout t0 s = timeout"
  by (simp add: ipc_remaining_def)

text \<open>The timer of a blocked thread expires a fixed time after the call, also when the wait is taken up again
  with the time that remains.\<close>

lemma blocked_deadline:
  assumes "blocked_on h f x s s'" and "0 < x"
  shows "timeout_tick (timers s' (Thread_timer (current_thread s))) = rt_tick s + word_of_int x"
    and "tm_active (timers s' (Thread_timer (current_thread s)))"
  using sched_frame_kernel(4) [OF blocked_onD(7) [OF assms(1)]] assms(2)
  by (simp_all add: wait_timed_def timed_def armed_timers)

lemma remaining_deadline:
  assumes "ipc_remaining timeout t0 s = timeout - int (unat (rt_tick s - t0))"
  shows "rt_tick s + word_of_int (ipc_remaining timeout t0 s) = t0 + word_of_int timeout"
  unfolding assms by simp

context wait_head
begin

lemma other_list:
  assumes "kernel_ok s" and "t \<in> set (items (tlists s) h)" and "k \<noteq> h"
  shows "t \<notin> set (items (tlists s) k)"
proof
  assume "t \<in> set (items (tlists s) k)"
  then have "home (tlists s) t = Some k"
    using lstore_okD(2) [OF queue_okD(1) [OF sched_okD(1) [OF kernel_okD(1) [OF assms(1)]]]] by simp
  then show False using waiters(2) [OF assms(1,2)] assms(3) by simp
qed

lemma wake_one:
  assumes k: "kernel_ok s"
  shows "\<exists>s'. ipc_wake_one h s = Some s' \<and> woken_on h s s'"
proof (cases "items (tlists s) h")
  case Nil
  then show ?thesis using k by (simp add: ipc_wake_one_def woken_on_def)
next
  case (Cons t ts)
  note r = resume_first [OF k Cons]
  obtain s' where s': "rt_schedule (resumed t s) = Some s'" "kernel_ok s'" "sched_frame (resumed t s) s'"
    using schedule_kernel_ok [OF r(2)] by blast
  have "items (tlists s') h = ts" using sched_frameD(4) [OF s'(3) not_ready] r(3) by simp
  moreover have "items (tlists s') k' = items (tlists s) k'"
    if n: "k' \<noteq> h" "\<forall>p. k' \<noteq> Ready p" for k'
  proof -
    have "items (tlists s') k' = without t (items (tlists s) k')"
      using sched_frameD(4) [OF s'(3), of k'] resumed_waits [OF kernel_okD(1) [OF k], of k' t] n(2) by simp
    then show ?thesis using other_list [OF k, of t k'] Cons n(1) by simp
  qed
  moreover have "ipc_same s s'" using ipc_same_trans [OF ipc_same_resumed ipc_same_frame [OF s'(3)]] .
  moreover have "awake s' t" using sched_frameD(3) [OF s'(3), of t] by (auto simp: awake_def stat_simps)
  moreover have "thread_error (threads s' t) = thread_error (threads s t)"
    using sched_frame_thread(3) [OF s'(3), of t] by simp
  ultimately show ?thesis using r(1) s'(1,2) Cons by (auto simp: ipc_wake_one_def woken_on_def)
qed

lemma block_on:
  assumes "may_block s" and "flag \<in> {RT_IPC_FLAG_FIFO, RT_IPC_FLAG_PRIO}" and "x < 0x7FFFFFFF"
  obtains s' where "ipc_block h flag x (no_error s) = Some s'" and "blocked_on h flag x (no_error s) s'"
proof -
  obtain s' where s': "blocked_on h flag x (no_error s) s'" using may_block_on [OF assms] by blast
  note d = blocked_onD [OF s']
  have "ipc_block h flag x (no_error s) = Some s'"
    using d(1-3) by (simp add: ipc_block_def rt_thread_self_def)
  then show thesis using that s' by blast
qed

text \<open>Waking all threads of the queue leaves the other queues alone.\<close>

lemma resume_all_others:
  assumes "kernel_ok s" and "ipc_list_resume_all h s = Some s'" and "k \<noteq> h" and "\<And>p. k \<noteq> Ready p"
  shows "items (tlists s') k = items (tlists s) k"
  using assms(1,2)
proof (induction "items (tlists s) h" arbitrary: s)
  case Nil
  then show ?case by (subst (asm) resume_all_unfold) simp
next
  case (Cons t ts)
  let ?e = "upd_thread t (\<lambda>th. th\<lparr>thread_error := - RT_ERROR\<rparr>) s"
  note st = resume_all_step [OF Cons.prems(1) Cons.hyps(2) [symmetric]]
  have ke: "kernel_ok ?e" by (rule kernel_ok_upd_thread [OF Cons.prems(1)]) simp_all
  have "items (tlists (resumed t ?e)) k = without t (items (tlists s) k)"
    using resumed_waits [OF kernel_okD(1) [OF ke] assms(4)] by simp
  moreover have "t \<notin> set (items (tlists s) k)"
    using other_list [OF Cons.prems(1) _ assms(3), of t] Cons.hyps(2) by (metis list.set_intros(1))
  ultimately have "items (tlists (resumed t ?e)) k = items (tlists s) k" by simp
  then show ?case using Cons.hyps(1) [OF st(3) [symmetric] st(2)] Cons.prems(2) st(1) by simp
qed

end

text \<open>The two queues of a mailbox or message queue.\<close>

locale wait_pair = recv: wait_head r + send: wait_head w for r w +
  assumes distinct_heads: "r \<noteq> w"
begin

lemma reset_both:
  assumes k: "kernel_ok s"
  shows "\<exists>s1 s2. ipc_list_resume_all r s = Some s1 \<and> ipc_list_resume_all w s1 = Some s2 \<and> kernel_ok s2 \<and> ipc_same s s2 \<and>
    items (tlists s2) r = [] \<and> items (tlists s2) w = [] \<and>
    (\<forall>t \<in> set (items (tlists s) r) \<union> set (items (tlists s) w). awake s2 t \<and> thread_error (threads s2 t) = - RT_ERROR)"
proof -
  let ?R = "items (tlists s) r" and ?W = "items (tlists s) w"
  obtain s1 where s1: "ipc_list_resume_all r s = Some s1" "kernel_ok s1" "items (tlists s1) r = []" "wakes (set ?R) s s1"
    using recv.resume_all_ok [OF k] by blast
  have w1: "items (tlists s1) w = ?W"
    using recv.resume_all_others [OF k s1(1)] distinct_heads send.not_ready by simp
  obtain s2 where s2: "ipc_list_resume_all w s1 = Some s2" "kernel_ok s2" "items (tlists s2) w = []" "wakes (set ?W) s1 s2"
    using send.resume_all_ok [OF s1(2)] w1 by auto
  have r2: "items (tlists s2) r = []"
    using send.resume_all_others [OF s1(2) s2(1) distinct_heads] recv.not_ready s1(3) by simp
  have "awake s2 t \<and> thread_error (threads s2 t) = - RT_ERROR" if "t \<in> set ?R \<union> set ?W" for t
    using s1(4) s2(4) that by (auto simp: wakes_def awake_def stat_simps split: if_splits)
  moreover have "ipc_same s s2" using s1(4) s2(4) ipc_same_trans unfolding wakes_def by blast
  ultimately show ?thesis using s1(1) s2(1-3) r2 by blast
qed

end

end
