(* ===== verification/Rt_Mailbox.thy ===== *)
theory Rt_Mailbox
  imports Rt_MsgWait
begin

text \<open>
  Mailboxes of \<^verbatim>\<open>src/ipc.c\<close>: a circular array of machine words with a queue of waiting receivers and one of
  waiting senders. The interrupt-disabled sections are atomic; the loops of \<^verbatim>\<open>rt_mb_send_wait\<close> and
  \<^verbatim>\<open>rt_mb_recv\<close> are cut at \<^verbatim>\<open>rt_schedule\<close> and continued by \<open>mb_send_resume\<close> and \<open>mb_recv_resume\<close>, which get
  the timeout the thread waited with and the tick at which it began. An access outside the message pool is
  \<open>None\<close>, like a failed assertion.
\<close>

section \<open>Operations\<close>

abbreviation (input) RT_MB_ENTRY_MAX :: u16 where "RT_MB_ENTRY_MAX \<equiv> 0xFFFF"

definition is_mb :: "nat \<Rightarrow> kernel \<Rightarrow> bool" where
  "is_mb n s = (n \<noteq> 0 \<and> rt_object_get_type (obj_type s (Mailbox_obj n)) = RT_Object_Class_MailBox)"

definition upd_mb :: "nat \<Rightarrow> (rt_mailbox \<Rightarrow> rt_mailbox) \<Rightarrow> kernel \<Rightarrow> kernel" where
  "upd_mb n f s = s\<lparr>mailboxes := (mailboxes s)(n := f (mailboxes s n))\<rparr>"

definition rt_mb_init :: "nat \<Rightarrow> string \<Rightarrow> u64 list \<Rightarrow> u64 \<Rightarrow> u8 \<Rightarrow> kernel \<Rightarrow> (rt_err_t \<times> kernel) option" where
  "rt_mb_init n name pool sz flag s = do {
     rt_assert (n \<noteq> 0);
     rt_assert (flag = RT_IPC_FLAG_FIFO \<or> flag = RT_IPC_FLAG_PRIO);
     s \<leftarrow> rt_object_init (Mailbox_obj n) RT_Object_Class_MailBox name s;
     let s = upd_mb n (\<lambda>mb. mb\<lparr>mb_flag := flag\<rparr>) s;
     s \<leftarrow> ipc_object_init (Mb_recv_wait n) s;
     let s = upd_mb n (\<lambda>mb. mb\<lparr>mb_pool := pool, mb_size := ucast sz, mb_entry := 0, mb_in_offset := 0, mb_out_offset := 0\<rparr>) s;
     s \<leftarrow> ipc_object_init (Mb_send_wait n) s;
     Some (RT_EOK, s)
   }"

definition rt_mb_detach :: "nat \<Rightarrow> kernel \<Rightarrow> (rt_err_t \<times> kernel) option" where
  "rt_mb_detach n s = do {
     rt_assert (is_mb n s);
     rt_assert (rt_object_is_systemobject (obj_type s (Mailbox_obj n)));
     s \<leftarrow> ipc_list_resume_all (Mb_recv_wait n) s;
     s \<leftarrow> ipc_list_resume_all (Mb_send_wait n) s;
     Some (RT_EOK, rt_object_detach (Mailbox_obj n) s)
   }"

text \<open>The two allocations of \<^verbatim>\<open>rt_mb_create\<close> are its first arguments.\<close>

definition rt_mb_create :: "nat option \<Rightarrow> u64 list option \<Rightarrow> string \<Rightarrow> u64 \<Rightarrow> u8 \<Rightarrow> kernel \<Rightarrow> (nat option \<times> kernel) option" where
  "rt_mb_create mem pool_mem name sz flag s = do {
     rt_assert (flag = RT_IPC_FLAG_FIFO \<or> flag = RT_IPC_FLAG_PRIO);
     rt_assert (interrupt_nest s = 0);
     (_, s) \<leftarrow> rt_object_allocate (map_option Mailbox_obj mem) RT_Object_Class_MailBox name s;
     case mem of
       None \<Rightarrow> Some (None, s)
     | Some n \<Rightarrow> do {
         let s = upd_mb n (\<lambda>mb. mb\<lparr>mb_flag := flag\<rparr>) s;
         s \<leftarrow> ipc_object_init (Mb_recv_wait n) s;
         let s = upd_mb n (\<lambda>mb. mb\<lparr>mb_size := ucast sz\<rparr>) s;
         case pool_mem of
           None \<Rightarrow> do {
             s \<leftarrow> rt_object_delete (Mailbox_obj n) s;
             Some (None, s)
           }
         | Some pool \<Rightarrow> do {
             let s = upd_mb n (\<lambda>mb. mb\<lparr>mb_pool := pool, mb_entry := 0, mb_in_offset := 0, mb_out_offset := 0\<rparr>) s;
             s \<leftarrow> ipc_object_init (Mb_send_wait n) s;
             Some (Some n, s)
           }
       }
   }"

text \<open>Once freed, the message pool is no longer memory of the mailbox.\<close>

definition rt_mb_delete :: "nat \<Rightarrow> kernel \<Rightarrow> (rt_err_t \<times> kernel) option" where
  "rt_mb_delete n s = do {
     rt_assert (is_mb n s);
     rt_assert (\<not> rt_object_is_systemobject (obj_type s (Mailbox_obj n)));
     rt_assert (interrupt_nest s = 0);
     s \<leftarrow> ipc_list_resume_all (Mb_recv_wait n) s;
     s \<leftarrow> ipc_list_resume_all (Mb_send_wait n) s;
     let s = upd_mb n (\<lambda>mb. mb\<lparr>mb_pool := []\<rparr>) s;
     s \<leftarrow> rt_object_delete (Mailbox_obj n) s;
     Some (RT_EOK, s)
   }"

text \<open>Writing a word at the input offset; \<open>None\<close> outside the pool.\<close>

definition mb_store :: "u64 \<Rightarrow> rt_mailbox \<Rightarrow> rt_mailbox option" where
  "mb_store v mb =
     (if unat (mb_in_offset mb) < length (mb_pool mb)
      then Some (mb\<lparr>mb_pool := (mb_pool mb)[unat (mb_in_offset mb) := v],
                    mb_in_offset := (if mb_in_offset mb + 1 \<ge> mb_size mb then 0 else mb_in_offset mb + 1)\<rparr>)
      else None)"

text \<open>The end of \<^verbatim>\<open>rt_mb_send_wait\<close>, when there is room.\<close>

definition mb_deposit :: "nat \<Rightarrow> u64 \<Rightarrow> kernel \<Rightarrow> (outcome \<times> kernel) option" where
  "mb_deposit n v s = do {
     mb \<leftarrow> mb_store v (mailboxes s n);
     let s = upd_mb n (\<lambda>_. mb) s;
     if mb_entry mb < RT_MB_ENTRY_MAX then do {
       let s = upd_mb n (\<lambda>mb. mb\<lparr>mb_entry := mb_entry mb + 1\<rparr>) s;
       s \<leftarrow> ipc_wake_one (Mb_recv_wait n) s;
       Some (Returned RT_EOK, s)
     }
     else Some (Returned (- RT_EFULL), s)
   }"

partial_function (option) mb_send_loop :: "nat \<Rightarrow> u64 \<Rightarrow> int \<Rightarrow> kernel \<Rightarrow> (outcome \<times> kernel) option" where
  "mb_send_loop n v timeout s =
     (if mb_entry (mailboxes s n) = mb_size (mailboxes s n) then do {
        let t = rt_thread_self s;
        let s = upd_thread t (\<lambda>th. th\<lparr>thread_error := RT_EOK\<rparr>) s;
        if timeout = 0 then Some (Returned (- RT_EFULL), s)
        else do {
          let t0 = rt_tick s;
          s \<leftarrow> ipc_block (Mb_send_wait n) (mb_flag (mailboxes s n)) timeout s;
          if current_thread s \<noteq> t then Some (Blocked, s)
          else if thread_error (threads s t) \<noteq> RT_EOK then Some (Returned (thread_error (threads s t)), s)
          else mb_send_loop n v (ipc_remaining timeout t0 s) s
        }
      }
      else mb_deposit n v s)"

definition mb_send_resume :: "nat \<Rightarrow> u64 \<Rightarrow> int \<Rightarrow> u32 \<Rightarrow> kernel \<Rightarrow> (outcome \<times> kernel) option" where
  "mb_send_resume n v timeout t0 s =
     (let t = current_thread s
      in if thread_error (threads s t) \<noteq> RT_EOK then Some (Returned (thread_error (threads s t)), s)
         else mb_send_loop n v (ipc_remaining timeout t0 s) s)"

definition rt_mb_send_wait :: "nat \<Rightarrow> u64 \<Rightarrow> int \<Rightarrow> kernel \<Rightarrow> (outcome \<times> kernel) option" where
  "rt_mb_send_wait n v timeout s = do {
     rt_assert (is_mb n s);
     rt_assert (timeout \<noteq> 0 \<longrightarrow> scheduler_available s);
     if mb_entry (mailboxes s n) = mb_size (mailboxes s n) \<and> timeout = 0 then Some (Returned (- RT_EFULL), s)
     else mb_send_loop n v timeout s
   }"

definition rt_mb_send :: "nat \<Rightarrow> u64 \<Rightarrow> kernel \<Rightarrow> (outcome \<times> kernel) option" where
  "rt_mb_send n v s = rt_mb_send_wait n v 0 s"

definition rt_mb_urgent :: "nat \<Rightarrow> u64 \<Rightarrow> kernel \<Rightarrow> (rt_err_t \<times> kernel) option" where
  "rt_mb_urgent n v s = do {
     rt_assert (is_mb n s);
     let mb = mailboxes s n;
     if mb_entry mb = mb_size mb then Some (- RT_EFULL, s)
     else do {
       let out = (if mb_out_offset mb > 0 then mb_out_offset mb - 1 else mb_size mb - 1);
       rt_assert (unat out < length (mb_pool mb));
       let s = upd_mb n (\<lambda>mb. mb\<lparr>mb_out_offset := out, mb_pool := (mb_pool mb)[unat out := v], mb_entry := mb_entry mb + 1\<rparr>) s;
       s \<leftarrow> ipc_wake_one (Mb_recv_wait n) s;
       Some (RT_EOK, s)
     }
   }"

text \<open>The end of \<^verbatim>\<open>rt_mb_recv\<close>, when there is a message.\<close>

definition mb_collect :: "nat \<Rightarrow> kernel \<Rightarrow> (outcome \<times> u64 option \<times> kernel) option" where
  "mb_collect n s = do {
     let mb = mailboxes s n;
     rt_assert (unat (mb_out_offset mb) < length (mb_pool mb));
     let v = mb_pool mb ! unat (mb_out_offset mb);
     let s = upd_mb n (\<lambda>mb. mb\<lparr>mb_out_offset := (if mb_out_offset mb + 1 \<ge> mb_size mb then 0 else mb_out_offset mb + 1)\<rparr>) s;
     let s = (if mb_entry mb > 0 then upd_mb n (\<lambda>mb. mb\<lparr>mb_entry := mb_entry mb - 1\<rparr>) s else s);
     s \<leftarrow> ipc_wake_one (Mb_send_wait n) s;
     Some (Returned RT_EOK, Some v, s)
   }"

partial_function (option) mb_recv_loop :: "nat \<Rightarrow> int \<Rightarrow> kernel \<Rightarrow> (outcome \<times> u64 option \<times> kernel) option" where
  "mb_recv_loop n timeout s =
     (if mb_entry (mailboxes s n) = 0 then do {
        let t = rt_thread_self s;
        let s = upd_thread t (\<lambda>th. th\<lparr>thread_error := RT_EOK\<rparr>) s;
        if timeout = 0
        then Some (Returned (- RT_ETIMEOUT), None, upd_thread t (\<lambda>th. th\<lparr>thread_error := - RT_ETIMEOUT\<rparr>) s)
        else do {
          let t0 = rt_tick s;
          s \<leftarrow> ipc_block (Mb_recv_wait n) (mb_flag (mailboxes s n)) timeout s;
          if current_thread s \<noteq> t then Some (Blocked, None, s)
          else if thread_error (threads s t) \<noteq> RT_EOK then Some (Returned (thread_error (threads s t)), None, s)
          else mb_recv_loop n (ipc_remaining timeout t0 s) s
        }
      }
      else mb_collect n s)"

definition mb_recv_resume :: "nat \<Rightarrow> int \<Rightarrow> u32 \<Rightarrow> kernel \<Rightarrow> (outcome \<times> u64 option \<times> kernel) option" where
  "mb_recv_resume n timeout t0 s =
     (let t = current_thread s
      in if thread_error (threads s t) \<noteq> RT_EOK then Some (Returned (thread_error (threads s t)), None, s)
         else mb_recv_loop n (ipc_remaining timeout t0 s) s)"

definition rt_mb_recv :: "nat \<Rightarrow> int \<Rightarrow> kernel \<Rightarrow> (outcome \<times> u64 option \<times> kernel) option" where
  "rt_mb_recv n timeout s = do {
     rt_assert (is_mb n s);
     rt_assert (timeout \<noteq> 0 \<longrightarrow> scheduler_available s);
     if mb_entry (mailboxes s n) = 0 \<and> timeout = 0 then Some (Returned (- RT_ETIMEOUT), None, s)
     else mb_recv_loop n timeout s
   }"

definition rt_mb_control :: "nat \<Rightarrow> int \<Rightarrow> u64 \<Rightarrow> kernel \<Rightarrow> (rt_err_t \<times> kernel) option" where
  "rt_mb_control n cmd arg s = do {
     rt_assert (is_mb n s);
     if cmd = RT_IPC_CMD_RESET then do {
       s \<leftarrow> ipc_list_resume_all (Mb_recv_wait n) s;
       s \<leftarrow> ipc_list_resume_all (Mb_send_wait n) s;
       let s = upd_mb n (\<lambda>mb. mb\<lparr>mb_entry := 0, mb_in_offset := 0, mb_out_offset := 0\<rparr>) s;
       s \<leftarrow> rt_schedule s;
       Some (RT_EOK, s)
     }
     else Some (- RT_ERROR, s)
   }"

section \<open>The mailbox invariant\<close>

interpretation mb_recv_wait: wait_head "Mb_recv_wait n" for n
  by unfold_locales auto

interpretation mb_send_wait: wait_head "Mb_send_wait n" for n
  by unfold_locales auto

lemma upd_mb_fields [simp]:
  "mailboxes (upd_mb n f s) = (mailboxes s)(n := f (mailboxes s n))"
  "threads (upd_mb n f s) = threads s" "tlists (upd_mb n f s) = tlists s"
  "current_thread (upd_mb n f s) = current_thread s" "lock_nest (upd_mb n f s) = lock_nest s"
  "ready_group (upd_mb n f s) = ready_group s" "obj_type (upd_mb n f s) = obj_type s"
  "interrupt_nest (upd_mb n f s) = interrupt_nest s" "rt_tick (upd_mb n f s) = rt_tick s"
  "kernel_ok (upd_mb n f s) = kernel_ok s" "runs_highest (upd_mb n f s) = runs_highest s"
  by (simp_all add: upd_mb_def)

text \<open>The message array: the words from the output offset on, and an input offset right behind them.\<close>

definition mbox_ok :: "rt_mailbox \<Rightarrow> bool" where
  "mbox_ok mb = (0 < unat (mb_size mb) \<and> unat (mb_size mb) \<le> length (mb_pool mb) \<and> unat (mb_entry mb) \<le> unat (mb_size mb) \<and>
     unat (mb_out_offset mb) < unat (mb_size mb) \<and>
     unat (mb_in_offset mb) = (unat (mb_out_offset mb) + unat (mb_entry mb)) mod unat (mb_size mb) \<and>
     mb_flag mb \<in> {RT_IPC_FLAG_FIFO, RT_IPC_FLAG_PRIO})"

definition mbox_seq :: "rt_mailbox \<Rightarrow> u64 list" where
  "mbox_seq mb = ring_view (mb_pool mb) (unat (mb_size mb)) (unat (mb_out_offset mb)) (unat (mb_entry mb))"

lemma length_mbox_seq [simp]: "length (mbox_seq mb) = unat (mb_entry mb)"
  by (simp add: mbox_seq_def)

lemma mbox_seq_Nil: "mbox_seq mb = [] \<longleftrightarrow> mb_entry mb = 0"
  using length_mbox_seq [of mb] by (metis length_0_conv unat_eq_zero)

lemma unat_u16: "unat (x :: u16) < 65536"
  by (rule order_less_le_trans [OF unsigned_less]) simp

lemma offset_step:
  fixes x n :: u16
  assumes "unat x < unat n"
  shows "unat (if x + 1 \<ge> n then 0 else x + 1) = (unat x + 1) mod unat n"
proof -
  have "unat (x + 1) = unat x + 1" using assms unat_u16 [of n] by (subst unat_word_ariths) simp
  then show ?thesis using assms by (auto simp: word_le_nat_alt mod_if)
qed

lemma entry_step:
  fixes e n :: u16
  assumes "unat e < unat n"
  shows "unat (e + 1) = Suc (unat e)" and "e < 0xFFFF"
proof -
  show "unat (e + 1) = Suc (unat e)" using assms unat_u16 [of n] by (subst unat_word_ariths) simp
  show "e < 0xFFFF" using assms unat_u16 [of n] by (simp add: word_less_nat_alt)
qed

lemma mbox_store:
  assumes ok: "mbox_ok mb" and room: "mb_entry mb \<noteq> mb_size mb"
  shows "\<exists>mb1. mb_store v mb = Some mb1 \<and> mb_entry mb1 = mb_entry mb \<and> mb_entry mb1 < RT_MB_ENTRY_MAX \<and>
    mbox_ok (mb1\<lparr>mb_entry := mb_entry mb + 1\<rparr>) \<and> mbox_seq (mb1\<lparr>mb_entry := mb_entry mb + 1\<rparr>) = mbox_seq mb @ [v] \<and>
    mb_size mb1 = mb_size mb \<and> mb_flag mb1 = mb_flag mb"
proof -
  let ?n = "unat (mb_size mb)" and ?e = "unat (mb_entry mb)" and ?o = "unat (mb_out_offset mb)"
  have e: "?e < ?n" using ok room by (auto simp: mbox_ok_def word_unat_eq_iff)
  have i: "unat (mb_in_offset mb) = (?o + ?e) mod ?n" "unat (mb_in_offset mb) < ?n" "?n \<le> length (mb_pool mb)"
    using ok by (auto simp: mbox_ok_def)
  define mb1 where "mb1 = mb\<lparr>mb_pool := (mb_pool mb)[unat (mb_in_offset mb) := v],
    mb_in_offset := (if mb_in_offset mb + 1 \<ge> mb_size mb then 0 else mb_in_offset mb + 1)\<rparr>"
  have "unat (mb_in_offset mb) < length (mb_pool mb)" using i(2,3) by linarith
  then have "mb_store v mb = Some mb1" by (simp only: mb_store_def mb1_def if_True)
  moreover have "mbox_ok (mb1\<lparr>mb_entry := mb_entry mb + 1\<rparr>)"
  proof -
    have "(?o + Suc ?e) mod ?n = (unat (mb_in_offset mb) + 1) mod ?n" unfolding i(1) by (simp add: mod_simps)
    then show ?thesis using ok e offset_step [OF i(2)] entry_step(1) [OF e] unfolding mbox_ok_def mb1_def by simp
  qed
  moreover have "mbox_seq (mb1\<lparr>mb_entry := mb_entry mb + 1\<rparr>) = mbox_seq mb @ [v]"
    using ring_view_append [OF e i(3), of ?o v] entry_step(1) [OF e] i(1) by (simp add: mbox_seq_def mb1_def)
  ultimately show ?thesis using entry_step(2) [OF e] by (auto simp: mb1_def)
qed

lemma mbox_fetch:
  assumes ok: "mbox_ok mb" and some: "mb_entry mb \<noteq> 0"
  defines "mb1 \<equiv> mb\<lparr>mb_out_offset := (if mb_out_offset mb + 1 \<ge> mb_size mb then 0 else mb_out_offset mb + 1), mb_entry := mb_entry mb - 1\<rparr>"
  shows "unat (mb_out_offset mb) < length (mb_pool mb)" and "mbox_ok mb1"
    and "mbox_seq mb = mb_pool mb ! unat (mb_out_offset mb) # mbox_seq mb1"
proof -
  let ?n = "unat (mb_size mb)" and ?o = "unat (mb_out_offset mb)"
  have o: "?o < ?n" "?n \<le> length (mb_pool mb)" using ok by (auto simp: mbox_ok_def)
  then show "?o < length (mb_pool mb)" by simp
  obtain e where e: "unat (mb_entry mb) = Suc e" "unat (mb_entry mb - 1) = e" using unat_pred [OF some] by blast
  have "((?o + 1) mod ?n + e) mod ?n = (?o + Suc e) mod ?n" by (simp add: mod_simps)
  then show "mbox_ok mb1" using ok e offset_step [OF o(1)] by (auto simp: mbox_ok_def mb1_def)
  show "mbox_seq mb = mb_pool mb ! ?o # mbox_seq mb1"
    using ring_view_pop [OF o(1)] e offset_step [OF o(1)] by (simp add: mbox_seq_def mb1_def)
qed

lemma mbox_front:
  fixes v :: u64
  assumes ok: "mbox_ok mb" and room: "mb_entry mb \<noteq> mb_size mb"
  defines "k \<equiv> (if mb_out_offset mb > 0 then mb_out_offset mb - 1 else mb_size mb - 1)"
  defines "mb1 \<equiv> mb\<lparr>mb_out_offset := k, mb_pool := (mb_pool mb)[unat k := v], mb_entry := mb_entry mb + 1\<rparr>"
  shows "unat k < length (mb_pool mb)" and "mbox_ok mb1" and "mbox_seq mb1 = v # mbox_seq mb"
proof -
  let ?n = "unat (mb_size mb)" and ?e = "unat (mb_entry mb)" and ?o = "unat (mb_out_offset mb)"
  have o: "?o < ?n" "?n \<le> length (mb_pool mb)" and e: "?e < ?n"
    using ok room by (auto simp: mbox_ok_def word_unat_eq_iff)
  have n0: "mb_size mb \<noteq> 0" using o(1) by auto
  have k: "unat k = (if ?o > 0 then ?o - 1 else ?n - 1)"
    using unat_pred [OF n0] unat_pred [of "mb_out_offset mb"] by (auto simp: k_def word_gt_0 unat_gt_0)
  then show "unat k < length (mb_pool mb)" using o by auto
  have "(unat k + Suc ?e) mod ?n = (?o + ?e) mod ?n"
  proof -
    have "unat k + Suc ?e = (if ?o > 0 then ?o + ?e else ?n + ?e)" using k o(1) by auto
    then show ?thesis by auto
  qed
  moreover have "unat k < ?n" using k o(1) by auto
  ultimately show "mbox_ok mb1" using ok e entry_step(1) [OF e] unfolding mbox_ok_def mb1_def by simp
  show "mbox_seq mb1 = v # mbox_seq mb"
    using ring_view_push [OF o(1) e o(2), of v] k entry_step [OF e] by (simp add: mbox_seq_def mb1_def)
qed

section \<open>Correctness\<close>

definition mb_ok :: "nat \<Rightarrow> kernel \<Rightarrow> bool" where
  "mb_ok n s = (is_mb n s \<and> mbox_ok (mailboxes s n))"

text \<open>What the users of a mailbox see: the messages, the capacity, the waiting receivers, the waiting senders.\<close>

definition mb_view :: "nat \<Rightarrow> kernel \<Rightarrow> u64 list \<times> nat \<times> tid list \<times> tid list" where
  "mb_view n s = (mbox_seq (mailboxes s n), unat (mb_size (mailboxes s n)),
     items (tlists s) (Mb_recv_wait n), items (tlists s) (Mb_send_wait n))"

fun mb_spec_send :: "bool \<Rightarrow> (tid list \<Rightarrow> tid list) \<Rightarrow> u64 \<Rightarrow> u64 list \<times> nat \<times> tid list \<times> tid list \<Rightarrow>
    outcome \<times> u64 list \<times> nat \<times> tid list \<times> tid list" where
  "mb_spec_send wait join v (q, c, rs, ss) =
     (if length q < c then (Returned RT_EOK, q @ [v], c, tl rs, ss)
      else if wait then (Blocked, q, c, rs, join ss)
      else (Returned (- RT_EFULL), q, c, rs, ss))"

fun mb_spec_recv :: "bool \<Rightarrow> (tid list \<Rightarrow> tid list) \<Rightarrow> u64 list \<times> nat \<times> tid list \<times> tid list \<Rightarrow>
    outcome \<times> u64 option \<times> u64 list \<times> nat \<times> tid list \<times> tid list" where
  "mb_spec_recv wait join (v # q, c, rs, ss) = (Returned RT_EOK, Some v, q, c, rs, tl ss)"
| "mb_spec_recv wait join ([], c, rs, ss) =
     (if wait then (Blocked, None, [], c, join rs, ss) else (Returned (- RT_ETIMEOUT), None, [], c, rs, ss))"

lemma mb_full_iff:
  assumes "mb_ok n s"
  shows "mb_entry (mailboxes s n) = mb_size (mailboxes s n) \<longleftrightarrow>
    \<not> length (mbox_seq (mailboxes s n)) < unat (mb_size (mailboxes s n))"
  using assms by (auto simp: mb_ok_def mbox_ok_def word_unat_eq_iff)

text \<open>The wake-up after a change of the mailbox.\<close>

lemma mb_wakes:
  assumes "woken_on h s1 s'" and "is_mb n s1" and "mbox_ok (mailboxes s1 n)"
  shows "kernel_ok s'" and "mb_ok n s'" and "mailboxes s' = mailboxes s1"
    and "items (tlists s') h = tl (items (tlists s1) h)"
    and "k \<noteq> h \<Longrightarrow> (\<And>p. k \<noteq> Ready p) \<Longrightarrow> items (tlists s') k = items (tlists s1) k"
    and "items (tlists s1) h = t # ts \<Longrightarrow> awake s' t \<and> thread_error (threads s' t) = thread_error (threads s1 t)"
  using assms by (auto simp: woken_on_def mb_ok_def is_mb_def ipc_same_def)

lemma deposit_ok:
  assumes k: "kernel_ok s" and ok: "mb_ok n s" and room: "mb_entry (mailboxes s n) \<noteq> mb_size (mailboxes s n)"
  shows "\<exists>s'. mb_deposit n v s = Some (Returned RT_EOK, s') \<and> kernel_ok s' \<and> mb_ok n s' \<and>
    mb_view n s' = (mbox_seq (mailboxes s n) @ [v], unat (mb_size (mailboxes s n)),
      tl (items (tlists s) (Mb_recv_wait n)), items (tlists s) (Mb_send_wait n)) \<and>
    (\<forall>t ts. items (tlists s) (Mb_recv_wait n) = t # ts \<longrightarrow>
       awake s' t \<and> thread_error (threads s' t) = thread_error (threads s t))"
proof -
  obtain mb1 where mb1: "mb_store v (mailboxes s n) = Some mb1" "mb_entry mb1 < RT_MB_ENTRY_MAX"
    "mbox_ok (mb1\<lparr>mb_entry := mb_entry mb1 + 1\<rparr>)"
    "mbox_seq (mb1\<lparr>mb_entry := mb_entry mb1 + 1\<rparr>) = mbox_seq (mailboxes s n) @ [v]"
    "mb_size mb1 = mb_size (mailboxes s n)"
    using mbox_store [OF _ room, of v] ok unfolding mb_ok_def by auto
  define s1 where "s1 = upd_mb n (\<lambda>mb. mb\<lparr>mb_entry := mb_entry mb + 1\<rparr>) (upd_mb n (\<lambda>_. mb1) s)"
  have "kernel_ok s1" using k by (simp add: s1_def)
  then obtain s' where s': "ipc_wake_one (Mb_recv_wait n) s1 = Some s'" "woken_on (Mb_recv_wait n) s1 s'"
    using mb_recv_wait.wake_one by blast
  have "is_mb n s1" "mbox_ok (mailboxes s1 n)" using ok mb1(3) by (simp_all add: s1_def mb_ok_def is_mb_def)
  note w = mb_wakes [OF s'(2) this]
  have "mb_deposit n v s = Some (Returned RT_EOK, s')"
    using mb1(1,2) s'(1) by (simp add: mb_deposit_def s1_def Let_def)
  moreover have "mb_view n s' = (mbox_seq (mailboxes s n) @ [v], unat (mb_size (mailboxes s n)),
      tl (items (tlists s) (Mb_recv_wait n)), items (tlists s) (Mb_send_wait n))"
    using w(3,4) w(5) [of "Mb_send_wait n"] mb1(4,5) by (simp add: mb_view_def s1_def)
  ultimately show ?thesis using w(1,2,6) by (auto simp: s1_def)
qed

lemma collect_ok:
  assumes k: "kernel_ok s" and ok: "mb_ok n s" and it: "mbox_seq (mailboxes s n) = v # q"
  shows "\<exists>s'. mb_collect n s = Some (Returned RT_EOK, Some v, s') \<and> kernel_ok s' \<and> mb_ok n s' \<and>
    mb_view n s' = (q, unat (mb_size (mailboxes s n)),
      items (tlists s) (Mb_recv_wait n), tl (items (tlists s) (Mb_send_wait n))) \<and>
    (\<forall>t ts. items (tlists s) (Mb_send_wait n) = t # ts \<longrightarrow>
       awake s' t \<and> thread_error (threads s' t) = thread_error (threads s t))"
proof -
  let ?mb = "mailboxes s n"
  have some: "mb_entry ?mb \<noteq> 0" using it mbox_seq_Nil [of ?mb] by auto
  note f = mbox_fetch [OF _ some]
  define s1 where "s1 = upd_mb n (\<lambda>mb. mb\<lparr>mb_entry := mb_entry mb - 1\<rparr>) (upd_mb n (\<lambda>mb.
    mb\<lparr>mb_out_offset := (if mb_out_offset mb + 1 \<ge> mb_size mb then 0 else mb_out_offset mb + 1)\<rparr>) s)"
  have m1: "mailboxes s1 n = ?mb\<lparr>mb_out_offset := (if mb_out_offset ?mb + 1 \<ge> mb_size ?mb then 0 else mb_out_offset ?mb + 1),
      mb_entry := mb_entry ?mb - 1\<rparr>" by (simp add: s1_def)
  have m: "unat (mb_out_offset ?mb) < length (mb_pool ?mb)" "mbox_ok (mailboxes s1 n)"
    "mbox_seq ?mb = mb_pool ?mb ! unat (mb_out_offset ?mb) # mbox_seq (mailboxes s1 n)"
    using f ok unfolding mb_ok_def m1 by blast+
  have "kernel_ok s1" using k by (simp add: s1_def)
  then obtain s' where s': "ipc_wake_one (Mb_send_wait n) s1 = Some s'" "woken_on (Mb_send_wait n) s1 s'"
    using mb_send_wait.wake_one by blast
  have "is_mb n s1" using ok by (simp add: s1_def mb_ok_def is_mb_def)
  note w = mb_wakes [OF s'(2) this m(2)]
  have "mb_entry ?mb > 0" using some by (simp add: word_gt_0)
  then have "mb_collect n s = Some (Returned RT_EOK, Some v, s')"
    using m(1,3) it s'(1) by (simp add: mb_collect_def s1_def Let_def)
  moreover have "mb_view n s' = (q, unat (mb_size ?mb), items (tlists s) (Mb_recv_wait n), tl (items (tlists s) (Mb_send_wait n)))"
    using w(3,4) w(5) [of "Mb_recv_wait n"] m(3) it by (simp add: mb_view_def) (simp add: s1_def)
  ultimately show ?thesis using w(1,2,6) by (auto simp: s1_def)
qed

lemma urgent_ok:
  assumes k: "kernel_ok s" and ok: "mb_ok n s" and room: "mb_entry (mailboxes s n) \<noteq> mb_size (mailboxes s n)"
  shows "\<exists>s'. rt_mb_urgent n v s = Some (RT_EOK, s') \<and> kernel_ok s' \<and> mb_ok n s' \<and>
    mb_view n s' = (v # mbox_seq (mailboxes s n), unat (mb_size (mailboxes s n)),
      tl (items (tlists s) (Mb_recv_wait n)), items (tlists s) (Mb_send_wait n)) \<and>
    (\<forall>t ts. items (tlists s) (Mb_recv_wait n) = t # ts \<longrightarrow>
       awake s' t \<and> thread_error (threads s' t) = thread_error (threads s t))"
proof -
  let ?mb = "mailboxes s n"
  let ?k = "if mb_out_offset ?mb > 0 then mb_out_offset ?mb - 1 else mb_size ?mb - 1"
  define s1 where "s1 = upd_mb n (\<lambda>mb. mb\<lparr>mb_out_offset := ?k, mb_pool := (mb_pool mb)[unat ?k := v], mb_entry := mb_entry mb + 1\<rparr>) s"
  have m1: "mailboxes s1 n = ?mb\<lparr>mb_out_offset := ?k, mb_pool := (mb_pool ?mb)[unat ?k := v], mb_entry := mb_entry ?mb + 1\<rparr>"
    by (simp add: s1_def)
  have m: "unat ?k < length (mb_pool ?mb)" "mbox_ok (mailboxes s1 n)" "mbox_seq (mailboxes s1 n) = v # mbox_seq ?mb"
    using mbox_front(1) [OF _ room] mbox_front(2,3) [OF _ room, where v = v] ok unfolding mb_ok_def m1 by blast+
  have "kernel_ok s1" using k by (simp add: s1_def)
  then obtain s' where s': "ipc_wake_one (Mb_recv_wait n) s1 = Some s'" "woken_on (Mb_recv_wait n) s1 s'"
    using mb_recv_wait.wake_one by blast
  have "is_mb n s1" using ok by (simp add: s1_def mb_ok_def is_mb_def)
  note w = mb_wakes [OF s'(2) this m(2)]
  have "rt_mb_urgent n v s = Some (RT_EOK, s')"
    using m(1) room ok s'(1) unfolding rt_mb_urgent_def Let_def s1_def by (simp add: mb_ok_def)
  moreover have "mb_view n s' = (v # mbox_seq ?mb, unat (mb_size ?mb),
      tl (items (tlists s) (Mb_recv_wait n)), items (tlists s) (Mb_send_wait n))"
    using w(3,4) w(5) [of "Mb_send_wait n"] m(3) by (simp add: mb_view_def) (simp add: s1_def)
  ultimately show ?thesis using w(1,2,6) by (auto simp: s1_def)
qed

text \<open>Blocking on a queue of the mailbox.\<close>

lemma mb_blocked:
  assumes b: "blocked_on h f x (no_error s) s'" and ok: "mb_ok n s"
  shows "kernel_ok s'" and "mb_ok n s'" and "mailboxes s' = mailboxes s" and "current_thread s' \<noteq> current_thread s"
    and "items (tlists s') h = wait_insert f (prio_of s) (current_thread s) (items (tlists s) h)"
    and "k \<noteq> h \<Longrightarrow> (\<And>p. k \<noteq> Ready p) \<Longrightarrow> items (tlists s') k = items (tlists s) k"
    and "runs_highest s'"
    and "threads s' (current_thread s) = set_stat RT_THREAD_SUSPEND ((threads s (current_thread s))\<lparr>thread_error := RT_EOK\<rparr>)"
proof -
  note d = blocked_onD [OF b, simplified] and fr = blocked_on_frame(1,2) [OF b]
  show "kernel_ok s'" "current_thread s' \<noteq> current_thread s" "runs_highest s'"
    "items (tlists s') h = wait_insert f (prio_of s) (current_thread s) (items (tlists s) h)"
    "threads s' (current_thread s) = set_stat RT_THREAD_SUSPEND ((threads s (current_thread s))\<lparr>thread_error := RT_EOK\<rparr>)"
    using d by simp_all
  show "mailboxes s' = mailboxes s" "mb_ok n s'"
    using ok fr(1) by (simp_all add: ipc_same_def mb_ok_def is_mb_def)
  show "k \<noteq> h \<Longrightarrow> (\<And>p. k \<noteq> Ready p) \<Longrightarrow> items (tlists s') k = items (tlists s) k"
    using fr(2) by simp
qed

lemma send_blocks:
  assumes b: "may_block s" and ok: "mb_ok n s" and full: "mb_entry (mailboxes s n) = mb_size (mailboxes s n)"
    and x: "timeout \<noteq> 0" "timeout < 0x7FFFFFFF"
  shows "\<exists>s'. mb_send_loop n v timeout s = Some (Blocked, s') \<and> kernel_ok s' \<and> mb_ok n s' \<and>
    mb_view n s' = (mbox_seq (mailboxes s n), unat (mb_size (mailboxes s n)), items (tlists s) (Mb_recv_wait n),
      wait_insert (mb_flag (mailboxes s n)) (prio_of s) (current_thread s) (items (tlists s) (Mb_send_wait n))) \<and>
    (timeout > 0 \<longrightarrow> tm_active (timers s' (Thread_timer (current_thread s))) \<and>
       timeout_tick (timers s' (Thread_timer (current_thread s))) = rt_tick s + word_of_int timeout)"
proof -
  have f: "mb_flag (mailboxes s n) \<in> {0, 1}" using ok by (simp add: mb_ok_def mbox_ok_def)
  obtain s' where s': "ipc_block (Mb_send_wait n) (mb_flag (mailboxes s n)) timeout (no_error s) = Some s'"
    "blocked_on (Mb_send_wait n) (mb_flag (mailboxes s n)) timeout (no_error s) s'"
    using mb_send_wait.block_on [OF b f x(2)] by blast
  note m = mb_blocked [OF s'(2) ok]
  have "mb_send_loop n v timeout s = Some (Blocked, s')"
    using s'(1) full x(1) m(4) by (subst mb_send_loop.simps) (simp add: Let_def rt_thread_self_def)
  then show ?thesis
    using m(1-3,5) m(6) [of "Mb_recv_wait n"] blocked_deadline [OF s'(2)] by (simp add: mb_view_def)
qed

lemma recv_blocks:
  assumes b: "may_block s" and ok: "mb_ok n s" and empty: "mb_entry (mailboxes s n) = 0"
    and x: "timeout \<noteq> 0" "timeout < 0x7FFFFFFF"
  shows "\<exists>s'. mb_recv_loop n timeout s = Some (Blocked, None, s') \<and> kernel_ok s' \<and> mb_ok n s' \<and>
    mb_view n s' = (mbox_seq (mailboxes s n), unat (mb_size (mailboxes s n)),
      wait_insert (mb_flag (mailboxes s n)) (prio_of s) (current_thread s) (items (tlists s) (Mb_recv_wait n)),
      items (tlists s) (Mb_send_wait n))"
proof -
  have f: "mb_flag (mailboxes s n) \<in> {0, 1}" using ok by (simp add: mb_ok_def mbox_ok_def)
  obtain s' where s': "ipc_block (Mb_recv_wait n) (mb_flag (mailboxes s n)) timeout (no_error s) = Some s'"
    "blocked_on (Mb_recv_wait n) (mb_flag (mailboxes s n)) timeout (no_error s) s'"
    using mb_recv_wait.block_on [OF b f x(2)] by blast
  note m = mb_blocked [OF s'(2) ok]
  have "mb_recv_loop n timeout s = Some (Blocked, None, s')"
    using s'(1) empty x(1) m(4) by (subst mb_recv_loop.simps) (simp add: Let_def rt_thread_self_def)
  then show ?thesis using m(1-3,5) m(6) [of "Mb_send_wait n"] by (simp add: mb_view_def)
qed

text \<open>Non-blocking sends and receives are a bounded first-in first-out buffer.\<close>

definition mb_trysend :: "nat \<Rightarrow> u64 \<Rightarrow> kernel \<Rightarrow> (bool \<times> kernel) option" where
  "mb_trysend n v s = map_option (map_prod (\<lambda>r. r = Returned RT_EOK) id) (rt_mb_send n v s)"

definition mb_tryrecv :: "nat \<Rightarrow> kernel \<Rightarrow> (u64 option \<times> kernel) option" where
  "mb_tryrecv n s = map_option snd (rt_mb_recv n 0 s)"

lemma send_room:
  assumes "mb_ok n s" and "mb_entry (mailboxes s n) \<noteq> mb_size (mailboxes s n)" and "timeout \<noteq> 0 \<longrightarrow> scheduler_available s"
  shows "rt_mb_send_wait n v timeout s = mb_deposit n v s"
  using assms by (simp add: rt_mb_send_wait_def mb_ok_def mb_send_loop.simps)

lemma recv_some:
  assumes "mb_ok n s" and "mb_entry (mailboxes s n) \<noteq> 0" and "timeout \<noteq> 0 \<longrightarrow> scheduler_available s"
  shows "rt_mb_recv n timeout s = mb_collect n s"
  using assms by (simp add: rt_mb_recv_def mb_ok_def mb_recv_loop.simps)

interpretation mb: bounded_fifo "\<lambda>s. kernel_ok s \<and> mb_ok n s" "\<lambda>s. mbox_seq (mailboxes s n)"
  "\<lambda>s. unat (mb_size (mailboxes s n))" "\<lambda>_. True" "mb_trysend n" "mb_tryrecv n" for n
proof
  fix s :: kernel and v :: u64 and q :: "u64 list"
  assume o: "kernel_ok s \<and> mb_ok n s"
  then have ok: "kernel_ok s" "mb_ok n s" by auto
  show "length (mbox_seq (mailboxes s n)) \<le> unat (mb_size (mailboxes s n))"
    using ok(2) by (simp add: mb_ok_def mbox_ok_def)
  show "\<exists>s'. mb_trysend n v s = Some (True, s') \<and> (kernel_ok s' \<and> mb_ok n s') \<and>
      mbox_seq (mailboxes s' n) = mbox_seq (mailboxes s n) @ [v] \<and> unat (mb_size (mailboxes s' n)) = unat (mb_size (mailboxes s n))"
    if "length (mbox_seq (mailboxes s n)) < unat (mb_size (mailboxes s n))"
  proof -
    have room: "mb_entry (mailboxes s n) \<noteq> mb_size (mailboxes s n)" using mb_full_iff [OF ok(2)] that by simp
    show ?thesis
      using deposit_ok [OF ok room, of v] send_room [OF ok(2) room, of 0 v]
      by (auto simp: mb_trysend_def rt_mb_send_def mb_view_def)
  qed
  show "mb_trysend n v s = Some (False, s)" if "length (mbox_seq (mailboxes s n)) = unat (mb_size (mailboxes s n))"
    using that mb_full_iff [OF ok(2)] ok(2) by (simp add: mb_trysend_def rt_mb_send_def rt_mb_send_wait_def mb_ok_def)
  show "\<exists>s'. mb_tryrecv n s = Some (Some v, s') \<and> (kernel_ok s' \<and> mb_ok n s') \<and>
      mbox_seq (mailboxes s' n) = q \<and> unat (mb_size (mailboxes s' n)) = unat (mb_size (mailboxes s n))"
    if it: "mbox_seq (mailboxes s n) = v # q"
  proof -
    have "mb_entry (mailboxes s n) \<noteq> 0" using it mbox_seq_Nil [of "mailboxes s n"] by auto
    then show ?thesis
      using collect_ok [OF ok it] recv_some [OF ok(2), of 0] by (auto simp: mb_tryrecv_def mb_view_def)
  qed
  show "mb_tryrecv n s = Some (None, s)" if "mbox_seq (mailboxes s n) = []"
    using that ok(2) by (simp add: mb_tryrecv_def rt_mb_recv_def mb_ok_def mbox_seq_Nil)
qed

section \<open>Properties\<close>

text \<open>A mailbox of two words, one of them used, with thread 5 waiting to receive and thread 3 running.\<close>

definition demo_mb :: "u16 \<Rightarrow> kernel" where
  "demo_mb e = (demo_wait (Mb_recv_wait 7) (Mailbox_obj 7) 0x85)\<lparr>mailboxes := (\<lambda>_.
     \<lparr>mb_flag = 0, mb_pool = [11, 22], mb_size = 2, mb_entry = e, mb_in_offset = (if e = 1 then 0 else 1), mb_out_offset = 1\<rparr>)\<rparr>"

lemma demo_mb_ok:
  assumes "e \<in> {0, 1, 2}"
  shows "may_block (demo_mb e)" "kernel_ok (demo_mb e)" "mb_ok 7 (demo_mb e)"
proof -
  have "may_block (demo_wait (Mb_recv_wait 7) (Mailbox_obj 7) 0x85)"
    by (rule mb_recv_wait.demo_wait_may_block) auto
  then show b: "may_block (demo_mb e)" by (simp add: may_block_def demo_mb_def)
  then show "kernel_ok (demo_mb e)" by (rule may_blockD)
  show "mb_ok 7 (demo_mb e)"
    using assms by (auto simp: mb_ok_def is_mb_def mbox_ok_def demo_mb_def rt_object_get_type_def)
qed

lemma demo_mb_view:
  "mb_view 7 (demo_mb 0) = ([], 2, [5], [])" "mb_view 7 (demo_mb 1) = ([22], 2, [5], [])"
  "mb_view 7 (demo_mb 2) = ([22, 11], 2, [5], [])" "current_thread (demo_mb e) = 3" "mb_flag (mailboxes (demo_mb e) 7) = 0"
  "items (tlists (demo_mb e)) (Mb_recv_wait 7) = [5]" "rt_tick (demo_mb e) = 0"
  "threads (demo_mb e) = threads demo_kernel" "mb_entry (mailboxes (demo_mb 2) 7) = 2" "mb_size (mailboxes (demo_mb e) 7) = 2"
  by (simp_all add: mb_view_def mbox_seq_def ring_view_def demo_mb_def upt_rec) (simp_all add: demo_wait_def)

text \<open>C16. \<^verbatim>\<open>rt_mb_send_wait\<close> implements the abstract mailbox: with room it appends the message and wakes the
  first receiver; on a full mailbox it reports \<^verbatim>\<open>-RT_EFULL\<close> when it may not wait, otherwise the caller joins the
  senders in the order of the mailbox and another thread runs. It never leaves the message array.\<close>

theorem mailbox_send_refines:
  assumes "kernel_ok s" and "mb_ok n s" and "timeout = 0 \<or> may_block s \<and> timeout < 0x7FFFFFFF"
  shows "\<exists>r s'. rt_mb_send_wait n v timeout s = Some (r, s') \<and> kernel_ok s' \<and> mb_ok n s' \<and>
    (r, mb_view n s') = mb_spec_send (timeout \<noteq> 0)
      (wait_insert (mb_flag (mailboxes s n)) (prio_of s) (current_thread s)) v (mb_view n s) \<and>
    (\<forall>t ts. r = Returned RT_EOK \<and> items (tlists s) (Mb_recv_wait n) = t # ts \<longrightarrow>
       awake s' t \<and> thread_error (threads s' t) = thread_error (threads s t))"
proof (cases "mb_entry (mailboxes s n) = mb_size (mailboxes s n)")
  case False
  have "timeout \<noteq> 0 \<longrightarrow> scheduler_available s" using assms(3) may_blockD(6) by blast
  then show ?thesis
    using deposit_ok [OF assms(1,2) False, of v] send_room [OF assms(2) False] mb_full_iff [OF assms(2)] False
    by (auto simp: mb_view_def)
next
  case True
  note full = mb_full_iff [OF assms(2)]
  show ?thesis
  proof (cases "timeout = 0")
    case True
    then show ?thesis
      using full \<open>mb_entry _ = _\<close> assms(1,2) by (simp add: rt_mb_send_wait_def mb_ok_def mb_view_def)
  next
    case wait: False
    then have b: "may_block s" "timeout < 0x7FFFFFFF" using assms(3) by auto
    have "rt_mb_send_wait n v timeout s = mb_send_loop n v timeout s"
      using assms(2) wait may_blockD(6) [OF b(1)] by (simp add: rt_mb_send_wait_def mb_ok_def)
    then show ?thesis
      using send_blocks [OF b(1) assms(2) True wait b(2), of v] full True wait by (auto simp: mb_view_def)
  qed
qed

theorem mailbox_send_refines_witness:
  "(\<exists>s'. rt_mb_send_wait 7 33 0 (demo_mb 1) = Some (Returned RT_EOK, s') \<and> mb_view 7 s' = ([22, 33], 2, [], []) \<and> awake s' 5) \<and>
   (\<exists>s'. rt_mb_send_wait 7 33 20 (demo_mb 2) = Some (Blocked, s') \<and> mb_view 7 s' = ([22, 11], 2, [5], [3]))"
proof
  show "\<exists>s'. rt_mb_send_wait 7 33 0 (demo_mb 1) = Some (Returned RT_EOK, s') \<and> mb_view 7 s' = ([22, 33], 2, [], []) \<and> awake s' 5"
    using mailbox_send_refines [OF demo_mb_ok(2,3), of 1 0 33] by (auto simp: demo_mb_view)
  show "\<exists>s'. rt_mb_send_wait 7 33 20 (demo_mb 2) = Some (Blocked, s') \<and> mb_view 7 s' = ([22, 11], 2, [5], [3])"
    using mailbox_send_refines [OF demo_mb_ok(2,3), of 2 20 33] demo_mb_ok(1) [of 2]
    by (auto simp: demo_mb_view wait_insert_def)
qed

text \<open>C17. \<^verbatim>\<open>rt_mb_recv\<close> implements the abstract mailbox: it returns the oldest message and wakes the first
  waiting sender; on an empty mailbox it reports \<^verbatim>\<open>-RT_ETIMEOUT\<close> when it may not wait, otherwise the caller joins
  the receivers and another thread runs.\<close>

theorem mailbox_recv_refines:
  assumes "kernel_ok s" and "mb_ok n s" and "timeout = 0 \<or> may_block s \<and> timeout < 0x7FFFFFFF"
  shows "\<exists>r v s'. rt_mb_recv n timeout s = Some (r, v, s') \<and> kernel_ok s' \<and> mb_ok n s' \<and>
    (r, v, mb_view n s') = mb_spec_recv (timeout \<noteq> 0)
      (wait_insert (mb_flag (mailboxes s n)) (prio_of s) (current_thread s)) (mb_view n s) \<and>
    (\<forall>t ts. r = Returned RT_EOK \<and> items (tlists s) (Mb_send_wait n) = t # ts \<longrightarrow>
       awake s' t \<and> thread_error (threads s' t) = thread_error (threads s t))"
proof (cases "mbox_seq (mailboxes s n)")
  case (Cons v q)
  then have "mb_entry (mailboxes s n) \<noteq> 0" using mbox_seq_Nil [of "mailboxes s n"] by auto
  moreover have "timeout \<noteq> 0 \<longrightarrow> scheduler_available s" using assms(3) may_blockD(6) by blast
  ultimately show ?thesis
    using collect_ok [OF assms(1,2) Cons] recv_some [OF assms(2)] Cons by (auto simp: mb_view_def)
next
  case Nil
  then have e: "mb_entry (mailboxes s n) = 0" by (simp add: mbox_seq_Nil)
  show ?thesis
  proof (cases "timeout = 0")
    case True
    then show ?thesis using e Nil assms(1,2) by (simp add: rt_mb_recv_def mb_ok_def mb_view_def)
  next
    case wait: False
    then have b: "may_block s" "timeout < 0x7FFFFFFF" using assms(3) by auto
    have "rt_mb_recv n timeout s = mb_recv_loop n timeout s"
      using assms(2) wait may_blockD(6) [OF b(1)] by (simp add: rt_mb_recv_def mb_ok_def)
    then show ?thesis
      using recv_blocks [OF b(1) assms(2) e wait b(2)] wait Nil by (auto simp: mb_view_def)
  qed
qed

theorem mailbox_recv_refines_witness:
  "(\<exists>s'. rt_mb_recv 7 0 (demo_mb 2) = Some (Returned RT_EOK, Some 22, s') \<and> mb_view 7 s' = ([11], 2, [5], [])) \<and>
   (\<exists>s'. rt_mb_recv 7 20 (demo_mb 0) = Some (Blocked, None, s') \<and> mb_view 7 s' = ([], 2, [5, 3], []))"
  using mailbox_recv_refines [OF demo_mb_ok(2,3), of 2 0] mailbox_recv_refines [OF demo_mb_ok(2,3), of 0 20]
    demo_mb_ok(1) [of 0] demo_mb_view
  by (auto simp: wait_insert_def)

text \<open>An urgent message overtakes all others: after \<^verbatim>\<open>rt_mb_urgent\<close> the next \<^verbatim>\<open>rt_mb_recv\<close> returns it, and the
  messages that were there follow in their order; a full mailbox refuses it and stays as it is.\<close>

lemma mailbox_urgent_first:
  assumes "kernel_ok s" and "mb_ok n s"
  shows "(mb_entry (mailboxes s n) = mb_size (mailboxes s n) \<longrightarrow> rt_mb_urgent n v s = Some (- RT_EFULL, s)) \<and>
    (mb_entry (mailboxes s n) \<noteq> mb_size (mailboxes s n) \<longrightarrow>
      (\<exists>s1 s2. rt_mb_urgent n v s = Some (RT_EOK, s1) \<and> rt_mb_recv n 0 s1 = Some (Returned RT_EOK, Some v, s2) \<and>
         kernel_ok s2 \<and> mb_ok n s2 \<and> mbox_seq (mailboxes s2 n) = mbox_seq (mailboxes s n)))"
proof (intro conjI impI)
  assume "mb_entry (mailboxes s n) = mb_size (mailboxes s n)"
  then show "rt_mb_urgent n v s = Some (- RT_EFULL, s)"
    using assms(2) by (simp add: rt_mb_urgent_def mb_ok_def)
next
  assume room: "mb_entry (mailboxes s n) \<noteq> mb_size (mailboxes s n)"
  obtain s1 where s1: "rt_mb_urgent n v s = Some (RT_EOK, s1)" "kernel_ok s1" "mb_ok n s1"
    "mbox_seq (mailboxes s1 n) = v # mbox_seq (mailboxes s n)"
    using urgent_ok [OF assms room, of v] by (auto simp: mb_view_def)
  have "mb_entry (mailboxes s1 n) \<noteq> 0" using s1(4) mbox_seq_Nil [of "mailboxes s1 n"] by auto
  then show "\<exists>s1 s2. rt_mb_urgent n v s = Some (RT_EOK, s1) \<and> rt_mb_recv n 0 s1 = Some (Returned RT_EOK, Some v, s2) \<and>
         kernel_ok s2 \<and> mb_ok n s2 \<and> mbox_seq (mailboxes s2 n) = mbox_seq (mailboxes s n)"
    using collect_ok [OF s1(2,3,4)] recv_some [OF s1(3), of 0] s1(1) by (auto simp: mb_view_def)
qed

text \<open>Any interleaving of non-blocking sends and receives, from threads or interrupts, keeps the kernel
  consistent and delivers the accepted words in order, none lost, repeated or invented.\<close>

theorem mailbox_streams:
  assumes "kernel_ok s" and "mb_ok n s"
  shows "\<exists>ins outs s'. fifo_run (mb_trysend n) (mb_tryrecv n) cs s = Some (ins, outs, s') \<and> kernel_ok s' \<and> mb_ok n s' \<and>
    mbox_seq (mailboxes s n) @ ins = outs @ mbox_seq (mailboxes s' n)"
  using mb.stream [of s n cs] assms by blast

theorem mailbox_streams_witness:
  "\<exists>ins outs s'. fifo_run (mb_trysend 7) (mb_tryrecv 7) [Some 1, Some 2, None, None] (demo_mb 1) = Some (ins, outs, s') \<and>
    kernel_ok s' \<and> [22] @ ins = outs @ mbox_seq (mailboxes s' 7)"
  using mailbox_streams [OF demo_mb_ok(2,3), of 1 "[Some 1, Some 2, None, None]"] demo_mb_view(2) by (auto simp: mb_view_def)

text \<open>A sender that was woken and finds the mailbox full again does not start its wait anew: it waits on
  with the timer set to the tick at which its original timeout ends, or, when that time is over, returns
  \<^verbatim>\<open>-RT_EFULL\<close>. The 32-bit tick may wrap around during the wait.\<close>

theorem mailbox_retry_keeps_deadline:
  assumes "may_block s" and "mb_ok n s" and "thread_error (threads s (current_thread s)) = RT_EOK"
    and "mb_entry (mailboxes s n) = mb_size (mailboxes s n)"
    and "0 < timeout" "timeout < 0x7FFFFFFF" "unat (rt_tick s - t0) < 2 ^ 31"
  shows "\<exists>r s'. mb_send_resume n v timeout t0 s = Some (r, s') \<and> kernel_ok s' \<and> mb_ok n s' \<and>
    (if timeout \<le> int (unat (rt_tick s - t0)) then r = Returned (- RT_EFULL) \<and> mb_view n s' = mb_view n s
     else r = Blocked \<and> current_thread s \<in> set (items (tlists s') (Mb_send_wait n)) \<and>
       tm_active (timers s' (Thread_timer (current_thread s))) \<and>
       timeout_tick (timers s' (Thread_timer (current_thread s))) = t0 + word_of_int timeout)"
proof -
  note rem = remaining_time [of timeout s t0]
  have run: "mb_send_resume n v timeout t0 s = mb_send_loop n v (ipc_remaining timeout t0 s) s"
    using assms(3) by (simp add: mb_send_resume_def)
  show ?thesis
  proof (cases "timeout \<le> int (unat (rt_tick s - t0))")
    case True
    then have z: "ipc_remaining timeout t0 s = 0" using rem assms(5-7) by simp
    have "kernel_ok (no_error s)" using runningD(1) running_error may_blockD(1) [OF assms(1)] by blast
    then show ?thesis
      using True assms(2,4) unfolding run z
      by (subst mb_send_loop.simps) (simp add: Let_def rt_thread_self_def mb_ok_def is_mb_def mb_view_def)
  next
    case False
    then have z: "ipc_remaining timeout t0 s = timeout - int (unat (rt_tick s - t0))" using rem assms(5-7) by simp
    then have x: "ipc_remaining timeout t0 s \<noteq> 0" "ipc_remaining timeout t0 s < 0x7FFFFFFF" "0 < ipc_remaining timeout t0 s"
      using False assms(6) by linarith+
    show ?thesis
      using send_blocks [OF assms(1,2,4) x(1,2), of v] x(3) False remaining_deadline [OF z] unfolding run
      by (auto simp: mb_view_def)
  qed
qed

theorem mailbox_retry_keeps_deadline_witness:
  "\<exists>s'. mb_send_resume 7 33 20 0xFFFFFFF6 (demo_mb 2) = Some (Blocked, s') \<and>
     timeout_tick (timers s' (Thread_timer 3)) = 10"
  using mailbox_retry_keeps_deadline [OF demo_mb_ok(1,3), of 2 20 "0xFFFFFFF6" 33]
  by (auto simp: demo_mb_view demo_thread_def)

end
