(* ===== verification/Rt_MqPool.thy ===== *)
theory Rt_MqPool
  imports Rt_Kernel
begin

text \<open>
  The message pool of a message queue (\<^verbatim>\<open>src/ipc.c\<close>): slots linked through their \<^verbatim>\<open>next\<close> pointers, hanging on
  the free list or on the list of queued messages. A slot that a sender is filling or a receiver is reading is
  on neither: the code copies messages with interrupts enabled, so other senders and receivers run in between.
  The atomic steps are the functions below; every access to a slot checks that it lies in the pool.
\<close>

section \<open>Atomic steps\<close>

abbreviation (input) RT_MQ_ENTRY_MAX :: u16 where "RT_MQ_ENTRY_MAX \<equiv> 0xFFFF"

definition in_pool :: "rt_messagequeue \<Rightarrow> nat \<Rightarrow> bool" where
  "in_pool mq m = (m < unat (max_msgs mq))"

text \<open>A sender takes a slot off the free list.\<close>

definition mq_take_free :: "rt_messagequeue \<Rightarrow> (nat \<times> rt_messagequeue) option" where
  "mq_take_free mq = do {
     m \<leftarrow> msg_queue_free mq;
     rt_assert (in_pool mq m);
     Some (m, mq\<lparr>msg_queue_free := mq_next mq m\<rparr>)
   }"

text \<open>It clears the link and copies its message, with interrupts enabled.\<close>

definition mq_copy_in :: "nat \<Rightarrow> u8 list \<Rightarrow> rt_messagequeue \<Rightarrow> rt_messagequeue option" where
  "mq_copy_in m d mq = do {
     rt_assert (in_pool mq m \<and> length d \<le> length (mq_body mq m));
     Some (mq\<lparr>mq_body := (mq_body mq)(m := d @ drop (length d) (mq_body mq m))\<rparr>)
   }"

definition mq_fill :: "nat \<Rightarrow> u8 list \<Rightarrow> rt_messagequeue \<Rightarrow> rt_messagequeue option" where
  "mq_fill m d mq = do {
     rt_assert (in_pool mq m);
     mq_copy_in m d (mq\<lparr>mq_next := (mq_next mq)(m := None)\<rparr>)
   }"

text \<open>It links the slot at the end of the queue. The flag tells whether the entry count had room.\<close>

definition mq_count :: "rt_messagequeue \<Rightarrow> bool \<times> rt_messagequeue" where
  "mq_count mq = (if mq_entry mq < RT_MQ_ENTRY_MAX then (True, mq\<lparr>mq_entry := mq_entry mq + 1\<rparr>) else (False, mq))"

definition mq_link :: "nat \<Rightarrow> rt_messagequeue \<Rightarrow> (bool \<times> rt_messagequeue) option" where
  "mq_link m mq = do {
     mq \<leftarrow> (case msg_queue_tail mq of
             Some t \<Rightarrow> do {
               rt_assert (in_pool mq t);
               Some (mq\<lparr>mq_next := (mq_next mq)(t := Some m)\<rparr>)
             }
           | None \<Rightarrow> Some mq);
     let mq = mq\<lparr>msg_queue_tail := Some m\<rparr>;
     let mq = (if msg_queue_head mq = None then mq\<lparr>msg_queue_head := Some m\<rparr> else mq);
     Some (mq_count mq)
   }"

text \<open>An urgent message goes to the front.\<close>

definition mq_link_front :: "nat \<Rightarrow> rt_messagequeue \<Rightarrow> (bool \<times> rt_messagequeue) option" where
  "mq_link_front m mq = do {
     rt_assert (in_pool mq m);
     let mq = mq\<lparr>mq_next := (mq_next mq)(m := msg_queue_head mq)\<rparr>;
     let mq = mq\<lparr>msg_queue_head := Some m\<rparr>;
     let mq = (if msg_queue_tail mq = None then mq\<lparr>msg_queue_tail := Some m\<rparr> else mq);
     Some (mq_count mq)
   }"

text \<open>A receiver takes the first message off the queue.\<close>

definition mq_unlink :: "rt_messagequeue \<Rightarrow> (nat \<times> rt_messagequeue) option" where
  "mq_unlink mq = do {
     m \<leftarrow> msg_queue_head mq;
     rt_assert (in_pool mq m);
     let mq = mq\<lparr>msg_queue_head := mq_next mq m\<rparr>;
     Some (m, if msg_queue_tail mq = Some m then mq\<lparr>msg_queue_tail := None\<rparr> else mq)
   }"

definition mq_uncount :: "rt_messagequeue \<Rightarrow> rt_messagequeue" where
  "mq_uncount mq = (if mq_entry mq > 0 then mq\<lparr>mq_entry := mq_entry mq - 1\<rparr> else mq)"

text \<open>It copies the message, with interrupts enabled: at most \<^verbatim>\<open>msg_size\<close> bytes.\<close>

definition mq_copy_out :: "nat \<Rightarrow> nat \<Rightarrow> rt_messagequeue \<Rightarrow> u8 list option" where
  "mq_copy_out m sz mq = do {
     let k = (if sz > unat (msg_size mq) then unat (msg_size mq) else sz);
     rt_assert (in_pool mq m \<and> k \<le> length (mq_body mq m));
     Some (take k (mq_body mq m))
   }"

text \<open>It gives the slot back.\<close>

definition mq_put_free :: "nat \<Rightarrow> rt_messagequeue \<Rightarrow> rt_messagequeue option" where
  "mq_put_free m mq = do {
     rt_assert (in_pool mq m);
     Some (mq\<lparr>mq_next := (mq_next mq)(m := msg_queue_free mq), msg_queue_free := Some m\<rparr>)
   }"

text \<open>The reset loop of \<^verbatim>\<open>rt_mq_control\<close>.\<close>

partial_function (option) mq_flush :: "rt_messagequeue \<Rightarrow> rt_messagequeue option" where
  "mq_flush mq =
     (if msg_queue_head mq \<noteq> None then do {
        (m, mq) \<leftarrow> mq_unlink mq;
        mq \<leftarrow> mq_put_free m mq;
        mq_flush mq
      }
      else Some mq)"

text \<open>The loop that chains all slots of a new pool; the bodies lie \<^verbatim>\<open>sizeof(struct rt_mq_message)\<close> = 8 bytes
  behind the slots.\<close>

definition mq_bodies :: "u8 list \<Rightarrow> u16 \<Rightarrow> nat \<Rightarrow> u8 list" where
  "mq_bodies pool ms i = take (unat ms) (drop (i * (unat ms + 8) + 8) pool)"

definition mq_add_slot :: "rt_messagequeue \<Rightarrow> nat \<Rightarrow> rt_messagequeue" where
  "mq_add_slot mq i = mq\<lparr>mq_next := (mq_next mq)(i := msg_queue_free mq), msg_queue_free := Some i\<rparr>"

definition mq_init_pool :: "u8 list \<Rightarrow> rt_messagequeue \<Rightarrow> rt_messagequeue" where
  "mq_init_pool pool mq =
     foldl mq_add_slot
       (mq\<lparr>msg_queue_head := None, msg_queue_tail := None, msg_queue_free := None, mq_body := mq_bodies pool (msg_size mq)\<rparr>)
       [0..<unat (max_msgs mq)]"

section \<open>Chains\<close>

fun slot_chain :: "(nat \<Rightarrow> nat option) \<Rightarrow> nat option \<Rightarrow> nat list \<Rightarrow> bool" where
  "slot_chain nx p [] = (p = None)"
| "slot_chain nx p (a # xs) = (p = Some a \<and> slot_chain nx (nx a) xs)"

lemma chain_unique: "slot_chain nx p xs \<Longrightarrow> slot_chain nx p ys \<Longrightarrow> xs = ys"
  by (induction xs arbitrary: p ys) (case_tac ys; auto)+

lemma chain_upd [simp]: "a \<notin> set xs \<Longrightarrow> slot_chain (nx(a := v)) p xs = slot_chain nx p xs"
  by (induction xs arbitrary: p) auto

lemma chain_None [simp]: "slot_chain nx None xs = (xs = [])"
  by (cases xs) auto

lemma chain_Some: "slot_chain nx (Some a) xs \<longleftrightarrow> (\<exists>ys. xs = a # ys \<and> slot_chain nx (nx a) ys)"
  by (cases xs) auto

lemma chain_snoc:
  "slot_chain nx p (xs @ [a]) \<Longrightarrow> distinct (xs @ [a]) \<Longrightarrow> b \<notin> set (xs @ [a]) \<Longrightarrow> nx b = None \<Longrightarrow>
   slot_chain (nx(a := Some b)) p (xs @ [a, b])"
  by (induction xs arbitrary: p) auto

text \<open>The slots a pointer leads to, read off with a bound on their number.\<close>

fun walk :: "nat \<Rightarrow> (nat \<Rightarrow> nat option) \<Rightarrow> nat option \<Rightarrow> nat list" where
  "walk 0 nx p = []"
| "walk (Suc k) nx None = []"
| "walk (Suc k) nx (Some a) = a # walk k nx (nx a)"

lemma chain_walk: "slot_chain nx p xs \<Longrightarrow> length xs \<le> k \<Longrightarrow> walk k nx p = xs"
proof (induction xs arbitrary: p k)
  case Nil
  then show ?case by (cases k) auto
next
  case (Cons a xs)
  then show ?case by (cases k) auto
qed

section \<open>The pool invariant\<close>

text \<open>\<open>fl\<close> and \<open>q\<close> are the free and the queued slots, \<open>W\<close> those in the hands of senders and receivers.\<close>

definition mq_lists :: "rt_messagequeue \<Rightarrow> nat list \<Rightarrow> nat list \<Rightarrow> nat set \<Rightarrow> bool" where
  "mq_lists mq fl q W =
     (slot_chain (mq_next mq) (msg_queue_free mq) fl \<and> slot_chain (mq_next mq) (msg_queue_head mq) q \<and>
      msg_queue_tail mq = (if q = [] then None else Some (last q)) \<and>
      distinct (fl @ q) \<and> W \<inter> set (fl @ q) = {} \<and> set (fl @ q) \<union> W = {..<unat (max_msgs mq)} \<and>
      (\<forall>i < unat (max_msgs mq). length (mq_body mq i) = unat (msg_size mq)))"

definition mq_rep :: "rt_messagequeue \<Rightarrow> nat list \<Rightarrow> nat list \<Rightarrow> nat set \<Rightarrow> bool" where
  "mq_rep mq fl q W = (mq_lists mq fl q W \<and> unat (mq_entry mq) = length q)"

lemma mq_listsD:
  assumes "mq_lists mq fl q W"
  shows "slot_chain (mq_next mq) (msg_queue_free mq) fl" "slot_chain (mq_next mq) (msg_queue_head mq) q"
    "msg_queue_tail mq = (if q = [] then None else Some (last q))" "distinct (fl @ q)" "W \<inter> set (fl @ q) = {}"
    "set (fl @ q) \<union> W = {..<unat (max_msgs mq)}"
    "i < unat (max_msgs mq) \<Longrightarrow> length (mq_body mq i) = unat (msg_size mq)"
  using assms unfolding mq_lists_def by blast+

lemma mq_lists_in_pool: "mq_lists mq fl q W \<Longrightarrow> m \<in> set fl \<or> m \<in> set q \<or> m \<in> W \<Longrightarrow> in_pool mq m"
  using mq_listsD(6) [of mq fl q W] by (auto simp: in_pool_def)

lemma mq_lists_length:
  assumes "mq_lists mq fl q W"
  shows "length fl + length q \<le> unat (max_msgs mq)" and "W \<noteq> {} \<Longrightarrow> length fl + length q < unat (max_msgs mq)"
    and "W = {} \<Longrightarrow> length fl + length q = unat (max_msgs mq)"
proof -
  note d = mq_listsD [OF assms]
  have c: "card (set (fl @ q)) = length fl + length q" using distinct_card [OF d(4)] by simp
  have f: "finite {..<unat (max_msgs mq)}" by simp
  have sub: "set (fl @ q) \<subseteq> {..<unat (max_msgs mq)}" using d(6) by blast
  show "length fl + length q \<le> unat (max_msgs mq)" using card_mono [OF f sub] c by simp
  show "length fl + length q < unat (max_msgs mq)" if "W \<noteq> {}"
  proof -
    have "set (fl @ q) \<subset> {..<unat (max_msgs mq)}" using that d(5,6) by blast
    from psubset_card_mono [OF f this] show ?thesis using c by simp
  qed
  show "length fl + length q = unat (max_msgs mq)" if "W = {}"
    using that d(6) c by (metis card_lessThan sup_bot_right)
qed

lemma mq_lists_busy: "mq_lists mq fl q W \<Longrightarrow> m \<in> W \<Longrightarrow> length fl + length q < unat (max_msgs mq)"
  using mq_lists_length(2) [of mq fl q W] by blast

text \<open>The slots on the two lists, computed from the pointers.\<close>

definition free_slots :: "rt_messagequeue \<Rightarrow> nat list" where
  "free_slots mq = walk (unat (max_msgs mq)) (mq_next mq) (msg_queue_free mq)"

definition queue_slots :: "rt_messagequeue \<Rightarrow> nat list" where
  "queue_slots mq = walk (unat (max_msgs mq)) (mq_next mq) (msg_queue_head mq)"

lemma slots_eq:
  assumes "mq_lists mq fl q W"
  shows "free_slots mq = fl" and "queue_slots mq = q"
  using mq_listsD(1,2) [OF assms] mq_lists_length(1) [OF assms]
  by (auto simp: free_slots_def queue_slots_def chain_walk)

section \<open>The steps keep it\<close>

lemma take_free_ok:
  assumes l: "mq_lists mq (m # fl) q W"
  shows "mq_take_free mq = Some (m, mq\<lparr>msg_queue_free := mq_next mq m\<rparr>)"
    and "mq_lists (mq\<lparr>msg_queue_free := mq_next mq m\<rparr>) fl q (insert m W)"
proof -
  note d = mq_listsD [OF l] and p = mq_lists_in_pool [OF l, of m]
  show "mq_take_free mq = Some (m, mq\<lparr>msg_queue_free := mq_next mq m\<rparr>)"
    using d(1) p by (simp add: mq_take_free_def)
  show "mq_lists (mq\<lparr>msg_queue_free := mq_next mq m\<rparr>) fl q (insert m W)"
    using d unfolding mq_lists_def by auto
qed

lemma copy_in_ok:
  assumes l: "mq_lists mq fl q W" and m: "m \<in> W" and d: "length d \<le> unat (msg_size mq)"
  defines "mq' \<equiv> mq\<lparr>mq_body := (mq_body mq)(m := d @ drop (length d) (mq_body mq m))\<rparr>"
  shows "mq_copy_in m d mq = Some mq'" and "mq_lists mq' fl q W"
proof -
  note e = mq_listsD [OF l] and p = mq_lists_in_pool [OF l, of m]
  show "mq_copy_in m d mq = Some mq'"
    using p m d e(7) [of m] by (simp add: mq_copy_in_def mq'_def in_pool_def)
  show "mq_lists mq' fl q W"
    using l p m d e(7) [of m] by (auto simp: mq_lists_def mq'_def in_pool_def)
qed

lemma fill_ok:
  assumes l: "mq_lists mq fl q W" and m: "m \<in> W" and d: "length d \<le> unat (msg_size mq)"
  defines "mq' \<equiv> mq\<lparr>mq_next := (mq_next mq)(m := None), mq_body := (mq_body mq)(m := d @ drop (length d) (mq_body mq m))\<rparr>"
  shows "mq_fill m d mq = Some mq'" and "mq_lists mq' fl q W"
proof -
  have "m \<notin> set fl" "m \<notin> set q" using mq_listsD(5) [OF l] m by auto
  then have l1: "mq_lists (mq\<lparr>mq_next := (mq_next mq)(m := None)\<rparr>) fl q W"
    using l unfolding mq_lists_def by auto
  note c = copy_in_ok [OF l1 m, of d]
  show "mq_fill m d mq = Some mq'"
    using c(1) d mq_lists_in_pool [OF l, of m] m by (simp add: mq_fill_def mq'_def)
  show "mq_lists mq' fl q W" using c(2) d by (simp add: mq'_def)
qed

lemma count_ok:
  assumes "unat (mq_entry mq) < unat (max_msgs mq)"
  shows "mq_count mq = (True, mq\<lparr>mq_entry := mq_entry mq + 1\<rparr>)" and "unat (mq_entry mq + 1) = Suc (unat (mq_entry mq))"
proof -
  have b: "unat (max_msgs mq) < 65536" by (rule order_less_le_trans [OF unsigned_less]) simp
  show "mq_count mq = (True, mq\<lparr>mq_entry := mq_entry mq + 1\<rparr>)"
    using assms b by (simp add: mq_count_def word_less_nat_alt)
  show "unat (mq_entry mq + 1) = Suc (unat (mq_entry mq))" using assms b by (subst unat_word_ariths) simp
qed

lemma mq_lists_entry [simp]: "mq_lists (mq\<lparr>mq_entry := e\<rparr>) = mq_lists mq"
  by (intro ext) (simp add: mq_lists_def)

lemma link_ok:
  assumes r: "mq_rep mq fl q W" and m: "m \<in> W" and nx: "mq_next mq m = None"
  shows "\<exists>mq'. mq_link m mq = Some (True, mq') \<and> mq_rep mq' fl (q @ [m]) (W - {m}) \<and>
    mq_body mq' = mq_body mq \<and> msg_size mq' = msg_size mq \<and> max_msgs mq' = max_msgs mq \<and> mq_flag mq' = mq_flag mq \<and>
    (\<forall>x. x \<notin> set q \<longrightarrow> mq_next mq' x = mq_next mq x)"
proof -
  have l: "mq_lists mq fl q W" and e: "unat (mq_entry mq) = length q" using r by (auto simp: mq_rep_def)
  note d = mq_listsD [OF l]
  define mq1 where "mq1 = mq\<lparr>mq_next := (if q = [] then mq_next mq else (mq_next mq)(last q := Some m)),
    msg_queue_tail := Some m, msg_queue_head := (if q = [] then Some m else msg_queue_head mq)\<rparr>"
  have "in_pool mq (last q)" if "q \<noteq> []" using mq_lists_in_pool [OF l, of "last q"] that by simp
  then have run: "mq_link m mq = Some (mq_count mq1)"
    using d(2,3) by (cases mq; cases q) (auto simp: mq_link_def mq1_def Let_def)
  have mf: "m \<notin> set fl" "m \<notin> set q" using d(5) m by auto
  have q1: "slot_chain (mq_next mq1) (msg_queue_head mq1) (q @ [m])"
  proof (cases q rule: rev_cases)
    case Nil
    then show ?thesis using nx by (simp add: mq1_def)
  next
    case (snoc xs a)
    then show ?thesis using chain_snoc [of "mq_next mq" "msg_queue_head mq" xs a m] d(2,4) mf(2) nx by (simp add: mq1_def)
  qed
  have "last q \<notin> set fl" if "q \<noteq> []" using d(4) that by (meson distinct_append disjoint_iff last_in_set)
  then have f1: "slot_chain (mq_next mq1) (msg_queue_free mq1) fl" using d(1) by (simp add: mq1_def)
  have l1: "mq_lists mq1 fl (q @ [m]) (W - {m})"
    using q1 f1 d(4-7) mf m unfolding mq_lists_def by (auto simp: mq1_def)
  have "unat (mq_entry mq1) < unat (max_msgs mq1)"
    using mq_lists_busy [OF l m] e by (simp add: mq1_def)
  note c = count_ok [OF this]
  show ?thesis using run l1 c e unfolding mq_rep_def by (auto simp: mq1_def)
qed

lemma link_front_ok:
  assumes r: "mq_rep mq fl q W" and m: "m \<in> W"
  shows "\<exists>mq'. mq_link_front m mq = Some (True, mq') \<and> mq_rep mq' fl (m # q) (W - {m}) \<and>
    mq_body mq' = mq_body mq \<and> msg_size mq' = msg_size mq \<and> max_msgs mq' = max_msgs mq \<and> mq_flag mq' = mq_flag mq \<and>
    (\<forall>x. x \<noteq> m \<longrightarrow> mq_next mq' x = mq_next mq x)"
proof -
  have l: "mq_lists mq fl q W" and e: "unat (mq_entry mq) = length q" using r by (auto simp: mq_rep_def)
  note d = mq_listsD [OF l]
  define mq1 where "mq1 = mq\<lparr>mq_next := (mq_next mq)(m := msg_queue_head mq), msg_queue_head := Some m,
    msg_queue_tail := (if q = [] then Some m else msg_queue_tail mq)\<rparr>"
  have run: "mq_link_front m mq = Some (mq_count mq1)"
    using d(3) mq_lists_in_pool [OF l, of m] m by (cases mq) (auto simp: mq_link_front_def mq1_def Let_def)
  have mf: "m \<notin> set fl" "m \<notin> set q" using d(5) m by auto
  have l1: "mq_lists mq1 fl (m # q) (W - {m})"
    using d mf m unfolding mq_lists_def by (auto simp: mq1_def)
  have "unat (mq_entry mq1) < unat (max_msgs mq1)"
    using mq_lists_busy [OF l m] e by (simp add: mq1_def)
  note c = count_ok [OF this]
  show ?thesis using run l1 c e unfolding mq_rep_def by (auto simp: mq1_def)
qed

lemma unlink_ok:
  assumes l: "mq_lists mq fl (m # q) W"
  shows "\<exists>mq'. mq_unlink mq = Some (m, mq') \<and> mq_lists mq' fl q (insert m W) \<and> mq_entry mq' = mq_entry mq \<and>
    mq_body mq' = mq_body mq \<and> msg_size mq' = msg_size mq \<and> max_msgs mq' = max_msgs mq \<and> mq_flag mq' = mq_flag mq \<and>
    mq_next mq' = mq_next mq"
proof -
  note d = mq_listsD [OF l]
  define mq1 where "mq1 = mq\<lparr>msg_queue_head := mq_next mq m, msg_queue_tail := (if q = [] then None else msg_queue_tail mq)\<rparr>"
  have "last q \<noteq> m" if "q \<noteq> []" using d(4) that by (auto dest: last_in_set)
  then have "mq_unlink mq = Some (m, mq1)"
    using d(2,3) mq_lists_in_pool [OF l, of m] by (auto simp: mq_unlink_def mq1_def Let_def)
  moreover have "mq_lists mq1 fl q (insert m W)"
    using d unfolding mq_lists_def by (auto simp: mq1_def)
  ultimately show ?thesis by (auto simp: mq1_def)
qed

lemma put_free_ok:
  assumes l: "mq_lists mq fl q W" and m: "m \<in> W"
  defines "mq' \<equiv> mq\<lparr>mq_next := (mq_next mq)(m := msg_queue_free mq), msg_queue_free := Some m\<rparr>"
  shows "mq_put_free m mq = Some mq'" and "mq_lists mq' (m # fl) q (W - {m})"
proof -
  note d = mq_listsD [OF l]
  have mf: "m \<notin> set fl" "m \<notin> set q" using d(5) m by auto
  show "mq_put_free m mq = Some mq'"
    using mq_lists_in_pool [OF l, of m] m by (simp add: mq_put_free_def mq'_def)
  show "mq_lists mq' (m # fl) q (W - {m})"
    using d mf m unfolding mq_lists_def by (auto simp: mq'_def)
qed

lemma flush_unfold:
  "mq_flush mq = (if msg_queue_head mq \<noteq> None then mq_unlink mq \<bind> (\<lambda>(m, mq). mq_put_free m mq \<bind> mq_flush) else Some mq)"
  by (subst mq_flush.simps) simp

text \<open>The reset loop ends and frees every slot.\<close>

lemma flush_ok:
  assumes "mq_lists mq fl q W" and "set q \<inter> W = {}"
  shows "\<exists>mq'. mq_flush mq = Some mq' \<and> mq_lists mq' (rev q @ fl) [] W \<and> max_msgs mq' = max_msgs mq \<and>
    msg_size mq' = msg_size mq \<and> mq_flag mq' = mq_flag mq"
  using assms
proof (induction q arbitrary: mq fl)
  case Nil
  then show ?case using mq_listsD(2) [OF Nil.prems(1)] by (subst flush_unfold) simp
next
  case (Cons m q)
  obtain mq1 where mq1: "mq_unlink mq = Some (m, mq1)" "mq_lists mq1 fl q (insert m W)" "max_msgs mq1 = max_msgs mq"
    "msg_size mq1 = msg_size mq" "mq_flag mq1 = mq_flag mq"
    using unlink_ok [OF Cons.prems(1)] by blast
  let ?mq2 = "mq1\<lparr>mq_next := (mq_next mq1)(m := msg_queue_free mq1), msg_queue_free := Some m\<rparr>"
  note p = put_free_ok [OF mq1(2) insertI1]
  have "insert m W - {m} = W" using Cons.prems(2) by auto
  then have "mq_lists ?mq2 (m # fl) q W" using p(2) by simp
  from Cons.IH [OF this] obtain mq' where "mq_flush ?mq2 = Some mq'" "mq_lists mq' (rev q @ m # fl) [] W"
    "max_msgs mq' = max_msgs mq" "msg_size mq' = msg_size mq" "mq_flag mq' = mq_flag mq"
    using Cons.prems(2) mq1(3-5) by auto
  then show ?case using mq1(1) p(1) mq_listsD(2) [OF Cons.prems(1)] by (subst flush_unfold) simp
qed

lemma add_slot_fields [simp]:
  "mq_next (mq_add_slot mq i) = (mq_next mq)(i := msg_queue_free mq)" "msg_queue_free (mq_add_slot mq i) = Some i"
  "msg_queue_head (mq_add_slot mq i) = msg_queue_head mq" "msg_queue_tail (mq_add_slot mq i) = msg_queue_tail mq"
  "max_msgs (mq_add_slot mq i) = max_msgs mq" "msg_size (mq_add_slot mq i) = msg_size mq"
  "mq_body (mq_add_slot mq i) = mq_body mq" "mq_flag (mq_add_slot mq i) = mq_flag mq"
  by (simp_all add: mq_add_slot_def)

lemma init_pool_ok:
  assumes "unat (max_msgs mq) * (unat (msg_size mq) + 8) \<le> length pool"
  shows "mq_lists (mq_init_pool pool mq) (rev [0..<unat (max_msgs mq)]) [] {}"
    and "max_msgs (mq_init_pool pool mq) = max_msgs mq" "msg_size (mq_init_pool pool mq) = msg_size mq"
    and "mq_flag (mq_init_pool pool mq) = mq_flag mq"
proof -
  let ?f = mq_add_slot
  let ?mq0 = "mq\<lparr>msg_queue_head := None, msg_queue_tail := None, msg_queue_free := None, mq_body := mq_bodies pool (msg_size mq)\<rparr>"
  have i: "slot_chain (mq_next (foldl ?f ?mq0 [0..<k])) (msg_queue_free (foldl ?f ?mq0 [0..<k])) (rev [0..<k]) \<and>
    msg_queue_head (foldl ?f ?mq0 [0..<k]) = None \<and> msg_queue_tail (foldl ?f ?mq0 [0..<k]) = None \<and>
    max_msgs (foldl ?f ?mq0 [0..<k]) = max_msgs mq \<and> msg_size (foldl ?f ?mq0 [0..<k]) = msg_size mq \<and>
    mq_body (foldl ?f ?mq0 [0..<k]) = mq_bodies pool (msg_size mq) \<and> mq_flag (foldl ?f ?mq0 [0..<k]) = mq_flag mq" for k
    by (induction k) (simp_all add: chain_upd [unfolded fun_upd_def])
  have "length (mq_bodies pool (msg_size mq) j) = unat (msg_size mq)" if "j < unat (max_msgs mq)" for j
  proof -
    have "Suc j * (unat (msg_size mq) + 8) \<le> unat (max_msgs mq) * (unat (msg_size mq) + 8)"
      using that by (intro mult_le_mono1) simp
    then have "j * (unat (msg_size mq) + 8) + 8 + unat (msg_size mq) \<le> length pool" using assms by simp
    then show ?thesis by (simp add: mq_bodies_def)
  qed
  then show "mq_lists (mq_init_pool pool mq) (rev [0..<unat (max_msgs mq)]) [] {}"
    using i [of "unat (max_msgs mq)"] unfolding mq_lists_def mq_init_pool_def by auto
  show "max_msgs (mq_init_pool pool mq) = max_msgs mq" "msg_size (mq_init_pool pool mq) = msg_size mq"
    "mq_flag (mq_init_pool pool mq) = mq_flag mq"
    using i [of "unat (max_msgs mq)"] unfolding mq_init_pool_def by auto
qed

section \<open>Interleaved senders and receivers\<close>

text \<open>Any number of senders and receivers, each between two of its atomic sections: a sender holds a slot it has
  taken, or filled for the end or for the front of the queue; a receiver holds a slot it has taken off the
  queue. \<open>pending\<close> records the messages in the queue as they were sent, \<open>readers\<close> the message each receiver is
  to get.\<close>

datatype writer = Taken | Filled "u8 list" | Urgent "u8 list"

record mq_sys =
  sq :: rt_messagequeue
  writers :: "nat \<Rightarrow> writer option"
  readers :: "nat \<Rightarrow> u8 list option"
  pending :: "u8 list list"

inductive mq_step :: "mq_sys \<Rightarrow> mq_sys \<Rightarrow> bool" where
  take_slot: "mq_take_free (sq c) = Some (m, mq) \<Longrightarrow>
    mq_step c (c\<lparr>sq := mq, writers := (writers c)(m := Some Taken)\<rparr>)"
| fill_slot: "writers c m = Some Taken \<Longrightarrow> length d \<le> unat (msg_size (sq c)) \<Longrightarrow> mq_fill m d (sq c) = Some mq \<Longrightarrow>
    mq_step c (c\<lparr>sq := mq, writers := (writers c)(m := Some (Filled d))\<rparr>)"
| fill_urgent: "writers c m = Some Taken \<Longrightarrow> length d \<le> unat (msg_size (sq c)) \<Longrightarrow> mq_copy_in m d (sq c) = Some mq \<Longrightarrow>
    mq_step c (c\<lparr>sq := mq, writers := (writers c)(m := Some (Urgent d))\<rparr>)"
| link_slot: "writers c m = Some (Filled d) \<Longrightarrow> mq_link m (sq c) = Some (b, mq) \<Longrightarrow>
    mq_step c (c\<lparr>sq := mq, writers := (writers c)(m := None), pending := pending c @ [d]\<rparr>)"
| link_urgent: "writers c m = Some (Urgent d) \<Longrightarrow> mq_link_front m (sq c) = Some (b, mq) \<Longrightarrow>
    mq_step c (c\<lparr>sq := mq, writers := (writers c)(m := None), pending := d # pending c\<rparr>)"
| unlink_slot: "mq_entry (sq c) \<noteq> 0 \<Longrightarrow> mq_unlink (sq c) = Some (m, mq) \<Longrightarrow>
    mq_step c (c\<lparr>sq := mq_uncount mq, readers := (readers c)(m := Some (hd (pending c))), pending := tl (pending c)\<rparr>)"
| put_slot: "readers c m = Some d \<Longrightarrow> mq_put_free m (sq c) = Some mq \<Longrightarrow>
    mq_step c (c\<lparr>sq := mq, readers := (readers c)(m := None)\<rparr>)"

text \<open>A slot carries a message.\<close>

definition carries :: "rt_messagequeue \<Rightarrow> nat \<Rightarrow> u8 list \<Rightarrow> bool" where
  "carries mq m d = (length d \<le> unat (msg_size mq) \<and> take (length d) (mq_body mq m) = d)"

definition sys_ok :: "nat list \<Rightarrow> nat list \<Rightarrow> mq_sys \<Rightarrow> bool" where
  "sys_ok fl q c =
     (mq_rep (sq c) fl q (dom (writers c) \<union> dom (readers c)) \<and> dom (writers c) \<inter> dom (readers c) = {} \<and>
      (\<forall>m d. writers c m = Some (Filled d) \<longrightarrow> mq_next (sq c) m = None \<and> carries (sq c) m d) \<and>
      (\<forall>m d. writers c m = Some (Urgent d) \<longrightarrow> carries (sq c) m d) \<and>
      (\<forall>m d. readers c m = Some d \<longrightarrow> carries (sq c) m d) \<and>
      list_all2 (carries (sq c)) q (pending c))"

text \<open>Bodies and links of slots in other hands are left alone.\<close>

lemma carries_cong: "mq_body mq' m = mq_body mq m \<Longrightarrow> msg_size mq' = msg_size mq \<Longrightarrow> carries mq' m d = carries mq m d"
  by (simp add: carries_def)

lemma sys_okI:
  assumes "mq_rep (sq c) fl q (dom (writers c) \<union> dom (readers c))" "dom (writers c) \<inter> dom (readers c) = {}"
    and "\<And>m d. writers c m = Some (Filled d) \<Longrightarrow> mq_next (sq c) m = None \<and> carries (sq c) m d"
    and "\<And>m d. writers c m = Some (Urgent d) \<Longrightarrow> carries (sq c) m d"
    and "\<And>m d. readers c m = Some d \<Longrightarrow> carries (sq c) m d"
    and "list_all2 (carries (sq c)) q (pending c)"
  shows "sys_ok fl q c"
  using assms unfolding sys_ok_def by blast

lemma sys_okD:
  assumes "sys_ok fl q c"
  shows "mq_rep (sq c) fl q (dom (writers c) \<union> dom (readers c))" "dom (writers c) \<inter> dom (readers c) = {}"
    and "writers c m = Some (Filled d) \<Longrightarrow> mq_next (sq c) m = None \<and> carries (sq c) m d"
    and "writers c m = Some (Urgent d) \<Longrightarrow> carries (sq c) m d"
    and "readers c m = Some d \<Longrightarrow> carries (sq c) m d"
    and "list_all2 (carries (sq c)) q (pending c)"
  using assms unfolding sys_ok_def by blast+

lemma sys_ok_owned:
  assumes "sys_ok fl q c" and "m \<in> dom (writers c) \<union> dom (readers c)"
  shows "m \<notin> set fl" "m \<notin> set q"
  using mq_listsD(5) [of "sq c" fl q "dom (writers c) \<union> dom (readers c)"] sys_okD(1) [OF assms(1)] assms(2)
  by (auto simp: mq_rep_def)

lemma step_take:
  assumes ok: "sys_ok fl q c" and st: "mq_take_free (sq c) = Some (m, mq)"
  shows "\<exists>fl'. sys_ok fl' q (c\<lparr>sq := mq, writers := (writers c)(m := Some Taken)\<rparr>)"
proof -
  note d = sys_okD [OF ok]
  have l: "mq_lists (sq c) fl q (dom (writers c) \<union> dom (readers c))" using d(1) by (simp add: mq_rep_def)
  obtain fl' where fl: "fl = m # fl'" "mq = (sq c)\<lparr>msg_queue_free := mq_next (sq c) m\<rparr>"
    using st mq_listsD(1) [OF l] by (cases fl) (auto simp: mq_take_free_def bind_eq_Some_conv)
  note t = take_free_ok(2) [OF l [unfolded fl(1)]]
  have m: "writers c m = None" "readers c m = None" using mq_listsD(5) [OF l] fl(1) by auto
  have "carries mq = carries (sq c)" by (intro ext) (simp add: carries_def fl(2))
  then have "sys_ok fl' q (c\<lparr>sq := mq, writers := (writers c)(m := Some Taken)\<rparr>)"
    using t d m by (intro sys_okI) (auto simp: fl(2) mq_rep_def split: if_splits)
  then show ?thesis by blast
qed

lemma step_fill:
  assumes ok: "sys_ok fl q c" and w: "writers c m = Some Taken" and len: "length d \<le> unat (msg_size (sq c))"
  defines "body \<equiv> (mq_body (sq c))(m := d @ drop (length d) (mq_body (sq c) m))"
  assumes mq: "mq = (sq c)\<lparr>mq_next := nx, mq_body := body\<rparr>" "nx = (mq_next (sq c))(m := None) \<and> wr = Filled d \<or> nx = mq_next (sq c) \<and> wr = Urgent d"
    and l: "mq_lists mq fl q (dom (writers c) \<union> dom (readers c))"
  shows "sys_ok fl q (c\<lparr>sq := mq, writers := (writers c)(m := Some wr)\<rparr>)"
proof -
  note e = sys_okD [OF ok] and own = sys_ok_owned [OF ok, of m]
  have m: "readers c m = None" "m \<notin> set q" using e(2) w own by auto
  have oth: "carries mq x y = carries (sq c) x y" if "x \<noteq> m" for x y
    using that by (intro carries_cong) (simp_all add: mq body_def)
  have self: "carries mq m d" using len by (simp add: carries_def mq body_def)
  have rd: "carries mq x y" if "readers c x = Some y" for x y
    using e(5) [OF that] oth [of x y] m(1) that by (metis option.distinct(1))
  have dm: "dom ((writers c)(m := Some wr)) = dom (writers c)" using w by auto
  show ?thesis
  proof (rule sys_okI)
    show "mq_rep (sq (c\<lparr>sq := mq, writers := (writers c)(m := Some wr)\<rparr>)) fl q
        (dom (writers (c\<lparr>sq := mq, writers := (writers c)(m := Some wr)\<rparr>)) \<union> dom (readers (c\<lparr>sq := mq, writers := (writers c)(m := Some wr)\<rparr>)))"
      using e(1) l by (simp add: mq_rep_def dm del: dom_fun_upd) (simp add: mq)
    show "list_all2 (carries (sq (c\<lparr>sq := mq, writers := (writers c)(m := Some wr)\<rparr>))) q
        (pending (c\<lparr>sq := mq, writers := (writers c)(m := Some wr)\<rparr>))"
      using e(6) oth m(2) by (auto simp: list_all2_conv_all_nth) (metis nth_mem)
  qed (use e(2-4) m rd oth self mq(2) in \<open>auto simp: mq(1) split: if_splits\<close>)
qed

text \<open>The steps that move a slot without touching a body.\<close>

lemma step_moves:
  assumes ok: "sys_ok fl q c" and b: "mq_body mq = mq_body (sq c)" "msg_size mq = msg_size (sq c)"
    and rep: "mq_rep mq fl' q' (dom (writers c') \<union> dom (readers c'))" and sq': "sq c' = mq"
    and w: "\<And>x. writers c' x \<noteq> None \<Longrightarrow> writers c' x = writers c x \<and> mq_next mq x = mq_next (sq c) x"
    and r: "\<And>x d. readers c' x = Some d \<Longrightarrow> readers c x = Some d \<or> carries (sq c) x d"
    and dis: "dom (writers c') \<inter> dom (readers c') = {}"
    and p: "list_all2 (carries (sq c)) q' (pending c')"
  shows "sys_ok fl' q' c'"
proof -
  note e = sys_okD [OF ok]
  have cr: "carries mq = carries (sq c)" by (intro ext) (simp add: carries_def b)
  have w': "writers c x = Some y \<and> mq_next mq x = mq_next (sq c) x" if "writers c' x = Some y" for x y
    using w [of x] that by auto
  show ?thesis
    by (rule sys_okI; use rep sq' dis p cr w' r e(3-5) in \<open>(simp; fail) | metis\<close>)
qed

lemma step_link:
  assumes ok: "sys_ok fl q c" and w: "writers c m = Some (Filled d)" and st: "mq_link m (sq c) = Some (b, mq)"
  shows "sys_ok fl (q @ [m]) (c\<lparr>sq := mq, writers := (writers c)(m := None), pending := pending c @ [d]\<rparr>)"
proof -
  note e = sys_okD [OF ok] and own = sys_ok_owned [OF ok]
  have m: "m \<in> dom (writers c) \<union> dom (readers c)" "m \<notin> dom (readers c)" using w e(2) by auto
  obtain mq' where l: "mq_link m (sq c) = Some (True, mq')" "mq_rep mq' fl (q @ [m]) (dom (writers c) \<union> dom (readers c) - {m})"
    "mq_body mq' = mq_body (sq c)" "msg_size mq' = msg_size (sq c)" "\<forall>x. x \<notin> set q \<longrightarrow> mq_next mq' x = mq_next (sq c) x"
    using link_ok [OF e(1) m(1)] e(3) [OF w] by auto
  have mq: "mq' = mq" using l(1) st by simp
  have "dom (writers c) \<union> dom (readers c) - {m} = (dom (writers c) - {m}) \<union> dom (readers c)" using m(2) by auto
  then have rep: "mq_rep mq fl (q @ [m]) ((dom (writers c) - {m}) \<union> dom (readers c))" using l(2) mq by simp
  have nx: "mq_next mq x = mq_next (sq c) x" if "writers c x = Some y" for x y
    using l(5) own(2) [of x] that mq by auto
  show ?thesis
  proof (rule step_moves [OF ok, where mq = mq])
    show "list_all2 (carries (sq c)) (q @ [m]) (pending (c\<lparr>sq := mq, writers := (writers c)(m := None), pending := pending c @ [d]\<rparr>))"
      using e(6) e(3) [OF w] by (simp add: list_all2_appendI)
  qed (use l(3,4) nx mq rep e(2) in \<open>auto split: if_splits\<close>)
qed

lemma step_front:
  assumes ok: "sys_ok fl q c" and w: "writers c m = Some (Urgent d)" and st: "mq_link_front m (sq c) = Some (b, mq)"
  shows "sys_ok fl (m # q) (c\<lparr>sq := mq, writers := (writers c)(m := None), pending := d # pending c\<rparr>)"
proof -
  note e = sys_okD [OF ok]
  have m: "m \<in> dom (writers c) \<union> dom (readers c)" "m \<notin> dom (readers c)" using w e(2) by auto
  obtain mq' where l: "mq_link_front m (sq c) = Some (True, mq')" "mq_rep mq' fl (m # q) (dom (writers c) \<union> dom (readers c) - {m})"
    "mq_body mq' = mq_body (sq c)" "msg_size mq' = msg_size (sq c)" "\<forall>x. x \<noteq> m \<longrightarrow> mq_next mq' x = mq_next (sq c) x"
    using link_front_ok [OF e(1) m(1)] by auto
  have mq: "mq' = mq" using l(1) st by simp
  have "dom (writers c) \<union> dom (readers c) - {m} = (dom (writers c) - {m}) \<union> dom (readers c)" using m(2) by auto
  then have rep: "mq_rep mq fl (m # q) ((dom (writers c) - {m}) \<union> dom (readers c))" using l(2) mq by simp
  show ?thesis
  proof (rule step_moves [OF ok, where mq = mq])
    show "list_all2 (carries (sq c)) (m # q) (pending (c\<lparr>sq := mq, writers := (writers c)(m := None), pending := d # pending c\<rparr>))"
      using e(6) e(4) [OF w] by simp
  qed (use l(3-5) mq rep e(2) in \<open>auto split: if_splits\<close>)
qed

lemma uncount_ok:
  assumes "mq_lists mq fl q W" and "unat (mq_entry mq) = Suc (length q)"
  shows "mq_rep (mq_uncount mq) fl q W"
proof -
  have "mq_entry mq \<noteq> 0" using assms(2) by auto
  then have "unat (mq_entry mq - 1) = length q" using assms(2) by (simp add: unat_minus_one)
  then show ?thesis using assms \<open>mq_entry mq \<noteq> 0\<close> by (simp add: mq_rep_def mq_uncount_def word_gt_0)
qed

lemma uncount_fields [simp]:
  "mq_body (mq_uncount mq) = mq_body mq" "msg_size (mq_uncount mq) = msg_size mq" "mq_next (mq_uncount mq) = mq_next mq"
  "max_msgs (mq_uncount mq) = max_msgs mq" "mq_flag (mq_uncount mq) = mq_flag mq"
  by (simp_all add: mq_uncount_def)

lemma step_unlink:
  assumes ok: "sys_ok fl q c" and st: "mq_unlink (sq c) = Some (m, mq)"
  shows "\<exists>q'. q = m # q' \<and>
    sys_ok fl q' (c\<lparr>sq := mq_uncount mq, readers := (readers c)(m := Some (hd (pending c))), pending := tl (pending c)\<rparr>)"
proof -
  note e = sys_okD [OF ok]
  have l: "mq_lists (sq c) fl q (dom (writers c) \<union> dom (readers c))" "unat (mq_entry (sq c)) = length q"
    using e(1) by (auto simp: mq_rep_def)
  obtain q' where q: "q = m # q'"
    using st mq_listsD(2) [OF l(1)] by (cases q) (auto simp: mq_unlink_def bind_eq_Some_conv Let_def)
  obtain mq' where u: "mq_unlink (sq c) = Some (m, mq')" "mq_lists mq' fl q' (insert m (dom (writers c) \<union> dom (readers c)))"
    "mq_entry mq' = mq_entry (sq c)" "mq_body mq' = mq_body (sq c)" "msg_size mq' = msg_size (sq c)" "mq_next mq' = mq_next (sq c)"
    using unlink_ok [OF l(1) [unfolded q]] by blast
  have mq: "mq' = mq" using u(1) st by simp
  have rep: "mq_rep (mq_uncount mq) fl q' (insert m (dom (writers c) \<union> dom (readers c)))"
    by (rule uncount_ok) (use u(2,3) mq l(2) q in auto)
  obtain d ds where p: "pending c = d # ds" "carries (sq c) m d" "list_all2 (carries (sq c)) q' ds"
    using e(6) q by (auto simp: list_all2_Cons1)
  have m: "writers c m = None" using mq_listsD(5) [OF l(1)] q by auto
  have "sys_ok fl q' (c\<lparr>sq := mq_uncount mq, readers := (readers c)(m := Some (hd (pending c))), pending := tl (pending c)\<rparr>)"
    by (rule step_moves [OF ok, where mq = "mq_uncount mq"]) (use u(4-6) mq rep e(2) p m in \<open>auto split: if_splits\<close>)
  then show ?thesis using q by blast
qed

lemma step_put:
  assumes ok: "sys_ok fl q c" and r: "readers c m = Some d" and st: "mq_put_free m (sq c) = Some mq"
  shows "sys_ok (m # fl) q (c\<lparr>sq := mq, readers := (readers c)(m := None)\<rparr>)"
proof -
  note e = sys_okD [OF ok]
  have m: "m \<in> dom (writers c) \<union> dom (readers c)" "m \<notin> dom (writers c)" using r e(2) by auto
  have l: "mq_lists (sq c) fl q (dom (writers c) \<union> dom (readers c))" "unat (mq_entry (sq c)) = length q"
    using e(1) by (auto simp: mq_rep_def)
  note p = put_free_ok [OF l(1) m(1)]
  have mq: "mq = (sq c)\<lparr>mq_next := (mq_next (sq c))(m := msg_queue_free (sq c)), msg_queue_free := Some m\<rparr>"
    using p(1) st by simp
  have "dom (writers c) \<union> dom (readers c) - {m} = dom (writers c) \<union> (dom (readers c) - {m})" using m(2) by auto
  then have "mq_rep mq (m # fl) q (dom (writers c) \<union> (dom (readers c) - {m}))"
    using p(2) l(2) by (simp add: mq_rep_def mq)
  then show ?thesis
    by (intro step_moves [OF ok, where mq = mq]) (use e(2,6) m(2) in \<open>auto simp: mq split: if_splits\<close>)
qed

text \<open>Every interleaving keeps the invariant.\<close>

lemma step_ok:
  assumes "mq_step c c'" and "sys_ok fl q c"
  shows "\<exists>fl' q'. sys_ok fl' q' c'"
  using assms
proof cases
  case (take_slot m mq)
  then show ?thesis using step_take [OF assms(2)] by blast
next
  case (fill_slot m d mq)
  have l: "mq_lists (sq c) fl q (dom (writers c) \<union> dom (readers c))" "m \<in> dom (writers c) \<union> dom (readers c)"
    using sys_okD(1) [OF assms(2)] fill_slot(2) by (auto simp: mq_rep_def)
  note f = fill_ok [OF l fill_slot(3)]
  have "mq = (sq c)\<lparr>mq_next := (mq_next (sq c))(m := None), mq_body := (mq_body (sq c))(m := d @ drop (length d) (mq_body (sq c) m))\<rparr>"
    using f(1) fill_slot(4) by simp
  then show ?thesis using step_fill [OF assms(2) fill_slot(2,3)] f(2) fill_slot(1) by blast
next
  case (fill_urgent m d mq)
  have l: "mq_lists (sq c) fl q (dom (writers c) \<union> dom (readers c))" "m \<in> dom (writers c) \<union> dom (readers c)"
    using sys_okD(1) [OF assms(2)] fill_urgent(2) by (auto simp: mq_rep_def)
  note f = copy_in_ok [OF l fill_urgent(3)]
  have mq: "mq = (sq c)\<lparr>mq_next := mq_next (sq c), mq_body := (mq_body (sq c))(m := d @ drop (length d) (mq_body (sq c) m))\<rparr>"
    using f(1) fill_urgent(4) by simp
  moreover have "mq_lists mq fl q (dom (writers c) \<union> dom (readers c))" using f(2) mq by simp
  ultimately show ?thesis using step_fill [OF assms(2) fill_urgent(2,3), of mq "mq_next (sq c)"] fill_urgent(1) by blast
next
  case (link_slot m d b mq)
  then show ?thesis using step_link [OF assms(2)] by blast
next
  case (link_urgent m d b mq)
  then show ?thesis using step_front [OF assms(2)] by blast
next
  case (unlink_slot m mq)
  then show ?thesis using step_unlink [OF assms(2) unlink_slot(3)] by auto
next
  case (put_slot m d mq)
  then show ?thesis using step_put [OF assms(2)] by blast
qed

definition fresh_sys :: "u8 list \<Rightarrow> rt_messagequeue \<Rightarrow> mq_sys" where
  "fresh_sys pool mq = \<lparr>sq = (mq_init_pool pool mq)\<lparr>mq_entry := 0\<rparr>, writers = (\<lambda>_. None), readers = (\<lambda>_. None), pending = []\<rparr>"

lemma fresh_ok:
  assumes "unat (max_msgs mq) * (unat (msg_size mq) + 8) \<le> length pool"
  shows "sys_ok (rev [0..<unat (max_msgs mq)]) [] (fresh_sys pool mq)"
  using init_pool_ok(1) [OF assms] by (intro sys_okI) (auto simp: fresh_sys_def mq_rep_def)

lemma reachable_ok:
  assumes "mq_step\<^sup>*\<^sup>* c0 c" and "sys_ok fl0 q0 c0"
  shows "\<exists>fl q. sys_ok fl q c"
  using assms by (induction rule: rtranclp_induct) (use step_ok in blast)+

section \<open>Properties\<close>

text \<open>C18. Senders and receivers of a message queue copy their messages with interrupts enabled. However their
  sections interleave, starting from a new queue: what a receiver copies is, byte for byte, the message that
  was sent in that place of the queue, as far as its buffer goes; the sections still to come cannot fail, leave
  the pool or find the entry counter exhausted; and the counter is the number of messages queued.\<close>

theorem mq_interleaving_safe:
  assumes "unat (max_msgs mq) * (unat (msg_size mq) + 8) \<le> length pool" and "mq_step\<^sup>*\<^sup>* (fresh_sys pool mq) c"
  shows "(\<forall>m d sz. readers c m = Some d \<longrightarrow> (\<exists>out. mq_copy_out m sz (sq c) = Some out \<and> take (length d) out = take sz d) \<and>
       mq_put_free m (sq c) \<noteq> None) \<and>
    (\<forall>m d. writers c m = Some (Filled d) \<longrightarrow> (\<exists>mq'. mq_link m (sq c) = Some (True, mq'))) \<and>
    (\<forall>m d. writers c m = Some (Urgent d) \<longrightarrow> (\<exists>mq'. mq_link_front m (sq c) = Some (True, mq'))) \<and>
    unat (mq_entry (sq c)) = length (pending c) \<and>
    (mq_entry (sq c) \<noteq> 0 \<longrightarrow> mq_unlink (sq c) \<noteq> None)"
proof -
  obtain fl q where ok: "sys_ok fl q c" using reachable_ok [OF assms(2) fresh_ok [OF assms(1)]] by blast
  note e = sys_okD [OF ok]
  have l: "mq_lists (sq c) fl q (dom (writers c) \<union> dom (readers c))" "unat (mq_entry (sq c)) = length q"
    using e(1) by (auto simp: mq_rep_def)
  have rd: "(\<exists>out. mq_copy_out m sz (sq c) = Some out \<and> take (length d) out = take sz d) \<and> mq_put_free m (sq c) \<noteq> None"
    if "readers c m = Some d" for m d sz
  proof -
    have m: "m \<in> dom (writers c) \<union> dom (readers c)" using that by auto
    have c: "length d \<le> unat (msg_size (sq c))" "take (length d) (mq_body (sq c) m) = d"
      using e(5) [OF that] by (auto simp: carries_def)
    have p: "in_pool (sq c) m" using mq_lists_in_pool [OF l(1)] m by blast
    then have b: "length (mq_body (sq c) m) = unat (msg_size (sq c))" using mq_listsD(7) [OF l(1)] by (simp add: in_pool_def)
    let ?k = "min sz (unat (msg_size (sq c)))"
    have "take (length d) (take ?k (mq_body (sq c) m)) = take ?k (take (length d) (mq_body (sq c) m))" by (simp add: min.commute)
    also have "\<dots> = take sz d" using c by (simp add: min_def)
    finally have "take (length d) (take ?k (mq_body (sq c) m)) = take sz d" .
    moreover have "mq_copy_out m sz (sq c) = Some (take ?k (mq_body (sq c) m))"
      using p b by (simp add: mq_copy_out_def Let_def min_def)
    ultimately show ?thesis using put_free_ok(1) [OF l(1) m] by (simp del: take_take)
  qed
  have "mq_unlink (sq c) \<noteq> None" if "mq_entry (sq c) \<noteq> 0"
  proof -
    have "q \<noteq> []" using that l(2) by (auto simp: unat_eq_0)
    then obtain m q' where "q = m # q'" by (cases q) auto
    then show ?thesis using unlink_ok [of "sq c" fl m q'] l(1) by fastforce
  qed
  moreover have "length (pending c) = length q" using e(6) by (simp add: list_all2_lengthD)
  moreover have "\<exists>mq'. mq_link m (sq c) = Some (True, mq')" if "writers c m = Some (Filled d)" for m d
    using link_ok [OF e(1), of m] e(3) [OF that] that by auto
  moreover have "\<exists>mq'. mq_link_front m (sq c) = Some (True, mq')" if "writers c m = Some (Urgent d)" for m d
    using link_front_ok [OF e(1), of m] that by auto
  ultimately show ?thesis using rd l(2) by simp
qed

text \<open>Two slots of two bytes. A sender takes slot 1, a second one takes slot 0, fills and links it before the first
  one goes on; a receiver takes the first message off.\<close>

definition demo_pool :: rt_messagequeue where
  "demo_pool = \<lparr>mq_flag = 0, msg_size = 2, max_msgs = 2, mq_entry = 0, msg_queue_head = None, msg_queue_tail = None,
     msg_queue_free = None, mq_next = (\<lambda>_. None), mq_body = (\<lambda>_. [])\<rparr>"

lemma demo_interleaving:
  "\<exists>c. mq_step\<^sup>*\<^sup>* (fresh_sys (replicate 20 0) demo_pool) c \<and> readers c 0 = Some [7, 8] \<and> writers c 1 = Some Taken"
proof -
  let ?c0 = "fresh_sys (replicate 20 0) demo_pool"
  note d = fresh_sys_def mq_init_pool_def mq_add_slot_def demo_pool_def mq_bodies_def in_pool_def upt_rec
  define c1 where "c1 = ?c0\<lparr>sq := (sq ?c0)\<lparr>msg_queue_free := Some 0\<rparr>, writers := (writers ?c0)(1 := Some Taken)\<rparr>"
  define c2 where "c2 = c1\<lparr>sq := (sq c1)\<lparr>msg_queue_free := None\<rparr>, writers := (writers c1)(0 := Some Taken)\<rparr>"
  define c3 where "c3 = c2\<lparr>sq := the (mq_fill 0 [7, 8] (sq c2)), writers := (writers c2)(0 := Some (Filled [7, 8]))\<rparr>"
  define c4 where "c4 = c3\<lparr>sq := snd (the (mq_link 0 (sq c3))), writers := (writers c3)(0 := None), pending := pending c3 @ [[7, 8]]\<rparr>"
  define c5 where "c5 = c4\<lparr>sq := mq_uncount (snd (the (mq_unlink (sq c4)))),
    readers := (readers c4)(0 := Some (hd (pending c4))), pending := tl (pending c4)\<rparr>"
  have 1: "mq_step ?c0 c1" unfolding c1_def by (rule take_slot) (simp add: d mq_take_free_def)
  have 2: "mq_step c1 c2" unfolding c2_def by (rule take_slot) (simp add: c1_def d mq_take_free_def)
  note s2 = c2_def c1_def d
  have 3: "mq_step c2 c3" unfolding c3_def by (rule fill_slot) (simp_all add: s2 mq_fill_def mq_copy_in_def)
  have s3: "sq c3 = (sq c2)\<lparr>mq_body := (mq_body (sq c2))(0 := [7, 8])\<rparr>"
    by (simp add: c3_def mq_fill_def mq_copy_in_def) (simp add: s2)
  have l: "mq_link 0 (sq c3) = Some (True, (sq c3)\<lparr>msg_queue_tail := Some 0, msg_queue_head := Some 0, mq_entry := 1\<rparr>)"
    unfolding s3 by (simp add: mq_link_def mq_count_def) (simp add: s2)
  have 4: "mq_step c3 c4" unfolding c4_def by (rule link_slot [of _ _ _ True]) (simp_all add: l, simp add: c3_def)
  have s4: "sq c4 = (sq c3)\<lparr>msg_queue_tail := Some 0, msg_queue_head := Some 0, mq_entry := 1\<rparr>" by (simp add: c4_def l)
  have 5: "mq_step c4 c5" unfolding c5_def
    by (rule unlink_slot) (simp_all add: s4 mq_unlink_def, simp add: s3 s2)
  have "mq_step\<^sup>*\<^sup>* ?c0 c5" using 1 2 3 4 5 by (meson converse_rtranclp_into_rtranclp rtranclp.rtrancl_refl)
  moreover have "readers c5 0 = Some [7, 8] \<and> writers c5 1 = Some Taken"
    by (simp add: c5_def c4_def c3_def c2_def c1_def fresh_sys_def)
  ultimately show ?thesis by blast
qed

theorem mq_interleaving_safe_witness:
  "\<exists>c :: mq_sys. writers c 1 = Some Taken \<and> mq_copy_out 0 2 (sq c) = Some [7, 8]"
proof -
  obtain c where c: "mq_step\<^sup>*\<^sup>* (fresh_sys (replicate 20 0) demo_pool) c" "readers c 0 = Some [7, 8]" "writers c 1 = Some Taken"
    using demo_interleaving by blast
  have "unat (max_msgs demo_pool) * (unat (msg_size demo_pool) + 8) \<le> length (replicate 20 (0 :: u8))"
    by (simp add: demo_pool_def)
  from mq_interleaving_safe [OF this c(1)] c(2)
  have "\<exists>out. mq_copy_out 0 2 (sq c) = Some out \<and> take (length [7, 8 :: u8]) out = take 2 [7, 8]" by blast
  then obtain out where "mq_copy_out 0 2 (sq c) = Some out" "take 2 out = [7, 8]" by (auto simp: numeral_2_eq_2)
  moreover have "length out \<le> 2" using calculation(1) by (auto simp: mq_copy_out_def bind_eq_Some_conv Let_def)
  ultimately have "mq_copy_out 0 2 (sq c) = Some [7, 8]" by simp
  then show ?thesis using c(3) by blast
qed

end
