(* ===== verification/Rt_Mq.thy ===== *)
theory Rt_Mq
  imports Rt_MsgWait Rt_MqPool
begin

text \<open>
  Message queues of \<^verbatim>\<open>src/ipc.c\<close>. A call runs its atomic sections (\<open>Rt_MqPool\<close>) one after the other; what happens
  when others run in between is the subject of \<open>mq_step\<close> there. The waiting loops are cut at \<^verbatim>\<open>rt_schedule\<close> and
  continued by \<open>mq_send_resume\<close> and \<open>mq_recv_resume\<close>.
\<close>

section \<open>Operations\<close>

definition is_mq :: "nat \<Rightarrow> kernel \<Rightarrow> bool" where
  "is_mq n s = (n \<noteq> 0 \<and> rt_object_get_type (obj_type s (Mq_obj n)) = RT_Object_Class_MessageQueue)"

definition upd_mq :: "nat \<Rightarrow> (rt_messagequeue \<Rightarrow> rt_messagequeue) \<Rightarrow> kernel \<Rightarrow> kernel" where
  "upd_mq n f s = s\<lparr>mqueues := (mqueues s)(n := f (mqueues s n))\<rparr>"

text \<open>\<^verbatim>\<open>RT_ALIGN(size, RT_ALIGN_SIZE)\<close> with \<^verbatim>\<open>RT_ALIGN_SIZE\<close> = 4.\<close>

definition RT_ALIGN :: "u64 \<Rightarrow> u64" where
  "RT_ALIGN sz = (sz + 4 - 1) AND NOT (4 - 1)"

definition rt_mq_init :: "nat \<Rightarrow> string \<Rightarrow> u8 list \<Rightarrow> u64 \<Rightarrow> u64 \<Rightarrow> u8 \<Rightarrow> kernel \<Rightarrow> (rt_err_t \<times> kernel) option" where
  "rt_mq_init n name pool msz pool_size flag s = do {
     rt_assert (n \<noteq> 0);
     rt_assert (flag = RT_IPC_FLAG_FIFO \<or> flag = RT_IPC_FLAG_PRIO);
     s \<leftarrow> rt_object_init (Mq_obj n) RT_Object_Class_MessageQueue name s;
     let s = upd_mq n (\<lambda>mq. mq\<lparr>mq_flag := flag\<rparr>) s;
     s \<leftarrow> ipc_object_init (Mq_recv_wait n) s;
     let s = upd_mq n (\<lambda>mq. mq\<lparr>msg_size := ucast (RT_ALIGN msz)\<rparr>) s;
     let s = upd_mq n (\<lambda>mq. mq\<lparr>max_msgs := ucast (pool_size div (ucast (msg_size mq) + 8))\<rparr>) s;
     let s = upd_mq n (mq_init_pool pool) s;
     let s = upd_mq n (\<lambda>mq. mq\<lparr>mq_entry := 0\<rparr>) s;
     s \<leftarrow> ipc_object_init (Mq_send_wait n) s;
     Some (RT_EOK, s)
   }"

definition rt_mq_detach :: "nat \<Rightarrow> kernel \<Rightarrow> (rt_err_t \<times> kernel) option" where
  "rt_mq_detach n s = do {
     rt_assert (is_mq n s);
     rt_assert (rt_object_is_systemobject (obj_type s (Mq_obj n)));
     s \<leftarrow> ipc_list_resume_all (Mq_recv_wait n) s;
     s \<leftarrow> ipc_list_resume_all (Mq_send_wait n) s;
     Some (RT_EOK, rt_object_detach (Mq_obj n) s)
   }"

text \<open>The two allocations of \<^verbatim>\<open>rt_mq_create\<close> are its first arguments.\<close>

definition rt_mq_create :: "nat option \<Rightarrow> u8 list option \<Rightarrow> string \<Rightarrow> u64 \<Rightarrow> u64 \<Rightarrow> u8 \<Rightarrow> kernel \<Rightarrow> (nat option \<times> kernel) option" where
  "rt_mq_create mem pool_mem name msz mmax flag s = do {
     rt_assert (flag = RT_IPC_FLAG_FIFO \<or> flag = RT_IPC_FLAG_PRIO);
     rt_assert (interrupt_nest s = 0);
     (_, s) \<leftarrow> rt_object_allocate (map_option Mq_obj mem) RT_Object_Class_MessageQueue name s;
     case mem of
       None \<Rightarrow> Some (None, s)
     | Some n \<Rightarrow> do {
         let s = upd_mq n (\<lambda>mq. mq\<lparr>mq_flag := flag\<rparr>) s;
         s \<leftarrow> ipc_object_init (Mq_recv_wait n) s;
         let s = upd_mq n (\<lambda>mq. mq\<lparr>msg_size := ucast (RT_ALIGN msz), max_msgs := ucast mmax\<rparr>) s;
         case pool_mem of
           None \<Rightarrow> do {
             s \<leftarrow> rt_object_delete (Mq_obj n) s;
             Some (None, s)
           }
         | Some pool \<Rightarrow> do {
             let s = upd_mq n (mq_init_pool pool) s;
             let s = upd_mq n (\<lambda>mq. mq\<lparr>mq_entry := 0\<rparr>) s;
             s \<leftarrow> ipc_object_init (Mq_send_wait n) s;
             Some (Some n, s)
           }
       }
   }"

text \<open>Once freed, the pool is no longer memory of the queue.\<close>

definition rt_mq_delete :: "nat \<Rightarrow> kernel \<Rightarrow> (rt_err_t \<times> kernel) option" where
  "rt_mq_delete n s = do {
     rt_assert (is_mq n s);
     rt_assert (\<not> rt_object_is_systemobject (obj_type s (Mq_obj n)));
     rt_assert (interrupt_nest s = 0);
     s \<leftarrow> ipc_list_resume_all (Mq_recv_wait n) s;
     s \<leftarrow> ipc_list_resume_all (Mq_send_wait n) s;
     let s = upd_mq n (\<lambda>mq. mq\<lparr>mq_body := (\<lambda>_. [])\<rparr>) s;
     s \<leftarrow> rt_object_delete (Mq_obj n) s;
     Some (RT_EOK, s)
   }"

text \<open>The sections of \<^verbatim>\<open>rt_mq_send_wait\<close> after its loop; the message \<open>d\<close> is the caller's buffer of \<^verbatim>\<open>size\<close> bytes.\<close>

definition mq_post :: "nat \<Rightarrow> u8 list \<Rightarrow> kernel \<Rightarrow> (outcome \<times> kernel) option" where
  "mq_post n d s = do {
     (m, mq) \<leftarrow> mq_take_free (mqueues s n);
     mq \<leftarrow> mq_fill m d mq;
     (counted, mq) \<leftarrow> mq_link m mq;
     let s = upd_mq n (\<lambda>_. mq) s;
     if counted then do {
       s \<leftarrow> ipc_wake_one (Mq_recv_wait n) s;
       Some (Returned RT_EOK, s)
     }
     else Some (Returned (- RT_EFULL), s)
   }"

partial_function (option) mq_send_loop :: "nat \<Rightarrow> u8 list \<Rightarrow> int \<Rightarrow> kernel \<Rightarrow> (outcome \<times> kernel) option" where
  "mq_send_loop n d timeout s =
     (if msg_queue_free (mqueues s n) = None then do {
        let t = rt_thread_self s;
        let s = upd_thread t (\<lambda>th. th\<lparr>thread_error := RT_EOK\<rparr>) s;
        if timeout = 0 then Some (Returned (- RT_EFULL), s)
        else do {
          let t0 = rt_tick s;
          s \<leftarrow> ipc_block (Mq_send_wait n) (mq_flag (mqueues s n)) timeout s;
          if current_thread s \<noteq> t then Some (Blocked, s)
          else if thread_error (threads s t) \<noteq> RT_EOK then Some (Returned (thread_error (threads s t)), s)
          else mq_send_loop n d (ipc_remaining timeout t0 s) s
        }
      }
      else mq_post n d s)"

definition mq_send_resume :: "nat \<Rightarrow> u8 list \<Rightarrow> int \<Rightarrow> u32 \<Rightarrow> kernel \<Rightarrow> (outcome \<times> kernel) option" where
  "mq_send_resume n d timeout t0 s =
     (let t = current_thread s
      in if thread_error (threads s t) \<noteq> RT_EOK then Some (Returned (thread_error (threads s t)), s)
         else mq_send_loop n d (ipc_remaining timeout t0 s) s)"

definition rt_mq_send_wait :: "nat \<Rightarrow> u8 list \<Rightarrow> int \<Rightarrow> kernel \<Rightarrow> (outcome \<times> kernel) option" where
  "rt_mq_send_wait n d timeout s = do {
     rt_assert (is_mq n s);
     rt_assert (length d \<noteq> 0);
     rt_assert (timeout \<noteq> 0 \<longrightarrow> scheduler_available s);
     if length d > unat (msg_size (mqueues s n)) then Some (Returned (- RT_ERROR), s)
     else if msg_queue_free (mqueues s n) = None \<and> timeout = 0 then Some (Returned (- RT_EFULL), s)
     else mq_send_loop n d timeout s
   }"

definition rt_mq_send :: "nat \<Rightarrow> u8 list \<Rightarrow> kernel \<Rightarrow> (outcome \<times> kernel) option" where
  "rt_mq_send n d s = rt_mq_send_wait n d 0 s"

definition rt_mq_urgent :: "nat \<Rightarrow> u8 list \<Rightarrow> kernel \<Rightarrow> (rt_err_t \<times> kernel) option" where
  "rt_mq_urgent n d s = do {
     rt_assert (is_mq n s);
     rt_assert (length d \<noteq> 0);
     if length d > unat (msg_size (mqueues s n)) then Some (- RT_ERROR, s)
     else if msg_queue_free (mqueues s n) = None then Some (- RT_EFULL, s)
     else do {
       (m, mq) \<leftarrow> mq_take_free (mqueues s n);
       mq \<leftarrow> mq_copy_in m d mq;
       (counted, mq) \<leftarrow> mq_link_front m mq;
       let s = upd_mq n (\<lambda>_. mq) s;
       if counted then do {
         s \<leftarrow> ipc_wake_one (Mq_recv_wait n) s;
         Some (RT_EOK, s)
       }
       else Some (- RT_EFULL, s)
     }
   }"

text \<open>The sections of \<^verbatim>\<open>rt_mq_recv\<close> after its loop; the result is what ends up in the caller's buffer.\<close>

definition mq_pick :: "nat \<Rightarrow> nat \<Rightarrow> kernel \<Rightarrow> (outcome \<times> u8 list option \<times> kernel) option" where
  "mq_pick n sz s = do {
     (m, mq) \<leftarrow> mq_unlink (mqueues s n);
     let mq = mq_uncount mq;
     d \<leftarrow> mq_copy_out m sz mq;
     mq \<leftarrow> mq_put_free m mq;
     let s = upd_mq n (\<lambda>_. mq) s;
     s \<leftarrow> ipc_wake_one (Mq_send_wait n) s;
     Some (Returned RT_EOK, Some d, s)
   }"

partial_function (option) mq_recv_loop :: "nat \<Rightarrow> nat \<Rightarrow> int \<Rightarrow> kernel \<Rightarrow> (outcome \<times> u8 list option \<times> kernel) option" where
  "mq_recv_loop n sz timeout s =
     (if mq_entry (mqueues s n) = 0 then do {
        let t = rt_thread_self s;
        let s = upd_thread t (\<lambda>th. th\<lparr>thread_error := RT_EOK\<rparr>) s;
        if timeout = 0
        then Some (Returned (- RT_ETIMEOUT), None, upd_thread t (\<lambda>th. th\<lparr>thread_error := - RT_ETIMEOUT\<rparr>) s)
        else do {
          let t0 = rt_tick s;
          s \<leftarrow> ipc_block (Mq_recv_wait n) (mq_flag (mqueues s n)) timeout s;
          if current_thread s \<noteq> t then Some (Blocked, None, s)
          else if thread_error (threads s t) \<noteq> RT_EOK then Some (Returned (thread_error (threads s t)), None, s)
          else mq_recv_loop n sz (ipc_remaining timeout t0 s) s
        }
      }
      else mq_pick n sz s)"

definition mq_recv_resume :: "nat \<Rightarrow> nat \<Rightarrow> int \<Rightarrow> u32 \<Rightarrow> kernel \<Rightarrow> (outcome \<times> u8 list option \<times> kernel) option" where
  "mq_recv_resume n sz timeout t0 s =
     (let t = current_thread s
      in if thread_error (threads s t) \<noteq> RT_EOK then Some (Returned (thread_error (threads s t)), None, s)
         else mq_recv_loop n sz (ipc_remaining timeout t0 s) s)"

definition rt_mq_recv :: "nat \<Rightarrow> nat \<Rightarrow> int \<Rightarrow> kernel \<Rightarrow> (outcome \<times> u8 list option \<times> kernel) option" where
  "rt_mq_recv n sz timeout s = do {
     rt_assert (is_mq n s);
     rt_assert (sz \<noteq> 0);
     rt_assert (timeout \<noteq> 0 \<longrightarrow> scheduler_available s);
     if mq_entry (mqueues s n) = 0 \<and> timeout = 0 then Some (Returned (- RT_ETIMEOUT), None, s)
     else mq_recv_loop n sz timeout s
   }"

definition rt_mq_control :: "nat \<Rightarrow> int \<Rightarrow> u64 \<Rightarrow> kernel \<Rightarrow> (rt_err_t \<times> kernel) option" where
  "rt_mq_control n cmd arg s = do {
     rt_assert (is_mq n s);
     if cmd = RT_IPC_CMD_RESET then do {
       s \<leftarrow> ipc_list_resume_all (Mq_recv_wait n) s;
       s \<leftarrow> ipc_list_resume_all (Mq_send_wait n) s;
       mq \<leftarrow> mq_flush (mqueues s n);
       let s = upd_mq n (\<lambda>_. mq\<lparr>mq_entry := 0\<rparr>) s;
       s \<leftarrow> rt_schedule s;
       Some (RT_EOK, s)
     }
     else Some (- RT_ERROR, s)
   }"

section \<open>The message queue invariant\<close>

interpretation mq_recv_wait: wait_head "Mq_recv_wait n" for n
  by unfold_locales auto

interpretation mq_send_wait: wait_head "Mq_send_wait n" for n
  by unfold_locales auto

lemma upd_mq_fields [simp]:
  "mqueues (upd_mq n f s) = (mqueues s)(n := f (mqueues s n))"
  "threads (upd_mq n f s) = threads s" "tlists (upd_mq n f s) = tlists s"
  "current_thread (upd_mq n f s) = current_thread s" "lock_nest (upd_mq n f s) = lock_nest s"
  "ready_group (upd_mq n f s) = ready_group s" "obj_type (upd_mq n f s) = obj_type s"
  "interrupt_nest (upd_mq n f s) = interrupt_nest s" "rt_tick (upd_mq n f s) = rt_tick s"
  "kernel_ok (upd_mq n f s) = kernel_ok s" "runs_highest (upd_mq n f s) = runs_highest s"
  by (simp_all add: upd_mq_def)

text \<open>Between two calls no slot is in the hands of a sender or receiver.\<close>

definition mqueue_ok :: "rt_messagequeue \<Rightarrow> bool" where
  "mqueue_ok mq = (mq_rep mq (free_slots mq) (queue_slots mq) {} \<and> mq_flag mq \<in> {RT_IPC_FLAG_FIFO, RT_IPC_FLAG_PRIO})"

definition mq_seq :: "rt_messagequeue \<Rightarrow> u8 list list" where
  "mq_seq mq = map (mq_body mq) (queue_slots mq)"

lemma mqueue_okI:
  assumes "mq_rep mq fl q {}" and "mq_flag mq \<in> {RT_IPC_FLAG_FIFO, RT_IPC_FLAG_PRIO}"
  shows "mqueue_ok mq" and "mq_seq mq = map (mq_body mq) q"
proof -
  have l: "mq_lists mq fl q {}" using assms(1) by (simp add: mq_rep_def)
  show "mqueue_ok mq" using assms slots_eq [OF l] by (simp add: mqueue_ok_def)
  show "mq_seq mq = map (mq_body mq) q" using slots_eq [OF l] by (simp add: mq_seq_def)
qed

lemma mqueue_okD:
  assumes "mqueue_ok mq"
  shows "mq_lists mq (free_slots mq) (queue_slots mq) {}" "unat (mq_entry mq) = length (mq_seq mq)"
    "mq_flag mq \<in> {RT_IPC_FLAG_FIFO, RT_IPC_FLAG_PRIO}"
    "length (free_slots mq) + length (mq_seq mq) = unat (max_msgs mq)"
  using assms mq_lists_length(3) [of mq "free_slots mq" "queue_slots mq" "{}"]
  by (auto simp: mqueue_ok_def mq_rep_def mq_seq_def)

lemma mqueue_full:
  assumes "mqueue_ok mq"
  shows "msg_queue_free mq = None \<longleftrightarrow> \<not> length (mq_seq mq) < unat (max_msgs mq)"
proof -
  have "slot_chain (mq_next mq) (msg_queue_free mq) (free_slots mq)" using mq_listsD(1) [OF mqueue_okD(1) [OF assms]] .
  then have "msg_queue_free mq = None \<longleftrightarrow> free_slots mq = []" by (cases "free_slots mq") auto
  then show ?thesis using mqueue_okD(4) [OF assms] by (cases "free_slots mq") auto
qed

lemma mqueue_empty: "mqueue_ok mq \<Longrightarrow> mq_entry mq = 0 \<longleftrightarrow> mq_seq mq = []"
  using mqueue_okD(2) [of mq] by (metis length_0_conv unat_eq_0)

text \<open>The sections of a send, of an urgent send and of a receive, run together.\<close>

lemma post_pool:
  assumes ok: "mqueue_ok mq" and room: "msg_queue_free mq \<noteq> None" and len: "length d \<le> unat (msg_size mq)"
  shows "\<exists>m mq1 mq2 mq3 pad. mq_take_free mq = Some (m, mq1) \<and> mq_fill m d mq1 = Some mq2 \<and> mq_link m mq2 = Some (True, mq3) \<and>
    mqueue_ok mq3 \<and> length (d @ pad) = unat (msg_size mq) \<and> mq_seq mq3 = mq_seq mq @ [d @ pad] \<and>
    max_msgs mq3 = max_msgs mq \<and> msg_size mq3 = msg_size mq \<and> mq_flag mq3 = mq_flag mq"
proof -
  note l = mqueue_okD [OF ok]
  obtain m fl where fl: "free_slots mq = m # fl"
    using mq_listsD(1) [OF l(1)] room by (cases "free_slots mq") auto
  let ?q = "queue_slots mq" and ?pad = "drop (length d) (mq_body mq m)"
  note t = take_free_ok [OF l(1) [unfolded fl]]
  let ?mq1 = "mq\<lparr>msg_queue_free := mq_next mq m\<rparr>"
  have "length d \<le> unat (msg_size ?mq1)" using len by simp
  note f = fill_ok [OF t(2) insertI1 this]
  let ?mq2 = "?mq1\<lparr>mq_next := (mq_next ?mq1)(m := None), mq_body := (mq_body ?mq1)(m := d @ drop (length d) (mq_body ?mq1 m))\<rparr>"
  have "mq_rep ?mq2 fl ?q {m}" using f(2) l(2) by (simp add: mq_rep_def mq_seq_def)
  then obtain mq3 where mq3: "mq_link m ?mq2 = Some (True, mq3)" "mq_rep mq3 fl (?q @ [m]) {}" "mq_body mq3 = mq_body ?mq2"
    "max_msgs mq3 = max_msgs mq" "msg_size mq3 = msg_size mq" "mq_flag mq3 = mq_flag mq"
    using link_ok [of ?mq2 fl ?q "{m}" m] by auto
  have m: "m \<notin> set ?q" "m < unat (max_msgs mq)"
    using mq_listsD(4,6) [OF l(1)] fl by auto
  have b: "length (mq_body mq m) = unat (msg_size mq)" using mq_listsD(7) [OF l(1) m(2)] .
  have mf: "mq_flag mq3 \<in> {RT_IPC_FLAG_FIFO, RT_IPC_FLAG_PRIO}" using l(3) mq3(6) by simp
  note k = mqueue_okI [OF mq3(2) mf]
  have "mq_seq mq3 = mq_seq mq @ [d @ ?pad]" using k(2) mq3(3) m(1) by (auto simp: mq_seq_def)
  then show ?thesis using t(1) f(1) mq3 k(1) b len by auto
qed

lemma urgent_pool:
  assumes ok: "mqueue_ok mq" and room: "msg_queue_free mq \<noteq> None" and len: "length d \<le> unat (msg_size mq)"
  shows "\<exists>m mq1 mq2 mq3 pad. mq_take_free mq = Some (m, mq1) \<and> mq_copy_in m d mq1 = Some mq2 \<and> mq_link_front m mq2 = Some (True, mq3) \<and>
    mqueue_ok mq3 \<and> length (d @ pad) = unat (msg_size mq) \<and> mq_seq mq3 = (d @ pad) # mq_seq mq \<and>
    max_msgs mq3 = max_msgs mq \<and> msg_size mq3 = msg_size mq \<and> mq_flag mq3 = mq_flag mq"
proof -
  note l = mqueue_okD [OF ok]
  obtain m fl where fl: "free_slots mq = m # fl"
    using mq_listsD(1) [OF l(1)] room by (cases "free_slots mq") auto
  let ?q = "queue_slots mq" and ?pad = "drop (length d) (mq_body mq m)"
  note t = take_free_ok [OF l(1) [unfolded fl]]
  let ?mq1 = "mq\<lparr>msg_queue_free := mq_next mq m\<rparr>"
  have "length d \<le> unat (msg_size ?mq1)" using len by simp
  note f = copy_in_ok [OF t(2) insertI1 this]
  let ?mq2 = "?mq1\<lparr>mq_body := (mq_body ?mq1)(m := d @ drop (length d) (mq_body ?mq1 m))\<rparr>"
  have "mq_rep ?mq2 fl ?q {m}" using f(2) l(2) by (simp add: mq_rep_def mq_seq_def)
  then obtain mq3 where mq3: "mq_link_front m ?mq2 = Some (True, mq3)" "mq_rep mq3 fl (m # ?q) {}" "mq_body mq3 = mq_body ?mq2"
    "max_msgs mq3 = max_msgs mq" "msg_size mq3 = msg_size mq" "mq_flag mq3 = mq_flag mq"
    using link_front_ok [of ?mq2 fl ?q "{m}" m] by auto
  have m: "m \<notin> set ?q" "m < unat (max_msgs mq)"
    using mq_listsD(4,6) [OF l(1)] fl by auto
  have b: "length (mq_body mq m) = unat (msg_size mq)" using mq_listsD(7) [OF l(1) m(2)] .
  have mf: "mq_flag mq3 \<in> {RT_IPC_FLAG_FIFO, RT_IPC_FLAG_PRIO}" using l(3) mq3(6) by simp
  note k = mqueue_okI [OF mq3(2) mf]
  have "mq_seq mq3 = (d @ ?pad) # mq_seq mq" using k(2) mq3(3) m(1) by (auto simp: mq_seq_def)
  then show ?thesis using t(1) f(1) mq3 k(1) b len by auto
qed

lemma pick_pool:
  assumes ok: "mqueue_ok mq" and it: "mq_seq mq = b # bs"
  shows "\<exists>m mq1 mq2. mq_unlink mq = Some (m, mq1) \<and>
    mq_copy_out m sz (mq_uncount mq1) = Some (take (min sz (unat (msg_size mq))) b) \<and>
    mq_put_free m (mq_uncount mq1) = Some mq2 \<and> mqueue_ok mq2 \<and> mq_seq mq2 = bs \<and>
    max_msgs mq2 = max_msgs mq \<and> msg_size mq2 = msg_size mq \<and> mq_flag mq2 = mq_flag mq"
proof -
  note l = mqueue_okD [OF ok]
  obtain m q where q: "queue_slots mq = m # q" "b = mq_body mq m" "bs = map (mq_body mq) q"
    using it unfolding mq_seq_def by (cases "queue_slots mq") auto
  obtain mq1 where mq1: "mq_unlink mq = Some (m, mq1)" "mq_lists mq1 (free_slots mq) q {m}" "mq_entry mq1 = mq_entry mq"
    "mq_body mq1 = mq_body mq" "msg_size mq1 = msg_size mq" "max_msgs mq1 = max_msgs mq" "mq_flag mq1 = mq_flag mq"
    using unlink_ok [OF l(1) [unfolded q(1)]] by auto
  have r: "mq_rep (mq_uncount mq1) (free_slots mq) q {m}"
    by (rule uncount_ok [OF mq1(2)]) (simp add: mq1(3) l(2) mq_seq_def q(1))
  then have rl: "mq_lists (mq_uncount mq1) (free_slots mq) q {m}" "unat (mq_entry (mq_uncount mq1)) = length q"
    by (auto simp: mq_rep_def)
  note p = put_free_ok [OF rl(1), of m]
  let ?mq2 = "(mq_uncount mq1)\<lparr>mq_next := (mq_next (mq_uncount mq1))(m := msg_queue_free (mq_uncount mq1)), msg_queue_free := Some m\<rparr>"
  have "mq_rep ?mq2 (m # free_slots mq) q {}" using p(2) rl(2) by (simp add: mq_rep_def)
  moreover have "mq_flag ?mq2 \<in> {RT_IPC_FLAG_FIFO, RT_IPC_FLAG_PRIO}" using l(3) mq1(7) by simp
  ultimately have k: "mqueue_ok ?mq2" "mq_seq ?mq2 = map (mq_body ?mq2) q" using mqueue_okI by blast+
  have "in_pool mq m" using mq_lists_in_pool [OF l(1), of m] q(1) by simp
  then have "mq_copy_out m sz (mq_uncount mq1) = Some (take (min sz (unat (msg_size mq))) b)"
    using mq_listsD(7) [OF l(1), of m] mq1(4-6) q(2) by (simp add: mq_copy_out_def in_pool_def Let_def min_def)
  then show ?thesis using mq1 p(1) k q(3) by auto
qed

section \<open>Correctness\<close>

definition mq_ok :: "nat \<Rightarrow> kernel \<Rightarrow> bool" where
  "mq_ok n s = (is_mq n s \<and> mqueue_ok (mqueues s n))"

text \<open>What the users of a queue see: the contents of the queued slots, the capacity, the waiting receivers and
  the waiting senders.\<close>

definition mq_view :: "nat \<Rightarrow> kernel \<Rightarrow> u8 list list \<times> nat \<times> tid list \<times> tid list" where
  "mq_view n s = (mq_seq (mqueues s n), unat (max_msgs (mqueues s n)),
     items (tlists s) (Mq_recv_wait n), items (tlists s) (Mq_send_wait n))"

lemma mq_wakes:
  assumes "woken_on h s1 s'" and "is_mq n s1" and "mqueue_ok (mqueues s1 n)"
  shows "kernel_ok s'" and "mq_ok n s'" and "mqueues s' = mqueues s1"
    and "items (tlists s') h = tl (items (tlists s1) h)"
    and "k \<noteq> h \<Longrightarrow> (\<And>p. k \<noteq> Ready p) \<Longrightarrow> items (tlists s') k = items (tlists s1) k"
    and "items (tlists s1) h = t # ts \<Longrightarrow> awake s' t \<and> thread_error (threads s' t) = thread_error (threads s1 t)"
  using assms by (auto simp: woken_on_def mq_ok_def is_mq_def ipc_same_def)

lemma mq_blocked:
  assumes b: "blocked_on h f x (no_error s) s'" and ok: "mq_ok n s"
  shows "kernel_ok s'" and "mq_ok n s'" and "mqueues s' = mqueues s" and "current_thread s' \<noteq> current_thread s"
    and "items (tlists s') h = wait_insert f (prio_of s) (current_thread s) (items (tlists s) h)"
    and "k \<noteq> h \<Longrightarrow> (\<And>p. k \<noteq> Ready p) \<Longrightarrow> items (tlists s') k = items (tlists s) k"
proof -
  note d = blocked_onD [OF b, simplified] and fr = blocked_on_frame(1,2) [OF b]
  show "kernel_ok s'" "current_thread s' \<noteq> current_thread s"
    "items (tlists s') h = wait_insert f (prio_of s) (current_thread s) (items (tlists s) h)"
    using d by simp_all
  show "mqueues s' = mqueues s" "mq_ok n s'"
    using ok fr(1) by (simp_all add: ipc_same_def mq_ok_def is_mq_def)
  show "k \<noteq> h \<Longrightarrow> (\<And>p. k \<noteq> Ready p) \<Longrightarrow> items (tlists s') k = items (tlists s) k"
    using fr(2) by simp
qed

text \<open>A state in which the queue \<open>n\<close> holds \<open>q\<close>, the queue \<open>h\<close> has lost its first waiter and that one is awake.\<close>

definition mq_moved :: "nat \<Rightarrow> u8 list list \<Rightarrow> lhead \<Rightarrow> kernel \<Rightarrow> kernel \<Rightarrow> bool" where
  "mq_moved n q h s s' =
     (kernel_ok s' \<and> mq_ok n s' \<and> msg_size (mqueues s' n) = msg_size (mqueues s n) \<and>
      mq_view n s' = (q, unat (max_msgs (mqueues s n)),
        (if h = Mq_recv_wait n then tl (items (tlists s) h) else items (tlists s) (Mq_recv_wait n)),
        (if h = Mq_send_wait n then tl (items (tlists s) h) else items (tlists s) (Mq_send_wait n))) \<and>
      (\<forall>t ts. items (tlists s) h = t # ts \<longrightarrow> awake s' t \<and> thread_error (threads s' t) = thread_error (threads s t)))"

lemma mq_changed:
  assumes k: "kernel_ok s" and ok: "mq_ok n s" and mq: "mqueue_ok mq" "max_msgs mq = max_msgs (mqueues s n)"
      "msg_size mq = msg_size (mqueues s n)"
    and h: "h = Mq_recv_wait n \<or> h = Mq_send_wait n"
  shows "\<exists>s'. ipc_wake_one h (upd_mq n (\<lambda>_. mq) s) = Some s' \<and> mq_moved n (mq_seq mq) h s s'"
proof -
  let ?s1 = "upd_mq n (\<lambda>_. mq) s"
  have "kernel_ok ?s1" using k by simp
  then obtain s' where s': "ipc_wake_one h ?s1 = Some s'" "woken_on h ?s1 s'"
    using h mq_recv_wait.wake_one mq_send_wait.wake_one by metis
  have "is_mq n ?s1" "mqueue_ok (mqueues ?s1 n)" using ok mq(1) by (simp_all add: mq_ok_def is_mq_def)
  note w = mq_wakes [OF s'(2) this]
  have "mq_moved n (mq_seq mq) h s s'"
    using h w(1-4,6) w(5) [of "Mq_recv_wait n"] w(5) [of "Mq_send_wait n"] mq(2,3)
    by (auto simp: mq_moved_def mq_view_def)
  then show ?thesis using s'(1) by blast
qed

lemma post_ok:
  assumes k: "kernel_ok s" and ok: "mq_ok n s" and room: "msg_queue_free (mqueues s n) \<noteq> None"
    and len: "length d \<le> unat (msg_size (mqueues s n))"
  shows "\<exists>pad s'. mq_post n d s = Some (Returned RT_EOK, s') \<and> length (d @ pad) = unat (msg_size (mqueues s n)) \<and>
    mq_moved n (mq_seq (mqueues s n) @ [d @ pad]) (Mq_recv_wait n) s s'"
proof -
  have "mqueue_ok (mqueues s n)" using ok by (simp add: mq_ok_def)
  from post_pool [OF this room len] obtain m mq1 mq2 mq3 pad where p: "mq_take_free (mqueues s n) = Some (m, mq1)"
    "mq_fill m d mq1 = Some mq2" "mq_link m mq2 = Some (True, mq3)" "mqueue_ok mq3"
    "length (d @ pad) = unat (msg_size (mqueues s n))" "mq_seq mq3 = mq_seq (mqueues s n) @ [d @ pad]"
    "max_msgs mq3 = max_msgs (mqueues s n)" "msg_size mq3 = msg_size (mqueues s n)"
    by blast
  obtain s' where s': "ipc_wake_one (Mq_recv_wait n) (upd_mq n (\<lambda>_. mq3) s) = Some s'"
    "mq_moved n (mq_seq mq3) (Mq_recv_wait n) s s'"
    using mq_changed [OF k ok p(4,7,8)] by blast
  have "mq_post n d s = Some (Returned RT_EOK, s')" using p(1-3) s'(1) by (simp add: mq_post_def Let_def)
  then show ?thesis using p(5,6) s'(2) by auto
qed

lemma mq_urgent_ok:
  assumes k: "kernel_ok s" and ok: "mq_ok n s" and room: "msg_queue_free (mqueues s n) \<noteq> None"
    and len: "0 < length d" "length d \<le> unat (msg_size (mqueues s n))"
  shows "\<exists>pad s'. rt_mq_urgent n d s = Some (RT_EOK, s') \<and> length (d @ pad) = unat (msg_size (mqueues s n)) \<and>
    mq_moved n ((d @ pad) # mq_seq (mqueues s n)) (Mq_recv_wait n) s s'"
proof -
  have i: "is_mq n s" "mqueue_ok (mqueues s n)" using ok by (auto simp: mq_ok_def)
  from urgent_pool [OF i(2) room len(2)] obtain m mq1 mq2 mq3 pad where p: "mq_take_free (mqueues s n) = Some (m, mq1)"
    "mq_copy_in m d mq1 = Some mq2" "mq_link_front m mq2 = Some (True, mq3)" "mqueue_ok mq3"
    "length (d @ pad) = unat (msg_size (mqueues s n))" "mq_seq mq3 = (d @ pad) # mq_seq (mqueues s n)"
    "max_msgs mq3 = max_msgs (mqueues s n)" "msg_size mq3 = msg_size (mqueues s n)"
    by blast
  obtain s' where s': "ipc_wake_one (Mq_recv_wait n) (upd_mq n (\<lambda>_. mq3) s) = Some s'"
    "mq_moved n (mq_seq mq3) (Mq_recv_wait n) s s'"
    using mq_changed [OF k ok p(4,7,8)] by blast
  have "rt_mq_urgent n d s = Some (RT_EOK, s')"
    using p(1-3) s'(1) i(1) len room by (simp add: rt_mq_urgent_def Let_def)
  then show ?thesis using p(5,6) s'(2) by auto
qed

lemma pick_ok:
  assumes k: "kernel_ok s" and ok: "mq_ok n s" and it: "mq_seq (mqueues s n) = b # bs"
  shows "\<exists>s'. mq_pick n sz s = Some (Returned RT_EOK, Some (take (min sz (unat (msg_size (mqueues s n)))) b), s') \<and>
    mq_moved n bs (Mq_send_wait n) s s'"
proof -
  have "mqueue_ok (mqueues s n)" using ok by (simp add: mq_ok_def)
  from pick_pool [OF this it, of sz] obtain m mq1 mq2 where p: "mq_unlink (mqueues s n) = Some (m, mq1)"
    "mq_copy_out m sz (mq_uncount mq1) = Some (take (min sz (unat (msg_size (mqueues s n)))) b)"
    "mq_put_free m (mq_uncount mq1) = Some mq2" "mqueue_ok mq2" "mq_seq mq2 = bs"
    "max_msgs mq2 = max_msgs (mqueues s n)" "msg_size mq2 = msg_size (mqueues s n)"
    by blast
  obtain s' where s': "ipc_wake_one (Mq_send_wait n) (upd_mq n (\<lambda>_. mq2) s) = Some s'"
    "mq_moved n (mq_seq mq2) (Mq_send_wait n) s s'"
    using mq_changed [OF k ok p(4,6,7)] by blast
  have "mq_pick n sz s = Some (Returned RT_EOK, Some (take (min sz (unat (msg_size (mqueues s n)))) b), s')"
    using p(1-3) s'(1) by (simp add: mq_pick_def Let_def)
  then show ?thesis using p(5) s'(2) by auto
qed

lemma mq_send_blocks:
  assumes b: "may_block s" and ok: "mq_ok n s" and full: "msg_queue_free (mqueues s n) = None"
    and x: "timeout \<noteq> 0" "timeout < 0x7FFFFFFF"
  shows "\<exists>s'. mq_send_loop n d timeout s = Some (Blocked, s') \<and> kernel_ok s' \<and> mq_ok n s' \<and>
    mq_view n s' = (mq_seq (mqueues s n), unat (max_msgs (mqueues s n)), items (tlists s) (Mq_recv_wait n),
      wait_insert (mq_flag (mqueues s n)) (prio_of s) (current_thread s) (items (tlists s) (Mq_send_wait n)))"
proof -
  have f: "mq_flag (mqueues s n) \<in> {0, 1}" using ok mqueue_okD(3) [of "mqueues s n"] by (simp add: mq_ok_def)
  obtain s' where s': "ipc_block (Mq_send_wait n) (mq_flag (mqueues s n)) timeout (no_error s) = Some s'"
    "blocked_on (Mq_send_wait n) (mq_flag (mqueues s n)) timeout (no_error s) s'"
    using mq_send_wait.block_on [OF b f x(2)] by blast
  note m = mq_blocked [OF s'(2) ok]
  have "mq_send_loop n d timeout s = Some (Blocked, s')"
    using s'(1) full x(1) m(4) by (subst mq_send_loop.simps) (simp add: Let_def rt_thread_self_def)
  then show ?thesis using m(1-3,5) m(6) [of "Mq_recv_wait n"] by (simp add: mq_view_def)
qed

lemma mq_recv_blocks:
  assumes b: "may_block s" and ok: "mq_ok n s" and empty: "mq_entry (mqueues s n) = 0"
    and x: "timeout \<noteq> 0" "timeout < 0x7FFFFFFF"
  shows "\<exists>s'. mq_recv_loop n sz timeout s = Some (Blocked, None, s') \<and> kernel_ok s' \<and> mq_ok n s' \<and>
    mq_view n s' = (mq_seq (mqueues s n), unat (max_msgs (mqueues s n)),
      wait_insert (mq_flag (mqueues s n)) (prio_of s) (current_thread s) (items (tlists s) (Mq_recv_wait n)),
      items (tlists s) (Mq_send_wait n))"
proof -
  have f: "mq_flag (mqueues s n) \<in> {0, 1}" using ok mqueue_okD(3) [of "mqueues s n"] by (simp add: mq_ok_def)
  obtain s' where s': "ipc_block (Mq_recv_wait n) (mq_flag (mqueues s n)) timeout (no_error s) = Some s'"
    "blocked_on (Mq_recv_wait n) (mq_flag (mqueues s n)) timeout (no_error s) s'"
    using mq_recv_wait.block_on [OF b f x(2)] by blast
  note m = mq_blocked [OF s'(2) ok]
  have "mq_recv_loop n sz timeout s = Some (Blocked, None, s')"
    using s'(1) empty x(1) m(4) by (subst mq_recv_loop.simps) (simp add: Let_def rt_thread_self_def)
  then show ?thesis using m(1-3,5) m(6) [of "Mq_send_wait n"] by (simp add: mq_view_def)
qed

interpretation mq_pair: wait_pair "Mq_recv_wait n" "Mq_send_wait n" for n
  by unfold_locales simp

text \<open>Non-blocking sends and receives of full-size messages are a bounded first-in first-out buffer.\<close>

definition mq_trysend :: "nat \<Rightarrow> u8 list \<Rightarrow> kernel \<Rightarrow> (bool \<times> kernel) option" where
  "mq_trysend n d s = map_option (map_prod (\<lambda>r. r = Returned RT_EOK) id) (rt_mq_send n d s)"

definition mq_tryrecv :: "nat \<Rightarrow> nat \<Rightarrow> kernel \<Rightarrow> (u8 list option \<times> kernel) option" where
  "mq_tryrecv n sz s = map_option snd (rt_mq_recv n sz 0 s)"

definition mq_sized :: "nat \<Rightarrow> nat \<Rightarrow> kernel \<Rightarrow> bool" where
  "mq_sized n k s = (kernel_ok s \<and> mq_ok n s \<and> unat (msg_size (mqueues s n)) = k \<and> 0 < k)"

lemma mq_send_room:
  assumes "mq_ok n s" and "msg_queue_free (mqueues s n) \<noteq> None" and "timeout \<noteq> 0 \<longrightarrow> scheduler_available s"
    and "0 < length d" "length d \<le> unat (msg_size (mqueues s n))"
  shows "rt_mq_send_wait n d timeout s = mq_post n d s"
  using assms by (auto simp: rt_mq_send_wait_def mq_ok_def mq_send_loop.simps)

lemma mq_recv_some:
  assumes "mq_ok n s" and "mq_entry (mqueues s n) \<noteq> 0" and "timeout \<noteq> 0 \<longrightarrow> scheduler_available s" and "0 < sz"
  shows "rt_mq_recv n sz timeout s = mq_pick n sz s"
  using assms by (simp add: rt_mq_recv_def mq_ok_def mq_recv_loop.simps)

interpretation mq: bounded_fifo "mq_sized n k" "\<lambda>s. mq_seq (mqueues s n)"
  "\<lambda>s. unat (max_msgs (mqueues s n))" "\<lambda>d. length d = k" "mq_trysend n" "mq_tryrecv n k" for n k
proof
  fix s :: kernel and d :: "u8 list" and q :: "u8 list list"
  assume o: "mq_sized n k s"
  then have ok: "kernel_ok s" "mq_ok n s" and k: "unat (msg_size (mqueues s n)) = k" "0 < k" by (auto simp: mq_sized_def)
  then have m: "mqueue_ok (mqueues s n)" "is_mq n s" by (auto simp: mq_ok_def)
  show "length (mq_seq (mqueues s n)) \<le> unat (max_msgs (mqueues s n))" using mqueue_okD(4) [OF m(1)] by simp
  show "\<exists>s'. mq_trysend n d s = Some (True, s') \<and> mq_sized n k s' \<and>
      mq_seq (mqueues s' n) = mq_seq (mqueues s n) @ [d] \<and> unat (max_msgs (mqueues s' n)) = unat (max_msgs (mqueues s n))"
    if d: "length d = k" and l: "length (mq_seq (mqueues s n)) < unat (max_msgs (mqueues s n))"
  proof -
    have room: "msg_queue_free (mqueues s n) \<noteq> None" using mqueue_full [OF m(1)] l by simp
    have len: "0 < length d" "length d \<le> unat (msg_size (mqueues s n))" using d k by auto
    obtain pad s' where "mq_post n d s = Some (Returned RT_EOK, s')" "length (d @ pad) = k"
      "mq_moved n (mq_seq (mqueues s n) @ [d @ pad]) (Mq_recv_wait n) s s'"
      using post_ok [OF ok room len(2)] k(1) by auto
    then show ?thesis
      using mq_send_room [OF ok(2) room _ len, of 0] d k
      by (auto simp: mq_trysend_def rt_mq_send_def mq_moved_def mq_view_def mq_sized_def)
  qed
  show "mq_trysend n d s = Some (False, s)"
    if "length d = k" "length (mq_seq (mqueues s n)) = unat (max_msgs (mqueues s n))"
    using that mqueue_full [OF m(1)] m(2) k by (simp add: mq_trysend_def rt_mq_send_def rt_mq_send_wait_def)
  show "\<exists>s'. mq_tryrecv n k s = Some (Some d, s') \<and> mq_sized n k s' \<and>
      mq_seq (mqueues s' n) = q \<and> unat (max_msgs (mqueues s' n)) = unat (max_msgs (mqueues s n))"
    if it: "mq_seq (mqueues s n) = d # q"
  proof -
    have "mq_entry (mqueues s n) \<noteq> 0" using it mqueue_empty [OF m(1)] by auto
    moreover have "length d = k"
    proof -
      obtain i where "i \<in> set (queue_slots (mqueues s n))" "d = mq_body (mqueues s n) i"
        using it unfolding mq_seq_def by (cases "queue_slots (mqueues s n)") auto
      then show ?thesis using mq_listsD(6,7) [OF mqueue_okD(1) [OF m(1)]] k(1) by auto
    qed
    ultimately show ?thesis
      using pick_ok [OF ok it, of k] mq_recv_some [OF ok(2), of 0 k] k
      by (auto simp: mq_tryrecv_def mq_moved_def mq_view_def mq_sized_def)
  qed
  show "mq_tryrecv n k s = Some (None, s)" if "mq_seq (mqueues s n) = []"
    using that mqueue_empty [OF m(1)] m(2) k by (simp add: mq_tryrecv_def rt_mq_recv_def)
qed

section \<open>Properties\<close>

text \<open>A queue of two four-byte messages, \<open>e\<close> of them used, with thread 5 waiting to receive and thread 3 running.\<close>

definition demo_queue :: "u16 \<Rightarrow> rt_messagequeue" where
  "demo_queue e = \<lparr>mq_flag = 0, msg_size = 4, max_msgs = 2, mq_entry = e,
     msg_queue_head = (if e = 0 then None else Some 1), msg_queue_tail = (if e = 0 then None else if e = 1 then Some 1 else Some 0),
     msg_queue_free = (if e = 0 then Some 1 else if e = 1 then Some 0 else None),
     mq_next = (\<lambda>i. if i = 1 \<and> e \<noteq> 1 then Some 0 else None), mq_body = (\<lambda>i. if i = 1 then [1, 2, 3, 4] else [5, 6, 7, 8])\<rparr>"

definition demo_mq :: "u16 \<Rightarrow> kernel" where
  "demo_mq e = (demo_wait (Mq_recv_wait 7) (Mq_obj 7) 0x86)\<lparr>mqueues := (\<lambda>_. demo_queue e)\<rparr>"

lemma demo_queue_ok:
  "mqueue_ok (demo_queue 0)" "mqueue_ok (demo_queue 1)" "mqueue_ok (demo_queue 2)"
  "mq_seq (demo_queue 0) = []" "mq_seq (demo_queue 1) = [[1, 2, 3, 4]]" "mq_seq (demo_queue 2) = [[1, 2, 3, 4], [5, 6, 7, 8]]"
proof -
  have "mq_rep (demo_queue 0) [1, 0] [] {}" "mq_rep (demo_queue 1) [0] [1] {}" "mq_rep (demo_queue 2) [] [1, 0] {}"
    by (auto simp: mq_rep_def mq_lists_def demo_queue_def)
  moreover have "mq_flag (demo_queue e) \<in> {0, 1}" for e by (simp add: demo_queue_def)
  ultimately show "mqueue_ok (demo_queue 0)" "mqueue_ok (demo_queue 1)" "mqueue_ok (demo_queue 2)"
    "mq_seq (demo_queue 0) = []" "mq_seq (demo_queue 1) = [[1, 2, 3, 4]]" "mq_seq (demo_queue 2) = [[1, 2, 3, 4], [5, 6, 7, 8]]"
    using mqueue_okI [of "demo_queue 0"] mqueue_okI [of "demo_queue 1"] mqueue_okI [of "demo_queue 2"]
    by (blast, blast, blast, (auto simp: demo_queue_def)+)
qed

lemma demo_mq_fields:
  "mqueues (demo_mq e) 7 = demo_queue e" "items (tlists (demo_mq e)) (Mq_recv_wait 7) = [5]"
  "items (tlists (demo_mq e)) (Mq_send_wait 7) = []" "current_thread (demo_mq e) = 3"
  "max_msgs (demo_queue e) = 2" "msg_size (demo_queue e) = 4" "mq_flag (demo_queue e) = 0"
  by (simp_all add: demo_mq_def demo_queue_def) (simp add: demo_wait_def)

lemma demo_mq_ok:
  assumes "e \<in> {0, 1, 2}"
  shows "may_block (demo_mq e)" "kernel_ok (demo_mq e)" "mq_ok 7 (demo_mq e)"
proof -
  have "may_block (demo_wait (Mq_recv_wait 7) (Mq_obj 7) 0x86)"
    by (rule mq_recv_wait.demo_wait_may_block) auto
  then show b: "may_block (demo_mq e)" by (simp add: may_block_def demo_mq_def)
  then show "kernel_ok (demo_mq e)" by (rule may_blockD)
  show "mq_ok 7 (demo_mq e)"
    using assms demo_queue_ok by (auto simp: mq_ok_def is_mq_def demo_mq_def rt_object_get_type_def)
qed

text \<open>C19. \<^verbatim>\<open>rt_mq_send_wait\<close>, on every branch: a message longer than the slots is refused with \<^verbatim>\<open>-RT_ERROR\<close>; with a
  free slot the message, followed by the old bytes of the slot, goes to the end of the queue and the first
  receiver is woken; a full queue gives \<^verbatim>\<open>-RT_EFULL\<close> or makes the caller wait in the order of the queue. The pool
  invariant and the kernel invariant are kept.\<close>

theorem message_send_refines:
  assumes "kernel_ok s" and "mq_ok n s" and "timeout = 0 \<or> may_block s \<and> timeout < 0x7FFFFFFF" and "d \<noteq> []"
    and "mq_view n s = (q, cap, rs, ss)"
  shows "\<exists>r s'. rt_mq_send_wait n d timeout s = Some (r, s') \<and> kernel_ok s' \<and> mq_ok n s' \<and>
    (if length d > unat (msg_size (mqueues s n)) then r = Returned (- RT_ERROR) \<and> s' = s
     else if length q < cap then r = Returned RT_EOK \<and>
       (\<exists>pad. length (d @ pad) = unat (msg_size (mqueues s n)) \<and> mq_view n s' = (q @ [d @ pad], cap, tl rs, ss)) \<and>
       (\<forall>t ts. rs = t # ts \<longrightarrow> awake s' t \<and> thread_error (threads s' t) = thread_error (threads s t))
     else if timeout = 0 then r = Returned (- RT_EFULL) \<and> s' = s
     else r = Blocked \<and> mq_view n s' = (q, cap, rs, wait_insert (mq_flag (mqueues s n)) (prio_of s) (current_thread s) ss))"
proof -
  have v: "q = mq_seq (mqueues s n)" "cap = unat (max_msgs (mqueues s n))" "rs = items (tlists s) (Mq_recv_wait n)"
    "ss = items (tlists s) (Mq_send_wait n)" using assms(5) by (auto simp: mq_view_def)
  have i: "is_mq n s" "mqueue_ok (mqueues s n)" using assms(2) by (auto simp: mq_ok_def)
  have av: "timeout \<noteq> 0 \<longrightarrow> scheduler_available s" using assms(3) may_blockD(6) by blast
  consider (long) "length d > unat (msg_size (mqueues s n))"
    | (room) "length d \<le> unat (msg_size (mqueues s n))" "length q < cap"
    | (full) "length d \<le> unat (msg_size (mqueues s n))" "\<not> length q < cap" by linarith
  then show ?thesis
  proof cases
    case long
    then show ?thesis using assms(1,2,4) i av by (simp add: rt_mq_send_wait_def)
  next
    case room
    have free: "msg_queue_free (mqueues s n) \<noteq> None" using mqueue_full [OF i(2)] room(2) v by simp
    have len: "0 < length d" using assms(4) by simp
    show ?thesis
      using post_ok [OF assms(1,2) free room(1)] mq_send_room [OF assms(2) free av len room(1)] room v
      by (auto simp: mq_moved_def)
  next
    case full
    have free: "msg_queue_free (mqueues s n) = None" using mqueue_full [OF i(2)] full(2) v by simp
    show ?thesis
    proof (cases "timeout = 0")
      case True
      then show ?thesis using free full assms(1,2,4) i by (simp add: rt_mq_send_wait_def)
    next
      case wait: False
      then have b: "may_block s" "timeout < 0x7FFFFFFF" using assms(3) by auto
      have "rt_mq_send_wait n d timeout s = mq_send_loop n d timeout s"
        using i(1) wait av assms(4) full(1) by (simp add: rt_mq_send_wait_def)
      then show ?thesis
        using mq_send_blocks [OF b(1) assms(2) free wait b(2), of d] full wait v by auto
    qed
  qed
qed

theorem message_send_refines_witness:
  "(\<exists>s'. rt_mq_send_wait 7 [9, 9, 9, 9] 0 (demo_mq 1) = Some (Returned RT_EOK, s') \<and>
      mq_view 7 s' = ([[1, 2, 3, 4], [9, 9, 9, 9]], 2, [], []) \<and> awake s' 5) \<and>
   (\<exists>s'. rt_mq_send_wait 7 [9] 20 (demo_mq 2) = Some (Blocked, s') \<and>
      mq_view 7 s' = ([[1, 2, 3, 4], [5, 6, 7, 8]], 2, [5], [3]))"
proof
  have v: "mq_view 7 (demo_mq 1) = ([[1, 2, 3, 4]], 2, [5], [])" "mq_view 7 (demo_mq 2) = ([[1, 2, 3, 4], [5, 6, 7, 8]], 2, [5], [])"
    by (simp_all add: mq_view_def demo_mq_fields demo_queue_ok)
  show "\<exists>s'. rt_mq_send_wait 7 [9, 9, 9, 9] 0 (demo_mq 1) = Some (Returned RT_EOK, s') \<and>
      mq_view 7 s' = ([[1, 2, 3, 4], [9, 9, 9, 9]], 2, [], []) \<and> awake s' 5"
    using message_send_refines [OF demo_mq_ok(2,3), of 1 0 "[9, 9, 9, 9]", OF _ _ _ _ v(1)]
    by (auto simp: demo_mq_fields)
  show "\<exists>s'. rt_mq_send_wait 7 [9] 20 (demo_mq 2) = Some (Blocked, s') \<and>
      mq_view 7 s' = ([[1, 2, 3, 4], [5, 6, 7, 8]], 2, [5], [3])"
    using message_send_refines [OF demo_mq_ok(2,3), of 2 20 "[9]", OF _ _ _ _ v(2)] demo_mq_ok(1) [of 2]
    by (auto simp: demo_mq_fields wait_insert_def)
qed

text \<open>C20. \<^verbatim>\<open>rt_mq_recv\<close>, on every branch: it hands out the first message, cut to the size of the caller's buffer,
  returns its slot to the free list and wakes the first waiting sender; an empty queue gives \<^verbatim>\<open>-RT_ETIMEOUT\<close> or
  makes the caller wait.\<close>

theorem message_recv_refines:
  assumes "kernel_ok s" and "mq_ok n s" and "timeout = 0 \<or> may_block s \<and> timeout < 0x7FFFFFFF" and "0 < sz"
    and "mq_view n s = (q, cap, rs, ss)"
  shows "\<exists>r out s'. rt_mq_recv n sz timeout s = Some (r, out, s') \<and> kernel_ok s' \<and> mq_ok n s' \<and>
    (case q of
       b # bs \<Rightarrow> r = Returned RT_EOK \<and> out = Some (take (min sz (unat (msg_size (mqueues s n)))) b) \<and>
         mq_view n s' = (bs, cap, rs, tl ss) \<and>
         (\<forall>t ts. ss = t # ts \<longrightarrow> awake s' t \<and> thread_error (threads s' t) = thread_error (threads s t))
     | [] \<Rightarrow> if timeout = 0 then r = Returned (- RT_ETIMEOUT) \<and> out = None \<and> s' = s
       else r = Blocked \<and> out = None \<and>
         mq_view n s' = ([], cap, wait_insert (mq_flag (mqueues s n)) (prio_of s) (current_thread s) rs, ss))"
proof -
  have v: "q = mq_seq (mqueues s n)" "cap = unat (max_msgs (mqueues s n))" "rs = items (tlists s) (Mq_recv_wait n)"
    "ss = items (tlists s) (Mq_send_wait n)" using assms(5) by (auto simp: mq_view_def)
  have i: "is_mq n s" "mqueue_ok (mqueues s n)" using assms(2) by (auto simp: mq_ok_def)
  have av: "timeout \<noteq> 0 \<longrightarrow> scheduler_available s" using assms(3) may_blockD(6) by blast
  show ?thesis
  proof (cases q)
    case (Cons b bs)
    have it: "mq_seq (mqueues s n) = b # bs" using Cons v(1) by simp
    have "mq_entry (mqueues s n) \<noteq> 0" using it mqueue_empty [OF i(2)] by auto
    then show ?thesis
      using pick_ok [OF assms(1,2) it, of sz] mq_recv_some [OF assms(2) _ av assms(4)] Cons v(2-4)
      by (auto simp: mq_moved_def)
  next
    case Nil
    then have e: "mq_entry (mqueues s n) = 0" using mqueue_empty [OF i(2)] v(1) by simp
    show ?thesis
    proof (cases "timeout = 0")
      case True
      then show ?thesis using e Nil assms(1,2,4) i by (simp add: rt_mq_recv_def)
    next
      case wait: False
      then have b: "may_block s" "timeout < 0x7FFFFFFF" using assms(3) by auto
      have "rt_mq_recv n sz timeout s = mq_recv_loop n sz timeout s"
        using i(1) wait av assms(4) by (simp add: rt_mq_recv_def)
      then show ?thesis
        using mq_recv_blocks [OF b(1) assms(2) e wait b(2), of sz] wait Nil v by auto
    qed
  qed
qed

theorem message_recv_refines_witness:
  "(\<exists>s'. rt_mq_recv 7 3 0 (demo_mq 2) = Some (Returned RT_EOK, Some [1, 2, 3], s') \<and> mq_view 7 s' = ([[5, 6, 7, 8]], 2, [5], [])) \<and>
   (\<exists>s'. rt_mq_recv 7 3 20 (demo_mq 0) = Some (Blocked, None, s') \<and> mq_view 7 s' = ([], 2, [5, 3], []))"
proof
  have v: "mq_view 7 (demo_mq 0) = ([], 2, [5], [])" "mq_view 7 (demo_mq 2) = ([[1, 2, 3, 4], [5, 6, 7, 8]], 2, [5], [])"
    by (simp_all add: mq_view_def demo_mq_fields demo_queue_ok)
  show "\<exists>s'. rt_mq_recv 7 3 0 (demo_mq 2) = Some (Returned RT_EOK, Some [1, 2, 3], s') \<and> mq_view 7 s' = ([[5, 6, 7, 8]], 2, [5], [])"
    using message_recv_refines [OF demo_mq_ok(2,3), of 2 0 3, OF _ _ _ _ v(2)] by (auto simp: demo_mq_fields numeral_3_eq_3)
  show "\<exists>s'. rt_mq_recv 7 3 20 (demo_mq 0) = Some (Blocked, None, s') \<and> mq_view 7 s' = ([], 2, [5, 3], [])"
    using message_recv_refines [OF demo_mq_ok(2,3), of 0 20 3, OF _ _ _ _ v(1)] demo_mq_ok(1) [of 0]
    by (auto simp: demo_mq_fields wait_insert_def)
qed



text \<open>C22. \<^verbatim>\<open>rt_mq_control(RT_IPC_CMD_RESET)\<close> ends: it wakes every waiting receiver and sender, whose calls then return
  \<^verbatim>\<open>-RT_ERROR\<close>, and returns every queued message to the free list, so that the whole capacity is available.\<close>

theorem message_queue_reset:
  assumes "kernel_ok s" and "mq_ok n s"
  shows "\<exists>s'. rt_mq_control n RT_IPC_CMD_RESET arg s = Some (RT_EOK, s') \<and> kernel_ok s' \<and> mq_ok n s' \<and>
    mq_view n s' = ([], unat (max_msgs (mqueues s n)), [], []) \<and>
    length (free_slots (mqueues s' n)) = unat (max_msgs (mqueues s n)) \<and>
    (\<forall>t \<in> set (items (tlists s) (Mq_recv_wait n)) \<union> set (items (tlists s) (Mq_send_wait n)).
       awake s' t \<and> thread_error (threads s' t) = - RT_ERROR)"
proof -
  obtain s1 s2 where s2: "ipc_list_resume_all (Mq_recv_wait n) s = Some s1" "ipc_list_resume_all (Mq_send_wait n) s1 = Some s2"
    "kernel_ok s2" "ipc_same s s2" "items (tlists s2) (Mq_recv_wait n) = []" "items (tlists s2) (Mq_send_wait n) = []"
    "\<forall>t \<in> set (items (tlists s) (Mq_recv_wait n)) \<union> set (items (tlists s) (Mq_send_wait n)). awake s2 t \<and> thread_error (threads s2 t) = - RT_ERROR"
    using mq_pair.reset_both [OF assms(1)] by blast
  have i: "is_mq n s" "mqueue_ok (mqueues s n)" "mqueues s2 = mqueues s"
    using assms(2) s2(4) by (auto simp: mq_ok_def ipc_same_def)
  obtain mq where mq: "mq_flush (mqueues s n) = Some mq" "mq_lists mq (rev (queue_slots (mqueues s n)) @ free_slots (mqueues s n)) [] {}"
    "max_msgs mq = max_msgs (mqueues s n)" "mq_flag mq = mq_flag (mqueues s n)"
    using flush_ok [OF mqueue_okD(1) [OF i(2)]] by auto
  let ?mq = "mq\<lparr>mq_entry := 0\<rparr>" and ?s3 = "upd_mq n (\<lambda>_. mq\<lparr>mq_entry := 0\<rparr>) s2"
  have "mq_rep ?mq (rev (queue_slots (mqueues s n)) @ free_slots (mqueues s n)) [] {}" using mq(2) by (simp add: mq_rep_def)
  moreover have "mq_flag ?mq \<in> {RT_IPC_FLAG_FIFO, RT_IPC_FLAG_PRIO}" using mqueue_okD(3) [OF i(2)] mq(4) by simp
  ultimately have q: "mqueue_ok ?mq" "mq_seq ?mq = []" using mqueue_okI by fastforce+
  have "kernel_ok ?s3" using s2(3) by simp
  then obtain s' where s': "rt_schedule ?s3 = Some s'" "kernel_ok s'" "sched_frame ?s3 s'"
    using schedule_kernel_ok by blast
  have it: "items (tlists s') (Mq_recv_wait n) = []" "items (tlists s') (Mq_send_wait n) = []"
    using sched_frameD(4) [OF s'(3), of "Mq_recv_wait n"] sched_frameD(4) [OF s'(3), of "Mq_send_wait n"] s2(5,6) by simp_all
  have m: "mqueues s' n = ?mq" "is_mq n s'"
    using sched_frame_kernel [OF s'(3)] i(1) s2(4) by (simp_all add: is_mq_def ipc_same_def)
  have "awake s' t \<and> thread_error (threads s' t) = - RT_ERROR" if "awake s2 t" "thread_error (threads s2 t) = - RT_ERROR" for t
    using sched_frameD(3) [OF s'(3), of t] sched_frame_thread(3) [OF s'(3), of t] that by (auto simp: awake_def)
  moreover have "rt_mq_control n RT_IPC_CMD_RESET arg s = Some (RT_EOK, s')"
    using i s2(1,2) mq(1) s'(1) by (simp add: rt_mq_control_def Let_def)
  moreover have "length (free_slots ?mq) = unat (max_msgs (mqueues s n))"
    using mqueue_okD(4) [OF q(1)] q(2) mq(3) by simp
  ultimately show ?thesis using s'(2) m q it mq(3) s2(7) by (auto simp: mq_ok_def mq_view_def)
qed

theorem message_queue_reset_witness:
  "\<exists>s'. rt_mq_control 7 RT_IPC_CMD_RESET 0 (demo_mq 2) = Some (RT_EOK, s') \<and> mq_view 7 s' = ([], 2, [], []) \<and>
    thread_error (threads s' 5) = - RT_ERROR"
  using message_queue_reset [OF demo_mq_ok(2,3), of 2 0] by (auto simp: demo_mq_fields)

end
