(* ===== verification/Rt_RingBuffer.thy ===== *)
theory Rt_RingBuffer
  imports Rt_Fifo
begin

text \<open>
  The ring buffer of \<^verbatim>\<open>components/drivers/ipc/ringbuffer.c\<close>. Each index has a mirror bit: equal indices mean
  empty when the mirrors agree and full when they differ. The indices are 15-bit fields, \<^verbatim>\<open>buffer_size\<close> is a
  signed 16-bit number, sums are taken in \<^verbatim>\<open>int\<close> and \<^verbatim>\<open>rt_size_t\<close> and truncated where the code stores them. An
  access outside the memory behind \<^verbatim>\<open>buffer_ptr\<close> is \<open>None\<close>.
\<close>

section \<open>Operations\<close>

record rt_ringbuffer =
  rb_pool :: "u8 list"
  read_mirror :: bool
  read_index :: int
  write_mirror :: bool
  write_index :: int
  buffer_size :: int

datatype rb_state = RT_RINGBUFFER_EMPTY | RT_RINGBUFFER_FULL | RT_RINGBUFFER_HALFFULL

definition field15 :: "int \<Rightarrow> int" where
  "field15 x = x mod 2 ^ 15"

definition rb_memcpy :: "int \<Rightarrow> u8 list \<Rightarrow> u8 list \<Rightarrow> u8 list option" where
  "rb_memcpy i d pool =
     (if d = [] then Some pool
      else if 0 \<le> i \<and> nat i + length d \<le> length pool
      then Some (take (nat i) pool @ d @ drop (nat i + length d) pool) else None)"

definition rb_read :: "int \<Rightarrow> int \<Rightarrow> u8 list \<Rightarrow> u8 list option" where
  "rb_read i k pool =
     (if k = 0 then Some []
      else if 0 \<le> i \<and> 0 \<le> k \<and> nat i + nat k \<le> length pool then Some (take (nat k) (drop (nat i) pool)) else None)"

definition rt_ringbuffer_status :: "rt_ringbuffer \<Rightarrow> rb_state" where
  "rt_ringbuffer_status rb =
     (if read_index rb = write_index rb
      then (if read_mirror rb = write_mirror rb then RT_RINGBUFFER_EMPTY else RT_RINGBUFFER_FULL)
      else RT_RINGBUFFER_HALFFULL)"

definition rt_ringbuffer_init :: "u8 list \<Rightarrow> int \<Rightarrow> rt_ringbuffer option" where
  "rt_ringbuffer_init pool sz = do {
     rt_assert (sz > 0);
     Some \<lparr>rb_pool = pool, read_mirror = False, read_index = 0, write_mirror = False, write_index = 0,
       buffer_size = sz AND NOT (4 - 1)\<rparr>
   }"

definition rt_ringbuffer_data_len :: "rt_ringbuffer \<Rightarrow> int" where
  "rt_ringbuffer_data_len rb =
     (case rt_ringbuffer_status rb of
        RT_RINGBUFFER_EMPTY \<Rightarrow> 0
      | RT_RINGBUFFER_FULL \<Rightarrow> buffer_size rb
      | RT_RINGBUFFER_HALFFULL \<Rightarrow>
          (if write_index rb > read_index rb then write_index rb - read_index rb
           else (buffer_size rb - (read_index rb - write_index rb)) mod 2 ^ 64))"

definition rt_ringbuffer_space_len :: "rt_ringbuffer \<Rightarrow> int" where
  "rt_ringbuffer_space_len rb = (buffer_size rb - rt_ringbuffer_data_len rb) mod 2 ^ 64"

text \<open>The two copies at the write index that all block writers share, and the index they leave.\<close>

definition rb_store :: "u8 list \<Rightarrow> rt_ringbuffer \<Rightarrow> rt_ringbuffer option" where
  "rb_store d rb =
     (if buffer_size rb - write_index rb > int (length d) then do {
        p \<leftarrow> rb_memcpy (write_index rb) d (rb_pool rb);
        Some (rb\<lparr>rb_pool := p, write_index := field15 (write_index rb + int (length d))\<rparr>)
      }
      else do {
        let k = nat (buffer_size rb - write_index rb);
        p \<leftarrow> rb_memcpy (write_index rb) (take k d) (rb_pool rb);
        p \<leftarrow> rb_memcpy 0 (drop k d) p;
        Some (rb\<lparr>rb_pool := p, write_mirror := \<not> write_mirror rb,
          write_index := field15 (int (length d) - (buffer_size rb - write_index rb))\<rparr>)
      })"

text \<open>\<^verbatim>\<open>rt_ringbuffer_put\<close>: \<open>d\<close> is the caller's buffer of \<^verbatim>\<open>length\<close> bytes, a 16-bit number.\<close>

definition rt_ringbuffer_put :: "u8 list \<Rightarrow> rt_ringbuffer \<Rightarrow> (int \<times> rt_ringbuffer) option" where
  "rt_ringbuffer_put d rb =
     (let sz = rt_ringbuffer_space_len rb mod 2 ^ 16
      in if sz = 0 then Some (0, rb)
         else do {
           let d = (if sz < int (length d) then take (nat sz) d else d);
           rb \<leftarrow> rb_store d rb;
           Some (int (length d), rb)
         })"

definition rt_ringbuffer_put_force :: "u8 list \<Rightarrow> rt_ringbuffer \<Rightarrow> (int \<times> rt_ringbuffer) option" where
  "rt_ringbuffer_put_force d rb = do {
     let space = rt_ringbuffer_space_len rb mod 2 ^ 16;
     let d = (if int (length d) > buffer_size rb then drop (nat (int (length d) - buffer_size rb)) d else d);
     let wraps = \<not> (buffer_size rb - write_index rb > int (length d));
     rb \<leftarrow> rb_store d rb;
     let rb = (if int (length d) > space
       then rb\<lparr>read_mirror := (if wraps \<and> write_index rb \<le> read_index rb then \<not> read_mirror rb else read_mirror rb),
               read_index := write_index rb\<rparr>
       else rb);
     Some (int (length d), rb)
   }"

definition rt_ringbuffer_get :: "int \<Rightarrow> rt_ringbuffer \<Rightarrow> (u8 list \<times> rt_ringbuffer) option" where
  "rt_ringbuffer_get len rb =
     (let sz = rt_ringbuffer_data_len rb
      in if sz = 0 then Some ([], rb)
         else do {
           let len = (if sz < len then sz mod 2 ^ 16 else len);
           if buffer_size rb - read_index rb > len then do {
             d \<leftarrow> rb_read (read_index rb) len (rb_pool rb);
             Some (d, rb\<lparr>read_index := field15 (read_index rb + len)\<rparr>)
           }
           else do {
             d1 \<leftarrow> rb_read (read_index rb) (buffer_size rb - read_index rb) (rb_pool rb);
             d2 \<leftarrow> rb_read 0 (len - (buffer_size rb - read_index rb)) (rb_pool rb);
             Some (d1 @ d2, rb\<lparr>read_mirror := \<not> read_mirror rb,
               read_index := field15 (len - (buffer_size rb - read_index rb))\<rparr>)
           }
         })"

text \<open>\<^verbatim>\<open>rt_ringbuffer_peek\<close> hands out a pointer into the pool: its index and the number of bytes behind it.\<close>

definition rt_ringbuffer_peek :: "rt_ringbuffer \<Rightarrow> (int \<times> int option) \<times> rt_ringbuffer" where
  "rt_ringbuffer_peek rb =
     (let sz = rt_ringbuffer_data_len rb
      in if sz = 0 then ((0, None), rb)
         else if (buffer_size rb - read_index rb) mod 2 ^ 64 > sz
         then ((sz, Some (read_index rb)), rb\<lparr>read_index := field15 (read_index rb + sz)\<rparr>)
         else (((buffer_size rb - read_index rb) mod 2 ^ 64, Some (read_index rb)),
               rb\<lparr>read_mirror := \<not> read_mirror rb, read_index := 0\<rparr>))"

definition rt_ringbuffer_putchar :: "u8 \<Rightarrow> rt_ringbuffer \<Rightarrow> (bool \<times> rt_ringbuffer) option" where
  "rt_ringbuffer_putchar ch rb =
     (if rt_ringbuffer_space_len rb = 0 then Some (False, rb)
      else do {
        p \<leftarrow> rb_memcpy (write_index rb) [ch] (rb_pool rb);
        let rb = rb\<lparr>rb_pool := p\<rparr>;
        Some (True, if write_index rb = buffer_size rb - 1
          then rb\<lparr>write_mirror := \<not> write_mirror rb, write_index := 0\<rparr>
          else rb\<lparr>write_index := field15 (write_index rb + 1)\<rparr>)
      })"

definition rt_ringbuffer_putchar_force :: "u8 \<Rightarrow> rt_ringbuffer \<Rightarrow> rt_ringbuffer option" where
  "rt_ringbuffer_putchar_force ch rb = do {
     let full = (rt_ringbuffer_status rb = RT_RINGBUFFER_FULL);
     p \<leftarrow> rb_memcpy (write_index rb) [ch] (rb_pool rb);
     let rb = rb\<lparr>rb_pool := p\<rparr>;
     if write_index rb = buffer_size rb - 1 then do {
       let rb = rb\<lparr>write_mirror := \<not> write_mirror rb, write_index := 0\<rparr>;
       Some (if full then rb\<lparr>read_mirror := \<not> read_mirror rb, read_index := write_index rb\<rparr> else rb)
     }
     else do {
       let rb = rb\<lparr>write_index := field15 (write_index rb + 1)\<rparr>;
       Some (if full then rb\<lparr>read_index := write_index rb\<rparr> else rb)
     }
   }"

definition rt_ringbuffer_getchar :: "rt_ringbuffer \<Rightarrow> (u8 option \<times> rt_ringbuffer) option" where
  "rt_ringbuffer_getchar rb =
     (if rt_ringbuffer_data_len rb = 0 then Some (None, rb)
      else do {
        d \<leftarrow> rb_read (read_index rb) 1 (rb_pool rb);
        Some (Some (hd d), if read_index rb = buffer_size rb - 1
          then rb\<lparr>read_mirror := \<not> read_mirror rb, read_index := 0\<rparr>
          else rb\<lparr>read_index := field15 (read_index rb + 1)\<rparr>)
      })"

definition rt_ringbuffer_reset :: "rt_ringbuffer \<Rightarrow> rt_ringbuffer" where
  "rt_ringbuffer_reset rb = rb\<lparr>read_mirror := False, read_index := 0, write_mirror := False, write_index := 0\<rparr>"

definition rt_ringbuffer_get_size :: "rt_ringbuffer \<Rightarrow> int" where
  "rt_ringbuffer_get_size rb = buffer_size rb mod 2 ^ 16"

text \<open>\<^verbatim>\<open>rt_ringbuffer_create\<close>: the two allocations are the arguments; the length is a 16-bit number that
  \<^verbatim>\<open>rt_ringbuffer_init\<close> takes as a signed one.\<close>

definition rt_ringbuffer_create :: "bool \<Rightarrow> u8 list option \<Rightarrow> int \<Rightarrow> (rt_ringbuffer option) option" where
  "rt_ringbuffer_create struct_mem pool_mem sz = do {
     rt_assert (sz > 0);
     let sz = sz AND NOT (4 - 1);
     if \<not> struct_mem then Some None
     else case pool_mem of
       None \<Rightarrow> Some None
     | Some pool \<Rightarrow> do {
         rb \<leftarrow> rt_ringbuffer_init pool (if sz \<ge> 2 ^ 15 then sz - 2 ^ 16 else sz);
         Some (Some rb)
       }
   }"

section \<open>Virtual positions\<close>

text \<open>With its mirror bit an index is a position on a circle of twice the buffer size. The data are the
  bytes from the read position up to the write position.\<close>

definition rb_size :: "rt_ringbuffer \<Rightarrow> nat" where
  "rb_size rb = nat (buffer_size rb)"

definition vpos :: "bool \<Rightarrow> int \<Rightarrow> nat \<Rightarrow> nat" where
  "vpos m i n = nat i + (if m then n else 0)"

definition rpos :: "rt_ringbuffer \<Rightarrow> nat" where
  "rpos rb = vpos (read_mirror rb) (read_index rb) (rb_size rb)"

definition wpos :: "rt_ringbuffer \<Rightarrow> nat" where
  "wpos rb = vpos (write_mirror rb) (write_index rb) (rb_size rb)"

definition rb_len :: "rt_ringbuffer \<Rightarrow> nat" where
  "rb_len rb = (wpos rb + 2 * rb_size rb - rpos rb) mod (2 * rb_size rb)"

definition rb_ok :: "rt_ringbuffer \<Rightarrow> bool" where
  "rb_ok rb = (0 < buffer_size rb \<and> buffer_size rb < 2 ^ 15 \<and> rb_size rb \<le> length (rb_pool rb) \<and>
     0 \<le> read_index rb \<and> read_index rb < buffer_size rb \<and>
     0 \<le> write_index rb \<and> write_index rb < buffer_size rb \<and> rb_len rb \<le> rb_size rb)"

definition rb_seq :: "rt_ringbuffer \<Rightarrow> u8 list" where
  "rb_seq rb = map (\<lambda>j. rb_pool rb ! ((rpos rb + j) mod rb_size rb)) [0..<rb_len rb]"

lemma circle_diff:
  "w < 2 * n \<Longrightarrow> r < 2 * n \<Longrightarrow> (w + 2 * n - r) mod (2 * n) = (if r \<le> w then w - r else w + 2 * n - r)" for n :: nat
proof (cases "r \<le> w")
  case True
  assume "w < 2 * n" "r < 2 * n"
  have e: "w + 2 * n - r = (w - r) + 2 * n" using True by simp
  have "(w - r + 2 * n) mod (2 * n) = (w - r) mod (2 * n)" by (rule mod_add_self2)
  also have "\<dots> = w - r" using \<open>w < 2 * n\<close> by simp
  finally show ?thesis using True unfolding e by (simp only: if_True)
qed auto

lemma rb_okD:
  assumes "rb_ok rb"
  shows "0 < rb_size rb" "buffer_size rb = int (rb_size rb)" "rb_size rb < 32768"
    "rb_size rb \<le> length (rb_pool rb)" "read_index rb = int (nat (read_index rb))" "nat (read_index rb) < rb_size rb"
    "write_index rb = int (nat (write_index rb))" "nat (write_index rb) < rb_size rb" "rb_len rb \<le> rb_size rb"
    "rpos rb < 2 * rb_size rb" "wpos rb < 2 * rb_size rb"
    "rpos rb mod rb_size rb = nat (read_index rb)" "wpos rb mod rb_size rb = nat (write_index rb)"
  using assms by (auto simp: rb_ok_def rb_size_def vpos_def rpos_def wpos_def)

lemma length_rb_seq [simp]: "length (rb_seq rb) = rb_len rb"
  by (simp add: rb_seq_def)

lemma nth_rb_seq: "j < rb_len rb \<Longrightarrow> rb_seq rb ! j = rb_pool rb ! ((rpos rb + j) mod rb_size rb)"
  by (simp add: rb_seq_def)

text \<open>The case distinctions of the code compute this distance.\<close>

lemma data_len_eq:
  assumes "rb_ok rb"
  shows "rt_ringbuffer_data_len rb = int (rb_len rb)"
proof -
  note d = rb_okD [OF assms]
  have l: "rb_len rb = (if rpos rb \<le> wpos rb then wpos rb - rpos rb else wpos rb + 2 * rb_size rb - rpos rb)"
    unfolding rb_len_def by (rule circle_diff [OF d(11,10)])
  define r w n where "r = nat (read_index rb)" and "w = nat (write_index rb)" and "n = rb_size rb"
  have e: "read_index rb = int r" "write_index rb = int w" "buffer_size rb = int n" "r < n" "w < n" "n < 32768"
    using d by (auto simp: r_def w_def n_def)
  have le: "rb_len rb \<le> n" using d(9) by (simp add: n_def)
  have pos: "rpos rb = r + (if read_mirror rb then n else 0)" "wpos rb = w + (if write_mirror rb then n else 0)"
    by (simp_all add: vpos_def rpos_def wpos_def r_def w_def n_def)
  have "rt_ringbuffer_data_len rb = (if r = w then (if read_mirror rb = write_mirror rb then 0 else int n)
      else if w > r then int w - int r else int n - (int r - int w))"
    using e by (simp add: rt_ringbuffer_data_len_def rt_ringbuffer_status_def)
  then show ?thesis using l le e(4,5) unfolding n_def [symmetric] pos by (auto split: if_splits)
qed

lemma space_len_eq:
  assumes "rb_ok rb"
  shows "rt_ringbuffer_space_len rb = int (rb_size rb - rb_len rb)"
  using rb_okD(2,3,9) [OF assms] by (simp add: rt_ringbuffer_space_len_def data_len_eq [OF assms] of_nat_diff)

text \<open>Stepping an index forward by at most the buffer size.\<close>

definition forward :: "nat \<Rightarrow> bool \<times> int \<Rightarrow> nat \<Rightarrow> bool \<times> int" where
  "forward k mi n = (if int n - snd mi > int k then (fst mi, snd mi + int k) else (\<not> fst mi, int k - (int n - snd mi)))"

lemma forward_vpos:
  assumes "i < n" and "k \<le> n"
  shows "vpos (fst (forward k (m, int i) n)) (snd (forward k (m, int i) n)) n = (vpos m (int i) n + k) mod (2 * n)"
    and "0 \<le> snd (forward k (m, int i) n)" and "snd (forward k (m, int i) n) < int n"
proof -
  show "0 \<le> snd (forward k (m, int i) n)" "snd (forward k (m, int i) n) < int n"
    using assms by (auto simp: forward_def)
  show "vpos (fst (forward k (m, int i) n)) (snd (forward k (m, int i) n)) n = (vpos m (int i) n + k) mod (2 * n)"
  proof (cases "i + k < n")
    case True
    then show ?thesis by (auto simp: forward_def vpos_def nat_add_distrib)
  next
    case False
    have e: "nat (int k - (int n - int i)) = i + k - n" using False by linarith
    have f: "forward k (m, int i) n = (\<not> m, int k - (int n - int i))" using False by (simp add: forward_def)
    have g: "i + n + k = (i + k - n) + 2 * n" using False by simp
    have "(i + n + k) mod (2 * n) = i + k - n" unfolding g using assms by simp
    then show ?thesis using False assms unfolding f by (auto simp: vpos_def e)
  qed
qed

section \<open>Writing and reading along the circle\<close>

lemma memcpy_nth:
  assumes "rb_memcpy (int i) d pool = Some p" and "x < length pool"
  shows "p ! x = (if i \<le> x \<and> x < i + length d then d ! (x - i) else pool ! x)"
  using assms by (auto simp: rb_memcpy_def nth_append min_def split: if_splits)

lemma memcpy_length: "rb_memcpy i d pool = Some p \<Longrightarrow> length p = length pool"
  by (auto simp: rb_memcpy_def split: if_splits)

lemma memcpy_Some: "i + length d \<le> length pool \<Longrightarrow> \<exists>p. rb_memcpy (int i) d pool = Some p"
  by (auto simp: rb_memcpy_def)

text \<open>The pool after writing \<open>d\<close> along the circle from index \<open>i\<close>.\<close>

definition ring_written :: "nat \<Rightarrow> nat \<Rightarrow> u8 list \<Rightarrow> u8 list \<Rightarrow> u8 list \<Rightarrow> bool" where
  "ring_written n i d pool p = (length p = length pool \<and>
     (\<forall>q < n. p ! ((i + q) mod n) = (if q < length d then d ! q else pool ! ((i + q) mod n))))"

lemma ring_mod:
  "i < n \<Longrightarrow> q < n \<Longrightarrow> (i + q) mod n = (if i + q < n then i + q else i + q - n)" for n :: nat
  by (auto simp: mod_if)

lemma store_ok:
  assumes ok: "rb_ok rb" and d: "length d \<le> rb_size rb"
  defines "f \<equiv> forward (length d) (write_mirror rb, write_index rb) (rb_size rb)"
  shows "\<exists>p. rb_store d rb = Some (rb\<lparr>rb_pool := p, write_mirror := fst f, write_index := snd f\<rparr>) \<and>
    ring_written (rb_size rb) (nat (write_index rb)) d (rb_pool rb) p"
proof -
  note o = rb_okD [OF ok]
  define w n where "w = nat (write_index rb)" and "n = rb_size rb"
  have e: "write_index rb = int w" "buffer_size rb = int n" "w < n" "n < 32768" "n \<le> length (rb_pool rb)" "length d \<le> n"
    using o d by (auto simp: w_def n_def)
  have m: "field15 x = x" if "0 \<le> x" "x < int n" for x using that e(4) by (simp add: field15_def)
  show ?thesis
  proof (cases "w + length d < n")
    case True
    obtain p where p: "rb_memcpy (int w) d (rb_pool rb) = Some p" using memcpy_Some [of w d] True e(5) by fastforce
    have "p ! ((w + q) mod n) = (if q < length d then d ! q else rb_pool rb ! ((w + q) mod n))" if "q < n" for q
    proof -
      have x: "(w + q) mod n < length (rb_pool rb)" using e(3,5) by (metis gr_implies_not0 less_le_trans mod_less_divisor not_gr_zero)
      show ?thesis using memcpy_nth [OF p x] that True e(3) by (auto simp: ring_mod)
    qed
    then have "ring_written n w d (rb_pool rb) p" using memcpy_length [OF p] by (simp add: ring_written_def)
    moreover have "rb_store d rb = Some (rb\<lparr>rb_pool := p, write_mirror := fst f, write_index := snd f\<rparr>)"
      using True e p m [of "int w + int (length d)"] by (simp add: rb_store_def f_def forward_def n_def [symmetric])
    ultimately show ?thesis by (auto simp: w_def n_def)
  next
    case False
    let ?k = "n - w"
    have k: "nat (int n - int w) = ?k" "length (take ?k d) = ?k" using False e(3) by auto
    obtain p1 where p1: "rb_memcpy (int w) (take ?k d) (rb_pool rb) = Some p1"
      using memcpy_Some [of w "take ?k d"] k e(3,5) by fastforce
    have l1: "length p1 = length (rb_pool rb)" by (rule memcpy_length [OF p1])
    obtain p where p: "rb_memcpy (int 0) (drop ?k d) p1 = Some p"
      using memcpy_Some [of 0 "drop ?k d" p1] l1 e(3,5,6) by fastforce
    have "p ! ((w + q) mod n) = (if q < length d then d ! q else rb_pool rb ! ((w + q) mod n))" if "q < n" for q
    proof -
      have x: "(w + q) mod n < length (rb_pool rb)" using e(3,5) by (metis gr_implies_not0 less_le_trans mod_less_divisor not_gr_zero)
      have "p ! ((w + q) mod n) = (if (w + q) mod n < length (drop ?k d) then drop ?k d ! ((w + q) mod n) else p1 ! ((w + q) mod n))"
        using memcpy_nth [OF p, of "(w + q) mod n"] x l1 by simp
      moreover have "p1 ! ((w + q) mod n) = (if w \<le> (w + q) mod n \<and> (w + q) mod n < w + ?k then take ?k d ! ((w + q) mod n - w) else rb_pool rb ! ((w + q) mod n))"
        using memcpy_nth [OF p1 x] k(2) by simp
      ultimately show ?thesis using that False e(3,6) by (auto simp: ring_mod)
    qed
    then have "ring_written n w d (rb_pool rb) p" using memcpy_length [OF p] l1 by (simp add: ring_written_def)
    moreover have "rb_store d rb = Some (rb\<lparr>rb_pool := p, write_mirror := fst f, write_index := snd f\<rparr>)"
      using False e p1 p m [of "int (length d) - (int n - int w)"] k(1)
      by (simp add: rb_store_def f_def forward_def n_def [symmetric] Let_def)
    ultimately show ?thesis by (auto simp: w_def n_def)
  qed
qed

lemma wpos_mod:
  assumes "rb_ok rb"
  shows "wpos rb = (rpos rb + rb_len rb) mod (2 * rb_size rb)" and "nat (write_index rb) = (rpos rb + rb_len rb) mod rb_size rb"
proof -
  note o = rb_okD [OF assms]
  have l: "rb_len rb = (if rpos rb \<le> wpos rb then wpos rb - rpos rb else wpos rb + 2 * rb_size rb - rpos rb)"
    unfolding rb_len_def by (rule circle_diff [OF o(11,10)])
  show w: "wpos rb = (rpos rb + rb_len rb) mod (2 * rb_size rb)"
  proof (cases "rpos rb \<le> wpos rb")
    case True
    then show ?thesis using l o(11) by simp
  next
    case False
    then have "rpos rb + rb_len rb = wpos rb + 2 * rb_size rb" using l o(10) by simp
    then show ?thesis using o(11) by simp
  qed
  have "wpos rb mod rb_size rb = (rpos rb + rb_len rb) mod rb_size rb"
    unfolding w by (rule mod_mod_cancel) simp
  then show "nat (write_index rb) = (rpos rb + rb_len rb) mod rb_size rb" using o(13) by simp
qed

text \<open>The length after moving the write or the read position.\<close>

lemma circle_add:
  fixes n :: nat
  assumes "r < 2 * n" and "l + k \<le> n"
  shows "((r + l + k) mod (2 * n) + 2 * n - r) mod (2 * n) = l + k"
proof -
  have lt: "(r + l + k) mod (2 * n) < 2 * n" using assms by simp
  show ?thesis
    unfolding circle_diff [OF lt assms(1)] using assms by (auto simp: mod_if)
qed

lemma circle_sub:
  fixes n :: nat
  assumes "r < 2 * n" and "k \<le> l" and "l \<le> n"
  shows "((r + l) mod (2 * n) + 2 * n - (r + k) mod (2 * n)) mod (2 * n) = l - k"
proof -
  have n: "0 < n" using assms by auto
  have lt: "(r + l) mod (2 * n) < 2 * n" "(r + k) mod (2 * n) < 2 * n" using n by simp_all
  show ?thesis
    unfolding circle_diff [OF lt] using assms n by (auto simp: mod_if)
qed

text \<open>Bytes that still fit.\<close>

lemma ring_append:
  assumes ok: "rb_ok rb" and d: "length d \<le> rb_size rb - rb_len rb"
    and p: "ring_written (rb_size rb) (nat (write_index rb)) d (rb_pool rb) p"
  defines "f \<equiv> forward (length d) (write_mirror rb, write_index rb) (rb_size rb)"
  defines "rb' \<equiv> rb\<lparr>rb_pool := p, write_mirror := fst f, write_index := snd f\<rparr>"
  shows "rb_ok rb'" and "rb_seq rb' = rb_seq rb @ d" and "rb_size rb' = rb_size rb"
proof -
  note o = rb_okD [OF ok]
  define n r l k where "n = rb_size rb" and "r = rpos rb" and "l = rb_len rb" and "k = length d"
  have lk: "l + k \<le> n" and n: "0 < n" "r < 2 * n" using d o by (auto simp: n_def l_def k_def r_def)
  have sz: "rb_size rb' = n" by (simp add: rb'_def rb_size_def n_def)
  have i: "write_index rb = int (nat (write_index rb))" "nat (write_index rb) < n" "k \<le> n" using o lk by (auto simp: n_def)
  note fw = forward_vpos [OF i(2,3), of "write_mirror rb", folded i(1)]
  have wp: "wpos rb' = (r + l + k) mod (2 * n)"
  proof -
    have "wpos rb' = (wpos rb + k) mod (2 * n)"
      using fw(1) sz by (simp add: wpos_def) (simp add: rb'_def f_def n_def k_def)
    then show ?thesis using wpos_mod(1) [OF ok] by (simp add: n_def r_def l_def mod_simps)
  qed
  have rp: "rpos rb' = r" by (simp add: rpos_def rb'_def r_def rb_size_def)
  have len: "rb_len rb' = l + k"
    using circle_add [OF n(2) lk] unfolding rb_len_def wp rp unfolding sz .
  have bs: "buffer_size rb' = int n" using o(2) by (simp add: rb'_def n_def)
  show "rb_ok rb'"
    unfolding rb_ok_def len bs sz
    using ok fw(2,3) p lk n o(2,3) by (auto simp: rb_ok_def rb'_def f_def n_def k_def ring_written_def)
  show "rb_size rb' = rb_size rb" using sz by (simp add: n_def)
  have w: "nat (write_index rb) = (r + l) mod n" using wpos_mod(2) [OF ok] by (simp add: n_def r_def l_def)
  have pool: "p ! ((r + l + q) mod n) = (if q < k then d ! q else rb_pool rb ! ((r + l + q) mod n))" if "q < n" for q
    using p that unfolding ring_written_def w n_def [symmetric] k_def [symmetric] by (simp add: mod_simps)
  show "rb_seq rb' = rb_seq rb @ d"
  proof (rule nth_equalityI)
    show "length (rb_seq rb') = length (rb_seq rb @ d)" by (simp add: len l_def k_def)
    fix j assume "j < length (rb_seq rb')"
    then have j: "j < l + k" by (simp add: len)
    have lhs: "rb_seq rb' ! j = p ! ((r + j) mod n)" using j by (simp add: rb_seq_def len rp sz) (simp add: rb'_def)
    show "rb_seq rb' ! j = (rb_seq rb @ d) ! j"
    proof (cases "j < l")
      case True
      have e: "(r + j) mod n = (r + l + (n - l + j)) mod n"
      proof -
        have eq: "r + l + (n - l + j) = (r + j) + n" using lk by simp
        show ?thesis unfolding eq by (rule mod_add_self2 [symmetric])
      qed
      have q: "n - l + j < n" "\<not> n - l + j < k" using True lk by auto
      have "p ! ((r + j) mod n) = rb_pool rb ! ((r + j) mod n)"
        using pool [OF q(1)] q(2) unfolding e by simp
      then show ?thesis unfolding lhs using True by (simp add: nth_append rb_seq_def l_def n_def r_def)
    next
      case False
      have q: "j - l < n" "j - l < k" "r + l + (j - l) = r + j" using False j lk by auto
      have "p ! ((r + j) mod n) = d ! (j - l)" using pool [OF q(1)] q(2) unfolding q(3) by simp
      then show ?thesis unfolding lhs using False by (simp add: nth_append l_def)
    qed
  qed
qed

text \<open>Moving the read position forward over \<open>k\<close> bytes of data.\<close>

lemma ring_drop:
  assumes ok: "rb_ok rb" and k: "k \<le> rb_len rb"
  defines "f \<equiv> forward k (read_mirror rb, read_index rb) (rb_size rb)"
  defines "rb' \<equiv> rb\<lparr>read_mirror := fst f, read_index := snd f\<rparr>"
  shows "rb_ok rb'" and "rb_seq rb' = drop k (rb_seq rb)" and "rb_size rb' = rb_size rb"
proof -
  note o = rb_okD [OF ok]
  define n r l where "n = rb_size rb" and "r = rpos rb" and "l = rb_len rb"
  have lk: "k \<le> l" "l \<le> n" and n: "0 < n" "r < 2 * n" using k o by (auto simp: n_def l_def r_def)
  have sz: "rb_size rb' = n" by (simp add: rb'_def rb_size_def n_def)
  have i: "read_index rb = int (nat (read_index rb))" "nat (read_index rb) < n" "k \<le> n" using o lk by (auto simp: n_def)
  note fw = forward_vpos [OF i(2,3), of "read_mirror rb", folded i(1)]
  have rp: "rpos rb' = (r + k) mod (2 * n)"
    using fw(1) sz by (simp add: rpos_def r_def) (simp add: rb'_def f_def n_def)
  have "wpos rb' = wpos rb" by (simp add: wpos_def rb'_def rb_size_def)
  then have wp: "wpos rb' = (r + l) mod (2 * n)" using wpos_mod(1) [OF ok] by (simp add: n_def r_def l_def)
  have len: "rb_len rb' = l - k"
    using circle_sub [OF n(2) lk] unfolding rb_len_def wp rp unfolding sz .
  have bs: "buffer_size rb' = int n" using o(2) by (simp add: rb'_def n_def)
  show "rb_ok rb'"
    unfolding rb_ok_def len bs sz
    using ok fw(2,3) lk n o(2,3) by (auto simp: rb_ok_def rb'_def f_def n_def)
  show "rb_size rb' = rb_size rb" using sz by (simp add: n_def)
  show "rb_seq rb' = drop k (rb_seq rb)"
  proof (rule nth_equalityI)
    show "length (rb_seq rb') = length (drop k (rb_seq rb))" by (simp add: len l_def)
    fix j assume "j < length (rb_seq rb')"
    then have j: "j < l - k" by (simp add: len)
    have "((r + k) mod (2 * n) + j) mod n = (r + (k + j)) mod n"
    proof -
      have "(r + k) mod (2 * n) mod n = (r + k) mod n" by (rule mod_mod_cancel) simp
      then show ?thesis by (metis add.assoc mod_add_left_eq)
    qed
    then have "rb_seq rb' ! j = rb_pool rb ! ((r + (k + j)) mod n)"
      using j by (simp add: rb_seq_def len rp sz) (simp add: rb'_def)
    also have "\<dots> = rb_seq rb ! (k + j)" using j by (simp add: nth_rb_seq l_def n_def r_def)
    finally show "rb_seq rb' ! j = drop k (rb_seq rb) ! j" using lk by (simp add: l_def)
  qed
qed

text \<open>More bytes than fit: the oldest data are given up, the buffer is full afterwards.\<close>

lemma ring_overrun:
  assumes ok: "rb_ok rb" and d: "rb_size rb - rb_len rb < length d" "length d \<le> rb_size rb"
    and p: "ring_written (rb_size rb) (nat (write_index rb)) d (rb_pool rb) p"
  defines "f \<equiv> forward (length d) (write_mirror rb, write_index rb) (rb_size rb)"
  defines "rb' \<equiv> rb\<lparr>rb_pool := p, write_mirror := fst f, write_index := snd f, read_mirror := \<not> fst f, read_index := snd f\<rparr>"
  shows "rb_ok rb'" and "rb_seq rb' = drop (rb_len rb + length d - rb_size rb) (rb_seq rb @ d)" and "rb_size rb' = rb_size rb"
proof -
  note o = rb_okD [OF ok]
  define n r l k where "n = rb_size rb" and "r = rpos rb" and "l = rb_len rb" and "k = length d"
  have lk: "n < l + k" "k \<le> n" "l \<le> n" and n: "0 < n" "r < 2 * n" using d o by (auto simp: n_def l_def k_def r_def)
  have sz: "rb_size rb' = n" by (simp add: rb'_def rb_size_def n_def)
  have i: "write_index rb = int (nat (write_index rb))" "nat (write_index rb) < n" "k \<le> n" using o lk by (auto simp: n_def)
  note fw = forward_vpos [OF i(2,3), of "write_mirror rb", folded i(1)]
  have wp: "wpos rb' = (r + l + k) mod (2 * n)"
  proof -
    have "wpos rb' = (wpos rb + k) mod (2 * n)"
      using fw(1) sz by (simp add: wpos_def) (simp add: rb'_def f_def n_def k_def)
    then show ?thesis using wpos_mod(1) [OF ok] by (simp add: n_def r_def l_def mod_simps)
  qed
  have ix: "snd f < int n" "0 \<le> snd f" using fw(2,3) by (auto simp: f_def n_def k_def)
  have pos: "rpos rb' = (if fst f then nat (snd f) else nat (snd f) + n)" "wpos rb' = (if fst f then nat (snd f) + n else nat (snd f))"
    unfolding rpos_def wpos_def sz by (simp_all add: rb'_def vpos_def)
  have len: "rb_len rb' = n"
    unfolding rb_len_def pos sz using ix by (subst circle_diff) auto
  have rm: "rpos rb' mod n = (r + l + k) mod n"
  proof -
    have "rpos rb' mod n = wpos rb' mod n" unfolding pos by simp
    also have "\<dots> = (r + l + k) mod n" unfolding wp by (rule mod_mod_cancel) simp
    finally show ?thesis .
  qed
  have bs: "buffer_size rb' = int n" using o(2) by (simp add: rb'_def n_def)
  show "rb_ok rb'"
    unfolding rb_ok_def len bs sz
    using ok ix p n o(2,3) by (auto simp: rb_ok_def rb'_def n_def ring_written_def)
  show "rb_size rb' = rb_size rb" using sz by (simp add: n_def)
  have w: "nat (write_index rb) = (r + l) mod n" using wpos_mod(2) [OF ok] by (simp add: n_def r_def l_def)
  have pool: "p ! ((r + l + q) mod n) = (if q < k then d ! q else rb_pool rb ! ((r + l + q) mod n))" if "q < n" for q
    using p that unfolding ring_written_def w n_def [symmetric] k_def [symmetric] by (simp add: mod_simps)
  show "rb_seq rb' = drop (rb_len rb + length d - rb_size rb) (rb_seq rb @ d)"
  proof (rule nth_equalityI)
    show "length (rb_seq rb') = length (drop (rb_len rb + length d - rb_size rb) (rb_seq rb @ d))"
      using lk by (simp add: len l_def k_def n_def)
    fix j assume "j < length (rb_seq rb')"
    then have j: "j < n" by (simp add: len)
    have "(rpos rb' + j) mod n = (r + l + (k + j)) mod n" using rm by (metis add.assoc mod_add_left_eq)
    then have lhs: "rb_seq rb' ! j = p ! ((r + l + (k + j)) mod n)" using j by (simp add: rb_seq_def len sz) (simp add: rb'_def)
    have rhs: "drop (rb_len rb + length d - rb_size rb) (rb_seq rb @ d) ! j = (rb_seq rb @ d) ! (l + k - n + j)"
      unfolding l_def k_def n_def by (rule nth_drop) (use lk in \<open>simp add: l_def k_def n_def\<close>)
    show "rb_seq rb' ! j = drop (rb_len rb + length d - rb_size rb) (rb_seq rb @ d) ! j"
    proof (cases "k + j < n")
      case True
      have e: "r + l + (k + j) = (r + (l + k - n + j)) + n" using lk by simp
      have "p ! ((r + l + (k + j)) mod n) = rb_pool rb ! ((r + l + (k + j)) mod n)" using pool [OF True] by simp
      also have "\<dots> = rb_pool rb ! ((r + (l + k - n + j)) mod n)" unfolding e by simp
      also have "\<dots> = (rb_seq rb @ d) ! (l + k - n + j)"
      proof -
        have "l + k - n + j < l" using True lk by linarith
        then show ?thesis unfolding l_def n_def r_def by (simp only: nth_append length_rb_seq nth_rb_seq if_True)
      qed
      finally show ?thesis unfolding lhs rhs .
    next
      case False
      have e: "r + l + (k + j) = r + l + (k + j - n) + n" using False by simp
      have "p ! ((r + l + (k + j)) mod n) = p ! ((r + l + (k + j - n)) mod n)" unfolding e by simp
      also have "\<dots> = d ! (k + j - n)"
      proof -
        have q: "k + j - n < n" "k + j - n < k" using False lk j by linarith+
        show ?thesis using pool [OF q(1)] q(2) by simp
      qed
      also have "\<dots> = (rb_seq rb @ d) ! (l + k - n + j)"
      proof -
        have q: "\<not> l + k - n + j < l" "l + k - n + j - l = k + j - n" using False lk by linarith+
        show ?thesis using q unfolding l_def by (simp only: nth_append length_rb_seq if_False)
      qed
      finally show ?thesis unfolding lhs rhs .
    qed
  qed
qed

section \<open>The operations implement a bounded queue\<close>

lemma put_ok:
  assumes ok: "rb_ok rb"
  shows "\<exists>rb'. rt_ringbuffer_put d rb = Some (int (min (length d) (rb_size rb - rb_len rb)), rb') \<and> rb_ok rb' \<and>
    rb_seq rb' = rb_seq rb @ take (rb_size rb - rb_len rb) d \<and> rb_size rb' = rb_size rb"
proof -
  let ?n = "rb_size rb - rb_len rb"
  note o = rb_okD [OF ok]
  have sp: "rt_ringbuffer_space_len rb mod 2 ^ 16 = int ?n"
    using o(3) by (simp add: space_len_eq [OF ok])
  show ?thesis
  proof (cases "?n = 0")
    case True
    then show ?thesis using sp ok by (simp add: rt_ringbuffer_put_def Let_def)
  next
    case False
    have t: "(if int ?n < int (length d) then take (nat (int ?n)) d else d) = take ?n d" by simp
    have l: "length (take ?n d) \<le> ?n" "length (take ?n d) \<le> rb_size rb" by auto
    obtain p where p: "rb_store (take ?n d) rb = Some (rb\<lparr>rb_pool := p,
        write_mirror := fst (forward (length (take ?n d)) (write_mirror rb, write_index rb) (rb_size rb)),
        write_index := snd (forward (length (take ?n d)) (write_mirror rb, write_index rb) (rb_size rb))\<rparr>)"
      "ring_written (rb_size rb) (nat (write_index rb)) (take ?n d) (rb_pool rb) p"
      using store_ok [OF ok l(2)] by blast
    note ap = ring_append [OF ok l(1) p(2)]
    have "rt_ringbuffer_put d rb = rb_store (take ?n d) rb \<bind> (\<lambda>rb. Some (int (length (take ?n d)), rb))"
      unfolding rt_ringbuffer_put_def Let_def sp t using False by simp
    then show ?thesis using p(1) ap by simp
  qed
qed

lemma overrun_mirror:
  assumes ok: "rb_ok rb" and k: "rb_size rb - rb_len rb < k" "k \<le> rb_size rb"
  defines "f \<equiv> forward k (write_mirror rb, write_index rb) (rb_size rb)"
  shows "(if \<not> (buffer_size rb - write_index rb > int k) \<and> snd f \<le> read_index rb then \<not> read_mirror rb else read_mirror rb) = (\<not> fst f)"
proof -
  note o = rb_okD [OF ok]
  have l: "rb_len rb = (if rpos rb \<le> wpos rb then wpos rb - rpos rb else wpos rb + 2 * rb_size rb - rpos rb)"
    unfolding rb_len_def by (rule circle_diff [OF o(11,10)])
  define r w n where "r = nat (read_index rb)" and "w = nat (write_index rb)" and "n = rb_size rb"
  have e: "read_index rb = int r" "write_index rb = int w" "buffer_size rb = int n" "r < n" "w < n"
    using o by (auto simp: r_def w_def n_def)
  have le: "rb_len rb \<le> n" "n - rb_len rb < k" "k \<le> n" using o(9) k by (simp_all add: n_def)
  have pos: "rpos rb = r + (if read_mirror rb then n else 0)" "wpos rb = w + (if write_mirror rb then n else 0)"
    by (simp_all add: vpos_def rpos_def wpos_def r_def w_def n_def)
  show ?thesis
    using l le e(4,5) unfolding f_def e n_def [symmetric] forward_def pos
    by (cases "read_mirror rb"; cases "write_mirror rb"; cases "w + k < n") (auto split: if_splits)
qed

lemma put_force_ok:
  assumes ok: "rb_ok rb"
  shows "\<exists>rb'. rt_ringbuffer_put_force d rb = Some (int (min (length d) (rb_size rb)), rb') \<and> rb_ok rb' \<and>
    rb_seq rb' = drop (rb_len rb + length d - rb_size rb) (rb_seq rb @ d) \<and> rb_size rb' = rb_size rb"
proof -
  note o = rb_okD [OF ok]
  let ?n = "rb_size rb" and ?l = "rb_len rb"
  let ?e = "drop (length d - ?n) d"
  have sp: "rt_ringbuffer_space_len rb mod 2 ^ 16 = int (?n - ?l)"
    using o(3) by (simp add: space_len_eq [OF ok])
  have cut: "(if int (length d) > buffer_size rb then drop (nat (int (length d) - buffer_size rb)) d else d) = ?e"
    using o(2) by (auto simp: nat_diff_distrib)
  have le: "length ?e = min (length d) ?n" "length ?e \<le> ?n" by auto
  let ?f = "forward (length ?e) (write_mirror rb, write_index rb) ?n"
  obtain p where p: "rb_store ?e rb = Some (rb\<lparr>rb_pool := p, write_mirror := fst ?f, write_index := snd ?f\<rparr>)"
    "ring_written ?n (nat (write_index rb)) ?e (rb_pool rb) p"
    using store_ok [OF ok le(2)] by blast
  have dr: "drop (?l + length ?e - ?n) (rb_seq rb @ ?e) = drop (?l + length d - ?n) (rb_seq rb @ d)"
  proof (cases "length d \<le> ?n")
    case False
    then have "length ?e = ?n" "?l + length d - ?n = ?l + (length d - ?n)" by auto
    then show ?thesis by (simp del: length_drop)
  qed simp
  show ?thesis
  proof (cases "length ?e > ?n - ?l")
    case True
    note ov = ring_overrun [OF ok True le(2) p(2)] and om = overrun_mirror [OF ok True le(2)]
    let ?rb = "rb\<lparr>rb_pool := p, write_mirror := fst ?f, write_index := snd ?f, read_mirror := \<not> fst ?f, read_index := snd ?f\<rparr>"
    have "rt_ringbuffer_put_force d rb = Some (int (length ?e), ?rb)"
      unfolding rt_ringbuffer_put_force_def Let_def sp cut p(1)
      using True om by (cases rb) (auto simp del: length_drop split: if_splits)
    then show ?thesis using ov unfolding dr by (simp add: le(1) del: length_drop)
  next
    case False
    then have fit: "length ?e \<le> ?n - ?l" by simp
    note ap = ring_append [OF ok fit p(2)]
    have "rt_ringbuffer_put_force d rb = Some (int (length ?e), rb\<lparr>rb_pool := p, write_mirror := fst ?f, write_index := snd ?f\<rparr>)"
      unfolding rt_ringbuffer_put_force_def Let_def sp cut p(1)
      using False by (simp del: length_drop)
    moreover have "rb_seq rb @ ?e = drop (?l + length d - ?n) (rb_seq rb @ d)"
    proof -
      have "?l + length ?e - ?n = 0" using fit o(9) by linarith
      then show ?thesis unfolding dr [symmetric] by simp
    qed
    ultimately show ?thesis using ap by (simp add: le(1) del: length_drop drop_append)
  qed
qed

text \<open>Reading from the circle.\<close>

lemma take_rb_seq:
  assumes ok: "rb_ok rb" and k: "k \<le> rb_len rb"
  defines "r \<equiv> nat (read_index rb)" and "n \<equiv> rb_size rb"
  shows "take k (rb_seq rb) =
    (if r + k < n then take k (drop r (rb_pool rb)) else take (n - r) (drop r (rb_pool rb)) @ take (k - (n - r)) (rb_pool rb))"
proof (rule nth_equalityI)
  note o = rb_okD [OF ok]
  have b: "r < n" "n \<le> length (rb_pool rb)" "k \<le> n" using o k by (auto simp: r_def n_def)
  show "length (take k (rb_seq rb)) =
      length (if r + k < n then take k (drop r (rb_pool rb)) else take (n - r) (drop r (rb_pool rb)) @ take (k - (n - r)) (rb_pool rb))"
    using b k by auto
  fix j assume "j < length (take k (rb_seq rb))"
  then have j: "j < k" "j < rb_len rb" "j < n" using k b by auto
  have "(rpos rb + j) mod n = (r + j) mod n"
    using o(12) unfolding n_def r_def by (metis mod_add_left_eq)
  then have "rb_seq rb ! j = rb_pool rb ! (if r + j < n then r + j else r + j - n)"
    using j b(1) by (simp add: nth_rb_seq n_def [symmetric] ring_mod)
  then show "take k (rb_seq rb) ! j =
      (if r + k < n then take k (drop r (rb_pool rb)) else take (n - r) (drop r (rb_pool rb)) @ take (k - (n - r)) (rb_pool rb)) ! j"
    using j b by (auto simp: nth_append add.commute)
qed

lemma get_ok:
  assumes ok: "rb_ok rb" and k: "0 \<le> k"
  shows "\<exists>rb'. rt_ringbuffer_get k rb = Some (take (nat k) (rb_seq rb), rb') \<and> rb_ok rb' \<and>
    rb_seq rb' = drop (nat k) (rb_seq rb) \<and> rb_size rb' = rb_size rb"
proof (cases "rb_len rb = 0")
  case True
  then show ?thesis
    using ok data_len_eq [OF ok] by (simp add: rt_ringbuffer_get_def Let_def rb_seq_def)
next
  case False
  note o = rb_okD [OF ok]
  define m where "m = min (nat k) (rb_len rb)"
  have m: "(if int (rb_len rb) < k then int (rb_len rb) mod 2 ^ 16 else k) = int m" "m \<le> rb_len rb"
    using o(3,9) k by (auto simp: m_def)
  let ?f = "forward m (read_mirror rb, read_index rb) (rb_size rb)"
  note dr = ring_drop [OF ok m(2)] and tk = take_rb_seq [OF ok m(2)]
  have seqs: "take (nat k) (rb_seq rb) = take m (rb_seq rb)" "drop (nat k) (rb_seq rb) = drop m (rb_seq rb)"
    by (auto simp: m_def min_def)
  have "rt_ringbuffer_get k rb = Some (take m (rb_seq rb), rb\<lparr>read_mirror := fst ?f, read_index := snd ?f\<rparr>)"
  proof -
    define r n where "r = nat (read_index rb)" and "n = rb_size rb"
    have e: "read_index rb = int r" "buffer_size rb = int n" "r < n" "n < 32768" "n \<le> length (rb_pool rb)" "m \<le> n"
      using o m(2) by (auto simp: r_def n_def)
    have f15: "field15 x = x" if "0 \<le> x" "x < int n" for x using that e(4) by (simp add: field15_def)
    show ?thesis
    proof (cases "r + m < n")
      case True
      then have "rb_read (int r) (int m) (rb_pool rb) = Some (take m (drop r (rb_pool rb)))"
        using e(5) by (auto simp: rb_read_def)
      then show ?thesis
        using True False e tk f15 [of "int r + int m"] m(1)
        by (simp add: rt_ringbuffer_get_def Let_def data_len_eq [OF ok] forward_def n_def [symmetric])
    next
      case wrap: False
      have "rb_read (int r) (int n - int r) (rb_pool rb) = Some (take (n - r) (drop r (rb_pool rb)))"
        "rb_read 0 (int m - (int n - int r)) (rb_pool rb) = Some (take (m - (n - r)) (rb_pool rb))"
        using wrap e(3,5,6) by (auto simp: rb_read_def nat_diff_distrib)
      then show ?thesis
        using wrap False e tk f15 [of "int m - (int n - int r)"] m(1)
        by (simp add: rt_ringbuffer_get_def Let_def data_len_eq [OF ok] forward_def n_def [symmetric])
    qed
  qed
  then show ?thesis using dr seqs by auto
qed

section \<open>The single-byte operations\<close>

lemma rb_store_byte:
  assumes ok: "rb_ok rb"
  shows "rb_store [ch] rb = do {
    p \<leftarrow> rb_memcpy (write_index rb) [ch] (rb_pool rb);
    Some (rb\<lparr>rb_pool := p,
      write_mirror := (if write_index rb = buffer_size rb - 1 then \<not> write_mirror rb else write_mirror rb),
      write_index := (if write_index rb = buffer_size rb - 1 then 0 else write_index rb + 1)\<rparr>)
  }"
proof -
  note o = rb_okD [OF ok]
  define w n where "w = nat (write_index rb)" and "n = rb_size rb"
  have e: "write_index rb = int w" "buffer_size rb = int n" "w < n" "n < 32768" using o by (auto simp: w_def n_def)
  have z: "rb_memcpy 0 [] q = Some q" for q by (simp add: rb_memcpy_def)
  show ?thesis
  proof (cases "w + 1 < n")
    case True
    then show ?thesis using e by (simp add: rb_store_def field15_def)
  next
    case False
    then have "n = w + 1" using e(3) by simp
    then show ?thesis using e by (simp add: rb_store_def field15_def z)
  qed
qed

lemma putchar_store:
  assumes ok: "rb_ok rb" and room: "rb_len rb < rb_size rb"
  shows "rt_ringbuffer_putchar ch rb = rb_store [ch] rb \<bind> (\<lambda>rb. Some (True, rb))"
proof -
  note o = rb_okD [OF ok]
  have "rt_ringbuffer_space_len rb \<noteq> 0" using space_len_eq [OF ok] room by simp
  moreover have "field15 (write_index rb + 1) = write_index rb + 1" if "write_index rb \<noteq> buffer_size rb - 1"
    using that ok by (simp add: field15_def rb_ok_def)
  ultimately show ?thesis
    by (simp add: rt_ringbuffer_putchar_def rb_store_byte [OF ok] bind_assoc)
qed

lemma status_full:
  assumes ok: "rb_ok rb"
  shows "rt_ringbuffer_status rb = RT_RINGBUFFER_FULL \<longleftrightarrow> rb_len rb = rb_size rb"
    and "rt_ringbuffer_status rb = RT_RINGBUFFER_FULL \<Longrightarrow> read_index rb = write_index rb"
    and "rt_ringbuffer_status rb = RT_RINGBUFFER_FULL \<Longrightarrow> read_mirror rb = (\<not> write_mirror rb)"
  using data_len_eq [OF ok] ok
  by (auto simp: rt_ringbuffer_data_len_def rt_ringbuffer_status_def rb_ok_def rb_size_def split: if_splits)

lemma putchar_force_eq:
  assumes ok: "rb_ok rb"
  shows "rt_ringbuffer_put_force [ch] rb = rt_ringbuffer_putchar_force ch rb \<bind> (\<lambda>rb. Some (1, rb))"
proof -
  note o = rb_okD [OF ok] and st = status_full [OF ok]
  have sp: "rt_ringbuffer_space_len rb mod 2 ^ 16 = int (rb_size rb - rb_len rb)"
    using o(3) by (simp add: space_len_eq [OF ok])
  have full: "1 > rt_ringbuffer_space_len rb mod 2 ^ 16 \<longleftrightarrow> rt_ringbuffer_status rb = RT_RINGBUFFER_FULL"
    using sp st(1) o(9) by auto
  have len: "\<not> 1 > buffer_size rb" using o(1,2) by simp
  have wrap: "\<not> buffer_size rb - write_index rb > 1 \<longleftrightarrow> write_index rb = buffer_size rb - 1"
    and f: "write_index rb \<noteq> buffer_size rb - 1 \<Longrightarrow> field15 (write_index rb + 1) = write_index rb + 1"
    using ok by (auto simp: rb_ok_def field15_def)
  have put: "rt_ringbuffer_put_force [ch] rb = rb_store [ch] rb \<bind> (\<lambda>rb'. Some (1,
      if rt_ringbuffer_status rb = RT_RINGBUFFER_FULL
      then rb'\<lparr>read_mirror := (if write_index rb = buffer_size rb - 1 \<and> write_index rb' \<le> read_index rb' then \<not> read_mirror rb' else read_mirror rb'),
               read_index := write_index rb'\<rparr>
      else rb'))"
    unfolding rt_ringbuffer_put_force_def Let_def using full len wrap
    by (cases "rt_ringbuffer_status rb = RT_RINGBUFFER_FULL") simp_all
  show ?thesis
    unfolding put rb_store_byte [OF ok] rt_ringbuffer_putchar_force_def Let_def
    using st(2) f ok
    by (cases "rb_memcpy (write_index rb) [ch] (rb_pool rb)";
        cases "write_index rb = buffer_size rb - 1"; cases "rt_ringbuffer_status rb = RT_RINGBUFFER_FULL")
      (simp_all add: rb_ok_def)
qed

lemma getchar_eq:
  assumes ok: "rb_ok rb"
  shows "rt_ringbuffer_getchar rb =
    rt_ringbuffer_get 1 rb \<bind> (\<lambda>(d, rb). Some (case d of [] \<Rightarrow> None | x # _ \<Rightarrow> Some x, rb))"
proof -
  note o = rb_okD [OF ok] and dl = data_len_eq [OF ok]
  define r n where "r = nat (read_index rb)" and "n = rb_size rb"
  have e: "read_index rb = int r" "buffer_size rb = int n" "r < n" "n < 32768" "r + 1 \<le> length (rb_pool rb)"
    using o by (auto simp: r_def n_def)
  then obtain x where x: "take 1 (drop r (rb_pool rb)) = [x]" by (cases "drop r (rb_pool rb)") auto
  have r: "rb_read (int r) 1 (rb_pool rb) = Some [x]" using e(5) x by (simp add: rb_read_def)
  have z: "rb_read 0 0 q = Some []" for q by (simp add: rb_read_def)
  show ?thesis
  proof (cases "rb_len rb = 0")
    case True
    then show ?thesis using dl by (simp add: rt_ringbuffer_getchar_def rt_ringbuffer_get_def)
  next
    case False
    then have d: "\<not> rt_ringbuffer_data_len rb < 1" "rt_ringbuffer_data_len rb \<noteq> 0" using dl by auto
    show ?thesis
    proof (cases "r + 1 < n")
      case True
      then show ?thesis using d e(1-4) r by (simp add: rt_ringbuffer_getchar_def rt_ringbuffer_get_def Let_def field15_def)
    next
      case wrap: False
      then have "n = r + 1" using e(3) by simp
      then show ?thesis using d e(1-4) r by (simp add: rt_ringbuffer_getchar_def rt_ringbuffer_get_def Let_def field15_def z)
    qed
  qed
qed

lemma peek_ok:
  assumes ok: "rb_ok rb"
  defines "m \<equiv> min (rb_len rb) (rb_size rb - nat (read_index rb))"
  shows "\<exists>rb'. rt_ringbuffer_peek rb = ((int m, if m = 0 then None else Some (read_index rb)), rb') \<and> rb_ok rb' \<and>
    rb_seq rb = take m (drop (nat (read_index rb)) (rb_pool rb)) @ rb_seq rb' \<and> rb_size rb' = rb_size rb"
proof (cases "rb_len rb = 0")
  case True
  then show ?thesis
    using ok data_len_eq [OF ok] by (simp add: rt_ringbuffer_peek_def m_def rb_seq_def)
next
  case False
  note o = rb_okD [OF ok]
  have m: "m \<le> rb_len rb" "0 < m" using False o(6) by (auto simp: m_def)
  let ?f = "forward m (read_mirror rb, read_index rb) (rb_size rb)"
  note dr = ring_drop [OF ok m(1)]
  define r n where "r = nat (read_index rb)" and "n = rb_size rb"
  have e: "read_index rb = int r" "buffer_size rb = int n" "r < n" "n < 32768" using o by (auto simp: r_def n_def)
  have "take m (rb_seq rb) = take m (drop r (rb_pool rb))"
    using take_rb_seq [OF ok m(1)] e(3) by (auto simp: m_def r_def n_def)
  then have "rb_seq rb = take m (drop r (rb_pool rb)) @ drop m (rb_seq rb)" by (metis append_take_drop_id)
  moreover have "rt_ringbuffer_peek rb = ((int m, Some (read_index rb)), rb\<lparr>read_mirror := fst ?f, read_index := snd ?f\<rparr>)"
  proof (cases "rb_len rb < n - r")
    case True
    then have "m = rb_len rb" by (simp add: m_def r_def n_def)
    then show ?thesis
      using True False e by (simp add: rt_ringbuffer_peek_def data_len_eq [OF ok] forward_def n_def [symmetric] field15_def Let_def)
  next
    case wrap: False
    then have "m = n - r" by (simp add: m_def r_def n_def)
    then show ?thesis
      using wrap False e by (simp add: rt_ringbuffer_peek_def data_len_eq [OF ok] forward_def n_def [symmetric] Let_def)
  qed
  ultimately show ?thesis using dr m(2) by (auto simp: r_def)
qed

interpretation ring: bounded_fifo rb_ok rb_seq rb_size "\<lambda>_. True" rt_ringbuffer_putchar rt_ringbuffer_getchar
proof
  fix rb :: rt_ringbuffer and x :: u8 and xs :: "u8 list"
  assume ok: "rb_ok rb"
  note o = rb_okD [OF ok]
  show "length (rb_seq rb) \<le> rb_size rb" using o(9) by simp
  show "\<exists>rb'. rt_ringbuffer_putchar x rb = Some (True, rb') \<and> rb_ok rb' \<and> rb_seq rb' = rb_seq rb @ [x] \<and> rb_size rb' = rb_size rb"
    if "length (rb_seq rb) < rb_size rb"
  proof -
    have l: "rb_len rb < rb_size rb" "length [x] \<le> rb_size rb - rb_len rb" "length [x] \<le> rb_size rb" using that by auto
    obtain p where p: "rb_store [x] rb = Some (rb\<lparr>rb_pool := p,
        write_mirror := fst (forward (length [x]) (write_mirror rb, write_index rb) (rb_size rb)),
        write_index := snd (forward (length [x]) (write_mirror rb, write_index rb) (rb_size rb))\<rparr>)"
      "ring_written (rb_size rb) (nat (write_index rb)) [x] (rb_pool rb) p"
      using store_ok [OF ok l(3)] by blast
    then show ?thesis using ring_append [OF ok l(2) p(2)] putchar_store [OF ok l(1)] by simp
  qed
  show "rt_ringbuffer_putchar x rb = Some (False, rb)" if "length (rb_seq rb) = rb_size rb"
    using that space_len_eq [OF ok] by (simp add: rt_ringbuffer_putchar_def)
  show "\<exists>rb'. rt_ringbuffer_getchar rb = Some (Some x, rb') \<and> rb_ok rb' \<and> rb_seq rb' = xs \<and> rb_size rb' = rb_size rb"
    if "rb_seq rb = x # xs"
    using get_ok [OF ok, of 1] that getchar_eq [OF ok] by auto
  show "rt_ringbuffer_getchar rb = Some (None, rb)" if "rb_seq rb = []"
    using that data_len_eq [OF ok] length_rb_seq [of rb] by (simp add: rt_ringbuffer_getchar_def)
qed

section \<open>Initialisation\<close>

lemma align_down_4: "(x :: int) AND - 4 = x - x mod 4"
proof -
  have "x AND NOT (mask 2) = push_bit 2 (drop_bit 2 x)"
    by (rule bit_eqI) (auto simp: bit_simps not_less simp flip: Suc_diff_le elim!: le_Suc_ex [elim_format])
  moreover have "NOT (mask 2 :: int) = - 4" by (simp add: minus_exp_eq_not_mask [symmetric])
  ultimately have "x AND - 4 = x div 4 * 4" by (simp add: push_bit_eq_mult drop_bit_eq_div)
  then show ?thesis by (simp add: minus_mod_eq_div_mult)
qed

lemma init_ok:
  assumes "4 \<le> sz" "sz < 2 ^ 15" "nat sz \<le> length pool"
  shows "\<exists>rb. rt_ringbuffer_init pool sz = Some rb \<and> rb_ok rb \<and> rb_seq rb = [] \<and> int (rb_size rb) = sz - sz mod 4"
proof -
  have "0 < sz - sz mod 4" using assms(1) by presburger
  moreover have "sz - sz mod 4 \<le> sz" using assms(1) by simp
  moreover have "sz - sz mod 4 < 2 ^ 15" "sz - sz mod 4 \<le> int (length pool)"
    using calculation(2) assms by linarith+
  ultimately show ?thesis using assms
    by (simp add: rt_ringbuffer_init_def align_down_4 rb_ok_def rb_size_def rb_seq_def rb_len_def rpos_def wpos_def vpos_def
        nat_le_iff)
qed

lemma reset_ok:
  assumes "rb_ok rb"
  shows "rb_ok (rt_ringbuffer_reset rb)" "rb_seq (rt_ringbuffer_reset rb) = []" "rb_size (rt_ringbuffer_reset rb) = rb_size rb"
  using assms by (auto simp: rt_ringbuffer_reset_def rb_ok_def rb_size_def rb_seq_def rb_len_def rpos_def wpos_def vpos_def)

definition demo_ring :: rt_ringbuffer where
  "demo_ring = \<lparr>rb_pool = [30, 40, 10, 20], read_mirror = False, read_index = 2, write_mirror = True, write_index = 1,
     buffer_size = 4\<rparr>"

lemma demo_ring_ok: "rb_ok demo_ring" "rb_seq demo_ring = [10, 20, 30]" "rb_len demo_ring = 3" "rb_size demo_ring = 4"
  by (simp_all add: demo_ring_def rb_ok_def rb_seq_def rb_len_def rb_size_def rpos_def wpos_def vpos_def upt_rec)

text \<open>What becomes of a buffer whose size was rounded down to 0.\<close>

definition tiny_ring :: "u8 list \<Rightarrow> u8 list \<Rightarrow> rt_ringbuffer" where
  "tiny_ring d pool = \<lparr>rb_pool = d @ drop (length d) pool, read_mirror = False, read_index = 0, write_mirror = False,
     write_index = int (length d), buffer_size = 0\<rparr>"

lemma tiny_ring_space: "rt_ringbuffer_space_len (tiny_ring [] pool) = 0"
  by (simp add: tiny_ring_def rt_ringbuffer_space_len_def rt_ringbuffer_data_len_def rt_ringbuffer_status_def)

lemma tiny_ring_step:
  assumes "length d < length pool" "length pool < 2 ^ 15"
  shows "rt_ringbuffer_putchar_force ch (tiny_ring d pool) = Some (tiny_ring (d @ [ch]) pool)"
  using assms
  by (simp add: rt_ringbuffer_putchar_force_def tiny_ring_def rt_ringbuffer_status_def rb_memcpy_def field15_def)

lemma tiny_ring_end:
  assumes "length d = length pool"
  shows "rt_ringbuffer_putchar_force ch (tiny_ring d pool) = None"
  using assms by (simp add: rt_ringbuffer_putchar_force_def tiny_ring_def rb_memcpy_def)

lemma tiny_ring_fill:
  assumes "length pool < 2 ^ 15"
  shows "foldl (\<lambda>r ch. r \<bind> rt_ringbuffer_putchar_force ch) (Some (tiny_ring [] pool)) d =
    (if length d \<le> length pool then Some (tiny_ring d pool) else None)"
proof (induction d rule: rev_induct)
  case (snoc x d)
  consider "length d < length pool" | "length d = length pool" | "length d > length pool" by linarith
  then show ?case by cases (use snoc tiny_ring_step [OF _ assms] tiny_ring_end in auto)
qed simp

section \<open>Properties\<close>

text \<open>C31. The ring buffer is a bounded queue of bytes: \<^verbatim>\<open>rt_ringbuffer_put\<close> appends the longest prefix of the
  block that fits and returns its length, \<^verbatim>\<open>rt_ringbuffer_get\<close> removes the oldest bytes and returns them in
  order; both keep the invariant and stay inside the pool, also across the end of the pool.\<close>

theorem ringbuffer_put_get:
  assumes "rb_ok rb" and "0 \<le> k"
  shows "(\<exists>rb'. rt_ringbuffer_put d rb = Some (int (min (length d) (rb_size rb - length (rb_seq rb))), rb') \<and> rb_ok rb' \<and>
      rb_seq rb' = rb_seq rb @ take (rb_size rb - length (rb_seq rb)) d \<and> rb_size rb' = rb_size rb) \<and>
    (\<exists>rb'. rt_ringbuffer_get k rb = Some (take (nat k) (rb_seq rb), rb') \<and> rb_ok rb' \<and>
      rb_seq rb' = drop (nat k) (rb_seq rb) \<and> rb_size rb' = rb_size rb)"
  using put_ok [OF assms(1), of d] get_ok [OF assms] by (simp_all add: min.commute)

theorem ringbuffer_put_get_witness:
  "(\<exists>rb'. rt_ringbuffer_put [7, 8, 9] demo_ring = Some (1, rb') \<and> rb_seq rb' = [10, 20, 30, 7]) \<and>
   (\<exists>rb'. rt_ringbuffer_get 2 demo_ring = Some ([10, 20], rb') \<and> rb_seq rb' = [30])"
  using ringbuffer_put_get [OF demo_ring_ok(1), of 2 "[7, 8, 9]"]
  by (auto simp: demo_ring_ok)

text \<open>\<^verbatim>\<open>rt_ringbuffer_put_force\<close> never refuses: the buffer ends with the newest bytes of its old content
  followed by the block, as many as it holds, and the result is how many bytes of the block it took.\<close>

theorem ringbuffer_put_force_keeps_newest:
  assumes "rb_ok rb"
  shows "\<exists>rb'. rt_ringbuffer_put_force d rb = Some (int (min (length d) (rb_size rb)), rb') \<and> rb_ok rb' \<and>
    rb_seq rb' = drop (length (rb_seq rb @ d) - rb_size rb) (rb_seq rb @ d) \<and> rb_size rb' = rb_size rb"
  using put_force_ok [OF assms, of d] by simp

theorem ringbuffer_put_force_keeps_newest_witness:
  "\<exists>rb'. rt_ringbuffer_put_force [7, 8, 9] demo_ring = Some (3, rb') \<and> rb_seq rb' = [30, 7, 8, 9]"
  using ringbuffer_put_force_keeps_newest [OF demo_ring_ok(1), of "[7, 8, 9]"] by (auto simp: demo_ring_ok)

text \<open>Any interleaving of \<^verbatim>\<open>rt_ringbuffer_putchar\<close> and \<^verbatim>\<open>rt_ringbuffer_getchar\<close> runs without leaving the pool,
  and the bytes read followed by the bytes left are the bytes that were in the buffer followed by the bytes
  accepted: nothing is lost, repeated or reordered.\<close>

theorem ringbuffer_streams_bytes:
  assumes "rb_ok rb"
  shows "\<exists>ins outs rb'. fifo_run rt_ringbuffer_putchar rt_ringbuffer_getchar cs rb = Some (ins, outs, rb') \<and> rb_ok rb' \<and>
    rb_size rb' = rb_size rb \<and> rb_seq rb @ ins = outs @ rb_seq rb'"
  using ring.stream [OF assms] by blast

theorem ringbuffer_streams_bytes_witness:
  "\<exists>ins outs rb'. fifo_run rt_ringbuffer_putchar rt_ringbuffer_getchar [Some 1, Some 2, None, None] demo_ring =
     Some (ins, outs, rb') \<and> [10, 20, 30] @ ins = outs @ rb_seq rb'"
  using ringbuffer_streams_bytes [OF demo_ring_ok(1), of "[Some 1, Some 2, None, None]"] by (auto simp: demo_ring_ok)

text \<open>The single-byte routines are the block routines at length one: \<^verbatim>\<open>rt_ringbuffer_putchar_force\<close> has the
  effect of \<^verbatim>\<open>rt_ringbuffer_put_force\<close>, \<^verbatim>\<open>rt_ringbuffer_getchar\<close> that of \<^verbatim>\<open>rt_ringbuffer_get\<close>, although they
  compute the mirror bits in their own way.\<close>

theorem ringbuffer_byte_is_block:
  assumes "rb_ok rb"
  shows "rt_ringbuffer_put_force [ch] rb = rt_ringbuffer_putchar_force ch rb \<bind> (\<lambda>rb. Some (1, rb)) \<and>
    rt_ringbuffer_getchar rb =
      rt_ringbuffer_get 1 rb \<bind> (\<lambda>(d, rb). Some (case d of [] \<Rightarrow> None | x # _ \<Rightarrow> Some x, rb))"
  using putchar_force_eq [OF assms] getchar_eq [OF assms] by blast

theorem ringbuffer_byte_is_block_witness:
  "rt_ringbuffer_put_force [9] demo_ring = rt_ringbuffer_putchar_force 9 demo_ring \<bind> (\<lambda>rb. Some (1, rb)) \<and>
   map_option fst (rt_ringbuffer_getchar demo_ring) = Some (Some 10)"
proof
  show "rt_ringbuffer_put_force [9] demo_ring = rt_ringbuffer_putchar_force 9 demo_ring \<bind> (\<lambda>rb. Some (1, rb))"
    using ringbuffer_byte_is_block [OF demo_ring_ok(1)] by blast
  show "map_option fst (rt_ringbuffer_getchar demo_ring) = Some (Some 10)"
    by (simp add: rt_ringbuffer_getchar_def rt_ringbuffer_data_len_def rt_ringbuffer_status_def demo_ring_def rb_read_def)
qed

text \<open>\<^verbatim>\<open>rt_ringbuffer_peek\<close> hands out the longest stretch of the oldest bytes that is contiguous in the
  pool: the stretch lies inside the pool and the rest of the data stays in order behind it.\<close>

theorem ringbuffer_peek_contiguous:
  assumes "rb_ok rb"
  shows "\<exists>m p rb'. rt_ringbuffer_peek rb = ((int m, p), rb') \<and> rb_ok rb' \<and>
    m = min (length (rb_seq rb)) (rb_size rb - nat (read_index rb)) \<and>
    nat (read_index rb) + m \<le> length (rb_pool rb) \<and>
    (p = None \<longleftrightarrow> rb_seq rb = []) \<and> (\<forall>i. p = Some i \<longrightarrow> i = read_index rb) \<and>
    rb_seq rb = take m (drop (nat (read_index rb)) (rb_pool rb)) @ rb_seq rb'"
proof -
  note o = rb_okD [OF assms]
  let ?m = "min (rb_len rb) (rb_size rb - nat (read_index rb))"
  have "?m = 0 \<longleftrightarrow> rb_len rb = 0" using o(6) by linarith
  then have "?m = 0 \<longleftrightarrow> rb_seq rb = []" using length_rb_seq [of rb] by (metis length_0_conv)
  moreover have "nat (read_index rb) + ?m \<le> length (rb_pool rb)" using o(4,6) by linarith
  ultimately show ?thesis using peek_ok [OF assms] by (auto split: if_splits)
qed

theorem ringbuffer_peek_contiguous_witness:
  "\<exists>rb'. rt_ringbuffer_peek demo_ring = ((2, Some 2), rb') \<and> [10, 20, 30] = [10, 20] @ rb_seq rb'"
proof -
  obtain m p rb' where "rt_ringbuffer_peek demo_ring = ((int m, p), rb')" "m = min 3 2"
    "p \<noteq> None" "\<forall>i. p = Some i \<longrightarrow> i = 2" "[10, 20, 30] = take m [10, 20] @ rb_seq rb'"
    using ringbuffer_peek_contiguous [OF demo_ring_ok(1)] demo_ring_ok(2-4) by (auto simp: demo_ring_def)
  then show ?thesis by auto
qed

text \<open>A round trip from a fresh buffer: after \<^verbatim>\<open>rt_ringbuffer_init\<close> on a pool of 4 to 32767 bytes, a block of
  at most the rounded-down size comes back unchanged from a put followed by a get, and the buffer is empty
  again.\<close>

theorem ringbuffer_roundtrip:
  assumes "4 \<le> sz" "sz < 2 ^ 15" "nat sz \<le> length pool" "int (length d) \<le> sz - sz mod 4"
  shows "\<exists>rb rb1 rb2. rt_ringbuffer_init pool sz = Some rb \<and> rt_ringbuffer_get_size rb = sz - sz mod 4 \<and>
    rt_ringbuffer_put d rb = Some (int (length d), rb1) \<and> rt_ringbuffer_data_len rb1 = int (length d) \<and>
    rt_ringbuffer_get (int (length d)) rb1 = Some (d, rb2) \<and> rt_ringbuffer_data_len rb2 = 0"
proof -
  obtain rb where i: "rt_ringbuffer_init pool sz = Some rb" "rb_ok rb" "rb_seq rb = []" "int (rb_size rb) = sz - sz mod 4"
    using init_ok [OF assms(1-3)] by blast
  have z: "rb_len rb = 0" "length d \<le> rb_size rb" using length_rb_seq [of rb] i(3,4) assms(4) by auto
  obtain rb1 where p: "rt_ringbuffer_put d rb = Some (int (length d), rb1)" "rb_ok rb1" "rb_seq rb1 = d"
    using put_ok [OF i(2), of d] z i(3) by auto
  obtain rb2 where g: "rt_ringbuffer_get (int (length d)) rb1 = Some (d, rb2)" "rb_ok rb2" "rb_seq rb2 = []"
    using get_ok [OF p(2), of "int (length d)"] p(3) by auto
  have "rt_ringbuffer_get_size rb = sz - sz mod 4"
    using rb_okD(2,3) [OF i(2)] i(4) by (simp add: rt_ringbuffer_get_size_def)
  then show ?thesis
    using i(1) p g data_len_eq [OF p(2)] data_len_eq [OF g(2)] length_rb_seq [of rb1] length_rb_seq [of rb2] by simp
qed

theorem ringbuffer_roundtrip_witness:
  "\<exists>rb rb1 rb2. rt_ringbuffer_init (replicate 7 0) 7 = Some rb \<and> rt_ringbuffer_put [1, 2, 3, 4] rb = Some (4, rb1) \<and>
     rt_ringbuffer_get 4 rb1 = Some ([1, 2, 3, 4], rb2)"
  using ringbuffer_roundtrip [of 7 "replicate 7 0" "[1, 2, 3, 4]"] by auto

text \<open>A pool of fewer than four bytes is accepted and rounded to size 0. Such a buffer reports no space,
  yet \<^verbatim>\<open>rt_ringbuffer_putchar_force\<close> does not notice: each call writes one byte further, and the call after
  the last byte of the pool writes behind it.\<close>

theorem tiny_ringbuffer_overruns:
  assumes "0 < sz" "sz < 4" "length pool < 2 ^ 15"
  shows "\<exists>rb. rt_ringbuffer_init pool sz = Some rb \<and> rt_ringbuffer_space_len rb = 0 \<and>
    (foldl (\<lambda>r ch. r \<bind> rt_ringbuffer_putchar_force ch) (Some rb) d = None \<longleftrightarrow> length d > length pool)"
proof -
  have "sz mod 4 = sz" using assms(1,2) by simp
  then have i: "rt_ringbuffer_init pool sz = Some (tiny_ring [] pool)"
    using assms(1) by (simp add: rt_ringbuffer_init_def align_down_4 tiny_ring_def)
  show ?thesis
    using i tiny_ring_fill [OF assms(3), of d] tiny_ring_space [of pool] by auto
qed

theorem tiny_ringbuffer_overruns_witness:
  "\<exists>rb. rt_ringbuffer_init [0, 0, 0] 3 = Some rb \<and> rt_ringbuffer_space_len rb = 0 \<and>
    foldl (\<lambda>r ch. r \<bind> rt_ringbuffer_putchar_force ch) (Some rb) [1, 2, 3, 4] = None"
  using tiny_ringbuffer_overruns [of 3 "[0, 0, 0]" "[1, 2, 3, 4]"] by simp

end
