(* ===== verification/Rt_Errno.thy ===== *)
theory Rt_Errno
  imports Rt_IpcList
begin

text \<open>
  The error number of \<^verbatim>\<open>src/kservice.c\<close>: the field of the current thread, or one global variable in an interrupt
  and before the first thread runs.
\<close>

definition rt_get_errno :: "kernel \<Rightarrow> rt_err_t" where
  "rt_get_errno s =
     (if interrupt_nest s \<noteq> 0 then errno s
      else if rt_thread_self s = 0 then errno s
      else thread_error (threads s (rt_thread_self s)))"

definition rt_set_errno :: "rt_err_t \<Rightarrow> kernel \<Rightarrow> kernel" where
  "rt_set_errno error s =
     (if interrupt_nest s \<noteq> 0 then s\<lparr>errno := error\<rparr>
      else if rt_thread_self s = 0 then s\<lparr>errno := error\<rparr>
      else upd_thread (rt_thread_self s) (\<lambda>th. th\<lparr>thread_error := error\<rparr>) s)"

lemma set_errno_fields [simp]:
  "tlists (rt_set_errno e s) = tlists s" "current_thread (rt_set_errno e s) = current_thread s"
  "interrupt_nest (rt_set_errno e s) = interrupt_nest s" "lock_nest (rt_set_errno e s) = lock_nest s"
  "ready_group (rt_set_errno e s) = ready_group s" "rt_tick (rt_set_errno e s) = rt_tick s"
  "timers (rt_set_errno e s) = timers s" "trows (rt_set_errno e s) = trows s"
  "obj_type (rt_set_errno e s) = obj_type s" "obj_name (rt_set_errno e s) = obj_name s"
  "olists (rt_set_errno e s) = olists s" "mempools (rt_set_errno e s) = mempools s"
  "memory (rt_set_errno e s) = memory s" "devices (rt_set_errno e s) = devices s"
  by (simp_all add: rt_set_errno_def)

lemma get_set_errno [simp]: "rt_get_errno (rt_set_errno e s) = e"
  by (simp add: rt_get_errno_def rt_set_errno_def rt_thread_self_def)

lemma set_errno_thread:
  "interrupt_nest s = 0 \<Longrightarrow> current_thread s \<noteq> 0 \<Longrightarrow> thread_error (threads (rt_set_errno e s) (current_thread s)) = e"
  by (simp add: rt_set_errno_def rt_thread_self_def)

lemma kernel_ok_set_errno [simp]: "kernel_ok s \<Longrightarrow> kernel_ok (rt_set_errno e s)"
  using kernel_ok_upd_thread [of s "\<lambda>th. th\<lparr>thread_error := e\<rparr>" "rt_thread_self s"] by (simp add: rt_set_errno_def)

end
