(* ===== verification/Rt_Mempool.thy ===== *)
theory Rt_Mempool
  imports Rt_Errno Rt_MsgWait
begin

text \<open>
  Memory pools of \<^verbatim>\<open>src/mempool.c\<close>: blocks of one size in a region of memory, each behind a link word that holds the
  next free block, or the pool of a block in use. The link words are the \<open>memory\<close> of the kernel state, by address; the
  blocks are at least one word apart, so link words do not overlap. \<^verbatim>\<open>rt_mp_alloc\<close> waits in a loop, which is cut at
  \<^verbatim>\<open>rt_schedule\<close> and continued by \<open>mp_alloc_resume\<close>. A pointer is a word, 0 is \<^verbatim>\<open>RT_NULL\<close>.
\<close>

section \<open>Operations\<close>

definition is_mp :: "nat \<Rightarrow> kernel \<Rightarrow> bool" where
  "is_mp n s = (n \<noteq> 0 \<and> rt_object_get_type (obj_type s (Mp_obj n)) = RT_Object_Class_MemPool)"

definition upd_mp :: "nat \<Rightarrow> (rt_mempool \<Rightarrow> rt_mempool) \<Rightarrow> kernel \<Rightarrow> kernel" where
  "upd_mp n f s = s\<lparr>mempools := (mempools s)(n := f (mempools s n))\<rparr>"

definition store_word :: "u64 \<Rightarrow> u64 \<Rightarrow> kernel \<Rightarrow> kernel" where
  "store_word a v s = s\<lparr>memory := (memory s)(a := v)\<rparr>"

text \<open>The loop that links the first \<open>k\<close> blocks, each to the next, and the \<^verbatim>\<open>RT_NULL\<close> at the end.\<close>

fun mp_link_blocks :: "u64 \<Rightarrow> u64 \<Rightarrow> nat \<Rightarrow> (u64 \<Rightarrow> u64) \<Rightarrow> u64 \<Rightarrow> u64" where
  "mp_link_blocks p st 0 m = m"
| "mp_link_blocks p st (Suc k) m = (mp_link_blocks p st k m)(p + of_nat k * st := p + (of_nat k + 1) * st)"

definition mp_format :: "nat \<Rightarrow> kernel \<Rightarrow> kernel" where
  "mp_format n s =
     (let mp = mempools s n;
          st = block_size mp + 8;
          m = mp_link_blocks (start_address mp) st (unat (block_total_count mp)) (memory s);
          m = m(start_address mp + (block_total_count mp - 1) * st := 0)
      in upd_mp n (\<lambda>mp. mp\<lparr>block_list := start_address mp\<rparr>) (s\<lparr>memory := m\<rparr>))"

text \<open>The division by the size of a block with its link word: that sum is 0 for one absurd block size.\<close>

definition rt_mp_init :: "nat \<Rightarrow> string \<Rightarrow> u64 \<Rightarrow> u64 \<Rightarrow> u64 \<Rightarrow> kernel \<Rightarrow> (rt_err_t \<times> kernel) option" where
  "rt_mp_init n name start sz bsize s = do {
     rt_assert (n \<noteq> 0);
     rt_assert (start \<noteq> 0);
     rt_assert (sz > 0 \<and> bsize > 0);
     s \<leftarrow> rt_object_init (Mp_obj n) RT_Object_Class_MemPool name s;
     let bsize = align_up bsize;
     rt_assert (bsize + 8 \<noteq> 0);
     let total = align_down sz div (bsize + 8);
     let s = upd_mp n (\<lambda>mp. mp\<lparr>start_address := start, mp_size := align_down sz, block_size := bsize,
               block_total_count := total, block_free_count := total\<rparr>) s;
     s \<leftarrow> ipc_object_init (Mp_wait n) s;
     Some (RT_EOK, mp_format n s)
   }"

text \<open>The loops of \<^verbatim>\<open>rt_mp_detach\<close> and \<^verbatim>\<open>rt_mp_delete\<close> are the one of \<^verbatim>\<open>_ipc_list_resume_all\<close>.\<close>

definition rt_mp_detach :: "nat \<Rightarrow> kernel \<Rightarrow> (rt_err_t \<times> kernel) option" where
  "rt_mp_detach n s = do {
     rt_assert (is_mp n s);
     rt_assert (rt_object_is_systemobject (obj_type s (Mp_obj n)));
     s \<leftarrow> ipc_list_resume_all (Mp_wait n) s;
     Some (RT_EOK, rt_object_detach (Mp_obj n) s)
   }"

text \<open>The two allocations of \<^verbatim>\<open>rt_mp_create\<close> are its first arguments; the second is 0 when it fails.\<close>

definition rt_mp_create :: "nat option \<Rightarrow> u64 \<Rightarrow> string \<Rightarrow> u64 \<Rightarrow> u64 \<Rightarrow> kernel \<Rightarrow> (nat option \<times> kernel) option" where
  "rt_mp_create mem pool_mem name count bsize s = do {
     rt_assert (interrupt_nest s = 0);
     rt_assert (count > 0 \<and> bsize > 0);
     (_, s) \<leftarrow> rt_object_allocate (map_option Mp_obj mem) RT_Object_Class_MemPool name s;
     case mem of
       None \<Rightarrow> Some (None, s)
     | Some n \<Rightarrow> do {
         let bsize = align_up bsize;
         let s = upd_mp n (\<lambda>mp. mp\<lparr>block_size := bsize, mp_size := (bsize + 8) * count, start_address := pool_mem\<rparr>) s;
         if pool_mem = 0 then do {
           s \<leftarrow> rt_object_delete (Mp_obj n) s;
           Some (None, s)
         }
         else do {
           let s = upd_mp n (\<lambda>mp. mp\<lparr>block_total_count := count, block_free_count := count\<rparr>) s;
           s \<leftarrow> ipc_object_init (Mp_wait n) s;
           Some (Some n, mp_format n s)
         }
       }
   }"

definition rt_mp_delete :: "nat \<Rightarrow> kernel \<Rightarrow> (rt_err_t \<times> kernel) option" where
  "rt_mp_delete n s = do {
     rt_assert (interrupt_nest s = 0);
     rt_assert (is_mp n s);
     rt_assert (\<not> rt_object_is_systemobject (obj_type s (Mp_obj n)));
     s \<leftarrow> ipc_list_resume_all (Mp_wait n) s;
     s \<leftarrow> rt_object_delete (Mp_obj n) s;
     Some (RT_EOK, s)
   }"

text \<open>The end of \<^verbatim>\<open>rt_mp_alloc\<close>, when there is a block.\<close>

definition mp_take :: "nat \<Rightarrow> kernel \<Rightarrow> (u64 \<times> kernel) option" where
  "mp_take n s = do {
     let s = upd_mp n (\<lambda>mp. mp\<lparr>block_free_count := block_free_count mp - 1\<rparr>) s;
     let block_ptr = block_list (mempools s n);
     rt_assert (block_ptr \<noteq> 0);
     let s = upd_mp n (\<lambda>mp. mp\<lparr>block_list := memory s block_ptr\<rparr>) s;
     let s = store_word block_ptr (of_nat n) s;
     Some (block_ptr + 8, s)
   }"

text \<open>The waiting part of the loop, up to the return of \<^verbatim>\<open>rt_schedule\<close>: the thread goes to the front of the list.\<close>

definition mp_block :: "nat \<Rightarrow> int \<Rightarrow> kernel \<Rightarrow> kernel option" where
  "mp_block n time s = do {
     let t = rt_thread_self s;
     (_, s) \<leftarrow> rt_thread_suspend t s;
     l \<leftarrow> ls_insert_after (Mp_wait n) t (tlists s);
     let s = s\<lparr>tlists := l\<rparr>;
     s \<leftarrow> ipc_start_timeout t time s;
     rt_schedule s
   }"

text \<open>The result is \<open>None\<close> when the call waits, otherwise the pointer it returns.\<close>

partial_function (option) mp_alloc_loop :: "nat \<Rightarrow> int \<Rightarrow> kernel \<Rightarrow> (u64 option \<times> kernel) option" where
  "mp_alloc_loop n time s =
     (if block_free_count (mempools s n) = 0 then
        if time = 0 then Some (Some 0, rt_set_errno (- RT_ETIMEOUT) s)
        else do {
          rt_assert (interrupt_nest s = 0);
          let t = rt_thread_self s;
          let s = upd_thread t (\<lambda>th. th\<lparr>thread_error := RT_EOK\<rparr>) s;
          let t0 = rt_tick s;
          s \<leftarrow> mp_block n time s;
          if current_thread s \<noteq> t then Some (None, s)
          else if thread_error (threads s t) \<noteq> RT_EOK then Some (Some 0, s)
          else mp_alloc_loop n (ipc_remaining time t0 s) s
        }
      else do {
        (p, s) \<leftarrow> mp_take n s;
        Some (Some p, s)
      })"

definition mp_alloc_resume :: "nat \<Rightarrow> int \<Rightarrow> u32 \<Rightarrow> kernel \<Rightarrow> (u64 option \<times> kernel) option" where
  "mp_alloc_resume n time t0 s =
     (let t = current_thread s
      in if thread_error (threads s t) \<noteq> RT_EOK then Some (Some 0, s)
         else mp_alloc_loop n (ipc_remaining time t0 s) s)"

definition rt_mp_alloc :: "nat \<Rightarrow> int \<Rightarrow> kernel \<Rightarrow> (u64 option \<times> kernel) option" where
  "rt_mp_alloc n time s = do {
     rt_assert (n \<noteq> 0);
     mp_alloc_loop n time s
   }"

text \<open>A link word that names no pool (the block is not in use) would be followed as a pointer: \<open>None\<close>.\<close>

definition rt_mp_free :: "u64 \<Rightarrow> kernel \<Rightarrow> kernel option" where
  "rt_mp_free block s =
     (if block = 0 then Some s
      else do {
        let block_ptr = block - 8;
        let n = unat (memory s block_ptr);
        rt_assert (is_mp n s);
        let s = upd_mp n (\<lambda>mp. mp\<lparr>block_free_count := block_free_count mp + 1\<rparr>) s;
        let s = store_word block_ptr (block_list (mempools s n)) s;
        let s = upd_mp n (\<lambda>mp. mp\<lparr>block_list := block_ptr\<rparr>) s;
        case items (tlists s) (Mp_wait n) of
          [] \<Rightarrow> Some s
        | t # _ \<Rightarrow> do {
            let s = upd_thread t (\<lambda>th. th\<lparr>thread_error := RT_EOK\<rparr>) s;
            (_, s) \<leftarrow> rt_thread_resume t s;
            rt_schedule s
          }
      })"

section \<open>The blocks of a pool\<close>

interpretation mp_wait: wait_head "Mp_wait n" for n
  by unfold_locales auto

lemma upd_mp_fields [simp]:
  "mempools (upd_mp n f s) = (mempools s)(n := f (mempools s n))" "memory (upd_mp n f s) = memory s"
  "threads (upd_mp n f s) = threads s" "tlists (upd_mp n f s) = tlists s"
  "current_thread (upd_mp n f s) = current_thread s" "lock_nest (upd_mp n f s) = lock_nest s"
  "ready_group (upd_mp n f s) = ready_group s" "obj_type (upd_mp n f s) = obj_type s"
  "interrupt_nest (upd_mp n f s) = interrupt_nest s" "rt_tick (upd_mp n f s) = rt_tick s"
  "kernel_ok (upd_mp n f s) = kernel_ok s" "runs_highest (upd_mp n f s) = runs_highest s"
  by (simp_all add: upd_mp_def)

lemma store_word_fields [simp]:
  "memory (store_word a v s) = (memory s)(a := v)" "mempools (store_word a v s) = mempools s"
  "threads (store_word a v s) = threads s" "tlists (store_word a v s) = tlists s"
  "current_thread (store_word a v s) = current_thread s" "lock_nest (store_word a v s) = lock_nest s"
  "ready_group (store_word a v s) = ready_group s" "obj_type (store_word a v s) = obj_type s"
  "interrupt_nest (store_word a v s) = interrupt_nest s" "rt_tick (store_word a v s) = rt_tick s"
  "kernel_ok (store_word a v s) = kernel_ok s" "runs_highest (store_word a v s) = runs_highest s"
  by (simp_all add: store_word_def)

text \<open>Block \<open>i\<close> of a pool, and the condition that the region does not run over the end of the address space.\<close>

definition mp_addr :: "rt_mempool \<Rightarrow> nat \<Rightarrow> u64" where
  "mp_addr mp i = start_address mp + of_nat i * (block_size mp + 8)"

definition mp_blocks :: "rt_mempool \<Rightarrow> u64 list" where
  "mp_blocks mp = map (mp_addr mp) [0..<unat (block_total_count mp)]"

definition mp_region_ok :: "rt_mempool \<Rightarrow> bool" where
  "mp_region_ok mp = (start_address mp \<noteq> 0 \<and> block_size mp \<noteq> 0 \<and>
     unat (start_address mp) + unat (block_total_count mp) * (unat (block_size mp) + 8) \<le> 2 ^ 64)"

lemma mp_addr_nat: "mp_addr mp i = of_nat (unat (start_address mp) + i * (unat (block_size mp) + 8))"
  by (simp add: mp_addr_def)

lemma unat_mp_addr:
  assumes ok: "mp_region_ok mp" and i: "i < unat (block_total_count mp)"
  shows "unat (mp_addr mp i) = unat (start_address mp) + i * (unat (block_size mp) + 8)"
    and "unat (mp_addr mp i) + (unat (block_size mp) + 8) \<le> 2 ^ 64"
proof -
  let ?st = "unat (block_size mp) + 8"
  have "Suc i * ?st \<le> unat (block_total_count mp) * ?st" using i by (intro mult_le_mono1) simp
  then have le: "unat (start_address mp) + i * ?st + ?st \<le> 2 ^ 64" using ok by (simp add: mp_region_ok_def)
  then show eq: "unat (mp_addr mp i) = unat (start_address mp) + i * ?st"
    unfolding mp_addr_nat unat_of_nat by (intro mod_less) simp
  show "unat (mp_addr mp i) + ?st \<le> 2 ^ 64" using le by (simp add: eq)
qed

lemma mp_blocks_iff: "b \<in> set (mp_blocks mp) \<longleftrightarrow> (\<exists>i < unat (block_total_count mp). b = mp_addr mp i)"
  by (auto simp: mp_blocks_def)

lemma length_mp_blocks [simp]: "length (mp_blocks mp) = unat (block_total_count mp)"
  by (simp add: mp_blocks_def)

text \<open>Different blocks of a pool, with their link words, share no byte.\<close>

lemma mp_addr_apart:
  assumes ok: "mp_region_ok mp" and j: "j < unat (block_total_count mp)" and ij: "i < j"
  shows "unat (mp_addr mp i) + unat (block_size mp) + 8 \<le> unat (mp_addr mp j)"
proof -
  have "Suc i * (unat (block_size mp) + 8) \<le> j * (unat (block_size mp) + 8)" using ij by (intro mult_le_mono1) simp
  then show ?thesis using unat_mp_addr(1) [OF ok, of i] unat_mp_addr(1) [OF ok, of j] ij j by simp
qed

lemma mp_addr_inj:
  assumes "mp_region_ok mp" "i < unat (block_total_count mp)" "j < unat (block_total_count mp)"
  shows "mp_addr mp i = mp_addr mp j \<longleftrightarrow> i = j"
  using mp_addr_apart [OF assms(1,3), of i] mp_addr_apart [OF assms(1,2), of j] by (cases i j rule: linorder_cases) auto

lemma distinct_mp_blocks: "mp_region_ok mp \<Longrightarrow> distinct (mp_blocks mp)"
  by (auto simp: mp_blocks_def distinct_map inj_on_def mp_addr_inj)

lemma mp_block_nonzero:
  assumes "mp_region_ok mp" and "b \<in> set (mp_blocks mp)"
  shows "b \<noteq> 0"
proof -
  obtain i where "unat b = unat (start_address mp) + i * (unat (block_size mp) + 8)"
    using unat_mp_addr(1) [OF assms(1)] assms(2) unfolding mp_blocks_iff by metis
  moreover have "unat (start_address mp) \<noteq> 0" using assms(1) by (simp add: mp_region_ok_def unat_eq_zero)
  ultimately show ?thesis by auto
qed

definition apart :: "nat \<Rightarrow> u64 \<Rightarrow> u64 \<Rightarrow> bool" where
  "apart k a b = (unat a + k \<le> unat b \<or> unat b + k \<le> unat a)"

lemma mp_blocks_apart:
  assumes "mp_region_ok mp" "a \<in> set (mp_blocks mp)" "b \<in> set (mp_blocks mp)" "a \<noteq> b"
  shows "apart (unat (block_size mp) + 8) a b"
proof -
  obtain i j where ij: "i < unat (block_total_count mp)" "a = mp_addr mp i" "j < unat (block_total_count mp)" "b = mp_addr mp j"
    using assms(2,3) by (auto simp: mp_blocks_iff)
  then show ?thesis
    using assms(1,4) mp_addr_apart [of mp j i] mp_addr_apart [of mp i j] by (cases i j rule: linorder_cases) (auto simp: apart_def)
qed

section \<open>The free list\<close>

fun mp_walk :: "nat \<Rightarrow> (u64 \<Rightarrow> u64) \<Rightarrow> u64 \<Rightarrow> u64 list" where
  "mp_walk 0 m p = []"
| "mp_walk (Suc k) m p = p # mp_walk k m (m p)"

fun mp_chain :: "(u64 \<Rightarrow> u64) \<Rightarrow> u64 \<Rightarrow> u64 list \<Rightarrow> bool" where
  "mp_chain m p [] = (p = 0)"
| "mp_chain m p (b # bs) = (p = b \<and> mp_chain m (m b) bs)"

lemma mp_walk_numeral [simp]: "mp_walk (numeral k) m p = p # mp_walk (pred_numeral k) m (m p)"
  by (simp add: numeral_eq_Suc)

lemma length_mp_walk [simp]: "length (mp_walk k m p) = k"
  by (induction k arbitrary: p) auto

lemma mp_chain_walk: "mp_chain m p bs \<Longrightarrow> mp_walk (length bs) m p = bs"
  by (induction bs arbitrary: p) auto

lemma mp_chain_cong: "(\<And>b. b \<in> set bs \<Longrightarrow> m' b = m b) \<Longrightarrow> mp_chain m' p bs = mp_chain m p bs"
  by (induction bs arbitrary: p) auto

lemma mp_chain_off [simp]: "b \<notin> set bs \<Longrightarrow> mp_chain (m(b := v)) p bs = mp_chain m p bs"
  by (rule mp_chain_cong) auto

text \<open>The free blocks of a pool, in the order in which they will be handed out.\<close>

definition mp_frees :: "nat \<Rightarrow> kernel \<Rightarrow> u64 list" where
  "mp_frees n s = mp_walk (unat (block_free_count (mempools s n))) (memory s) (block_list (mempools s n))"

text \<open>A well-formed pool: the free list is a chain of distinct blocks of the pool, and every other block is in use and
  names the pool.\<close>

definition mp_ok :: "nat \<Rightarrow> kernel \<Rightarrow> bool" where
  "mp_ok n s = (is_mp n s \<and> n < 2 ^ 64 \<and> mp_region_ok (mempools s n) \<and>
     mp_chain (memory s) (block_list (mempools s n)) (mp_frees n s) \<and> distinct (mp_frees n s) \<and>
     set (mp_frees n s) \<subseteq> set (mp_blocks (mempools s n)) \<and>
     (\<forall>b \<in> set (mp_blocks (mempools s n)) - set (mp_frees n s). memory s b = of_nat n))"

lemma mp_okD:
  assumes "mp_ok n s"
  shows "is_mp n s" "n < 2 ^ 64" "mp_region_ok (mempools s n)"
    "mp_chain (memory s) (block_list (mempools s n)) (mp_frees n s)" "distinct (mp_frees n s)"
    "set (mp_frees n s) \<subseteq> set (mp_blocks (mempools s n))"
    "b \<in> set (mp_blocks (mempools s n)) \<Longrightarrow> b \<notin> set (mp_frees n s) \<Longrightarrow> memory s b = of_nat n"
  using assms by (auto simp: mp_ok_def)

text \<open>To establish it, give the free list.\<close>

lemma mp_okI:
  assumes "is_mp n s" "n < 2 ^ 64" "mp_region_ok (mempools s n)"
    "mp_chain (memory s) (block_list (mempools s n)) bs" "distinct bs" "set bs \<subseteq> set (mp_blocks (mempools s n))"
    "unat (block_free_count (mempools s n)) = length bs"
    "\<And>b. b \<in> set (mp_blocks (mempools s n)) \<Longrightarrow> b \<notin> set bs \<Longrightarrow> memory s b = of_nat n"
  shows "mp_ok n s" and "mp_frees n s = bs"
proof -
  show eq: "mp_frees n s = bs" using mp_chain_walk [OF assms(4)] assms(7) by (simp add: mp_frees_def)
  show "mp_ok n s" using assms by (simp add: mp_ok_def eq)
qed

lemma length_mp_frees: "length (mp_frees n s) = unat (block_free_count (mempools s n))"
  by (simp add: mp_frees_def)

lemma mp_frees_Nil: "mp_frees n s = [] \<longleftrightarrow> block_free_count (mempools s n) = 0"
  using length_mp_frees [of n s] by (metis length_0_conv unat_eq_zero)

lemma mp_ok_cong:
  assumes "mempools s' n = mempools s n" and "obj_type s' = obj_type s"
    and "\<And>b. b \<in> set (mp_blocks (mempools s n)) \<Longrightarrow> memory s' b = memory s b" and "mp_ok n s"
  shows "mp_ok n s'" and "mp_frees n s' = mp_frees n s"
proof -
  note d = mp_okD [OF assms(4)]
  have "mp_chain (memory s') (block_list (mempools s n)) (mp_frees n s)"
    using mp_chain_cong [of "mp_frees n s" "memory s'" "memory s"] assms(3) d(4,6) by blast
  then show "mp_ok n s'" "mp_frees n s' = mp_frees n s"
    using mp_okI [of n s' "mp_frees n s"] d(1-3,5-7) assms(1-3)
    by (simp_all add: is_mp_def length_mp_frees)
qed

lemma mp_ok_same:
  assumes "ipc_same s s'" and "mp_ok n s"
  shows "mp_ok n s'" and "mp_frees n s' = mp_frees n s"
  using mp_ok_cong [OF _ _ _ assms(2), of s'] assms(1) by (simp_all add: ipc_same_def)

section \<open>Correctness\<close>

text \<open>What the users of a pool see: the free blocks and the waiting threads.\<close>

definition mp_view :: "nat \<Rightarrow> kernel \<Rightarrow> u64 list \<times> tid list" where
  "mp_view n s = (mp_frees n s, items (tlists s) (Mp_wait n))"

text \<open>The contract: both lists are stacks. An allocation takes the block that was freed last; the thread that waits
  for a block goes before those that wait already.\<close>

fun mp_spec_alloc :: "bool \<Rightarrow> tid \<Rightarrow> u64 list \<times> tid list \<Rightarrow> u64 option \<times> u64 list \<times> tid list" where
  "mp_spec_alloc wait t (b # fs, ws) = (Some (b + 8), fs, ws)"
| "mp_spec_alloc wait t ([], ws) = (if wait then (None, [], t # ws) else (Some 0, [], ws))"

fun mp_spec_free :: "u64 \<Rightarrow> u64 list \<times> tid list \<Rightarrow> u64 list \<times> tid list" where
  "mp_spec_free b (fs, ws) = (b # fs, tl ws)"

text \<open>The pools whose blocks lie elsewhere.\<close>

definition mp_disjoint :: "nat \<Rightarrow> nat \<Rightarrow> kernel \<Rightarrow> bool" where
  "mp_disjoint m n s = (m \<noteq> n \<and> set (mp_blocks (mempools s m)) \<inter> set (mp_blocks (mempools s n)) = {})"

lemma mp_blocks_upd [simp]:
  "mp_blocks (mp\<lparr>block_list := x\<rparr>) = mp_blocks mp" "mp_blocks (mp\<lparr>block_free_count := y\<rparr>) = mp_blocks mp"
  "mp_region_ok (mp\<lparr>block_list := x\<rparr>) = mp_region_ok mp" "mp_region_ok (mp\<lparr>block_free_count := y\<rparr>) = mp_region_ok mp"
  by (simp_all add: mp_blocks_def mp_addr_def [abs_def] mp_region_ok_def)

lemma take_ok:
  assumes ok: "mp_ok n s" and fr: "mp_frees n s = b # fs"
  shows "\<exists>s'. mp_take n s = Some (b + 8, s') \<and> mp_ok n s' \<and> mp_frees n s' = fs \<and> kernel_ok s' = kernel_ok s \<and>
    tlists s' = tlists s \<and> threads s' = threads s \<and> current_thread s' = current_thread s \<and>
    mp_blocks (mempools s' n) = mp_blocks (mempools s n) \<and> (\<forall>m. mp_disjoint m n s \<and> mp_ok m s \<longrightarrow> mp_ok m s')"
proof -
  note d = mp_okD [OF ok]
  have b: "block_list (mempools s n) = b" "b \<in> set (mp_blocks (mempools s n))" "b \<notin> set fs" "distinct fs"
    "mp_chain (memory s) (memory s b) fs" "set fs \<subseteq> set (mp_blocks (mempools s n))"
    using d(4-6) fr by auto
  have nz: "b \<noteq> 0" by (rule mp_block_nonzero [OF d(3) b(2)])
  have len: "unat (block_free_count (mempools s n) - 1) = length fs"
    using length_mp_frees [of n s] fr unat_pred [of "block_free_count (mempools s n)"]
    by (cases "block_free_count (mempools s n) = 0") auto
  define s' where "s' = store_word b (of_nat n) (upd_mp n (\<lambda>mp. mp\<lparr>block_list := memory s b\<rparr>)
    (upd_mp n (\<lambda>mp. mp\<lparr>block_free_count := block_free_count mp - 1\<rparr>) s))"
  have "mp_take n s = Some (b + 8, s')" using nz by (simp add: mp_take_def s'_def b(1) Let_def)
  moreover have "mp_ok n s'" "mp_frees n s' = fs"
    using mp_okI [of n s' fs] d(1-3,7) b len fr
    by (auto simp: s'_def is_mp_def)
  moreover have "mp_ok m s'" if "mp_disjoint m n s" "mp_ok m s" for m
    by (rule mp_ok_cong(1) [OF _ _ _ that(2)]) (use that(1) b(2) in \<open>auto simp: s'_def mp_disjoint_def\<close>)
  ultimately show ?thesis by (simp add: s'_def)
qed

text \<open>The state after a used block \<open>b\<close> is put back, before a waiter is woken.\<close>

definition put_back :: "nat \<Rightarrow> u64 \<Rightarrow> kernel \<Rightarrow> kernel" where
  "put_back n b s = upd_mp n (\<lambda>mp. mp\<lparr>block_list := b\<rparr>) (store_word b (block_list (mempools s n))
     (upd_mp n (\<lambda>mp. mp\<lparr>block_free_count := block_free_count mp + 1\<rparr>) s))"

lemma put_back_fields [simp]:
  "tlists (put_back n b s) = tlists s" "threads (put_back n b s) = threads s" "obj_type (put_back n b s) = obj_type s"
  "current_thread (put_back n b s) = current_thread s" "kernel_ok (put_back n b s) = kernel_ok s"
  by (simp_all add: put_back_def)

lemma put_back_ok:
  assumes ok: "mp_ok n s" and b: "b \<in> set (mp_blocks (mempools s n))" "b \<notin> set (mp_frees n s)"
  shows "mp_ok n (put_back n b s)" and "mp_frees n (put_back n b s) = b # mp_frees n s"
    and "mp_blocks (mempools (put_back n b s) n) = mp_blocks (mempools s n)"
    and "mp_disjoint m n s \<Longrightarrow> mp_ok m s \<Longrightarrow> mp_ok m (put_back n b s)"
proof -
  let ?s' = "put_back n b s" and ?f = "mp_frees n s"
  note d = mp_okD [OF ok]
  have "length (b # ?f) \<le> length (mp_blocks (mempools s n))"
    using card_mono [of "set (mp_blocks (mempools s n))" "set (b # ?f)"] d(5,6) b distinct_mp_blocks [OF d(3)]
    by (simp add: distinct_card)
  then have "Suc (unat (block_free_count (mempools s n))) \<le> unat (block_total_count (mempools s n))"
    by (simp add: length_mp_frees)
  then have len: "unat (block_free_count (mempools s n) + 1) = Suc (length ?f)"
    using unsigned_less [of "block_total_count (mempools s n)", where ?'a = nat]
    by (subst unat_word_ariths) (simp add: length_mp_frees)
  have ch: "mp_chain ((memory s)(b := block_list (mempools s n))) (block_list (mempools s n)) ?f"
    using d(4) b(2) by simp
  show "mp_blocks (mempools ?s' n) = mp_blocks (mempools s n)" by (simp add: put_back_def)
  show "mp_ok n ?s'" "mp_frees n ?s' = b # ?f"
    using mp_okI [of n ?s' "b # ?f"] d(1-3,5-7) b ch len by (auto simp: put_back_def is_mp_def)
  show "mp_ok m ?s'" if "mp_disjoint m n s" "mp_ok m s"
    by (rule mp_ok_cong(1) [OF _ _ _ that(2)]) (use that(1) b(1) in \<open>auto simp: put_back_def mp_disjoint_def\<close>)
qed

lemma user_ptr:
  assumes ok: "mp_region_ok mp" and b: "b \<in> set (mp_blocks mp)"
  shows "unat (b + 8) = unat b + 8" and "b + 8 \<noteq> 0"
proof -
  obtain i where "i < unat (block_total_count mp)" "b = mp_addr mp i" using b by (auto simp: mp_blocks_iff)
  then have "unat b + (unat (block_size mp) + 8) \<le> 2 ^ 64" using unat_mp_addr(2) [OF ok] by blast
  moreover have "unat (block_size mp) \<noteq> 0" using ok by (simp add: mp_region_ok_def unat_eq_zero)
  ultimately show "unat (b + 8) = unat b + 8" by (subst unat_word_ariths) simp
  then show "b + 8 \<noteq> 0" by (metis add_eq_0_iff_both_eq_0 unat_0 zero_neq_numeral)
qed

lemma free_unfold:
  assumes ok: "mp_ok n s" and b: "b \<in> set (mp_blocks (mempools s n))" "b \<notin> set (mp_frees n s)"
  shows "rt_mp_free (b + 8) s = ipc_wake_one (Mp_wait n) (case items (tlists s) (Mp_wait n) of
      [] \<Rightarrow> put_back n b s | t # _ \<Rightarrow> upd_thread t (\<lambda>th. th\<lparr>thread_error := RT_EOK\<rparr>) (put_back n b s))"
proof -
  note d = mp_okD [OF ok]
  have m: "memory s b = of_nat n" by (rule d(7) [OF b])
  have n: "unat (of_nat n :: u64) = n" using d(2) unfolding unat_of_nat by (intro mod_less) simp
  show ?thesis
    using user_ptr(2) [OF d(3) b(1)] d(1)
    by (simp add: rt_mp_free_def m n Let_def is_mp_def ipc_wake_one_def ipc_list_resume_def put_back_def [symmetric]
        case_prod_unfold
        split: list.split)
qed

lemma free_ok:
  assumes k: "kernel_ok s" and ok: "mp_ok n s" and b: "b \<in> set (mp_blocks (mempools s n))" "b \<notin> set (mp_frees n s)"
  shows "\<exists>s'. rt_mp_free (b + 8) s = Some s' \<and> kernel_ok s' \<and> mp_ok n s' \<and>
    mp_view n s' = mp_spec_free b (mp_view n s) \<and> mp_blocks (mempools s' n) = mp_blocks (mempools s n) \<and>
    (\<forall>m. mp_disjoint m n s \<and> mp_ok m s \<longrightarrow> mp_ok m s') \<and>
    (\<forall>t ts. items (tlists s) (Mp_wait n) = t # ts \<longrightarrow> awake s' t \<and> thread_error (threads s' t) = RT_EOK)"
proof -
  note p = put_back_ok [OF ok b]
  define s1 where "s1 = (case items (tlists s) (Mp_wait n) of
      [] \<Rightarrow> put_back n b s | t # _ \<Rightarrow> upd_thread t (\<lambda>th. th\<lparr>thread_error := RT_EOK\<rparr>) (put_back n b s))"
  have k1: "kernel_ok s1"
    using k kernel_ok_upd_thread [of "put_back n b s" "\<lambda>th. th\<lparr>thread_error := RT_EOK\<rparr>"]
    by (auto simp: s1_def split: list.split)
  have same: "ipc_same (put_back n b s) s1" "tlists s1 = tlists s" by (auto simp: s1_def ipc_same_def split: list.split)
  obtain s' where s': "ipc_wake_one (Mp_wait n) s1 = Some s'" "woken_on (Mp_wait n) s1 s'"
    using mp_wait.wake_one [OF k1] by blast
  then have w: "kernel_ok s'" "ipc_same s1 s'" "items (tlists s') (Mp_wait n) = tl (items (tlists s) (Mp_wait n))"
    "\<And>t ts. items (tlists s) (Mp_wait n) = t # ts \<Longrightarrow> awake s' t \<and> thread_error (threads s' t) = thread_error (threads s1 t)"
    using same(2) by (auto simp: woken_on_def)
  note i = ipc_same_trans [OF same(1) w(2)]
  have "mp_frees n s' = b # mp_frees n s" using mp_ok_same(2) [OF i p(1)] p(2) by simp
  moreover have "mp_ok m s'" if "mp_disjoint m n s" "mp_ok m s" for m by (rule mp_ok_same(1) [OF i p(4) [OF that]])
  moreover have "mempools s' = mempools (put_back n b s)" using i by (simp add: ipc_same_def)
  moreover have "thread_error (threads s' t) = RT_EOK" if "items (tlists s) (Mp_wait n) = t # ts" for t ts
    using w(4) [OF that] that by (simp add: s1_def)
  ultimately show ?thesis
    using free_unfold [OF ok b] s'(1) w(1,3,4) mp_ok_same(1) [OF i p(1)] p(3) by (auto simp: s1_def mp_view_def)
qed

lemma mp_block_ok:
  assumes b: "may_block s" and x: "x < 0x7FFFFFFF"
  obtains s' where "mp_block n x (no_error s) = Some s'"
    and "blocked_at (Mp_wait n) (current_thread s # items (tlists s) (Mp_wait n)) x (no_error s) s'"
proof -
  let ?s = "no_error s" and ?c = "current_thread s"
  note m = may_blockD [OF b]
  have r: "running ?s" by (rule running_error [OF m(1)])
  obtain s' where s': "blocked_at (Mp_wait n) ([] @ current_thread ?s # items (tlists ?s) (Mp_wait n)) x ?s s'"
    using mp_wait.block_at_ok [OF r, of n "[]" "items (tlists ?s) (Mp_wait n)" x] m(2,4) x by auto
  have su: "rt_thread_suspend (current_thread ?s) ?s = Some (RT_EOK, suspended ?s)"
    by (rule suspend_ok(1) [OF runningD(1,2) [OF r]])
  have h: "home (tlists s) ?c = None"
    using queue_ok_running_home [OF sched_okD(1) [OF kernel_okD(1) [OF m(5)]] runningD(2) [OF m(1)]] .
  have "mp_block n x ?s = Some s'"
    using su h blocked_atD(1,2) [OF s', unfolded enqueued_at_def]
    by (simp add: mp_block_def rt_thread_self_def ls_insert_after_def)
  then show thesis using that s' by simp
qed

lemma alloc_blocks:
  assumes b: "may_block s" and ok: "mp_ok n s" and e: "mp_frees n s = []" and x: "time \<noteq> 0" "time < 0x7FFFFFFF"
  shows "\<exists>s'. mp_alloc_loop n time s = Some (None, s') \<and> kernel_ok s' \<and> mp_ok n s' \<and> mempools s' = mempools s \<and>
    mp_view n s' = ([], current_thread s # items (tlists s) (Mp_wait n)) \<and> (\<forall>m. mp_ok m s \<longrightarrow> mp_ok m s') \<and>
    thread_stat (threads s' (current_thread s)) = RT_THREAD_SUSPEND"
proof -
  obtain s' where s': "mp_block n time (no_error s) = Some s'"
    "blocked_at (Mp_wait n) (current_thread s # items (tlists s) (Mp_wait n)) time (no_error s) s'"
    using mp_block_ok [OF b x(2)] by blast
  note d = blocked_atD [OF s'(2)]
  have i: "ipc_same s s'" using blocked_at_frame(1) [OF s'(2)] by (simp add: ipc_same_def)
  have "mp_alloc_loop n time s = Some (None, s')"
    using s'(1) d(5) x(1) may_blockD(3) [OF b] e
    by (subst mp_alloc_loop.simps) (simp add: Let_def rt_thread_self_def mp_frees_Nil)
  moreover have "mempools s' = mempools s" using i by (simp add: ipc_same_def)
  ultimately show ?thesis
    using d(3,7,8) mp_ok_same [OF i] ok e by (simp add: mp_view_def stat_simps)
qed

section \<open>Formatting a pool\<close>

lemma mp_addr_Suc: "mp_addr mp (Suc k) = start_address mp + (of_nat k + 1) * (block_size mp + 8)"
  by (simp add: mp_addr_def add.commute)

lemma link_blocks:
  assumes ok: "mp_region_ok mp" and k: "k \<le> unat (block_total_count mp)"
  shows "j < k \<Longrightarrow> mp_link_blocks (start_address mp) (block_size mp + 8) k m (mp_addr mp j) = mp_addr mp (Suc j)"
    and "a \<notin> set (mp_blocks mp) \<Longrightarrow> mp_link_blocks (start_address mp) (block_size mp + 8) k m a = m a"
proof -
  show "mp_link_blocks (start_address mp) (block_size mp + 8) k m (mp_addr mp j) = mp_addr mp (Suc j)" if "j < k"
    using k that
  proof (induction k)
    case (Suc k)
    then show ?case
      using mp_addr_inj [OF ok, of j k] by (auto simp: mp_addr_def [of mp k, symmetric] mp_addr_Suc [symmetric] less_Suc_eq)
  qed simp
  show "mp_link_blocks (start_address mp) (block_size mp + 8) k m a = m a" if "a \<notin> set (mp_blocks mp)"
    using k that
  proof (induction k)
    case (Suc k)
    then have "a \<noteq> mp_addr mp k" by (auto simp: mp_blocks_iff)
    then show ?case using Suc by (simp add: mp_addr_def [symmetric])
  qed simp
qed

lemma chain_blocks:
  assumes "\<And>j. j < t \<Longrightarrow> m (mp_addr mp j) = (if Suc j = t then 0 else mp_addr mp (Suc j))" and "k < t"
  shows "mp_chain m (mp_addr mp k) (map (mp_addr mp) [k..<t])"
  using assms(2)
proof (induction "t - k" arbitrary: k)
  case (Suc d)
  show ?case
  proof (cases "Suc k = t")
    case True
    then show ?thesis using assms(1) [of k] by (simp add: upt_rec [of k])
  next
    case False
    then have "mp_chain m (mp_addr mp (Suc k)) (map (mp_addr mp) [Suc k..<t])"
      using Suc by (intro Suc.hyps) auto
    then show ?thesis using Suc.prems False assms(1) [of k] by (simp add: upt_rec [of k])
  qed
qed simp

lemma format_ok:
  assumes mp: "is_mp n s" "n < 2 ^ 64" "mp_region_ok (mempools s n)" "block_total_count (mempools s n) \<noteq> 0"
    "block_free_count (mempools s n) = block_total_count (mempools s n)"
  shows "mp_ok n (mp_format n s)" and "mp_frees n (mp_format n s) = mp_blocks (mempools s n)"
    and "mp_blocks (mempools (mp_format n s) n) = mp_blocks (mempools s n)"
proof -
  let ?mp = "mempools s n" and ?s' = "mp_format n s"
  let ?t = "unat (block_total_count ?mp)"
  have t: "?t \<noteq> 0" "?t = Suc (unat (block_total_count ?mp - 1))" using mp(4) unat_pred by (simp_all add: unat_eq_zero)
  have last: "start_address ?mp + (block_total_count ?mp - 1) * (block_size ?mp + 8) = mp_addr ?mp (?t - 1)"
    using t by (simp add: mp_addr_def)
  have m: "memory ?s' (mp_addr ?mp j) = (if Suc j = ?t then 0 else mp_addr ?mp (Suc j))" if "j < ?t" for j
    using link_blocks(1) [OF mp(3) order_refl that] mp_addr_inj [OF mp(3) that, of "?t - 1"] t(1) that
    by (auto simp: mp_format_def Let_def last)
  have "mp_chain (memory ?s') (mp_addr ?mp 0) (mp_blocks ?mp)"
    unfolding mp_blocks_def using t(1) by (intro chain_blocks m) auto
  then have "mp_ok n ?s' \<and> mp_frees n ?s' = mp_blocks ?mp"
    using mp_okI [of n ?s' "mp_blocks ?mp"] mp distinct_mp_blocks [OF mp(3)]
    by (simp add: mp_format_def Let_def is_mp_def) (simp add: mp_addr_def)
  then show "mp_ok n ?s'" "mp_frees n ?s' = mp_blocks ?mp" by simp_all
  show "mp_blocks (mempools ?s' n) = mp_blocks ?mp" by (simp add: mp_format_def Let_def)
qed

text \<open>A pool without blocks: the loop does nothing, and the end mark goes to the place of block \<^verbatim>\<open>-1\<close>.\<close>

lemma format_empty:
  assumes "block_total_count (mempools s n) = 0"
  shows "memory (mp_format n s) = (memory s)(start_address (mempools s n) - (block_size (mempools s n) + 8) := 0)"
  using assms by (simp add: mp_format_def Let_def algebra_simps)

text \<open>The geometry \<^verbatim>\<open>rt_mp_init\<close> computes.\<close>

definition mp_fresh :: "u64 \<Rightarrow> u64 \<Rightarrow> u64 \<Rightarrow> rt_mempool \<Rightarrow> rt_mempool" where
  "mp_fresh start sz bsize mp =
     (let bs = align_up bsize; total = align_down sz div (bs + 8)
      in mp\<lparr>start_address := start, mp_size := align_down sz, block_size := bs,
            block_total_count := total, block_free_count := total\<rparr>)"

lemma kernel_ok_attach [simp]:
  "kernel_ok (object_attach (Mp_obj n) ty name s) = kernel_ok s"
  using kernel_ok_object [of "Mp_obj n" s "ty OR RT_Object_Class_Static"]
  by (simp add: object_attach_def kernel_ok_def sched_ok_def queue_ok_def timers_ok_def timer_ok_def thread_timer_ok_def
      is_thread_def is_timer_def order_ok_def)

lemma mp_init_eq:
  assumes o: "obj_ok s" "quiet s" "home (olists s) (Mp_obj n) = None" and w: "items (tlists s) (Mp_wait n) = []"
    and n: "n \<noteq> 0" and a: "start \<noteq> 0" "sz > 0" "bsize > 0" "align_up bsize + 8 \<noteq> 0"
  shows "rt_mp_init n name start sz bsize s =
    Some (RT_EOK, mp_format n (upd_mp n (mp_fresh start sz bsize) (object_attach (Mp_obj n) RT_Object_Class_MemPool name s)))"
proof -
  have i: "rt_object_get_information RT_Object_Class_MemPool = Some RT_Object_Class_MemPool"
    by (simp add: rt_object_get_information_def object_container_def)
  have "rt_object_init (Mp_obj n) RT_Object_Class_MemPool name s = Some (object_attach (Mp_obj n) RT_Object_Class_MemPool name s)"
    using o by (intro object_init_eq [OF i]) (auto simp: obj_ok_def)
  then show ?thesis
    using n a w by (simp add: rt_mp_init_def ipc_object_init_def mp_fresh_def [abs_def] Let_def object_attach_def)
qed

lemma mp_fresh_fields [simp]:
  "start_address (mp_fresh start sz bsize mp) = start" "block_size (mp_fresh start sz bsize mp) = align_up bsize"
  "block_total_count (mp_fresh start sz bsize mp) = align_down sz div (align_up bsize + 8)"
  "block_free_count (mp_fresh start sz bsize mp) = align_down sz div (align_up bsize + 8)"
  by (simp_all add: mp_fresh_def Let_def)

lemma mp_format_fields [simp]:
  "kernel_ok (mp_format n s) = kernel_ok s" "obj_type (mp_format n s) = obj_type s" "tlists (mp_format n s) = tlists s"
  "block_size (mempools (mp_format n s) n) = block_size (mempools s n)"
  "block_total_count (mempools (mp_format n s) n) = block_total_count (mempools s n)"
  "block_free_count (mempools (mp_format n s) n) = block_free_count (mempools s n)"
  by (simp_all add: mp_format_def Let_def)

lemma fresh_region:
  fixes mp0 :: rt_mempool
  assumes a: "start \<noteq> 0" "bsize \<noteq> 0" "unat bsize + 11 < 2 ^ 64" "unat start + unat sz \<le> 2 ^ 64"
  defines "mp \<equiv> mp_fresh start sz bsize mp0"
  shows "mp_region_ok mp" and "unat (block_size mp + 8) = unat (block_size mp) + 8" and "unat bsize \<le> unat (block_size mp)"
    and "unat (block_total_count mp) = unat (align_down sz) div (unat (block_size mp) + 8)"
    and "unat (block_total_count mp) * (unat (block_size mp) + 8) \<le> unat sz"
proof -
  have up: "unat (align_up bsize) = (unat bsize + 3) div 4 * 4" using a(3) by (intro unat_align_up) simp
  have le: "(unat bsize + 3) div 4 * 4 \<le> unat bsize + 3" by simp
  show bs: "unat (block_size mp + 8) = unat (block_size mp) + 8"
    using up le a(3) by (subst unat_word_ariths) (simp add: mp_def)
  show ge: "unat bsize \<le> unat (block_size mp)" using up by (simp add: mp_def)
  show t: "unat (block_total_count mp) = unat (align_down sz) div (unat (block_size mp) + 8)"
    using bs by (simp add: mp_def unat_div)
  have "unat (align_down sz) \<le> unat sz" by (simp add: unat_align_down)
  then show sz: "unat (block_total_count mp) * (unat (block_size mp) + 8) \<le> unat sz"
    unfolding t by (meson div_times_less_eq_dividend le_trans)
  have "unat bsize \<noteq> 0" using a(2) by (simp add: unat_eq_zero)
  then have "block_size mp \<noteq> 0" using ge by auto
  then show "mp_region_ok mp" using sz a(1,4) by (simp add: mp_region_ok_def mp_def)
qed

section \<open>Clients of a pool\<close>

text \<open>Threads that allocate without waiting and free any of the blocks they hold.\<close>

datatype mp_op = Alloc | Free nat

fun mp_client :: "nat \<Rightarrow> mp_op list \<Rightarrow> u64 list \<Rightarrow> kernel \<Rightarrow> (u64 list \<times> kernel) option" where
  "mp_client n [] held s = Some (held, s)"
| "mp_client n (Alloc # ops) held s = do {
     (r, s) \<leftarrow> rt_mp_alloc n 0 s;
     mp_client n ops (if r = Some 0 then held else the r # held) s
   }"
| "mp_client n (Free i # ops) held s =
     (if i < length held then do {
        s \<leftarrow> rt_mp_free (held ! i) s;
        mp_client n ops (take i held @ drop (Suc i) held) s
      }
      else mp_client n ops held s)"

text \<open>What the clients hold is exactly what the pool has handed out.\<close>

definition mp_held :: "nat \<Rightarrow> u64 list \<Rightarrow> kernel \<Rightarrow> bool" where
  "mp_held n held s = (kernel_ok s \<and> mp_ok n s \<and> distinct held \<and>
     set held = (\<lambda>b. b + 8) ` (set (mp_blocks (mempools s n)) - set (mp_frees n s)))"

lemma alloc_now:
  assumes k: "kernel_ok s" and ok: "mp_ok n s"
  shows "mp_frees n s = [] \<Longrightarrow> rt_mp_alloc n 0 s = Some (Some 0, rt_set_errno (- RT_ETIMEOUT) s)"
    and "mp_frees n s = b # fs \<Longrightarrow> rt_mp_alloc n time s = mp_take n s \<bind> (\<lambda>(p, s). Some (Some p, s))"
proof -
  have n: "n \<noteq> 0" using mp_okD(1) [OF ok] by (simp add: is_mp_def)
  show "rt_mp_alloc n 0 s = Some (Some 0, rt_set_errno (- RT_ETIMEOUT) s)" if "mp_frees n s = []"
    using that n by (simp add: rt_mp_alloc_def mp_alloc_loop.simps mp_frees_Nil)
  show "rt_mp_alloc n time s = mp_take n s \<bind> (\<lambda>(p, s). Some (Some p, s))" if "mp_frees n s = b # fs"
    using that n mp_frees_Nil [of n s] by (simp add: rt_mp_alloc_def mp_alloc_loop.simps)
qed

lemma errno_same:
  assumes "mp_ok n s"
  shows "mp_ok n (rt_set_errno e s)" and "mp_frees n (rt_set_errno e s) = mp_frees n s"
  using mp_ok_cong [OF _ _ _ assms, of "rt_set_errno e s"] by simp_all

lemma held_alloc:
  assumes "mp_held n held s"
  shows "\<exists>r s'. rt_mp_alloc n 0 s = Some (r, s') \<and> mp_blocks (mempools s' n) = mp_blocks (mempools s n) \<and>
    mp_held n (if r = Some 0 then held else the r # held) s'"
proof (cases "mp_frees n s")
  case Nil
  then show ?thesis using assms alloc_now(1) [of s n] errno_same [of n s] by (simp add: mp_held_def)
next
  case (Cons b fs)
  have k: "kernel_ok s" "mp_ok n s" using assms by (auto simp: mp_held_def)
  note d = mp_okD [OF k(2)]
  have b: "b \<in> set (mp_blocks (mempools s n))" using d(6) Cons by auto
  obtain s' where s': "mp_take n s = Some (b + 8, s')" "mp_ok n s'" "mp_frees n s' = fs" "kernel_ok s'"
    "mp_blocks (mempools s' n) = mp_blocks (mempools s n)"
    using take_ok [OF k(2) Cons] k(1) by auto
  have "set (mp_blocks (mempools s n)) - set fs = insert b (set (mp_blocks (mempools s n)) - set (b # fs))"
    using b d(5) Cons by auto
  then show ?thesis
    using alloc_now(2) [OF k Cons, of 0] s' assms Cons user_ptr(2) [OF d(3) b] by (auto simp: mp_held_def)
qed

lemma distinct_cut:
  assumes "distinct xs" and "i < length xs"
  shows "distinct (take i xs @ drop (Suc i) xs)" and "set (take i xs @ drop (Suc i) xs) = set xs - {xs ! i}"
  using assms
proof (induction xs arbitrary: i)
  case (Cons x xs)
  case 1
  show ?case using Cons.IH [of "i - 1"] 1 by (cases i) auto
next
  case (Cons x xs)
  case 2
  show ?case
  proof (cases i)
    case (Suc j)
    then have j: "distinct xs" "j < length xs" "x \<notin> set xs" using 2 by auto
    then have "x \<noteq> xs ! j" using nth_mem [OF j(2)] by auto
    moreover have "set (take j xs @ drop (Suc j) xs) = set xs - {xs ! j}" by (rule Cons.IH(2) [OF j(1,2)])
    ultimately show ?thesis using Suc by (simp add: insert_Diff_if)
  qed (use 2 in simp)
qed simp_all

lemma held_free:
  assumes h: "mp_held n held s" and i: "i < length held"
  shows "\<exists>s'. rt_mp_free (held ! i) s = Some s' \<and> mp_blocks (mempools s' n) = mp_blocks (mempools s n) \<and>
    mp_held n (take i held @ drop (Suc i) held) s'"
proof -
  have k: "kernel_ok s" "mp_ok n s" "distinct held" using h by (auto simp: mp_held_def)
  have "held ! i \<in> (\<lambda>b. b + 8) ` (set (mp_blocks (mempools s n)) - set (mp_frees n s))"
    using h nth_mem [OF i] by (simp add: mp_held_def)
  then obtain b where b: "held ! i = b + 8" "b \<in> set (mp_blocks (mempools s n))" "b \<notin> set (mp_frees n s)" by auto
  obtain s' where s': "rt_mp_free (b + 8) s = Some s'" "kernel_ok s'" "mp_ok n s'" "mp_view n s' = mp_spec_free b (mp_view n s)"
    "mp_blocks (mempools s' n) = mp_blocks (mempools s n)"
    using free_ok [OF k(1,2) b(2,3)] by blast
  note d = distinct_cut [OF k(3) i]
  have "set held - {b + 8} = (\<lambda>b. b + 8) ` (set (mp_blocks (mempools s n)) - set (b # mp_frees n s))"
    using h by (auto simp: mp_held_def)
  then show ?thesis using s' d b(1) by (simp add: mp_held_def mp_view_def)
qed

lemma mp_client_ok:
  assumes "mp_held n held s"
  shows "\<exists>held' s'. mp_client n ops held s = Some (held', s') \<and> mp_held n held' s' \<and>
    mp_blocks (mempools s' n) = mp_blocks (mempools s n)"
  using assms
proof (induction ops arbitrary: held s)
  case (Cons op ops)
  show ?case
  proof (cases op)
    case Alloc
    then show ?thesis using held_alloc [OF Cons.prems] Cons.IH by fastforce
  next
    case (Free i)
    then show ?thesis using held_free [OF Cons.prems, of i] Cons.IH Cons.prems by (cases "i < length held") fastforce+
  qed
qed simp

section \<open>Properties\<close>

text \<open>A pool of two blocks of 16 bytes at address 4096, of which \<open>k\<close> are free; thread 5 waits.\<close>

definition demo_mp :: "u64 \<Rightarrow> kernel" where
  "demo_mp k = (demo_wait (Mp_wait 7) (Mp_obj 7) 0x88)\<lparr>
     mempools := (\<lambda>_. \<lparr>start_address = 4096, mp_size = 48, block_size = 16,
       block_list = (if k = 0 then 0 else if k = 1 then 4120 else 4096), block_total_count = 2, block_free_count = k\<rparr>),
     memory := (\<lambda>a. if a = 4096 then (if k = 2 then 4120 else 7) else if a = 4120 then (if k = 0 then 7 else 0) else 0)\<rparr>"

lemma demo_mp_blocks [simp]: "mp_blocks (mempools (demo_mp k) 7) = [4096, 4120]"
  by (simp add: mp_blocks_def demo_mp_def mp_addr_def upt_rec)

lemma demo_mp_frees: "mp_frees 7 (demo_mp 0) = []" "mp_frees 7 (demo_mp 1) = [4120]" "mp_frees 7 (demo_mp 2) = [4096, 4120]"
  by (simp_all add: mp_frees_def demo_mp_def)

lemma demo_mp_ok:
  assumes "k \<in> {0, 1, 2}"
  shows "may_block (demo_mp k)" "kernel_ok (demo_mp k)" "mp_ok 7 (demo_mp k)"
proof -
  have "may_block (demo_wait (Mp_wait 7) (Mp_obj 7) 0x88)" by (rule mp_wait.demo_wait_may_block) auto
  then show b: "may_block (demo_mp k)" by (simp add: may_block_def demo_mp_def)
  then show "kernel_ok (demo_mp k)" by (rule may_blockD)
  have "is_mp 7 (demo_mp k)" by (simp add: is_mp_def demo_mp_def rt_object_get_type_def)
  moreover have "mp_region_ok (mempools (demo_mp k) 7)" by (simp add: mp_region_ok_def demo_mp_def)
  ultimately show "mp_ok 7 (demo_mp k)"
    using assms demo_mp_frees by (auto simp: mp_ok_def) (auto simp: demo_mp_def)
qed

lemma demo_mp_view:
  "mp_view 7 (demo_mp 0) = ([], [5])" "mp_view 7 (demo_mp 1) = ([4120], [5])" "mp_view 7 (demo_mp 2) = ([4096, 4120], [5])"
  by (simp_all add: mp_view_def demo_mp_frees) (simp_all add: demo_mp_def)

text \<open>C23. \<^verbatim>\<open>rt_mp_alloc\<close> implements the abstract pool: it hands out the first free block (the address behind its link
  word); with none free it returns \<^verbatim>\<open>RT_NULL\<close> and sets \<^verbatim>\<open>-RT_ETIMEOUT\<close> when it may not wait, otherwise the caller goes to
  the front of the waiting threads and another thread runs. The pool stays well-formed, and so does every pool whose
  blocks lie elsewhere.\<close>

theorem pool_alloc_refines:
  assumes "kernel_ok s" and "mp_ok n s" and "time = 0 \<or> may_block s \<and> time < 0x7FFFFFFF"
  shows "\<exists>r s'. rt_mp_alloc n time s = Some (r, s') \<and> kernel_ok s' \<and> mp_ok n s' \<and>
    (r, mp_view n s') = mp_spec_alloc (time \<noteq> 0) (current_thread s) (mp_view n s) \<and>
    (r = Some 0 \<longrightarrow> rt_get_errno s' = - RT_ETIMEOUT) \<and>
    (\<forall>m. mp_disjoint m n s \<and> mp_ok m s \<longrightarrow> mp_ok m s')"
proof (cases "mp_frees n s")
  case (Cons b fs)
  note d = mp_okD [OF assms(2)]
  have "b + 8 \<noteq> 0" using user_ptr(2) [OF d(3), of b] d(6) Cons by auto
  then show ?thesis
    using take_ok [OF assms(2) Cons] alloc_now(2) [OF assms(1,2) Cons, of time] assms(1) Cons by (auto simp: mp_view_def)
next
  case Nil
  show ?thesis
  proof (cases "time = 0")
    case True
    then show ?thesis using alloc_now(1) [OF assms(1,2) Nil] Nil assms(1,2) errno_same [of _ s] by (simp add: mp_view_def)
  next
    case False
    have "n \<noteq> 0" using mp_okD(1) [OF assms(2)] by (simp add: is_mp_def)
    then show ?thesis
      using alloc_blocks [OF _ assms(2) Nil False] assms(3) False Nil by (auto simp: rt_mp_alloc_def mp_view_def)
  qed
qed

theorem pool_alloc_refines_witness:
  "(\<exists>s'. rt_mp_alloc 7 0 (demo_mp 1) = Some (Some 4128, s') \<and> mp_view 7 s' = ([], [5])) \<and>
   (\<exists>s'. rt_mp_alloc 7 20 (demo_mp 0) = Some (None, s') \<and> mp_view 7 s' = ([], [3, 5]))"
proof
  show "\<exists>s'. rt_mp_alloc 7 0 (demo_mp 1) = Some (Some 4128, s') \<and> mp_view 7 s' = ([], [5])"
    using pool_alloc_refines [OF demo_mp_ok(2,3), of 1 0] by (auto simp: demo_mp_view)
  have "current_thread (demo_mp 0) = 3" by (simp add: demo_mp_def)
  then show "\<exists>s'. rt_mp_alloc 7 20 (demo_mp 0) = Some (None, s') \<and> mp_view 7 s' = ([], [3, 5])"
    using pool_alloc_refines [OF demo_mp_ok(2,3), of 0 20] demo_mp_ok(1) [of 0] by (auto simp: demo_mp_view)
qed

text \<open>\<^verbatim>\<open>rt_mp_free\<close> implements the abstract pool: the pool is found through the link word, the block becomes the
  first free block, and the thread at the front of the waiting threads, if there is one, is woken without an error.\<close>

theorem pool_free_refines:
  assumes "kernel_ok s" and "mp_ok n s" and "b \<in> set (mp_blocks (mempools s n))" and "b \<notin> set (mp_frees n s)"
  shows "\<exists>s'. rt_mp_free (b + 8) s = Some s' \<and> kernel_ok s' \<and> mp_ok n s' \<and>
    mp_view n s' = mp_spec_free b (mp_view n s) \<and>
    (\<forall>t ts. items (tlists s) (Mp_wait n) = t # ts \<longrightarrow> awake s' t \<and> thread_error (threads s' t) = RT_EOK) \<and>
    (\<forall>m. mp_disjoint m n s \<and> mp_ok m s \<longrightarrow> mp_ok m s')"
  using free_ok [OF assms] by blast

theorem pool_free_refines_witness:
  "\<exists>s'. rt_mp_free 4104 (demo_mp 1) = Some s' \<and> mp_view 7 s' = ([4096, 4120], []) \<and> awake s' 5"
  using pool_free_refines [OF demo_mp_ok(2,3), of 1 4096] by (auto simp: demo_mp_view demo_mp_frees) (auto simp: demo_mp_def)

text \<open>C24. A pool set up by \<^verbatim>\<open>rt_mp_init\<close> over a region with room for a block is well-formed: as many blocks as fit, all
  free, each with at least the requested size, inside the region, no two of them sharing a byte.\<close>

theorem pool_init_blocks:
  assumes "kernel_ok s" "obj_ok s" "quiet s" "home (olists s) (Mp_obj n) = None" "items (tlists s) (Mp_wait n) = []"
    and "n \<noteq> 0" "n < 2 ^ 64" and "start \<noteq> 0" "bsize \<noteq> 0" "unat bsize + 11 < 2 ^ 64" "unat start + unat sz \<le> 2 ^ 64"
    and "unat (align_up bsize) + 8 \<le> unat (align_down sz)"
  shows "\<exists>s'. rt_mp_init n name start sz bsize s = Some (RT_EOK, s') \<and> kernel_ok s' \<and> mp_ok n s' \<and>
    mp_view n s' = (mp_blocks (mempools s' n), []) \<and>
    length (mp_frees n s') = unat (align_down sz) div (unat (align_up bsize) + 8) \<and>
    (\<forall>a \<in> set (mp_frees n s'). unat start \<le> unat a \<and> unat a + 8 + unat bsize \<le> unat start + unat sz) \<and>
    (\<forall>a \<in> set (mp_frees n s'). \<forall>b \<in> set (mp_frees n s'). a \<noteq> b \<longrightarrow> apart (unat bsize + 8) a b)"
proof -
  define s1 where "s1 = upd_mp n (mp_fresh start sz bsize) (object_attach (Mp_obj n) RT_Object_Class_MemPool name s)"
  let ?mp = "mempools s1 n"
  have mp: "?mp = mp_fresh start sz bsize (mempools s n)" by (simp add: s1_def object_attach_def)
  note r = fresh_region [OF assms(8-11), of "mempools s n", folded mp]
  have bs: "block_size ?mp = align_up bsize" by (simp add: mp)
  have t: "block_total_count ?mp \<noteq> 0" using r(4) assms(12) by (auto simp: bs div_eq_0_iff unat_eq_zero [symmetric])
  have im: "is_mp n s1" using assms(6) by (simp add: s1_def is_mp_def object_attach_def rt_object_get_type_def)
  have "block_free_count ?mp = block_total_count ?mp" by (simp add: mp)
  note f = format_ok [OF im assms(7) r(1) t this]
  have "sz \<noteq> 0" using assms(12) by (auto simp: align_down_def)
  moreover have "align_up bsize + 8 \<noteq> 0" using r(2) by (auto simp: bs)
  ultimately have i: "rt_mp_init n name start sz bsize s = Some (RT_EOK, mp_format n s1)"
    using assms(2-6,8,9) unfolding s1_def by (intro mp_init_eq) (auto simp: word_gt_0)
  have in_region: "unat start \<le> unat a \<and> unat a + 8 + unat bsize \<le> unat start + unat sz" if a: "a \<in> set (mp_blocks ?mp)" for a
  proof -
    obtain j where j: "j < unat (block_total_count ?mp)" "a = mp_addr ?mp j" using a by (auto simp: mp_blocks_iff)
    have "Suc j * (unat (block_size ?mp) + 8) \<le> unat sz"
      using mult_le_mono1 [of "Suc j" "unat (block_total_count ?mp)" "unat (block_size ?mp) + 8"] j(1) r(5) by linarith
    then show ?thesis using unat_mp_addr(1) [OF r(1) j(1)] j(2) r(3) by (simp add: mp)
  qed
  have "apart (unat bsize + 8) a b" if "a \<in> set (mp_blocks ?mp)" "b \<in> set (mp_blocks ?mp)" "a \<noteq> b" for a b
    using mp_blocks_apart [OF r(1) that] r(3) by (auto simp: apart_def)
  moreover have "kernel_ok s1" "items (tlists s1) (Mp_wait n) = []" using assms(1,5) by (simp_all add: s1_def) (simp add: object_attach_def)
  ultimately show ?thesis using i f in_region r(4) bs by (auto simp: mp_view_def)
qed

theorem pool_init_blocks_witness:
  "\<exists>s'. rt_mp_init 7 ''pool'' 4096 60 13 demo_kernel = Some (RT_EOK, s') \<and> mp_ok 7 s' \<and> length (mp_frees 7 s') = 2"
proof -
  have o: "obj_ok demo_kernel" "home (olists demo_kernel) (Mp_obj 7) = None" "items (tlists demo_kernel) (Mp_wait 7) = []"
    by (simp_all add: obj_ok_def demo_kernel_def boot_kernel_def empty_lstore_def lstore_ok_def)
  have a: "align_up 13 = 16" "align_down 60 = 60" by (simp_all add: align_up_def align_down_def)
  show ?thesis
    using pool_init_blocks [OF demo_kernel_full o(1) demo_quiet o(2,3), of 4096 13 60 "''pool''"] by (auto simp: a)
qed

text \<open>C25. Safety of a pool over any sequence of allocations and frees: starting with all blocks free, what the callers hold
  is always exactly what is not free, no two of them share a byte, and none is lost: held and free blocks together are
  the blocks of the pool.\<close>

theorem pool_never_shares:
  assumes "kernel_ok s" and "mp_ok n s" and "set (mp_frees n s) = set (mp_blocks (mempools s n))"
  shows "\<exists>held s'. mp_client n ops [] s = Some (held, s') \<and> mp_ok n s' \<and> distinct held \<and>
    length held + length (mp_frees n s') = unat (block_total_count (mempools s n)) \<and>
    set held = (\<lambda>b. b + 8) ` (set (mp_blocks (mempools s n)) - set (mp_frees n s')) \<and>
    (\<forall>p \<in> set held. \<forall>q \<in> set held. p \<noteq> q \<longrightarrow> apart (unat (block_size (mempools s n)) + 8) p q)"
proof -
  have "mp_held n [] s" using assms by (simp add: mp_held_def)
  then obtain held s' where h: "mp_client n ops [] s = Some (held, s')" "mp_held n held s'"
    "mp_blocks (mempools s' n) = mp_blocks (mempools s n)"
    using mp_client_ok by blast
  let ?B = "set (mp_blocks (mempools s n))" and ?F = "set (mp_frees n s')"
  note r = mp_okD(3) [OF assms(2)] and d = mp_okD [of n s']
  have ok: "mp_ok n s'" "distinct held" "set held = (\<lambda>b. b + 8) ` (?B - ?F)" using h(2,3) by (auto simp: mp_held_def)
  have "length held = card ((\<lambda>b. b + 8) ` (?B - ?F))" using distinct_card [OF ok(2)] ok(3) by simp
  also have "\<dots> = card (?B - ?F)" by (rule card_image) (simp add: inj_on_def)
  also have "\<dots> = card ?B - card ?F" using d(6) [OF ok(1)] h(3) by (intro card_Diff_subset) auto
  finally have "length held + length (mp_frees n s') = unat (block_total_count (mempools s n))"
    using distinct_card [OF distinct_mp_blocks [OF r]] distinct_card [OF d(5) [OF ok(1)]]
      card_mono [OF finite_set d(6) [OF ok(1)]] h(3) by simp
  moreover have "apart (unat (block_size (mempools s n)) + 8) p q" if pq: "p \<in> set held" "q \<in> set held" "p \<noteq> q" for p q
  proof -
    obtain a b where "a \<in> ?B" "b \<in> ?B" "p = a + 8" "q = b + 8" "a \<noteq> b" using pq unfolding ok(3) by auto
    then show ?thesis
      using mp_blocks_apart [OF r, of a b] user_ptr(1) [OF r, of a] user_ptr(1) [OF r, of b] by (auto simp: apart_def)
  qed
  ultimately show ?thesis using h(1) ok by blast
qed

theorem pool_never_shares_witness:
  "\<exists>held s'. mp_client 7 [Alloc, Alloc, Free 0, Alloc, Alloc] [] (demo_mp 2) = Some (held, s') \<and> distinct held \<and>
    length held + length (mp_frees 7 s') = 2"
  using pool_never_shares [OF demo_mp_ok(2,3), of 2 "[Alloc, Alloc, Free 0, Alloc, Alloc]"]
  by (auto simp: demo_mp_frees) (auto simp: demo_mp_def)

text \<open>A region too small for one block: \<^verbatim>\<open>rt_mp_init\<close> still reports success, and writes its end mark one block in
  front of the region, over memory that is not its own; the pool then has no block to give.\<close>

theorem pool_init_underruns:
  assumes "kernel_ok s" "obj_ok s" "quiet s" "home (olists s) (Mp_obj n) = None" "items (tlists s) (Mp_wait n) = []"
    and "n \<noteq> 0" and "start \<noteq> 0" "sz \<noteq> 0" "bsize \<noteq> 0" "unat bsize + 11 < 2 ^ 64"
    and "unat (align_down sz) < unat (align_up bsize) + 8"
  shows "\<exists>s'. rt_mp_init n name start sz bsize s = Some (RT_EOK, s') \<and>
    memory s' = (memory s)(start - (align_up bsize + 8) := 0) \<and> mp_frees n s' = []"
proof -
  define s1 where "s1 = upd_mp n (mp_fresh start sz bsize) (object_attach (Mp_obj n) RT_Object_Class_MemPool name s)"
  have "unat (align_up bsize) = (unat bsize + 3) div 4 * 4" using assms(10) by (intro unat_align_up) simp
  moreover have "(unat bsize + 3) div 4 * 4 \<le> unat bsize + 3" by simp
  ultimately have bs: "unat (align_up bsize + 8) = unat (align_up bsize) + 8"
    using assms(10) by (subst unat_word_ariths) simp
  have "unat (align_down sz div (align_up bsize + 8)) = 0" using assms(11) bs by (simp add: unat_div)
  then have t: "block_total_count (mempools s1 n) = 0" by (simp add: s1_def unat_eq_zero)
  have "align_up bsize + 8 \<noteq> 0" using bs by auto
  then have "rt_mp_init n name start sz bsize s = Some (RT_EOK, mp_format n s1)"
    using assms(2-9) unfolding s1_def by (intro mp_init_eq) (auto simp: word_gt_0)
  moreover have "memory (mp_format n s1) = (memory s)(start - (align_up bsize + 8) := 0)"
    using format_empty [OF t] by (simp add: s1_def) (simp add: object_attach_def)
  moreover have "mp_frees n (mp_format n s1) = []" using t by (simp add: mp_frees_Nil) (simp add: s1_def)
  ultimately show ?thesis by blast
qed

theorem pool_init_underruns_witness:
  "\<exists>s'. rt_mp_init 7 ''tiny'' 4096 20 16 demo_kernel = Some (RT_EOK, s') \<and> memory s' = (memory demo_kernel)(4072 := 0) \<and>
    mp_frees 7 s' = []"
proof -
  have o: "obj_ok demo_kernel" "home (olists demo_kernel) (Mp_obj 7) = None" "items (tlists demo_kernel) (Mp_wait 7) = []"
    by (simp_all add: obj_ok_def demo_kernel_def boot_kernel_def empty_lstore_def lstore_ok_def)
  have a: "align_up 16 = 16" "align_down 20 = 20" by (simp_all add: align_up_def align_down_def)
  show ?thesis
    using pool_init_underruns [OF demo_kernel_full o(1) demo_quiet o(2,3), of 4096 20 16 "''tiny''"] by (auto simp: a)
qed

end
