(* ===== verification/Rt_Device.thy ===== *)
theory Rt_Device
  imports Rt_Errno
begin

text \<open>
  The device framework of \<^verbatim>\<open>src/device.c\<close>: registration by name, opening and closing with a reference counter, and
  the dispatch to the functions of the driver. The drivers are outside: \<open>ops\<close> gives the function table of every device,
  with \<open>None\<close> for a null pointer; a driver function acts on the kernel state.
\<close>

section \<open>Operations\<close>

abbreviation (input) RT_DEVICE_FLAG_STANDALONE :: u16 where "RT_DEVICE_FLAG_STANDALONE \<equiv> 0x008"
abbreviation (input) RT_DEVICE_FLAG_ACTIVATED :: u16 where "RT_DEVICE_FLAG_ACTIVATED \<equiv> 0x010"
abbreviation (input) RT_DEVICE_OFLAG_CLOSE :: u16 where "RT_DEVICE_OFLAG_CLOSE \<equiv> 0x000"
abbreviation (input) RT_DEVICE_OFLAG_OPEN :: u16 where "RT_DEVICE_OFLAG_OPEN \<equiv> 0x008"
abbreviation (input) RT_DEVICE_OFLAG_MASK :: u16 where "RT_DEVICE_OFLAG_MASK \<equiv> 0xf0f"

text \<open>\<^verbatim>\<open>struct rt_device_ops\<close>.\<close>

record dev_ops =
  op_init :: "(nat \<Rightarrow> kernel \<Rightarrow> (rt_err_t \<times> kernel) option) option"
  op_open :: "(nat \<Rightarrow> u16 \<Rightarrow> kernel \<Rightarrow> (rt_err_t \<times> kernel) option) option"
  op_close :: "(nat \<Rightarrow> kernel \<Rightarrow> (rt_err_t \<times> kernel) option) option"
  op_read :: "(nat \<Rightarrow> int \<Rightarrow> u64 \<Rightarrow> u64 \<Rightarrow> kernel \<Rightarrow> (u64 \<times> kernel) option) option"
  op_write :: "(nat \<Rightarrow> int \<Rightarrow> u64 \<Rightarrow> u64 \<Rightarrow> kernel \<Rightarrow> (u64 \<times> kernel) option) option"
  op_control :: "(nat \<Rightarrow> int \<Rightarrow> u64 \<Rightarrow> kernel \<Rightarrow> (rt_err_t \<times> kernel) option) option"

definition is_device :: "nat \<Rightarrow> kernel \<Rightarrow> bool" where
  "is_device d s = (d \<noteq> 0 \<and> rt_object_get_type (obj_type s (Device_obj d)) = RT_Object_Class_Device)"

definition upd_dev :: "nat \<Rightarrow> (rt_device \<Rightarrow> rt_device) \<Rightarrow> kernel \<Rightarrow> kernel" where
  "upd_dev d f s = s\<lparr>devices := (devices s)(d := f (devices s d))\<rparr>"

definition rt_device_find :: "string \<Rightarrow> kernel \<Rightarrow> (obj option \<times> kernel) option" where
  "rt_device_find name s = rt_object_find (Some name) RT_Object_Class_Device s"

definition rt_device_register :: "nat \<Rightarrow> string \<Rightarrow> u16 \<Rightarrow> kernel \<Rightarrow> (rt_err_t \<times> kernel) option" where
  "rt_device_register d name flags s =
     (if d = 0 then Some (- RT_ERROR, s)
      else do {
        (r, s) \<leftarrow> rt_device_find name s;
        if r \<noteq> None then Some (- RT_ERROR, s)
        else do {
          s \<leftarrow> rt_object_init (Device_obj d) RT_Object_Class_Device name s;
          Some (RT_EOK, upd_dev d (\<lambda>dev. dev\<lparr>dev_flag := flags, ref_count := 0, open_flag := 0\<rparr>) s)
        }
      })"

definition rt_device_unregister :: "nat \<Rightarrow> kernel \<Rightarrow> (rt_err_t \<times> kernel) option" where
  "rt_device_unregister d s = do {
     rt_assert (is_device d s);
     rt_assert (rt_object_is_systemobject (obj_type s (Device_obj d)));
     Some (RT_EOK, rt_object_detach (Device_obj d) s)
   }"

text \<open>The address the heap returns is the second argument; the structure is cleared, its object header included.\<close>

definition rt_device_create :: "int \<Rightarrow> nat option \<Rightarrow> kernel \<Rightarrow> nat option \<times> kernel" where
  "rt_device_create ty mem s =
     (case mem of
        None \<Rightarrow> (None, s)
      | Some d \<Rightarrow> (Some d, upd_dev d (\<lambda>_. (devices boot_kernel d)\<lparr>dev_type := ty\<rparr>)
          (s\<lparr>obj_type := (obj_type s)(Device_obj d := 0), obj_name := (obj_name s)(Device_obj d := [])\<rparr>)))"

definition rt_device_destroy :: "nat \<Rightarrow> kernel \<Rightarrow> kernel option" where
  "rt_device_destroy d s = do {
     rt_assert (is_device d s);
     rt_assert (\<not> rt_object_is_systemobject (obj_type s (Device_obj d)));
     Some (rt_object_detach (Device_obj d) s)
   }"

abbreviation activated :: "rt_device \<Rightarrow> bool" where
  "activated dev \<equiv> dev_flag dev AND RT_DEVICE_FLAG_ACTIVATED \<noteq> 0"

abbreviation activate :: "rt_device \<Rightarrow> rt_device" where
  "activate dev \<equiv> dev\<lparr>dev_flag := dev_flag dev OR RT_DEVICE_FLAG_ACTIVATED\<rparr>"

definition rt_device_init :: "(nat \<Rightarrow> dev_ops) \<Rightarrow> nat \<Rightarrow> kernel \<Rightarrow> (rt_err_t \<times> kernel) option" where
  "rt_device_init ops d s = do {
     rt_assert (d \<noteq> 0);
     case op_init (ops d) of
       None \<Rightarrow> Some (RT_EOK, s)
     | Some f \<Rightarrow>
         if activated (devices s d) then Some (RT_EOK, s)
         else do {
           (result, s) \<leftarrow> f d s;
           if result \<noteq> RT_EOK then Some (result, s)
           else Some (result, upd_dev d activate s)
         }
   }"

text \<open>The first part of \<^verbatim>\<open>rt_device_open\<close>: a device that is not yet active is initialised.\<close>

definition dev_activate :: "(nat \<Rightarrow> dev_ops) \<Rightarrow> nat \<Rightarrow> kernel \<Rightarrow> (rt_err_t \<times> kernel) option" where
  "dev_activate ops d s =
     (if activated (devices s d) then Some (RT_EOK, s)
      else case op_init (ops d) of
        None \<Rightarrow> Some (RT_EOK, upd_dev d activate s)
      | Some f \<Rightarrow> do {
          (result, s) \<leftarrow> f d s;
          if result \<noteq> RT_EOK then Some (result, s)
          else Some (result, upd_dev d activate s)
        })"

definition rt_device_open :: "(nat \<Rightarrow> dev_ops) \<Rightarrow> nat \<Rightarrow> u16 \<Rightarrow> kernel \<Rightarrow> (rt_err_t \<times> kernel) option" where
  "rt_device_open ops d oflag s = do {
     rt_assert (is_device d s);
     (result, s) \<leftarrow> dev_activate ops d s;
     if result \<noteq> RT_EOK then Some (result, s)
     else if dev_flag (devices s d) AND RT_DEVICE_FLAG_STANDALONE \<noteq> 0 \<and>
             open_flag (devices s d) AND RT_DEVICE_OFLAG_OPEN \<noteq> 0
     then Some (- RT_EBUSY, s)
     else do {
       (result, s) \<leftarrow> (case op_open (ops d) of
           Some f \<Rightarrow> f d oflag s
         | None \<Rightarrow> Some (result, upd_dev d (\<lambda>dev. dev\<lparr>open_flag := oflag AND RT_DEVICE_OFLAG_MASK\<rparr>) s));
       if result = RT_EOK \<or> result = - RT_ENOSYS then do {
         let s = upd_dev d (\<lambda>dev. dev\<lparr>open_flag := open_flag dev OR RT_DEVICE_OFLAG_OPEN, ref_count := ref_count dev + 1\<rparr>) s;
         rt_assert (ref_count (devices s d) \<noteq> 0);
         Some (result, s)
       }
       else Some (result, s)
     }
   }"

definition rt_device_close :: "(nat \<Rightarrow> dev_ops) \<Rightarrow> nat \<Rightarrow> kernel \<Rightarrow> (rt_err_t \<times> kernel) option" where
  "rt_device_close ops d s = do {
     rt_assert (is_device d s);
     if ref_count (devices s d) = 0 then Some (- RT_ERROR, s)
     else do {
       let s = upd_dev d (\<lambda>dev. dev\<lparr>ref_count := ref_count dev - 1\<rparr>) s;
       if ref_count (devices s d) \<noteq> 0 then Some (RT_EOK, s)
       else do {
         (result, s) \<leftarrow> (case op_close (ops d) of Some f \<Rightarrow> f d s | None \<Rightarrow> Some (RT_EOK, s));
         if result = RT_EOK \<or> result = - RT_ENOSYS
         then Some (result, upd_dev d (\<lambda>dev. dev\<lparr>open_flag := RT_DEVICE_OFLAG_CLOSE\<rparr>) s)
         else Some (result, s)
       }
     }
   }"

definition rt_device_read :: "(nat \<Rightarrow> dev_ops) \<Rightarrow> nat \<Rightarrow> int \<Rightarrow> u64 \<Rightarrow> u64 \<Rightarrow> kernel \<Rightarrow> (u64 \<times> kernel) option" where
  "rt_device_read ops d pos buffer sz s = do {
     rt_assert (is_device d s);
     if ref_count (devices s d) = 0 then Some (0, rt_set_errno (- RT_ERROR) s)
     else case op_read (ops d) of
       Some f \<Rightarrow> f d pos buffer sz s
     | None \<Rightarrow> Some (0, rt_set_errno (- RT_ENOSYS) s)
   }"

definition rt_device_write :: "(nat \<Rightarrow> dev_ops) \<Rightarrow> nat \<Rightarrow> int \<Rightarrow> u64 \<Rightarrow> u64 \<Rightarrow> kernel \<Rightarrow> (u64 \<times> kernel) option" where
  "rt_device_write ops d pos buffer sz s = do {
     rt_assert (is_device d s);
     if ref_count (devices s d) = 0 then Some (0, rt_set_errno (- RT_ERROR) s)
     else case op_write (ops d) of
       Some f \<Rightarrow> f d pos buffer sz s
     | None \<Rightarrow> Some (0, rt_set_errno (- RT_ENOSYS) s)
   }"

definition rt_device_control :: "(nat \<Rightarrow> dev_ops) \<Rightarrow> nat \<Rightarrow> int \<Rightarrow> u64 \<Rightarrow> kernel \<Rightarrow> (rt_err_t \<times> kernel) option" where
  "rt_device_control ops d cmd arg s = do {
     rt_assert (is_device d s);
     case op_control (ops d) of
       Some f \<Rightarrow> f d cmd arg s
     | None \<Rightarrow> Some (- RT_ENOSYS, s)
   }"

definition rt_device_set_rx_indicate :: "nat \<Rightarrow> u64 \<Rightarrow> kernel \<Rightarrow> (rt_err_t \<times> kernel) option" where
  "rt_device_set_rx_indicate d f s = do {
     rt_assert (is_device d s);
     Some (RT_EOK, upd_dev d (\<lambda>dev. dev\<lparr>rx_indicate := f\<rparr>) s)
   }"

definition rt_device_set_tx_complete :: "nat \<Rightarrow> u64 \<Rightarrow> kernel \<Rightarrow> (rt_err_t \<times> kernel) option" where
  "rt_device_set_tx_complete d f s = do {
     rt_assert (is_device d s);
     Some (RT_EOK, upd_dev d (\<lambda>dev. dev\<lparr>tx_complete := f\<rparr>) s)
   }"

section \<open>Opening and closing\<close>

lemma upd_dev_fields [simp]:
  "devices (upd_dev d f s) = (devices s)(d := f (devices s d))" "obj_type (upd_dev d f s) = obj_type s"
  "is_device e (upd_dev d f s) = is_device e s"
  by (simp_all add: upd_dev_def is_device_def)

text \<open>What is relied on of a driver that works: its functions return without error and leave the bookkeeping of
  the framework alone, but for the open flags, which \<^verbatim>\<open>open\<close> may set.\<close>

definition dev_same :: "nat \<Rightarrow> kernel \<Rightarrow> kernel \<Rightarrow> bool" where
  "dev_same d s s' = (obj_type s' (Device_obj d) = obj_type s (Device_obj d) \<and> devices s' d = devices s d)"

definition driver_ok :: "(nat \<Rightarrow> dev_ops) \<Rightarrow> nat \<Rightarrow> bool" where
  "driver_ok ops d =
     ((\<forall>f s. op_init (ops d) = Some f \<longrightarrow> (\<exists>s'. f d s = Some (RT_EOK, s') \<and> dev_same d s s')) \<and>
      (\<forall>f oflag s. op_open (ops d) = Some f \<longrightarrow>
         (\<exists>s' x. f d oflag s = Some (RT_EOK, s') \<and> dev_same d (upd_dev d (\<lambda>dev. dev\<lparr>open_flag := x\<rparr>) s) s')) \<and>
      (\<forall>f s. op_close (ops d) = Some f \<longrightarrow> (\<exists>s'. f d s = Some (RT_EOK, s') \<and> dev_same d s s')))"

lemma driver_okD:
  assumes "driver_ok ops d"
  shows "op_init (ops d) = Some f \<Longrightarrow> \<exists>s'. f d s = Some (RT_EOK, s') \<and> dev_same d s s'"
    and "op_open (ops d) = Some g \<Longrightarrow>
      \<exists>s' x. g d oflag s = Some (RT_EOK, s') \<and> dev_same d (upd_dev d (\<lambda>dev. dev\<lparr>open_flag := x\<rparr>) s) s'"
    and "op_close (ops d) = Some f \<Longrightarrow> \<exists>s'. f d s = Some (RT_EOK, s') \<and> dev_same d s s'"
  using assms by (simp_all only: driver_ok_def)

text \<open>A device is marked open as long as somebody refers to it, and initialised from the first open on.\<close>

definition dev_ok :: "nat \<Rightarrow> kernel \<Rightarrow> bool" where
  "dev_ok d s = (is_device d s \<and>
     (open_flag (devices s d) AND RT_DEVICE_OFLAG_OPEN \<noteq> 0) = (ref_count (devices s d) \<noteq> 0) \<and>
     (ref_count (devices s d) \<noteq> 0 \<longrightarrow> activated (devices s d)))"

lemma is_device_same: "dev_same d s s' \<Longrightarrow> is_device d s' = is_device d s"
  by (simp add: dev_same_def is_device_def)

lemma or_bit8 [simp]: "((x :: u16) OR 8) AND 8 \<noteq> 0" "((x :: u16) OR 16) AND 16 \<noteq> 0"
  "((x :: u16) OR 16) AND 8 = x AND 8"
  by (simp_all add: bit.conj_disj_distrib2)

lemma activate_ok:
  assumes "driver_ok ops d"
  obtains s' where "dev_activate ops d s = Some (RT_EOK, s')" "is_device d s' = is_device d s"
    "devices s' d = (if activated (devices s d) then devices s d else activate (devices s d))"
proof (cases "activated (devices s d) \<or> op_init (ops d) = None")
  case True
  then show ?thesis by (intro that [of "if activated (devices s d) then s else upd_dev d activate s"]) (auto simp: dev_activate_def)
next
  case False
  then obtain f where f: "op_init (ops d) = Some f" by blast
  then obtain s' where s': "f d s = Some (RT_EOK, s')" "dev_same d s s'" using driver_okD(1) [OF assms] by blast
  note e = is_device_same [OF s'(2)]
  have "devices s' d = devices s d" using s'(2) by (simp add: dev_same_def)
  then show ?thesis
    using False f e s'(1) by (intro that [of "upd_dev d activate s'"]) (simp_all add: dev_activate_def)
qed

lemma open_call:
  assumes "driver_ok ops d"
  obtains s' x where "(case op_open (ops d) of Some f \<Rightarrow> f d oflag s
      | None \<Rightarrow> Some (RT_EOK, upd_dev d (\<lambda>dev. dev\<lparr>open_flag := oflag AND RT_DEVICE_OFLAG_MASK\<rparr>) s)) = Some (RT_EOK, s')"
    "is_device d s' = is_device d s" "devices s' d = (devices s d)\<lparr>open_flag := x\<rparr>"
proof (cases "op_open (ops d)")
  case None
  then show ?thesis by (intro that [of "upd_dev d (\<lambda>dev. dev\<lparr>open_flag := oflag AND 0xf0f\<rparr>) s"]) auto
next
  case (Some f)
  then obtain s' x where s': "f d oflag s = Some (RT_EOK, s')" "dev_same d (upd_dev d (\<lambda>dev. dev\<lparr>open_flag := x\<rparr>) s) s'"
    using driver_okD(2) [OF assms, of f oflag s] by blast
  note e = is_device_same [OF s'(2)]
  have "devices s' d = (devices s d)\<lparr>open_flag := x\<rparr>" using s'(2) by (simp add: dev_same_def)
  then show ?thesis using Some e s'(1) by (intro that [of s' x]) simp_all
qed

lemma close_call:
  assumes "driver_ok ops d"
  obtains s' where "(case op_close (ops d) of Some f \<Rightarrow> f d s | None \<Rightarrow> Some (RT_EOK, s)) = Some (RT_EOK, s')" "dev_same d s s'"
proof (cases "op_close (ops d)")
  case None
  then show ?thesis by (intro that [of s]) (simp_all add: dev_same_def)
next
  case (Some f)
  then show ?thesis using driver_okD(3) [OF assms, of f s] that by auto
qed

definition standalone :: "nat \<Rightarrow> kernel \<Rightarrow> bool" where
  "standalone d s = (dev_flag (devices s d) AND RT_DEVICE_FLAG_STANDALONE \<noteq> 0)"

lemma dev_okD:
  assumes "dev_ok d s"
  shows "is_device d s" "open_flag (devices s d) AND RT_DEVICE_OFLAG_OPEN \<noteq> 0 \<longleftrightarrow> ref_count (devices s d) \<noteq> 0"
    "ref_count (devices s d) \<noteq> 0 \<Longrightarrow> activated (devices s d)"
  using assms by (auto simp: dev_ok_def)

lemma open_busy:
  assumes "dev_ok d s" and "standalone d s" and "ref_count (devices s d) \<noteq> 0"
  shows "rt_device_open ops d oflag s = Some (- RT_EBUSY, s)"
  using dev_okD [OF assms(1)] assms(2,3) by (simp add: rt_device_open_def dev_activate_def standalone_def)

lemma open_ok:
  assumes dr: "driver_ok ops d" and ok: "dev_ok d s" and free: "\<not> (standalone d s \<and> ref_count (devices s d) \<noteq> 0)"
    and lt: "ref_count (devices s d) \<noteq> 255"
  shows "\<exists>s'. rt_device_open ops d oflag s = Some (RT_EOK, s') \<and> dev_ok d s' \<and> standalone d s' = standalone d s \<and>
    ref_count (devices s' d) = ref_count (devices s d) + 1"
proof -
  note o = dev_okD [OF ok]
  obtain s1 where s1: "dev_activate ops d s = Some (RT_EOK, s1)" "is_device d s1 = is_device d s"
    "devices s1 d = (if activated (devices s d) then devices s d else activate (devices s d))"
    using activate_ok [OF dr] by blast
  have f1: "standalone d s1 = standalone d s" "open_flag (devices s1 d) = open_flag (devices s d)"
    "ref_count (devices s1 d) = ref_count (devices s d)" "activated (devices s1 d)"
    by (simp_all add: standalone_def s1(3))
  obtain s2 x where s2: "(case op_open (ops d) of Some f \<Rightarrow> f d oflag s1
      | None \<Rightarrow> Some (RT_EOK, upd_dev d (\<lambda>dev. dev\<lparr>open_flag := oflag AND RT_DEVICE_OFLAG_MASK\<rparr>) s1)) = Some (RT_EOK, s2)"
    "is_device d s2 = is_device d s1" "devices s2 d = (devices s1 d)\<lparr>open_flag := x\<rparr>"
    using open_call [OF dr] by blast
  have nz: "ref_count (devices s d) + 1 \<noteq> 0"
  proof
    assume "ref_count (devices s d) + 1 = 0"
    then have "ref_count (devices s d) = - 1" by (simp only: eq_neg_iff_add_eq_0)
    then show False using lt by simp
  qed
  show ?thesis
  proof (intro exI conjI)
    let ?s' = "upd_dev d (\<lambda>dev. dev\<lparr>open_flag := open_flag dev OR RT_DEVICE_OFLAG_OPEN, ref_count := ref_count dev + 1\<rparr>) s2"
    have "\<not> (dev_flag (devices s1 d) AND 8 \<noteq> 0 \<and> open_flag (devices s1 d) AND 8 \<noteq> 0)"
      using free f1 o(2) by (auto simp: standalone_def)
    then show "rt_device_open ops d oflag s = Some (RT_EOK, ?s')"
      using o(1) s1(1) s2(1,3) f1(3) nz by (simp add: rt_device_open_def Let_def)
    show "dev_ok d ?s'" using o(1) s1(2) s2(2,3) f1(3,4) nz by (simp add: dev_ok_def)
    show "standalone d ?s' = standalone d s" using s2(3) f1(1) by (simp add: standalone_def)
    show "ref_count (devices ?s' d) = ref_count (devices s d) + 1" using s2(3) f1(3) by simp
  qed
qed

lemma close_ok:
  assumes dr: "driver_ok ops d" and ok: "dev_ok d s" and some: "ref_count (devices s d) \<noteq> 0"
  shows "\<exists>s'. rt_device_close ops d s = Some (RT_EOK, s') \<and> dev_ok d s' \<and> standalone d s' = standalone d s \<and>
    ref_count (devices s' d) = ref_count (devices s d) - 1"
proof -
  note o = dev_okD [OF ok]
  let ?s1 = "upd_dev d (\<lambda>dev. dev\<lparr>ref_count := ref_count dev - 1\<rparr>) s"
  show ?thesis
  proof (cases "ref_count (devices s d) - 1 = 0")
    case False
    then show ?thesis
      using o some by (intro exI [of _ ?s1]) (simp add: rt_device_close_def dev_ok_def standalone_def Let_def)
  next
    case True
    obtain s2 where s2: "(case op_close (ops d) of Some f \<Rightarrow> f d ?s1 | None \<Rightarrow> Some (RT_EOK, ?s1)) = Some (RT_EOK, s2)"
      "dev_same d ?s1 s2"
      using close_call [OF dr] by blast
    have e: "is_device d s2" "devices s2 d = (devices s d)\<lparr>ref_count := 0\<rparr>"
      using o(1) True is_device_same [OF s2(2)] s2(2) by (simp_all add: dev_same_def)
    show ?thesis
      using o(1) some True s2(1) e
      by (intro exI [of _ "upd_dev d (\<lambda>dev. dev\<lparr>open_flag := 0\<rparr>) s2"])
        (simp add: rt_device_close_def dev_ok_def standalone_def Let_def)
  qed
qed

text \<open>Callers that open and close a device, and what they should see: a counter.\<close>

datatype dev_op = Dopen u16 | Dclose

fun dev_run :: "(nat \<Rightarrow> dev_ops) \<Rightarrow> nat \<Rightarrow> dev_op list \<Rightarrow> kernel \<Rightarrow> (rt_err_t list \<times> kernel) option" where
  "dev_run ops d [] s = Some ([], s)"
| "dev_run ops d (Dopen oflag # cs) s = do {
     (r, s) \<leftarrow> rt_device_open ops d oflag s;
     (rs, s) \<leftarrow> dev_run ops d cs s;
     Some (r # rs, s)
   }"
| "dev_run ops d (Dclose # cs) s = do {
     (r, s) \<leftarrow> rt_device_close ops d s;
     (rs, s) \<leftarrow> dev_run ops d cs s;
     Some (r # rs, s)
   }"

fun dev_spec :: "bool \<Rightarrow> dev_op list \<Rightarrow> nat \<Rightarrow> rt_err_t list \<times> nat" where
  "dev_spec alone [] k = ([], k)"
| "dev_spec alone (Dopen _ # cs) k =
     (if alone \<and> 0 < k then apfst ((#) (- RT_EBUSY)) (dev_spec alone cs k)
      else apfst ((#) RT_EOK) (dev_spec alone cs (Suc k)))"
| "dev_spec alone (Dclose # cs) k =
     (if k = 0 then apfst ((#) (- RT_ERROR)) (dev_spec alone cs 0)
      else apfst ((#) RT_EOK) (dev_spec alone cs (k - 1)))"

lemma dev_step:
  assumes dr: "driver_ok ops d" and ok: "dev_ok d s" and lt: "unat (ref_count (devices s d)) < 255"
  shows "\<exists>r s'. (case c of Dopen oflag \<Rightarrow> rt_device_open ops d oflag s | Dclose \<Rightarrow> rt_device_close ops d s) = Some (r, s') \<and>
    dev_ok d s' \<and> standalone d s' = standalone d s \<and>
    unat (ref_count (devices s' d)) \<le> Suc (unat (ref_count (devices s d))) \<and>
    (\<forall>cs. dev_spec (standalone d s) (c # cs) (unat (ref_count (devices s d))) =
       apfst ((#) r) (dev_spec (standalone d s) cs (unat (ref_count (devices s' d)))))"
proof (cases c)
  case (Dopen oflag)
  show ?thesis
  proof (cases "standalone d s \<and> ref_count (devices s d) \<noteq> 0")
    case True
    then show ?thesis using open_busy [OF ok, of ops oflag] ok Dopen by (simp add: unat_gt_0)
  next
    case False
    have ne: "ref_count (devices s d) \<noteq> 255" using lt by auto
    have "unat (ref_count (devices s d) + 1) = Suc (unat (ref_count (devices s d)))"
      using lt by (subst unat_word_ariths) simp
    moreover have "\<not> (standalone d s \<and> 0 < unat (ref_count (devices s d)))" using False by (simp add: unat_gt_0)
    ultimately show ?thesis using open_ok [OF dr ok False ne, of oflag] Dopen by auto
  qed
next
  case Dclose
  show ?thesis
  proof (cases "ref_count (devices s d) = 0")
    case True
    then show ?thesis using ok Dclose dev_okD(1) [OF ok] by (simp add: rt_device_close_def)
  next
    case False
    have "unat (ref_count (devices s d) - 1) = unat (ref_count (devices s d)) - 1" using unat_pred [OF False] by simp
    then show ?thesis using close_ok [OF dr ok False] Dclose False by (auto simp: unat_eq_zero)
  qed
qed

lemma dev_run_Cons:
  "dev_run ops d (c # cs) s = do {
     (r, s) \<leftarrow> (case c of Dopen oflag \<Rightarrow> rt_device_open ops d oflag s | Dclose \<Rightarrow> rt_device_close ops d s);
     (rs, s) \<leftarrow> dev_run ops d cs s;
     Some (r # rs, s)
   }"
  by (cases c) auto

lemma dev_run_ok:
  assumes dr: "driver_ok ops d" and "dev_ok d s" and "unat (ref_count (devices s d)) + length cs < 256"
  shows "\<exists>rs s'. dev_run ops d cs s = Some (rs, s') \<and> dev_ok d s' \<and>
    (rs, unat (ref_count (devices s' d))) = dev_spec (standalone d s) cs (unat (ref_count (devices s d)))"
  using assms(2,3)
proof (induction cs arbitrary: s)
  case (Cons c cs)
  have "unat (ref_count (devices s d)) < 255" using Cons.prems(2) by simp
  then obtain r s1 where s1: "(case c of Dopen oflag \<Rightarrow> rt_device_open ops d oflag s | Dclose \<Rightarrow> rt_device_close ops d s) = Some (r, s1)"
    "dev_ok d s1" "standalone d s1 = standalone d s" "unat (ref_count (devices s1 d)) \<le> Suc (unat (ref_count (devices s d)))"
    "dev_spec (standalone d s) (c # cs) (unat (ref_count (devices s d))) =
       apfst ((#) r) (dev_spec (standalone d s) cs (unat (ref_count (devices s1 d))))"
    using dev_step [OF dr Cons.prems(1), of c] by blast
  have "unat (ref_count (devices s1 d)) + length cs < 256" using Cons.prems(2) s1(4) by simp
  then obtain rs s' where "dev_run ops d cs s1 = Some (rs, s')" "dev_ok d s'"
    "(rs, unat (ref_count (devices s' d))) = dev_spec (standalone d s) cs (unat (ref_count (devices s1 d)))"
    using Cons.IH [OF s1(2)] s1(3) by auto
  then show ?case using s1(1,5) by (auto simp del: dev_run.simps simp: dev_run_Cons) (metis apfst_conv)
qed simp

section \<open>Properties\<close>

text \<open>A driver without an \<^verbatim>\<open>open\<close> function, and a registered stand-alone device 7 that is opened \<open>k\<close> times.\<close>

definition demo_driver :: "bool \<Rightarrow> nat \<Rightarrow> dev_ops" where
  "demo_driver fails _ = \<lparr>op_init = Some (\<lambda>d s. Some (RT_EOK, s)), op_open = None,
     op_close = Some (\<lambda>d s. Some (if fails then - RT_EIO else RT_EOK, s)),
     op_read = None, op_write = None, op_control = None\<rparr>"

definition demo_dev :: "u16 \<Rightarrow> u8 \<Rightarrow> kernel" where
  "demo_dev flags k = demo_kernel\<lparr>obj_type := (obj_type demo_kernel)(Device_obj 7 := 0x89),
     devices := (\<lambda>_. \<lparr>dev_type = 0, dev_flag = flags, open_flag = (if k = 0 then 0 else 8), ref_count = k,
       rx_indicate = 0, tx_complete = 0\<rparr>)\<rparr>"

lemma demo_driver_ok: "driver_ok (demo_driver False) d"
  by (auto simp: driver_ok_def demo_driver_def dev_same_def)

lemma demo_dev_ok: "k \<noteq> 0 \<longrightarrow> flags AND 16 \<noteq> 0 \<Longrightarrow> dev_ok 7 (demo_dev flags k)"
  by (auto simp: dev_ok_def is_device_def demo_dev_def rt_object_get_type_def)

text \<open>C30. Reference counting: over any sequence of opens and closes (fewer than 256, the range of the counter) with a working
  driver, every call returns what a plain counter of references says, in particular \<^verbatim>\<open>-RT_EBUSY\<close> for the second opener of a
  stand-alone device and \<^verbatim>\<open>-RT_ERROR\<close> for a close too many, and the device is marked open exactly while it is in use.\<close>

theorem device_references:
  assumes "driver_ok ops d" and "dev_ok d s" and "unat (ref_count (devices s d)) + length cs < 256"
  shows "\<exists>rs s'. dev_run ops d cs s = Some (rs, s') \<and> dev_ok d s' \<and>
    (rs, unat (ref_count (devices s' d))) = dev_spec (standalone d s) cs (unat (ref_count (devices s d)))"
  by (rule dev_run_ok [OF assms])

theorem device_references_witness:
  "(\<exists>s'. dev_run (demo_driver False) 7 [Dopen 3, Dopen 3, Dclose, Dclose] (demo_dev 8 0) =
      Some ([RT_EOK, - RT_EBUSY, RT_EOK, - RT_ERROR], s')) \<and>
   (\<exists>s'. dev_run (demo_driver False) 7 [Dopen 3, Dopen 3, Dclose] (demo_dev 0 0) = Some ([RT_EOK, RT_EOK, RT_EOK], s') \<and>
      ref_count (devices s' 7) = 1)"
proof
  show "\<exists>s'. dev_run (demo_driver False) 7 [Dopen 3, Dopen 3, Dclose, Dclose] (demo_dev 8 0) =
      Some ([RT_EOK, - RT_EBUSY, RT_EOK, - RT_ERROR], s')"
    using device_references [OF demo_driver_ok demo_dev_ok, of 0 8 "[Dopen 3, Dopen 3, Dclose, Dclose]"]
    by (auto simp: standalone_def demo_dev_def simp del: dev_run.simps)
  show "\<exists>s'. dev_run (demo_driver False) 7 [Dopen 3, Dopen 3, Dclose] (demo_dev 0 0) = Some ([RT_EOK, RT_EOK, RT_EOK], s') \<and>
      ref_count (devices s' 7) = 1"
    using device_references [OF demo_driver_ok demo_dev_ok, of 0 0 "[Dopen 3, Dopen 3, Dclose]"]
    by (auto simp: standalone_def demo_dev_def word_unat_eq_iff simp del: dev_run.simps)
qed

text \<open>A driver whose \<^verbatim>\<open>close\<close> fails strands a stand-alone device: the reference is given up while the device stays marked
  open, so that from then on every open is refused as busy and every close as unopened.\<close>

theorem device_failed_close_sticks:
  assumes "dev_ok d s" and "standalone d s" and "ref_count (devices s d) = 1" and "op_close (ops d) = Some f"
    and "f d (upd_dev d (\<lambda>dev. dev\<lparr>ref_count := 0\<rparr>) s) = Some (r, s1)" and "r \<noteq> RT_EOK" and "r \<noteq> - RT_ENOSYS"
    and "dev_same d (upd_dev d (\<lambda>dev. dev\<lparr>ref_count := 0\<rparr>) s) s1"
  shows "rt_device_close ops d s = Some (r, s1) \<and>
    (\<forall>oflag. rt_device_open ops d oflag s1 = Some (- RT_EBUSY, s1)) \<and> rt_device_close ops d s1 = Some (- RT_ERROR, s1)"
proof (intro conjI allI)
  note o = dev_okD [OF assms(1)]
  have s0: "upd_dev d (\<lambda>dev. dev\<lparr>ref_count := ref_count dev - 1\<rparr>) s = upd_dev d (\<lambda>dev. dev\<lparr>ref_count := 0\<rparr>) s"
    using assms(3) by (simp add: upd_dev_def)
  show "rt_device_close ops d s = Some (r, s1)"
    using o(1) assms(3-7) by (simp add: rt_device_close_def Let_def s0)
  have e: "is_device d s1" "devices s1 d = (devices s d)\<lparr>ref_count := 0\<rparr>"
    using is_device_same [OF assms(8)] assms(8) o(1) by (simp_all add: dev_same_def)
  show "rt_device_open ops d oflag s1 = Some (- RT_EBUSY, s1)" for oflag
    using e o(2,3) assms(2,3) by (simp add: rt_device_open_def dev_activate_def standalone_def)
  show "rt_device_close ops d s1 = Some (- RT_ERROR, s1)" using e by (simp add: rt_device_close_def)
qed

theorem device_failed_close_sticks_witness:
  "\<exists>s1. rt_device_close (demo_driver True) 7 (demo_dev 24 1) = Some (- RT_EIO, s1) \<and>
    rt_device_open (demo_driver True) 7 3 s1 = Some (- RT_EBUSY, s1)"
proof -
  have "dev_ok 7 (demo_dev 24 1)" "standalone 7 (demo_dev 24 1)" "ref_count (devices (demo_dev 24 1) 7) = 1"
    using demo_dev_ok [of 1 24] by (simp_all add: standalone_def) (simp_all add: demo_dev_def)
  then show ?thesis
    using device_failed_close_sticks [of 7 "demo_dev 24 1" "demo_driver True" "\<lambda>d s. Some (- RT_EIO, s)" "- RT_EIO"]
    by (simp add: demo_driver_def dev_same_def)
qed

text \<open>Names are unique: registration is refused, with nothing changed, when a device of that name (up to 8 characters)
  exists; otherwise it succeeds, the device is closed, and a lookup by name finds it.\<close>

theorem device_names_unique:
  assumes "obj_ok s" and "quiet s" and "interrupt_nest s = 0" and "d \<noteq> 0" and "home (olists s) (Device_obj d) = None"
  shows "if \<exists>ob. home (olists s) ob = Some RT_Object_Class_Device \<and> rt_strncpy (obj_name s ob) 8 = rt_strncpy name 8
    then rt_device_register d name flags s = Some (- RT_ERROR, s)
    else \<exists>s'. rt_device_register d name flags s = Some (RT_EOK, s') \<and> obj_ok s' \<and> dev_ok d s' \<and>
      ref_count (devices s' d) = 0 \<and> (quiet s' \<longrightarrow> rt_device_find name s' = Some (Some (Device_obj d), s'))"
proof -
  have i: "rt_object_get_information RT_Object_Class_Device = Some RT_Object_Class_Device"
    by (simp add: rt_object_get_information_def object_container_def)
  obtain r where r: "rt_object_find (Some name) RT_Object_Class_Device s = Some (r, s)"
    "case r of Some ob \<Rightarrow> home (olists s) ob = Some RT_Object_Class_Device \<and> rt_strncpy (obj_name s ob) 8 = rt_strncpy name 8
     | None \<Rightarrow> (\<forall>ob. home (olists s) ob = Some RT_Object_Class_Device \<longrightarrow> rt_strncpy (obj_name s ob) 8 \<noteq> rt_strncpy name 8)"
    using object_find_exact [OF assms(1-3) i, of name] by blast
  show ?thesis
  proof (cases r)
    case (Some ob)
    then show ?thesis using r assms(4) by (auto simp: rt_device_register_def rt_device_find_def)
  next
    case None
    let ?a = "object_attach (Device_obj d) RT_Object_Class_Device name s"
    let ?s' = "upd_dev d (\<lambda>dev. dev\<lparr>dev_flag := flags, ref_count := 0, open_flag := 0\<rparr>) ?a"
    have "rt_object_init (Device_obj d) RT_Object_Class_Device name s = Some ?a"
      using assms(1,2,5) by (intro object_init_eq [OF i]) (auto simp: obj_ok_def)
    then have "rt_device_register d name flags s = Some (RT_EOK, ?s')"
      using r(1) None assms(4) by (simp add: rt_device_register_def rt_device_find_def)
    moreover have "obj_ok ?s'" using obj_ok_attach [OF assms(1) i assms(5)] by (simp add: obj_ok_def upd_dev_def)
    moreover have "dev_ok d ?s'"
      using assms(4) by (simp add: dev_ok_def) (simp add: is_device_def object_attach_def rt_object_get_type_def)
    moreover have "rt_device_find name ?s' = Some (Some (Device_obj d), ?s')" if "quiet ?s'"
      using that assms(3) i
      by (simp add: rt_device_find_def rt_object_find_def quiet_def Let_def rt_enter_critical_def object_attach_def upd_dev_def
          object_search_hd del: object_search.simps)
    ultimately show ?thesis using r(2) None by auto
  qed
qed

theorem device_names_unique_witness:
  "\<exists>s'. rt_device_register 7 ''uart0'' 3 demo_kernel = Some (RT_EOK, s') \<and> dev_ok 7 s'"
proof -
  have "obj_ok demo_kernel" "interrupt_nest demo_kernel = 0" "\<And>ob. home (olists demo_kernel) ob = None"
    by (simp_all add: obj_ok_def demo_kernel_def boot_kernel_def empty_lstore_def lstore_ok_def)
  then show ?thesis using device_names_unique [OF _ demo_quiet, of 7 "''uart0''" 3] by auto
qed

text \<open>What can happen to the registration of a device.\<close>

datatype dev_life = Register string u16 | Unregister

fun dev_lives :: "nat \<Rightarrow> dev_life list \<Rightarrow> kernel \<Rightarrow> kernel option" where
  "dev_lives d [] s = Some s"
| "dev_lives d (Register name flags # cs) s = do { (_, s) \<leftarrow> rt_device_register d name flags s; dev_lives d cs s }"
| "dev_lives d (Unregister # cs) s = do { (_, s) \<leftarrow> rt_device_unregister d s; dev_lives d cs s }"

lemma destroy_asserts: "obj_type s (Device_obj d) \<in> {0, 0x89} \<Longrightarrow> rt_device_destroy d s = None"
  by (auto simp: rt_device_destroy_def is_device_def rt_object_get_type_def rt_object_is_systemobject_def rt_assert_def)

lemma schedule_obj_type: "rt_schedule s = Some s' \<Longrightarrow> obj_type s' = obj_type s"
  unfolding rt_schedule_def schedule_switch_def rt_schedule_insert_thread_def rt_schedule_remove_thread_def
  by (auto simp: bind_Some_ex Let_def split: if_splits)

lemma exit_critical_obj_type: "rt_exit_critical s = Some s' \<Longrightarrow> obj_type s' = obj_type s"
  using schedule_obj_type by (fastforce simp: rt_exit_critical_def Let_def split: if_splits)

lemma find_obj_type: "rt_object_find name ty s = Some (r, s') \<Longrightarrow> obj_type s' = obj_type s"
  using exit_critical_obj_type
  by (fastforce simp: rt_object_find_def bind_Some_ex Let_def rt_enter_critical_def split: option.splits)

lemma init_obj_type:
  "rt_object_init ob ty name s = Some s' \<Longrightarrow> obj_type s' = (obj_type s)(ob := ty OR RT_Object_Class_Static)"
  using exit_critical_obj_type
  by (fastforce simp: rt_object_init_def bind_Some_ex Let_def rt_enter_critical_def)

lemma register_obj_type:
  assumes "rt_device_register d name flags s = Some (r, s')"
  shows "obj_type s' (Device_obj d) \<in> {obj_type s (Device_obj d), 0x89}"
proof (cases "d = 0")
  case False
  then obtain ob s1 where s1: "rt_object_find (Some name) RT_Object_Class_Device s = Some (ob, s1)"
    "if ob \<noteq> None then s' = s1 else \<exists>s2. rt_object_init (Device_obj d) RT_Object_Class_Device name s1 = Some s2 \<and>
       obj_type s' = obj_type s2"
    using assms by (auto simp: rt_device_register_def rt_device_find_def bind_Some_ex split: if_splits)
  then show ?thesis using find_obj_type [OF s1(1)] init_obj_type by (auto split: if_splits)
qed (use assms in \<open>simp add: rt_device_register_def\<close>)

lemma lives_obj_type:
  "dev_lives d cs s = Some s' \<Longrightarrow> obj_type s (Device_obj d) \<in> {0, 0x89} \<Longrightarrow> obj_type s' (Device_obj d) \<in> {0, 0x89}"
proof (induction cs arbitrary: s)
  case (Cons c cs)
  show ?case
  proof (cases c)
    case (Register name flags)
    then obtain r s1 where s1: "rt_device_register d name flags s = Some (r, s1)" "dev_lives d cs s1 = Some s'"
      using Cons.prems(1) by (auto simp: bind_Some_ex)
    show ?thesis using Cons.IH [OF s1(2)] register_obj_type [OF s1(1)] Cons.prems(2) by auto
  next
    case Unregister
    then show ?thesis
      using Cons.prems(1) Cons.IH by (auto simp: rt_device_unregister_def rt_object_detach_def bind_Some_ex)
  qed
qed simp

text \<open>\<^verbatim>\<open>rt_device_destroy\<close> cannot be used on a device made by \<^verbatim>\<open>rt_device_create\<close>: whatever sequence of registrations and
  unregistrations comes in between, its assertions fail, since a device is either not registered (no type) or registered
  as a static object.\<close>

theorem device_destroy_never_passes:
  assumes "rt_device_create ty (Some d) s = (Some d, s1)" and "dev_lives d cs s1 = Some s2"
  shows "rt_device_destroy d s2 = None"
proof (rule destroy_asserts)
  have "obj_type s1 (Device_obj d) = 0" using assms(1) by (auto simp: rt_device_create_def)
  then show "obj_type s2 (Device_obj d) \<in> {0, 0x89}" using lives_obj_type [OF assms(2)] by simp
qed

theorem device_destroy_never_passes_witness:
  "\<exists>s1. rt_device_create 0 (Some 7) boot_kernel = (Some 7, s1) \<and> rt_device_destroy 7 s1 = None"
  using device_destroy_never_passes [of 0 7 boot_kernel _ "[]"] by (simp add: rt_device_create_def)

end
