(* ===== verification/Rt_Smem.thy ===== *)
theory Rt_Smem
  imports Rt_Thread
begin

text \<open>
  The small-memory heap of \<^verbatim>\<open>src/mem.c\<close>: one region divided into items, each with a header that holds the offsets of
  the next and the previous item and, in its lowest pointer bit, whether it is in use. A pointer to a header is
  its offset from \<^verbatim>\<open>heap_ptr\<close>; \<open>sm_items\<close> holds the headers and \<open>sm_bytes\<close> the bytes between them, both by offset. The
  kernel state is only read: for the type of the heap object and the name of the current thread, which
  \<^verbatim>\<open>RT_USING_MEMTRACE\<close> notes in the header.
\<close>

section \<open>Operations\<close>

record smem_item =
  pool_ptr :: u64
  inext :: u64
  iprev :: u64
  ithread :: string

record small_mem =
  sm_addr :: u64
  heap_ptr :: u64
  heap_end :: u64
  lfree :: u64
  mem_size_aligned :: u64
  sm_total :: u64
  sm_used :: u64
  sm_max :: u64
  sm_items :: "nat \<Rightarrow> smem_item"
  sm_bytes :: "nat \<Rightarrow> u8"

text \<open>\<^verbatim>\<open>sizeof(struct rt_small_mem_item)\<close> with the thread name, and the smallest data part.\<close>

abbreviation (input) SIZEOF_STRUCT_MEM :: u64 where "SIZEOF_STRUCT_MEM \<equiv> 40"
abbreviation (input) MIN_SIZE_ALIGNED :: u64 where "MIN_SIZE_ALIGNED \<equiv> 24"

text \<open>\<^verbatim>\<open>MEM_MASK\<close> is a 32-bit constant, also on this 64-bit processor.\<close>

abbreviation (input) MEM_MASK :: u64 where "MEM_MASK \<equiv> 0xfffffffe"

definition mem_tag :: "u64 \<Rightarrow> bool \<Rightarrow> u64" where
  "mem_tag small_mem used = (small_mem AND MEM_MASK) OR (if used then 1 else 0)"

definition mem_isused :: "smem_item \<Rightarrow> bool" where
  "mem_isused mem = (pool_ptr mem AND 1 \<noteq> 0)"

definition mem_pool :: "smem_item \<Rightarrow> u64" where
  "mem_pool mem = pool_ptr mem AND MEM_MASK"

definition item :: "small_mem \<Rightarrow> u64 \<Rightarrow> smem_item" where
  "item m p = sm_items m (unat p)"

definition upd_item :: "u64 \<Rightarrow> (smem_item \<Rightarrow> smem_item) \<Rightarrow> small_mem \<Rightarrow> small_mem" where
  "upd_item p f m = m\<lparr>sm_items := (sm_items m)(unat p := f (sm_items m (unat p)))\<rparr>"

text \<open>\<^verbatim>\<open>rt_smem_setname\<close>: the characters up to the end of the name, blanks behind, eight in all.\<close>

definition rt_smem_setname :: "string \<Rightarrow> smem_item \<Rightarrow> smem_item" where
  "rt_smem_setname name mem =
     mem\<lparr>ithread := (let cs = take 8 (takeWhile (\<lambda>c. c \<noteq> CHR 0x00) name) in cs @ replicate (8 - length cs) CHR '' '')\<rparr>"

definition is_smem :: "kernel \<Rightarrow> small_mem \<Rightarrow> bool" where
  "is_smem k m = (rt_object_get_type (obj_type k (Memory_obj (unat (sm_addr m)))) = RT_Object_Class_Memory \<and>
     rt_object_is_systemobject (obj_type k (Memory_obj (unat (sm_addr m)))))"

definition plug_forward :: "u64 \<Rightarrow> small_mem \<Rightarrow> small_mem" where
  "plug_forward mem m =
     (let nmem = inext (item m mem)
      in if mem \<noteq> nmem \<and> \<not> mem_isused (item m nmem) \<and> nmem \<noteq> heap_end m
         then (let m = (if lfree m = nmem then m\<lparr>lfree := mem\<rparr> else m);
                   m = upd_item nmem (\<lambda>i. i\<lparr>pool_ptr := 0\<rparr>) m;
                   m = upd_item mem (\<lambda>i. i\<lparr>inext := inext (item m nmem)\<rparr>) m
               in upd_item (inext (item m nmem)) (\<lambda>i. i\<lparr>iprev := mem\<rparr>) m)
         else m)"

definition plug_backward :: "u64 \<Rightarrow> small_mem \<Rightarrow> small_mem" where
  "plug_backward mem m =
     (let pmem = iprev (item m mem)
      in if pmem \<noteq> mem \<and> \<not> mem_isused (item m pmem)
         then (let m = (if lfree m = mem then m\<lparr>lfree := pmem\<rparr> else m);
                   m = upd_item mem (\<lambda>i. i\<lparr>pool_ptr := 0\<rparr>) m;
                   m = upd_item pmem (\<lambda>i. i\<lparr>inext := inext (item m mem)\<rparr>) m
               in upd_item (inext (item m mem)) (\<lambda>i. i\<lparr>iprev := pmem\<rparr>) m)
         else m)"

definition plug_holes :: "u64 \<Rightarrow> small_mem \<Rightarrow> small_mem option" where
  "plug_holes mem m = do {
     rt_assert (mem < heap_end m);
     Some (plug_backward mem (plug_forward mem m))
   }"

text \<open>The control block (\<^verbatim>\<open>sizeof(*small_mem)\<close> is 104 bytes) lies in front of the heap it manages. The object is registered
  in the kernel; what was in the region before stays there.\<close>

definition rt_smem_init ::
    "string \<Rightarrow> u64 \<Rightarrow> u64 \<Rightarrow> (nat \<Rightarrow> smem_item) \<Rightarrow> (nat \<Rightarrow> u8) \<Rightarrow> kernel \<Rightarrow> (small_mem option \<times> kernel) option" where
  "rt_smem_init name begin_addr sz its bytes k =
     (let small_mem = align_up begin_addr;
          start_addr = small_mem + 104;
          begin_align = align_up start_addr;
          end_align = align_down (begin_addr + sz)
      in if end_align > 2 * SIZEOF_STRUCT_MEM \<and> end_align - 2 * SIZEOF_STRUCT_MEM \<ge> start_addr
         then do {
           let mem_size = end_align - begin_align - 2 * SIZEOF_STRUCT_MEM;
           k \<leftarrow> rt_object_init (Memory_obj (unat small_mem)) RT_Object_Class_Memory name k;
           let m = \<lparr>sm_addr = small_mem, heap_ptr = begin_align, heap_end = 0, lfree = 0, mem_size_aligned = mem_size,
                    sm_total = mem_size, sm_used = 0, sm_max = 0, sm_items = its, sm_bytes = bytes\<rparr>;
           let m = upd_item 0 (\<lambda>i. rt_smem_setname ''INIT'' (i\<lparr>pool_ptr := mem_tag small_mem False,
                     inext := mem_size + SIZEOF_STRUCT_MEM, iprev := 0\<rparr>)) m;
           let m = m\<lparr>heap_end := inext (item m 0)\<rparr>;
           let m = upd_item (heap_end m) (\<lambda>i. rt_smem_setname ''INIT'' (i\<lparr>pool_ptr := mem_tag small_mem True,
                     inext := mem_size + SIZEOF_STRUCT_MEM, iprev := mem_size + SIZEOF_STRUCT_MEM\<rparr>)) m;
           Some (Some (m\<lparr>lfree := 0\<rparr>), k)
         }
         else Some (None, k))"

definition rt_smem_detach :: "small_mem \<Rightarrow> kernel \<Rightarrow> (rt_err_t \<times> kernel) option" where
  "rt_smem_detach m k = do {
     rt_assert (is_smem k m);
     Some (RT_EOK, rt_object_detach (Memory_obj (unat (sm_addr m))) k)
   }"

text \<open>The search loop of \<^verbatim>\<open>rt_smem_alloc\<close>, first fit from the lowest free item on.\<close>

partial_function (option) smem_find :: "small_mem \<Rightarrow> u64 \<Rightarrow> u64 \<Rightarrow> u64 option option" where
  "smem_find m sz ptr =
     (if ptr \<le> mem_size_aligned m - sz then
        let mem = item m ptr
        in if \<not> mem_isused mem \<and> inext mem - (ptr + SIZEOF_STRUCT_MEM) \<ge> sz then Some (Some ptr)
           else smem_find m sz (inext mem)
      else Some None)"

text \<open>Counting an allocation, with the high-water mark.\<close>

definition smem_account :: "u64 \<Rightarrow> small_mem \<Rightarrow> small_mem" where
  "smem_account n m =
     (let m = m\<lparr>sm_used := sm_used m + n\<rparr>
      in if sm_max m < sm_used m then m\<lparr>sm_max := sm_used m\<rparr> else m)"

text \<open>Cutting the item \<open>ptr\<close> in two, the second part free: \<open>ptr2\<close> is its header.\<close>

definition smem_split :: "u64 \<Rightarrow> u64 \<Rightarrow> small_mem \<Rightarrow> small_mem" where
  "smem_split ptr ptr2 m =
     (let nx = inext (item m ptr);
          m = upd_item ptr2 (\<lambda>i. rt_smem_setname ''    '' (i\<lparr>pool_ptr := mem_tag (sm_addr m) False, inext := nx, iprev := ptr\<rparr>)) m;
          m = upd_item ptr (\<lambda>i. i\<lparr>inext := ptr2\<rparr>) m
      in if nx \<noteq> mem_size_aligned m + SIZEOF_STRUCT_MEM then upd_item nx (\<lambda>i. i\<lparr>iprev := ptr2\<rparr>) m else m)"

text \<open>The search for the next lowest free item.\<close>

partial_function (option) lfree_advance :: "small_mem \<Rightarrow> u64 \<Rightarrow> u64 option" where
  "lfree_advance m p =
     (if mem_isused (item m p) \<and> p \<noteq> heap_end m then lfree_advance m (inext (item m p)) else Some p)"

definition smem_take :: "kernel \<Rightarrow> u64 \<Rightarrow> u64 \<Rightarrow> small_mem \<Rightarrow> (u64 \<times> small_mem) option" where
  "smem_take k sz ptr m = do {
     let mem = item m ptr;
     let m = (if inext mem - (ptr + SIZEOF_STRUCT_MEM) \<ge> sz + SIZEOF_STRUCT_MEM + MIN_SIZE_ALIGNED
              then smem_account (sz + SIZEOF_STRUCT_MEM) (smem_split ptr (ptr + SIZEOF_STRUCT_MEM + sz) m)
              else smem_account (inext mem - ptr) m);
     let m = upd_item ptr (\<lambda>i. rt_smem_setname
               (if rt_thread_self k \<noteq> 0 then obj_name k (Thread_obj (rt_thread_self k)) else ''NONE'')
               (i\<lparr>pool_ptr := mem_tag (sm_addr m) True\<rparr>)) m;
     m \<leftarrow> (if ptr = lfree m then do {
              p \<leftarrow> lfree_advance m (lfree m);
              rt_assert (p = heap_end m \<or> \<not> mem_isused (item m p));
              Some (m\<lparr>lfree := p\<rparr>)
            }
            else Some m);
     rt_assert (ptr + SIZEOF_STRUCT_MEM + sz \<le> heap_end m);
     rt_assert ((heap_ptr m + ptr + SIZEOF_STRUCT_MEM) mod 4 = 0);
     rt_assert ((heap_ptr m + ptr) AND 3 = 0);
     Some (heap_ptr m + ptr + SIZEOF_STRUCT_MEM, m)
   }"

definition rt_smem_alloc :: "kernel \<Rightarrow> u64 \<Rightarrow> small_mem \<Rightarrow> (u64 \<times> small_mem) option" where
  "rt_smem_alloc k sz m =
     (if sz = 0 then Some (0, m)
      else do {
        rt_assert (is_smem k m);
        let sz = align_up sz;
        let sz = (if sz < MIN_SIZE_ALIGNED then MIN_SIZE_ALIGNED else sz);
        if sz > mem_size_aligned m then Some (0, m)
        else do {
          r \<leftarrow> smem_find m sz (lfree m);
          case r of
            None \<Rightarrow> Some (0, m)
          | Some ptr \<Rightarrow> smem_take k sz ptr m
        }
      })"

text \<open>\<^verbatim>\<open>rt_smem_free\<close> finds the heap through the header of the block: another address than that of \<open>m\<close>, in whose region the
  block lies, is not a heap.\<close>

definition rt_smem_free :: "kernel \<Rightarrow> u64 \<Rightarrow> small_mem \<Rightarrow> small_mem option" where
  "rt_smem_free k rmem m =
     (if rmem = 0 then Some m
      else do {
        rt_assert (rmem AND 3 = 0);
        let mem = rmem - SIZEOF_STRUCT_MEM - heap_ptr m;
        let it = item m mem;
        rt_assert (mem_pool it = sm_addr m \<and> mem_pool it \<noteq> 0);
        rt_assert (mem_isused it);
        rt_assert (is_smem k m);
        rt_assert (rmem \<ge> heap_ptr m \<and> rmem < heap_ptr m + heap_end m);
        rt_assert (mem_pool (item m (inext it)) = sm_addr m);
        let m = upd_item mem (\<lambda>i. rt_smem_setname ''    '' (i\<lparr>pool_ptr := mem_tag (sm_addr m) False\<rparr>)) m;
        let m = (if mem < lfree m then m\<lparr>lfree := mem\<rparr> else m);
        let m = m\<lparr>sm_used := sm_used m - (inext (item m mem) - mem)\<rparr>;
        plug_holes mem m
      })"

text \<open>\<^verbatim>\<open>rt_memcpy\<close> within the region, both ranges given by offsets.\<close>

definition smem_copy :: "nat \<Rightarrow> nat \<Rightarrow> nat \<Rightarrow> small_mem \<Rightarrow> small_mem" where
  "smem_copy dst src n m =
     m\<lparr>sm_bytes := (\<lambda>x. if dst \<le> x \<and> x < dst + n then sm_bytes m (src + (x - dst)) else sm_bytes m x)\<rparr>"

definition rt_smem_realloc :: "kernel \<Rightarrow> u64 \<Rightarrow> u64 \<Rightarrow> small_mem \<Rightarrow> (u64 \<times> small_mem) option" where
  "rt_smem_realloc k rmem newsize m = do {
     rt_assert (is_smem k m);
     let newsize = align_up newsize;
     if newsize > mem_size_aligned m then Some (0, m)
     else if newsize = 0 then do {
       m \<leftarrow> rt_smem_free k rmem m;
       Some (0, m)
     }
     else if rmem = 0 then rt_smem_alloc k newsize m
     else do {
       rt_assert (rmem AND 3 = 0);
       rt_assert (rmem \<ge> heap_ptr m);
       rt_assert (rmem < heap_ptr m + heap_end m);
       let ptr = rmem - SIZEOF_STRUCT_MEM - heap_ptr m;
       let sz = inext (item m ptr) - ptr - SIZEOF_STRUCT_MEM;
       if sz = newsize then Some (rmem, m)
       else if newsize + SIZEOF_STRUCT_MEM + 24 < sz then do {
         let m = m\<lparr>sm_used := sm_used m - (sz - newsize)\<rparr>;
         let ptr2 = ptr + SIZEOF_STRUCT_MEM + newsize;
         let m = smem_split ptr ptr2 m;
         let m = (if ptr2 < lfree m then m\<lparr>lfree := ptr2\<rparr> else m);
         m \<leftarrow> plug_holes ptr2 m;
         Some (rmem, m)
       }
       else do {
         (nmem, m) \<leftarrow> rt_smem_alloc k newsize m;
         if nmem \<noteq> 0 then do {
           let m = smem_copy (unat (nmem - heap_ptr m)) (unat (rmem - heap_ptr m)) (unat (if sz < newsize then sz else newsize)) m;
           m \<leftarrow> rt_smem_free k rmem m;
           Some (nmem, m)
         }
         else Some (nmem, m)
       }
     }
   }"

text \<open>The check of one heap by the shell command \<^verbatim>\<open>memcheck\<close>: offsets are compared as 32-bit signed integers.\<close>

partial_function (option) smem_check :: "small_mem \<Rightarrow> u64 \<Rightarrow> bool option" where
  "smem_check m mem =
     (if mem = heap_end m then Some True
      else let position = (ucast mem :: u32)
        in if sint position < 0 \<or> sint position > sint (ucast (mem_size_aligned m) :: u32) \<or>
              mem_pool (item m mem) \<noteq> sm_addr m
           then Some False
           else smem_check m (inext (item m mem)))"

end
