(* ===== verification/Rt_SmemProps.thy ===== *)
theory Rt_SmemProps
  imports Rt_Smem
begin

text \<open>
  Correctness of the small-memory heap: a heap is a sequence of blocks, each free or in use, and the operations of
  \<^verbatim>\<open>src/mem.c\<close> are first-fit allocation and merging release on such sequences.
\<close>

section \<open>Machine words\<close>

lemma unat_plus: "unat a + unat b < 2 ^ LENGTH('a) \<Longrightarrow> unat (a + b :: 'a :: len word) = unat a + unat b"
  by (subst unat_word_ariths) simp

lemma unat_minus: "unat b \<le> unat a \<Longrightarrow> unat (a - b :: 'a :: len word) = unat a - unat b"
  by (simp add: unat_sub_if_size)

lemma tag_used [simp]: "(mem_tag p u AND 1 \<noteq> 0) = u"
  by (simp add: mem_tag_def bit.conj_disj_distrib2 and.assoc)

lemma tag_pool [simp]: "mem_tag p u AND MEM_MASK = p AND MEM_MASK"
  by (simp add: mem_tag_def bit.conj_disj_distrib2 and.assoc)

section \<open>Sequences of blocks\<close>

text \<open>A block is its length, header included, and whether it is in use.\<close>

type_synonym blocks = "(nat \<times> bool) list"

abbreviation extent :: "blocks \<Rightarrow> nat" where
  "extent bs \<equiv> sum_list (map fst bs)"

text \<open>The headers from offset \<open>a\<close> on spell the blocks \<open>bs\<close>; \<open>pv\<close> is the header before.\<close>

fun spells :: "(nat \<Rightarrow> smem_item) \<Rightarrow> u64 \<Rightarrow> nat \<Rightarrow> nat \<Rightarrow> blocks \<Rightarrow> bool" where
  "spells its p pv a [] = True"
| "spells its p pv a ((l, u) # bs) = (40 \<le> l \<and> 4 dvd l \<and> pool_ptr (its a) = mem_tag p u \<and> unat (inext (its a)) = a + l \<and>
     unat (iprev (its a)) = pv \<and> spells its p a (a + l) bs)"

fun last_header :: "nat \<Rightarrow> nat \<Rightarrow> blocks \<Rightarrow> nat" where
  "last_header pv a [] = pv"
| "last_header pv a ((l, u) # bs) = last_header a (a + l) bs"

fun first_free :: "nat \<Rightarrow> blocks \<Rightarrow> nat" where
  "first_free a [] = a"
| "first_free a ((l, u) # bs) = (if u then first_free (a + l) bs else a)"

abbreviation used_extent :: "blocks \<Rightarrow> nat" where
  "used_extent bs \<equiv> extent (filter snd bs)"

abbreviation no_holes :: "blocks \<Rightarrow> bool" where
  "no_holes bs \<equiv> successively (\<lambda>b c. snd b \<or> snd c) bs"

lemma spells_append:
  "spells its p pv a (xs @ ys) \<longleftrightarrow> spells its p pv a xs \<and> spells its p (last_header pv a xs) (a + extent xs) ys"
  by (induction its p pv a xs rule: spells.induct) (auto simp: add.assoc)

lemma spells_cong:
  "(\<And>x. a \<le> x \<Longrightarrow> x < a + extent bs \<Longrightarrow> its' x = its x) \<Longrightarrow> spells its' p pv a bs = spells its p pv a bs"
proof (induction its p pv a bs rule: spells.induct)
  case (2 its p pv a l u bs)
  show ?case
  proof (cases "40 \<le> l")
    case True
    have "its' a = its a" using 2(2) [of a] True by simp
    moreover have "spells its' p a (a + l) bs = spells its p a (a + l) bs" if "its' a = its a"
      by (cases "4 dvd l \<and> pool_ptr (its a) = mem_tag p u \<and> unat (inext (its a)) = a + l \<and> unat (iprev (its a)) = pv")
        (use 2 True in auto)
    ultimately show ?thesis by auto
  qed simp
qed simp

lemma last_header_append: "last_header pv a (xs @ ys) = last_header (last_header pv a xs) (a + extent xs) ys"
  by (induction pv a xs rule: last_header.induct) (auto simp: add.assoc)

lemma last_header_le: "last_header a a xs \<le> a + extent xs"
proof -
  have "pv \<le> b \<Longrightarrow> last_header pv b xs \<le> b + extent xs" for pv b
    by (induction pv b xs rule: last_header.induct) (auto simp: add.assoc)
  then show ?thesis by simp
qed

lemma first_free_append:
  "first_free a (xs @ ys) = (if \<forall>b \<in> set xs. snd b then first_free (a + extent xs) ys else first_free a xs)"
  by (induction a xs rule: first_free.induct) (auto simp: add.assoc)

lemma first_free_le: "first_free a bs \<le> a + extent bs"
  by (induction a bs rule: first_free.induct) auto

lemma first_free_ge: "a \<le> first_free a bs"
  by (induction a bs rule: first_free.induct) auto

lemma first_free_lt:
  "\<not> (\<forall>b \<in> set bs. snd b) \<Longrightarrow> \<forall>b \<in> set bs. 0 < fst b \<Longrightarrow> first_free a bs < a + extent bs"
  by (induction a bs rule: first_free.induct) (auto simp: add.assoc)

lemma extent_member: "(l, u) \<in> set bs \<Longrightarrow> l \<le> extent bs"
  by (induction bs) auto

lemma spells_lengths: "spells its p pv a bs \<Longrightarrow> b \<in> set bs \<Longrightarrow> 40 \<le> fst b \<and> 4 dvd fst b"
  by (induction its p pv a bs rule: spells.induct) auto

lemma spells_dvd: "spells its p pv a bs \<Longrightarrow> 4 dvd extent bs"
  by (induction its p pv a bs rule: spells.induct) auto

lemma used_extent_le: "used_extent bs \<le> extent bs"
  by (induction bs) auto

text \<open>Changing the back link of the first header.\<close>

lemma spells_back:
  assumes "spells its p pv a bs"
  shows "spells (its(a := (its a)\<lparr>iprev := w\<rparr>)) p (unat w) a bs"
proof (cases bs)
  case (Cons b bs')
  obtain l u where b: "b = (l, u)" by (cases b)
  have "spells (its(a := (its a)\<lparr>iprev := w\<rparr>)) p a (a + l) bs' = spells its p a (a + l) bs'"
    using assms by (intro spells_cong) (auto simp: Cons b)
  then show ?thesis using assms by (simp add: Cons b)
qed simp

section \<open>Heaps\<close>

definition heap_raw :: "small_mem \<Rightarrow> blocks \<Rightarrow> bool" where
  "heap_raw m bs = (spells (sm_items m) (sm_addr m) 0 0 bs \<and> extent bs = unat (heap_end m) \<and>
     pool_ptr (item m (heap_end m)) = mem_tag (sm_addr m) True \<and>
     unat (heap_end m) = unat (mem_size_aligned m) + 40 \<and> unat (heap_ptr m) + unat (heap_end m) + 40 \<le> 2 ^ 64 \<and>
     4 dvd unat (heap_ptr m) \<and> sm_addr m AND MEM_MASK = sm_addr m \<and> sm_addr m \<noteq> 0)"

text \<open>A well-formed heap: besides, no two free blocks are neighbours, \<^verbatim>\<open>lfree\<close> is the first free block or the end, and
  the counter of used bytes is right. The control block has an even address below 4 GB.\<close>

definition heap_ok :: "small_mem \<Rightarrow> blocks \<Rightarrow> bool" where
  "heap_ok m bs = (heap_raw m bs \<and> unat (lfree m) = first_free 0 bs \<and> no_holes bs \<and> (\<forall>b \<in> set bs. snd b \<longrightarrow> 40 < fst b) \<and>
     unat (sm_used m) = used_extent bs \<and> sm_used m \<le> sm_max m)"

lemma heap_rawD:
  assumes "heap_raw m bs"
  shows "spells (sm_items m) (sm_addr m) 0 0 bs" "extent bs = unat (heap_end m)"
    "pool_ptr (item m (heap_end m)) = mem_tag (sm_addr m) True"
    "unat (heap_end m) = unat (mem_size_aligned m) + 40" "unat (heap_ptr m) + unat (heap_end m) + 40 \<le> 2 ^ 64"
    "4 dvd unat (heap_ptr m)" "sm_addr m AND MEM_MASK = sm_addr m" "sm_addr m \<noteq> 0"
  using assms by (simp_all add: heap_raw_def)

lemma heap_block:
  assumes "heap_raw m (xs @ (l, u) # ys)" and "unat p = extent xs"
  shows "40 \<le> l" "4 dvd l" "pool_ptr (item m p) = mem_tag (sm_addr m) u" "mem_isused (item m p) = u"
    "mem_pool (item m p) = sm_addr m" "unat (inext (item m p)) = extent xs + l"
    "unat (iprev (item m p)) = last_header 0 0 xs" "extent xs + l \<le> unat (heap_end m)"
    "spells (sm_items m) (sm_addr m) 0 0 xs" "spells (sm_items m) (sm_addr m) (extent xs) (extent xs + l) ys"
  using assms heap_rawD(2,7) [OF assms(1)]
  by (auto simp: heap_raw_def spells_append item_def mem_isused_def mem_pool_def)

lemma heap_end_block:
  assumes "heap_raw m bs"
  shows "mem_isused (item m (heap_end m))" "mem_pool (item m (heap_end m)) = sm_addr m"
  using heap_rawD(3,7) [OF assms] by (simp_all add: mem_isused_def mem_pool_def)

lemma upd_item_fields [simp]:
  "sm_addr (upd_item p f m) = sm_addr m" "heap_ptr (upd_item p f m) = heap_ptr m" "heap_end (upd_item p f m) = heap_end m"
  "lfree (upd_item p f m) = lfree m" "mem_size_aligned (upd_item p f m) = mem_size_aligned m"
  "sm_total (upd_item p f m) = sm_total m" "sm_used (upd_item p f m) = sm_used m" "sm_max (upd_item p f m) = sm_max m"
  "sm_bytes (upd_item p f m) = sm_bytes m"
  "sm_items (upd_item p f m) = (sm_items m)(unat p := f (sm_items m (unat p)))"
  by (simp_all add: upd_item_def)

lemma item_upd: "item (upd_item p f m) q = (if q = p then f (item m p) else item m q)"
  by (auto simp: item_def word_unat_eq_iff)

lemma setname_fields [simp]:
  "pool_ptr (rt_smem_setname n i) = pool_ptr i" "inext (rt_smem_setname n i) = inext i" "iprev (rt_smem_setname n i) = iprev i"
  by (simp_all add: rt_smem_setname_def)

lemma heap_raw_other [simp]:
  "heap_raw (m\<lparr>lfree := x\<rparr>) bs = heap_raw m bs" "heap_raw (m\<lparr>sm_used := y\<rparr>) bs = heap_raw m bs"
  "heap_raw (m\<lparr>sm_max := z\<rparr>) bs = heap_raw m bs" "heap_raw (m\<lparr>sm_bytes := w\<rparr>) bs = heap_raw m bs"
  "item (m\<lparr>lfree := x\<rparr>) p = item m p" "item (m\<lparr>sm_used := y\<rparr>) p = item m p"
  "item (m\<lparr>sm_max := z\<rparr>) p = item m p" "item (m\<lparr>sm_bytes := w\<rparr>) p = item m p"
  by (simp_all add: heap_raw_def item_def)

text \<open>A new state of a block.\<close>

lemma mark_raw:
  assumes ok: "heap_raw m (xs @ (l, u) # ys)" and p: "unat p = extent xs"
    and f: "pool_ptr (f (item m p)) = mem_tag (sm_addr m) v" "inext (f (item m p)) = inext (item m p)"
      "iprev (f (item m p)) = iprev (item m p)"
  shows "heap_raw (upd_item p f m) (xs @ (l, v) # ys)"
proof -
  note b = heap_block [OF ok p]
  let ?its = "sm_items (upd_item p f m)"
  have "spells ?its (sm_addr m) 0 0 xs" using b(9) by (subst spells_cong [of _ _ _ "sm_items m"]) (auto simp: p)
  moreover have "spells ?its (sm_addr m) (extent xs) (extent xs + l) ys"
    using b(10) b(1) by (subst spells_cong [of _ _ _ "sm_items m"]) (auto simp: p)
  moreover have "heap_end m \<noteq> p" using b(1,8) p by auto
  ultimately show ?thesis
    using heap_rawD [OF ok] b(1,2,6,7) f p by (simp add: heap_raw_def spells_append item_upd) (simp add: item_def)
qed

text \<open>The end of the blocks.\<close>

lemma extent_0: "spells its p pv a bs \<Longrightarrow> extent bs = 0 \<longleftrightarrow> bs = []"
  by (cases "(its, p, pv, a, bs)" rule: spells.cases) auto

lemma behind_block:
  assumes ok: "heap_raw m (xs @ (l, u) # ys)" and p: "unat p = extent xs"
  shows "inext (item m p) = heap_end m \<longleftrightarrow> ys = []"
proof -
  note b = heap_block [OF ok p]
  have "unat (inext (item m p)) + extent ys = unat (heap_end m)" using heap_rawD(2) [OF ok] b(6) by simp
  then show ?thesis using extent_0 [OF b(10)] by (metis add_cancel_left_right word_unat_eq_iff)
qed

lemma end_word: "heap_raw m bs \<Longrightarrow> mem_size_aligned m + SIZEOF_STRUCT_MEM = heap_end m"
  using heap_rawD(4,5) [of m bs] unat_plus [of "mem_size_aligned m" 40] by (simp add: word_unat_eq_iff)

lemma split_raw:
  assumes ok: "heap_raw m (xs @ (l, u) # ys)" and p: "unat p = extent xs" and q: "unat q = extent xs + j"
    and j: "40 \<le> j" "4 dvd j" "j + 40 \<le> l"
  shows "heap_raw (smem_split p q m) (xs @ (j, u) # (l - j, False) # ys)"
proof -
  let ?a = "extent xs" and ?nx = "inext (item m p)" and ?P = "sm_addr m"
  note b = heap_block [OF ok p] and d = heap_rawD [OF ok]
  define its where "its = (sm_items m)(?a + j := rt_smem_setname ''    ''
    ((sm_items m (?a + j))\<lparr>pool_ptr := mem_tag ?P False, inext := ?nx, iprev := p\<rparr>),
    ?a := (sm_items m ?a)\<lparr>inext := q\<rparr>)"
  define its' where "its' = (if ys = [] then its else its(?a + l := (its (?a + l))\<lparr>iprev := q\<rparr>))"
  have eq: "smem_split p q m = m\<lparr>sm_items := its'\<rparr>"
    using behind_block [OF ok p] end_word [OF ok] b(6) p q j
    by (simp add: smem_split_def Let_def its_def its'_def item_def upd_item_def)
  have "spells its' ?P 0 0 xs"
    using b(9) by (subst spells_cong [of _ _ _ "sm_items m"]) (auto simp: its'_def its_def)
  moreover have "its' ?a = (sm_items m ?a)\<lparr>inext := q\<rparr>" using j b(1) by (simp add: its'_def its_def)
  moreover have "pool_ptr (its' (?a + j)) = mem_tag ?P False \<and> inext (its' (?a + j)) = ?nx \<and> iprev (its' (?a + j)) = p"
    using j b(1) by (simp add: its'_def its_def)
  moreover have "spells its' ?P (?a + j) (?a + l) ys"
  proof -
    have "spells its ?P ?a (?a + l) ys"
      using b(10) j by (subst spells_cong [of _ _ _ "sm_items m"]) (auto simp: its_def)
    then show ?thesis using spells_back [of its ?P ?a "?a + l" ys q] q by (auto simp: its'_def)
  qed
  moreover have "pool_ptr (its' (unat (heap_end m))) = mem_tag ?P True"
    using d(2,3) j b(1) by (auto simp: its'_def its_def item_def)
  ultimately show ?thesis
    using d b(2,3,6,7) p q j by (auto simp: eq heap_raw_def spells_append item_def dvd_diff_nat)
qed

lemma split_fields [simp]:
  "sm_addr (smem_split p q m) = sm_addr m" "heap_ptr (smem_split p q m) = heap_ptr m" "heap_end (smem_split p q m) = heap_end m"
  "lfree (smem_split p q m) = lfree m" "mem_size_aligned (smem_split p q m) = mem_size_aligned m"
  "sm_used (smem_split p q m) = sm_used m" "sm_max (smem_split p q m) = sm_max m" "sm_bytes (smem_split p q m) = sm_bytes m"
  by (simp_all add: smem_split_def Let_def)

section \<open>Searching\<close>

text \<open>First fit: the offset of the first free block with room for \<open>sz\<close> bytes.\<close>

fun fit_at :: "nat \<Rightarrow> nat \<Rightarrow> blocks \<Rightarrow> nat option" where
  "fit_at sz a [] = None"
| "fit_at sz a ((l, u) # bs) = (if \<not> u \<and> sz \<le> l - 40 then Some a else fit_at sz (a + l) bs)"

lemma fit_at_Some:
  "fit_at sz a bs = Some q \<Longrightarrow>
    \<exists>xs l ys. bs = xs @ (l, False) # ys \<and> q = a + extent xs \<and> sz \<le> l - 40 \<and> (\<forall>b \<in> set xs. snd b \<or> fst b - 40 < sz)"
proof (induction sz a bs rule: fit_at.induct)
  case (2 sz a l u bs)
  show ?case
  proof (cases "\<not> u \<and> sz \<le> l - 40")
    case True
    then show ?thesis using 2(2) by (intro exI [of _ "[]"]) auto
  next
    case False
    then obtain xs l' ys where "bs = xs @ (l', False) # ys" "q = a + l + extent xs" "sz \<le> l' - 40"
      "\<forall>b \<in> set xs. snd b \<or> fst b - 40 < sz"
      using 2 by auto
    then show ?thesis using False by (intro exI [of _ "(l, u) # xs"]) auto
  qed
qed simp

lemma fit_at_None: "fit_at sz a bs = None \<longleftrightarrow> (\<forall>(l, u) \<in> set bs. u \<or> l - 40 < sz)"
  by (induction sz a bs rule: fit_at.induct) auto

lemma fit_at_used: "\<forall>b \<in> set xs. snd b \<Longrightarrow> fit_at sz a (xs @ ys) = fit_at sz (a + extent xs) ys"
  by (induction sz a xs rule: fit_at.induct) (auto simp: add.assoc)

lemma find_ok:
  assumes "heap_raw m (xs @ ys)" and "sz \<le> mem_size_aligned m" and "sz \<noteq> 0" and "unat p = extent xs"
  shows "smem_find m sz p = Some (map_option of_nat (fit_at (unat sz) (extent xs) ys))"
  using assms(1,4)
proof (induction ys arbitrary: xs p)
  case Nil
  note d = heap_rawD [OF Nil(1)]
  have "\<not> p \<le> mem_size_aligned m - sz"
    using Nil(2) d(2,4) assms(2) unat_minus [of sz "mem_size_aligned m"] by (simp add: word_le_nat_alt)
  then show ?case by (subst smem_find.simps) simp
next
  case (Cons b ys)
  obtain l u where lu: "b = (l, u)" by (cases b)
  note ok = Cons.prems(1) [unfolded lu] and p = Cons.prems(2)
  note h = heap_block [OF ok p] and d = heap_rawD [OF ok]
  have le: "unat (mem_size_aligned m - sz) = unat (mem_size_aligned m) - unat sz" "unat sz \<le> unat (mem_size_aligned m)"
    using assms(2) unat_minus [of sz "mem_size_aligned m"] by (simp_all add: word_le_nat_alt)
  have sz0: "0 < unat sz" using assms(3) by (simp add: unat_gt_0)
  have room: "unat (inext (item m p) - (p + 40)) = l - 40"
  proof -
    have "unat (p + 40) = extent xs + 40" using h(1,8) p d(5) by (subst unat_plus) simp_all
    then show ?thesis using h(1,6) by (subst unat_minus) simp_all
  qed
  show ?case
  proof (cases "p \<le> mem_size_aligned m - sz")
    case False
    then have "extent (b # ys) < 40 + unat sz"
      using p le d(2,4) by (simp add: word_le_nat_alt lu)
    then have "\<forall>(l', u') \<in> set (b # ys). u' \<or> l' - 40 < unat sz"
      using sz0 extent_member [of _ _ "b # ys"] by fastforce
    then have "fit_at (unat sz) (extent xs) (b # ys) = None" unfolding fit_at_None .
    then show ?thesis using False by (subst smem_find.simps) simp
  next
    case True
    have step: "smem_find m sz p = (if \<not> u \<and> unat sz \<le> l - 40 then Some (Some p) else smem_find m sz (inext (item m p)))"
      using True h(4) room by (subst smem_find.simps) (simp add: Let_def word_le_nat_alt)
    have "smem_find m sz (inext (item m p)) = Some (map_option of_nat (fit_at (unat sz) (extent (xs @ [(l, u)])) ys))"
      using Cons.IH [of "xs @ [(l, u)]" "inext (item m p)"] ok h(6) by simp
    then show ?thesis using step p [symmetric] by (simp add: lu)
  qed
qed

lemma advance_ok:
  assumes "heap_raw m (xs @ ys)" and "unat p = extent xs"
  shows "\<exists>q. lfree_advance m p = Some q \<and> unat q = first_free (extent xs) ys \<and> (q = heap_end m \<or> \<not> mem_isused (item m q))"
  using assms
proof (induction ys arbitrary: xs p)
  case Nil
  then have "p = heap_end m" using heap_rawD(2) [OF Nil(1)] by (simp add: word_unat_eq_iff)
  then show ?case using Nil by (subst lfree_advance.simps) simp
next
  case (Cons b ys)
  obtain l u where lu: "b = (l, u)" by (cases b)
  note ok = Cons.prems(1) [unfolded lu] and p = Cons.prems(2)
  note h = heap_block [OF ok p]
  have ne: "p \<noteq> heap_end m" using h(1,8) p by auto
  show ?case
  proof (cases u)
    case True
    then have "lfree_advance m p = lfree_advance m (inext (item m p))" using h(4) ne by (subst lfree_advance.simps) simp
    then show ?thesis using Cons.IH [of "xs @ [(l, u)]" "inext (item m p)"] ok h(6) True by (simp add: lu)
  next
    case False
    then show ?thesis using h(4) p by (subst lfree_advance.simps) (simp add: lu)
  qed
qed

section \<open>Allocation\<close>

lemma aligned_word:
  assumes "4 dvd unat (x :: u64)"
  shows "x mod 4 = 0" and "x AND 3 = 0"
proof -
  have "unat (x mod 4) = 0" using assms by (simp add: unat_mod dvd_eq_mod_eq_0)
  then show m: "x mod 4 = 0" by (simp add: unat_eq_zero)
  have "x AND 3 = take_bit 2 x" unfolding take_bit_eq_mask by (simp add: mask_eq_exp_minus_1)
  then show "x AND 3 = 0" using m by (simp add: take_bit_eq_mod)
qed

lemma heap_room:
  assumes ok: "heap_raw m (xs @ (l, u) # ys)" and p: "unat p = extent xs"
  shows "unat (inext (item m p) - (p + SIZEOF_STRUCT_MEM)) = l - 40" and "unat (inext (item m p) - p) = l"
    and "k \<le> l \<Longrightarrow> unat (p + of_nat k) = extent xs + k"
    and "k \<le> l \<Longrightarrow> unat (heap_ptr m + p + of_nat k) = unat (heap_ptr m) + extent xs + k"
proof -
  note h = heap_block [OF ok p] and d = heap_rawD [OF ok]
  have k: "unat (of_nat k :: u64) = k" if "k \<le> l" for k
    using that h(8) d(5) unfolding unat_of_nat by (intro mod_less) simp
  show s: "unat (p + of_nat k) = extent xs + k" if "k \<le> l" for k
    using that h(8) p d(5) k [OF that] by (subst unat_plus) simp_all
  show "unat (inext (item m p) - p) = l" using h(6) p by (subst unat_minus) simp_all
  show "unat (inext (item m p) - (p + SIZEOF_STRUCT_MEM)) = l - 40"
    using h(1,6) s [of 40] by (subst unat_minus) simp_all
  have hp: "unat (heap_ptr m + p) = unat (heap_ptr m) + extent xs"
    using h(8) p d(5) by (subst unat_plus) simp_all
  show "unat (heap_ptr m + p + of_nat k) = unat (heap_ptr m) + extent xs + k" if "k \<le> l" for k
    using that h(8) d(5) k [OF that] hp by (subst unat_plus) simp_all
qed

definition carve :: "nat \<Rightarrow> nat \<Rightarrow> blocks" where
  "carve sz l = (if sz + 64 \<le> l - 40 then [(sz + 40, True), (l - (sz + 40), False)] else [(l, True)])"

lemma account_ok:
  assumes "unat (sm_used m) + unat n < 2 ^ 64"
  shows "unat (sm_used (smem_account n m)) = unat (sm_used m) + unat n" and "sm_used (smem_account n m) \<le> sm_max (smem_account n m)"
    and "heap_raw (smem_account n m) bs = heap_raw m bs" and "item (smem_account n m) = item m"
    and "lfree (smem_account n m) = lfree m" "heap_ptr (smem_account n m) = heap_ptr m" "heap_end (smem_account n m) = heap_end m"
    "sm_addr (smem_account n m) = sm_addr m" "sm_bytes (smem_account n m) = sm_bytes m"
    "mem_size_aligned (smem_account n m) = mem_size_aligned m"
  using assms by (auto simp: smem_account_def Let_def unat_plus fun_eq_iff)

lemma no_holes_carve:
  assumes "no_holes (xs @ (l, False) # ys)"
  shows "no_holes (xs @ carve sz l @ ys)"
  using assms by (auto simp: carve_def successively_append_iff successively_Cons)

lemma used_extent_carve: "used_extent (carve sz l) = (if sz + 64 \<le> l - 40 then sz + 40 else l)"
  by (simp add: carve_def)

lemma first_free_carve:
  assumes "first_free 0 (xs @ (l, False) # ys) \<noteq> extent xs"
  shows "first_free 0 (xs @ carve sz l @ ys) = first_free 0 (xs @ (l, False) # ys)"
  using assms by (auto simp: first_free_append)

text \<open>What an operation on the blocks leaves alone.\<close>

definition same_region :: "small_mem \<Rightarrow> small_mem \<Rightarrow> bool" where
  "same_region m m' = (sm_addr m' = sm_addr m \<and> heap_ptr m' = heap_ptr m \<and> heap_end m' = heap_end m \<and>
     mem_size_aligned m' = mem_size_aligned m)"

lemma smem_take_ok:
  assumes ok: "heap_ok m (xs @ (l, False) # ys)" and p: "unat p = extent xs" and sz: "unat sz \<le> l - 40" "4 dvd unat sz" "sz \<noteq> 0"
  shows "\<exists>m'. smem_take k sz p m = Some (heap_ptr m + p + SIZEOF_STRUCT_MEM, m') \<and> heap_ok m' (xs @ carve (unat sz) l @ ys) \<and>
    same_region m m' \<and> sm_bytes m' = sm_bytes m"
proof -
  have raw: "heap_raw m (xs @ (l, False) # ys)" and lf: "unat (lfree m) = first_free 0 (xs @ (l, False) # ys)"
    and nh: "no_holes (xs @ (l, False) # ys)" and us: "unat (sm_used m) = used_extent (xs @ (l, False) # ys)"
    using ok by (auto simp: heap_ok_def)
  note h = heap_block [OF raw p] and d = heap_rawD [OF raw] and r = heap_room [OF raw p]
  have l: "l + 40 \<le> 2 ^ 64" using h(8) d(5) by linarith
  have w: "unat (sz + 40) = unat sz + 40" "unat (sz + 40 + 24) = unat sz + 64" "unat (p + 40 + sz) = extent xs + (unat sz + 40)"
  proof -
    show a: "unat (sz + 40) = unat sz + 40" using sz(1) h(1) l by (subst unat_plus) simp_all
    then show "unat (sz + 40 + 24) = unat sz + 64" using sz(1) h(1) l by (subst unat_plus) simp_all
    show "unat (p + 40 + sz) = extent xs + (unat sz + 40)"
      using r(3) [of "unat sz + 40"] sz(1) h(1) by (simp add: add.commute add.left_commute)
  qed
  define c where "c \<longleftrightarrow> unat sz + 64 \<le> l - 40"
  define m1 where "m1 = (if c then smem_account (sz + 40) (smem_split p (p + 40 + sz) m) else smem_account (inext (item m p) - p) m)"
  have used: "used_extent (xs @ (l, False) # ys) + l \<le> unat (heap_end m)"
    using d(2) used_extent_le [of xs] used_extent_le [of ys] by simp
  have acc: "unat (sm_used m) + unat (sz + 40) < 2 ^ 64" "unat (sm_used m) + unat (inext (item m p) - p) < 2 ^ 64"
    using used us w(1) r(2) sz(1) h(1) d(5) by simp_all
  have cond: "(inext (item m p) - (p + 40) \<ge> sz + 40 + 24) = c"
    using r(1) w(2) by (simp add: c_def word_le_nat_alt)
  have rest: "if c then carve (unat sz) l = [(unat sz + 40, True), (l - (unat sz + 40), False)] else carve (unat sz) l = [(l, True)]"
    by (simp add: carve_def c_def)
  define n where "n = (if c then unat sz + 40 else l)"
  define tl' where "tl' = (if c then [(l - (unat sz + 40), False)] else [])"
  have cv: "carve (unat sz) l = (n, True) # tl'" by (simp add: carve_def c_def n_def tl'_def)
  have raw1: "heap_raw m1 (xs @ (n, False) # tl' @ ys)"
  proof (cases c)
    case True
    have "heap_raw (smem_split p (p + 40 + sz) m) (xs @ (unat sz + 40, False) # (l - (unat sz + 40), False) # ys)"
      using True sz(2) by (intro split_raw [OF raw p w(3)]) (auto simp: c_def)
    then show ?thesis using True account_ok(3) [of "smem_split p (p + 40 + sz) m" "sz + 40"] acc(1)
      by (simp add: m1_def n_def tl'_def)
  next
    case False
    then show ?thesis using raw account_ok(3) [OF acc(2)] by (simp add: m1_def n_def tl'_def)
  qed
  have f1: "lfree m1 = lfree m" "heap_ptr m1 = heap_ptr m" "heap_end m1 = heap_end m" "sm_addr m1 = sm_addr m"
    "sm_bytes m1 = sm_bytes m" "mem_size_aligned m1 = mem_size_aligned m" "sm_used m1 \<le> sm_max m1"
    "unat (sm_used m1) = used_extent (xs @ carve (unat sz) l @ ys)"
    using account_ok [of "smem_split p (p + 40 + sz) m" "sz + 40"] account_ok [OF acc(2)] acc(1) us w(1) r(2)
    by (cases c; simp add: m1_def cv n_def tl'_def)+
  define nm where "nm = (if rt_thread_self k \<noteq> 0 then obj_name k (Thread_obj (rt_thread_self k)) else ''NONE'')"
  define m2 where "m2 = upd_item p (\<lambda>i. rt_smem_setname nm (i\<lparr>pool_ptr := mem_tag (sm_addr m1) True\<rparr>)) m1"
  have raw2: "heap_raw m2 (xs @ carve (unat sz) l @ ys)"
    unfolding m2_def cv append_Cons by (rule mark_raw [OF raw1 p]) simp_all
  have lf2: "unat (lfree m2) = first_free 0 (xs @ (l, False) # ys)" by (simp add: m2_def f1(1) lf)
  have "\<exists>m3. (if p = lfree m2 then do {
              q \<leftarrow> lfree_advance m2 (lfree m2);
              rt_assert (q = heap_end m2 \<or> \<not> mem_isused (item m2 q));
              Some (m2\<lparr>lfree := q\<rparr>)
            } else Some m2) = Some m3 \<and> (\<exists>q. m3 = m2\<lparr>lfree := q\<rparr>) \<and> unat (lfree m3) = first_free 0 (xs @ carve (unat sz) l @ ys)"
  proof (cases "p = lfree m2")
    case True
    then have all: "\<forall>b \<in> set xs. snd b"
      using lf2 p first_free_lt [of xs 0] spells_lengths [OF h(9)] by (fastforce simp: first_free_append split: if_splits)
    obtain q where q: "lfree_advance m2 p = Some q" "unat q = first_free (extent xs) (carve (unat sz) l @ ys)"
      "q = heap_end m2 \<or> \<not> mem_isused (item m2 q)"
      using advance_ok [OF raw2 p] by blast
    then show ?thesis using q True all by (auto simp: first_free_append)
  next
    case False
    then have "first_free 0 (xs @ (l, False) # ys) \<noteq> extent xs" using lf2 p by (auto simp: word_unat_eq_iff)
    then show ?thesis using False lf2 first_free_carve by (auto intro: exI [of _ "lfree m2"])
  qed
  then obtain m3 q where m3: "(if p = lfree m2 then do {
              q \<leftarrow> lfree_advance m2 (lfree m2);
              rt_assert (q = heap_end m2 \<or> \<not> mem_isused (item m2 q));
              Some (m2\<lparr>lfree := q\<rparr>)
            } else Some m2) = Some m3" "m3 = m2\<lparr>lfree := q\<rparr>" "unat (lfree m3) = first_free 0 (xs @ carve (unat sz) l @ ys)"
    by blast
  have f2: "heap_ptr m3 = heap_ptr m" "heap_end m3 = heap_end m" "sm_addr m3 = sm_addr m" "sm_bytes m3 = sm_bytes m"
    "mem_size_aligned m3 = mem_size_aligned m" "sm_used m3 = sm_used m1" "sm_max m3 = sm_max m1"
    using f1 by (simp_all add: m3(2) m2_def)
  have "0 < unat sz" using sz(3) by (simp add: unat_gt_0)
  then have data: "\<forall>b \<in> set (xs @ carve (unat sz) l @ ys). snd b \<longrightarrow> 40 < fst b"
    using ok sz(1) by (auto simp: heap_ok_def carve_def)
  have al: "4 dvd extent xs" by (rule spells_dvd [OF h(9)])
  have a1: "p + 40 + sz \<le> heap_end m" using w(3) h(1,8) sz(1) by (simp add: word_le_nat_alt)
  have a2: "(heap_ptr m + p + 40) mod 4 = 0" using r(4) [of 40] h(1) al d(6) by (intro aligned_word(1)) simp
  have a3: "(heap_ptr m + p) AND 3 = 0" using r(4) [of 0] al d(6) by (intro aligned_word(2)) simp
  have "smem_take k sz p m = Some (heap_ptr m + p + 40, m3)"
    unfolding smem_take_def Let_def cond m1_def [symmetric] nm_def [symmetric] m2_def [symmetric] m3(1)
    using a1 a2 a3 by (simp add: f2)
  moreover have "heap_ok m3 (xs @ carve (unat sz) l @ ys)"
    using raw2 m3(2,3) no_holes_carve [OF nh] f1(7,8) f2(6,7) data by (simp add: heap_ok_def)
  ultimately show ?thesis using f2 by (auto simp: same_region_def)
qed

text \<open>Allocation on the sequence of blocks: the offset of the block, and the new sequence.\<close>

fun block_alloc :: "nat \<Rightarrow> nat \<Rightarrow> blocks \<Rightarrow> (nat \<times> blocks) option" where
  "block_alloc n a [] = None"
| "block_alloc n a ((l, u) # bs) =
     (if \<not> u \<and> n \<le> l - 40 then Some (a, carve n l @ bs)
      else map_option (apsnd ((#) (l, u))) (block_alloc n (a + l) bs))"

lemma block_alloc_fit: "map_option fst (block_alloc n a bs) = fit_at n a bs"
  by (induction n a bs rule: block_alloc.induct) (auto simp: option.map_comp comp_def)

lemma block_alloc_split:
  assumes "\<forall>b \<in> set xs. snd b \<or> fst b - 40 < n" and "n \<le> l - 40"
  shows "block_alloc n a (xs @ (l, False) # ys) = Some (a + extent xs, xs @ carve n l @ ys)"
  using assms(1)
proof (induction xs arbitrary: a)
  case (Cons b xs)
  then show ?case by (cases b) (auto simp: add.assoc)
qed (use assms(2) in simp)

text \<open>The length a request is rounded to.\<close>

definition request :: "u64 \<Rightarrow> u64" where
  "request sz = (let s = align_up sz in if s < MIN_SIZE_ALIGNED then MIN_SIZE_ALIGNED else s)"

lemma request_dvd: "4 dvd unat (request sz)"
  using unat_align_down [of "sz + 3"] by (simp add: request_def Let_def align_up_def align_down_def)

lemma request_ge:
  assumes "unat sz + 3 < 2 ^ 64"
  shows "unat sz \<le> unat (request sz)" and "unat (request sz) = max 24 ((unat sz + 3) div 4 * 4)"
  using unat_align_up [OF assms] by (auto simp: request_def Let_def word_less_nat_alt)

lemma request_nonzero: "request sz \<noteq> 0"
  by (auto simp: request_def Let_def)

lemma alloc_ok:
  assumes ok: "heap_ok m bs" and im: "is_smem k m" and sz: "sz \<noteq> 0"
  shows "case block_alloc (unat (request sz)) 0 bs of
      None \<Rightarrow> rt_smem_alloc k sz m = Some (0, m)
    | Some (a, bs') \<Rightarrow> \<exists>m'. rt_smem_alloc k sz m = Some (heap_ptr m + of_nat a + SIZEOF_STRUCT_MEM, m') \<and> heap_ok m' bs' \<and>
        same_region m m' \<and> sm_bytes m' = sm_bytes m"
proof -
  let ?n = "request sz"
  have raw: "heap_raw m bs" and lf: "unat (lfree m) = first_free 0 bs" using ok by (auto simp: heap_ok_def)
  note d = heap_rawD [OF raw]
  have un: "rt_smem_alloc k sz m = (if ?n > mem_size_aligned m then Some (0, m)
      else smem_find m ?n (lfree m) \<bind> (\<lambda>r. case r of None \<Rightarrow> Some (0, m) | Some ptr \<Rightarrow> smem_take k ?n ptr m))"
    using im sz by (simp add: rt_smem_alloc_def request_def Let_def)
  show ?thesis
  proof (cases "?n > mem_size_aligned m")
    case True
    then have "l - 40 < unat ?n" if "(l, u) \<in> set bs" for l u
      using extent_member [OF that] d(2,4) by (simp add: word_less_nat_alt)
    then have "fit_at (unat ?n) 0 bs = None" unfolding fit_at_None by auto
    then have "block_alloc (unat ?n) 0 bs = None" using block_alloc_fit [of "unat ?n" 0 bs] by simp
    then show ?thesis using un True by simp
  next
    case False
    obtain us vs where uv: "bs = us @ vs" "\<forall>b \<in> set us. snd b" "unat (lfree m) = extent us"
    proof
      show "bs = takeWhile snd bs @ dropWhile snd bs" by simp
      show "\<forall>b \<in> set (takeWhile snd bs). snd b" by (auto dest: set_takeWhileD)
      have "first_free a bs = a + extent (takeWhile snd bs)" for a
        by (induction a bs rule: first_free.induct) (auto simp: add.assoc)
      then show "unat (lfree m) = extent (takeWhile snd bs)" using lf by simp
    qed
    have find: "smem_find m ?n (lfree m) = Some (map_option of_nat (fit_at (unat ?n) 0 bs))"
      using find_ok [of m us vs ?n "lfree m"] raw False request_nonzero fit_at_used [OF uv(2), of "unat ?n" 0 vs] uv
      by simp
    show ?thesis
    proof (cases "fit_at (unat ?n) 0 bs")
      case None
      then show ?thesis using un False find block_alloc_fit [of "unat ?n" 0 bs] by simp
    next
      case (Some a)
      obtain xs l ys where s: "bs = xs @ (l, False) # ys" "a = extent xs" "unat ?n \<le> l - 40"
        "\<forall>b \<in> set xs. snd b \<or> fst b - 40 < unat ?n"
        using fit_at_Some [OF Some] by auto
      have "extent xs < 2 ^ 64" using d(2,5) by (simp add: s(1))
      then have a: "unat (of_nat a :: u64) = extent xs" unfolding unat_of_nat by (simp add: s(2))
      show ?thesis
        using smem_take_ok [OF ok [unfolded s(1)] a s(3) request_dvd request_nonzero, of k] un False find Some
          block_alloc_split [OF s(4,3), of 0 ys] s(1,2) by simp
    qed
  qed
qed

section \<open>Merging\<close>

definition fuse :: "u64 \<Rightarrow> u64 \<Rightarrow> small_mem \<Rightarrow> small_mem" where
  "fuse p q m = upd_item (inext (item m q)) (\<lambda>i. i\<lparr>iprev := p\<rparr>)
     (upd_item p (\<lambda>i. i\<lparr>inext := inext (item m q)\<rparr>) (upd_item q (\<lambda>i. i\<lparr>pool_ptr := 0\<rparr>) m))"

lemma fuse_raw:
  assumes ok: "heap_raw m (xs @ (j, u) # (l, v) # ys)" and p: "unat p = extent xs" and q: "unat q = extent xs + j"
  shows "heap_raw (fuse p q m) (xs @ (j + l, u) # ys)"
proof -
  let ?a = "extent xs" and ?P = "sm_addr m"
  have ok2: "heap_raw m ((xs @ [(j, u)]) @ (l, v) # ys)" and q2: "unat q = extent (xs @ [(j, u)])" using ok q by simp_all
  note b = heap_block [OF ok p] and c = heap_block [OF ok2 q2] and d = heap_rawD [OF ok]
  have e: "extent (xs @ [(j, u)]) = ?a + j" by simp
  define its where "its = (sm_items m)(?a + j := (sm_items m (?a + j))\<lparr>pool_ptr := 0\<rparr>,
    ?a := (sm_items m ?a)\<lparr>inext := inext (item m q)\<rparr>)"
  define its' where "its' = its(?a + j + l := (its (?a + j + l))\<lparr>iprev := p\<rparr>)"
  have eq: "fuse p q m = m\<lparr>sm_items := its'\<rparr>"
    using b(1) c(1,6) p q by (simp add: fuse_def upd_item_def its_def its'_def e)
  have "spells its' ?P 0 0 xs"
    using b(9) by (subst spells_cong [of _ _ _ "sm_items m"]) (auto simp: its'_def its_def)
  moreover have "its' ?a = (sm_items m ?a)\<lparr>inext := inext (item m q)\<rparr>" using b(1) c(1) by (simp add: its'_def its_def)
  moreover have "spells its' ?P ?a (?a + j + l) ys"
  proof -
    have "spells its ?P (?a + j) (?a + j + l) ys"
      using c(10) c(1) b(1) by (subst spells_cong [of _ _ _ "sm_items m"]) (auto simp: its_def e)
    then show ?thesis using spells_back [of its ?P "?a + j" "?a + j + l" ys p] p by (simp add: its'_def)
  qed
  moreover have "pool_ptr (its' (unat (heap_end m))) = mem_tag ?P True"
    using d(2,3) b(1) c(1) by (auto simp: its'_def its_def item_def)
  ultimately show ?thesis
    using d b(1-3,7) c(1,2,6) p by (simp add: eq heap_raw_def spells_append item_def add.assoc)
qed

lemma fuse_fields [simp]:
  "sm_addr (fuse p q m) = sm_addr m" "heap_ptr (fuse p q m) = heap_ptr m" "heap_end (fuse p q m) = heap_end m"
  "lfree (fuse p q m) = lfree m" "mem_size_aligned (fuse p q m) = mem_size_aligned m"
  "sm_used (fuse p q m) = sm_used m" "sm_max (fuse p q m) = sm_max m" "sm_bytes (fuse p q m) = sm_bytes m"
  by (simp_all add: fuse_def)

lemma plug_forward_fuse:
  assumes ok: "heap_raw m (xs @ (l, False) # ys)" and p: "unat p = extent xs" and lf: "lfree m \<noteq> inext (item m p)"
  shows "plug_forward p m = (if ys \<noteq> [] \<and> \<not> snd (hd ys) then fuse p (inext (item m p)) m else m)"
proof -
  let ?q = "inext (item m p)"
  note b = heap_block [OF ok p]
  have ne: "p \<noteq> ?q" using b(1,6) p by auto
  have st: "(\<not> mem_isused (item m ?q) \<and> ?q \<noteq> heap_end m) = (ys \<noteq> [] \<and> \<not> snd (hd ys))"
  proof (cases ys)
    case Nil
    then show ?thesis using behind_block [OF ok p] by simp
  next
    case (Cons y zs)
    then have "heap_raw m ((xs @ [(l, False)]) @ (fst y, snd y) # zs)" using ok by simp
    then show ?thesis using heap_block(4) [of m "xs @ [(l, False)]" "fst y" "snd y" zs ?q] behind_block [OF ok p] b(6) Cons by simp
  qed
  show ?thesis
  proof (cases "ys \<noteq> [] \<and> \<not> snd (hd ys)")
    case True
    then show ?thesis using st ne lf unfolding plug_forward_def Let_def fuse_def by (simp add: item_upd)
  next
    case False
    then have "\<not> (p \<noteq> ?q \<and> \<not> mem_isused (item m ?q) \<and> ?q \<noteq> heap_end m)" using st by blast
    then show ?thesis using False unfolding plug_forward_def Let_def by (simp only: if_False)
  qed
qed

lemma plug_backward_fuse:
  assumes ok: "heap_raw m (xs @ (l, False) # ys)" and p: "unat p = extent xs" and lf: "xs \<noteq> [] \<Longrightarrow> \<not> snd (last xs) \<Longrightarrow> lfree m \<noteq> p"
  shows "plug_backward p m = (if xs \<noteq> [] \<and> \<not> snd (last xs) then fuse (iprev (item m p)) p m else m)"
    and "xs \<noteq> [] \<Longrightarrow> unat (iprev (item m p)) = extent (butlast xs)"
proof -
  let ?q = "iprev (item m p)"
  note b = heap_block [OF ok p]
  have lh: "last_header pv a xs = a + extent (butlast xs)" if "xs \<noteq> []" for pv a
    using that by (induction pv a xs rule: last_header.induct) (auto simp: add.assoc)
  show pr: "unat ?q = extent (butlast xs)" if "xs \<noteq> []" using b(7) lh [OF that] by simp
  have st: "(?q \<noteq> p \<and> \<not> mem_isused (item m ?q)) = (xs \<noteq> [] \<and> \<not> snd (last xs))"
  proof (cases "xs = []")
    case True
    then show ?thesis using b(7) p by (simp add: word_unat_eq_iff)
  next
    case False
    then have xs: "xs = butlast xs @ [(fst (last xs), snd (last xs))]" by simp
    then have raw: "heap_raw m (butlast xs @ (fst (last xs), snd (last xs)) # (l, False) # ys)"
      using ok by (metis append.assoc append_Cons append_Nil)
    note c = heap_block [OF raw pr [OF False]]
    have "unat p = extent (butlast xs) + fst (last xs)" using p by (subst (asm) xs) simp
    then have "?q \<noteq> p" using pr [OF False] c(1) by auto
    then show ?thesis using c(4) False by simp
  qed
  show "plug_backward p m = (if xs \<noteq> [] \<and> \<not> snd (last xs) then fuse ?q p m else m)"
  proof (cases "xs \<noteq> [] \<and> \<not> snd (last xs)")
    case True
    then have "?q \<noteq> p \<and> \<not> mem_isused (item m ?q)" "lfree m \<noteq> p" using st lf by blast+
    then show ?thesis using True unfolding plug_backward_def Let_def fuse_def by (simp add: item_upd)
  next
    case False
    then have "\<not> (?q \<noteq> p \<and> \<not> mem_isused (item m ?q))" using st by blast
    then show ?thesis using False unfolding plug_backward_def Let_def by (simp only: if_False)
  qed
qed

text \<open>What a freed block merges with: the free block behind it, then the free block before it.\<close>

fun join_next :: "nat \<Rightarrow> blocks \<Rightarrow> nat \<times> blocks" where
  "join_next l ((k, False) # ys) = (l + k, ys)"
| "join_next l ys = (l, ys)"

definition release :: "blocks \<Rightarrow> nat \<Rightarrow> blocks \<Rightarrow> blocks" where
  "release xs l ys =
     (let (l', ys') = join_next l ys
      in if xs \<noteq> [] \<and> \<not> snd (last xs) then butlast xs @ (fst (last xs) + l', False) # ys' else xs @ (l', False) # ys')"

lemma join_next_cases:
  obtains (merge) k zs where "ys = (k, False) # zs" "join_next l ys = (l + k, zs)"
  | (keep) "join_next l ys = (l, ys)" "ys = [] \<or> snd (hd ys)"
proof (cases ys)
  case (Cons y zs)
  then show thesis by (cases y; cases "snd y") (use that in auto)
qed (use that in auto)

lemma plug_ok:
  assumes ok: "heap_raw m (xs @ (l, False) # ys)" and p: "unat p = extent xs"
    and lf: "unat (lfree m) = first_free 0 (xs @ (l, False) # ys)" and nh: "no_holes xs" "no_holes ys"
  shows "\<exists>m'. plug_holes p m = Some m' \<and> heap_raw m' (release xs l ys) \<and> unat (lfree m') = first_free 0 (release xs l ys) \<and>
    no_holes (release xs l ys) \<and> same_region m m' \<and> sm_used m' = sm_used m \<and> sm_max m' = sm_max m \<and> sm_bytes m' = sm_bytes m"
proof -
  note b = heap_block [OF ok p]
  obtain l' ys' where j: "join_next l ys = (l', ys')" by (cases "join_next l ys")
  define m1 where "m1 = plug_forward p m"
  have lt: "p < heap_end m" using b(1,8) p by (simp add: word_less_nat_alt)
  have le: "first_free 0 (xs @ (l, False) # ys) \<le> extent xs" using first_free_le [of 0 xs] by (simp add: first_free_append)
  have "lfree m \<noteq> inext (item m p)" using le lf b(1,6) by auto
  note pf = plug_forward_fuse [OF ok p this]
  have m1: "heap_raw m1 (xs @ (l', False) # ys')" "lfree m1 = lfree m" "same_region m m1"
    "sm_used m1 = sm_used m" "sm_max m1 = sm_max m" "sm_bytes m1 = sm_bytes m"
  proof -
    show "heap_raw m1 (xs @ (l', False) # ys')"
    proof (cases ys l rule: join_next_cases)
      case (merge k zs)
      have "heap_raw (fuse p (inext (item m p)) m) (xs @ (l + k, False) # zs)"
        using ok merge(1) by (intro fuse_raw [OF _ p b(6)]) simp
      then show ?thesis using pf merge j by (simp add: m1_def)
    next
      case keep
      then show ?thesis using pf ok j by (auto simp: m1_def)
    qed
    show "lfree m1 = lfree m" "same_region m m1" "sm_used m1 = sm_used m" "sm_max m1 = sm_max m" "sm_bytes m1 = sm_bytes m"
      by (simp_all add: m1_def pf same_region_def)
  qed
  have ff: "first_free 0 (xs @ (l', False) # ys') = first_free 0 (xs @ (l, False) # ys)" by (simp add: first_free_append)
  have nl: "lfree m1 \<noteq> p" if "xs \<noteq> []" "\<not> snd (last xs)"
  proof -
    have ex: "\<not> (\<forall>b \<in> set xs. snd b)" using that last_in_set by blast
    then have "first_free 0 xs < extent xs" using first_free_lt [OF ex, of 0] spells_lengths [OF b(9)] by fastforce
    moreover have "first_free 0 (xs @ (l, False) # ys) = first_free 0 xs" using ex by (simp only: first_free_append if_False)
    ultimately show ?thesis using lf m1(2) p by auto
  qed
  note pb = plug_backward_fuse [OF m1(1) p nl]
  have nh': "no_holes (release xs l ys)"
    using nh j by (cases ys l rule: join_next_cases; cases xs rule: rev_cases)
      (auto simp: release_def successively_append_iff successively_Cons)
  show ?thesis
  proof (cases "xs \<noteq> [] \<and> \<not> snd (last xs)")
    case True
    let ?q = "iprev (item m1 p)"
    have xs: "xs = butlast xs @ [(fst (last xs), False)]" using True by (metis append_butlast_last_id prod.collapse)
    have rl: "release xs l ys = butlast xs @ (fst (last xs) + l', False) # ys'" using True j by (simp add: release_def)
    have "heap_raw (fuse ?q p m1) (butlast xs @ (fst (last xs) + l', False) # ys')"
    proof (rule fuse_raw)
      show "heap_raw m1 (butlast xs @ (fst (last xs), False) # (l', False) # ys')"
        using m1(1) xs by (metis append.assoc append_Cons append_Nil)
      show "unat ?q = extent (butlast xs)" using pb(2) True by simp
      show "unat p = extent (butlast xs) + fst (last xs)" using p by (subst (asm) xs) simp
    qed
    moreover have "first_free 0 (release xs l ys) = first_free 0 (xs @ (l, False) # ys)"
      unfolding rl by (subst (2) xs) (simp add: first_free_append)
    ultimately show ?thesis
      using True lt pb(1) m1(2-) lf nh' rl by (simp add: plug_holes_def m1_def [symmetric] same_region_def)
  next
    case False
    then have "release xs l ys = xs @ (l', False) # ys'" using j by (auto simp: release_def)
    moreover have "plug_backward p m1 = m1" using pb(1) False by (cases "xs = []") auto
    ultimately show ?thesis using lt m1 lf nh' ff by (simp add: plug_holes_def m1_def [symmetric])
  qed
qed

lemma used_extent_release: "used_extent (release xs l ys) = used_extent xs + used_extent ys"
proof -
  have j: "used_extent (snd (join_next l ys)) = used_extent ys" by (cases ys l rule: join_next_cases) auto
  have "used_extent (butlast xs) = used_extent xs" if "xs \<noteq> []" "\<not> snd (last xs)"
    using that by (cases xs rule: rev_cases) auto
  then show ?thesis using j by (auto simp: release_def split: prod.splits)
qed

lemma release_used: "b \<in> set (release xs l ys) \<Longrightarrow> snd b \<Longrightarrow> b \<in> set xs \<union> set ys"
  by (cases ys l rule: join_next_cases) (auto simp: release_def dest: in_set_butlastD split: if_splits)

lemma smem_free_ok:
  assumes ok: "heap_ok m (xs @ (l, True) # ys)" and im: "is_smem k m"
  shows "\<exists>m'. rt_smem_free k (heap_ptr m + of_nat (extent xs) + SIZEOF_STRUCT_MEM) m = Some m' \<and> heap_ok m' (release xs l ys) \<and>
    same_region m m' \<and> sm_bytes m' = sm_bytes m"
proof -
  let ?p = "of_nat (extent xs) :: u64" and ?b = "heap_ptr m + of_nat (extent xs) + 40"
  have raw: "heap_raw m (xs @ (l, True) # ys)" and lf: "unat (lfree m) = first_free 0 (xs @ (l, True) # ys)"
    and nh: "no_holes (xs @ (l, True) # ys)" and us: "unat (sm_used m) = used_extent (xs @ (l, True) # ys)"
    and mx: "sm_used m \<le> sm_max m" and data: "40 < l" "\<forall>b \<in> set xs \<union> set ys. snd b \<longrightarrow> 40 < fst b"
    using ok by (auto simp: heap_ok_def)
  note d = heap_rawD [OF raw]
  have "extent xs < 2 ^ 64" using d(2,5) by simp
  then have p: "unat ?p = extent xs" unfolding unat_of_nat by simp
  note b = heap_block [OF raw p] and r = heap_room [OF raw p]
  have ub: "unat ?b = unat (heap_ptr m) + extent xs + 40" using r(4) [of 40] b(1) by simp
  have al: "4 dvd extent xs" by (rule spells_dvd [OF b(9)])
  have a1: "?b AND 3 = 0" "?b \<noteq> 0" using ub al d(6) by (auto intro: aligned_word(2))
  have mem: "?b - 40 - heap_ptr m = ?p" by simp
  have a2: "?b \<ge> heap_ptr m" "?b < heap_ptr m + heap_end m"
    using ub data(1) b(8) d(5) unat_plus [of "heap_ptr m" "heap_end m"] by (simp_all add: word_le_nat_alt word_less_nat_alt)
  have a3: "mem_pool (item m (inext (item m ?p))) = sm_addr m"
  proof (cases ys)
    case Nil
    then show ?thesis using behind_block [OF raw p] heap_end_block(2) [OF raw] by simp
  next
    case (Cons y zs)
    then have "heap_raw m ((xs @ [(l, True)]) @ (fst y, snd y) # zs)" using raw by simp
    then show ?thesis using heap_block(5) [of m "xs @ [(l, True)]" "fst y" "snd y" zs "inext (item m ?p)"] b(6) by simp
  qed
  define m1 where "m1 = upd_item ?p (\<lambda>i. rt_smem_setname ''    '' (i\<lparr>pool_ptr := mem_tag (sm_addr m) False\<rparr>)) m"
  define m2 where "m2 = (if ?p < lfree m1 then m1\<lparr>lfree := ?p\<rparr> else m1)"
  define m3 where "m3 = m2\<lparr>sm_used := sm_used m2 - (inext (item m2 ?p) - ?p)\<rparr>"
  have raw1: "heap_raw m1 (xs @ (l, False) # ys)" unfolding m1_def by (rule mark_raw [OF raw p]) simp_all
  have raw3: "heap_raw m3 (xs @ (l, False) # ys)" using raw1 by (simp add: m3_def m2_def)
  have i: "inext (item m2 ?p) = inext (item m ?p)" by (simp add: m2_def m1_def item_upd)
  have u3: "unat (sm_used m3) = used_extent xs + used_extent ys" "sm_max m3 = sm_max m"
  proof -
    have "unat (sm_used m2 - (inext (item m2 ?p) - ?p)) = used_extent xs + used_extent ys"
      using us r(2) unfolding i by (subst unat_minus) (simp_all add: m2_def m1_def)
    then show "unat (sm_used m3) = used_extent xs + used_extent ys" by (simp add: m3_def)
    show "sm_max m3 = sm_max m" by (simp add: m3_def m2_def m1_def)
  qed
  have lf3: "unat (lfree m3) = first_free 0 (xs @ (l, False) # ys)"
  proof (cases "\<forall>b \<in> set xs. snd b")
    case True
    have "extent xs < unat (lfree m)"
      using lf True b(1) first_free_ge [of "extent xs + l" ys] by (simp add: first_free_append)
    then show ?thesis using True p by (simp add: m3_def m2_def m1_def word_less_nat_alt first_free_append)
  next
    case False
    then have "first_free 0 (xs @ c # ys) = first_free 0 xs" for c by (simp only: first_free_append if_False)
    then show ?thesis using lf p first_free_le [of 0 xs] by (simp add: m3_def m2_def m1_def word_less_nat_alt)
  qed
  have nh': "no_holes xs" "no_holes ys" using nh by (auto simp: successively_append_iff successively_Cons)
  obtain m' where m': "plug_holes ?p m3 = Some m'" "heap_raw m' (release xs l ys)" "unat (lfree m') = first_free 0 (release xs l ys)"
    "no_holes (release xs l ys)" "same_region m3 m'" "sm_used m' = sm_used m3" "sm_max m' = sm_max m3" "sm_bytes m' = sm_bytes m3"
    using plug_ok [OF raw3 p lf3 nh'] by blast
  have "rt_smem_free k ?b m = Some m'"
    unfolding rt_smem_free_def Let_def mem m1_def [symmetric] m2_def [symmetric] m3_def [symmetric]
    using a1 a2 a3 b(4,5) d(8) im m'(1) by simp
  moreover have "sm_used m3 \<le> sm_max m3" using u3 us mx by (simp add: word_le_nat_alt)
  ultimately show ?thesis
    using m' u3 used_extent_release [of xs l ys] release_used [of _ xs l ys] data(2)
    by (auto simp: heap_ok_def same_region_def) (auto simp: m3_def m2_def m1_def)
qed

section \<open>The areas in use\<close>

text \<open>Offset and length of the data parts of the blocks in use.\<close>

fun areas :: "nat \<Rightarrow> blocks \<Rightarrow> (nat \<times> nat) list" where
  "areas a [] = []"
| "areas a ((l, u) # bs) = (if u then [(a + 40, l - 40)] else []) @ areas (a + l) bs"

lemma areas_append: "areas a (xs @ ys) = areas a xs @ areas (a + extent xs) ys"
  by (induction a xs rule: areas.induct) (auto simp: add.assoc)

lemma areas_bounds:
  "(c, n) \<in> set (areas a bs) \<Longrightarrow> \<forall>b \<in> set bs. 40 \<le> fst b \<Longrightarrow> a + 40 \<le> c \<and> c + n \<le> a + extent bs"
  by (induction a bs rule: areas.induct) (fastforce split: if_splits)+

lemma areas_split:
  "(c, n) \<in> set (areas a bs) \<Longrightarrow> \<exists>xs l ys. bs = xs @ (l, True) # ys \<and> c = a + extent xs + 40 \<and> n = l - 40"
proof (induction a bs rule: areas.induct)
  case (2 a l u bs)
  show ?case
  proof (cases "u \<and> c = a + 40 \<and> n = l - 40")
    case True
    then show ?thesis by (intro exI [of _ "[]"]) auto
  next
    case False
    then have "(c, n) \<in> set (areas (a + l) bs)" using 2(2) by (auto split: if_splits)
    then obtain xs l' ys where "bs = xs @ (l', True) # ys" "c = a + l + extent xs + 40" "n = l' - 40" using 2(1) by blast
    then show ?thesis by (intro exI [of _ "(l, u) # xs"]) auto
  qed
qed simp

lemma areas_carve: "set (areas a (carve n l)) = {(a + 40, if n + 64 \<le> l - 40 then n else l - 40)}"
  by (simp add: carve_def)

lemma extent_carve: "n \<le> l - 40 \<Longrightarrow> 40 \<le> l \<Longrightarrow> extent (carve n l) = l"
  by (auto simp: carve_def)

lemma areas_release: "set (areas a (release xs l ys)) = set (areas a xs) \<union> set (areas (a + extent xs + l) ys)"
proof -
  have j: "set (areas (b + fst (join_next l ys)) (snd (join_next l ys))) = set (areas (b + l) ys)" for b
    by (cases ys l rule: join_next_cases) (auto simp: add.assoc)
  show ?thesis
  proof (cases "xs \<noteq> [] \<and> \<not> snd (last xs)")
    case True
    obtain zs b where zs: "xs = zs @ [b]" using True by (cases xs rule: rev_cases) auto
    then show ?thesis
      using True j [of "a + extent zs + fst b"] by (cases b) (auto simp: release_def areas_append case_prod_unfold Let_def add.assoc)
  next
    case False
    then show ?thesis using j [of "a + extent xs"] by (auto simp: release_def areas_append case_prod_unfold Let_def add.assoc)
  qed
qed

lemma heap_lengths: "heap_ok m bs \<Longrightarrow> \<forall>b \<in> set bs. 40 \<le> fst b"
  using spells_lengths [of "sm_items m" "sm_addr m" 0 0 bs] by (auto simp: heap_ok_def heap_raw_def)

text \<open>An area with its bytes, seen from outside the heap.\<close>

definition apart_from :: "nat \<Rightarrow> nat \<Rightarrow> (nat \<times> nat) set \<Rightarrow> bool" where
  "apart_from a n A = (\<forall>(b, k) \<in> A. a + n \<le> b \<or> b + k \<le> a)"

lemma alloc_areas:
  assumes "heap_ok m bs" and "is_smem k m" and "sz \<noteq> 0"
  shows "\<exists>p m' bs'. rt_smem_alloc k sz m = Some (p, m') \<and> heap_ok m' bs' \<and> same_region m m' \<and> sm_bytes m' = sm_bytes m \<and>
    (if p = 0 then m' = m \<and> bs' = bs \<and> (\<forall>(l, u) \<in> set bs. u \<or> l - 40 < unat (request sz))
     else \<exists>a n. unat p = unat (heap_ptr m) + a \<and> p = heap_ptr m + of_nat a \<and> unat (request sz) \<le> n \<and> n < unat (request sz) + 64 \<and>
       a + n \<le> unat (heap_end m) \<and>
       set (areas 0 bs') = insert (a, n) (set (areas 0 bs)) \<and> apart_from a n (set (areas 0 bs)))"
proof (cases "block_alloc (unat (request sz)) 0 bs")
  case None
  then have "fit_at (unat (request sz)) 0 bs = None" using block_alloc_fit [of "unat (request sz)" 0 bs] by simp
  then have "\<forall>(l, u) \<in> set bs. u \<or> l - 40 < unat (request sz)" unfolding fit_at_None .
  then show ?thesis
    using alloc_ok [OF assms] None assms(1) by (intro exI [of _ 0] exI [of _ m] exI [of _ bs]) (simp add: same_region_def)
next
  case (Some r)
  let ?n = "unat (request sz)"
  obtain xs l ys where s: "bs = xs @ (l, False) # ys" "?n \<le> l - 40" "\<forall>b \<in> set xs. snd b \<or> fst b - 40 < ?n"
    using block_alloc_fit [of ?n 0 bs] Some fit_at_Some [of ?n 0 bs "fst r"] by auto
  have r: "r = (extent xs, xs @ carve ?n l @ ys)" using block_alloc_split [OF s(3,2), of 0 ys] Some s(1) by simp
  have raw: "heap_raw m (xs @ (l, False) # ys)" using assms(1) s(1) by (simp add: heap_ok_def)
  note d = heap_rawD [OF raw]
  have "extent xs < 2 ^ 64" using d(2,5) by simp
  then have p: "unat (of_nat (extent xs) :: u64) = extent xs" unfolding unat_of_nat by simp
  note b = heap_block [OF raw p] and rm = heap_room [OF raw p]
  let ?p = "heap_ptr m + of_nat (extent xs) + 40" and ?k = "if ?n + 64 \<le> l - 40 then ?n else l - 40"
  obtain m' where m': "rt_smem_alloc k sz m = Some (?p, m')" "heap_ok m' (xs @ carve ?n l @ ys)" "same_region m m'"
    "sm_bytes m' = sm_bytes m"
    using alloc_ok [OF assms] Some r by auto
  have up: "unat ?p = unat (heap_ptr m) + (extent xs + 40)" using rm(4) [of 40] b(1) by simp
  have ar: "set (areas 0 (xs @ carve ?n l @ ys)) = insert (extent xs + 40, ?k) (set (areas 0 bs))"
    using extent_carve [OF s(2) b(1)] by (auto simp: areas_append areas_carve s(1))
  have len: "\<forall>b \<in> set xs. 40 \<le> fst b" "\<forall>b \<in> set ys. 40 \<le> fst b" using heap_lengths [OF assms(1)] s(1) by auto
  have "apart_from (extent xs + 40) ?k (set (areas 0 bs))"
    using areas_bounds [OF _ len(1), of _ _ 0] areas_bounds [OF _ len(2), of _ _ "extent xs + l"] b(1) s(2)
    by (fastforce simp: apart_from_def s(1) areas_append)
  then show ?thesis
    using m' up ar b(1,8) s(2)
    by (intro exI [of _ ?p] exI [of _ m'] exI [of _ "xs @ carve ?n l @ ys"])
      (auto simp: add.assoc intro!: exI [of _ "extent xs + 40"] exI [of _ ?k])
qed

lemma areas_others:
  assumes "heap_ok m (xs @ (l, True) # ys)"
  shows "set (areas 0 (xs @ (l, True) # ys)) - {(extent xs + 40, l - 40)} = set (areas 0 xs) \<union> set (areas (extent xs + l) ys)"
proof -
  have len: "\<forall>b \<in> set xs. 40 \<le> fst b" "\<forall>b \<in> set ys. 40 \<le> fst b" "40 \<le> l" using heap_lengths [OF assms] by auto
  have "(extent xs + 40, l - 40) \<notin> set (areas 0 xs)" "(extent xs + 40, l - 40) \<notin> set (areas (extent xs + l) ys)"
    using areas_bounds [OF _ len(1), of _ _ 0] areas_bounds [OF _ len(2), of _ _ "extent xs + l"] len(3) by fastforce+
  then show ?thesis by (auto simp: areas_append)
qed

lemma free_areas:
  assumes ok: "heap_ok m bs" and im: "is_smem k m" and a: "(a, n) \<in> set (areas 0 bs)"
  shows "\<exists>m' bs'. rt_smem_free k (heap_ptr m + of_nat a) m = Some m' \<and> heap_ok m' bs' \<and> same_region m m' \<and>
    sm_bytes m' = sm_bytes m \<and> set (areas 0 bs') = set (areas 0 bs) - {(a, n)}"
proof -
  obtain xs l ys where s: "bs = xs @ (l, True) # ys" "a = extent xs + 40" "n = l - 40" using areas_split [OF a] by auto
  have p: "heap_ptr m + of_nat a = heap_ptr m + of_nat (extent xs) + 40" by (simp add: s(2) add.assoc add.commute)
  obtain m' where m': "rt_smem_free k (heap_ptr m + of_nat a) m = Some m'" "heap_ok m' (release xs l ys)" "same_region m m'"
    "sm_bytes m' = sm_bytes m"
    using smem_free_ok [OF ok [unfolded s(1)] im] unfolding p by blast
  have "set (areas 0 (release xs l ys)) = set (areas 0 bs) - {(a, n)}"
    using areas_others [OF ok [unfolded s(1)]] s by (simp add: areas_release)
  then show ?thesis using m' by blast
qed

lemma areas_apart:
  assumes "heap_ok m bs" and "(a, n) \<in> set (areas 0 bs)" and "(b, k) \<in> set (areas 0 bs)" and "(a, n) \<noteq> (b, k)"
  shows "a + n \<le> b \<or> b + k \<le> a"
proof -
  obtain xs l ys where s: "bs = xs @ (l, True) # ys" "a = extent xs + 40" "n = l - 40" using areas_split [OF assms(2)] by auto
  have len: "\<forall>b \<in> set xs. 40 \<le> fst b" "\<forall>b \<in> set ys. 40 \<le> fst b" "40 \<le> l" using heap_lengths [OF assms(1)] s(1) by auto
  have "(b, k) \<in> set (areas 0 xs) \<or> (b, k) \<in> set (areas (extent xs + l) ys)"
    using assms(3,4) s by (auto simp: areas_append)
  then show ?thesis
    using areas_bounds [OF _ len(1), of b k 0] areas_bounds [OF _ len(2), of b k "extent xs + l"] len(3) s(2,3) by auto
qed

end
