(* ===== verification/Rt_SmemRun.thy ===== *)
theory Rt_SmemRun
  imports Rt_SmemProps
begin

text \<open>
  The small-memory heap as its clients see it: reallocation, a new heap, and histories of calls in which the blocks handed
  out and not yet given back are tracked. The properties of \<^verbatim>\<open>src/mem.c\<close> are at the end.
\<close>

section \<open>Resizing\<close>

lemma block_split:
  assumes ok: "heap_ok m (xs @ (l, True) # ys)" and j: "40 < j" "4 dvd j" "j + 40 \<le> l"
  defines "p \<equiv> of_nat (extent xs) :: u64" and "q \<equiv> of_nat (extent xs + j) :: u64"
  defines "m1 \<equiv> smem_split p q (m\<lparr>sm_used := sm_used m - of_nat (l - j)\<rparr>)"
  shows "\<exists>m'. plug_holes q (if q < lfree m1 then m1\<lparr>lfree := q\<rparr> else m1) = Some m' \<and>
    heap_ok m' (release (xs @ [(j, True)]) (l - j) ys) \<and> same_region m m' \<and> sm_bytes m' = sm_bytes m"
proof -
  have raw: "heap_raw m (xs @ (l, True) # ys)" and lf: "unat (lfree m) = first_free 0 (xs @ (l, True) # ys)"
    and nh: "no_holes (xs @ (l, True) # ys)" and us: "unat (sm_used m) = used_extent (xs @ (l, True) # ys)"
    and mx: "sm_used m \<le> sm_max m" and data: "\<forall>b \<in> set xs \<union> set ys. snd b \<longrightarrow> 40 < fst b"
    using ok by (auto simp: heap_ok_def)
  note d = heap_rawD [OF raw]
  have lt: "extent xs + l < 2 ^ 64" using d(2,5) by simp
  have p: "unat p = extent xs" using lt unfolding p_def unat_of_nat by (intro mod_less) simp
  have q: "unat q = extent xs + j" using lt j(3) unfolding q_def unat_of_nat by (intro mod_less) simp
  have lj: "unat (of_nat (l - j) :: u64) = l - j" using lt unfolding unat_of_nat by (intro mod_less) simp
  define m2 where "m2 = (if q < lfree m1 then m1\<lparr>lfree := q\<rparr> else m1)"
  have raw1: "heap_raw m1 (xs @ (j, True) # (l - j, False) # ys)"
    unfolding m1_def by (rule split_raw [OF _ p q]) (use raw j in auto)
  then have raw2: "heap_raw m2 ((xs @ [(j, True)]) @ (l - j, False) # ys)" by (simp add: m2_def)
  have f1: "lfree m1 = lfree m" "same_region m m2" "sm_bytes m2 = sm_bytes m" "sm_max m2 = sm_max m"
    by (simp_all add: m1_def m2_def same_region_def)
  have u2: "unat (sm_used m2) = used_extent xs + j + used_extent ys"
  proof -
    have "unat (sm_used m - of_nat (l - j)) = used_extent xs + j + used_extent ys"
      using us lj j(3) by (subst unat_minus) simp_all
    then show ?thesis by (simp add: m2_def m1_def)
  qed
  have q2: "unat q = extent (xs @ [(j, True)])" using q by simp
  have lf2: "unat (lfree m2) = first_free 0 ((xs @ [(j, True)]) @ (l - j, False) # ys)"
  proof (cases "\<forall>b \<in> set xs. snd b")
    case True
    have "extent xs + j < unat (lfree m)"
      using lf True j(3) first_free_ge [of "extent xs + l" ys] by (simp add: first_free_append)
    then show ?thesis using True q by (simp add: m2_def f1(1) word_less_nat_alt first_free_append)
  next
    case False
    then have e: "first_free 0 (xs @ zs) = first_free 0 xs" for zs by (simp only: first_free_append if_False)
    then have "unat (lfree m) \<le> extent xs" using lf first_free_le [of 0 xs] by simp
    then show ?thesis using e lf q by (simp add: m2_def f1(1) word_less_nat_alt)
  qed
  have nh': "no_holes (xs @ [(j, True)])" "no_holes ys" using nh by (auto simp: successively_append_iff successively_Cons)
  obtain m' where m': "plug_holes q m2 = Some m'" "heap_raw m' (release (xs @ [(j, True)]) (l - j) ys)"
    "unat (lfree m') = first_free 0 (release (xs @ [(j, True)]) (l - j) ys)" "no_holes (release (xs @ [(j, True)]) (l - j) ys)"
    "same_region m2 m'" "sm_used m' = sm_used m2" "sm_max m' = sm_max m2" "sm_bytes m' = sm_bytes m2"
    using plug_ok [OF raw2 q2 lf2 nh'] by blast
  have "sm_used m2 \<le> sm_max m2" using u2 us mx j(3) f1(4) by (simp add: word_le_nat_alt)
  moreover have "\<forall>b \<in> set (release (xs @ [(j, True)]) (l - j) ys). snd b \<longrightarrow> 40 < fst b"
    using data j(1) by (auto dest!: release_used)
  ultimately have "heap_ok m' (release (xs @ [(j, True)]) (l - j) ys)"
    using m' u2 used_extent_release [of "xs @ [(j, True)]" "l - j" ys] by (simp add: heap_ok_def)
  then show ?thesis using m' f1 unfolding m2_def by (auto simp: same_region_def)
qed

text \<open>The result of a reallocation: the block stays or moves, its bytes and all other areas are kept.\<close>

definition resized :: "small_mem \<Rightarrow> blocks \<Rightarrow> nat \<Rightarrow> nat \<Rightarrow> nat \<Rightarrow> u64 \<Rightarrow> small_mem \<Rightarrow> blocks \<Rightarrow> bool" where
  "resized m bs a n sz p m' bs' =
     (\<exists>c k. p = heap_ptr m + of_nat c \<and> p \<noteq> 0 \<and> sz \<le> k \<and> set (areas 0 bs') = insert (c, k) (set (areas 0 bs) - {(a, n)}) \<and>
        (c, k) \<notin> set (areas 0 bs) - {(a, n)} \<and>
        (\<forall>i < min n sz. sm_bytes m' (c + i) = sm_bytes m (a + i)) \<and>
        (\<forall>(b, j) \<in> set (areas 0 bs) - {(a, n)}. \<forall>i < j. sm_bytes m' (b + i) = sm_bytes m (b + i)))"

lemma same_region_trans: "same_region m m1 \<Longrightarrow> same_region m1 m2 \<Longrightarrow> same_region m m2"
  by (simp add: same_region_def)

lemma is_smem_same: "same_region m m' \<Longrightarrow> is_smem k m' = is_smem k m"
  by (simp add: same_region_def is_smem_def)

lemma heap_ok_bytes [simp]: "heap_ok (m\<lparr>sm_bytes := f\<rparr>) bs = heap_ok m bs"
  by (simp add: heap_ok_def)

text \<open>The last part of \<^verbatim>\<open>rt_smem_realloc\<close>: a new block, the bytes moved, the old block freed.\<close>

lemma realloc_moves:
  assumes ok: "heap_ok m bs" and im: "is_smem k m" and a: "(a, n) \<in> set (areas 0 bs)" and sz: "sz \<noteq> 0" and sz4: "align_up sz = sz"
    and p: "rt_smem_alloc k sz m = Some (p, m1)" "p \<noteq> 0"
    and n: "unat (heap_ptr m + of_nat a - heap_ptr m) = a" "w = n"
  shows "\<exists>m' bs'. rt_smem_free k (heap_ptr m + of_nat a) (smem_copy (unat (p - heap_ptr m)) a (min w (unat sz)) m1) = Some m' \<and>
    heap_ok m' bs' \<and> same_region m m' \<and> resized m bs a n (unat sz) p m' bs'"
proof -
  obtain bs1 c j where c: "heap_ok m1 bs1" "same_region m m1" "sm_bytes m1 = sm_bytes m" "unat p = unat (heap_ptr m) + c"
    "p = heap_ptr m + of_nat c" "unat (request sz) \<le> j" "c + j \<le> unat (heap_end m)"
    "set (areas 0 bs1) = insert (c, j) (set (areas 0 bs))" "apart_from c j (set (areas 0 bs))"
    using alloc_areas [OF ok im sz] p by auto
  have szj: "unat sz \<le> j" using c(6) sz4 by (simp add: request_def Let_def word_less_nat_alt split: if_splits)
  have cc: "unat (p - heap_ptr m) = c" using c(4) by (subst unat_minus) simp_all
  define m2 where "m2 = smem_copy c a (min w (unat sz)) m1"
  have ok2: "heap_ok m2 bs1" "same_region m m2" using c(1,2) by (simp_all add: m2_def smem_copy_def same_region_def)
  have a1: "(a, n) \<in> set (areas 0 bs1)" using a c(8) by simp
  obtain m' bs' where m': "rt_smem_free k (heap_ptr m2 + of_nat a) m2 = Some m'" "heap_ok m' bs'" "same_region m2 m'"
    "sm_bytes m' = sm_bytes m2" "set (areas 0 bs') = set (areas 0 bs1) - {(a, n)}"
    using free_areas [OF ok2(1) _ a1] im is_smem_same [OF ok2(2)] by blast
  have ap: "c + j \<le> a \<or> a + n \<le> c" using c(9) a by (fastforce simp: apart_from_def)
  have j0: "0 < j" using szj sz by (metis gr0I le_zero_eq unat_eq_zero)
  then have ne: "(c, j) \<noteq> (a, n)" using ap by auto
  have "resized m bs a n (unat sz) p m' bs'"
    unfolding resized_def
  proof (rule exI [of _ c], rule exI [of _ j], intro conjI)
    show "p = heap_ptr m + of_nat c" by (rule c(5))
    show "p \<noteq> 0" by (rule p(2))
    show "unat sz \<le> j" by (rule szj)
    show "set (areas 0 bs') = insert (c, j) (set (areas 0 bs) - {(a, n)})" using m'(5) c(8) ne by auto
    show "(c, j) \<notin> set (areas 0 bs) - {(a, n)}" using c(9) j0 by (auto simp: apart_from_def)
    show "\<forall>i < min n (unat sz). sm_bytes m' (c + i) = sm_bytes m (a + i)"
      using m'(4) c(3) n(2) by (simp add: m2_def smem_copy_def)
    show "\<forall>(b, l) \<in> set (areas 0 bs) - {(a, n)}. \<forall>i < l. sm_bytes m' (b + i) = sm_bytes m (b + i)"
    proof (clarify)
      fix b l i
      assume b: "(b, l) \<in> set (areas 0 bs)" and i: "i < l"
      have "c + j \<le> b \<or> b + l \<le> c" using c(9) b by (auto simp: apart_from_def)
      then have "\<not> (c \<le> b + i \<and> b + i < c + min w (unat sz))" using szj i by linarith
      then show "sm_bytes m' (b + i) = sm_bytes m (b + i)" using m'(4) c(3) by (auto simp: m2_def smem_copy_def)
    qed
  qed
  moreover have "heap_ptr m2 = heap_ptr m" using ok2(2) by (simp add: same_region_def)
  ultimately show ?thesis
    unfolding cc m2_def [symmetric] by (intro exI [of _ m'] exI [of _ bs']) (use m' same_region_trans [OF ok2(2)] in simp)
qed

text \<open>The header that an address handed out belongs to.\<close>

lemma block_header:
  assumes ok: "heap_ok m (xs @ (l, True) # ys)"
  defines "r \<equiv> heap_ptr m + of_nat (extent xs + 40) :: u64"
  shows "r - SIZEOF_STRUCT_MEM - heap_ptr m = of_nat (extent xs)" and "unat (of_nat (extent xs) :: u64) = extent xs"
    and "unat r = unat (heap_ptr m) + extent xs + 40" and "r AND 3 = 0" and "heap_ptr m \<le> r" and "r < heap_ptr m + heap_end m"
    and "unat (r - heap_ptr m) = extent xs + 40" and "40 < l"
    and "unat (inext (item m (of_nat (extent xs))) - of_nat (extent xs) - SIZEOF_STRUCT_MEM) = l - 40"
    and "4 dvd unat r"
proof -
  have raw: "heap_raw m (xs @ (l, True) # ys)" and l: "40 < l" using ok by (auto simp: heap_ok_def)
  note d = heap_rawD [OF raw]
  have lt: "extent xs + l \<le> unat (heap_end m)" "unat (heap_ptr m) + unat (heap_end m) < 2 ^ 64" using d(2,5) by simp_all
  show p: "unat (of_nat (extent xs) :: u64) = extent xs" using lt unfolding unat_of_nat by (intro mod_less) simp
  have q: "unat (of_nat (extent xs + 40) :: u64) = extent xs + 40" using lt l unfolding unat_of_nat by (intro mod_less) simp
  show r: "unat r = unat (heap_ptr m) + extent xs + 40" unfolding r_def by (subst unat_plus) (use q lt l in simp_all)
  show "40 < l" by (rule l)
  show "r - SIZEOF_STRUCT_MEM - heap_ptr m = of_nat (extent xs)" by (simp add: r_def)
  show "unat (r - heap_ptr m) = extent xs + 40" using r by (subst unat_minus) simp_all
  have "4 dvd extent xs" using spells_dvd [OF heap_block(9) [OF raw p]] .
  then show r4: "4 dvd unat r" unfolding r using d(6) by (simp add: dvd_add_right_iff dvd_add)
  show "r AND 3 = 0" by (rule aligned_word [OF r4])
  show "heap_ptr m \<le> r" using r by (simp add: word_le_nat_alt)
  have "unat (heap_ptr m + heap_end m) = unat (heap_ptr m) + unat (heap_end m)" by (rule unat_plus) (use lt(2) in simp)
  then show "r < heap_ptr m + heap_end m" using r lt(1) l by (simp add: word_less_nat_alt)
  show "unat (inext (item m (of_nat (extent xs))) - of_nat (extent xs) - SIZEOF_STRUCT_MEM) = l - 40"
    using heap_room(1) [OF raw p] by (simp add: algebra_simps)
qed

lemma align_up_twice: "align_up (align_up sz) = align_up (sz :: u64)"
proof -
  let ?x = "align_up sz"
  have d: "4 dvd unat ?x" using unat_align_down [of "sz + 3"] by (simp add: align_up_def align_down_def)
  have "unat ?x + 3 < 2 ^ 64"
  proof -
    have "unat ?x < 2 ^ 64" using unsigned_less [of ?x, where ?'a = nat] by simp
    moreover have "4 dvd (2 ^ 64 :: nat)" by simp
    ultimately have "unat ?x + 4 \<le> 2 ^ 64" using d by (auto simp: dvd_def)
    then show ?thesis by simp
  qed
  then have "unat (align_up ?x) = (unat ?x + 3) div 4 * 4" by (rule unat_align_up)
  also have "\<dots> = unat ?x" using d by (auto simp: dvd_def)
  finally show ?thesis by (simp add: word_unat_eq_iff)
qed

lemma request_align: "request (align_up sz) = request sz"
  by (simp add: request_def align_up_twice)

lemma realloc_splits:
  assumes ok: "heap_ok m (xs @ (l, True) # ys)" and im: "is_smem k m" and sz: "align_up sz \<noteq> 0"
    and small: "unat (align_up sz) + 64 < l - 40"
  shows "\<exists>m'. rt_smem_realloc k (heap_ptr m + of_nat (extent xs + 40)) sz m = Some (heap_ptr m + of_nat (extent xs + 40), m') \<and>
    heap_ok m' (release (xs @ [(unat (align_up sz) + 40, True)]) (l - (unat (align_up sz) + 40)) ys) \<and> same_region m m' \<and>
    sm_bytes m' = sm_bytes m"
proof -
  let ?s = "align_up sz" and ?r = "heap_ptr m + of_nat (extent xs + 40)" and ?p = "of_nat (extent xs) :: u64"
  let ?z = "inext (item m ?p) - ?p - SIZEOF_STRUCT_MEM"
  define j where "j = unat ?s + 40"
  note h = block_header [OF ok]
  have raw: "heap_raw m (xs @ (l, True) # ys)" using ok by (simp add: heap_ok_def)
  have le: "\<not> mem_size_aligned m < ?s"
    using heap_rawD(2,4) [OF raw] small by (simp add: word_less_nat_alt)
  have r0: "?r \<noteq> 0" using h(3) by (metis add_is_0 unat_0 zero_neq_numeral)
  have z: "?z \<noteq> ?s" "?s + SIZEOF_STRUCT_MEM + 24 < ?z"
  proof -
    have "l - 40 < 2 ^ 64" using h(9) unsigned_less [of ?z, where ?'a = nat] by simp
    then have "unat (?s + 64) = unat ?s + 64" using small by (subst unat_plus) simp_all
    then show "?s + SIZEOF_STRUCT_MEM + 24 < ?z" using h(9) small by (simp add: word_less_nat_alt add.assoc)
    show "?z \<noteq> ?s" using h(9) small by auto
  qed
  have zs: "?z - ?s = of_nat (l - j)"
  proof -
    have "unat (?z - ?s) = l - j" using h(9) small by (subst unat_minus) (simp_all add: j_def)
    then show ?thesis by (metis of_nat_unat ucast_id)
  qed
  have q: "?p + SIZEOF_STRUCT_MEM + ?s = of_nat (extent xs + j)" by (simp add: j_def add.assoc)
  have dvd: "4 dvd j" using unat_align_down [of "sz + 3"] by (simp add: j_def align_up_def align_down_def)
  have j: "40 < j" "j + 40 \<le> l" using sz small by (simp_all add: j_def unat_gt_0)
  show ?thesis
    using block_split [OF ok j(1) dvd j(2)]
    unfolding rt_smem_realloc_def Let_def h(1) rt_assert_def q [symmetric] zs [symmetric]
    using im le sz r0 z h(4-6) by (auto simp: j_def zs q)
qed

lemma heap_fits:
  assumes "heap_ok m bs" and "mem_size_aligned m < sz" and "(l, u) \<in> set bs"
  shows "l - 40 < unat sz"
  using assms extent_member [OF assms(3)] by (simp add: heap_ok_def heap_raw_def word_less_nat_alt)

lemma resized_smaller: "resized m bs a n sz p m' bs' \<Longrightarrow> sz' \<le> sz \<Longrightarrow> resized m bs a n sz' p m' bs'"
  unfolding resized_def by (elim exE conjE, rename_tac c k, rule_tac x = c in exI, rule_tac x = k in exI) simp

lemma realloc_move_areas:
  assumes ok: "heap_ok m bs" and im: "is_smem k m" and a: "(a, n) \<in> set (areas 0 bs)" and s0: "align_up sz \<noteq> 0"
    and le: "\<not> mem_size_aligned m < align_up sz" and mv: "unat (align_up sz) \<noteq> n" "\<not> unat (align_up sz) + 64 < n"
    and ssz: "unat sz \<le> unat (align_up sz)"
  shows "\<exists>p m' bs'. rt_smem_realloc k (heap_ptr m + of_nat a) sz m = Some (p, m') \<and> heap_ok m' bs' \<and> same_region m m' \<and>
    (if p = 0 then m' = m \<and> bs' = bs \<and> (\<forall>(l, u) \<in> set bs. u \<or> l - 40 < unat (request sz))
     else resized m bs a n (unat sz) p m' bs')"
proof -
  let ?s = "align_up sz" and ?r = "heap_ptr m + of_nat a"
  obtain xs l ys where s: "bs = xs @ (l, True) # ys" "a = extent xs + 40" "n = l - 40" using areas_split [OF a] by auto
  note h = block_header [OF ok [unfolded s(1)], folded s(2)]
  let ?z = "inext (item m (of_nat (extent xs))) - of_nat (extent xs) - SIZEOF_STRUCT_MEM"
  have r0: "?r \<noteq> 0" using h(3) by (metis add_is_0 unat_0 zero_neq_numeral)
  have z: "?z \<noteq> ?s" "\<not> ?s + SIZEOF_STRUCT_MEM + 24 < ?z" "unat (if ?z < ?s then ?z else ?s) = min n (unat ?s)"
  proof -
    have zn: "unat ?z = n" using h(9) s(3) by simp
    have "unat (mem_size_aligned m) + 80 \<le> 2 ^ 64" using ok heap_rawD(4,5) [of m bs] by (simp add: heap_ok_def)
    then have "unat (?s + 64) = unat ?s + 64" using le by (subst unat_plus) (simp_all add: word_less_nat_alt)
    then show "\<not> ?s + SIZEOF_STRUCT_MEM + 24 < ?z" using zn mv(2) by (simp add: word_less_nat_alt add.assoc)
    show "?z \<noteq> ?s" "unat (if ?z < ?s then ?z else ?s) = min n (unat ?s)" using zn mv(1) by (auto simp: word_less_nat_alt)
  qed
  obtain p m1 where al: "rt_smem_alloc k ?s m = Some (p, m1)" "same_region m m1"
      "p = 0 \<Longrightarrow> m1 = m \<and> (\<forall>(l, u) \<in> set bs. u \<or> l - 40 < unat (request sz))"
    using alloc_areas [OF ok im s0] unfolding request_align by (metis (mono_tags, lifting))
  have run: "rt_smem_realloc k ?r sz m =
      (if p = 0 then Some (0, m) else do {
         m \<leftarrow> rt_smem_free k ?r (smem_copy (unat (p - heap_ptr m)) a (min n (unat ?s)) m1);
         Some (p, m)
       })"
    using im le s0 r0 h(4-6) z al(1,2) h(7) s(2) al(3)
    unfolding rt_smem_realloc_def Let_def h(1) by (auto simp: same_region_def)
  show ?thesis
  proof (cases "p = 0")
    case True
    then show ?thesis using run al(3) ok by (auto simp: same_region_def)
  next
    case False
    obtain m' bs' where "rt_smem_free k ?r (smem_copy (unat (p - heap_ptr m)) a (min n (unat ?s)) m1) = Some m'"
      "heap_ok m' bs'" "same_region m m'" "resized m bs a n (unat ?s) p m' bs'"
      using realloc_moves [OF ok im a s0 align_up_twice al(1) False _ refl] h(7) s(2) by auto
    then show ?thesis using run False resized_smaller [OF _ ssz] by auto
  qed
qed

lemma area_bounds:
  assumes "heap_ok m bs" and "(a, n) \<in> set (areas 0 bs)"
  shows "40 \<le> a" "0 < n" "a + n \<le> unat (heap_end m)" "unat (heap_ptr m + of_nat a) = unat (heap_ptr m) + a"
    "4 dvd unat (heap_ptr m + of_nat a)"
proof -
  obtain xs l ys where s: "bs = xs @ (l, True) # ys" "a = extent xs + 40" "n = l - 40" using areas_split [OF assms(2)] by auto
  note h = block_header [OF assms(1) [unfolded s(1)], folded s(2)]
  show "40 \<le> a" using s(2) by simp
  show "0 < n" using s(3) h(8) by simp
  show "unat (heap_ptr m + of_nat a) = unat (heap_ptr m) + a" unfolding h(3) using s(2) by simp
  show "4 dvd unat (heap_ptr m + of_nat a)" by (rule h(10))
  show "a + n \<le> unat (heap_end m)"
    using areas_bounds [OF assms(2) heap_lengths [OF assms(1)]] assms(1) by (simp add: heap_ok_def heap_raw_def)
qed

lemma areas_inj: "heap_ok m bs \<Longrightarrow> inj_on (\<lambda>(a, n). heap_ptr m + of_nat a) (set (areas 0 bs))"
proof (rule inj_onI, clarify)
  fix a n b k
  assume ok: "heap_ok m bs" and a: "(a, n) \<in> set (areas 0 bs)" and b: "(b, k) \<in> set (areas 0 bs)"
    and eq: "heap_ptr m + of_nat a = heap_ptr m + of_nat b"
  note x = area_bounds [OF ok a] and y = area_bounds [OF ok b]
  have "a = b" using x(4) y(4) unfolding eq by linarith
  then show "a = b \<and> n = k" using areas_apart [OF ok a b] x(2) y(2) by force
qed

lemma realloc_areas:
  assumes ok: "heap_ok m bs" and im: "is_smem k m" and a: "(a, n) \<in> set (areas 0 bs)" and sz: "sz \<noteq> 0" "unat sz + 3 < 2 ^ 64"
  shows "\<exists>p m' bs'. rt_smem_realloc k (heap_ptr m + of_nat a) sz m = Some (p, m') \<and> heap_ok m' bs' \<and> same_region m m' \<and>
    (if p = 0 then m' = m \<and> bs' = bs \<and> (\<forall>(l, u) \<in> set bs. u \<or> l - 40 < unat (request sz))
     else resized m bs a n (unat sz) p m' bs')"
proof -
  let ?s = "align_up sz"
  obtain xs l ys where s: "bs = xs @ (l, True) # ys" "a = extent xs + 40" "n = l - 40" using areas_split [OF a] by auto
  note h = block_header [OF ok [unfolded s(1)], folded s(2)]
  have su: "unat ?s = (unat sz + 3) div 4 * 4" by (rule unat_align_up [OF sz(2)])
  have s0: "?s \<noteq> 0" and ssz: "unat sz \<le> unat ?s" using su sz(1) by (auto simp: unat_eq_zero [symmetric])
  have r0: "heap_ptr m + of_nat a \<noteq> 0" using h(3) by (metis add_is_0 unat_0 zero_neq_numeral)
  consider (big) "mem_size_aligned m < ?s" | (same) "\<not> mem_size_aligned m < ?s" "unat ?s = n"
    | (split) "unat ?s + 64 < n" | (move) "\<not> mem_size_aligned m < ?s" "unat ?s \<noteq> n" "\<not> unat ?s + 64 < n"
    by blast
  then show ?thesis
  proof cases
    case big
    have "l' - 40 < unat (request sz)" if "(l', u) \<in> set bs" for l' u
      using heap_fits [OF ok big that] by (simp add: request_def Let_def word_less_nat_alt)
    then show ?thesis using big im ok by (auto simp: rt_smem_realloc_def Let_def same_region_def)
  next
    case same
    have "resized m bs a n (unat sz) (heap_ptr m + of_nat a) m bs"
      unfolding resized_def by (rule exI [of _ a], rule exI [of _ n]) (use a r0 ssz same in auto)
    moreover have "rt_smem_realloc k (heap_ptr m + of_nat a) sz m = Some (heap_ptr m + of_nat a, m)"
      using same s0 r0 h(4-6,9) im s(3) unfolding rt_smem_realloc_def Let_def h(1) by (simp add: word_unat_eq_iff)
    ultimately show ?thesis using ok r0 by (auto simp: same_region_def)
  next
    case split
    let ?bs' = "release (xs @ [(unat ?s + 40, True)]) (l - (unat ?s + 40)) ys"
    obtain m' where m': "rt_smem_realloc k (heap_ptr m + of_nat a) sz m = Some (heap_ptr m + of_nat a, m')" "heap_ok m' ?bs'"
      "same_region m m'" "sm_bytes m' = sm_bytes m"
      using realloc_splits [OF ok [unfolded s(1)] im s0] split s(2,3) by auto
    have "set (areas 0 ?bs') = insert (a, unat ?s) (set (areas 0 bs) - {(a, n)})"
      using areas_others [OF ok [unfolded s(1)]] s split by (auto simp: areas_release areas_append)
    moreover have "(a, unat ?s) \<notin> set (areas 0 bs) - {(a, n)}"
      using areas_apart [OF ok a, of a "unat ?s"] split s0 by (auto simp: unat_eq_zero)
    ultimately have "resized m bs a n (unat sz) (heap_ptr m + of_nat a) m' ?bs'"
      unfolding resized_def by (rule_tac x = a in exI, rule_tac x = "unat ?s" in exI) (use r0 ssz m'(4) in simp)
    then show ?thesis using m' r0 by auto
  next
    case move
    then show ?thesis
      by (intro realloc_move_areas [OF ok im a s0 _ _ _ ssz]) (use s(3) in simp_all)
  qed
qed

section \<open>A new heap\<close>

lemma low_mask:
  assumes "unat (x :: u64) < 2 ^ 32" and "4 dvd unat x"
  shows "x AND MEM_MASK = x"
proof -
  have m: "MEM_MASK = mask 32 AND NOT (mask 1)" by (simp add: mask_eq_exp_minus_1)
  have "drop_bit 1 x * 2 = x"
  proof -
    have "unat (drop_bit 1 x) * 2 = unat x" using assms(2) by (auto simp: drop_bit_eq_div unat_div)
    then show ?thesis using assms(1) by (simp add: word_unat_eq_iff unat_word_ariths)
  qed
  then have "x AND NOT (mask 1) = x" unfolding and_not_mask by (simp add: push_bit_eq_mult)
  moreover have "x AND mask 32 = x"
    using assms(1) by (simp only: take_bit_eq_mask [symmetric] word_unat_eq_iff unsigned_take_bit_eq) (simp add: take_bit_nat_eq_self)
  ultimately show ?thesis unfolding m by (metis and.assoc)
qed

lemma init_layout:
  assumes "begin_addr \<noteq> 0" and "unat begin_addr + 3 < 2 ^ 32" and "unat begin_addr + unat sz < 2 ^ 64"
    and "unat begin_addr + 191 \<le> unat begin_addr + unat sz"
  defines "sm \<equiv> align_up begin_addr"
  shows "4 dvd unat sm" "sm \<noteq> 0" "unat sm < 2 ^ 32" "unat (sm + 104) = unat sm + 104" "align_up (sm + 104) = sm + 104"
    "80 < align_down (begin_addr + sz)" "sm + 104 \<le> align_down (begin_addr + sz) - 80"
    "unat (align_down (begin_addr + sz) - (sm + 104) - 80) + unat sm + 184 = (unat begin_addr + unat sz) div 4 * 4"
proof -
  have u: "unat sm = (unat begin_addr + 3) div 4 * 4" unfolding sm_def by (rule unat_align_up) (use assms(2) in simp)
  then show d: "4 dvd unat sm" by simp
  have b0: "0 < unat begin_addr" using assms(1) by (simp add: unat_gt_0)
  then have "0 < unat sm" using u by auto
  then show "sm \<noteq> 0" by auto
  have le: "unat sm \<le> unat begin_addr + 3" using u by simp
  then show "unat sm < 2 ^ 32" using assms(2) by simp
  then show s: "unat (sm + 104) = unat sm + 104" by (subst unat_plus) simp_all
  have "unat (align_up (sm + 104)) = unat sm + 104"
    using d le assms(2) s by (subst unat_align_up) (auto simp: dvd_def)
  then show "align_up (sm + 104) = sm + 104" using s by (simp add: word_unat_eq_iff)
  let ?e = "align_down (begin_addr + sz)"
  have "unat (begin_addr + sz) = unat begin_addr + unat sz" using assms(3) by (subst unat_plus) simp_all
  then have e: "unat ?e = (unat begin_addr + unat sz) div 4 * 4" by (simp add: unat_align_down)
  have ge: "unat sm + 184 \<le> unat ?e" using e u assms(4) by presburger
  then show "80 < ?e" by (simp add: word_less_nat_alt)
  have e80: "unat (?e - 80) = unat ?e - 80" using ge by (subst unat_minus) simp_all
  show "sm + 104 \<le> ?e - 80" using ge s e80 by (simp add: word_le_nat_alt)
  have "unat (?e - (sm + 104)) = unat ?e - (unat sm + 104)" using ge s by (subst unat_minus) simp_all
  then have "unat (?e - (sm + 104) - 80) = unat ?e - (unat sm + 104) - 80" using ge by (subst unat_minus) simp_all
  then show "unat (?e - (sm + 104) - 80) + unat sm + 184 = (unat begin_addr + unat sz) div 4 * 4" using e ge by simp
qed

lemma smem_init_ok:
  assumes b: "begin_addr \<noteq> 0" "unat begin_addr + 3 < 2 ^ 32" "unat begin_addr + unat sz < 2 ^ 64" "191 \<le> unat sz"
    and k: "obj_ok k" "quiet k" "home (olists k) (Memory_obj (unat (align_up begin_addr))) = None"
  shows "\<exists>m k'. rt_smem_init name begin_addr sz its bytes k = Some (Some m, k') \<and> is_smem k' m \<and> obj_ok k' \<and> sm_bytes m = bytes \<and>
    heap_ok m [(unat (heap_end m), False)] \<and> heap_ptr m = align_up begin_addr + 104 \<and>
    unat (heap_ptr m) + unat (heap_end m) + 40 = (unat begin_addr + unat sz) div 4 * 4"
proof -
  let ?sm = "align_up begin_addr" and ?e = "align_down (begin_addr + sz)"
  let ?n = "?e - (?sm + 104) - 80"
  have ly: "4 dvd unat ?sm" "?sm \<noteq> 0" "unat ?sm < 2 ^ 32" "unat (?sm + 104) = unat ?sm + 104" "align_up (?sm + 104) = ?sm + 104"
    "80 < ?e" "?sm + 104 \<le> ?e - 80" "unat ?n + unat ?sm + 184 = (unat begin_addr + unat sz) div 4 * 4"
    using init_layout [OF b(1-3)] b(4) by simp_all
  let ?k = "object_attach (Memory_obj (unat ?sm)) RT_Object_Class_Memory name k"
  have info: "rt_object_get_information RT_Object_Class_Memory = Some RT_Object_Class_Memory"
    by (simp add: rt_object_get_information_def object_container_def)
  have init: "rt_object_init (Memory_obj (unat ?sm)) RT_Object_Class_Memory name k = Some ?k"
    by (rule object_init_eq [OF info]) (use k in \<open>auto simp: obj_ok_def\<close>)
  have n: "unat (?n + 40) = unat ?n + 40" using ly(8) b(3) by (subst unat_plus) simp_all
  have "4 dvd unat ?n + unat ?sm + 184" unfolding ly(8) by simp
  then have dv: "4 dvd unat ?n + 40" using ly(1) by presburger
  define f0 g0 where "f0 = (\<lambda>i. rt_smem_setname ''INIT'' (i\<lparr>pool_ptr := mem_tag ?sm False, inext := ?n + 40, iprev := 0\<rparr>))"
    and "g0 = (\<lambda>i. rt_smem_setname ''INIT'' (i\<lparr>pool_ptr := mem_tag ?sm True, inext := ?n + 40, iprev := ?n + 40\<rparr>))"
  define m where "m = \<lparr>sm_addr = ?sm, heap_ptr = ?sm + 104, heap_end = ?n + 40, lfree = 0, mem_size_aligned = ?n, sm_total = ?n,
    sm_used = 0, sm_max = 0, sm_items = its(0 := f0 (its 0), unat (?n + 40) := g0 ((its(0 := f0 (its 0))) (unat (?n + 40)))), sm_bytes = bytes\<rparr>"
  have run: "rt_smem_init name begin_addr sz its bytes k = Some (Some m, ?k)"
    using ly(5-7) init unfolding rt_smem_init_def Let_def
    by (simp add: m_def f0_def g0_def upd_item_def item_def)
  have "is_smem ?k m"
    using static_type [OF info] by (simp add: is_smem_def m_def object_attach_def)
  moreover have "heap_ok m [(unat (heap_end m), False)]"
    using ly n dv b(3) low_mask [OF ly(3,1)]
    by (auto simp: heap_ok_def heap_raw_def m_def f0_def g0_def item_def)
  moreover have "obj_ok ?k" by (rule obj_ok_attach [OF k(1) info k(3)])
  ultimately show ?thesis using run ly(4,8) n by (intro exI [of _ m] exI [of _ ?k]) (simp add: m_def)
qed

section \<open>The check of the headers\<close>

lemma sint_low:
  assumes "unat (p :: u64) < 2 ^ 31"
  shows "sint (ucast p :: u32) = int (unat p)"
proof -
  have "sint (ucast p :: u32) = signed_take_bit 31 (uint p)" by transfer simp
  also have "\<dots> = uint p"
  proof (rule signed_take_bit_int_eq_self)
    show "- (2 ^ 31) \<le> uint p" by (rule order_trans [OF _ uint_ge_0]) simp
    have "int (unat p) < int (2 ^ 31)" using assms by (simp only: of_nat_less_iff)
    then show "uint p < 2 ^ 31" by simp
  qed
  finally show ?thesis by simp
qed

text \<open>\<^verbatim>\<open>memcheck\<close> ends and reports nothing on a well-formed heap of less than 2 GB.\<close>

lemma smem_check_passes:
  assumes "heap_raw m (xs @ ys)" and "unat p = extent xs" and "unat (heap_end m) < 2 ^ 31"
  shows "smem_check m p = Some True"
  using assms(1,2)
proof (induction ys arbitrary: xs p)
  case Nil
  then have "p = heap_end m" using heap_rawD(2) [OF Nil(1)] by (simp add: word_unat_eq_iff)
  then show ?case by (simp add: smem_check.simps)
next
  case (Cons b ys)
  obtain l u where b: "b = (l, u)" by (cases b)
  note h = heap_block [OF Cons.prems(1) [unfolded b] Cons.prems(2)] and d = heap_rawD(2,4) [OF Cons.prems(1)]
  have "unat p \<le> unat (mem_size_aligned m)" using h(1,8) d(2) Cons.prems(2) by linarith
  moreover have "sint (ucast p :: u32) = int (unat p)" "sint (ucast (mem_size_aligned m) :: u32) = int (unat (mem_size_aligned m))"
    by (rule sint_low; use calculation assms(3) d(2) in linarith)+
  moreover have "smem_check m (inext (item m p)) = Some True"
    by (rule Cons.IH [of "xs @ [b]"]) (use Cons.prems(1) h(6) b in simp_all)
  moreover have "int (unat p) \<le> int (unat (mem_size_aligned m))" using calculation(1) by (simp only: of_nat_le_iff)
  ultimately show ?case using h(5) by (simp add: smem_check.simps [of m p])
qed

section \<open>All blocks given back\<close>

lemma areas_Nil: "areas a bs = [] \<longleftrightarrow> (\<forall>b \<in> set bs. \<not> snd b)"
  by (induction a bs rule: areas.induct) auto

lemma one_block:
  assumes "heap_ok m bs" and "areas 0 bs = []"
  shows "bs = [(unat (heap_end m), False)]"
proof -
  have "\<not> snd b" if "b \<in> set bs" for b using assms(2) that by (simp add: areas_Nil)
  moreover have "extent bs = unat (mem_size_aligned m) + 40" "extent bs = unat (heap_end m)" "no_holes bs"
    using assms(1) by (auto simp: heap_ok_def heap_raw_def)
  ultimately show ?thesis by (cases bs rule: remdups_adj.cases) auto
qed

section \<open>Histories of a heap\<close>

text \<open>What clients do with a heap: \<open>L\<close> holds the addresses handed out and not yet given back, with the sizes asked for. The kernel
  may be another one at every call; a size must not wrap when it is rounded up. Clients write their own bytes.\<close>

inductive smem_history :: "small_mem \<Rightarrow> (u64 \<Rightarrow> u64 option) \<Rightarrow> small_mem \<Rightarrow> bool" for m0 where
  start: "smem_history m0 (\<lambda>_. None) m0"
| alloc: "smem_history m0 L m \<Longrightarrow> is_smem k m0 \<Longrightarrow> unat sz + 3 < 2 ^ 64 \<Longrightarrow> rt_smem_alloc k sz m = Some (p, m') \<Longrightarrow> p \<noteq> 0 \<Longrightarrow>
    smem_history m0 (L(p := Some sz)) m'"
| free: "smem_history m0 L m \<Longrightarrow> is_smem k m0 \<Longrightarrow> L p \<noteq> None \<Longrightarrow> rt_smem_free k p m = Some m' \<Longrightarrow>
    smem_history m0 (L(p := None)) m'"
| realloc: "smem_history m0 L m \<Longrightarrow> is_smem k m0 \<Longrightarrow> L r \<noteq> None \<Longrightarrow> sz \<noteq> 0 \<Longrightarrow> unat sz + 3 < 2 ^ 64 \<Longrightarrow>
    rt_smem_realloc k r sz m = Some (p, m') \<Longrightarrow> p \<noteq> 0 \<Longrightarrow> smem_history m0 (L(r := None, p := Some sz)) m'"
| store: "smem_history m0 L m \<Longrightarrow> L p = Some n \<Longrightarrow> i < unat n \<Longrightarrow>
    smem_history m0 L (m\<lparr>sm_bytes := (sm_bytes m)(unat (p - heap_ptr m) + i := c)\<rparr>)"

definition tracks :: "u64 \<Rightarrow> (nat \<times> nat) set \<Rightarrow> (u64 \<Rightarrow> u64 option) \<Rightarrow> bool" where
  "tracks b A L = (inj_on (\<lambda>(a, n). b + of_nat a) A \<and> dom L = (\<lambda>(a, n). b + of_nat a) ` A \<and>
     (\<forall>(a, n) \<in> A. \<forall>sz. L (b + of_nat a) = Some sz \<longrightarrow> unat sz \<le> n))"

lemma tracks_remove:
  assumes "tracks b A L" and "(a, n) \<in> A"
  shows "tracks b (A - {(a, n)}) (L(b + of_nat a := None))"
proof -
  let ?f = "\<lambda>(a, n). b + of_nat a :: u64"
  have inj: "inj_on ?f A" and d: "dom L = ?f ` A" using assms(1) by (auto simp: tracks_def)
  have "?f ` (A - {(a, n)}) = ?f ` A - {b + of_nat a}" using inj_on_image_set_diff [OF inj, of A "{(a, n)}"] assms(2) by simp
  then have "dom (L(b + of_nat a := None)) = ?f ` (A - {(a, n)})" using d by simp
  then show ?thesis using assms(1) inj_on_diff [OF inj] unfolding tracks_def by (auto split: if_splits)
qed

lemma tracks_insert:
  assumes "tracks b A L" and "inj_on (\<lambda>(a, n). b + of_nat a) (insert (a, n) A)" and "unat sz \<le> n" and "(a, n) \<notin> A"
  shows "tracks b (insert (a, n) A) (L(b + of_nat a := Some sz))"
proof -
  have "b + of_nat c \<noteq> b + of_nat a" if "(c, k) \<in> A" for c k
    using inj_onD [OF assms(2), of "(c, k)" "(a, n)"] that assms(4) by auto
  then show ?thesis using assms unfolding tracks_def by auto
qed

definition heap_tracked :: "small_mem \<Rightarrow> small_mem \<Rightarrow> blocks \<Rightarrow> (u64 \<Rightarrow> u64 option) \<Rightarrow> bool" where
  "heap_tracked m0 m bs L = (heap_ok m bs \<and> same_region m0 m \<and> tracks (heap_ptr m0) (set (areas 0 bs)) L)"

lemma tracked_area:
  assumes "heap_tracked m0 m bs L" and "L p = Some sz"
  obtains a n where "p = heap_ptr m + of_nat a" "(a, n) \<in> set (areas 0 bs)" "unat sz \<le> n"
proof -
  have "p \<in> (\<lambda>(a, n). heap_ptr m + of_nat a) ` set (areas 0 bs)"
    using assms by (auto simp: heap_tracked_def tracks_def same_region_def)
  then show thesis using that assms by (fastforce simp: heap_tracked_def tracks_def same_region_def)
qed

lemma alloc_cases:
  assumes "heap_ok m bs" and "is_smem k m" and "sz \<noteq> 0"
  obtains (null) "rt_smem_alloc k sz m = Some (0, m)" "\<forall>(l, u) \<in> set bs. u \<or> l - 40 < unat (request sz)"
  | (block) a n m' bs' where "rt_smem_alloc k sz m = Some (heap_ptr m + of_nat a, m')" "heap_ptr m + of_nat a \<noteq> 0" "heap_ok m' bs'"
      "same_region m m'" "sm_bytes m' = sm_bytes m" "unat (heap_ptr m + of_nat a) = unat (heap_ptr m) + a" "unat (request sz) \<le> n"
      "n < unat (request sz) + 64" "a + n \<le> unat (heap_end m)" "set (areas 0 bs') = insert (a, n) (set (areas 0 bs))"
      "apart_from a n (set (areas 0 bs))" "40 \<le> a" "4 dvd unat (heap_ptr m + of_nat a)"
proof -
  obtain p m' bs' where r: "rt_smem_alloc k sz m = Some (p, m')" "heap_ok m' bs'" "same_region m m'" "sm_bytes m' = sm_bytes m"
    "if p = 0 then m' = m \<and> bs' = bs \<and> (\<forall>(l, u) \<in> set bs. u \<or> l - 40 < unat (request sz))
     else \<exists>a n. unat p = unat (heap_ptr m) + a \<and> p = heap_ptr m + of_nat a \<and> unat (request sz) \<le> n \<and> n < unat (request sz) + 64 \<and>
       a + n \<le> unat (heap_end m) \<and> set (areas 0 bs') = insert (a, n) (set (areas 0 bs)) \<and> apart_from a n (set (areas 0 bs))"
    using alloc_areas [OF assms] by metis
  have b: "40 \<le> a" "4 dvd unat (heap_ptr m + of_nat a)" if "(a, n) \<in> set (areas 0 bs')" for a n
    using area_bounds(1,5) [OF r(2) that] r(3) by (simp_all add: same_region_def)
  show thesis
  proof (cases "p = 0")
    case True
    then show thesis using r by (intro null) auto
  next
    case False
    then obtain a n where a: "unat p = unat (heap_ptr m) + a" "p = heap_ptr m + of_nat a" "unat (request sz) \<le> n"
      "n < unat (request sz) + 64" "a + n \<le> unat (heap_end m)" "set (areas 0 bs') = insert (a, n) (set (areas 0 bs))"
      "apart_from a n (set (areas 0 bs))"
      using r(5) by auto
    show thesis by (rule block [of a m' bs' n]) (use r a b [of a n] False in auto)
  qed
qed

lemma tracked_alloc:
  assumes tr: "heap_tracked m0 m bs L" and im: "is_smem k m0" and sz: "unat sz + 3 < 2 ^ 64"
    and run: "rt_smem_alloc k sz m = Some (p, m')" "p \<noteq> 0"
  shows "\<exists>bs'. heap_tracked m0 m' bs' (L(p := Some sz))"
proof -
  have ok: "heap_ok m bs" and sr: "same_region m0 m" and b: "heap_ptr m0 = heap_ptr m"
    using tr by (auto simp: heap_tracked_def same_region_def)
  have sz0: "sz \<noteq> 0" using run by (auto simp: rt_smem_alloc_def)
  obtain bs' a n where c: "heap_ok m' bs'" "same_region m m'" "p = heap_ptr m + of_nat a" "unat (request sz) \<le> n"
    "set (areas 0 bs') = insert (a, n) (set (areas 0 bs))" "apart_from a n (set (areas 0 bs))"
    by (rule alloc_cases [OF ok _ sz0, of k]) (use run im is_smem_same [OF sr] in auto)
  have "0 < n" using area_bounds(2) [OF c(1)] c(5) by blast
  then have "(a, n) \<notin> set (areas 0 bs)" using c(6) by (auto simp: apart_from_def)
  moreover have "inj_on (\<lambda>(a, n). heap_ptr m + of_nat a) (insert (a, n) (set (areas 0 bs)))"
    using areas_inj [OF c(1)] c(2,5) by (simp add: same_region_def)
  ultimately have "tracks (heap_ptr m0) (set (areas 0 bs')) (L(p := Some sz))"
    using tr request_ge(1) [OF sz] c(3-5) unfolding b by (auto simp: heap_tracked_def b intro!: tracks_insert)
  then show ?thesis using c(1,2) same_region_trans [OF sr] by (auto simp: heap_tracked_def)
qed

lemma tracked_free:
  assumes tr: "heap_tracked m0 m bs L" and im: "is_smem k m0" and p: "L p = Some sz"
  shows "\<exists>m' bs'. rt_smem_free k p m = Some m' \<and> heap_tracked m0 m' bs' (L(p := None))"
proof -
  have ok: "heap_ok m bs" and sr: "same_region m0 m" and b: "heap_ptr m0 = heap_ptr m"
    using tr by (auto simp: heap_tracked_def same_region_def)
  obtain a n where a: "p = heap_ptr m + of_nat a" "(a, n) \<in> set (areas 0 bs)" by (rule tracked_area [OF tr p])
  obtain m' bs' where m': "rt_smem_free k p m = Some m'" "heap_ok m' bs'" "same_region m m'"
    "set (areas 0 bs') = set (areas 0 bs) - {(a, n)}"
    using free_areas [OF ok _ a(2), of k] im is_smem_same [OF sr] a(1) by blast
  have "tracks (heap_ptr m) (set (areas 0 bs')) (L(p := None))"
    unfolding m'(4) a(1) by (rule tracks_remove [OF _ a(2)]) (use tr b in \<open>simp add: heap_tracked_def\<close>)
  then show ?thesis using m' same_region_trans [OF sr] b by (auto simp: heap_tracked_def)
qed

lemma tracked_realloc:
  assumes tr: "heap_tracked m0 m bs L" and im: "is_smem k m0" and r: "L r = Some n0" and sz: "sz \<noteq> 0" "unat sz + 3 < 2 ^ 64"
    and run: "rt_smem_realloc k r sz m = Some (p, m')" "p \<noteq> 0"
  shows "\<exists>bs'. heap_tracked m0 m' bs' (L(r := None, p := Some sz))"
proof -
  have ok: "heap_ok m bs" and sr: "same_region m0 m" and b: "heap_ptr m0 = heap_ptr m"
    using tr by (auto simp: heap_tracked_def same_region_def)
  obtain a n where a: "r = heap_ptr m + of_nat a" "(a, n) \<in> set (areas 0 bs)" by (rule tracked_area [OF tr r])
  obtain bs' c l where c: "heap_ok m' bs'" "same_region m m'" "p = heap_ptr m + of_nat c" "unat sz \<le> l"
    "set (areas 0 bs') = insert (c, l) (set (areas 0 bs) - {(a, n)})" "(c, l) \<notin> set (areas 0 bs) - {(a, n)}"
    using realloc_areas [OF ok _ a(2) sz, of k] im is_smem_same [OF sr] run a(1) by (auto simp: resized_def)
  have t: "tracks (heap_ptr m) (set (areas 0 bs) - {(a, n)}) (L(r := None))"
    unfolding a(1) by (rule tracks_remove [OF _ a(2)]) (use tr b in \<open>simp add: heap_tracked_def\<close>)
  have inj: "inj_on (\<lambda>(a, n). heap_ptr m + of_nat a) (insert (c, l) (set (areas 0 bs) - {(a, n)}))"
    using areas_inj [OF c(1)] c(2,5) by (simp add: same_region_def)
  from tracks_insert [OF t inj c(4,6)] show ?thesis
    using c same_region_trans [OF sr] b by (auto simp: heap_tracked_def)
qed

lemma history_tracked:
  assumes "smem_history m0 L m" and "heap_ok m0 [(l, False)]"
  shows "\<exists>bs. heap_tracked m0 m bs L"
  using assms
proof (induction rule: smem_history.induct)
  case start
  then show ?case by (auto simp: heap_tracked_def same_region_def tracks_def intro!: exI [of _ "[(l, False)]"])
next
  case (alloc L m k sz p m')
  then show ?case using tracked_alloc by blast
next
  case (free L m k p m')
  then obtain bs sz where "heap_tracked m0 m bs L" "L p = Some sz" by blast
  from tracked_free [OF this(1) free(2) this(2)] show ?case using free(4) by (metis option.inject)
next
  case (realloc L m k r sz p m')
  then show ?case using tracked_realloc by blast
next
  case (store L m p n i c)
  then show ?case by (auto simp: heap_tracked_def same_region_def)
qed

lemma used_extent_areas: "\<forall>b \<in> set bs. 40 \<le> fst b \<Longrightarrow> used_extent bs = sum_list (map (\<lambda>(c, n). n + 40) (areas a bs))"
  by (induction a bs rule: areas.induct) auto

lemma areas_distinct: "\<forall>b \<in> set bs. 40 \<le> fst b \<Longrightarrow> distinct (areas a bs)"
proof (induction a bs rule: areas.induct)
  case (2 a l u bs)
  then show ?case using areas_bounds [of "a + 40" "l - 40" "a + l" bs] by fastforce
qed simp

text \<open>The \<^verbatim>\<open>used\<close> counter is the sum of the blocks handed out, headers included.\<close>

lemma used_areas:
  assumes "heap_ok m bs"
  shows "unat (sm_used m) = (\<Sum>(c, n) \<in> set (areas 0 bs). n + 40)"
proof -
  note len = heap_lengths [OF assms]
  have "unat (sm_used m) = used_extent bs" using assms by (simp add: heap_ok_def)
  also have "\<dots> = (\<Sum>(c, n) \<in> set (areas 0 bs). n + 40)"
    unfolding used_extent_areas [OF len, of 0] by (rule sum_list_distinct_conv_sum_set [OF areas_distinct [OF len]])
  finally show ?thesis .
qed

section \<open>Properties\<close>

text \<open>C26. \<^verbatim>\<open>rt_smem_alloc\<close> on a well-formed heap returns: either \<^verbatim>\<open>NULL\<close>, with the heap untouched, and then no free block is large
  enough for the rounded request; or the address of a block of at least the requested size (and at most 63 bytes more than the
  rounded size) that lies in the heap behind a header and apart from every block handed out before. No other block and no byte changes, and the
  heap stays well formed.\<close>

theorem smem_alloc_correct:
  assumes "heap_ok m bs" and "is_smem k m" and "sz \<noteq> 0" and "unat sz + 3 < 2 ^ 64"
  shows "\<exists>p m' bs'. rt_smem_alloc k sz m = Some (p, m') \<and> heap_ok m' bs' \<and> sm_bytes m' = sm_bytes m \<and>
    (if p = 0 then m' = m \<and> (\<forall>(l, u) \<in> set bs. u \<or> l - 40 < max 24 ((unat sz + 3) div 4 * 4))
     else \<exists>a n. p = heap_ptr m + of_nat a \<and> unat p = unat (heap_ptr m) + a \<and> unat sz \<le> n \<and>
       n < max 24 ((unat sz + 3) div 4 * 4) + 64 \<and> 40 \<le> a \<and> a + n \<le> unat (heap_end m) \<and> 4 dvd unat p \<and>
       set (areas 0 bs') = insert (a, n) (set (areas 0 bs)) \<and> apart_from a n (set (areas 0 bs)))"
proof (rule alloc_cases [OF assms(1-3)], goal_cases null block)
  case null
  then show ?thesis using assms(1) request_ge(2) [OF assms(4)] by auto
next
  case (block a n m' bs')
  then show ?thesis
    using request_ge [OF assms(4)]
    by (intro exI [of _ "heap_ptr m + of_nat a"] exI [of _ m'] exI [of _ bs']) (auto simp: block(10) intro!: exI [of _ a] exI [of _ n])
qed

definition demo_heap :: "(small_mem option \<times> kernel) option" where
  "demo_heap = rt_smem_init ''heap'' 0x1000 1024 (\<lambda>_. \<lparr>pool_ptr = 0, inext = 0, iprev = 0, ithread = []\<rparr>) (\<lambda>_. 0) demo_kernel"

lemma demo_heap_ok:
  obtains m k where "demo_heap = Some (Some m, k)" "is_smem k m" "heap_ok m [(880, False)]" "heap_ptr m = 4200"
proof -
  have al: "align_up 0x1000 = 0x1000" by (simp add: align_up_def)
  have o: "obj_ok demo_kernel" "home (olists demo_kernel) (Memory_obj (unat (align_up 0x1000))) = None"
    by (simp_all add: obj_ok_def demo_kernel_def boot_kernel_def empty_lstore_def lstore_ok_def)
    have "\<exists>m k. demo_heap = Some (Some m, k) \<and> is_smem k m \<and> obj_ok k \<and> sm_bytes m = (\<lambda>_. 0) \<and> heap_ok m [(unat (heap_end m), False)] \<and>
    heap_ptr m = align_up 0x1000 + 104 \<and> unat (heap_ptr m) + unat (heap_end m) + 40 = (unat (0x1000 :: u64) + unat (1024 :: u64)) div 4 * 4"
    unfolding demo_heap_def by (rule smem_init_ok [OF _ _ _ _ o(1) demo_quiet o(2)]) simp_all
  then obtain m k where "demo_heap = Some (Some m, k)" "is_smem k m" "heap_ok m [(unat (heap_end m), False)]"
    "heap_ptr m = align_up 0x1000 + 104" "unat (heap_ptr m) + unat (heap_end m) + 40 = (unat (0x1000 :: u64) + unat (1024 :: u64)) div 4 * 4"
    by blast
  then show thesis using that [of m k] by (simp add: al)
qed

lemma demo_heap_alloc:
  obtains m k p m' bs' a n where "demo_heap = Some (Some m, k)" "rt_smem_alloc k 100 m = Some (p, m')" "p \<noteq> 0" "heap_ok m' bs'"
    "is_smem k m'" "p = heap_ptr m' + of_nat a" "set (areas 0 bs') = {(a, n)}" "is_smem k m" "heap_ok m [(880, False)]" "heap_ptr m = 4200"
proof -
  obtain m k where d: "demo_heap = Some (Some m, k)" "is_smem k m" "heap_ok m [(880, False)]" "heap_ptr m = 4200" by (rule demo_heap_ok)
  obtain p m' bs' where r: "rt_smem_alloc k 100 m = Some (p, m')" "heap_ok m' bs'" "same_region m m'"
    and c: "if p = 0 then m' = m \<and> bs' = [(880, False)] \<and> (\<forall>(l, u) \<in> set [(880, False)]. u \<or> l - 40 < unat (request 100))
      else \<exists>a n. unat p = unat (heap_ptr m) + a \<and> p = heap_ptr m + of_nat a \<and> unat (request 100) \<le> n \<and> n < unat (request 100) + 64 \<and>
        a + n \<le> unat (heap_end m) \<and> set (areas 0 bs') = insert (a, n) (set (areas 0 [(880, False)])) \<and>
        apart_from a n (set (areas 0 [(880, False)]))"
    using alloc_areas [OF d(3,2), of 100] by fastforce
  have "unat (request 100) = 100" using request_ge(2) [of 100] by simp
  then have p: "p \<noteq> 0" using c by (auto split: if_splits)
  then obtain a n where "p = heap_ptr m + of_nat a" "set (areas 0 bs') = {(a, n)}" using c by auto
  then show thesis using that [OF d(1) r(1) p r(2) _ _ _ d(2,3,4)] r(3) d(2) is_smem_same [OF r(3)] by (simp add: same_region_def)
qed

theorem smem_alloc_correct_witness:
  "\<exists>m k p m'. demo_heap = Some (Some m, k) \<and> rt_smem_alloc k 100 m = Some (p, m') \<and> p \<noteq> 0"
proof -
  obtain m k where d: "demo_heap = Some (Some m, k)" "is_smem k m" "heap_ok m [(880, False)]" by (rule demo_heap_ok)
  show ?thesis using smem_alloc_correct [OF d(3,2), of 100] d(1) by (auto split: if_splits)
qed

text \<open>C27. \<^verbatim>\<open>rt_smem_free\<close> of a block handed out passes all its assertions and gives exactly that block back: every other block stays
  handed out with its bytes, the \<^verbatim>\<open>used\<close> counter falls by the block and its header, and neighbouring free blocks are merged,
  which is part of the well-formedness.\<close>

theorem smem_free_correct:
  assumes "heap_ok m bs" and "is_smem k m" and "(a, n) \<in> set (areas 0 bs)"
  shows "\<exists>m' bs'. rt_smem_free k (heap_ptr m + of_nat a) m = Some m' \<and> heap_ok m' bs' \<and> sm_bytes m' = sm_bytes m \<and>
    set (areas 0 bs') = set (areas 0 bs) - {(a, n)} \<and> unat (sm_used m') + n + 40 = unat (sm_used m)"
proof -
  obtain m' bs' where r: "rt_smem_free k (heap_ptr m + of_nat a) m = Some m'" "heap_ok m' bs'" "sm_bytes m' = sm_bytes m"
    "set (areas 0 bs') = set (areas 0 bs) - {(a, n)}"
    using free_areas [OF assms] by blast
  have "unat (sm_used m') + n + 40 = unat (sm_used m)"
    using used_areas [OF assms(1)] used_areas [OF r(2)] assms(3) unfolding r(4)
    by (simp add: sum.remove [of "set (areas 0 bs)" "(a, n)"])
  then show ?thesis using r by blast
qed

theorem smem_free_correct_witness:
  "\<exists>m k p m' m''. demo_heap = Some (Some m, k) \<and> rt_smem_alloc k 100 m = Some (p, m') \<and> p \<noteq> 0 \<and>
    rt_smem_free k p m' = Some m'' \<and> sm_used m'' = 0"
proof -
  obtain m k p m' bs' a n where d: "demo_heap = Some (Some m, k)" "rt_smem_alloc k 100 m = Some (p, m')" "p \<noteq> 0" "heap_ok m' bs'"
    "is_smem k m'" "p = heap_ptr m' + of_nat a" "set (areas 0 bs') = {(a, n)}" by (rule demo_heap_alloc)
  obtain m'' bs'' where "rt_smem_free k p m' = Some m''" "heap_ok m'' bs''" "set (areas 0 bs'') = {}"
    using smem_free_correct [OF d(4,5), of a n] d(6,7) by auto
  moreover from this have "sm_used m'' = 0" using used_areas [of m'' bs''] by (simp add: unat_eq_zero)
  ultimately show ?thesis using d(1-3) by blast
qed

text \<open>\<^verbatim>\<open>rt_smem_realloc\<close> of a block handed out, to a size that is not 0: either it returns \<^verbatim>\<open>NULL\<close>, with the heap untouched, and then no free
  block is large enough for the new size; or it returns a block of at least the new size, in place or moved, that starts with
  the bytes of the old block up to the smaller of both sizes, and every other block keeps its place and its bytes.\<close>

theorem smem_realloc_correct:
  assumes "heap_ok m bs" and "is_smem k m" and "(a, n) \<in> set (areas 0 bs)" and "sz \<noteq> 0" and "unat sz + 3 < 2 ^ 64"
  shows "\<exists>p m' bs'. rt_smem_realloc k (heap_ptr m + of_nat a) sz m = Some (p, m') \<and> heap_ok m' bs' \<and>
    (if p = 0 then m' = m \<and> (\<forall>(l, u) \<in> set bs. u \<or> l - 40 < max 24 ((unat sz + 3) div 4 * 4))
     else resized m bs a n (unat sz) p m' bs')"
proof -
  obtain p m' bs' where "rt_smem_realloc k (heap_ptr m + of_nat a) sz m = Some (p, m')" "heap_ok m' bs'"
    "if p = 0 then m' = m \<and> bs' = bs \<and> (\<forall>(l, u) \<in> set bs. u \<or> l - 40 < unat (request sz)) else resized m bs a n (unat sz) p m' bs'"
    using realloc_areas [OF assms] by metis
  then show ?thesis unfolding request_ge(2) [OF assms(5)] by (cases "p = 0") auto
qed

theorem smem_realloc_correct_witness:
  "\<exists>m k p m' q m''. demo_heap = Some (Some m, k) \<and> rt_smem_alloc k 100 m = Some (p, m') \<and> p \<noteq> 0 \<and>
    rt_smem_realloc k p 200 m' = Some (q, m'')"
proof -
  obtain m k p m' bs' a n where d: "demo_heap = Some (Some m, k)" "rt_smem_alloc k 100 m = Some (p, m')" "p \<noteq> 0" "heap_ok m' bs'"
    "is_smem k m'" "p = heap_ptr m' + of_nat a" "set (areas 0 bs') = {(a, n)}" by (rule demo_heap_alloc)
  obtain q m'' where "rt_smem_realloc k p 200 m' = Some (q, m'')"
    using smem_realloc_correct [OF d(4,5), of a n 200] d(6,7) by auto
  then show ?thesis using d(1-3) by blast
qed

text \<open>C28. Whatever clients do with a new heap by allocating, freeing, resizing and writing their own bytes: the blocks they hold
  lie in the heap and never overlap, each holds the size asked for, and giving any of them back succeeds.\<close>

theorem smem_histories_safe:
  assumes "smem_history m0 L m" and "heap_ok m0 [(l, False)]"
  shows "(L p = Some n \<longrightarrow> unat (heap_ptr m0) + 40 \<le> unat p \<and> unat p + unat n \<le> unat (heap_ptr m0) + unat (heap_end m0)) \<and>
    (L p = Some n \<and> L q = Some j \<and> p \<noteq> q \<longrightarrow> unat p + unat n \<le> unat q \<or> unat q + unat j \<le> unat p) \<and>
    (L p \<noteq> None \<and> is_smem k m0 \<longrightarrow> (\<exists>m'. rt_smem_free k p m = Some m'))"
proof -
  obtain bs where tr: "heap_tracked m0 m bs L" using history_tracked [OF assms] by blast
  have ok: "heap_ok m bs" and sr: "heap_ptr m = heap_ptr m0" "heap_end m = heap_end m0"
    using tr by (auto simp: heap_tracked_def same_region_def)
  have one: "\<exists>a j. x = heap_ptr m + of_nat a \<and> (a, j) \<in> set (areas 0 bs) \<and> unat i \<le> j \<and> unat x = unat (heap_ptr m) + a \<and> 40 \<le> a \<and>
      a + j \<le> unat (heap_end m)" if "L x = Some i" for x i
    using tracked_area [OF tr that] area_bounds [OF ok] by metis
  have two: "unat p + unat n \<le> unat q \<or> unat q + unat j \<le> unat p" if p: "L p = Some n" and q: "L q = Some j" and ne: "p \<noteq> q"
  proof -
    obtain a i where a: "p = heap_ptr m + of_nat a" "(a, i) \<in> set (areas 0 bs)" "unat n \<le> i" "unat p = unat (heap_ptr m) + a"
      using one [OF p] by auto
    obtain b h where b: "q = heap_ptr m + of_nat b" "(b, h) \<in> set (areas 0 bs)" "unat j \<le> h" "unat q = unat (heap_ptr m) + b"
      using one [OF q] by auto
    have "(a, i) \<noteq> (b, h)" using ne a(1) b(1) by auto
    then show ?thesis using areas_apart [OF ok a(2) b(2)] a(3,4) b(3,4) by linarith
  qed
  show ?thesis using one [of p n] two tracked_free [OF tr, of k p] sr by fastforce
qed

theorem smem_histories_safe_witness:
  "\<exists>m k p m' m''. demo_heap = Some (Some m, k) \<and> rt_smem_alloc k 100 m = Some (p, m') \<and> unat p + 100 \<le> 4200 + 880 \<and>
    rt_smem_free k p m' = Some m''"
proof -
  obtain m k p m' where d: "demo_heap = Some (Some m, k)" "rt_smem_alloc k 100 m = Some (p, m')" "p \<noteq> 0"
    and h: "is_smem k m" "heap_ok m [(880, False)]" "heap_ptr m = 4200" by (rule demo_heap_alloc)
  have e: "unat (heap_end m) = 880" using h(2) by (simp add: heap_ok_def heap_raw_def)
  have "smem_history m ((\<lambda>_. None)(p := Some 100)) m'" by (rule smem_history.alloc [OF smem_history.start h(1) _ d(2,3)]) simp
  from smem_histories_safe [OF this h(2), of p 100 p 100 k]
  have "unat p + 100 \<le> 4200 + 880" "\<exists>m''. rt_smem_free k p m' = Some m''" using h e by auto
  then show ?thesis using d(1,2) by blast
qed

text \<open>C29. Nothing is lost to fragmentation for good: when all blocks have been given back, after any history, the heap is one free block
  again, and a block of its whole size can be allocated.\<close>

theorem smem_all_freed_whole:
  assumes "smem_history m0 (\<lambda>_. None) m" and "heap_ok m0 [(l, False)]" and "is_smem k m0" and "24 \<le> mem_size_aligned m0"
  shows "heap_ok m [(l, False)] \<and> sm_used m = 0 \<and> (\<exists>m'. rt_smem_alloc k (mem_size_aligned m0) m = Some (heap_ptr m0 + 40, m'))"
proof -
  obtain bs where tr: "heap_tracked m0 m bs (\<lambda>_. None)" using history_tracked [OF assms(1,2)] by blast
  have ok: "heap_ok m bs" and sr: "same_region m0 m" "heap_ptr m = heap_ptr m0" "heap_end m = heap_end m0" and no: "areas 0 bs = []"
    using tr by (auto simp: heap_tracked_def same_region_def tracks_def)
  have l: "unat (heap_end m0) = l" "l = unat (mem_size_aligned m0) + 40" "4 dvd l" "unat (heap_ptr m0) + l + 40 \<le> 2 ^ 64"
    using assms(2) by (auto simp: heap_ok_def heap_raw_def)
  have bs: "bs = [(l, False)]" using one_block [OF ok no] sr(3) l(1) by simp
  have "4 dvd unat (mem_size_aligned m0)" using l(2,3) by presburger
  then have n: "unat (request (mem_size_aligned m0)) = l - 40"
    using request_ge(2) [of "mem_size_aligned m0"] l(2,4) assms(4) by (auto simp: word_le_nat_alt)
  have "mem_size_aligned m0 \<noteq> 0" using assms(4) by auto
  from alloc_ok [OF ok _ this, of k] have "\<exists>m'. rt_smem_alloc k (mem_size_aligned m0) m = Some (heap_ptr m0 + 40, m')"
    using assms(3) is_smem_same [OF sr(1)] sr(2) unfolding bs n by auto
  moreover have "sm_used m = 0" using ok no used_areas [OF ok] by (simp add: unat_eq_zero)
  ultimately show ?thesis using ok bs by simp
qed

theorem smem_all_freed_whole_witness:
  "\<exists>m k p m' m'' q. demo_heap = Some (Some m, k) \<and> rt_smem_alloc k 100 m = Some (p, m') \<and> rt_smem_free k p m' = Some m'' \<and>
    rt_smem_alloc k 840 m'' = Some (4240, q)"
proof -
  obtain m k p m' where d: "demo_heap = Some (Some m, k)" "rt_smem_alloc k 100 m = Some (p, m')" "p \<noteq> 0"
    and h: "is_smem k m" "heap_ok m [(880, False)]" "heap_ptr m = 4200" by (rule demo_heap_alloc)
  have "unat (mem_size_aligned m) = unat (840 :: u64)" using h(2) by (simp add: heap_ok_def heap_raw_def)
  then have e: "mem_size_aligned m = 840" by (simp only: word_unat_eq_iff)
  have st: "smem_history m ((\<lambda>_. None)(p := Some 100)) m'" by (rule smem_history.alloc [OF smem_history.start h(1) _ d(2,3)]) simp
  obtain bs where "heap_tracked m m' bs ((\<lambda>_. None)(p := Some 100))" using history_tracked [OF st h(2)] by blast
  from tracked_free [OF this h(1), of p 100] obtain m'' where f: "rt_smem_free k p m' = Some m''" by auto
  have "smem_history m (\<lambda>_. None) m''" using smem_history.free [OF st h(1) _ f] by simp
  from smem_all_freed_whole [OF this h(2,1)] have "\<exists>q. rt_smem_alloc k 840 m'' = Some (4240, q)" using e h(3) by auto
  then show ?thesis using d(1,2) f by blast
qed

text \<open>\<^verbatim>\<open>rt_smem_init\<close> on a region of at least 191 bytes below 4 GB registers the heap object and gives a well-formed heap that is one free
  block, without writing a byte outside the headers; the block reaches from the control block to the end of the region, rounded down.\<close>

theorem smem_init_correct:
  assumes "begin_addr \<noteq> 0" and "unat begin_addr + 3 < 2 ^ 32" and "unat begin_addr + unat sz < 2 ^ 64" and "191 \<le> unat sz"
    and "obj_ok k" and "quiet k" and "home (olists k) (Memory_obj (unat (align_up begin_addr))) = None"
  shows "\<exists>m k'. rt_smem_init name begin_addr sz its bytes k = Some (Some m, k') \<and> is_smem k' m \<and> obj_ok k' \<and> sm_bytes m = bytes \<and>
    heap_ok m [(unat (heap_end m), False)] \<and> heap_ptr m = align_up begin_addr + 104 \<and>
    unat (heap_ptr m) + unat (heap_end m) + 40 = (unat begin_addr + unat sz) div 4 * 4"
  by (rule smem_init_ok [OF assms])

theorem smem_init_correct_witness:
  "\<exists>m k. rt_smem_init ''heap'' 0x2000 191 (\<lambda>_. \<lparr>pool_ptr = 0, inext = 0, iprev = 0, ithread = []\<rparr>) (\<lambda>_. 7) demo_kernel = Some (Some m, k) \<and>
    heap_ok m [(unat (heap_end m), False)]"
proof -
  have "obj_ok demo_kernel" "home (olists demo_kernel) (Memory_obj (unat (align_up 0x2000))) = None"
    by (simp_all add: obj_ok_def demo_kernel_def boot_kernel_def empty_lstore_def lstore_ok_def)
  note smem_init_correct [OF _ _ _ _ this(1) demo_quiet this(2), of 191 "''heap''" "\<lambda>_. \<lparr>pool_ptr = 0, inext = 0, iprev = 0, ithread = []\<rparr>" "\<lambda>_. 7"]
  then have "\<exists>m k'. rt_smem_init ''heap'' 0x2000 191 (\<lambda>_. \<lparr>pool_ptr = 0, inext = 0, iprev = 0, ithread = []\<rparr>) (\<lambda>_. 7) demo_kernel = Some (Some m, k') \<and>
    is_smem k' m \<and> obj_ok k' \<and> sm_bytes m = (\<lambda>_. 7) \<and> heap_ok m [(unat (heap_end m), False)] \<and> heap_ptr m = align_up 0x2000 + 104 \<and>
    unat (heap_ptr m) + unat (heap_end m) + 40 = (unat (0x2000 :: u64) + unat (191 :: u64)) div 4 * 4"
    by simp
  then show ?thesis by blast
qed

text \<open>A request of more than \<open>2 ^ 64 - 4\<close> bytes wraps to 0 when \<^verbatim>\<open>RT_ALIGN\<close> rounds it up and is then raised to the smallest block: instead
  of \<^verbatim>\<open>NULL\<close> the caller gets a block of less than 88 bytes whenever a free block can hold 24.\<close>

theorem smem_alloc_wraps:
  assumes "heap_ok m bs" and "is_smem k m" and "2 ^ 64 \<le> unat sz + 3" and "(l, False) \<in> set bs" and "64 \<le> l"
  shows "\<exists>a n m' bs'. rt_smem_alloc k sz m = Some (heap_ptr m + of_nat a, m') \<and> heap_ptr m + of_nat a \<noteq> 0 \<and> heap_ok m' bs' \<and>
    (a, n) \<in> set (areas 0 bs') \<and> n < 88 \<and> n < unat sz"
proof -
  have "unat (sz + 3) = unat sz + 3 - 2 ^ 64"
    using assms(3) unsigned_less [of sz, where ?'a = nat] by (simp add: unat_word_ariths le_mod_geq)
  then have "unat (align_up sz) = 0"
    using unat_align_down [of "sz + 3"] unsigned_less [of sz, where ?'a = nat] by (simp add: align_up_def align_down_def)
  then have r: "unat (request sz) = 24" by (simp add: request_def Let_def unat_eq_zero)
  have "sz \<noteq> 0" using assms(3) by auto
  then show ?thesis
  proof (rule alloc_cases [OF assms(1,2)], goal_cases null block)
    case null
    then show ?thesis using assms(4,5) r by auto
  next
    case (block a n m' bs')
    then show ?thesis using assms(3) r by (intro exI [of _ a] exI [of _ n] exI [of _ m'] exI [of _ bs']) auto
  qed
qed

theorem smem_alloc_wraps_witness:
  "\<exists>m k p m'. demo_heap = Some (Some m, k) \<and> rt_smem_alloc k (- 1) m = Some (p, m') \<and> p \<noteq> 0"
proof -
  obtain m k where d: "demo_heap = Some (Some m, k)" "is_smem k m" "heap_ok m [(880, False)]" by (rule demo_heap_ok)
  have "2 ^ 64 \<le> unat (- 1 :: u64) + 3" by (simp add: unsigned_minus_1_eq_mask mask_eq_exp_minus_1)
  from smem_alloc_wraps [OF d(3,2) this, of 880] show ?thesis using d(1) by auto
qed

text \<open>\<^verbatim>\<open>MEM_MASK\<close> keeps only the lower 32 bits of the address of the heap in the headers: of a heap whose control block lies above 4 GB no
  block can be given back, because the pool that \<^verbatim>\<open>rt_smem_free\<close> reads from a header is never that heap.\<close>

theorem smem_free_high_heap:
  assumes "2 ^ 32 \<le> unat (sm_addr m)" and "p \<noteq> 0"
  shows "(\<forall>x. mem_pool (item m x) \<noteq> sm_addr m) \<and> rt_smem_free k p m = None"
proof -
  have "mem_pool i \<noteq> sm_addr m" for i
  proof -
    have "unat (mem_pool i) \<le> unat MEM_MASK" unfolding mem_pool_def by (simp only: word_le_nat_alt [symmetric]) (rule word_and_le1)
    then show ?thesis using assms(1) by auto
  qed
  then show ?thesis using assms(2) by (auto simp: rt_smem_free_def rt_assert_def Let_def)
qed

theorem smem_free_high_heap_witness:
  "rt_smem_free demo_kernel 0x100000090 \<lparr>sm_addr = 0x100000000, heap_ptr = 0x100000068, heap_end = 880, lfree = 0, mem_size_aligned = 840,
     sm_total = 840, sm_used = 0, sm_max = 0, sm_items = (\<lambda>_. \<lparr>pool_ptr = mem_tag 0x100000000 True, inext = 880, iprev = 0, ithread = []\<rparr>),
     sm_bytes = (\<lambda>_. 0)\<rparr> = None"
  by (intro conjunct2 [OF smem_free_high_heap]) simp_all

end
