(* ===== verification/Rt_MemOps.thy ===== *)
theory Rt_MemOps
  imports Rt_Prelude
begin

text \<open>
  The memory functions of \<^verbatim>\<open>src/kservice.c\<close>: \<^verbatim>\<open>rt_memset\<close>, \<^verbatim>\<open>rt_memcpy\<close>, \<^verbatim>\<open>rt_memmove\<close> and \<^verbatim>\<open>rt_memcmp\<close> on a memory of bytes. The first two move
  eight bytes at a time where the addresses allow it; they are shown to be equal to plain descriptions of the result. Addresses are 64-bit
  words, and a range is given by the distance from its start, so that the descriptions also hold for a range that wraps.
\<close>

type_synonym bytes = "u64 \<Rightarrow> u8"

section \<open>Operations\<close>

text \<open>A \<^verbatim>\<open>long\<close> in memory, lowest byte first.\<close>

fun load_bytes :: "nat \<Rightarrow> u64 \<Rightarrow> bytes \<Rightarrow> u64" where
  "load_bytes 0 a m = 0"
| "load_bytes (Suc k) a m = ucast (m a) OR push_bit 8 (load_bytes k (a + 1) m)"

definition load64 :: "u64 \<Rightarrow> bytes \<Rightarrow> u64" where
  "load64 a m = load_bytes 8 a m"

definition store64 :: "u64 \<Rightarrow> u64 \<Rightarrow> bytes \<Rightarrow> bytes" where
  "store64 a w m = (\<lambda>x. if x - a < 8 then ucast (drop_bit (8 * unat (x - a)) w) else m x)"

fun set_bytes :: "u64 \<Rightarrow> u8 \<Rightarrow> nat \<Rightarrow> bytes \<Rightarrow> bytes" where
  "set_bytes p d 0 m = m"
| "set_bytes p d (Suc count) m = set_bytes (p + 1) d count (m(p := d))"

fun set_blocks :: "u64 \<Rightarrow> u64 \<Rightarrow> nat \<Rightarrow> bytes \<Rightarrow> u64 \<times> nat \<times> bytes" where
  "set_blocks p b count m =
     (if 8 * 4 \<le> count
      then set_blocks (p + 32) b (count - 4 * 8)
             (store64 (p + 24) b (store64 (p + 16) b (store64 (p + 8) b (store64 p b m))))
      else (p, count, m))"

fun set_words :: "u64 \<Rightarrow> u64 \<Rightarrow> nat \<Rightarrow> bytes \<Rightarrow> u64 \<times> nat \<times> bytes" where
  "set_words p b count m =
     (if 8 \<le> count then set_words (p + 8) b (count - 8) (store64 p b m) else (p, count, m))"

text \<open>The word in which every byte is \<open>d\<close>, as the loop builds it.\<close>

fun fill_word :: "u64 \<Rightarrow> nat \<Rightarrow> u64 \<Rightarrow> u64" where
  "fill_word d 0 buffer = buffer"
| "fill_word d (Suc i) buffer = fill_word d i (push_bit 8 buffer OR d)"

definition rt_memset :: "u64 \<Rightarrow> u32 \<Rightarrow> u64 \<Rightarrow> bytes \<Rightarrow> bytes" where
  "rt_memset s c count m =
     (let d = c AND 0xff;
          (p, n, m) = (if \<not> count < 8 \<and> s AND 7 = 0
            then let buffer = fill_word (ucast d) 8 0;
                     (p, n, m) = set_blocks s buffer (unat count) m
                 in set_words p buffer n m
            else (s, unat count, m))
      in set_bytes p (ucast d) n m)"

fun copy_bytes :: "u64 \<Rightarrow> u64 \<Rightarrow> nat \<Rightarrow> bytes \<Rightarrow> bytes" where
  "copy_bytes dst src 0 m = m"
| "copy_bytes dst src (Suc len) m = copy_bytes (dst + 1) (src + 1) len (m(dst := m src))"

definition copy64 :: "u64 \<Rightarrow> u64 \<Rightarrow> bytes \<Rightarrow> bytes" where
  "copy64 dst src m = store64 dst (load64 src m) m"

fun copy_blocks :: "u64 \<Rightarrow> u64 \<Rightarrow> nat \<Rightarrow> bytes \<Rightarrow> u64 \<times> u64 \<times> nat \<times> bytes" where
  "copy_blocks dst src len m =
     (if 32 \<le> len
      then copy_blocks (dst + 32) (src + 32) (len - 32)
             (copy64 (dst + 24) (src + 24) (copy64 (dst + 16) (src + 16) (copy64 (dst + 8) (src + 8) (copy64 dst src m))))
      else (dst, src, len, m))"

fun copy_words :: "u64 \<Rightarrow> u64 \<Rightarrow> nat \<Rightarrow> bytes \<Rightarrow> u64 \<times> u64 \<times> nat \<times> bytes" where
  "copy_words dst src len m =
     (if 8 \<le> len then copy_words (dst + 8) (src + 8) (len - 8) (copy64 dst src m) else (dst, src, len, m))"

definition rt_memcpy :: "u64 \<Rightarrow> u64 \<Rightarrow> u64 \<Rightarrow> bytes \<Rightarrow> bytes" where
  "rt_memcpy dst src count m =
     (let (d, s, len, m) = (if \<not> count < 32 \<and> (src AND 7) OR (dst AND 7) = 0
            then let (d, s, len, m) = copy_blocks dst src (unat count) m in copy_words d s len m
            else (dst, src, unat count, m))
      in copy_bytes d s len m)"

text \<open>The loop that copies from the end, with both pointers behind the byte they move to next.\<close>

fun copy_bytes_down :: "u64 \<Rightarrow> u64 \<Rightarrow> nat \<Rightarrow> bytes \<Rightarrow> bytes" where
  "copy_bytes_down dst src 0 m = m"
| "copy_bytes_down dst src (Suc n) m = copy_bytes_down (dst - 1) (src - 1) n (m(dst - 1 := m (src - 1)))"

definition rt_memmove :: "u64 \<Rightarrow> u64 \<Rightarrow> u64 \<Rightarrow> bytes \<Rightarrow> bytes" where
  "rt_memmove dest src n m =
     (if src < dest \<and> dest < src + n then copy_bytes_down (dest + n) (src + n) (unat n) m
      else copy_bytes dest src (unat n) m)"

fun memcmp_loop :: "u64 \<Rightarrow> u64 \<Rightarrow> nat \<Rightarrow> bytes \<Rightarrow> int" where
  "memcmp_loop cs ct 0 m = 0"
| "memcmp_loop cs ct (Suc count) m =
     (let res = uint (m cs) - uint (m ct)
      in if res \<noteq> 0 then res else memcmp_loop (cs + 1) (ct + 1) count m)"

definition rt_memcmp :: "u64 \<Rightarrow> u64 \<Rightarrow> u64 \<Rightarrow> bytes \<Rightarrow> int" where
  "rt_memcmp cs ct count m = memcmp_loop cs ct (unat count) m"

declare set_blocks.simps [simp del] set_words.simps [simp del] copy_blocks.simps [simp del] copy_words.simps [simp del]

section \<open>Bytes of words\<close>

lemma bit_ucast8: "bit (ucast (d :: u8) :: u64) n = (n < 8 \<and> bit d n)"
  by (auto simp: bit_simps dest: bit_imp_le_length)

lemma bit_load: "bit (load_bytes k a m) n = (n < 64 \<and> n < 8 * k \<and> bit (m (a + of_nat (n div 8))) (n mod 8))"
proof (induction k arbitrary: a n)
  case (Suc k)
  show ?case
  proof (cases "n < 8")
    case False
    then have "n div 8 = Suc ((n - 8) div 8)" "n mod 8 = (n - 8) mod 8" by (simp_all add: le_div_geq le_mod_geq)
    then show ?thesis using False Suc by (auto simp: bit_ucast8 bit_or_iff_word bit_push_bit_iff add.assoc)
  qed (auto simp: bit_ucast8 bit_or_iff_word bit_push_bit_iff)
qed simp

lemma byte_of_load:
  assumes "i < 8"
  shows "ucast (drop_bit (8 * i) (load64 a m)) = m (a + of_nat i)"
proof (rule bit_word_eqI)
  fix n
  assume n: "n < LENGTH(8)"
  have "(8 * i + n) div 8 = i" "(8 * i + n) mod 8 = n" using n by simp_all
  then show "bit (ucast (drop_bit (8 * i) (load64 a m)) :: u8) n = bit (m (a + of_nat i)) n"
    using n assms by (auto simp: load64_def bit_ucast_iff bit_drop_bit_eq bit_load)
qed

lemma bit_fill: "8 * k \<le> 64 \<Longrightarrow> bit (fill_word (ucast (d :: u8)) k b) n =
    (n < 64 \<and> (if n < 8 * k then bit d (n mod 8) else bit b (n - 8 * k)))"
proof (induction k arbitrary: b)
  case 0
  then show ?case by (auto dest: bit_imp_le_length)
next
  case (Suc k)
  have "bit (push_bit 8 b OR ucast d) (n - 8 * k) = (if n < 8 * Suc k then bit d (n mod 8) else bit b (n - 8 * Suc k))"
    if "\<not> n < 8 * k" "n < 64"
  proof -
    have "n mod 8 = (n - 8 * k) mod 8" using that(1) by (metis le_add_diff_inverse mod_mult_self2 mult.commute not_less add.commute)
    then show ?thesis using that by (auto simp: bit_ucast8 bit_or_iff_word bit_push_bit_iff add.commute [of 8])
  qed
  then show ?case using Suc by auto
qed

lemma byte_of_fill:
  assumes "i < 8"
  shows "ucast (drop_bit (8 * i) (fill_word (ucast d) 8 0)) = (d :: u8)"
proof (rule bit_word_eqI)
  fix n
  assume n: "n < LENGTH(8)"
  then show "bit (ucast (drop_bit (8 * i) (fill_word (ucast d) 8 0)) :: u8) n = bit d n"
    using assms by (auto simp: bit_ucast_iff bit_drop_bit_eq bit_fill)
qed

text \<open>The plain descriptions: a range filled with a byte, a range that receives another one as it was.\<close>

definition filled :: "u64 \<Rightarrow> nat \<Rightarrow> u8 \<Rightarrow> bytes \<Rightarrow> bytes" where
  "filled p n d m = (\<lambda>x. if unat (x - p) < n then d else m x)"

definition copied :: "u64 \<Rightarrow> u64 \<Rightarrow> nat \<Rightarrow> bytes \<Rightarrow> bytes \<Rightarrow> bytes" where
  "copied dst src n m0 m = (\<lambda>x. if unat (x - dst) < n then m0 (src + (x - dst)) else m x)"

lemma unat_shift:
  assumes "a < 2 ^ 64"
  shows "unat ((x :: u64) - (p + of_nat a)) = (if a \<le> unat (x - p) then unat (x - p) - a else unat (x - p) + 2 ^ 64 - a)"
proof -
  have a: "unat (of_nat a :: u64) = a" using assms unfolding unat_of_nat by (intro mod_less) simp
  have "unat (w - of_nat a :: u64) = (if a \<le> unat w then unat w - a else unat w + 2 ^ 64 - a)" for w
    using a by (simp add: unat_sub_if_size word_size)
  from this [of "x - p"] show ?thesis by (simp only: diff_diff_eq)
qed

lemma filled_append:
  assumes "a < 2 ^ 64" and "a + b \<le> 2 ^ 64"
  shows "filled (p + of_nat a) b d (filled p a d m) = filled p (a + b) d m"
  using assms unat_shift [OF assms(1), of _ p] by (auto simp: filled_def fun_eq_iff)

lemma copied_append:
  assumes "a < 2 ^ 64" and "a + b \<le> 2 ^ 64"
  shows "copied (p + of_nat a) (q + of_nat a) b m0 (copied p q a m0 m) = copied p q (a + b) m0 m"
  using assms unat_shift [OF assms(1), of _ p] by (auto simp: copied_def fun_eq_iff)

section \<open>Filling\<close>

lemma store_fill: "store64 p (fill_word (ucast d) 8 0) m = filled p 8 d m"
  by (rule ext) (auto simp: store64_def filled_def word_less_nat_alt byte_of_fill)

lemma filled_1: "m(p := d) = filled p 1 d m"
  by (rule ext) (auto simp: filled_def unat_eq_zero)

lemma set_bytes_filled: "n \<le> 2 ^ 64 \<Longrightarrow> set_bytes p d n m = filled p n d m"
proof (induction n arbitrary: p m)
  case (Suc n)
  then show ?case using filled_append [of 1 n p d m] by (simp add: filled_1)
qed (simp add: filled_def)

text \<open>A loop has filled a part of its range and left the rest.\<close>

definition fills :: "u64 \<Rightarrow> nat \<Rightarrow> u8 \<Rightarrow> bytes \<Rightarrow> u64 \<times> nat \<times> bytes \<Rightarrow> bool" where
  "fills p n d m r = (\<exists>k \<le> n. r = (p + of_nat k, n - k, filled p k d m))"

lemma fills_step:
  assumes "fills (p + of_nat c) (n - c) d (filled p c d m) r" and "c \<le> n" and "c < 2 ^ 64" and "n \<le> 2 ^ 64"
  shows "fills p n d m r"
proof -
  obtain k where k: "k \<le> n - c" "r = (p + of_nat c + of_nat k, n - c - k, filled (p + of_nat c) k d (filled p c d m))"
    using assms(1) by (auto simp: fills_def)
  then show ?thesis
    using assms(2-4) filled_append [OF assms(3), of k p d m] by (auto simp: fills_def add.assoc intro!: exI [of _ "c + k"])
qed

lemma fills_refl: "fills p n d m (p, n, m)"
  by (auto simp: fills_def filled_def intro!: exI [of _ 0])

lemma fills_trans:
  assumes "fills p n d m (q, k, m1)" and "fills q k d m1 r" and "n < 2 ^ 64"
  shows "fills p n d m r"
proof -
  obtain c where "c \<le> n" "q = p + of_nat c" "k = n - c" "m1 = filled p c d m" using assms(1) by (auto simp: fills_def)
  then show ?thesis using assms(2,3) by (intro fills_step [of p c]) auto
qed

lemma set_words_fills: "n < 2 ^ 64 \<Longrightarrow> fills p n d m (set_words p (fill_word (ucast d) 8 0) n m)"
proof (induction n arbitrary: p m rule: less_induct)
  case (less n)
  show ?case
  proof (cases "8 \<le> n")
    case True
    then have "fills (p + of_nat 8) (n - 8) d (filled p 8 d m) (set_words (p + 8) (fill_word (ucast d) 8 0) (n - 8) (filled p 8 d m))"
      using less.IH [of "n - 8" "p + 8"] less.prems by simp
    from fills_step [OF this True] show ?thesis using True less.prems by (subst set_words.simps) (simp add: store_fill)
  qed (simp add: set_words.simps fills_refl)
qed

lemma four_stores:
  "store64 (p + 24) (fill_word (ucast d) 8 0) (store64 (p + 16) (fill_word (ucast d) 8 0) (store64 (p + 8) (fill_word (ucast d) 8 0)
     (store64 p (fill_word (ucast d) 8 0) m))) = filled p 32 d m"
  using filled_append [of 8 8 p d m] filled_append [of 16 8 p d m] filled_append [of 24 8 p d m] by (simp add: store_fill)

lemma set_blocks_fills: "n < 2 ^ 64 \<Longrightarrow> fills p n d m (set_blocks p (fill_word (ucast d) 8 0) n m)"
proof (induction n arbitrary: p m rule: less_induct)
  case (less n)
  show ?case
  proof (cases "32 \<le> n")
    case True
    then have "fills (p + of_nat 32) (n - 32) d (filled p 32 d m) (set_blocks (p + 32) (fill_word (ucast d) 8 0) (n - 32) (filled p 32 d m))"
      using less.IH [of "n - 32" "p + 32"] less.prems by simp
    from fills_step [OF this True] show ?thesis using True less.prems by (subst set_blocks.simps) (simp add: four_stores)
  qed (simp add: set_blocks.simps fills_refl)
qed

lemma memset_filled: "rt_memset s c count m = filled s (unat count) (ucast c) m"
proof -
  let ?b = "fill_word (ucast (ucast c :: u8)) 8 0"
  have m: "(0xff :: u32) = mask 8" by (simp add: mask_eq_exp_minus_1)
  have d: "ucast (c AND 0xff) = (ucast c :: u8)" "ucast (c AND 0xff) = (ucast (ucast c :: u8) :: u64)"
    unfolding m by (rule bit_word_eqI, auto simp: bit_simps)+
  have lt: "unat count < 2 ^ 64" using unsigned_less [of count, where ?'a = nat] by simp
  obtain p n m1 where r: "(if \<not> count < 8 \<and> s AND 7 = 0
      then let (p, n, m) = set_blocks s ?b (unat count) m in set_words p ?b n m else (s, unat count, m)) = (p, n, m1)"
    by (metis prod_cases3)
  have f: "fills s (unat count) (ucast c) m (p, n, m1)"
  proof (cases "\<not> count < 8 \<and> s AND 7 = 0")
    case True
    obtain q j m2 where q: "set_blocks s ?b (unat count) m = (q, j, m2)" by (metis prod_cases3)
    have "j < 2 ^ 64" using set_blocks_fills [OF lt, of s "ucast c" m] lt q by (auto simp: fills_def)
    then show ?thesis
      using fills_trans [OF set_blocks_fills [OF lt, of s "ucast c" m, unfolded q] set_words_fills lt] r q True by (simp add: Let_def)
  qed (use r fills_refl in auto)
  have "fills s (unat count) (ucast c) m (p + of_nat n, 0, filled p n (ucast c) m1)"
    by (rule fills_trans [OF f _ lt]) (auto simp: fills_def intro!: exI [of _ n])
  moreover have "n < 2 ^ 64" using f lt by (auto simp: fills_def)
  ultimately show ?thesis
    using r unfolding rt_memset_def Let_def d by (auto simp: fills_def set_bytes_filled)
qed

section \<open>Copying\<close>

text \<open>The read pointer never enters what has been written: this is all that a copy upwards needs.\<close>

definition reads_ahead :: "u64 \<Rightarrow> u64 \<Rightarrow> nat \<Rightarrow> bool" where
  "reads_ahead dst src n = (\<forall>j < n. j \<le> unat (src + of_nat j - dst))"

lemma copy64_copied:
  assumes "\<And>i. i < 8 \<Longrightarrow> m (src + of_nat i) = m0 (src + of_nat i)"
  shows "copy64 dst src m = copied dst src 8 m0 m"
proof
  fix x
  have "src + of_nat (unat (x - dst)) = src + (x - dst)" by simp
  then show "copy64 dst src m x = copied dst src 8 m0 m x"
    using byte_of_load [of "unat (x - dst)" src m] assms [of "unat (x - dst)"]
    by (auto simp: copy64_def store64_def copied_def word_less_nat_alt)
qed

lemma copied_1: "m src = m0 src \<Longrightarrow> m(dst := m src) = copied dst src 1 m0 m"
  by (rule ext) (auto simp: copied_def unat_eq_zero)

text \<open>The bytes still to be read have not been written yet.\<close>

lemma unread:
  assumes "reads_ahead dst src n" and "k + c \<le> n" and "i < c" and "n < 2 ^ 64"
  shows "copied dst src k m m (src + of_nat k + of_nat i) = m (src + of_nat k + of_nat i)"
proof -
  have "k + i < n" using assms(2,3) by simp
  then have "k + i \<le> unat (src + of_nat k + of_nat i - dst)" using assms(1) unfolding reads_ahead_def by (metis add.assoc of_nat_add)
  then show ?thesis by (simp add: copied_def)
qed

lemma copy64_step:
  assumes "reads_ahead dst src n" and "k + 8 \<le> n" and "n < 2 ^ 64"
  shows "copy64 (dst + of_nat k) (src + of_nat k) (copied dst src k m m) = copied dst src (k + 8) m m"
  using copy64_copied [of "copied dst src k m m" "src + of_nat k" m "dst + of_nat k", OF unread [OF assms(1,2) _ assms(3)]]
    copied_append [of k 8 dst src m m] assms(2,3)
  by simp

lemma copy_byte_step:
  assumes "reads_ahead dst src n" and "k + 1 \<le> n" and "n < 2 ^ 64"
  shows "(copied dst src k m m)(dst + of_nat k := copied dst src k m m (src + of_nat k)) = copied dst src (k + 1) m m"
  using copied_1 [of "copied dst src k m m" "src + of_nat k" m "dst + of_nat k"] unread [OF assms(1,2) _ assms(3), of 0 m]
    copied_append [of k 1 dst src m m] assms(2,3)
  by simp

text \<open>A loop that has copied \<open>k\<close> bytes.\<close>

definition copies :: "u64 \<Rightarrow> u64 \<Rightarrow> nat \<Rightarrow> bytes \<Rightarrow> u64 \<times> u64 \<times> nat \<times> bytes \<Rightarrow> bool" where
  "copies dst src n m r = (\<exists>k \<le> n. r = (dst + of_nat k, src + of_nat k, n - k, copied dst src k m m))"

lemma copy_words_copies:
  assumes "reads_ahead dst src n" and "n < 2 ^ 64" and "k \<le> n"
  shows "copies dst src n m (copy_words (dst + of_nat k) (src + of_nat k) (n - k) (copied dst src k m m))"
  using assms(3)
proof (induction "n - k" arbitrary: k rule: less_induct)
  case less
  show ?case
  proof (cases "8 \<le> n - k")
    case True
    then have "copies dst src n m (copy_words (dst + of_nat (k + 8)) (src + of_nat (k + 8)) (n - (k + 8)) (copied dst src (k + 8) m m))"
      by (intro less.hyps) auto
    then show ?thesis using True copy64_step [OF assms(1) _ assms(2), of k] by (subst copy_words.simps) (simp add: add.assoc)
  next
    case False
    then show ?thesis using less.prems by (auto simp: copy_words.simps copies_def)
  qed
qed

lemma four_copies:
  assumes "reads_ahead dst src n" and "k + 32 \<le> n" and "n < 2 ^ 64"
  defines "d \<equiv> dst + of_nat k" and "s \<equiv> src + of_nat k"
  shows "copy64 (d + 24) (s + 24) (copy64 (d + 16) (s + 16) (copy64 (d + 8) (s + 8) (copy64 d s (copied dst src k m m)))) =
    copied dst src (k + 32) m m"
  using copy64_step [OF assms(1) _ assms(3), of k m] copy64_step [OF assms(1) _ assms(3), of "k + 8" m]
    copy64_step [OF assms(1) _ assms(3), of "k + 16" m] copy64_step [OF assms(1) _ assms(3), of "k + 24" m] assms(2)
  by (simp add: d_def s_def add.assoc)

lemma copy_blocks_copies:
  assumes "reads_ahead dst src n" and "n < 2 ^ 64" and "k \<le> n"
  shows "copies dst src n m (copy_blocks (dst + of_nat k) (src + of_nat k) (n - k) (copied dst src k m m))"
  using assms(3)
proof (induction "n - k" arbitrary: k rule: less_induct)
  case less
  show ?case
  proof (cases "32 \<le> n - k")
    case True
    then have "copies dst src n m (copy_blocks (dst + of_nat (k + 32)) (src + of_nat (k + 32)) (n - (k + 32)) (copied dst src (k + 32) m m))"
      by (intro less.hyps) auto
    then show ?thesis using True four_copies [OF assms(1) _ assms(2), of k] by (subst copy_blocks.simps) (simp add: add.assoc)
  next
    case False
    then show ?thesis using less.prems by (auto simp: copy_blocks.simps copies_def)
  qed
qed

lemma copy_bytes_copied:
  assumes "reads_ahead dst src n" and "n < 2 ^ 64" and "k \<le> n"
  shows "copy_bytes (dst + of_nat k) (src + of_nat k) (n - k) (copied dst src k m m) = copied dst src n m m"
  using assms(3)
proof (induction "n - k" arbitrary: k)
  case (Suc j)
  then have "n - k = Suc (n - Suc k)" by simp
  then show ?case
    using Suc.hyps(1) [of "Suc k"] Suc.hyps(2) Suc.prems copy_byte_step [OF assms(1) _ assms(2), of k m]
    by (simp add: ac_simps)
qed simp

lemma memcpy_copied:
  assumes "reads_ahead dst src (unat count)"
  shows "rt_memcpy dst src count m = copied dst src (unat count) m m"
proof -
  have lt: "unat count < 2 ^ 64" using unsigned_less [of count, where ?'a = nat] by simp
  have z: "copied dst src 0 m m = m" by (simp add: copied_def)
  define r where "r = (if \<not> count < 32 \<and> (src AND 7) OR (dst AND 7) = 0
      then let (d, s, len, m) = copy_blocks dst src (unat count) m in copy_words d s len m else (dst, src, unat count, m))"
  have "copies dst src (unat count) m r"
  proof (cases "\<not> count < 32 \<and> (src AND 7) OR (dst AND 7) = 0")
    case True
    obtain k where k: "k \<le> unat count"
      "copy_blocks dst src (unat count) m = (dst + of_nat k, src + of_nat k, unat count - k, copied dst src k m m)"
      using copy_blocks_copies [OF assms lt, of 0 m] by (auto simp: copies_def z)
    then show ?thesis using copy_words_copies [OF assms lt k(1), of m] True by (simp add: r_def)
  next
    case False
    then show ?thesis by (auto simp: r_def copies_def z intro!: exI [of _ 0])
  qed
  then obtain k where k: "k \<le> unat count" "r = (dst + of_nat k, src + of_nat k, unat count - k, copied dst src k m m)"
    by (auto simp: copies_def)
  then show ?thesis
    using copy_bytes_copied [OF assms lt k(1), of m] unfolding rt_memcpy_def r_def [symmetric] by simp
qed

lemma reads_ahead_below:
  assumes "dst \<le> src" and "unat src + n \<le> 2 ^ 64"
  shows "reads_ahead dst src n"
  unfolding reads_ahead_def
proof (intro allI impI)
  fix j
  assume "j < n"
  then have "unat (src + of_nat j) = unat src + j"
    using assms(2) unsigned_less [of src, where ?'a = nat] by (simp add: unat_word_ariths unat_of_nat)
  then show "j \<le> unat (src + of_nat j - dst)"
    using assms(1) by (simp add: unat_sub_if_size word_le_nat_alt)
qed

lemma reads_ahead_above:
  assumes "unat src + n \<le> unat dst" and "unat dst + n \<le> 2 ^ 64"
  shows "reads_ahead dst src n"
  unfolding reads_ahead_def
proof (intro allI impI)
  fix j
  assume j: "j < n"
  then have "unat (src + of_nat j) = unat src + j"
    using assms by (simp add: unat_word_ariths unat_of_nat)
  then show "j \<le> unat (src + of_nat j - dst)"
    using assms j by (auto simp: unat_sub_if_size word_size)
qed

text \<open>The loop downwards: the bytes from \<open>k\<close> on are in place.\<close>

definition copied_top :: "u64 \<Rightarrow> u64 \<Rightarrow> nat \<Rightarrow> nat \<Rightarrow> bytes \<Rightarrow> bytes" where
  "copied_top dst src k n m = (\<lambda>x. if k \<le> unat (x - dst) \<and> unat (x - dst) < n then m (src + (x - dst)) else m x)"

lemma copy_down_step:
  assumes "src < dst" and "unat dst + n \<le> 2 ^ 64" and "Suc k \<le> n"
  shows "(copied_top dst src (Suc k) n m)(dst + of_nat k := copied_top dst src (Suc k) n m (src + of_nat k)) = copied_top dst src k n m"
proof -
  have k: "unat (of_nat k :: u64) = k" using assms(2,3) unsigned_less [of dst, where ?'a = nat] by (simp add: unat_of_nat)
  have "unat (src + of_nat k) = unat src + k"
    using assms k by (simp add: unat_word_ariths word_less_nat_alt)
  then have "\<not> (Suc k \<le> unat (src + of_nat k - dst) \<and> unat (src + of_nat k - dst) < n)"
    using assms by (auto simp: unat_sub_if_size word_size word_less_nat_alt)
  moreover have "x = dst + of_nat k \<longleftrightarrow> unat (x - dst) = k" for x
    using k by (metis add_diff_cancel_left' diff_add_cancel word_unat_eq_iff)
  ultimately show ?thesis using assms(3) by (auto simp: copied_top_def fun_eq_iff k)
qed

lemma copy_down_copied:
  assumes "src < dst" and "unat dst + n \<le> 2 ^ 64" and "k \<le> n"
  shows "copy_bytes_down (dst + of_nat k) (src + of_nat k) k (copied_top dst src k n m) = copied dst src n m m"
  using assms(3)
proof (induction k)
  case 0
  show ?case by (simp add: copied_top_def copied_def)
next
  case (Suc k)
  then show ?case using copy_down_step [OF assms(1,2) Suc.prems, of m] by simp
qed

lemma memmove_copied:
  assumes "unat src + unat n \<le> 2 ^ 64" and "unat dest + unat n \<le> 2 ^ 64"
  shows "rt_memmove dest src n m = copied dest src (unat n) m m"
proof (cases "src < dest \<and> dest < src + n")
  case True
  have "copied_top dest src (unat n) (unat n) m = m" by (auto simp: copied_top_def fun_eq_iff)
  then show ?thesis using True copy_down_copied [OF _ assms(2), of src "unat n" m] by (simp add: rt_memmove_def)
next
  case False
  have lt: "unat n < 2 ^ 64" using unsigned_less [of n, where ?'a = nat] by simp
  have "reads_ahead dest src (unat n)"
  proof (cases "src < dest")
    case True
    then have "unat (src + n) = unat src + unat n" using assms(2) by (subst unat_word_ariths) (simp add: word_less_nat_alt)
    then have "unat src + unat n \<le> unat dest" using True False by (simp add: word_less_nat_alt)
    then show ?thesis by (rule reads_ahead_above [OF _ assms(2)])
  qed (use assms(1) in \<open>auto intro: reads_ahead_below\<close>)
  moreover have "copied dest src 0 m m = m" by (simp add: copied_def)
  ultimately show ?thesis using False copy_bytes_copied [OF _ lt, of dest src 0 m] by (auto simp: rt_memmove_def)
qed

lemma memcmp_zero: "rt_memcmp cs ct n m = 0 \<longleftrightarrow> (\<forall>i < unat n. m (cs + of_nat i) = m (ct + of_nat i))"
proof -
  have "memcmp_loop cs ct k m = 0 \<longleftrightarrow> (\<forall>i < k. m (cs + of_nat i) = m (ct + of_nat i))" for cs ct k
    by (induction cs ct k m rule: memcmp_loop.induct) (auto simp: Let_def All_less_Suc2 add.assoc word_uint_eq_iff)
  then show ?thesis by (simp add: rt_memcmp_def)
qed

text \<open>The sign of a comparison is that of the first byte in which the ranges differ.\<close>

lemma memcmp_first:
  assumes "i < unat n" and "\<forall>j < i. m (cs + of_nat j) = m (ct + of_nat j)" and "m (cs + of_nat i) \<noteq> m (ct + of_nat i)"
  shows "rt_memcmp cs ct n m = uint (m (cs + of_nat i)) - uint (m (ct + of_nat i))"
proof -
  have "memcmp_loop cs ct k m = uint (m (cs + of_nat i)) - uint (m (ct + of_nat i))"
    if "i < k" "\<forall>j < i. m (cs + of_nat j) = m (ct + of_nat j)" "m (cs + of_nat i) \<noteq> m (ct + of_nat i)" for cs ct k
    using that
  proof (induction cs ct k m arbitrary: i rule: memcmp_loop.induct)
    case (2 cs ct count m)
    then show ?case
      by (cases i) (auto simp: Let_def All_less_Suc2 add.assoc word_uint_eq_iff)
  qed simp
  then show ?thesis using assms by (simp add: rt_memcmp_def)
qed

section \<open>Properties\<close>

text \<open>C3. The block-wise \<^verbatim>\<open>rt_memset\<close> and \<^verbatim>\<open>rt_memcpy\<close>, which move 32 and 8 bytes at a time when the addresses are aligned, do the same as a plain
  byte-by-byte description: \<^verbatim>\<open>rt_memset\<close> for every address, value and count; \<^verbatim>\<open>rt_memcpy\<close> for ranges that do not overlap and also when the
  destination lies below the source. No byte outside the destination changes.\<close>

theorem memset_memcpy_blockwise:
  assumes "(dst \<le> src \<and> unat src + unat count \<le> 2 ^ 64) \<or> (unat src + unat count \<le> unat dst \<and> unat dst + unat count \<le> 2 ^ 64)"
  shows "rt_memset s c n m x = (if x - s < n then ucast c else m x) \<and>
    rt_memcpy dst src count m x = (if x - dst < count then m (src + (x - dst)) else m x)"
  using assms reads_ahead_below [of dst src "unat count"] reads_ahead_above [of src "unat count" dst]
  by (auto simp: memset_filled memcpy_copied filled_def copied_def word_less_nat_alt)

theorem memset_memcpy_blockwise_witness:
  "rt_memset 0x1000 0x1ff 100 (\<lambda>_. 0) 0x1063 = 0xff \<and> rt_memcpy 0x1000 0x1008 100 (\<lambda>x. ucast x) 0x1063 = 0x6b"
  using memset_memcpy_blockwise [of "0x1000" "0x1008" 100 "0x1000" "0x1ff" 100 "\<lambda>_. 0" "0x1063"]
    memset_memcpy_blockwise [of "0x1000" "0x1008" 100 0 0 0 "\<lambda>x. ucast x" "0x1063"]
  by simp

text \<open>\<^verbatim>\<open>rt_memmove\<close> moves a range as a whole, however source and destination overlap: every byte of the destination is the byte that the source
  had before the call, and no other byte changes.\<close>

theorem memmove_correct:
  assumes "unat src + unat n \<le> 2 ^ 64" and "unat dest + unat n \<le> 2 ^ 64"
  shows "rt_memmove dest src n m x = (if x - dest < n then m (src + (x - dest)) else m x)"
  by (simp add: memmove_copied [OF assms] copied_def word_less_nat_alt)

theorem memmove_correct_witness:
  "rt_memmove 0x1003 0x1000 10 (\<lambda>x. ucast x) 0x100c = 0x09 \<and> rt_memmove 0x1000 0x1003 10 (\<lambda>x. ucast x) 0x1000 = 0x03"
  using memmove_correct [of "0x1000" 10 "0x1003" "\<lambda>x. ucast x" "0x100c"] memmove_correct [of "0x1003" 10 "0x1000" "\<lambda>x. ucast x" "0x1000"]
  by simp

end
