(* ===== verification/Rt_Heap.thy ===== *)
theory Rt_Heap
  imports Rt_SmemRun Rt_Mutex Rt_MemOps
begin

text \<open>
  The system heap of \<^verbatim>\<open>src/kservice.c\<close>: \<^verbatim>\<open>rt_malloc\<close> and its relatives, that is the small-memory heap behind a mutex. A thread that finds the mutex
  taken waits; what it does when it has been handed the mutex is the function \<^verbatim>\<open>..._resume\<close>. Before the scheduler runs there is no current
  thread and the mutex is not used. The number \<open>n\<close> is that of the mutex \<^verbatim>\<open>_lock\<close>, the heap \<open>m\<close> is \<^verbatim>\<open>system_heap\<close>.
\<close>

section \<open>Operations\<close>

definition heap_lock :: "nat \<Rightarrow> kernel \<Rightarrow> (outcome \<times> kernel) option" where
  "heap_lock n s = (if rt_thread_self s \<noteq> 0 then rt_mutex_take n (- 1) s else Some (Returned RT_EOK, s))"

definition heap_unlock :: "nat \<Rightarrow> rt_err_t \<Rightarrow> kernel \<Rightarrow> kernel option" where
  "heap_unlock n level s = do {
     rt_assert (level = RT_EOK);
     if rt_thread_self s \<noteq> 0 then do {
       (_, s) \<leftarrow> rt_mutex_release n s;
       Some s
     }
     else Some s
   }"

definition rt_system_heap_init ::
    "nat \<Rightarrow> u64 \<Rightarrow> u64 \<Rightarrow> (nat \<Rightarrow> smem_item) \<Rightarrow> (nat \<Rightarrow> u8) \<Rightarrow> kernel \<Rightarrow> (small_mem option \<times> kernel) option" where
  "rt_system_heap_init n begin_addr end_addr its bytes s = do {
     let begin_align = align_up begin_addr;
     let end_align = align_down end_addr;
     rt_assert (end_align > begin_align);
     (system_heap, s) \<leftarrow> rt_smem_init ''heap'' begin_addr (end_align - begin_align) its bytes s;
     (_, s) \<leftarrow> rt_mutex_init n ''heap'' RT_IPC_FLAG_PRIO s;
     Some (system_heap, s)
   }"

text \<open>A section of code on the heap, under the lock: \<open>None\<close> is returned by a thread that has to wait for it.\<close>

definition heap_locked ::
    "nat \<Rightarrow> rt_err_t \<Rightarrow> (kernel \<Rightarrow> small_mem \<Rightarrow> (u64 \<times> small_mem) option) \<Rightarrow> kernel \<Rightarrow> small_mem \<Rightarrow> (u64 \<times> kernel \<times> small_mem) option" where
  "heap_locked n level f s m = do {
     (ptr, m) \<leftarrow> f s m;
     s \<leftarrow> heap_unlock n level s;
     Some (ptr, s, m)
   }"

definition heap_section ::
    "nat \<Rightarrow> (kernel \<Rightarrow> small_mem \<Rightarrow> (u64 \<times> small_mem) option) \<Rightarrow> kernel \<Rightarrow> small_mem \<Rightarrow> (u64 option \<times> kernel \<times> small_mem) option" where
  "heap_section n f s m = do {
     (r, s) \<leftarrow> heap_lock n s;
     case r of
       Blocked \<Rightarrow> Some (None, s, m)
     | Returned level \<Rightarrow> do {
         (ptr, s, m) \<leftarrow> heap_locked n level f s m;
         Some (Some ptr, s, m)
       }
   }"

definition heap_resume ::
    "nat \<Rightarrow> tid \<Rightarrow> (kernel \<Rightarrow> small_mem \<Rightarrow> (u64 \<times> small_mem) option) \<Rightarrow> kernel \<Rightarrow> small_mem \<Rightarrow> (u64 \<times> kernel \<times> small_mem) option" where
  "heap_resume n t f s m = heap_locked n (mutex_take_resume t s) f s m"

definition rt_malloc :: "nat \<Rightarrow> u64 \<Rightarrow> kernel \<Rightarrow> small_mem \<Rightarrow> (u64 option \<times> kernel \<times> small_mem) option" where
  "rt_malloc n sz = heap_section n (\<lambda>s. rt_smem_alloc s sz)"

definition rt_realloc :: "nat \<Rightarrow> u64 \<Rightarrow> u64 \<Rightarrow> kernel \<Rightarrow> small_mem \<Rightarrow> (u64 option \<times> kernel \<times> small_mem) option" where
  "rt_realloc n rmem newsize = heap_section n (\<lambda>s. rt_smem_realloc s rmem newsize)"

text \<open>\<^verbatim>\<open>rt_free\<close>: the result is 0.\<close>

definition rt_free :: "nat \<Rightarrow> u64 \<Rightarrow> kernel \<Rightarrow> small_mem \<Rightarrow> (u64 option \<times> kernel \<times> small_mem) option" where
  "rt_free n rmem s m =
     (if rmem = 0 then Some (Some 0, s, m)
      else heap_section n (\<lambda>s m. map_option (Pair 0) (rt_smem_free s rmem m)) s m)"

text \<open>The bytes of the region as the memory functions see them.\<close>

definition region_bytes :: "small_mem \<Rightarrow> bytes" where
  "region_bytes m = (\<lambda>x. sm_bytes m (unat (x - heap_ptr m)))"

definition with_bytes :: "bytes \<Rightarrow> small_mem \<Rightarrow> small_mem" where
  "with_bytes b m = m\<lparr>sm_bytes := (\<lambda>i. b (heap_ptr m + of_nat i))\<rparr>"

definition calloc_clear :: "u64 \<Rightarrow> u64 \<Rightarrow> small_mem \<Rightarrow> small_mem" where
  "calloc_clear p len m = (if p \<noteq> 0 then with_bytes (rt_memset p 0 len (region_bytes m)) m else m)"

definition rt_calloc :: "nat \<Rightarrow> u64 \<Rightarrow> u64 \<Rightarrow> kernel \<Rightarrow> small_mem \<Rightarrow> (u64 option \<times> kernel \<times> small_mem) option" where
  "rt_calloc n count sz s m = do {
     (r, s, m) \<leftarrow> rt_malloc n (count * sz) s m;
     case r of
       None \<Rightarrow> Some (None, s, m)
     | Some p \<Rightarrow> Some (Some p, s, calloc_clear p (count * sz) m)
   }"

definition rt_memory_info :: "nat \<Rightarrow> kernel \<Rightarrow> small_mem \<Rightarrow> ((u64 \<times> u64 \<times> u64) option \<times> kernel) option" where
  "rt_memory_info n s m = do {
     (r, s) \<leftarrow> heap_lock n s;
     case r of
       Blocked \<Rightarrow> Some (None, s)
     | Returned level \<Rightarrow> do {
         let info = (sm_total m, sm_used m, sm_max m);
         s \<leftarrow> heap_unlock n level s;
         Some (Some info, s)
       }
   }"

text \<open>\<^verbatim>\<open>rt_malloc_align\<close>: the sizes it computes, and the address it hands out with the address of the block written in front of it. That word may begin
  in the header of the block, in the name of the thread, which nothing reads.\<close>

definition align_sizes :: "u64 \<Rightarrow> u64 \<Rightarrow> u64 \<times> u64" where
  "align_sizes sz align = (let align = (align + 7) AND NOT 7 in (align, ((sz + 7) AND NOT 7) + align))"

definition align_ptr :: "u64 \<Rightarrow> u64 \<Rightarrow> u64" where
  "align_ptr ptr align = (if ptr AND (align - 1) = 0 then ptr + align else (ptr + (align - 1)) AND NOT (align - 1))"

definition align_mark :: "u64 \<Rightarrow> u64 \<Rightarrow> small_mem \<Rightarrow> u64 \<times> small_mem" where
  "align_mark ptr align m =
     (if ptr \<noteq> 0
      then (align_ptr ptr align, with_bytes (store64 (align_ptr ptr align - 8) ptr (region_bytes m)) m)
      else (ptr, m))"

definition rt_malloc_align :: "nat \<Rightarrow> u64 \<Rightarrow> u64 \<Rightarrow> kernel \<Rightarrow> small_mem \<Rightarrow> (u64 option \<times> kernel \<times> small_mem) option" where
  "rt_malloc_align n sz align s m = do {
     let (align, align_size) = align_sizes sz align;
     (r, s, m) \<leftarrow> rt_malloc n align_size s m;
     case r of
       None \<Rightarrow> Some (None, s, m)
     | Some ptr \<Rightarrow> let (p, m) = align_mark ptr align m in Some (Some p, s, m)
   }"

definition rt_free_align :: "nat \<Rightarrow> u64 \<Rightarrow> kernel \<Rightarrow> small_mem \<Rightarrow> (u64 option \<times> kernel \<times> small_mem) option" where
  "rt_free_align n ptr s m = (if ptr = 0 then Some (Some 0, s, m) else rt_free n (load64 (ptr - 8) (region_bytes m)) s m)"

section \<open>The lock\<close>

definition locked :: "nat \<Rightarrow> kernel \<Rightarrow> kernel" where
  "locked n s = upd_mutex n (\<lambda>m. m\<lparr>mutex_value := 0, owner := current_thread s,
     original_priority := current_priority (threads s (current_thread s)), hold := 1\<rparr>)
     (upd_thread (current_thread s) (\<lambda>th. th\<lparr>thread_error := RT_EOK\<rparr>) s)"

lemma lock_free:
  assumes "may_block s" and "mutex_ok n s" and "owner (mutexes s n) = 0"
  shows "heap_lock n s = Some (Returned RT_EOK, locked n s)"
proof -
  have "current_thread s \<noteq> 0" using runningD(3) [OF may_blockD(1) [OF assms(1)]] by simp
  then show ?thesis
    using assms may_blockD(6) [OF assms(1)]
    by (simp add: heap_lock_def rt_thread_self_def rt_mutex_take_def Let_def locked_def mutex_ok_def is_mutex_def upd_mutex_def)
qed

lemma locked_ok:
  assumes "may_block s" and "mutex_ok n s" and "owner (mutexes s n) = 0"
  shows "kernel_ok (locked n s)" "mutex_ok n (locked n s)" "current_thread (locked n s) = current_thread s"
    "mutex_view n (locked n s) = (Some (current_thread s), 1, [])" "is_smem (locked n s) m = is_smem s m"
    "current_thread s \<noteq> 0" "interrupt_nest (locked n s) = 0"
proof -
  note b = may_blockD [OF assms(1)]
  show c: "current_thread s \<noteq> 0" using runningD(3) [OF b(1)] by simp
  show "kernel_ok (locked n s)" unfolding locked_def upd_mutex_fields by (rule kernel_ok_upd_thread [OF b(5)]) simp_all
  have "live (threads s (current_thread s))" using running_live [OF runningD(2) [OF b(1)]] by simp
  then show "mutex_ok n (locked n s)"
    using assms(2,3) c running_prio [OF b(1)] by (simp add: mutex_ok_def is_mutex_def locked_def live_def)
  show "current_thread (locked n s) = current_thread s" "interrupt_nest (locked n s) = 0" using b(3) by (simp_all add: locked_def)
  show "mutex_view n (locked n s) = (Some (current_thread s), 1, [])"
    using assms(2,3) c by (simp add: mutex_view_def locked_def mutex_ok_def)
  show "is_smem (locked n s) m = is_smem s m" by (simp add: is_smem_def locked_def)
qed

text \<open>The contract of a section of code on the heap: under its precondition it ends, keeps the heap well formed and does what it says. What the lock
  adds is proved once, for every such section.\<close>

locale heap_op =
  fixes f :: "kernel \<Rightarrow> small_mem \<Rightarrow> (u64 \<times> small_mem) option"
    and pre :: "small_mem \<Rightarrow> blocks \<Rightarrow> bool"
    and post :: "small_mem \<Rightarrow> blocks \<Rightarrow> u64 \<Rightarrow> small_mem \<Rightarrow> blocks \<Rightarrow> bool"
  assumes runs: "heap_ok m bs \<Longrightarrow> is_smem s m \<Longrightarrow> pre m bs \<Longrightarrow>
    \<exists>p m' bs'. f s m = Some (p, m') \<and> heap_ok m' bs' \<and> same_region m m' \<and> post m bs p m' bs'"
begin

lemma locked_runs:
  assumes "kernel_ok s" and "mutex_ok n s" and "owner (mutexes s n) = current_thread s" and "hold (mutexes s n) = 1"
    and "current_thread s \<noteq> 0" and "interrupt_nest s = 0" and "heap_ok m bs" and "is_smem s m" and "pre m bs"
  shows "\<exists>p s' m' bs'. heap_locked n RT_EOK f s m = Some (p, s', m') \<and> kernel_ok s' \<and> mutex_ok n s' \<and>
    mutex_view n s' = (case items (tlists s) (Mutex_wait n) of [] \<Rightarrow> (None, 0, []) | w # ws \<Rightarrow> (Some w, 1, ws)) \<and>
    heap_ok m' bs' \<and> same_region m m' \<and> post m bs p m' bs'"
proof -
  obtain p m' bs' where f: "f s m = Some (p, m')" "heap_ok m' bs'" "same_region m m'" "post m bs p m' bs'"
    using runs [OF assms(7-9)] by blast
  obtain e s' where r: "rt_mutex_release n s = Some (e, s')" "kernel_ok s'" "mutex_ok n s'"
    "mutex_view n s' = (case items (tlists s) (Mutex_wait n) of [] \<Rightarrow> (None, 0, []) | w # ws \<Rightarrow> (Some w, 1, ws))"
    using mutex_release_hands_over [OF assms(1,2,3,5,6)] mutex_release_frees [OF assms(1,2,3,5,6)] assms(4)
    by (cases "items (tlists s) (Mutex_wait n)") auto
  have "heap_locked n RT_EOK f s m = Some (p, s', m')"
    using f(1) r(1) assms(5) by (simp add: heap_locked_def heap_unlock_def rt_thread_self_def)
  then show ?thesis using f r by blast
qed

lemma section_free:
  assumes "may_block s" and "mutex_ok n s" and "owner (mutexes s n) = 0" and "heap_ok m bs" and "is_smem s m" and "pre m bs"
  shows "\<exists>p s' m' bs'. heap_section n f s m = Some (Some p, s', m') \<and> kernel_ok s' \<and> mutex_ok n s' \<and> mutex_view n s' = (None, 0, []) \<and>
    heap_ok m' bs' \<and> same_region m m' \<and> post m bs p m' bs'"
proof -
  note l = locked_ok [OF assms(1-3)]
  have it: "items (tlists (locked n s)) (Mutex_wait n) = []" and o: "owner (mutexes (locked n s) n) = current_thread (locked n s)"
    and h: "hold (mutexes (locked n s) n) = 1"
    using assms(2,3) l(3) by (auto simp: mutex_ok_def locked_def)
  have c: "current_thread (locked n s) \<noteq> 0" using l(3,6) by simp
  obtain p s' m' bs' where "heap_locked n RT_EOK f (locked n s) m = Some (p, s', m')" "kernel_ok s'" "mutex_ok n s'"
    "mutex_view n s' = (None, 0, [])" "heap_ok m' bs'" "same_region m m'" "post m bs p m' bs'"
    using locked_runs [OF l(1,2) o h c l(7) assms(4) l(5) [THEN iffD2, OF assms(5)] assms(6)] it by auto
  then show ?thesis by (auto simp: heap_section_def lock_free [OF assms(1-3)])
qed

lemma section_waits:
  assumes "may_block s" and "mutex_ok n s" and "owner (mutexes s n) \<noteq> 0" and "owner (mutexes s n) \<noteq> current_thread s"
  shows "\<exists>s'. heap_section n f s m = Some (None, s', m) \<and> kernel_ok s' \<and> mutex_ok n s' \<and> current_thread s' \<noteq> current_thread s \<and>
    mutexes s' = mutexes s \<and> items (tlists s') (Mutex_wait n) =
      wait_insert RT_IPC_FLAG_PRIO (prio_of s) (current_thread s) (items (tlists s) (Mutex_wait n))"
proof -
  have "rt_thread_self s \<noteq> 0" using runningD(3) [OF may_blockD(1) [OF assms(1)]] by (simp add: rt_thread_self_def)
  then show ?thesis using mutex_take_blocks [OF assms, of "- 1"] by (auto simp: heap_section_def heap_lock_def)
qed

lemma resume_runs:
  assumes "kernel_ok s" and "mutex_ok n s" and "current_thread s = t" and "owner (mutexes s n) = t" and "hold (mutexes s n) = 1"
    and "t \<noteq> 0" and "thread_error (threads s t) = RT_EOK" and "interrupt_nest s = 0" and "heap_ok m bs" and "is_smem s m" and "pre m bs"
  shows "\<exists>p s' m' bs'. heap_resume n t f s m = Some (p, s', m') \<and> kernel_ok s' \<and> mutex_ok n s' \<and>
    mutex_view n s' = (case items (tlists s) (Mutex_wait n) of [] \<Rightarrow> (None, 0, []) | w # ws \<Rightarrow> (Some w, 1, ws)) \<and>
    heap_ok m' bs' \<and> same_region m m' \<and> post m bs p m' bs'"
  using locked_runs [of s n m bs] assms by (simp add: heap_resume_def mutex_take_resume_def)

end

section \<open>The calls\<close>

text \<open>What an allocation, a release and a reallocation have done.\<close>

definition allocated :: "u64 \<Rightarrow> small_mem \<Rightarrow> blocks \<Rightarrow> u64 \<Rightarrow> small_mem \<Rightarrow> blocks \<Rightarrow> bool" where
  "allocated sz m bs p m' bs' = (sm_bytes m' = sm_bytes m \<and>
     (if p = 0 then m' = m \<and> (sz = 0 \<or> (\<forall>(l, u) \<in> set bs. u \<or> l - 40 < unat (request sz)))
      else \<exists>a k. p = heap_ptr m + of_nat a \<and> unat p = unat (heap_ptr m) + a \<and> unat (request sz) \<le> k \<and> a + k \<le> unat (heap_end m) \<and>
        set (areas 0 bs') = insert (a, k) (set (areas 0 bs)) \<and> apart_from a k (set (areas 0 bs))))"

interpretation malloc: heap_op "\<lambda>s. rt_smem_alloc s sz" "\<lambda>_ _. True" "allocated sz" for sz
proof
  fix m bs s
  assume ok: "heap_ok m bs" and im: "is_smem s m"
  show "\<exists>p m' bs'. rt_smem_alloc s sz m = Some (p, m') \<and> heap_ok m' bs' \<and> same_region m m' \<and> allocated sz m bs p m' bs'"
  proof (cases "sz = 0")
    case True
    then show ?thesis using ok by (auto simp: rt_smem_alloc_def allocated_def same_region_def)
  next
    case False
    then show ?thesis
    proof (rule alloc_cases [OF ok im], goal_cases null block)
      case null
      then show ?case using ok by (auto simp: allocated_def same_region_def)
    next
      case (block a k m' bs')
      then show ?case
        by (intro exI [of _ "heap_ptr m + of_nat a"] exI [of _ m'] exI [of _ bs'])
          (auto simp: allocated_def block(10) intro!: exI [of _ a] exI [of _ k])
    qed
  qed
qed

interpretation free: heap_op "\<lambda>s m. map_option (Pair 0) (rt_smem_free s rmem m)"
  "\<lambda>m bs. \<exists>a k. rmem = heap_ptr m + of_nat a \<and> (a, k) \<in> set (areas 0 bs)"
  "\<lambda>m bs p m' bs'. sm_bytes m' = sm_bytes m \<and>
    (\<forall>a k. rmem = heap_ptr m + of_nat a \<and> (a, k) \<in> set (areas 0 bs) \<longrightarrow> set (areas 0 bs') = set (areas 0 bs) - {(a, k)})" for rmem
proof
  fix m bs s
  assume ok: "heap_ok m bs" and im: "is_smem s m" and "\<exists>a k. rmem = heap_ptr m + of_nat a \<and> (a, k) \<in> set (areas 0 bs)"
  then obtain a k where a: "rmem = heap_ptr m + of_nat a" "(a, k) \<in> set (areas 0 bs)" by blast
  have "(b, j) = (a, k)" if "rmem = heap_ptr m + of_nat b" "(b, j) \<in> set (areas 0 bs)" for b j
    using inj_onD [OF areas_inj [OF ok], of "(b, j)" "(a, k)"] that a by simp
  note uniq = this
  obtain m' bs' where m': "rt_smem_free s rmem m = Some m'" "heap_ok m' bs'" "same_region m m'" "sm_bytes m' = sm_bytes m"
    "set (areas 0 bs') = set (areas 0 bs) - {(a, k)}"
    using free_areas [OF ok im a(2)] unfolding a(1) by blast
  show "\<exists>p m' bs'. map_option (Pair 0) (rt_smem_free s rmem m) = Some (p, m') \<and> heap_ok m' bs' \<and> same_region m m' \<and>
      sm_bytes m' = sm_bytes m \<and>
      (\<forall>a k. rmem = heap_ptr m + of_nat a \<and> (a, k) \<in> set (areas 0 bs) \<longrightarrow> set (areas 0 bs') = set (areas 0 bs) - {(a, k)})"
  proof (intro exI [of _ 0] exI [of _ m'] exI [of _ bs'] conjI allI impI)
    fix b j
    assume "rmem = heap_ptr m + of_nat b \<and> (b, j) \<in> set (areas 0 bs)"
    then have "(b, j) = (a, k)" using uniq by blast
    then show "set (areas 0 bs') = set (areas 0 bs) - {(b, j)}" using m'(5) by simp
  qed (use m' in simp_all)
qed

interpretation realloc: heap_op "\<lambda>s. rt_smem_realloc s rmem sz"
  "\<lambda>m bs. sz \<noteq> 0 \<and> unat sz + 3 < 2 ^ 64 \<and> (\<exists>a k. rmem = heap_ptr m + of_nat a \<and> (a, k) \<in> set (areas 0 bs))"
  "\<lambda>m bs p m' bs'. if p = 0 then m' = m \<and> bs' = bs
     else \<exists>a k. rmem = heap_ptr m + of_nat a \<and> (a, k) \<in> set (areas 0 bs) \<and> resized m bs a k (unat sz) p m' bs'" for rmem sz
proof
  fix m bs s
  assume "heap_ok m bs" and "is_smem s m" and
    "sz \<noteq> 0 \<and> unat sz + 3 < 2 ^ 64 \<and> (\<exists>a k. rmem = heap_ptr m + of_nat a \<and> (a, k) \<in> set (areas 0 bs))"
  then obtain a k p m' bs' where x: "rmem = heap_ptr m + of_nat a" "(a, k) \<in> set (areas 0 bs)"
    "rt_smem_realloc s rmem sz m = Some (p, m')" "heap_ok m' bs'" "same_region m m'"
    "if p = 0 then m' = m \<and> bs' = bs \<and> (\<forall>(l, u) \<in> set bs. u \<or> l - 40 < unat (request sz)) else resized m bs a k (unat sz) p m' bs'"
    using realloc_areas [of m bs s _ _ sz] by metis
  have "if p = 0 then m' = m \<and> bs' = bs
      else \<exists>a k. rmem = heap_ptr m + of_nat a \<and> (a, k) \<in> set (areas 0 bs) \<and> resized m bs a k (unat sz) p m' bs'"
  proof (cases "p = 0")
    case False
    then show ?thesis using x(1,2,6) unfolding if_not_P [OF False] by blast
  qed (use x(6) in simp)
  then show "\<exists>p m' bs'. rt_smem_realloc s rmem sz m = Some (p, m') \<and> heap_ok m' bs' \<and> same_region m m' \<and>
      (if p = 0 then m' = m \<and> bs' = bs
       else \<exists>a k. rmem = heap_ptr m + of_nat a \<and> (a, k) \<in> set (areas 0 bs) \<and> resized m bs a k (unat sz) p m' bs')"
    using x(3-5) by blast
qed

section \<open>Clearing and aligning\<close>

lemma rt_calloc_wraps: "rt_calloc n 0x100000000 0x100000001 = rt_calloc n 1 0x100000000"
proof -
  have "(0x100000000 :: u64) * 0x100000001 = 1 * 0x100000000" by simp
  then show ?thesis unfolding rt_calloc_def by (simp only:)
qed

lemma region_with_bytes: "region_bytes (with_bytes b m) = b"
  by (simp add: region_bytes_def with_bytes_def)

text \<open>\<^verbatim>\<open>rt_calloc\<close> clears the bytes of the block and no others.\<close>

lemma calloc_clears:
  assumes "p \<noteq> 0" and "p = heap_ptr m + of_nat a"
  shows "sm_bytes (calloc_clear p len m) i =
    (if unat (of_nat i - of_nat a :: u64) < unat len then 0 else sm_bytes m (unat (of_nat i :: u64)))"
  using assms by (simp add: calloc_clear_def with_bytes_def memset_filled filled_def region_bytes_def)

text \<open>A word that was stored is read back, so that \<^verbatim>\<open>rt_free_align\<close> finds the block that \<^verbatim>\<open>rt_malloc_align\<close> got.\<close>

lemma load_store: "load64 a (store64 a w m) = w"
proof (rule bit_word_eqI)
  fix n
  assume "n < LENGTH(64)"
  then have "n < 64" by simp
  then have d: "n div 8 < 8" "8 * (n div 8) + n mod 8 = n" by simp_all
  have "unat (of_nat (n div 8) :: u64) = n div 8" using d(1) by (simp add: unat_of_nat)
  moreover have "(of_nat (n div 8) :: u64) < 8" using d(1) calculation by (simp add: word_less_nat_alt)
  ultimately have "store64 a w m (a + of_nat (n div 8)) = ucast (drop_bit (8 * (n div 8)) w)" by (simp add: store64_def)
  then show "bit (load64 a (store64 a w m)) n = bit w n"
    using \<open>n < 64\<close> d(2) unfolding load64_def bit_load by (simp add: bit_ucast_iff bit_drop_bit_eq)
qed

lemma align_mark_roundtrip:
  assumes "ptr \<noteq> 0" and "align_mark ptr align m = (p, m')"
  shows "load64 (p - 8) (region_bytes m') = ptr"
  using assms by (auto simp: align_mark_def region_with_bytes load_store)

lemma round_up:
  fixes d y :: nat
  assumes "0 < d" and "y mod d \<noteq> 0"
  shows "y < (y + (d - 1)) div d * d \<and> (y + (d - 1)) div d * d \<le> y + d"
proof -
  have y: "y = d * (y div d) + y mod d" by (rule mult_div_mod_eq [symmetric])
  have r: "y mod d < d" using assms(1) by simp
  have "y + (d - 1) = (y mod d - 1) + d * (y div d + 1)" using y assms unfolding distrib_left mult_1_right by linarith
  then have "(y + (d - 1)) div d = (y mod d - 1) div d + (y div d + 1)" using assms(1) by (simp only: div_mult_self2)
  also have "(y mod d - 1) div d = 0" using r by (intro div_less) simp
  finally have "(y + (d - 1)) div d * d = d * (y div d) + d" by (simp add: algebra_simps)
  then show ?thesis using y r assms(2) by linarith
qed

text \<open>For a power of two the address handed out is aligned and lies behind the start of the block, by at most the alignment.\<close>

lemma align_ptr_range:
  assumes "unat ptr + 2 ^ k < 2 ^ 64"
  shows "unat (align_ptr ptr (2 ^ k)) mod 2 ^ k = 0" "unat ptr < unat (align_ptr ptr (2 ^ k))" "unat (align_ptr ptr (2 ^ k)) \<le> unat ptr + 2 ^ k"
proof -
  have k: "k < 64"
  proof (rule ccontr)
    assume "\<not> k < 64"
    then have "(2 :: nat) ^ 64 \<le> 2 ^ k" by (intro power_increasing) simp_all
    then show False using assms by simp
  qed
  have "unat (of_nat (2 ^ k) :: u64) = 2 ^ k" using assms by (simp only: unat_of_nat) (intro mod_less, simp)
  then have p2: "unat (2 ^ k :: u64) = 2 ^ k" by simp
  have m: "(2 ^ k :: u64) - 1 = mask k" by (simp add: mask_eq_exp_minus_1)
  have um: "unat (mask k :: u64) = 2 ^ k - 1" using p2 by (simp add: m [symmetric] unat_sub_if_size word_le_nat_alt)
  have low: "ptr AND mask k = 0 \<longleftrightarrow> unat ptr mod 2 ^ k = 0"
    by (simp add: take_bit_eq_mask [symmetric] unat_eq_zero [symmetric] take_bit_eq_mod unat_mod p2)
  have "unat (align_ptr ptr (2 ^ k)) = (if unat ptr mod 2 ^ k = 0 then unat ptr + 2 ^ k else (unat ptr + (2 ^ k - 1)) div 2 ^ k * 2 ^ k)"
  proof (cases "unat ptr mod 2 ^ k = 0")
    case True
    then show ?thesis using low p2 assms by (simp add: align_ptr_def m unat_word_ariths)
  next
    case False
    let ?x = "ptr + mask k"
    have x: "unat ?x = unat ptr + (2 ^ k - 1)" using um assms by (simp add: unat_word_ariths)
    have "unat ?x div 2 ^ k * 2 ^ k < 2 ^ 64"
      using unsigned_less [of ?x, where ?'a = nat] by (intro order_le_less_trans [OF div_times_less_eq_dividend]) simp
    then have "unat (push_bit k (drop_bit k ?x)) = unat ?x div 2 ^ k * 2 ^ k"
      by (simp add: push_bit_eq_mult drop_bit_eq_div unat_word_ariths(2) unat_div p2)
    then show ?thesis using False low x by (simp add: align_ptr_def m and_not_mask)
  qed
  moreover have "unat ptr < (unat ptr + (2 ^ k - 1)) div 2 ^ k * 2 ^ k \<and> (unat ptr + (2 ^ k - 1)) div 2 ^ k * 2 ^ k \<le> unat ptr + 2 ^ k"
    if "unat ptr mod 2 ^ k \<noteq> 0"
    using round_up [of "2 ^ k" "unat ptr"] that by simp
  ultimately show "unat (align_ptr ptr (2 ^ k)) mod 2 ^ k = 0" "unat ptr < unat (align_ptr ptr (2 ^ k))"
    "unat (align_ptr ptr (2 ^ k)) \<le> unat ptr + 2 ^ k" by (auto split: if_splits)
qed

text \<open>A block whose address is 4 modulo 8, as \<^verbatim>\<open>RT_ALIGN_SIZE\<close> 4 allows: the word that \<^verbatim>\<open>rt_malloc_align\<close> writes begins four bytes in front of it.\<close>

lemma align_mark_underruns:
  assumes "unat ptr mod 8 = 4" and "unat ptr + 7 < 2 ^ 64"
  shows "align_ptr ptr 8 - 8 = ptr - 4"
proof -
  have m: "(7 :: u64) = mask 3" by (simp add: mask_eq_exp_minus_1)
  have "unat (ptr AND 7) = 4" unfolding m using assms(1) by (simp add: take_bit_eq_mask [symmetric] take_bit_eq_mod unat_mod)
  then have nz: "ptr AND 7 \<noteq> 0" by auto
  have u: "unat (ptr + 7) = unat ptr + 7" using assms(2) by (simp add: unat_word_ariths)
  have "(ptr + 7) AND NOT 7 = (ptr + 7) div 8 * 8" unfolding m and_not_mask by (simp add: push_bit_eq_mult drop_bit_eq_div)
  moreover have "unat ((ptr + 7) div 8) * 8 = unat ptr + 4" unfolding unat_div u using assms(1) by simp presburger
  then have "unat ((ptr + 7) div 8 * 8) = unat (ptr + 4)" using assms(2) by (simp add: unat_word_ariths)
  ultimately have "(ptr + 7) AND NOT 7 = ptr + 4" by (simp add: word_unat_eq_iff)
  then show ?thesis using nz by (simp add: align_ptr_def)
qed

section \<open>Properties\<close>

text \<open>\<^verbatim>\<open>rt_malloc\<close> works under the mutex of the heap. If the mutex is free the caller gets its block, or \<^verbatim>\<open>NULL\<close> when none is large enough, and the mutex is free again; if
  another thread holds it the heap is not touched, and the caller waits in the queue of the mutex, by priority.\<close>

theorem malloc_serialised:
  assumes "may_block s" and "mutex_ok n s" and "heap_ok m bs" and "is_smem s m"
  shows "(owner (mutexes s n) = 0 \<longrightarrow> (\<exists>p s' m' bs'. rt_malloc n sz s m = Some (Some p, s', m') \<and> kernel_ok s' \<and> mutex_ok n s' \<and>
      mutex_view n s' = (None, 0, []) \<and> heap_ok m' bs' \<and> allocated sz m bs p m' bs')) \<and>
    (owner (mutexes s n) \<noteq> 0 \<and> owner (mutexes s n) \<noteq> current_thread s \<longrightarrow> (\<exists>s'. rt_malloc n sz s m = Some (None, s', m) \<and>
      kernel_ok s' \<and> mutex_ok n s' \<and> current_thread s' \<noteq> current_thread s \<and> mutexes s' = mutexes s \<and>
      items (tlists s') (Mutex_wait n) = wait_insert RT_IPC_FLAG_PRIO (prio_of s) (current_thread s) (items (tlists s) (Mutex_wait n))))"
  using malloc.section_free [OF assms(1,2) _ assms(3,4)] malloc.section_waits [OF assms(1,2)] unfolding rt_malloc_def by blast

text \<open>The kernel of the examples on mutexes, with a heap object, a free mutex 8 and mutex 7 as the thread of number 3 finds it when it was handed over.\<close>

definition heap_kernel :: "small_mem \<Rightarrow> kernel" where
  "heap_kernel m = demo_held\<lparr>obj_type := (obj_type demo_held)(Memory_obj (unat (sm_addr m)) := 0x8c, Mutex_obj 8 := 0x83),
     mutexes := (\<lambda>n. if n = 8 then mutex_fresh else \<lparr>mutex_flag = 1, mutex_value = 0, original_priority = 10, hold = 1, owner = 3\<rparr>)\<rparr>"

lemma heap_kernel_ok:
  "may_block (heap_kernel m)" "mutex_ok 8 (heap_kernel m)" "mutex_ok 7 (heap_kernel m)" "is_smem (heap_kernel m) m"
  "owner (mutexes (heap_kernel m) 8) = 0" "mutex_view 7 (heap_kernel m) = (Some 3, 1, [5])" "current_thread (heap_kernel m) = 3"
  "thread_error (threads (heap_kernel m) 3) = RT_EOK"
proof -
  let ?s = "demo_held\<lparr>obj_type := (obj_type demo_held)(Memory_obj (unat (sm_addr m)) := 0x8c)\<rparr>"
  let ?s' = "?s\<lparr>obj_type := (obj_type ?s)(Mutex_obj 8 := 0x83)\<rparr>"
  note b = demo_held_ok(1)
  have "kernel_ok ?s" using may_blockD(5) [OF b] by (subst kernel_ok_object) simp_all
  then have "kernel_ok ?s'" by (subst kernel_ok_object) simp_all
  then show "may_block (heap_kernel m)"
    using b by (simp add: may_block_def running_def heap_kernel_def)
  show "is_smem (heap_kernel m) m"
    by (simp add: is_smem_def heap_kernel_def rt_object_get_type_def rt_object_is_systemobject_def)
  have "items (tlists (demo_wait (Mutex_wait 7) (Mutex_obj 7) 0x83)) (Mutex_wait 8) = []" by (simp add: demo_wait_def)
  then show "mutex_ok 8 (heap_kernel m)" "mutex_ok 7 (heap_kernel m)" "owner (mutexes (heap_kernel m) 8) = 0"
    "mutex_view 7 (heap_kernel m) = (Some 3, 1, [5])" "current_thread (heap_kernel m) = 3" "thread_error (threads (heap_kernel m) 3) = RT_EOK"
    by (simp_all add: mutex_ok_def is_mutex_def heap_kernel_def mutex_fresh_def demo_held_def rt_object_get_type_def mutex_view_def live_def)
qed

theorem malloc_serialised_witness:
  "\<exists>m k p s' m'. demo_heap = Some (Some m, k) \<and> rt_malloc 8 100 (heap_kernel m) m = Some (Some p, s', m') \<and> mutex_view 8 s' = (None, 0, [])"
proof -
  obtain m k where d: "demo_heap = Some (Some m, k)" "heap_ok m [(880, False)]" by (rule demo_heap_ok)
  note h = heap_kernel_ok [of m]
  show ?thesis using malloc_serialised [OF h(1,2) d(2) h(4), of 100] h(5) d(1) by blast
qed

text \<open>A thread that waited for the mutex of the heap and was made its owner does its allocation when it runs again, and then hands the mutex to the next thread in the
  queue, or frees it.\<close>

theorem malloc_handed_over:
  assumes "kernel_ok s" and "mutex_ok n s" and "mutex_view n s = (Some t, 1, ws)" and "current_thread s = t" and "thread_error (threads s t) = RT_EOK"
    and "interrupt_nest s = 0" and "heap_ok m bs" and "is_smem s m"
  shows "\<exists>p s' m' bs'. heap_resume n t (\<lambda>s. rt_smem_alloc s sz) s m = Some (p, s', m') \<and> kernel_ok s' \<and> mutex_ok n s' \<and>
    mutex_view n s' = (case ws of [] \<Rightarrow> (None, 0, []) | w # ws' \<Rightarrow> (Some w, 1, ws')) \<and> heap_ok m' bs' \<and> allocated sz m bs p m' bs'"
proof -
  have v: "owner (mutexes s n) = t" "t \<noteq> 0" "items (tlists s) (Mutex_wait n) = ws" "unat (hold (mutexes s n)) = 1"
    using assms(3) by (auto simp: mutex_view_def split: if_splits)
  then have "hold (mutexes s n) = 1" by (simp add: word_unat_eq_iff)
  then show ?thesis using malloc.resume_runs [OF assms(1,2,4) v(1) _ v(2) assms(5-8), of sz] v(3) by auto
qed

theorem malloc_handed_over_witness:
  "\<exists>m k p s' m'. demo_heap = Some (Some m, k) \<and>
    heap_resume 7 3 (\<lambda>s. rt_smem_alloc s 100) (heap_kernel m) m = Some (p, s', m') \<and> mutex_view 7 s' = (Some 5, 1, [])"
proof -
  obtain m k where d: "demo_heap = Some (Some m, k)" "heap_ok m [(880, False)]" by (rule demo_heap_ok)
  note h = heap_kernel_ok [of m]
  have "kernel_ok (heap_kernel m)" "interrupt_nest (heap_kernel m) = 0" using may_blockD(3,5) [OF h(1)] by simp_all
  from malloc_handed_over [OF this(1) h(3,6,7,8) this(2) d(2) h(4), of 100]
  obtain p s' m' where "heap_resume 7 3 (\<lambda>s. rt_smem_alloc s 100) (heap_kernel m) m = Some (p, s', m')" "mutex_view 7 s' = (Some 5, 1, [])"
    by auto
  then show ?thesis using d(1) by blast
qed

end
