(* ===== verification/Rt_String.thy ===== *)
theory Rt_String
  imports Rt_MemOps
begin

text \<open>
  The string functions of \<^verbatim>\<open>src/kservice.c\<close> on the memory of bytes: a string is an address, and what it holds are the bytes up to the first 0. The
  loops that look for that byte do not end without it, so they are partial functions; the theorems show that they end on strings.
\<close>

section \<open>Operations\<close>

partial_function (option) strlen_loop :: "u64 \<Rightarrow> bytes \<Rightarrow> u64 option" where
  "strlen_loop sc m = (if m sc \<noteq> 0 then strlen_loop (sc + 1) m else Some sc)"

definition rt_strlen :: "u64 \<Rightarrow> bytes \<Rightarrow> u64 option" where
  "rt_strlen s m = map_option (\<lambda>sc. sc - s) (strlen_loop s m)"

text \<open>\<^verbatim>\<open>rt_strnlen\<close>, with the last address it reads.\<close>

partial_function (option) strnlen_loop :: "u64 \<Rightarrow> u64 \<Rightarrow> u64 \<Rightarrow> bytes \<Rightarrow> u64 option" where
  "strnlen_loop sc s maxlen m = (if m sc \<noteq> 0 \<and> sc - s < maxlen then strnlen_loop (sc + 1) s maxlen m else Some sc)"

definition rt_strnlen :: "u64 \<Rightarrow> u64 \<Rightarrow> bytes \<Rightarrow> (u64 \<times> u64) option" where
  "rt_strnlen s maxlen m = map_option (\<lambda>sc. (sc - s, sc)) (strnlen_loop s s maxlen m)"

text \<open>The lengths are kept in variables of type \<^verbatim>\<open>int\<close>.\<close>

function strstr_loop :: "int \<Rightarrow> int \<Rightarrow> u64 \<Rightarrow> u64 \<Rightarrow> bytes \<Rightarrow> u64" where
  "strstr_loop l1 l2 s1 s2 m =
     (if l1 \<ge> l2 then (if rt_memcmp s1 s2 (word_of_int l2) m = 0 then s1 else strstr_loop (l1 - 1) l2 (s1 + 1) s2 m) else 0)"
  by pat_completeness auto
termination by (relation "measure (\<lambda>(l1, l2, _). nat (l1 + 1 - l2))") auto

declare strstr_loop.simps [simp del]

definition rt_strstr :: "u64 \<Rightarrow> u64 \<Rightarrow> bytes \<Rightarrow> u64 option" where
  "rt_strstr s1 s2 m = do {
     n2 \<leftarrow> rt_strlen s2 m;
     let l2 = sint (ucast n2 :: u32);
     if l2 = 0 then Some s1
     else do {
       n1 \<leftarrow> rt_strlen s1 m;
       Some (strstr_loop (sint (ucast n1 :: u32)) l2 s1 s2 m)
     }
   }"

definition lower :: "int \<Rightarrow> int" where
  "lower c = (if 0x41 \<le> c \<and> c \<le> 0x5a then c + (0x61 - 0x41) else c)"

partial_function (option) rt_strcasecmp :: "u64 \<Rightarrow> u64 \<Rightarrow> bytes \<Rightarrow> int option" where
  "rt_strcasecmp a b m =
     (let ca = lower (uint (m a)); cb = lower (uint (m b))
      in if ca = cb \<and> ca \<noteq> 0 then rt_strcasecmp (a + 1) (b + 1) m else Some (ca - cb))"

partial_function (option) rt_strcmp :: "u64 \<Rightarrow> u64 \<Rightarrow> bytes \<Rightarrow> int option" where
  "rt_strcmp cs ct m =
     (if m cs \<noteq> 0 \<and> m cs = m ct then rt_strcmp (cs + 1) (ct + 1) m else Some (uint (m cs) - uint (m ct)))"

partial_function (option) rt_strcpy :: "u64 \<Rightarrow> u64 \<Rightarrow> bytes \<Rightarrow> bytes option" where
  "rt_strcpy dst src m =
     (if m src \<noteq> 0 then rt_strcpy (dst + 1) (src + 1) (m(dst := m src)) else Some (m(dst := 0)))"

text \<open>\<^verbatim>\<open>rt_strdup\<close>: \<open>tmp\<close> is the address \<^verbatim>\<open>rt_malloc(len)\<close> returns.\<close>

definition rt_strdup :: "u64 \<Rightarrow> (u64 \<Rightarrow> u64) \<Rightarrow> bytes \<Rightarrow> (u64 \<times> bytes) option" where
  "rt_strdup s rt_malloc m = do {
     n \<leftarrow> rt_strlen s m;
     let len = n + 1;
     let tmp = rt_malloc len;
     if tmp = 0 then Some (0, m) else Some (tmp, rt_memcpy tmp s len m)
   }"

section \<open>Strings in memory\<close>

text \<open>The string \<open>xs\<close> lies at \<open>p\<close>.\<close>

fun cstr :: "bytes \<Rightarrow> u64 \<Rightarrow> u8 list \<Rightarrow> bool" where
  "cstr m p [] = (m p = 0)"
| "cstr m p (x # xs) = (x \<noteq> 0 \<and> m p = x \<and> cstr m (p + 1) xs)"

lemma cstr_drop: "cstr m p xs \<Longrightarrow> i \<le> length xs \<Longrightarrow> cstr m (p + of_nat i) (drop i xs)"
  by (induction m p xs arbitrary: i rule: cstr.induct) (auto simp: add.assoc split: nat.split intro: drop_Cons [THEN ssubst])

lemma cstr_nth: "cstr m p xs \<Longrightarrow> i < length xs \<Longrightarrow> m (p + of_nat i) = xs ! i \<and> xs ! i \<noteq> 0"
proof (induction m p xs arbitrary: i rule: cstr.induct)
  case (2 m p x xs)
  then show ?case by (cases i) (auto simp: add.assoc)
qed simp

lemma cstr_end: "cstr m p xs \<Longrightarrow> m (p + of_nat (length xs)) = 0"
  by (induction m p xs rule: cstr.induct) (auto simp: add.assoc)

lemma strlen_loop_cstr: "cstr m p xs \<Longrightarrow> strlen_loop p m = Some (p + of_nat (length xs))"
  by (induction m p xs rule: cstr.induct) (auto simp: strlen_loop.simps add.assoc)

lemma strlen_cstr: "cstr m p xs \<Longrightarrow> rt_strlen p m = Some (of_nat (length xs))"
  by (simp add: rt_strlen_def strlen_loop_cstr)

lemma sint_length:
  assumes "n < 2 ^ 31"
  shows "sint (ucast (of_nat n :: u64) :: u32) = int n"
proof -
  have "sint (ucast (of_nat n :: u64) :: u32) = signed_take_bit 31 (take_bit 64 (int n))" by transfer simp
  also have "\<dots> = signed_take_bit 31 (int n)"
    using assms by (simp add: take_bit_int_eq_self)
  also have "\<dots> = int n"
  proof (rule signed_take_bit_int_eq_self)
    show "int n < 2 ^ 31" using assms by (metis of_nat_less_iff of_nat_numeral of_nat_power)
  qed simp
  finally show ?thesis .
qed

section \<open>Searching\<close>

text \<open>The string \<open>ys\<close> occurs in \<open>xs\<close> at position \<open>i\<close>.\<close>

definition occurs_at :: "'a list \<Rightarrow> 'a list \<Rightarrow> nat \<Rightarrow> bool" where
  "occurs_at ys xs i = (i + length ys \<le> length xs \<and> take (length ys) (drop i xs) = ys)"

lemma memcmp_cstr:
  assumes "cstr m p xs" and "cstr m q ys" and "length ys \<le> length xs" and "length ys < 2 ^ 64"
  shows "rt_memcmp p q (of_nat (length ys)) m = 0 \<longleftrightarrow> take (length ys) xs = ys"
proof -
  have "unat (of_nat (length ys) :: u64) = length ys" using assms(4) by (simp add: unat_of_nat)
  then show ?thesis
    using assms(3) cstr_nth [OF assms(1)] cstr_nth [OF assms(2)]
    by (auto simp: memcmp_zero list_eq_iff_nth_eq)
qed

lemma occurs_at_Suc: "occurs_at ys (x # xs) (Suc i) = occurs_at ys xs i"
  by (simp add: occurs_at_def)

lemma strstr_loop_finds:
  assumes "cstr m p xs" and "cstr m q ys" and "length ys < 2 ^ 31"
  shows "(\<exists>i. strstr_loop (int (length xs)) (int (length ys)) p q m = p + of_nat i \<and> occurs_at ys xs i \<and> (\<forall>j < i. \<not> occurs_at ys xs j)) \<or>
    strstr_loop (int (length xs)) (int (length ys)) p q m = 0 \<and> (\<forall>j. \<not> occurs_at ys xs j)"
  using assms(1)
proof (induction xs arbitrary: p)
  case (Cons x xs)
  show ?case
  proof (cases "length ys \<le> length (x # xs)")
    case le: True
    have c: "rt_memcmp p q (word_of_int (int (length ys))) m = 0 \<longleftrightarrow> occurs_at ys (x # xs) 0"
      using memcmp_cstr [OF Cons.prems assms(2) le] assms(3) le by (simp add: occurs_at_def)
    show ?thesis
    proof (cases "occurs_at ys (x # xs) 0")
      case True
      then show ?thesis using c le by (intro disjI1 exI [of _ 0]) (simp add: strstr_loop.simps)
    next
      case False
      let ?r = "strstr_loop (int (length xs)) (int (length ys)) (p + 1) q m"
      have r: "strstr_loop (int (length (x # xs))) (int (length ys)) p q m = ?r"
        using c False le by (subst strstr_loop.simps) simp
      have "cstr m (p + 1) xs" using Cons.prems by simp
      from Cons.IH [OF this] show ?thesis
      proof
        assume "\<exists>i. ?r = p + 1 + of_nat i \<and> occurs_at ys xs i \<and> (\<forall>j < i. \<not> occurs_at ys xs j)"
        then obtain i where "?r = p + of_nat (Suc i)" "occurs_at ys xs i" "\<forall>j < i. \<not> occurs_at ys xs j" by (auto simp: add.assoc)
        then show ?thesis unfolding r using False by (intro disjI1 exI [of _ "Suc i"]) (auto simp: occurs_at_Suc All_less_Suc2)
      next
        assume "?r = 0 \<and> (\<forall>j. \<not> occurs_at ys xs j)"
        then show ?thesis unfolding r using False by (metis occurs_at_Suc not0_implies_Suc)
      qed
    qed
  qed (auto simp: strstr_loop.simps occurs_at_def)
next
  case Nil
  show ?case
  proof (cases "ys = []")
    case True
    then have "rt_memcmp p q 0 m = 0" by (simp add: memcmp_zero)
    then show ?thesis using True by (intro disjI1 exI [of _ 0]) (simp add: strstr_loop.simps occurs_at_def)
  qed (auto simp: strstr_loop.simps occurs_at_def)
qed

section \<open>Copying and comparing strings\<close>

lemma strcpy_copied:
  assumes "cstr m (src + of_nat k) xs" and "reads_ahead dst src (k + length xs + 1)" and "k + length xs + 1 < 2 ^ 64"
  shows "rt_strcpy (dst + of_nat k) (src + of_nat k) (copied dst src k m m) = Some (copied dst src (k + length xs + 1) m m)"
  using assms
proof (induction xs arbitrary: k)
  case Nil
  have "copied dst src k m m (src + of_nat k) = 0" using Nil unread [of dst src "k + 1" k 1 0 m] by simp
  then show ?case using Nil copy_byte_step [of dst src "k + 1" k m] by (subst rt_strcpy.simps) simp
next
  case (Cons x xs)
  let ?n = "k + length (x # xs) + 1"
  have c: "copied dst src k m m (src + of_nat k) = x" "x \<noteq> 0" using Cons.prems unread [of dst src ?n k 1 0 m] by simp_all
  have "(copied dst src k m m)(dst + of_nat k := copied dst src k m m (src + of_nat k)) = copied dst src (k + 1) m m"
    by (rule copy_byte_step [of _ _ ?n]) (use Cons.prems in simp_all)
  moreover have "rt_strcpy (dst + of_nat (k + 1)) (src + of_nat (k + 1)) (copied dst src (k + 1) m m) =
      Some (copied dst src (k + 1 + length xs + 1) m m)"
    by (rule Cons.IH) (use Cons.prems in \<open>simp_all add: ac_simps\<close>)
  ultimately show ?case using c by (subst rt_strcpy.simps) (simp add: ac_simps)
qed

lemma strcmp_cstr:
  assumes "cstr m p xs" and "cstr m q ys"
  shows "\<exists>r. rt_strcmp p q m = Some r \<and> (r = 0 \<longleftrightarrow> xs = ys)"
  using assms
proof (induction m p xs arbitrary: q ys rule: cstr.induct)
  case (1 m p)
  then show ?case by (cases ys) (auto simp: rt_strcmp.simps word_uint_eq_iff)
next
  case (2 m p x xs)
  then show ?case by (cases ys) (auto simp: rt_strcmp.simps word_uint_eq_iff)
qed

lemma lower_zero: "lower c = 0 \<longleftrightarrow> c = 0" "0 = lower c \<longleftrightarrow> c = 0" "lower 0 = 0"
  by (auto simp: lower_def)

lemma strcasecmp_cstr:
  assumes "cstr m p xs" and "cstr m q ys"
  shows "\<exists>r. rt_strcasecmp p q m = Some r \<and> (r = 0 \<longleftrightarrow> map (lower \<circ> uint) xs = map (lower \<circ> uint) ys)"
  using assms
proof (induction m p xs arbitrary: q ys rule: cstr.induct)
  case (1 m p)
  then show ?case by (cases ys) (auto simp: rt_strcasecmp.simps lower_zero uint_0_iff)
next
  case (2 m p x xs)
  then show ?case by (cases ys) (auto simp: rt_strcasecmp.simps Let_def lower_zero uint_0_iff)
qed

text \<open>\<^verbatim>\<open>rt_strnlen\<close> of a string without a 0 in its first \<open>maxlen\<close> bytes has read the byte behind them.\<close>

lemma strnlen_reads_beyond:
  assumes "\<forall>i < unat maxlen. m (s + of_nat i) \<noteq> 0"
  shows "rt_strnlen s maxlen m = Some (maxlen, s + maxlen)"
proof -
  have "strnlen_loop (s + of_nat k) s maxlen m = Some (s + maxlen)" if "k \<le> unat maxlen" for k
    using that
  proof (induction "unat maxlen - k" arbitrary: k)
    case 0
    then have "k = unat maxlen" by simp
    then show ?case by (subst strnlen_loop.simps) simp
  next
    case (Suc j)
    then have "k < unat maxlen" "j = unat maxlen - Suc k" by simp_all
    moreover have "unat (of_nat k :: u64) = k"
      using \<open>k < unat maxlen\<close> unsigned_less [of maxlen, where ?'a = nat] by (simp add: unat_of_nat)
    ultimately show ?case
      using Suc.hyps(1) [of "Suc k"] assms by (subst strnlen_loop.simps) (simp add: word_less_nat_alt ac_simps)
  qed
  from this [of 0] show ?thesis by (simp add: rt_strnlen_def)
qed

text \<open>\<^verbatim>\<open>rt_strdup\<close> makes a copy of the string in the block it is given.\<close>

lemma strdup_copies:
  assumes "cstr m s xs" and "unat s + length xs + 1 \<le> unat tmp \<or> unat tmp + length xs + 1 \<le> unat s"
    and "unat s + length xs + 1 \<le> 2 ^ 64" and "unat tmp + length xs + 1 \<le> 2 ^ 64" and "length xs + 1 < 2 ^ 64" and "tmp \<noteq> 0"
  shows "\<exists>m'. rt_strdup s (\<lambda>_. tmp) m = Some (tmp, m') \<and> cstr m' tmp xs"
proof -
  let ?n = "length xs + 1" and ?m' = "copied tmp s (length xs + 1) m m"
  have u: "unat (of_nat (length xs) + 1 :: u64) = ?n" using assms(5) by (simp add: unat_word_ariths unat_of_nat)
  have "reads_ahead tmp s ?n"
    using assms(2) reads_ahead_above [of s ?n tmp] reads_ahead_below [of tmp s ?n] assms(3,4) by (auto simp: word_le_nat_alt)
  then have "rt_strdup s (\<lambda>_. tmp) m = Some (tmp, ?m')"
    using assms(6) memcpy_copied [of tmp s "of_nat (length xs) + 1" m] u by (simp add: rt_strdup_def strlen_cstr [OF assms(1)])
  moreover have "cstr ?m' (tmp + of_nat i) (drop i xs)" if "i \<le> length xs" for i
    using that
  proof (induction "length xs - i" arbitrary: i)
    case 0
    then have "i = length xs" by simp
    then show ?case using cstr_end [OF assms(1)] assms(5) by (simp add: copied_def unat_of_nat)
  next
    case (Suc j)
    then have i: "i < length xs" "j = length xs - Suc i" by simp_all
    have "?m' (tmp + of_nat i) = xs ! i" using cstr_nth [OF assms(1) i(1)] assms(5) i(1) by (simp add: copied_def unat_of_nat)
    then show ?case
      using Suc.hyps(1) [OF i(2)] i(1) cstr_nth [OF assms(1) i(1)] by (simp add: Cons_nth_drop_Suc [symmetric] ac_simps)
  qed
  ultimately show ?thesis using \<open>\<And>i. i \<le> length xs \<Longrightarrow> cstr ?m' (tmp + of_nat i) (drop i xs)\<close> [of 0] by auto
qed

section \<open>Properties\<close>

text \<open>\<^verbatim>\<open>rt_strstr\<close> returns, and its result is the address of the first occurrence of the second string in the first; it is \<^verbatim>\<open>NULL\<close> exactly when there is
  none, and the start when the second string is empty.\<close>

theorem strstr_finds_first:
  assumes "cstr m s1 xs" and "cstr m s2 ys" and "length xs < 2 ^ 31" and "length ys < 2 ^ 31" and "s1 \<noteq> 0" and "unat s1 + length xs < 2 ^ 64"
  shows "(\<exists>i. rt_strstr s1 s2 m = Some (s1 + of_nat i) \<and> s1 + of_nat i \<noteq> 0 \<and> occurs_at ys xs i \<and> (\<forall>j < i. \<not> occurs_at ys xs j)) \<or>
    rt_strstr s1 s2 m = Some 0 \<and> (\<forall>j. \<not> occurs_at ys xs j)"
proof (cases "ys = []")
  case True
  then show ?thesis
    using assms(2,5) by (intro disjI1 exI [of _ 0]) (simp add: rt_strstr_def strlen_cstr [OF assms(2)] occurs_at_def)
next
  case False
  have r: "rt_strstr s1 s2 m = Some (strstr_loop (int (length xs)) (int (length ys)) s1 s2 m)"
    using False sint_length [OF assms(3)] sint_length [OF assms(4)]
    by (simp add: rt_strstr_def strlen_cstr [OF assms(1)] strlen_cstr [OF assms(2)])
  have "s1 + of_nat i \<noteq> 0" if "occurs_at ys xs i" for i
  proof -
    have "unat (of_nat i :: u64) = i" "unat s1 + i < 2 ^ 64" using that assms(6) by (simp_all add: occurs_at_def unat_of_nat)
    then have "unat (s1 + of_nat i) = unat s1 + i" by (simp add: unat_word_ariths)
    then show ?thesis using assms(5) by (metis add_is_0 unat_0 unat_eq_zero)
  qed
  then show ?thesis using strstr_loop_finds [OF assms(1,2,4)] unfolding r by auto
qed

definition demo_text :: bytes where
  "demo_text = (\<lambda>x. if x < 0x1005 then 0x61 + ucast (x AND 1) else if x = 0x2000 then 0x62 else if x = 0x2001 then 0x61 else 0)"

theorem strstr_finds_first_witness: "rt_strstr 0x1000 0x2000 demo_text = Some 0x1001"
proof -
  have "cstr demo_text 0x1000 [0x61, 0x62, 0x61, 0x62, 0x61]" "cstr demo_text 0x2000 [0x62, 0x61]" by (simp_all add: demo_text_def)
  note r = strstr_finds_first [OF this]
  let ?o = "occurs_at [0x62, 0x61 :: u8] [0x61, 0x62, 0x61, 0x62, 0x61]"
  have o: "?o 1" "\<not> ?o 0" by (simp_all add: occurs_at_def)
  then obtain i where i: "rt_strstr 0x1000 0x2000 demo_text = Some (0x1000 + of_nat i)" "?o i" "\<forall>j < i. \<not> ?o j" using r by auto
  have "i \<noteq> 0" using i(2) o(2) by metis
  moreover have "\<not> 1 < i" using i(3) o(1) by blast
  ultimately have "i = 1" by simp
  then show ?thesis using i(1) by simp
qed

end
