(* ===== verification/Rt_Printf.thy ===== *)
theory Rt_Printf
  imports Rt_String
begin

text \<open>
  The formatted output of \<^verbatim>\<open>src/kservice.c\<close>: \<^verbatim>\<open>print_number\<close>, \<^verbatim>\<open>rt_vsnprintf\<close> and the calls around it, in the configuration of this repository
  (\<^verbatim>\<open>RT_KPRINTF_USING_LONGLONG\<close> and \<^verbatim>\<open>RT_PRINTF_PRECISION\<close> set, \<^verbatim>\<open>RT_PRINTF_SPECIAL\<close> not). The buffer is a part of a memory of characters; the format and the strings
  printed are lists of characters that end where the C string has its 0. The variable arguments are a list: an integer or a pointer fills a 64-bit
  slot, of which \<^verbatim>\<open>va_arg(args, int)\<close> reads the lower half; taking an argument of the wrong kind, or one too many, is the value None.
\<close>

type_synonym chars = "u64 \<Rightarrow> char"
type_synonym cursor = "u64 \<times> chars"

datatype varg = Word_arg u64 | Str_arg "string option"

section \<open>Operations\<close>

abbreviation (input) ZEROPAD :: u8 where "ZEROPAD \<equiv> 0x01"
abbreviation (input) SIGN :: u8 where "SIGN \<equiv> 0x02"
abbreviation (input) PLUS :: u8 where "PLUS \<equiv> 0x04"
abbreviation (input) SPACE :: u8 where "SPACE \<equiv> 0x08"
abbreviation (input) LEFT :: u8 where "LEFT \<equiv> 0x10"
abbreviation (input) SPECIAL :: u8 where "SPECIAL \<equiv> 0x20"
abbreviation (input) LARGE :: u8 where "LARGE \<equiv> 0x40"

text \<open>\<^verbatim>\<open>if (str < end) *str = c; ++ str;\<close>\<close>

definition emit :: "u64 \<Rightarrow> char \<Rightarrow> cursor \<Rightarrow> cursor" where
  "emit e c = (\<lambda>(str, m). (str + 1, if str < e then m(str := c) else m))"

fun emits :: "u64 \<Rightarrow> string \<Rightarrow> cursor \<Rightarrow> cursor" where
  "emits e [] st = st"
| "emits e (c # cs) st = emits e cs (emit e c st)"

text \<open>\<^verbatim>\<open>while (size-- > 0)\<close> around the output of one character: the count that is left behind, and the output.\<close>

definition pad :: "u64 \<Rightarrow> char \<Rightarrow> int \<times> cursor \<Rightarrow> int \<times> cursor" where
  "pad e c = (\<lambda>(sz, st). (if sz > 0 then - 1 else sz - 1, emits e (replicate (nat sz) c) st))"

definition divide :: "u64 \<Rightarrow> nat \<Rightarrow> nat \<times> u64" where
  "divide n base = (if base = 10 then (unat (n mod 10), n div 10) else (unat (n mod 16), n div 16))"

definition small_digits :: string where "small_digits = ''0123456789abcdef''"
definition large_digits :: string where "large_digits = ''0123456789ABCDEF''"

text \<open>The digits of a number other than 0 as they are put into \<^verbatim>\<open>tmp\<close>, lowest first.\<close>

function digit_loop :: "string \<Rightarrow> nat \<Rightarrow> u64 \<Rightarrow> string" where
  "digit_loop digits base num =
     (if num \<noteq> 0 then (let (r, n) = divide num base in digits ! r # digit_loop digits base n) else [])"
  by pat_completeness auto
termination
  by (relation "measure (\<lambda>(_, _, num). unat num)") (auto simp: divide_def unat_div unat_gt_0 split: if_splits)

declare digit_loop.simps [simp del]

text \<open>\<^verbatim>\<open>print_number\<close>: the sign is 0 or a character. The \<^verbatim>\<open>int\<close> variables are unbounded here; a width and a precision are 32-bit numbers, so that
  they could only wrap when the precision is \<^verbatim>\<open>INT_MAX\<close>.\<close>

definition print_sign :: "u8 \<Rightarrow> u64 \<Rightarrow> char option \<times> u64" where
  "print_sign ty num =
     (if ty AND SIGN \<noteq> 0 then
        (if sint num < 0 then (Some CHR ''-'', - num)
         else if ty AND PLUS \<noteq> 0 then (Some CHR ''+'', num)
         else if ty AND SPACE \<noteq> 0 then (Some CHR '' '', num) else (None, num))
      else (None, num))"

definition print_number :: "u64 \<Rightarrow> u64 \<Rightarrow> nat \<Rightarrow> int \<Rightarrow> int \<Rightarrow> u8 \<Rightarrow> cursor \<Rightarrow> cursor" where
  "print_number e num base s precision ty st =
     (let digits = (if ty AND LARGE \<noteq> 0 then large_digits else small_digits);
          ty = (if ty AND LEFT \<noteq> 0 then ty AND NOT ZEROPAD else ty);
          c = (if ty AND ZEROPAD \<noteq> 0 then CHR ''0'' else CHR '' '');
          (sign, num) = print_sign ty num;
          tmp = (if num = 0 then ''0'' else digit_loop digits base num);
          i = int (length tmp);
          prec = (if i > precision then i else precision);
          sz = s - prec;
          (sz, st) = (if ty AND (ZEROPAD OR LEFT) = 0
            then pad e CHR '' '' (if sign \<noteq> None \<and> sz > 0 then sz - 1 else sz, st) else (sz, st));
          (sz, st) = (case sign of Some g \<Rightarrow> (sz - 1, emit e g st) | None \<Rightarrow> (sz, st));
          (sz, st) = (if ty AND LEFT = 0 then pad e c (sz, st) else (sz, st));
          st = emits e (replicate (nat (prec - i)) CHR ''0'') st;
          st = (if precision \<noteq> 0 then emits e (rev tmp) st else st)
      in snd (pad e CHR '' '' (sz, st)))"

subsection \<open>Directives\<close>

definition digit_val :: "char \<Rightarrow> int" where
  "digit_val c = of_char c - of_char CHR ''0''"

definition is_digit :: "char \<Rightarrow> bool" where
  "is_digit c = (0 \<le> digit_val c \<and> digit_val c < 10)"

definition int32 :: "int \<Rightarrow> int" where
  "int32 x = sint (word_of_int x :: u32)"

fun skip_atoi :: "string \<Rightarrow> int \<Rightarrow> int \<times> string" where
  "skip_atoi (c # s) i = (if is_digit c then skip_atoi s (int32 (i * 10 + digit_val c)) else (i, c # s))"
| "skip_atoi [] i = (i, [])"

fun parse_flags :: "string \<Rightarrow> u8 \<Rightarrow> u8 \<times> string" where
  "parse_flags (c # fmt) flags =
     (if c = CHR ''-'' then parse_flags fmt (flags OR LEFT)
      else if c = CHR ''+'' then parse_flags fmt (flags OR PLUS)
      else if c = CHR '' '' then parse_flags fmt (flags OR SPACE)
      else if c = CHR ''#'' then parse_flags fmt (flags OR SPECIAL)
      else if c = CHR ''0'' then parse_flags fmt (flags OR ZEROPAD)
      else (flags, c # fmt))"
| "parse_flags [] flags = (flags, [])"

text \<open>The character a pointer into the format reads.\<close>

definition peek :: "string \<Rightarrow> char" where
  "peek fmt = (case fmt of [] \<Rightarrow> CHR 0x00 | c # _ \<Rightarrow> c)"

fun va_int :: "varg list \<Rightarrow> (u32 \<times> varg list) option" where
  "va_int (Word_arg w # args) = Some (ucast w, args)"
| "va_int _ = None"

fun va_long :: "varg list \<Rightarrow> (u64 \<times> varg list) option" where
  "va_long (Word_arg w # args) = Some (w, args)"
| "va_long _ = None"

fun va_str :: "varg list \<Rightarrow> (string option \<times> varg list) option" where
  "va_str (Str_arg s # args) = Some (s, args)"
| "va_str _ = None"

definition parse_width :: "string \<Rightarrow> varg list \<Rightarrow> u8 \<Rightarrow> (int \<times> u8 \<times> string \<times> varg list) option" where
  "parse_width fmt args flags =
     (if is_digit (peek fmt) then (let (w, fmt) = skip_atoi fmt 0 in Some (w, flags, fmt, args))
      else if peek fmt = CHR ''*'' then do {
        (w, args) \<leftarrow> va_int args;
        Some (if sint w < 0 then (int32 (- sint w), flags OR LEFT, tl fmt, args) else (sint w, flags, tl fmt, args))
      }
      else Some (- 1, flags, fmt, args))"

definition parse_precision :: "string \<Rightarrow> varg list \<Rightarrow> (int \<times> string \<times> varg list) option" where
  "parse_precision fmt args =
     (if peek fmt = CHR ''.'' then do {
        (p, fmt, args) \<leftarrow> (if is_digit (peek (tl fmt)) then (let (p, fmt) = skip_atoi (tl fmt) 0 in Some (p, fmt, args))
          else if peek (tl fmt) = CHR ''*'' then do {
            (p, args) \<leftarrow> va_int args;
            Some (sint p, tl (tl fmt), args)
          }
          else Some (- 1, tl fmt, args));
        Some (if p < 0 then 0 else p, fmt, args)
      }
      else Some (- 1, fmt, args))"

definition parse_qualifier :: "string \<Rightarrow> char \<times> string" where
  "parse_qualifier fmt =
     (if peek fmt \<in> {CHR ''h'', CHR ''l'', CHR ''L''}
      then (if peek fmt = CHR ''l'' \<and> peek (tl fmt) = CHR ''l'' then (CHR ''L'', tl (tl fmt)) else (peek fmt, tl fmt))
      else (CHR 0x00, fmt))"

definition print_char :: "u64 \<Rightarrow> int \<Rightarrow> u8 \<Rightarrow> u32 \<Rightarrow> cursor \<Rightarrow> cursor" where
  "print_char e width flags w st =
     (let (width, st) = (if flags AND LEFT = 0
            then (if width - 1 > 0 then 0 else width - 1, emits e (replicate (nat (width - 1)) CHR '' '') st) else (width, st));
          st = emit e (char_of (unat (ucast w :: u8))) st
      in emits e (replicate (nat (width - 1)) CHR '' '') st)"

text \<open>The length loop of \<^verbatim>\<open>%s\<close> stops at the field width as well as at the end of the string.\<close>

fun str_len :: "string \<Rightarrow> int \<Rightarrow> int \<Rightarrow> int" where
  "str_len (c # s) width len = (if len \<noteq> width \<and> c \<noteq> CHR 0x00 then str_len s width (len + 1) else len)"
| "str_len [] width len = len"

definition print_str :: "u64 \<Rightarrow> int \<Rightarrow> int \<Rightarrow> u8 \<Rightarrow> string option \<Rightarrow> cursor \<Rightarrow> cursor" where
  "print_str e width precision flags arg st =
     (let s = (case arg of None \<Rightarrow> ''(NULL)'' | Some s \<Rightarrow> s);
          len = str_len s width 0;
          len = (if precision > 0 \<and> len > precision then precision else len);
          (width, st) = (if flags AND LEFT = 0
            then (if len < width then len - 1 else width - 1, emits e (replicate (nat (width - len)) CHR '' '') st) else (width, st));
          st = emits e (take (nat len) s) st
      in emits e (replicate (nat (width - len)) CHR '' '') st)"

text \<open>The integer conversions: what the qualifier leaves of the argument.\<close>

definition fetch_number :: "char \<Rightarrow> u8 \<Rightarrow> varg list \<Rightarrow> (u64 \<times> varg list) option" where
  "fetch_number q flags args =
     (if q = CHR ''L'' then va_long args
      else if q = CHR ''h'' then do {
        (w, args) \<leftarrow> va_int args;
        Some (if flags AND SIGN \<noteq> 0 then (scast (ucast w :: u16), args) else (ucast (ucast w :: u16), args))
      }
      else do {
        (w, args) \<leftarrow> va_int args;
        Some (if flags AND SIGN \<noteq> 0 then (scast w, args) else (ucast w, args))
      })"

definition parse_spec :: "string \<Rightarrow> varg list \<Rightarrow> (u8 \<times> int \<times> int \<times> char \<times> string \<times> varg list) option" where
  "parse_spec fmt args = do {
     let (flags, fmt) = parse_flags fmt 0;
     (width, flags, fmt, args) \<leftarrow> parse_width fmt args flags;
     (precision, fmt, args) \<leftarrow> parse_precision fmt args;
     let (q, fmt) = parse_qualifier fmt;
     Some (flags, width, precision, q, fmt, args)
   }"

definition directive :: "u64 \<Rightarrow> string \<Rightarrow> varg list \<Rightarrow> cursor \<Rightarrow> (string \<times> varg list \<times> cursor) option" where
  "directive e fmt args st = do {
     (flags, width, precision, q, fmt, args) \<leftarrow> parse_spec fmt args;
     let c = peek fmt;
     if c = CHR ''c'' then do {
       (w, args) \<leftarrow> va_int args;
       Some (tl fmt, args, print_char e width flags w st)
     }
     else if c = CHR ''s'' then do {
       (s, args) \<leftarrow> va_str args;
       Some (tl fmt, args, print_str e width precision flags s st)
     }
     else if c = CHR ''p'' then do {
       (w, args) \<leftarrow> va_long args;
       let (width, flags) = (if width = - 1 then (16, flags OR ZEROPAD) else (width, flags));
       Some (tl fmt, args, print_number e w 16 width precision flags st)
     }
     else if c = CHR ''%'' then Some (tl fmt, args, emit e CHR ''%'' st)
     else if c \<in> {CHR ''o'', CHR ''X'', CHR ''x'', CHR ''d'', CHR ''i'', CHR ''u''} then do {
       let base = (if c = CHR ''o'' then 8 else if c = CHR ''X'' \<or> c = CHR ''x'' then 16 else 10);
       let flags = (if c = CHR ''X'' then flags OR LARGE else if c = CHR ''d'' \<or> c = CHR ''i'' then flags OR SIGN else flags);
       (num, args) \<leftarrow> fetch_number q flags args;
       Some (tl fmt, args, print_number e num base width precision flags st)
     }
     else if c \<noteq> CHR 0x00 then Some (tl fmt, args, emit e c (emit e CHR ''%'' st))
     else Some (fmt, args, emit e CHR ''%'' st)
   }"

partial_function (option) vsn_loop :: "u64 \<Rightarrow> string \<Rightarrow> varg list \<Rightarrow> cursor \<Rightarrow> cursor option" where
  "vsn_loop e fmt args st =
     (if peek fmt = CHR 0x00 then Some st
      else if peek fmt \<noteq> CHR ''%'' then vsn_loop e (tl fmt) args (emit e (peek fmt) st)
      else Option.bind (directive e (tl fmt) args st) (\<lambda>(fmt, args, st). vsn_loop e fmt args st))"

declare vsn_loop.simps [code]

definition rt_vsnprintf :: "u64 \<Rightarrow> u64 \<Rightarrow> string \<Rightarrow> varg list \<Rightarrow> chars \<Rightarrow> (int \<times> chars) option" where
  "rt_vsnprintf buf sz fmt args m = do {
     let (e, sz) = (if buf + sz < buf then (- 1, - 1 - buf) else (buf + sz, sz));
     (str, m) \<leftarrow> vsn_loop e fmt args (buf, m);
     let m = (if sz > 0 then (if str < e then m(str := CHR 0x00) else m(e - 1 := CHR 0x00)) else m);
     Some (sint (ucast (str - buf) :: u32), m)
   }"

definition rt_snprintf :: "u64 \<Rightarrow> u64 \<Rightarrow> string \<Rightarrow> varg list \<Rightarrow> chars \<Rightarrow> (int \<times> chars) option" where
  "rt_snprintf buf sz fmt args m = rt_vsnprintf buf sz fmt args m"

definition rt_vsprintf :: "u64 \<Rightarrow> string \<Rightarrow> varg list \<Rightarrow> chars \<Rightarrow> (int \<times> chars) option" where
  "rt_vsprintf buf format args m = rt_vsnprintf buf (- 1) format args m"

definition rt_sprintf :: "u64 \<Rightarrow> string \<Rightarrow> varg list \<Rightarrow> chars \<Rightarrow> (int \<times> chars) option" where
  "rt_sprintf buf format args m = rt_vsprintf buf format args m"

section \<open>The text of a directive\<close>

text \<open>What a directive prints, as a string: the reference that the code, which moves a pointer through the buffer, is compared with.\<close>

abbreviation spaces :: "int \<Rightarrow> string" where
  "spaces n \<equiv> replicate (nat n) CHR '' ''"

definition number_text :: "u64 \<Rightarrow> nat \<Rightarrow> int \<Rightarrow> int \<Rightarrow> u8 \<Rightarrow> string" where
  "number_text num base width precision flags =
     (let (sign, num) = print_sign flags num;
          sgn = (case sign of None \<Rightarrow> [] | Some g \<Rightarrow> [g]);
          ds = (if num = 0 then ''0'' else rev (digit_loop (if flags AND LARGE \<noteq> 0 then large_digits else small_digits) base num));
          prec = max (int (length ds)) precision;
          gap = width - prec - int (length sgn);
          body = replicate (nat (prec - int (length ds))) CHR ''0'' @ (if precision \<noteq> 0 then ds else [])
      in if flags AND LEFT \<noteq> 0 then sgn @ body @ spaces gap
         else if flags AND ZEROPAD \<noteq> 0 then sgn @ replicate (nat gap) CHR ''0'' @ body
         else spaces gap @ sgn @ body)"

definition char_text :: "int \<Rightarrow> u8 \<Rightarrow> u32 \<Rightarrow> string" where
  "char_text width flags w =
     (let c = [char_of (unat (ucast w :: u8))]
      in if flags AND LEFT \<noteq> 0 then c @ spaces (width - 1) else spaces (width - 1) @ c)"

definition str_text :: "int \<Rightarrow> int \<Rightarrow> u8 \<Rightarrow> string option \<Rightarrow> string" where
  "str_text width precision flags arg =
     (let s = (case arg of None \<Rightarrow> ''(NULL)'' | Some s \<Rightarrow> s);
          len = (let l = str_len s width 0 in if precision > 0 then min l precision else l);
          t = take (nat len) s
      in if flags AND LEFT \<noteq> 0 then t @ spaces (width - len) else spaces (width - len) @ t)"

lemma emits_append: "emits e (xs @ ys) st = emits e ys (emits e xs st)"
  by (induction e xs st rule: emits.induct) auto

lemma emit_emits: "emit e c st = emits e [c] st"
  by simp

lemma left_clears:
  "(if ty AND LEFT \<noteq> 0 then ty AND NOT ZEROPAD else ty) AND LEFT = ty AND LEFT"
  "(if ty AND LEFT \<noteq> 0 then ty AND NOT ZEROPAD else ty) AND ZEROPAD = (if ty AND LEFT \<noteq> 0 then 0 else ty AND ZEROPAD)"
  "print_sign (if ty AND LEFT \<noteq> 0 then ty AND NOT ZEROPAD else ty) num = print_sign ty num"
  for ty :: u8
proof -
  have m: "(NOT ZEROPAD :: u8) AND LEFT = LEFT" "(NOT ZEROPAD :: u8) AND ZEROPAD = 0" "(NOT ZEROPAD :: u8) AND SIGN = SIGN"
    "(NOT ZEROPAD :: u8) AND PLUS = PLUS" "(NOT ZEROPAD :: u8) AND SPACE = SPACE" by simp_all
  show "(if ty AND LEFT \<noteq> 0 then ty AND NOT ZEROPAD else ty) AND LEFT = ty AND LEFT"
    "(if ty AND LEFT \<noteq> 0 then ty AND NOT ZEROPAD else ty) AND ZEROPAD = (if ty AND LEFT \<noteq> 0 then 0 else ty AND ZEROPAD)"
    "print_sign (if ty AND LEFT \<noteq> 0 then ty AND NOT ZEROPAD else ty) num = print_sign ty num"
    unfolding print_sign_def by (auto simp only: and.assoc m bit.conj_zero_right split: if_splits)
qed

lemma print_char_text: "print_char e width flags w st = emits e (char_text width flags w) st"
  by (auto simp: print_char_def char_text_def Let_def emits_append)

lemma str_len_ge: "len \<le> str_len s width len"
  by (induction s width len rule: str_len.induct) auto

lemma print_str_text: "print_str e width precision flags arg st = emits e (str_text width precision flags arg) st"
  by (auto simp: print_str_def str_text_def Let_def emits_append min_def split: if_splits)

lemma and_or_zero: "(x AND (a OR b) = 0) = (x AND a = 0 \<and> x AND b = (0 :: u8))"
  by (simp add: bit.conj_disj_distrib or_eq_0_iff)

lemma print_number_text: "print_number e num base width precision ty st = emits e (number_text num base width precision ty) st"
proof -
  define z l where "z = (ty AND LEFT = 0 \<and> ty AND ZEROPAD \<noteq> 0)" and "l = (ty AND LEFT \<noteq> 0)"
  obtain sign n where sg: "print_sign ty num = (sign, n)" by fastforce
  define tmp where "tmp = (if n = 0 then ''0'' else digit_loop (if ty AND LARGE \<noteq> 0 then large_digits else small_digits) base n)"
  define prec where "prec = max (int (length tmp)) precision"
  let ?ty = "if ty AND LEFT \<noteq> 0 then ty AND NOT ZEROPAD else ty"
  have f: "(?ty AND (ZEROPAD OR LEFT) = 0) = (\<not> z \<and> \<not> l)" "(?ty AND LEFT = 0) = (\<not> l)" "(?ty AND ZEROPAD \<noteq> 0) = z"
    unfolding and_or_zero left_clears z_def l_def by auto
  have t: "number_text num base width precision ty =
      (let sgn = (case sign of None \<Rightarrow> [] | Some g \<Rightarrow> [g]); gap = width - prec - int (length sgn);
           body = replicate (nat (prec - int (length tmp))) CHR ''0'' @ (if precision \<noteq> 0 then rev tmp else [])
       in if l then sgn @ body @ spaces gap else if z then sgn @ replicate (nat gap) CHR ''0'' @ body else spaces gap @ sgn @ body)"
    unfolding number_text_def sg by (simp add: Let_def tmp_def prec_def l_def z_def)
  have p: "(if int (length tmp) > precision then int (length tmp) else precision) = prec" by (simp add: prec_def max_def)
  show ?thesis
    unfolding print_number_def left_clears(3) sg Let_def f tmp_def [symmetric] p case_prod_conv t
    by (cases sign; cases l; cases z) (auto simp: pad_def emits_append)
qed

definition directive_text :: "string \<Rightarrow> varg list \<Rightarrow> (string \<times> varg list \<times> string) option" where
  "directive_text fmt args = do {
     (flags, width, precision, q, fmt, args) \<leftarrow> parse_spec fmt args;
     let c = peek fmt;
     if c = CHR ''c'' then map_option (\<lambda>(w, args). (tl fmt, args, char_text width flags w)) (va_int args)
     else if c = CHR ''s'' then map_option (\<lambda>(s, args). (tl fmt, args, str_text width precision flags s)) (va_str args)
     else if c = CHR ''p'' then map_option (\<lambda>(w, args). (tl fmt, args,
         if width = - 1 then number_text w 16 16 precision (flags OR ZEROPAD) else number_text w 16 width precision flags)) (va_long args)
     else if c = CHR ''%'' then Some (tl fmt, args, [CHR ''%''])
     else if c \<in> {CHR ''o'', CHR ''X'', CHR ''x'', CHR ''d'', CHR ''i'', CHR ''u''} then do {
       let base = (if c = CHR ''o'' then 8 else if c = CHR ''X'' \<or> c = CHR ''x'' then 16 else 10);
       let flags = (if c = CHR ''X'' then flags OR LARGE else if c = CHR ''d'' \<or> c = CHR ''i'' then flags OR SIGN else flags);
       map_option (\<lambda>(num, args). (tl fmt, args, number_text num base width precision flags)) (fetch_number q flags args)
     }
     else if c \<noteq> CHR 0x00 then Some (tl fmt, args, [CHR ''%'', c])
     else Some (fmt, args, [CHR ''%''])
   }"

lemma bind_pair: "x \<bind> (\<lambda>y. Some (g y)) = map_option g x"
  by (cases x) auto

lemma directive_emits: "directive e fmt args st = map_option (\<lambda>(fmt, args, t). (fmt, args, emits e t st)) (directive_text fmt args)"
proof (cases "parse_spec fmt args")
  case (Some r)
  obtain flags width precision q f as where r: "r = (flags, width, precision, q, f, as)" by (cases r)
  show ?thesis
    unfolding directive_def directive_text_def Some r Let_def
    by (simp add: print_char_text print_str_text print_number_text bind_pair case_prod_unfold option.map_comp comp_def
        cong: if_cong)
qed (simp add: directive_def directive_text_def)

text \<open>The parts of a directive are taken from the front of the format.\<close>

lemma skip_atoi_length: "length (snd (skip_atoi s i)) \<le> length s"
  by (induction s i rule: skip_atoi.induct) (auto simp: le_SucI)

lemma parse_flags_length: "length (snd (parse_flags s f)) \<le> length s"
  by (induction s f rule: parse_flags.induct) (auto simp: le_SucI)

lemma parse_spec_length:
  assumes "parse_spec fmt args = Some (flags, width, precision, q, f, as)"
  shows "length f \<le> length fmt"
proof -
  obtain f0 s0 where 0: "parse_flags fmt 0 = (f0, s0)" by fastforce
  obtain w f1 s1 a1 where 1: "parse_width s0 args f0 = Some (w, f1, s1, a1)" using assms 0 by (auto simp: parse_spec_def bind_Some_ex)
  obtain p s2 a2 where 2: "parse_precision s1 a1 = Some (p, s2, a2)" using assms 0 1 by (auto simp: parse_spec_def bind_Some_ex)
  have "length s0 \<le> length fmt" using parse_flags_length [of fmt 0] 0 by simp
  moreover have "length s1 \<le> length s0"
    using 1 skip_atoi_length [of s0 0] by (auto simp: parse_width_def bind_Some_ex split: if_splits prod.splits)
  moreover have "length s2 \<le> length s1"
    using 2 skip_atoi_length [of "tl s1" 0] by (auto simp: parse_precision_def bind_Some_ex split: if_splits prod.splits)
  moreover have "length f \<le> length s2"
    using assms 0 1 2 by (auto simp: parse_spec_def parse_qualifier_def bind_Some_ex split: if_splits)
  ultimately show ?thesis by simp
qed

lemma directive_text_length: "directive_text fmt args = Some (f, as, t) \<Longrightarrow> length f \<le> length fmt"
proof -
  assume d: "directive_text fmt args = Some (f, as, t)"
  then obtain flags width precision q f' as' where p: "parse_spec fmt args = Some (flags, width, precision, q, f', as')"
    by (auto simp: directive_text_def bind_Some_ex)
  have "f = tl f' \<or> f = f'" using d unfolding directive_text_def p Let_def by (auto split: if_splits)
  then show ?thesis using parse_spec_length [OF p] by auto
qed

function printf_text :: "string \<Rightarrow> varg list \<Rightarrow> string option" where
  "printf_text fmt args =
     (if peek fmt = CHR 0x00 then Some []
      else if peek fmt \<noteq> CHR ''%'' then map_option ((#) (peek fmt)) (printf_text (tl fmt) args)
      else (case directive_text (tl fmt) args of None \<Rightarrow> None
            | Some (f, as, t) \<Rightarrow> map_option ((@) t) (printf_text f as)))"
  by pat_completeness auto
termination
proof (relation "measure (\<lambda>(fmt, _). length fmt)")
  show "((tl fmt, args), fmt, args) \<in> measure (\<lambda>(fmt, _). length fmt)" if "peek fmt \<noteq> CHR 0x00" for fmt and args :: "varg list"
    using that by (cases fmt) (auto simp: peek_def)
  show "((f, as), fmt, args) \<in> measure (\<lambda>(fmt, _). length fmt)"
    if "peek fmt \<noteq> CHR 0x00" "directive_text (tl fmt) args = Some x" "(f, y) = x" "(as, t) = y" for fmt args x y f as t
    using that directive_text_length [of "tl fmt" args f as t] by (cases fmt) (auto simp: peek_def)
qed simp

declare printf_text.simps [simp del]

lemma vsn_loop_emits: "vsn_loop e fmt args st = map_option (\<lambda>t. emits e t st) (printf_text fmt args)"
proof (induction fmt args arbitrary: st rule: printf_text.induct)
  case (1 fmt args)
  show ?case
  proof (cases "directive_text (tl fmt) args")
    case None
    then show ?thesis
      using 1 by (subst vsn_loop.simps, subst printf_text.simps) (simp add: directive_emits option.map_comp comp_def)
  next
    case (Some r)
    obtain f as t where r: "r = (f, as, t)" by (cases r)
    show ?thesis
      using 1 Some r by (subst vsn_loop.simps, subst printf_text.simps) (simp add: directive_emits option.map_comp comp_def emits_append)
  qed
qed

section \<open>The buffer\<close>

definition written :: "u64 \<Rightarrow> u64 \<Rightarrow> string \<Rightarrow> chars \<Rightarrow> chars" where
  "written e p t m = (\<lambda>x. if unat p \<le> unat x \<and> unat x < unat p + length t \<and> unat x < unat e then t ! (unat x - unat p) else m x)"

lemma emits_written:
  assumes "unat p + length t < 2 ^ 64"
  shows "emits e t (p, m) = (p + of_nat (length t), written e p t m)"
  using assms
proof (induction t arbitrary: p m)
  case (Cons c t)
  have p: "unat (p + 1) = unat p + 1" using Cons.prems by (simp add: unat_word_ariths)
  have "written e (p + 1) t (if p < e then m(p := c) else m) = written e p (c # t) m"
    by (rule ext) (auto simp: written_def p nth_Cons' word_less_nat_alt word_unat_eq_iff)
  moreover have "emits e (c # t) (p, m) = emits e t (p + 1, if p < e then m(p := c) else m)" by (simp add: emit_def)
  ultimately show ?case using Cons.IH [of "p + 1"] Cons.prems p by (simp add: add.assoc)
qed (auto simp: written_def fun_eq_iff)

text \<open>What is in the buffer in the end.\<close>

definition truncated :: "u64 \<Rightarrow> u64 \<Rightarrow> string \<Rightarrow> chars \<Rightarrow> chars" where
  "truncated buf sz t m = (\<lambda>x. let k = min (length t) (unat sz - 1); i = unat x - unat buf
     in if unat buf \<le> unat x \<and> i < k then t ! i else if unat buf \<le> unat x \<and> i = k \<and> sz > 0 then CHR 0x00 else m x)"

lemma written_truncated:
  assumes "unat buf + unat sz < 2 ^ 64" and "unat buf + length t < 2 ^ 64" and "sz > 0"
  defines "str \<equiv> buf + of_nat (length t)" and "e \<equiv> buf + sz"
  shows "(if str < e then (written e buf t m)(str := CHR 0x00) else (written e buf t m)(e - 1 := CHR 0x00)) = truncated buf sz t m"
proof -
  have e: "unat e = unat buf + unat sz" using assms(1) by (simp add: e_def unat_word_ariths)
  have str: "unat str = unat buf + length t" using assms(2) by (simp add: str_def unat_word_ariths unat_of_nat)
  have sz: "0 < unat sz" using assms(3) by (simp add: word_less_nat_alt)
  then have e1: "unat (e - 1) = unat buf + unat sz - 1" using e by (simp add: unat_sub_if_size)
  show ?thesis
    using e str e1 sz assms(3)
    by (auto simp: written_def truncated_def Let_def fun_eq_iff word_less_nat_alt word_unat_eq_iff min_def)
qed

section \<open>Numbers\<close>

text \<open>The decimal notation of a number.\<close>

fun decimal :: "nat \<Rightarrow> string" where
  "decimal n = (if n < 10 then [small_digits ! n] else decimal (n div 10) @ [small_digits ! (n mod 10)])"

declare decimal.simps [simp del]

lemma digit_loop_decimal: "num \<noteq> 0 \<Longrightarrow> rev (digit_loop small_digits 10 num) = decimal (unat num)"
proof (induction small_digits "10 :: nat" num rule: digit_loop.induct)
  case (1 num)
  let ?n = "num div 10"
  have d: "divide num 10 = (unat num mod 10, ?n)" by (simp add: divide_def unat_mod)
  have l: "digit_loop small_digits 10 num = small_digits ! (unat num mod 10) # digit_loop small_digits 10 ?n"
    using 1(2) d by (subst digit_loop.simps) simp
  have u: "unat ?n = unat num div 10" by (simp add: unat_div)
  show ?case
  proof (cases "?n = 0")
    case True
    then have "unat num < 10" using u by simp
    then show ?thesis using True l by (simp add: digit_loop.simps [of _ _ 0] decimal.simps [of "unat num"])
  next
    case False
    then have "\<not> unat num < 10" using u by (auto simp: unat_eq_zero [symmetric])
    then show ?thesis using False l 1(1) [OF 1(2) d [symmetric] refl] u by (simp add: decimal.simps [of "unat num"])
  qed
qed

text \<open>The digits fit into \<^verbatim>\<open>tmp\<close>, which has 32 places.\<close>

lemma digit_loop_length: "unat num < 10 ^ k \<Longrightarrow> length (digit_loop digits base num) \<le> k"
proof (induction k arbitrary: num)
  case (Suc k)
  obtain r n where d: "divide num base = (r, n)" by fastforce
  have "unat n \<le> unat num div 10" using d by (auto simp: divide_def unat_div div_le_mono2 split: if_splits)
  moreover have "unat num div 10 < 10 ^ k" using Suc.prems by (simp add: less_mult_imp_div_less mult.commute)
  ultimately have "length (digit_loop digits base n) \<le> k" by (intro Suc.IH) linarith
  then show ?case using d by (subst digit_loop.simps) simp
qed (simp add: digit_loop.simps unat_eq_zero)

lemma tmp_fits: "length (digit_loop digits base num) \<le> 20"
proof (rule digit_loop_length)
  have "unat num < 2 ^ 64" using unsigned_less [of num, where ?'a = nat] by simp
  then show "unat num < 10 ^ 20" by (rule order_less_trans) simp
qed

lemma int32_mod: "int32 (int32 x * 10 + y) = int32 (x * 10 + y)"
  by (simp add: int32_def)

lemma digit_chars:
  assumes "n < 10"
  shows "is_digit (small_digits ! n)" and "digit_val (small_digits ! n) = int n"
proof -
  have "n \<in> {0, 1, 2, 3, 4, 5, 6, 7, 8, 9}" using assms by auto
  then show "digit_val (small_digits ! n) = int n" by (auto simp: small_digits_def digit_val_def eval_nat_numeral)
  then show "is_digit (small_digits ! n)" using assms by (simp add: is_digit_def)
qed

lemma skip_atoi_decimal: "skip_atoi (decimal n @ rest) 0 = skip_atoi rest (int32 (int n))"
proof (induction n arbitrary: rest rule: decimal.induct)
  case (1 n)
  show ?case
  proof (cases "n < 10")
    case True
    then show ?thesis using digit_chars [OF True] by (simp add: decimal.simps [of n])
  next
    case False
    have "skip_atoi (decimal n @ rest) 0 = skip_atoi (small_digits ! (n mod 10) # rest) (int32 (int (n div 10)))"
      using False 1 [of "small_digits ! (n mod 10) # rest"] by (simp add: decimal.simps [of n])
    also have "\<dots> = skip_atoi rest (int32 (int (n div 10) * 10 + int (n mod 10)))"
      using digit_chars [of "n mod 10"] by (simp add: int32_mod)
    also have "int (n div 10) * 10 + int (n mod 10) = int n"
      by (metis div_mult_mod_eq of_nat_add of_nat_mult of_nat_numeral)
    finally show ?thesis .
  qed
qed

lemma sint_of_int:
  assumes "- (2 ^ 63) \<le> v" and "v < 2 ^ 63"
  shows "sint (word_of_int v :: u64) = v"
proof -
  have "sint (word_of_int v :: u64) = signed_take_bit 63 v" by transfer simp
  then show ?thesis using signed_take_bit_int_eq_self [OF assms] by simp
qed

lemma unat_of_pos: "0 \<le> v \<Longrightarrow> v < 2 ^ 64 \<Longrightarrow> unat (word_of_int v :: u64) = nat v"
  by (simp add: unat_eq_nat_uint uint_word_of_int)

lemma digits_text:
  "(if num = 0 then ''0'' else rev (digit_loop small_digits 10 num)) = decimal (unat num)"
  using digit_loop_decimal [of num] by (auto simp: decimal.simps [of 0] small_digits_def)

lemma number_text_signed:
  assumes "- (2 ^ 63) < v" and "v < 2 ^ 63"
  shows "number_text (word_of_int v) 10 (- 1) (- 1) SIGN = (if v < 0 then ''-'' else []) @ decimal (nat \<bar>v\<bar>)"
proof -
  have s: "sint (word_of_int v :: u64) = v" using assms by (intro sint_of_int) simp_all
  have n: "- word_of_int v = (word_of_int (- v) :: u64)" by simp
  define N :: u64 where "N = word_of_int (if v < 0 then - v else v)"
  have u: "unat N = nat \<bar>v\<bar>" using assms by (simp add: N_def unat_of_pos)
  have p: "print_sign SIGN (word_of_int v) = (if v < 0 then Some CHR ''-'' else None, N)"
    unfolding print_sign_def s n N_def by simp
  show ?thesis
    unfolding number_text_def p case_prod_conv using digits_text [of N, unfolded u]
    by (cases "v < 0"; cases "N = 0") (simp_all add: Let_def)
qed

lemma printf_d: "printf_text ''%d'' [Word_arg w] = Some (number_text (scast (ucast w :: u32)) 10 (- 1) (- 1) SIGN)"
  by (simp add: printf_text.simps directive_text_def parse_spec_def parse_width_def parse_precision_def parse_qualifier_def peek_def
      is_digit_def digit_val_def fetch_number_def Let_def)

text \<open>\<^verbatim>\<open>divide\<close> knows the bases 10 and 16 only.\<close>

lemma digit_loop_8: "digit_loop digits 8 num = digit_loop digits 16 num"
proof (induction digits "8 :: nat" num rule: digit_loop.induct)
  case (1 digits num)
  have "divide num 8 = divide num 16" by (simp add: divide_def)
  then show ?case using 1 by (subst (1 2) digit_loop.simps) (auto split: prod.splits)
qed

lemma number_text_8: "number_text num 8 width precision flags = number_text num 16 width precision flags"
  unfolding number_text_def digit_loop_8 by (rule refl)

text \<open>The qualifier \<^verbatim>\<open>l\<close> takes 32 bits of an argument that has 64.\<close>

lemma printf_ld: "printf_text ''%ld'' [Word_arg w] = printf_text ''%d'' [Word_arg w]"
  by (simp add: printf_text.simps directive_text_def parse_spec_def parse_width_def parse_precision_def parse_qualifier_def peek_def
      is_digit_def digit_val_def fetch_number_def Let_def)

text \<open>The field width of \<^verbatim>\<open>%s\<close> cuts the string off.\<close>

lemma str_len_width:
  assumes "CHR 0x00 \<notin> set s" and "len \<le> width"
  shows "str_len s width len = min width (len + int (length s))"
  using assms
proof (induction s width len rule: str_len.induct)
  case (1 c s width len)
  then show ?case by (cases "len = width") (auto simp: min_def)
qed auto

lemma str_text_cut:
  assumes "CHR 0x00 \<notin> set s" and "0 \<le> width" and "width \<le> int (length s)"
  shows "str_text width (- 1) flags (Some s) = take (nat width) s"
  using assms str_len_width [OF assms(1,2)] by (simp add: str_text_def Let_def)

section \<open>Properties\<close>




text \<open>\<^verbatim>\<open>%o\<close>, the octal conversion, prints every number in hexadecimal, because \<^verbatim>\<open>divide\<close> takes every base other than 10 for 16.\<close>

theorem octal_prints_hexadecimal: "printf_text ''%o'' [Word_arg w] = printf_text ''%x'' [Word_arg w]"
  by (simp add: printf_text.simps directive_text_def parse_spec_def parse_width_def parse_precision_def parse_qualifier_def peek_def
      is_digit_def digit_val_def fetch_number_def Let_def number_text_8)

end
