(* ===== verification/Rk_Mmio.thy ===== *)
theory Rk_Mmio
  imports Rt_Prelude
begin

text \<open>
  Memory-mapped registers of the RK3576, as the drivers under \<^verbatim>\<open>src/driver\<close> use them. The chip is outside the program: a record of functions
  says what a 32-bit read or write at an address does to the state \<open>'d\<close> of the hardware, what the hardware does while the calling thread sleeps or
  yields, and what \<^verbatim>\<open>rt_tick_get\<close> returns. The drivers take this record as an argument.

  The locale \<open>soc_config\<close> states what the reference manual says of the configuration registers (clocks, resets, pin functions, pin data): reading one has
  no effect on them, and most of them take a write mask in their upper half.
\<close>

section \<open>Register access\<close>

record 'd soc =
  hw_read :: "u64 \<Rightarrow> 'd \<Rightarrow> u32 \<times> 'd"      \<comment> \<open>\<^verbatim>\<open>HWREG32(a)\<close> as a value\<close>
  hw_write :: "u64 \<Rightarrow> u32 \<Rightarrow> 'd \<Rightarrow> 'd"     \<comment> \<open>\<^verbatim>\<open>HWREG32(a) = v\<close>\<close>
  hw_sleep :: "int \<Rightarrow> 'd \<Rightarrow> 'd"            \<comment> \<open>\<^verbatim>\<open>rt_thread_mdelay\<close>\<close>
  hw_yield :: "'d \<Rightarrow> 'd"                   \<comment> \<open>\<^verbatim>\<open>rt_thread_yield\<close>\<close>
  hw_tick :: "'d \<Rightarrow> u32"                   \<comment> \<open>\<^verbatim>\<open>rt_tick_get\<close>\<close>

text \<open>\<^verbatim>\<open>HIWORD_UPDATE\<close>, \<^verbatim>\<open>RK3576_HIWORD\<close> and \<^verbatim>\<open>GMAC_HIWORD_UPDATE\<close>: the value with its write mask in the upper half.\<close>

definition HIWORD_UPDATE :: "u32 \<Rightarrow> u32 \<Rightarrow> u32" where
  "HIWORD_UPDATE msk value = push_bit 16 (msk AND 0xffff) OR (value AND 0xffff)"

text \<open>\<^verbatim>\<open>RK3576_BIT(n)\<close> and \<^verbatim>\<open>GMAC_BIT(n)\<close>.\<close>

abbreviation (input) reg_bit :: "nat \<Rightarrow> u32" where "reg_bit n \<equiv> push_bit n 1"

text \<open>Base addresses of \<^verbatim>\<open>rk3576.h\<close>.\<close>

abbreviation (input) CRU_MMIO_BASE :: u64 where "CRU_MMIO_BASE \<equiv> 0x27200000"
abbreviation (input) CRU_MMIO_SIZE :: u64 where "CRU_MMIO_SIZE \<equiv> 0x50000"
abbreviation (input) IOC_GRF_MMIO_BASE :: u64 where "IOC_GRF_MMIO_BASE \<equiv> 0x26040000"
abbreviation (input) IOC_GRF_MMIO_SIZE :: u64 where "IOC_GRF_MMIO_SIZE \<equiv> 0x0000c000"

definition gpio_bases :: "u64 list" where
  "gpio_bases = [0x27320000, 0x2ae10000, 0x2ae20000, 0x2ae30000, 0x2ae40000]"

section \<open>Configuration registers\<close>

text \<open>The clock and reset unit, the pin multiplexer, and the data and direction registers of the GPIO banks. The three dividers of the fractional clocks
  (\<^verbatim>\<open>CLKSEL_CON\<close> 21, 23 and 25) are written as a whole, the others through their mask.\<close>

definition plain_reg :: "u64 \<Rightarrow> bool" where
  "plain_reg a = (a \<in> {0x27200354, 0x2720035c, 0x27200364})"

definition gpio_reg :: "u64 \<Rightarrow> bool" where
  "gpio_reg a = (\<exists>p \<in> set gpio_bases. a \<in> {p, p + 4, p + 8, p + 12})"

definition config_reg :: "u64 \<Rightarrow> bool" where
  "config_reg a = (CRU_MMIO_BASE \<le> a \<and> a < CRU_MMIO_BASE + CRU_MMIO_SIZE \<or>
     IOC_GRF_MMIO_BASE \<le> a \<and> a < IOC_GRF_MMIO_BASE + IOC_GRF_MMIO_SIZE \<or> gpio_reg a)"

text \<open>What a masked write leaves in the register: the bits whose mask bit is set are replaced.\<close>

definition hiword_merge :: "u32 \<Rightarrow> u32 \<Rightarrow> u32" where
  "hiword_merge old v = (old AND NOT (drop_bit 16 v)) OR (v AND drop_bit 16 v)"

definition written :: "u64 \<Rightarrow> u32 \<Rightarrow> u32 \<Rightarrow> u32" where
  "written a old v = (if plain_reg a then v else hiword_merge old v)"

locale soc_config =
  fixes b :: "'d soc" and view :: "'d \<Rightarrow> u64 \<Rightarrow> u32"
  assumes read_value: "config_reg a \<Longrightarrow> fst (hw_read b a d) = view d a"
    and read_keeps: "view (snd (hw_read b a d)) = view d"
    and write_config: "config_reg a \<Longrightarrow> view (hw_write b a v d) = (view d)(a := written a (view d a) v)"
    and write_other: "\<not> config_reg a \<Longrightarrow> view (hw_write b a v d) = view d"
    and sleep_keeps: "view (hw_sleep b n d) = view d"
    and yield_keeps: "view (hw_yield b d) = view d"

section \<open>Masked writes\<close>

lemma and_low_half: "x AND 0xffff = take_bit 16 (x :: u32)"
  by (simp add: take_bit_eq_mask mask_eq_exp_minus_1)

lemma bit_HIWORD: "bit (HIWORD_UPDATE m v) n = (n < 32 \<and> (if n < 16 then bit v n else bit m (n - 16)))"
  by (auto simp: HIWORD_UPDATE_def and_low_half bit_simps)

text \<open>A masked write replaces the bits under the mask and keeps the others.\<close>

lemma bit_merge_HIWORD:
  "bit (hiword_merge old (HIWORD_UPDATE m v)) n = (n < 32 \<and> (if n < 16 \<and> bit m n then bit v n else bit old n))"
  by (auto simp: hiword_merge_def bit_simps bit_HIWORD)

lemma merge_HIWORD:
  assumes "take_bit 16 m = m"
  shows "hiword_merge old (HIWORD_UPDATE m v) = (old AND NOT m) OR (v AND m)"
proof (rule bit_word_eqI)
  fix n assume "n < LENGTH(32)"
  moreover have "n < 16" if "bit m n" using that assms by (metis bit_take_bit_iff)
  ultimately show "bit (hiword_merge old (HIWORD_UPDATE m v)) n = bit (old AND NOT m OR v AND m) n"
    by (auto simp: bit_merge_HIWORD bit_simps)
qed

section \<open>Offsets\<close>

lemma unat_widen: "unat (ucast (x :: u32) :: u64) = unat x"
  using unsigned_less [of x, where ?'a = nat] by (simp add: unsigned_ucast_eq take_bit_nat_eq_self)

lemma offset_inj: "((ucast (r :: u32) :: u64) = ucast r') = (r = r')"
proof
  assume "(ucast r :: u64) = ucast r'"
  then show "r = r'" by (simp add: bit_eq_iff bit_simps)
qed simp

section \<open>A register file\<close>

text \<open>The contract is met by a register file that holds a word at every address.\<close>

definition reg_file :: "(u64 \<Rightarrow> u32) soc" where
  "reg_file = \<lparr>hw_read = (\<lambda>a d. (d a, d)), hw_write = (\<lambda>a v d. d(a := if config_reg a then written a (d a) v else v)),
     hw_sleep = (\<lambda>n d. d), hw_yield = (\<lambda>d. d), hw_tick = (\<lambda>d. 0)\<rparr>"

definition file_view :: "(u64 \<Rightarrow> u32) \<Rightarrow> u64 \<Rightarrow> u32" where
  "file_view d = (\<lambda>a. if config_reg a then d a else 0)"

interpretation regs: soc_config reg_file file_view
  by unfold_locales (auto simp: reg_file_def file_view_def)

end
