(* ===== verification/Rk_Iomux.thy ===== *)
theory Rk_Iomux
  imports Rk_Mmio
begin

text \<open>
  The pin multiplexer, \<^verbatim>\<open>src/driver/drv_iomux.c\<close>: function, pull resistor, drive strength and Schmitt trigger of each of the 160 pins, and the
  pins of the UARTs.
\<close>

section \<open>Data\<close>

abbreviation (input) RK3576_GPIO_BANKS :: u32 where "RK3576_GPIO_BANKS \<equiv> 5"
abbreviation (input) RK3576_GPIO_PINS :: u32 where "RK3576_GPIO_PINS \<equiv> 32"

abbreviation (input) RK_PB4 :: u32 where "RK_PB4 \<equiv> 12"
abbreviation (input) RK_PB7 :: u32 where "RK_PB7 \<equiv> 15"
abbreviation (input) RK_PC0 :: u32 where "RK_PC0 \<equiv> 16"
abbreviation (input) RK_PD0 :: u32 where "RK_PD0 \<equiv> 24"

abbreviation (input) RK3576_PULL_NONE :: u32 where "RK3576_PULL_NONE \<equiv> 0"
abbreviation (input) RK3576_PULL_UP :: u32 where "RK3576_PULL_UP \<equiv> 1"
abbreviation (input) RK3576_PULL_DOWN :: u32 where "RK3576_PULL_DOWN \<equiv> 2"

definition rk3576_iomux_offsets :: "u32 list list" where
  "rk3576_iomux_offsets =
    [[0x0000, 0x0008, 0x2004, 0x200c],
     [0x4020, 0x4028, 0x4030, 0x4038],
     [0x4040, 0x4048, 0x4050, 0x4058],
     [0x4060, 0x4068, 0x4070, 0x4078],
     [0x4080, 0x4088, 0xa390, 0xb398]]"

record rk3576_uart_pin =
  pin_bank :: u8
  pin_nr :: u8
  pin_mux :: u8

record rk3576_uart_iomux_group =
  group_valid :: u8
  group_rx :: rk3576_uart_pin
  group_tx :: rk3576_uart_pin

definition uart_pins :: "u8 \<times> u8 \<times> u8 \<Rightarrow> u8 \<times> u8 \<times> u8 \<Rightarrow> rk3576_uart_iomux_group" where
  "uart_pins r t = (case (r, t) of ((rb, rp, rm), (tb, tp, tm)) \<Rightarrow>
     \<lparr>group_valid = 1, group_rx = \<lparr>pin_bank = rb, pin_nr = rp, pin_mux = rm\<rparr>, group_tx = \<lparr>pin_bank = tb, pin_nr = tp, pin_mux = tm\<rparr>\<rparr>)"

text \<open>A group that the table leaves out is zero.\<close>

definition no_group :: rk3576_uart_iomux_group where
  "no_group = \<lparr>group_valid = 0, group_rx = \<lparr>pin_bank = 0, pin_nr = 0, pin_mux = 0\<rparr>, group_tx = \<lparr>pin_bank = 0, pin_nr = 0, pin_mux = 0\<rparr>\<rparr>"

definition rk3576_uart_iomux :: "rk3576_uart_iomux_group list list" where
  "rk3576_uart_iomux =
    [[uart_pins (0, 29, 9) (0, 28, 9), uart_pins (2, 0, 9) (2, 1, 9), no_group, no_group],
     [uart_pins (0, 16, 10) (0, 15, 10), uart_pins (2, 9, 9) (2, 8, 9), uart_pins (3, 6, 9) (3, 7, 9), no_group],
     [uart_pins (1, 23, 9) (1, 22, 9), uart_pins (4, 12, 10) (4, 13, 10), uart_pins (3, 15, 9) (3, 16, 9), no_group],
     [uart_pins (3, 1, 9) (3, 0, 9), uart_pins (4, 1, 9) (4, 0, 9), uart_pins (1, 17, 9) (1, 16, 9), no_group],
     [uart_pins (2, 25, 9) (2, 24, 9), uart_pins (1, 21, 9) (1, 20, 9), uart_pins (0, 13, 10) (0, 12, 10), no_group],
     [uart_pins (3, 28, 9) (3, 29, 9), uart_pins (4, 9, 10) (4, 8, 10), uart_pins (2, 4, 9) (2, 5, 9), no_group],
     [uart_pins (4, 6, 10) (4, 4, 10), uart_pins (2, 27, 9) (2, 26, 9), uart_pins (1, 11, 9) (1, 8, 9), uart_pins (4, 21, 13) (4, 20, 13)],
     [uart_pins (2, 15, 9) (2, 14, 9), uart_pins (1, 3, 9) (1, 2, 9), uart_pins (2, 0, 10) (2, 1, 10), no_group],
     [uart_pins (3, 21, 9) (3, 22, 9), uart_pins (2, 7, 9) (2, 6, 9), uart_pins (0, 18, 10) (0, 17, 10), no_group],
     [uart_pins (2, 16, 9) (2, 17, 9), uart_pins (3, 10, 9) (3, 11, 9), uart_pins (4, 19, 13) (4, 18, 13), no_group],
     [uart_pins (3, 8, 9) (3, 9, 9), uart_pins (1, 25, 9) (1, 24, 9), uart_pins (0, 21, 10) (0, 20, 10), no_group],
     [uart_pins (3, 17, 9) (3, 20, 9), uart_pins (2, 21, 9) (2, 20, 9), uart_pins (4, 17, 13) (4, 16, 13), no_group]]"

section \<open>Operations\<close>

definition rk3576_ioc_write :: "'d soc \<Rightarrow> u32 \<Rightarrow> u32 \<Rightarrow> 'd \<Rightarrow> 'd" where
  "rk3576_ioc_write b offset value d = hw_write b (IOC_GRF_MMIO_BASE + ucast offset) value d"

definition rk3576_check_pin :: "u32 \<Rightarrow> u32 \<Rightarrow> rt_err_t" where
  "rk3576_check_pin bank pin = (if bank \<ge> RK3576_GPIO_BANKS \<or> pin \<ge> RK3576_GPIO_PINS then - RT_EINVAL else RT_EOK)"

text \<open>The three functions return the register and the lowest bit of the field, \<open>None\<close> for \<^verbatim>\<open>-RT_EINVAL\<close>.\<close>

definition rk3576_drive_reg_bit :: "u32 \<Rightarrow> u32 \<Rightarrow> (u32 \<times> u32) option" where
  "rk3576_drive_reg_bit bank pin =
     (if rk3576_check_pin bank pin \<noteq> RT_EOK then None
      else
        let reg = (if bank = 0 \<and> pin < RK_PB4 then 0x10
                   else if bank = 0 then 0x2014 - 0xc
                   else if bank = 1 then 0x6020
                   else if bank = 2 then 0x6040
                   else if bank = 3 then 0x6060
                   else if bank = 4 \<and> pin < RK_PC0 then 0x6080
                   else if bank = 4 \<and> pin < RK_PD0 then 0xa090 - 0x10
                   else 0xb098 - 0x18)
        in Some (reg + (pin div 4) * 4, (pin mod 4) * 4))"

definition rk3576_pull_reg_bit :: "u32 \<Rightarrow> u32 \<Rightarrow> (u32 \<times> u32) option" where
  "rk3576_pull_reg_bit bank pin =
     (if rk3576_check_pin bank pin \<noteq> RT_EOK then None
      else
        let reg = (if bank = 0 \<and> pin < RK_PB4 then 0x20
                   else if bank = 0 then 0x2028 - 0x4
                   else if bank = 1 then 0x6110
                   else if bank = 2 then 0x6120
                   else if bank = 3 then 0x6130
                   else if bank = 4 \<and> pin < RK_PC0 then 0x6140
                   else if bank = 4 \<and> pin < RK_PD0 then 0xa148 - 0x8
                   else 0xb14c - 0xc)
        in Some (reg + (pin div 8) * 4, (pin mod 8) * 2))"

definition rk3576_schmitt_reg_bit :: "u32 \<Rightarrow> u32 \<Rightarrow> (u32 \<times> u32) option" where
  "rk3576_schmitt_reg_bit bank pin =
     (if rk3576_check_pin bank pin \<noteq> RT_EOK then None
      else
        let reg = (if bank = 0 \<and> pin < RK_PB4 then 0x30
                   else if bank = 0 then 0x2040 - 0x4
                   else if bank = 1 then 0x6210
                   else if bank = 2 then 0x6220
                   else if bank = 3 then 0x6230
                   else if bank = 4 \<and> pin < RK_PC0 then 0x6240
                   else if bank = 4 \<and> pin < RK_PD0 then 0xa248 - 0x8
                   else 0xb24c - 0xc)
        in Some (reg + (pin div 8) * 4, pin mod 8))"

text \<open>The register and the field of \<^verbatim>\<open>rk3576_iomux_set\<close>.\<close>

definition iomux_reg_bit :: "u32 \<Rightarrow> u32 \<Rightarrow> u32 \<times> u32" where
  "iomux_reg_bit bank pin =
     (let reg = rk3576_iomux_offsets ! unat bank ! unat (pin div 8);
          reg = (if pin mod 8 \<ge> 4 then reg + 4 else reg);
          reg = (if bank = 0 \<and> pin \<ge> RK_PB4 \<and> pin \<le> RK_PB7 then reg + 0x1ff4 else reg)
      in (reg, (pin mod 4) * 4))"

definition rk3576_iomux_set :: "'d soc \<Rightarrow> u32 \<Rightarrow> u32 \<Rightarrow> u32 \<Rightarrow> 'd \<Rightarrow> rt_err_t \<times> 'd" where
  "rk3576_iomux_set b bank pin mux d =
     (if rk3576_check_pin bank pin \<noteq> RT_EOK \<or> mux > 0xf then (- RT_EINVAL, d)
      else
        let (reg, n) = iomux_reg_bit bank pin;
            msk = push_bit (unat n) 0xf;
            value = push_bit (unat n) (mux AND 0xf)
        in (RT_EOK, rk3576_ioc_write b reg (HIWORD_UPDATE msk value) d))"

definition rk3576_pull_set :: "'d soc \<Rightarrow> u32 \<Rightarrow> u32 \<Rightarrow> u32 \<Rightarrow> 'd \<Rightarrow> rt_err_t \<times> 'd" where
  "rk3576_pull_set b bank pin pull d =
     (case rk3576_pull_reg_bit bank pin of
        None \<Rightarrow> (- RT_EINVAL, d)
      | Some (reg, n) \<Rightarrow>
          (case (if pull = RK3576_PULL_NONE then Some 0
                 else if pull = RK3576_PULL_UP then Some 3
                 else if pull = RK3576_PULL_DOWN then Some 1
                 else None) of
             None \<Rightarrow> (- RT_EINVAL, d)
           | Some value \<Rightarrow>
               (RT_EOK, rk3576_ioc_write b reg (HIWORD_UPDATE (push_bit (unat n) 3) (push_bit (unat n) value)) d)))"

definition rk3576_drive_set :: "'d soc \<Rightarrow> u32 \<Rightarrow> u32 \<Rightarrow> u32 \<Rightarrow> 'd \<Rightarrow> rt_err_t \<times> 'd" where
  "rk3576_drive_set b bank pin level d =
     (if level > 7 then (- RT_EINVAL, d)
      else
        case rk3576_drive_reg_bit bank pin of
          None \<Rightarrow> (- RT_EINVAL, d)
        | Some (reg, n) \<Rightarrow>
            let value = drop_bit 2 (level AND reg_bit 2) OR push_bit 2 (level AND reg_bit 0) OR (level AND reg_bit 1)
            in (RT_EOK, rk3576_ioc_write b reg (HIWORD_UPDATE (push_bit (unat n) 0xf) (push_bit (unat n) value)) d))"

definition rk3576_schmitt_set :: "'d soc \<Rightarrow> u32 \<Rightarrow> u32 \<Rightarrow> bool \<Rightarrow> 'd \<Rightarrow> rt_err_t \<times> 'd" where
  "rk3576_schmitt_set b bank pin enable d =
     (case rk3576_schmitt_reg_bit bank pin of
        None \<Rightarrow> (- RT_EINVAL, d)
      | Some (reg, n) \<Rightarrow>
          let msk = push_bit (unat n) 1;
              value = (if enable then msk else 0)
          in (RT_EOK, rk3576_ioc_write b reg (HIWORD_UPDATE msk value) d))"

definition rk3576_uart_iomux_init :: "'d soc \<Rightarrow> u32 \<Rightarrow> u32 \<Rightarrow> 'd \<Rightarrow> rt_err_t \<times> 'd" where
  "rk3576_uart_iomux_init b n mux_group d =
     (if n \<ge> 12 \<or> mux_group \<ge> 4 then (- RT_EINVAL, d)
      else
        let group = rk3576_uart_iomux ! unat n ! unat mux_group; rx = group_rx group; tx = group_tx group
        in if group_valid group = 0 then (- RT_EINVAL, d)
           else
             let (ret, d) = rk3576_iomux_set b (ucast (pin_bank rx)) (ucast (pin_nr rx)) (ucast (pin_mux rx)) d
             in if ret \<noteq> RT_EOK then (ret, d)
             else let (ret, d) = rk3576_iomux_set b (ucast (pin_bank tx)) (ucast (pin_nr tx)) (ucast (pin_mux tx)) d
             in if ret \<noteq> RT_EOK then (ret, d)
             else let (ret, d) = rk3576_pull_set b (ucast (pin_bank rx)) (ucast (pin_nr rx)) RK3576_PULL_UP d
             in if ret \<noteq> RT_EOK then (ret, d)
             else rk3576_pull_set b (ucast (pin_bank tx)) (ucast (pin_nr tx)) RK3576_PULL_UP d)"

end
