(* ===== verification/Rk_Fields.thy ===== *)
theory Rk_Fields
  imports Rk_Iomux
begin

text \<open>
  Where the fields of the pins lie in the registers of \<^verbatim>\<open>src/driver/drv_iomux.c\<close>: the fields of one kind follow each other without overlap, the four kinds
  use different registers, and a masked write changes one field only.
\<close>

section \<open>Fields of the pins\<close>

text \<open>Pin \<open>i\<close> of the chip is pin \<open>i mod 32\<close> of bank \<open>i div 32\<close>. A field is given by the offset of its register and its lowest bit; the position of a field counts bits over
  all registers. The offsets of the registers fall into four classes.\<close>

type_synonym field_loc = "u32 \<times> u32"

definition field_pos :: "field_loc \<Rightarrow> int" where
  "field_pos l = uint (fst l) * 8 + uint (snd l)"

definition field_get :: "(u64 \<Rightarrow> u32) \<Rightarrow> field_loc \<Rightarrow> nat \<Rightarrow> u32" where
  "field_get v l w = take_bit w (drop_bit (unat (snd l)) (v (IOC_GRF_MMIO_BASE + ucast (fst l))))"

definition reg_class :: "u32 \<Rightarrow> nat" where
  "reg_class r =
     (if r < 0x10 \<or> 0x2000 \<le> r \<and> r < 0x2014 \<or> 0x4000 \<le> r \<and> r < 0x4090 \<or> 0xa390 \<le> r \<and> r < 0xa398 \<or> 0xb398 \<le> r \<and> r < 0xb3a0 then 0
      else if r < 0x20 \<or> 0x2014 \<le> r \<and> r < 0x2028 \<or> 0x6020 \<le> r \<and> r < 0x6090 \<or> 0xa090 \<le> r \<and> r < 0xa098 \<or> 0xb098 \<le> r \<and> r < 0xb0a0 then 1
      else if r < 0x28 \<or> 0x2028 \<le> r \<and> r < 0x2034 \<or> 0x6110 \<le> r \<and> r < 0x6148 \<or> 0xa148 \<le> r \<and> r < 0xa14c \<or> 0xb14c \<le> r \<and> r < 0xb150 then 2
      else if r < 0xc000 then 3 else 4)"

lemma reg_class_range: "r < 0xc000 \<or> reg_class r = 4"
proof (cases "unat r < 0xc000")
  case False
  then have "unat r \<ge> 0xc000" by simp
  then have "\<not> unat r < n" if "n \<le> 0xc000" for n using that by simp
  then show ?thesis by (simp add: reg_class_def word_less_nat_alt)
qed (simp add: word_less_nat_alt)

lemma unat_ioc: "r < 0xc000 \<Longrightarrow> unat (IOC_GRF_MMIO_BASE + ucast (r :: u32) :: u64) = 0x26040000 + unat r"
  by (subst unat_word_ariths) (simp add: unsigned_ucast_eq word_less_nat_alt take_bit_nat_eq_self)

lemma ioc_config:
  assumes "r < 0xc000"
  shows "config_reg (IOC_GRF_MMIO_BASE + ucast (r :: u32))" "\<not> plain_reg (IOC_GRF_MMIO_BASE + ucast r)"
proof -
  note u = unat_ioc [OF assms]
  show "config_reg (IOC_GRF_MMIO_BASE + ucast r)"
    using assms by (simp add: config_reg_def word_le_nat_alt word_less_nat_alt u)
  show "\<not> plain_reg (IOC_GRF_MMIO_BASE + ucast r)"
  proof
    assume "plain_reg (IOC_GRF_MMIO_BASE + ucast r)"
    then have "unat (IOC_GRF_MMIO_BASE + ucast r :: u64) \<in> {unat (0x27200354 :: u64), unat (0x2720035c :: u64), unat (0x27200364 :: u64)}"
      unfolding plain_reg_def by (elim insertE emptyE) simp_all
    then show False using assms unfolding u by (simp add: word_less_nat_alt)
  qed
qed

text \<open>A masked write to a field.\<close>

definition field_put :: "'d soc \<Rightarrow> field_loc \<Rightarrow> nat \<Rightarrow> u32 \<Rightarrow> 'd \<Rightarrow> 'd" where
  "field_put b l w x d = rk3576_ioc_write b (fst l) (HIWORD_UPDATE (push_bit (unat (snd l)) (mask w)) (push_bit (unat (snd l)) x)) d"

lemma field_put_view:
  assumes "soc_config b view" and "fst l < 0xc000"
  shows "view (field_put b l w x d) = (view d)(IOC_GRF_MMIO_BASE + ucast (fst l) := hiword_merge (view d (IOC_GRF_MMIO_BASE + ucast (fst l)))
    (HIWORD_UPDATE (push_bit (unat (snd l)) (mask w)) (push_bit (unat (snd l)) x)))"
  using soc_config.write_config [OF assms(1) ioc_config(1) [OF assms(2)]] ioc_config(2) [OF assms(2)]
  by (simp add: field_put_def rk3576_ioc_write_def written_def)

text \<open>It sets this field and no field that is apart from it.\<close>

lemma field_put_same:
  assumes "soc_config b view" and "fst l < 0xc000" and "unat (snd l) + w \<le> 16" and "take_bit w x = x"
  shows "field_get (view (field_put b l w x d)) l w = x"
proof (rule bit_word_eqI)
  fix n assume "n < LENGTH(32)"
  moreover have "n < w" if "bit x n" using that assms(4) by (metis bit_take_bit_iff)
  ultimately show "bit (field_get (view (field_put b l w x d)) l w) n = bit x n"
    using assms(3) by (auto simp: field_get_def field_put_view [OF assms(1,2)] bit_simps bit_merge_HIWORD)
qed

lemma field_put_apart:
  assumes "soc_config b view" and "fst l < 0xc000" and "unat (snd l) + w \<le> 16"
    and "fst l = fst l' \<Longrightarrow> field_pos l + int w \<le> field_pos l' \<or> field_pos l' + int w' \<le> field_pos l"
  shows "field_get (view (field_put b l w x d)) l' w' = field_get (view d) l' w'"
proof (cases "fst l = fst l'")
  case True
  let ?o = "unat (snd l)" and ?o' = "unat (snd l')"
  have ap: "?o + w \<le> ?o' \<or> ?o' + w' \<le> ?o"
    using assms(4) [OF True] unfolding field_pos_def True uint_nat by linarith
  have "\<not> bit (push_bit ?o (mask w) :: u32) (?o' + n)" if "n < w'" for n
    using ap that by (auto simp: bit_push_bit_iff bit_mask_iff)
  then show ?thesis
    by (intro bit_word_eqI)
      (auto simp: field_get_def field_put_view [OF assms(1,2)] True [symmetric] bit_take_bit_iff bit_drop_bit_eq bit_merge_HIWORD
        dest: bit_imp_le_length)
next
  case False
  then show ?thesis by (auto simp: field_get_def field_put_view [OF assms(1,2)] offset_inj)
qed

text \<open>The contract of a kind of field: the fields of the pins follow each other, in registers of one class.\<close>

locale pin_field =
  fixes loc :: "nat \<Rightarrow> field_loc" and w :: nat and k :: nat
  assumes width: "0 < w"
    and fits: "i < 160 \<Longrightarrow> unat (snd (loc i)) + w \<le> 16"
    and kind: "i < 160 \<Longrightarrow> reg_class (fst (loc i)) = k" and kind_le: "k < 4"
    and ascends: "Suc i < 160 \<Longrightarrow> field_pos (loc i) + int w \<le> field_pos (loc (Suc i))"
begin

lemma below: "i < j \<Longrightarrow> j < 160 \<Longrightarrow> field_pos (loc i) + int w \<le> field_pos (loc j)"
proof (induction j)
  case (Suc j)
  then show ?case using ascends [of j] by (cases "i = j") auto
qed simp

lemma in_range: "i < 160 \<Longrightarrow> fst (loc i) < 0xc000"
  using kind [of i] kind_le reg_class_range [of "fst (loc i)"] by linarith

lemma put_get:
  assumes "soc_config b view" and "i < 160" and "j < 160" and "take_bit w x = x"
  shows "field_get (view (field_put b (loc i) w x d)) (loc j) w = (if j = i then x else field_get (view d) (loc j) w)"
proof (cases "j = i")
  case True
  then show ?thesis using field_put_same [OF assms(1) in_range fits assms(4)] assms(2) by simp
next
  case False
  have "field_pos (loc i) + int w \<le> field_pos (loc j) \<or> field_pos (loc j) + int w \<le> field_pos (loc i)"
    using below [of i j] below [of j i] False assms(2,3) by (cases i j rule: linorder_cases) auto
  then show ?thesis using field_put_apart [OF assms(1) in_range fits] assms(2) False by simp
qed

lemma put_other:
  assumes "soc_config b view" and "i < 160" and "reg_class (fst l) \<noteq> k"
  shows "field_get (view (field_put b (loc i) w x d)) l w' = field_get (view d) l w'"
  by (rule field_put_apart [OF assms(1) in_range fits]) (use kind [OF assms(2)] assms(2,3) in auto)

end

section \<open>The four kinds of field\<close>

definition mux_loc :: "nat \<Rightarrow> field_loc" where
  "mux_loc i = iomux_reg_bit (of_nat (i div 32)) (of_nat (i mod 32))"

definition drive_loc :: "nat \<Rightarrow> field_loc" where
  "drive_loc i = the (rk3576_drive_reg_bit (of_nat (i div 32)) (of_nat (i mod 32)))"

definition pull_loc :: "nat \<Rightarrow> field_loc" where
  "pull_loc i = the (rk3576_pull_reg_bit (of_nat (i div 32)) (of_nat (i mod 32)))"

definition schmitt_loc :: "nat \<Rightarrow> field_loc" where
  "schmitt_loc i = the (rk3576_schmitt_reg_bit (of_nat (i div 32)) (of_nat (i mod 32)))"

text \<open>The fields of the pins \<open>is\<close> in their order, from position \<open>p\<close> on.\<close>

fun fields_ok :: "(nat \<Rightarrow> field_loc) \<Rightarrow> nat \<Rightarrow> nat \<Rightarrow> int \<Rightarrow> nat list \<Rightarrow> bool" where
  "fields_ok loc w k p [] = True"
| "fields_ok loc w k p (i # is) =
     (let l = loc i; q = field_pos l
      in p \<le> q \<and> uint (snd l) + int w \<le> 16 \<and> reg_class (fst l) = k \<and> fields_ok loc w k (q + int w) is)"

lemma fields_okD:
  assumes "fields_ok loc w k p [a..<c]" and "a \<le> i" and "i < c"
  shows "uint (snd (loc i)) + int w \<le> 16" "reg_class (fst (loc i)) = k"
    "Suc i < c \<Longrightarrow> field_pos (loc i) + int w \<le> field_pos (loc (Suc i))"
proof -
  have "uint (snd (loc i)) + int w \<le> 16 \<and> reg_class (fst (loc i)) = k \<and>
      (Suc i < c \<longrightarrow> field_pos (loc i) + int w \<le> field_pos (loc (Suc i)))"
    using assms
  proof (induction "c - a" arbitrary: a p)
    case (Suc n)
    have up: "[a..<c] = a # [Suc a..<c]" using Suc.prems by (simp add: upt_conv_Cons)
    show ?case
    proof (cases "i = a")
      case True
      then show ?thesis using Suc.prems(1) up by (cases "Suc a < c") (auto simp: Let_def upt_conv_Cons)
    next
      case False
      have "fields_ok loc w k (field_pos (loc a) + int w) [Suc a..<c]" using Suc.prems(1) up by (simp add: Let_def)
      then show ?thesis using Suc.hyps(1) [of "Suc a"] Suc.hyps(2) Suc.prems False by simp
    qed
  qed simp
  then show "uint (snd (loc i)) + int w \<le> 16" "reg_class (fst (loc i)) = k"
    "Suc i < c \<Longrightarrow> field_pos (loc i) + int w \<le> field_pos (loc (Suc i))" by auto
qed

lemma pin_fieldI:
  assumes "fields_ok loc w k 0 [0..<160]" and "0 < w" and "k < 4"
  shows "pin_field loc w k"
proof
  show "unat (snd (loc i)) + w \<le> 16" if "i < 160" for i
    using fields_okD(1) [OF assms(1) _ that] unfolding uint_nat by linarith
qed (use assms fields_okD [OF assms(1)] in auto)

lemma mux_ok: "fields_ok mux_loc 4 0 0 [0..<160]" by code_simp
lemma drive_ok: "fields_ok drive_loc 4 1 0 [0..<160]" by code_simp
lemma pull_ok: "fields_ok pull_loc 2 2 0 [0..<160]" by code_simp
lemma schmitt_ok: "fields_ok schmitt_loc (Suc 0) 3 0 [0..<160]" by code_simp

interpretation mux: pin_field mux_loc 4 0 by (rule pin_fieldI [OF mux_ok]) simp_all
interpretation drive: pin_field drive_loc 4 1 by (rule pin_fieldI [OF drive_ok]) simp_all
interpretation pull: pin_field pull_loc 2 2 by (rule pin_fieldI [OF pull_ok]) simp_all
interpretation schmitt: pin_field schmitt_loc "Suc 0" 3 by (rule pin_fieldI [OF schmitt_ok]) simp_all

end
