(* ===== verification/Rk_Pins.thy ===== *)
theory Rk_Pins
  imports Rk_Fields
begin

text \<open>
  The pin multiplexer as a table of the set-ups of the 160 pins, and the refinement of this table by the operations of \<^verbatim>\<open>src/driver/drv_iomux.c\<close>.
\<close>

section \<open>The pins of the chip\<close>

text \<open>What the registers say of a pin: its function, the code of its pull resistor, the code of its drive strength, and its Schmitt trigger. A pin number out
  of range has no registers.\<close>

record pin_setup =
  ps_mux :: u32
  ps_pull :: u32
  ps_drive :: u32
  ps_schmitt :: u32

definition valid_pin :: "u32 \<Rightarrow> u32 \<Rightarrow> bool" where
  "valid_pin bank pin = (bank < 5 \<and> pin < 32)"

definition pin_index :: "u32 \<Rightarrow> u32 \<Rightarrow> nat" where
  "pin_index bank pin = 32 * unat bank + unat pin"

definition pins :: "(u64 \<Rightarrow> u32) \<Rightarrow> u32 \<Rightarrow> u32 \<Rightarrow> pin_setup option" where
  "pins v bank pin =
     (if valid_pin bank pin then
        let i = pin_index bank pin
        in Some \<lparr>ps_mux = field_get v (mux_loc i) 4, ps_pull = field_get v (pull_loc i) 2,
             ps_drive = field_get v (drive_loc i) 4, ps_schmitt = field_get v (schmitt_loc i) (Suc 0)\<rparr>
      else None)"

definition set_pin :: "u32 \<Rightarrow> u32 \<Rightarrow> (pin_setup \<Rightarrow> pin_setup) \<Rightarrow> (u32 \<Rightarrow> u32 \<Rightarrow> pin_setup option) \<Rightarrow> u32 \<Rightarrow> u32 \<Rightarrow> pin_setup option" where
  "set_pin bank pin f ps = ps(bank := (ps bank)(pin := map_option f (ps bank pin)))"

text \<open>The codes of the hardware: pull-up is 3 and pull-down 1, and the three bits of a drive level are reversed.\<close>

definition pull_code :: "u32 \<Rightarrow> u32" where
  "pull_code p = (if p = RK3576_PULL_UP then 3 else if p = RK3576_PULL_DOWN then 1 else 0)"

definition drive_code :: "u32 \<Rightarrow> u32" where
  "drive_code x = [0, 4, 2, 6, 1, 5, 3, 7] ! unat x"

lemma pin_index_less: "valid_pin bank pin \<Longrightarrow> pin_index bank pin < 160"
  by (auto simp: valid_pin_def pin_index_def word_less_nat_alt)

lemma pin_index_parts: "valid_pin bank pin \<Longrightarrow> pin_index bank pin div 32 = unat bank" "valid_pin bank pin \<Longrightarrow> pin_index bank pin mod 32 = unat pin"
  by (auto simp: valid_pin_def pin_index_def word_less_nat_alt)

lemma pin_index_inj: "valid_pin bank pin \<Longrightarrow> valid_pin bank' pin' \<Longrightarrow> (pin_index bank pin = pin_index bank' pin') = (bank = bank' \<and> pin = pin')"
  by (metis pin_index_parts word_unat_eq_iff)

lemma pin_locs:
  assumes "valid_pin bank pin"
  shows "mux_loc (pin_index bank pin) = iomux_reg_bit bank pin"
    "rk3576_pull_reg_bit bank pin = Some (pull_loc (pin_index bank pin))"
    "rk3576_drive_reg_bit bank pin = Some (drive_loc (pin_index bank pin))"
    "rk3576_schmitt_reg_bit bank pin = Some (schmitt_loc (pin_index bank pin))"
proof -
  have i: "of_nat (pin_index bank pin div 32) = bank" "of_nat (pin_index bank pin mod 32) = pin"
    by (simp_all add: pin_index_parts [OF assms])
  have ok: "rk3576_check_pin bank pin = RT_EOK" using assms by (auto simp: rk3576_check_pin_def valid_pin_def)
  show "mux_loc (pin_index bank pin) = iomux_reg_bit bank pin" by (simp add: mux_loc_def i)
  show "rk3576_pull_reg_bit bank pin = Some (pull_loc (pin_index bank pin))"
    by (simp add: pull_loc_def i rk3576_pull_reg_bit_def ok Let_def)
  show "rk3576_drive_reg_bit bank pin = Some (drive_loc (pin_index bank pin))"
    by (simp add: drive_loc_def i rk3576_drive_reg_bit_def ok Let_def)
  show "rk3576_schmitt_reg_bit bank pin = Some (schmitt_loc (pin_index bank pin))"
    by (simp add: schmitt_loc_def i rk3576_schmitt_reg_bit_def ok Let_def)
qed

lemmas field_put_get = mux.put_get pull.put_get drive.put_get schmitt.put_get
lemmas field_put_other = mux.put_other pull.put_other drive.put_other schmitt.put_other
lemmas field_kinds = mux.kind pull.kind drive.kind schmitt.kind

text \<open>Writing one field changes the set-up of one pin.\<close>

lemma put_pins:
  assumes "soc_config b view" and "valid_pin bank pin"
  shows "take_bit 4 x = x \<Longrightarrow> pins (view (field_put b (mux_loc (pin_index bank pin)) 4 x d)) = set_pin bank pin (ps_mux_update (\<lambda>_. x)) (pins (view d))"
    and "take_bit 2 x = x \<Longrightarrow> pins (view (field_put b (pull_loc (pin_index bank pin)) 2 x d)) = set_pin bank pin (ps_pull_update (\<lambda>_. x)) (pins (view d))"
    and "take_bit 4 x = x \<Longrightarrow> pins (view (field_put b (drive_loc (pin_index bank pin)) 4 x d)) = set_pin bank pin (ps_drive_update (\<lambda>_. x)) (pins (view d))"
    and "take_bit (Suc 0) x = x \<Longrightarrow> pins (view (field_put b (schmitt_loc (pin_index bank pin)) (Suc 0) x d)) = set_pin bank pin (ps_schmitt_update (\<lambda>_. x)) (pins (view d))"
  using pin_index_less [OF assms(2)] pin_index_inj [OF _ assms(2)]
  by (auto simp: fun_eq_iff pins_def set_pin_def Let_def assms(2) pin_index_less field_put_get [OF assms(1)] field_put_other [OF assms(1)] field_kinds)

text \<open>The operations write fields.\<close>

lemma mask_small: "(0xf :: u32) = mask 4" "(3 :: u32) = mask 2" "(1 :: u32) = mask (Suc 0)"
  by (simp_all add: mask_eq_exp_minus_1)

lemma small_code: "x \<le> 15 \<Longrightarrow> take_bit 4 x = (x :: u32)" "take_bit 2 (pull_code y) = pull_code y" "level \<le> 7 \<Longrightarrow> take_bit 4 (drive_code level) = drive_code level"
proof -
  show "take_bit 4 x = x" if "x \<le> 15" using that by (simp add: take_bit_eq_mod word_unat_eq_iff unat_mod word_le_nat_alt)
  show "take_bit 2 (pull_code y) = pull_code y" by (simp add: pull_code_def)
  assume "level \<le> 7"
  then have "unat level \<le> 7" by (simp add: word_le_nat_alt)
  then have "unat level \<in> {0, 1, 2, 3, 4, 5, 6, 7}" by auto
  then show "take_bit 4 (drive_code level) = drive_code level" by (auto simp: drive_code_def)
qed

lemma ops_put:
  assumes "valid_pin bank pin"
  shows "mux \<le> 15 \<Longrightarrow> rk3576_iomux_set b bank pin mux d = (RT_EOK, field_put b (mux_loc (pin_index bank pin)) 4 mux d)"
    and "pull \<le> 2 \<Longrightarrow> rk3576_pull_set b bank pin pull d = (RT_EOK, field_put b (pull_loc (pin_index bank pin)) 2 (pull_code pull) d)"
    and "level \<le> 7 \<Longrightarrow> rk3576_drive_set b bank pin level d = (RT_EOK, field_put b (drive_loc (pin_index bank pin)) 4 (drive_code level) d)"
    and "rk3576_schmitt_set b bank pin enable d =
      (RT_EOK, field_put b (schmitt_loc (pin_index bank pin)) (Suc 0) (if enable then 1 else 0) d)"
proof -
  note l = pin_locs [OF assms]
  have ok: "rk3576_check_pin bank pin = RT_EOK" using assms by (auto simp: rk3576_check_pin_def valid_pin_def)
  show "rk3576_iomux_set b bank pin mux d = (RT_EOK, field_put b (mux_loc (pin_index bank pin)) 4 mux d)" if "mux \<le> 15"
  proof -
    have "mux AND 15 = take_bit 4 mux" by (simp add: take_bit_eq_mask mask_eq_exp_minus_1)
    also have "\<dots> = mux" using that by (rule small_code(1))
    finally show ?thesis
      using that by (simp add: rk3576_iomux_set_def ok l(1) field_put_def split_beta mask_small(1) not_less)
  qed
  show "rk3576_pull_set b bank pin pull d = (RT_EOK, field_put b (pull_loc (pin_index bank pin)) 2 (pull_code pull) d)" if "pull \<le> 2"
  proof -
    have "unat pull \<le> 2" using that by (simp add: word_le_nat_alt)
    then have "unat pull \<in> {unat (0 :: u32), unat (1 :: u32), unat (2 :: u32)}" by auto
    then have "pull \<in> {0, 1, 2}" by (auto simp only: word_unat_eq_iff insert_iff empty_iff)
    then show ?thesis by (auto simp: rk3576_pull_set_def l(2) field_put_def split_beta mask_small(2) pull_code_def)
  qed
  show "rk3576_drive_set b bank pin level d = (RT_EOK, field_put b (drive_loc (pin_index bank pin)) 4 (drive_code level) d)" if "level \<le> 7"
  proof -
    have "unat level \<le> 7" using that by (simp add: word_le_nat_alt)
    then have "unat level \<in> {0, 1, 2, 3, 4, 5, 6, 7}" by auto
    then have "level \<in> {0, 1, 2, 3, 4, 5, 6, 7}" by (auto simp: word_unat_eq_iff)
    then have "drop_bit 2 (level AND 4) OR push_bit 2 (level AND 1) OR (level AND 2) = drive_code level"
      by (auto simp: drive_code_def)
    then show ?thesis
      using that by (simp add: rk3576_drive_set_def l(3) field_put_def split_beta mask_small(1) not_less Let_def)
  qed
  show "rk3576_schmitt_set b bank pin enable d =
      (RT_EOK, field_put b (schmitt_loc (pin_index bank pin)) (Suc 0) (if enable then 1 else 0) d)"
    by (simp add: rk3576_schmitt_set_def l(4) field_put_def split_beta Let_def)
qed

lemma invalid_pin:
  assumes "\<not> valid_pin bank pin"
  shows "rk3576_check_pin bank pin = - RT_EINVAL" "rk3576_pull_reg_bit bank pin = None" "rk3576_drive_reg_bit bank pin = None"
    "rk3576_schmitt_reg_bit bank pin = None"
  using assms
  by (auto simp: rk3576_check_pin_def valid_pin_def rk3576_pull_reg_bit_def rk3576_drive_reg_bit_def rk3576_schmitt_reg_bit_def)

section \<open>Properties\<close>

text \<open>C32. The pin multiplexer is a table of 160 pins. Each of the four operations, on a pin and a setting that exist, sets this setting of this pin and changes no
  other setting of this pin and nothing of any other pin; otherwise it reports an invalid argument and writes nothing.\<close>

theorem pin_settings_independent:
  assumes "soc_config b view"
  shows "(case rk3576_iomux_set b bank pin mux d of (r, d') \<Rightarrow>
      if valid_pin bank pin \<and> mux \<le> 15
      then r = RT_EOK \<and> pins (view d') = set_pin bank pin (\<lambda>p. p\<lparr>ps_mux := mux\<rparr>) (pins (view d)) else r = - RT_EINVAL \<and> d' = d) \<and>
    (case rk3576_pull_set b bank pin pull d of (r, d') \<Rightarrow>
      if valid_pin bank pin \<and> pull \<le> 2
      then r = RT_EOK \<and> pins (view d') = set_pin bank pin (\<lambda>p. p\<lparr>ps_pull := pull_code pull\<rparr>) (pins (view d)) else r = - RT_EINVAL \<and> d' = d) \<and>
    (case rk3576_drive_set b bank pin level d of (r, d') \<Rightarrow>
      if valid_pin bank pin \<and> level \<le> 7
      then r = RT_EOK \<and> pins (view d') = set_pin bank pin (\<lambda>p. p\<lparr>ps_drive := drive_code level\<rparr>) (pins (view d)) else r = - RT_EINVAL \<and> d' = d) \<and>
    (case rk3576_schmitt_set b bank pin enable d of (r, d') \<Rightarrow>
      if valid_pin bank pin
      then r = RT_EOK \<and> pins (view d') = set_pin bank pin (\<lambda>p. p\<lparr>ps_schmitt := if enable then 1 else 0\<rparr>) (pins (view d)) else r = - RT_EINVAL \<and> d' = d)"
proof (cases "valid_pin bank pin")
  case True
  note o = ops_put [OF True] and p = put_pins [OF assms True]
  have "rk3576_iomux_set b bank pin mux d = (- RT_EINVAL, d)" if "\<not> mux \<le> 15" using that by (simp add: rk3576_iomux_set_def not_le)
  moreover have "rk3576_pull_set b bank pin pull d = (- RT_EINVAL, d)" if "\<not> pull \<le> 2"
    using that by (auto simp: rk3576_pull_set_def pin_locs [OF True] split_beta)
  moreover have "rk3576_drive_set b bank pin level d = (- RT_EINVAL, d)" if "\<not> level \<le> 7" using that by (simp add: rk3576_drive_set_def not_le)
  ultimately show ?thesis using True by (auto simp: o p small_code)
next
  case False
  then show ?thesis
    by (simp add: invalid_pin [OF False] rk3576_iomux_set_def rk3576_pull_set_def rk3576_drive_set_def rk3576_schmitt_set_def)
qed

text \<open>Pin 2 of bank 3 becomes function 3, and pin 3 stays as it is.\<close>

theorem pin_settings_independent_witness:
  "case rk3576_iomux_set reg_file 3 2 3 (\<lambda>_. 0) of (r, d) \<Rightarrow>
     r = RT_EOK \<and> map_option ps_mux (pins (file_view d) 3 2) = Some 3 \<and> pins (file_view d) 3 3 = pins (file_view (\<lambda>_. 0)) 3 3"
proof -
  obtain p where "pins (file_view (\<lambda>_. 0)) 3 2 = Some p" by (simp add: pins_def valid_pin_def Let_def)
  then show ?thesis
    using pin_settings_independent [OF regs.soc_config_axioms, of 3 2 3 "\<lambda>_. 0" 0 0 False]
    by (auto simp: set_pin_def valid_pin_def)
qed

end
