(* ===== verification/Rk_Cru.thy ===== *)
theory Rk_Cru
  imports Rk_Mmio
begin

text \<open>
  The clock and reset unit, \<^verbatim>\<open>src/driver/drv_cru.c\<close>: gates, resets, the fractional UART clocks, and the clock of each UART with its
  source and divider.
\<close>

section \<open>Data\<close>

abbreviation (input) RK3576_OSC_HZ :: u32 where "RK3576_OSC_HZ \<equiv> 24000000"
abbreviation (input) RK3576_GPLL_HZ :: u32 where "RK3576_GPLL_HZ \<equiv> 1188000000"
abbreviation (input) RK3576_CPLL_HZ :: u32 where "RK3576_CPLL_HZ \<equiv> 1000000000"
abbreviation (input) RK3576_AUPLL_HZ :: u32 where "RK3576_AUPLL_HZ \<equiv> 786432000"

abbreviation (input) RK3576_CLKSEL_CON :: "u32 \<Rightarrow> u32" where "RK3576_CLKSEL_CON n \<equiv> 0x0300 + n * 4"
abbreviation (input) RK3576_CLKGATE_CON :: "u32 \<Rightarrow> u32" where "RK3576_CLKGATE_CON n \<equiv> 0x0800 + n * 4"
abbreviation (input) RK3576_SOFTRST_CON :: "u32 \<Rightarrow> u32" where "RK3576_SOFTRST_CON n \<equiv> 0x0a00 + n * 4"
abbreviation (input) RK3576_PMU_CLKSEL_CON :: "u32 \<Rightarrow> u32" where "RK3576_PMU_CLKSEL_CON n \<equiv> 0x20000 + 0x0300 + n * 4"
abbreviation (input) RK3576_PMU_CLKGATE_CON :: "u32 \<Rightarrow> u32" where "RK3576_PMU_CLKGATE_CON n \<equiv> 0x20000 + 0x0800 + n * 4"

abbreviation (input) UART_SEL_GPLL :: u32 where "UART_SEL_GPLL \<equiv> 0"
abbreviation (input) UART_SEL_CPLL :: u32 where "UART_SEL_CPLL \<equiv> 1"
abbreviation (input) UART_SEL_AUPLL :: u32 where "UART_SEL_AUPLL \<equiv> 2"
abbreviation (input) UART_SEL_OSC :: u32 where "UART_SEL_OSC \<equiv> 3"
abbreviation (input) UART_SEL_FRAC0 :: u32 where "UART_SEL_FRAC0 \<equiv> 4"
abbreviation (input) UART_SEL_FRAC1 :: u32 where "UART_SEL_FRAC1 \<equiv> 5"
abbreviation (input) UART_SEL_FRAC2 :: u32 where "UART_SEL_FRAC2 \<equiv> 6"

record rk3576_gate_desc =
  gate_offset :: u32
  gate_bit :: u8

record rk3576_uart_clk_desc =
  uart_id :: u8
  clksel :: u32
  pclk :: rk3576_gate_desc
  sclk :: rk3576_gate_desc

record rk3576_uart_frac_desc =
  frac_div :: u32
  frac_sel :: u32

definition uart_clk_desc :: "u8 \<Rightarrow> u32 \<Rightarrow> u32 \<Rightarrow> u8 \<Rightarrow> u32 \<Rightarrow> u8 \<Rightarrow> rk3576_uart_clk_desc" where
  "uart_clk_desc i sel po pb so sb = \<lparr>uart_id = i, clksel = sel, pclk = \<lparr>gate_offset = po, gate_bit = pb\<rparr>, sclk = \<lparr>gate_offset = so, gate_bit = sb\<rparr>\<rparr>"

definition uart_clks :: "rk3576_uart_clk_desc list" where
  "uart_clks =
    [uart_clk_desc 0 (RK3576_CLKSEL_CON 60) (RK3576_CLKGATE_CON 13) 10 (RK3576_CLKGATE_CON 14) 5,
     uart_clk_desc 2 (RK3576_CLKSEL_CON 61) (RK3576_CLKGATE_CON 13) 11 (RK3576_CLKGATE_CON 14) 6,
     uart_clk_desc 3 (RK3576_CLKSEL_CON 62) (RK3576_CLKGATE_CON 13) 12 (RK3576_CLKGATE_CON 14) 9,
     uart_clk_desc 4 (RK3576_CLKSEL_CON 63) (RK3576_CLKGATE_CON 13) 13 (RK3576_CLKGATE_CON 14) 12,
     uart_clk_desc 5 (RK3576_CLKSEL_CON 64) (RK3576_CLKGATE_CON 13) 14 (RK3576_CLKGATE_CON 14) 15,
     uart_clk_desc 6 (RK3576_CLKSEL_CON 65) (RK3576_CLKGATE_CON 13) 15 (RK3576_CLKGATE_CON 15) 2,
     uart_clk_desc 7 (RK3576_CLKSEL_CON 66) (RK3576_CLKGATE_CON 14) 0 (RK3576_CLKGATE_CON 15) 5,
     uart_clk_desc 8 (RK3576_CLKSEL_CON 67) (RK3576_CLKGATE_CON 14) 1 (RK3576_CLKGATE_CON 15) 8,
     uart_clk_desc 9 (RK3576_CLKSEL_CON 68) (RK3576_CLKGATE_CON 14) 2 (RK3576_CLKGATE_CON 15) 9,
     uart_clk_desc 10 (RK3576_CLKSEL_CON 69) (RK3576_CLKGATE_CON 14) 3 (RK3576_CLKGATE_CON 15) 10,
     uart_clk_desc 11 (RK3576_CLKSEL_CON 70) (RK3576_CLKGATE_CON 14) 4 (RK3576_CLKGATE_CON 15) 11]"

definition uart_fracs :: "rk3576_uart_frac_desc list" where
  "uart_fracs =
    [\<lparr>frac_div = RK3576_CLKSEL_CON 21, frac_sel = RK3576_CLKSEL_CON 22\<rparr>,
     \<lparr>frac_div = RK3576_CLKSEL_CON 23, frac_sel = RK3576_CLKSEL_CON 24\<rparr>,
     \<lparr>frac_div = RK3576_CLKSEL_CON 25, frac_sel = RK3576_CLKSEL_CON 26\<rparr>]"

section \<open>Operations\<close>

definition rk3576_cru_parent_rate :: "u32 \<Rightarrow> u32" where
  "rk3576_cru_parent_rate sel =
     (if sel = UART_SEL_GPLL then RK3576_GPLL_HZ
      else if sel = UART_SEL_CPLL then RK3576_CPLL_HZ
      else if sel = UART_SEL_AUPLL then RK3576_AUPLL_HZ
      else RK3576_OSC_HZ)"

definition rk3576_uart_desc :: "u32 \<Rightarrow> rk3576_uart_clk_desc option" where
  "rk3576_uart_desc n = find (\<lambda>desc. ucast (uart_id desc) = n) uart_clks"

definition rk3576_cru_read :: "'d soc \<Rightarrow> u32 \<Rightarrow> 'd \<Rightarrow> u32 \<times> 'd" where
  "rk3576_cru_read b offset d = hw_read b (CRU_MMIO_BASE + ucast offset) d"

definition rk3576_cru_write :: "'d soc \<Rightarrow> u32 \<Rightarrow> u32 \<Rightarrow> 'd \<Rightarrow> 'd" where
  "rk3576_cru_write b offset value d = hw_write b (CRU_MMIO_BASE + ucast offset) value d"

definition rk3576_cru_hiword_update :: "'d soc \<Rightarrow> u32 \<Rightarrow> u32 \<Rightarrow> u32 \<Rightarrow> 'd \<Rightarrow> 'd" where
  "rk3576_cru_hiword_update b offset msk value d = rk3576_cru_write b offset (HIWORD_UPDATE msk value) d"

definition rk3576_cru_gate_enable :: "'d soc \<Rightarrow> u32 \<Rightarrow> nat \<Rightarrow> 'd \<Rightarrow> 'd" where
  "rk3576_cru_gate_enable b offset n d = rk3576_cru_hiword_update b offset (reg_bit n) 0 d"

definition rk3576_cru_gate_disable :: "'d soc \<Rightarrow> u32 \<Rightarrow> nat \<Rightarrow> 'd \<Rightarrow> 'd" where
  "rk3576_cru_gate_disable b offset n d = rk3576_cru_hiword_update b offset (reg_bit n) (reg_bit n) d"

definition rk3576_cru_reset_assert :: "'d soc \<Rightarrow> u32 \<Rightarrow> nat \<Rightarrow> 'd \<Rightarrow> 'd" where
  "rk3576_cru_reset_assert b offset n d = rk3576_cru_hiword_update b offset (reg_bit n) (reg_bit n) d"

definition rk3576_cru_reset_deassert :: "'d soc \<Rightarrow> u32 \<Rightarrow> nat \<Rightarrow> 'd \<Rightarrow> 'd" where
  "rk3576_cru_reset_deassert b offset n d = rk3576_cru_hiword_update b offset (reg_bit n) 0 d"

definition rk3576_uart_frac_set :: "'d soc \<Rightarrow> nat \<Rightarrow> u32 \<Rightarrow> u32 \<Rightarrow> u32 \<Rightarrow> 'd \<Rightarrow> 'd" where
  "rk3576_uart_frac_set b frac_id parent_sel numerator denominator d =
     (if frac_id \<ge> length uart_fracs then d
      else
        let val = (push_bit 16 numerator AND push_bit 16 0xffff) OR (denominator AND 0xffff);
            d = rk3576_cru_write b (frac_div (uart_fracs ! frac_id)) val d;
            d = rk3576_cru_hiword_update b (frac_sel (uart_fracs ! frac_id)) 0x3 parent_sel d
        in rk3576_cru_gate_enable b (RK3576_CLKGATE_CON 2) (5 + frac_id) d)"

text \<open>The products are formed in 64 bits.\<close>

definition rk3576_uart_frac_get :: "'d soc \<Rightarrow> nat \<Rightarrow> 'd \<Rightarrow> u32 \<times> 'd" where
  "rk3576_uart_frac_get b frac_id d =
     (if frac_id \<ge> length uart_fracs then (0, d)
      else
        let (con, d) = rk3576_cru_read b (frac_sel (uart_fracs ! frac_id)) d;
            parent = rk3576_cru_parent_rate (con AND 0x3);
            (dv, d) = rk3576_cru_read b (frac_div (uart_fracs ! frac_id)) d;
            numerator = drop_bit 16 (dv AND push_bit 16 0xffff);
            denominator = dv AND 0xffff
        in if denominator = 0 then (0, d)
           else (ucast ((ucast parent * ucast numerator :: u64) div ucast denominator), d))"

definition rk3576_cru_init :: "'d soc \<Rightarrow> 'd \<Rightarrow> 'd" where
  "rk3576_cru_init b d =
     (let d = rk3576_uart_frac_set b 0 UART_SEL_GPLL 1536 24750 d;
          d = rk3576_uart_frac_set b 1 UART_SEL_CPLL 12 125 d
      in rk3576_uart_frac_set b 2 UART_SEL_CPLL 16 125 d)"

definition rk3576_cru_uart_enable :: "'d soc \<Rightarrow> u32 \<Rightarrow> 'd \<Rightarrow> rt_err_t \<times> 'd" where
  "rk3576_cru_uart_enable b n d =
     (if n = 1 then
        let d = rk3576_cru_gate_enable b (RK3576_CLKGATE_CON 2) 13 d;
            d = rk3576_cru_gate_enable b (RK3576_PMU_CLKGATE_CON 5) 5 d;
            d = rk3576_cru_gate_enable b (RK3576_PMU_CLKGATE_CON 5) 6 d
        in (RT_EOK, d)
      else
        case rk3576_uart_desc n of
          None \<Rightarrow> (- RT_EINVAL, d)
        | Some desc \<Rightarrow>
            let d = rk3576_cru_gate_enable b (gate_offset (pclk desc)) (unat (gate_bit (pclk desc))) d;
                d = rk3576_cru_gate_enable b (gate_offset (sclk desc)) (unat (gate_bit (sclk desc))) d
            in (RT_EOK, d))"

text \<open>The source of a UART clock by its selector, the \<^verbatim>\<open>switch\<close> of \<^verbatim>\<open>rk3576_cru_get_uart_clk\<close>.\<close>

definition uart_parent :: "'d soc \<Rightarrow> u32 \<Rightarrow> 'd \<Rightarrow> u32 \<times> 'd" where
  "uart_parent b src d =
     (if src = UART_SEL_GPLL then (RK3576_GPLL_HZ, d)
      else if src = UART_SEL_CPLL then (RK3576_CPLL_HZ, d)
      else if src = UART_SEL_AUPLL then (RK3576_AUPLL_HZ, d)
      else if src = UART_SEL_FRAC0 then rk3576_uart_frac_get b 0 d
      else if src = UART_SEL_FRAC1 then rk3576_uart_frac_get b 1 d
      else if src = UART_SEL_FRAC2 then rk3576_uart_frac_get b 2 d
      else (RK3576_OSC_HZ, d))"

definition uart_clk_of :: "'d soc \<Rightarrow> u32 \<Rightarrow> u32 \<Rightarrow> 'd \<Rightarrow> u32 \<times> 'd" where
  "uart_clk_of b src dv d = (let (parent, d) = uart_parent b src d in (parent div (dv + 1), d))"

definition rk3576_cru_get_uart_clk :: "'d soc \<Rightarrow> u32 \<Rightarrow> 'd \<Rightarrow> u32 \<times> 'd" where
  "rk3576_cru_get_uart_clk b n d =
     (if n = 1 then
        let (con, d) = rk3576_cru_read b (RK3576_PMU_CLKSEL_CON 8) d
        in if con AND 0x1 = 1 then (RK3576_OSC_HZ, d)
           else let (con, d) = rk3576_cru_read b (RK3576_CLKSEL_CON 27) d
                in uart_clk_of b (drop_bit 13 (con AND push_bit 13 0x7)) (drop_bit 5 (con AND push_bit 5 0xff)) d
      else
        case rk3576_uart_desc n of
          None \<Rightarrow> (0, d)
        | Some desc \<Rightarrow>
            let (con, d) = rk3576_cru_read b (clksel desc) d
            in uart_clk_of b (drop_bit 8 (con AND push_bit 8 0x7)) (con AND 0xff) d)"

text \<open>\<^verbatim>\<open>(rk3576_uart_frac_get(i) != 0) && ((rk3576_uart_frac_get(i) % rate) == 0)\<close>.\<close>

definition frac_divides :: "'d soc \<Rightarrow> nat \<Rightarrow> u32 \<Rightarrow> 'd \<Rightarrow> bool \<times> 'd" where
  "frac_divides b i rate d =
     (let (f, d) = rk3576_uart_frac_get b i d
      in if f \<noteq> 0 then let (f, d) = rk3576_uart_frac_get b i d in (f mod rate = 0, d)
         else (False, d))"

text \<open>The choice of the source in \<^verbatim>\<open>rk3576_cru_set_uart_clk\<close>, and the divider for it.\<close>

definition uart_source :: "'d soc \<Rightarrow> u32 \<Rightarrow> 'd \<Rightarrow> (u32 \<times> u32) \<times> 'd" where
  "uart_source b rate d =
     (if RK3576_GPLL_HZ mod rate = 0 then ((UART_SEL_GPLL, RK3576_GPLL_HZ), d)
      else if RK3576_CPLL_HZ mod rate = 0 then ((UART_SEL_CPLL, RK3576_CPLL_HZ), d)
      else
        let (hit, d) = frac_divides b 0 rate d
        in if hit then let (f, d) = rk3576_uart_frac_get b 0 d in ((UART_SEL_FRAC0, f), d)
        else let (hit, d) = frac_divides b 1 rate d
        in if hit then let (f, d) = rk3576_uart_frac_get b 1 d in ((UART_SEL_FRAC1, f), d)
        else let (hit, d) = frac_divides b 2 rate d
        in if hit then let (f, d) = rk3576_uart_frac_get b 2 d in ((UART_SEL_FRAC2, f), d)
        else ((UART_SEL_OSC, RK3576_OSC_HZ), d))"

definition uart_divider :: "u32 \<Rightarrow> u32 \<Rightarrow> u32" where
  "uart_divider parent rate =
     (let dv = (parent + rate - 1) div rate
      in if dv = 0 then 1 else if dv > 256 then 256 else dv)"

definition rk3576_cru_set_uart_clk :: "'d soc \<Rightarrow> u32 \<Rightarrow> u32 \<Rightarrow> 'd \<Rightarrow> u32 \<times> 'd" where
  "rk3576_cru_set_uart_clk b n rate d =
     (if rate = 0 then (0, d)
      else
        let ((src, parent), d) = uart_source b rate d;
            dv = uart_divider parent rate
        in if n = 1 then
             let d = (if src = UART_SEL_OSC \<and> dv = 1
                      then rk3576_cru_hiword_update b (RK3576_PMU_CLKSEL_CON 8) 0x1 1 d
                      else let value = push_bit 13 src OR push_bit 5 (dv - 1);
                               d = rk3576_cru_hiword_update b (RK3576_CLKSEL_CON 27) (push_bit 13 0x7 OR push_bit 5 0xff) value d
                           in rk3576_cru_hiword_update b (RK3576_PMU_CLKSEL_CON 8) 0x1 0 d)
             in rk3576_cru_get_uart_clk b n d
           else
             case rk3576_uart_desc n of
               None \<Rightarrow> (0, d)
             | Some desc \<Rightarrow>
                 let value = push_bit 8 src OR (dv - 1);
                     d = rk3576_cru_hiword_update b (clksel desc) (push_bit 8 0x7 OR 0xff) value d
                 in rk3576_cru_get_uart_clk b n d)"

end
