(* ===== verification/Rk_Gpio.thy ===== *)
theory Rk_Gpio
  imports Rk_Pins Rk_Cru
begin

text \<open>
  The GPIO pins: \<^verbatim>\<open>src/driver/gpio/\<close> behind the pin interface of \<^verbatim>\<open>components/drivers/misc/pin.c\<close>. A pin is an input, an output or an open-drain output, which the driver emulates with the
  direction of the pin. The abstract pin has a function, a pull resistor, a direction, an output level and the open-drain mark; the operations of the driver act on one pin as the abstract ones do.
\<close>

section \<open>Registers of a bank\<close>

definition rk3576_gpio_write_bit :: "'d soc \<Rightarrow> u32 \<Rightarrow> u32 \<Rightarrow> u32 \<Rightarrow> bool \<Rightarrow> 'd \<Rightarrow> 'd" where
  "rk3576_gpio_write_bit b bank reg pin on d =
     (let reg = reg + (pin div 16) * 4;
          n = push_bit (unat (pin mod 16)) 1
      in hw_write b (gpio_bases ! unat bank + ucast reg) (push_bit 16 n OR (if on then n else 0)) d)"

definition rk3576_gpio_hw_set_direction :: "'d soc \<Rightarrow> u32 \<Rightarrow> u32 \<Rightarrow> bool \<Rightarrow> 'd \<Rightarrow> 'd" where
  "rk3576_gpio_hw_set_direction b bank pin output d = rk3576_gpio_write_bit b bank 0x0008 pin output d"

definition rk3576_gpio_hw_set_value :: "'d soc \<Rightarrow> u32 \<Rightarrow> u32 \<Rightarrow> bool \<Rightarrow> 'd \<Rightarrow> 'd" where
  "rk3576_gpio_hw_set_value b bank pin high d = rk3576_gpio_write_bit b bank 0x0000 pin high d"

definition rk3576_gpio_hw_get_value :: "'d soc \<Rightarrow> u32 \<Rightarrow> u32 \<Rightarrow> 'd \<Rightarrow> int \<times> 'd" where
  "rk3576_gpio_hw_get_value b bank pin d =
     (let (v, d) = hw_read b (gpio_bases ! unat bank + 0x0070) d
      in (if v AND push_bit (unat pin) 1 \<noteq> 0 then 1 else 0, d))"

definition rk3576_gpio_clock_enable :: "'d soc \<Rightarrow> u32 \<Rightarrow> 'd \<Rightarrow> rt_err_t \<times> 'd" where
  "rk3576_gpio_clock_enable b bank d =
     (if bank = 0 then
        (RT_EOK, rk3576_cru_gate_enable b (RK3576_PMU_CLKGATE_CON 7) 7 (rk3576_cru_gate_enable b (RK3576_PMU_CLKGATE_CON 7) 6 d))
      else if bank = 1 then
        (RT_EOK, rk3576_cru_gate_enable b (RK3576_CLKGATE_CON 18) 0 (rk3576_cru_gate_enable b (RK3576_CLKGATE_CON 17) 15 d))
      else if bank = 2 then
        (RT_EOK, rk3576_cru_gate_enable b (RK3576_CLKGATE_CON 18) 2 (rk3576_cru_gate_enable b (RK3576_CLKGATE_CON 18) 1 d))
      else if bank = 3 then
        (RT_EOK, rk3576_cru_gate_enable b (RK3576_CLKGATE_CON 18) 4 (rk3576_cru_gate_enable b (RK3576_CLKGATE_CON 18) 3 d))
      else if bank = 4 then
        (RT_EOK, rk3576_cru_gate_enable b (RK3576_CLKGATE_CON 18) 6 (rk3576_cru_gate_enable b (RK3576_CLKGATE_CON 18) 5 d))
      else (- RT_EINVAL, d))"

section \<open>The driver\<close>

abbreviation (input) PIN_LOW :: int where "PIN_LOW \<equiv> 0"
abbreviation (input) PIN_MODE_OUTPUT :: int where "PIN_MODE_OUTPUT \<equiv> 0"
abbreviation (input) PIN_MODE_INPUT :: int where "PIN_MODE_INPUT \<equiv> 1"
abbreviation (input) PIN_MODE_INPUT_PULLUP :: int where "PIN_MODE_INPUT_PULLUP \<equiv> 2"
abbreviation (input) PIN_MODE_INPUT_PULLDOWN :: int where "PIN_MODE_INPUT_PULLDOWN \<equiv> 3"
abbreviation (input) PIN_MODE_OUTPUT_OD :: int where "PIN_MODE_OUTPUT_OD \<equiv> 4"

text \<open>The hardware together with the array \<^verbatim>\<open>gpio_open_drain\<close>, a word for each bank, and whether \<^verbatim>\<open>_hw_pin.ops\<close> points to the operations of the driver (it is null before the pin device is registered).\<close>

record 'd gpio =
  gpio_hw :: 'd
  gpio_open_drain :: "u32 list"
  hw_pin_ops :: bool

definition upd_hw :: "('d \<Rightarrow> 'd) \<Rightarrow> 'd gpio \<Rightarrow> 'd gpio" where
  "upd_hw f s = s\<lparr>gpio_hw := f (gpio_hw s)\<rparr>"

definition rk3576_gpio_decode :: "int \<Rightarrow> (u32 \<times> u32) option" where
  "rk3576_gpio_decode pin =
     (if pin < 0 \<or> pin \<ge> 5 * 32 then None
      else Some (word_of_int pin div 32, word_of_int pin mod 32))"

definition set_drain :: "u32 \<Rightarrow> u32 \<Rightarrow> bool \<Rightarrow> 'd gpio \<Rightarrow> 'd gpio" where
  "set_drain bank n on s =
     s\<lparr>gpio_open_drain := (gpio_open_drain s)
       [unat bank := (if on then gpio_open_drain s ! unat bank OR n else gpio_open_drain s ! unat bank AND NOT n)]\<rparr>"

definition rk3576_pin_mode :: "'d soc \<Rightarrow> int \<Rightarrow> int \<Rightarrow> 'd gpio \<Rightarrow> 'd gpio" where
  "rk3576_pin_mode b pin mode s =
     (case rk3576_gpio_decode pin of
        None \<Rightarrow> s
      | Some (bank, offset) \<Rightarrow>
          if mode \<noteq> PIN_MODE_OUTPUT \<and> mode \<noteq> PIN_MODE_INPUT \<and> mode \<noteq> PIN_MODE_INPUT_PULLUP \<and> mode \<noteq> PIN_MODE_INPUT_PULLDOWN \<and> mode \<noteq> PIN_MODE_OUTPUT_OD
          then s
          else
            let (r, d) = rk3576_iomux_set b bank offset 0 (gpio_hw s);
                s = s\<lparr>gpio_hw := d\<rparr>
            in if r \<noteq> RT_EOK then s
               else
                 let n = push_bit (unat offset) 1;
                     s = set_drain bank n False s
                 in if mode = PIN_MODE_OUTPUT then
                      let s = upd_hw (\<lambda>d. snd (rk3576_pull_set b bank offset RK3576_PULL_NONE d)) s
                      in upd_hw (rk3576_gpio_hw_set_direction b bank offset True) s
                    else if mode = PIN_MODE_INPUT then
                      let s = upd_hw (rk3576_gpio_hw_set_direction b bank offset False) s
                      in upd_hw (\<lambda>d. snd (rk3576_pull_set b bank offset RK3576_PULL_NONE d)) s
                    else if mode = PIN_MODE_INPUT_PULLUP then
                      let s = upd_hw (rk3576_gpio_hw_set_direction b bank offset False) s
                      in upd_hw (\<lambda>d. snd (rk3576_pull_set b bank offset RK3576_PULL_UP d)) s
                    else if mode = PIN_MODE_INPUT_PULLDOWN then
                      let s = upd_hw (rk3576_gpio_hw_set_direction b bank offset False) s
                      in upd_hw (\<lambda>d. snd (rk3576_pull_set b bank offset RK3576_PULL_DOWN d)) s
                    else if mode = PIN_MODE_OUTPUT_OD then
                      let s = upd_hw (rk3576_gpio_hw_set_direction b bank offset False) s;
                          s = upd_hw (rk3576_gpio_hw_set_value b bank offset False) s
                      in set_drain bank n True s
                    else s)"

definition rk3576_pin_write :: "'d soc \<Rightarrow> int \<Rightarrow> int \<Rightarrow> 'd gpio \<Rightarrow> 'd gpio" where
  "rk3576_pin_write b pin value s =
     (case rk3576_gpio_decode pin of
        None \<Rightarrow> s
      | Some (bank, offset) \<Rightarrow>
          if gpio_open_drain s ! unat bank AND push_bit (unat offset) 1 \<noteq> 0 then
            if value = PIN_LOW then
              let s = upd_hw (rk3576_gpio_hw_set_value b bank offset False) s
              in upd_hw (rk3576_gpio_hw_set_direction b bank offset True) s
            else upd_hw (rk3576_gpio_hw_set_direction b bank offset False) s
          else upd_hw (rk3576_gpio_hw_set_value b bank offset (value \<noteq> PIN_LOW)) s)"

definition rk3576_pin_read :: "'d soc \<Rightarrow> int \<Rightarrow> 'd gpio \<Rightarrow> int \<times> 'd gpio" where
  "rk3576_pin_read b pin s =
     (case rk3576_gpio_decode pin of
        None \<Rightarrow> (PIN_LOW, s)
      | Some (bank, offset) \<Rightarrow> let (v, d) = rk3576_gpio_hw_get_value b bank offset (gpio_hw s) in (v, s\<lparr>gpio_hw := d\<rparr>))"

text \<open>The number of a pin by its name. A name is its characters up to the terminator, which is read as the character 0.\<close>

definition name_char :: "string \<Rightarrow> nat \<Rightarrow> nat" where
  "name_char s i = (if i < length s then of_char (s ! i) else 0)"

definition is_decimal :: "nat \<Rightarrow> bool" where "is_decimal c = (48 \<le> c \<and> c \<le> 57)"

fun pin_number :: "string \<Rightarrow> u32 \<Rightarrow> u32 \<times> string" where
  "pin_number [] pin = (pin, [])"
| "pin_number (c # cs) pin = (if is_decimal (of_char c) then pin_number cs (pin * 10 + of_nat (of_char c - 48)) else (pin, c # cs))"

definition rk3576_pin_get :: "string option \<Rightarrow> int" where
  "rk3576_pin_get name =
     (case name of
        None \<Rightarrow> - RT_EINVAL
      | Some s \<Rightarrow>
          if name_char s 0 \<noteq> 80 \<and> name_char s 0 \<noteq> 112 \<or> name_char s 1 < 48 \<or> name_char s 1 > 52 then - RT_EINVAL
          else
            let bank = of_nat (name_char s 1 - 48) :: u32;
                index = (if name_char s 2 = 46 then 3 else 2)
            in if \<not> is_decimal (name_char s index) then - RT_EINVAL
               else
                 let (pin, rest) = pin_number (drop index s) 0
                 in if rest \<noteq> [] \<or> pin \<ge> 32 then - RT_EINVAL
                    else uint (bank * 32 + pin))"

primrec gpio_clocks :: "'d soc \<Rightarrow> u32 list \<Rightarrow> 'd \<Rightarrow> rt_err_t \<times> 'd" where
  "gpio_clocks b [] d = (RT_EOK, d)"
| "gpio_clocks b (bank # banks) d =
     (let (ret, d) = rk3576_gpio_clock_enable b bank d in if ret \<noteq> RT_EOK then (ret, d) else gpio_clocks b banks d)"

text \<open>The calls of \<^verbatim>\<open>pin.c\<close>, which pass the pin to the driver once it is registered, and the conversion of a name given to the shell command, which puts a dot behind the second character
  into a buffer of six bytes (\<open>None\<close>: the buffer or the name is overrun).\<close>

definition rt_pin_mode :: "'d soc \<Rightarrow> int \<Rightarrow> int \<Rightarrow> 'd gpio \<Rightarrow> 'd gpio option" where
  "rt_pin_mode b pin mode s = do { rt_assert (hw_pin_ops s); Some (rk3576_pin_mode b pin mode s) }"

definition rt_pin_write :: "'d soc \<Rightarrow> int \<Rightarrow> int \<Rightarrow> 'd gpio \<Rightarrow> 'd gpio option" where
  "rt_pin_write b pin value s = do { rt_assert (hw_pin_ops s); Some (rk3576_pin_write b pin value s) }"

definition rt_pin_read :: "'d soc \<Rightarrow> int \<Rightarrow> 'd gpio \<Rightarrow> (int \<times> 'd gpio) option" where
  "rt_pin_read b pin s = do { rt_assert (hw_pin_ops s); Some (rk3576_pin_read b pin s) }"

definition rt_pin_get :: "string \<Rightarrow> 'd gpio \<Rightarrow> int option" where
  "rt_pin_get name s = do {
     rt_assert (hw_pin_ops s);
     Some (if name_char name 0 \<noteq> 80 \<and> name_char name 0 \<noteq> 112 then - RT_EINVAL else rk3576_pin_get (Some name))
   }"

definition to_upper :: "char \<Rightarrow> char" where
  "to_upper c = (if 97 \<le> (of_char c :: nat) \<and> (of_char c :: nat) \<le> 122 then char_of (of_char c - 32 :: nat) else c)"

definition pin_cmd_conv :: "string \<Rightarrow> 'd gpio \<Rightarrow> int option" where
  "pin_cmd_conv name s =
     (if length name < 2 then None
      else
        let format_name = [to_upper (name ! 0), to_upper (name ! 1)];
            sz = (if length name > 5 then 5 else length name) - 2;
            format_name = (if name_char name 2 \<noteq> 46 then format_name @ [char_of (46 :: nat)] else format_name);
            format_name = format_name @ take sz (drop 2 name)
        in if length format_name + 1 > 6 then None else rt_pin_get format_name s)"

section \<open>Pins of the chip\<close>

text \<open>The abstract pin.\<close>

record gpio_pin =
  gp_setup :: pin_setup
  gp_out :: bool        \<comment> \<open>the pin is driven\<close>
  gp_level :: bool      \<comment> \<open>the level it is driven with\<close>
  gp_drain :: bool      \<comment> \<open>the pin is an open-drain output\<close>

definition gpio_addr :: "u32 \<Rightarrow> u32 \<Rightarrow> u32 \<Rightarrow> u64" where
  "gpio_addr bank reg pin = gpio_bases ! unat bank + ucast (reg + (pin div 16) * 4)"

definition reg_pin :: "(u64 \<Rightarrow> u32) \<Rightarrow> u32 \<Rightarrow> u32 \<Rightarrow> u32 \<Rightarrow> bool" where
  "reg_pin v reg bank pin = bit (v (gpio_addr bank reg pin)) (unat pin mod 16)"

definition gpio_at :: "('d \<Rightarrow> u64 \<Rightarrow> u32) \<Rightarrow> 'd gpio \<Rightarrow> u32 \<Rightarrow> u32 \<Rightarrow> gpio_pin option" where
  "gpio_at view s bank pin = map_option
     (\<lambda>p. \<lparr>gp_setup = p, gp_out = reg_pin (view (gpio_hw s)) 8 bank pin, gp_level = reg_pin (view (gpio_hw s)) 0 bank pin,
        gp_drain = bit (gpio_open_drain s ! unat bank) (unat pin)\<rparr>)
     (pins (view (gpio_hw s)) bank pin)"

definition set_at :: "u32 \<Rightarrow> u32 \<Rightarrow> ('a \<Rightarrow> 'a) \<Rightarrow> (u32 \<Rightarrow> u32 \<Rightarrow> 'a option) \<Rightarrow> u32 \<Rightarrow> u32 \<Rightarrow> 'a option" where
  "set_at bank pin f g = (\<lambda>bk pn. if bk = bank \<and> pn = pin then map_option f (g bk pn) else g bk pn)"

lemma valid_cases:
  assumes "valid_pin bank pin"
  shows "bank \<in> {0, 1, 2, 3, 4}" "pin div 16 \<in> {0, 1}"
proof -
  have "unat bank \<in> {unat (0 :: u32), unat (1 :: u32), unat (2 :: u32), unat (3 :: u32), unat (4 :: u32)}"
    using assms by (auto simp: valid_pin_def word_less_nat_alt)
  then show "bank \<in> {0, 1, 2, 3, 4}" by (auto simp only: word_unat_eq_iff insert_iff empty_iff)
  have "unat (pin div 16) < 2" using assms by (simp add: valid_pin_def word_less_nat_alt unat_div div_less_iff_less_mult)
  then have "unat (pin div 16) \<in> {unat (0 :: u32), unat (1 :: u32)}" by auto
  then show "pin div 16 \<in> {0, 1}" by (auto simp only: word_unat_eq_iff insert_iff empty_iff)
qed

lemma gpio_addr_config:
  assumes "valid_pin bank pin" and "reg \<in> {0, 8}"
  shows "config_reg (gpio_addr bank reg pin)" "\<not> plain_reg (gpio_addr bank reg pin)" "0x27300000 \<le> unat (gpio_addr bank reg pin)"
  using valid_cases [OF assms(1)] assms(2) by (auto simp: gpio_addr_def gpio_bases_def config_reg_def gpio_reg_def plain_reg_def)

lemma gpio_addr_inj:
  assumes "valid_pin bank pin" and "reg \<in> {0, 8}" and "valid_pin bank' pin'" and "reg' \<in> {0, 8}"
  shows "(gpio_addr bank reg pin = gpio_addr bank' reg' pin') = (bank = bank' \<and> reg = reg' \<and> pin div 16 = pin' div 16)"
  using valid_cases [OF assms(1)] assms(2) valid_cases [OF assms(3)] assms(4) unfolding gpio_addr_def gpio_bases_def
  by (elim insertE emptyE) simp_all

lemma ioc_not_gpio:
  assumes "valid_pin bank pin" and "reg \<in> {0, 8}" and "r < 0xc000"
  shows "gpio_addr bank reg pin \<noteq> IOC_GRF_MMIO_BASE + ucast (r :: u32)"
  using gpio_addr_config(3) [OF assms(1,2)] unat_ioc [OF assms(3)] assms(3) by (auto simp: word_less_nat_alt)

lemma write_bit_view:
  assumes "soc_config b view" and "valid_pin bank pin" and "reg \<in> {0, 8}"
  shows "view (rk3576_gpio_write_bit b bank reg pin on d) =
    (view d)(gpio_addr bank reg pin := hiword_merge (view d (gpio_addr bank reg pin)) (HIWORD_UPDATE (push_bit (unat (pin mod 16)) 1) (if on then push_bit (unat (pin mod 16)) 1 else 0)))"
proof -
  have "unat (pin mod 16) < 16" by (simp add: unat_mod)
  then have "push_bit 16 n OR (if on then n else 0) = HIWORD_UPDATE n (if on then n else 0)" if "n = push_bit (unat (pin mod 16)) 1" for n
    unfolding that by (intro bit_word_eqI) (auto simp: bit_HIWORD bit_simps simp del: push_bit_of_1)
  then show ?thesis
    using soc_config.write_config [OF assms(1) gpio_addr_config(1) [OF assms(2,3)]] gpio_addr_config(2) [OF assms(2,3)]
    by (simp add: rk3576_gpio_write_bit_def gpio_addr_def written_def Let_def del: push_bit_of_1)
qed

text \<open>A write to a register of a bank sets one bit of one pin and leaves the multiplexer alone; a write to the multiplexer leaves the banks alone.\<close>

lemma reg_pin_write:
  assumes "soc_config b view" and "valid_pin bank pin" and "reg \<in> {0, 8}" and "valid_pin bk pn" and "reg' \<in> {0, 8}"
  shows "reg_pin (view (rk3576_gpio_write_bit b bank reg pin on d)) reg' bk pn = (if bk = bank \<and> pn = pin \<and> reg' = reg then on else reg_pin (view d) reg' bk pn)"
proof -
  have m: "unat (x mod 16) = unat x mod 16" for x :: u32 by (simp add: unat_mod)
  have "(pn div 16 = pin div 16 \<and> unat pn mod 16 = unat pin mod 16) = (pn = pin)"
    by (metis unat_div_distrib div_mult_mod_eq m word_unat_eq_iff)
  moreover have "bit (push_bit (unat pin mod 16) 1 :: u32) n = (n = unat pin mod 16)" if "n < 16" for n
    using that by (auto simp: bit_simps simp del: push_bit_of_1)
  ultimately show ?thesis
    using gpio_addr_inj [OF assms(4,5,2,3)]
    by (auto simp: reg_pin_def write_bit_view [OF assms(1-3)] bit_merge_HIWORD m simp del: push_bit_of_1)
qed

lemma pins_cong:
  assumes "\<And>r. r < 0xc000 \<Longrightarrow> v (IOC_GRF_MMIO_BASE + ucast (r :: u32)) = v' (IOC_GRF_MMIO_BASE + ucast r)"
  shows "pins v = pins v'"
proof (intro ext)
  fix bank pin
  show "pins v bank pin = pins v' bank pin"
  proof (cases "valid_pin bank pin")
    case True
    note i = pin_index_less [OF True]
    show ?thesis using assms mux.in_range [OF i] pull.in_range [OF i] drive.in_range [OF i] schmitt.in_range [OF i]
      by (simp add: pins_def field_get_def Let_def)
  qed (simp add: pins_def)
qed

lemma pins_write_bit:
  assumes "soc_config b view" and "valid_pin bank pin" and "reg \<in> {0, 8}"
  shows "pins (view (rk3576_gpio_write_bit b bank reg pin on d)) = pins (view d)"
  by (rule pins_cong) (simp add: write_bit_view [OF assms] ioc_not_gpio [OF assms(2,3), THEN not_sym])

lemma reg_pin_put:
  assumes "soc_config b view" and "valid_pin bk pn" and "reg \<in> {0, 8}" and "fst l < 0xc000"
  shows "reg_pin (view (field_put b l w x d)) reg bk pn = reg_pin (view d) reg bk pn"
  using ioc_not_gpio [OF assms(2-4)] by (simp add: reg_pin_def field_put_view [OF assms(1,4)])

lemma gpio_at_invalid: "\<not> valid_pin bk pn \<Longrightarrow> gpio_at view s bk pn = None" "\<not> valid_pin bk pn \<Longrightarrow> set_at bank pin f (gpio_at view s) bk pn = None"
  by (auto simp: gpio_at_def pins_def set_at_def)

lemma gpio_at_direction:
  assumes "soc_config b view" and "valid_pin bank pin"
  shows "gpio_at view (upd_hw (rk3576_gpio_hw_set_direction b bank pin on) s) = set_at bank pin (\<lambda>p. p\<lparr>gp_out := on\<rparr>) (gpio_at view s)"
    "gpio_at view (upd_hw (rk3576_gpio_hw_set_value b bank pin on) s) = set_at bank pin (\<lambda>p. p\<lparr>gp_level := on\<rparr>) (gpio_at view s)"
proof -
  have "gpio_at view (upd_hw (rk3576_gpio_write_bit b bank reg pin on) s) bk pn =
      set_at bank pin (\<lambda>p. if reg = 8 then p\<lparr>gp_out := on\<rparr> else p\<lparr>gp_level := on\<rparr>) (gpio_at view s) bk pn" if r: "reg \<in> {0, 8}" for reg bk pn
  proof (cases "valid_pin bk pn")
    case True
    then show ?thesis
      using reg_pin_write [OF assms r True, of 8] reg_pin_write [OF assms r True, of 0] r
      by (cases "pins (view (gpio_hw s)) bk pn") (auto simp: gpio_at_def set_at_def upd_hw_def pins_write_bit [OF assms r])
  qed (simp add: gpio_at_invalid)
  from this [of 8] this [of 0] show "gpio_at view (upd_hw (rk3576_gpio_hw_set_direction b bank pin on) s) = set_at bank pin (\<lambda>p. p\<lparr>gp_out := on\<rparr>) (gpio_at view s)"
    "gpio_at view (upd_hw (rk3576_gpio_hw_set_value b bank pin on) s) = set_at bank pin (\<lambda>p. p\<lparr>gp_level := on\<rparr>) (gpio_at view s)"
    by (simp_all add: fun_eq_iff upd_hw_def rk3576_gpio_hw_set_direction_def rk3576_gpio_hw_set_value_def)
qed

lemma gpio_at_put:
  assumes "soc_config b view" and "fst l < 0xc000" and "pins (view (field_put b l w x (gpio_hw s))) = set_pin bank pin f (pins (view (gpio_hw s)))"
  shows "gpio_at view (s\<lparr>gpio_hw := field_put b l w x (gpio_hw s)\<rparr>) = set_at bank pin (\<lambda>p. p\<lparr>gp_setup := f (gp_setup p)\<rparr>) (gpio_at view s)"
proof (intro ext)
  fix bk pn
  show "gpio_at view (s\<lparr>gpio_hw := field_put b l w x (gpio_hw s)\<rparr>) bk pn = set_at bank pin (\<lambda>p. p\<lparr>gp_setup := f (gp_setup p)\<rparr>) (gpio_at view s) bk pn"
  proof (cases "valid_pin bk pn")
    case True
    then show ?thesis
      using reg_pin_put [OF assms(1) True _ assms(2)]
      by (cases "pins (view (gpio_hw s)) bk pn") (auto simp: gpio_at_def set_at_def assms(3) set_pin_def)
  qed (simp add: gpio_at_invalid)
qed

lemma gpio_at_iomux:
  assumes "soc_config b view" and "valid_pin bank pin"
  shows "fst (rk3576_iomux_set b bank pin 0 d) = RT_EOK"
    "gpio_at view (upd_hw (\<lambda>d. snd (rk3576_iomux_set b bank pin 0 d)) s) = set_at bank pin (\<lambda>p. p\<lparr>gp_setup := (gp_setup p)\<lparr>ps_mux := 0\<rparr>\<rparr>) (gpio_at view s)"
    "pull \<le> 2 \<Longrightarrow> gpio_at view (upd_hw (\<lambda>d. snd (rk3576_pull_set b bank pin pull d)) s) =
      set_at bank pin (\<lambda>p. p\<lparr>gp_setup := (gp_setup p)\<lparr>ps_pull := pull_code pull\<rparr>\<rparr>) (gpio_at view s)"
  using mux.in_range [OF pin_index_less [OF assms(2)]] pull.in_range [OF pin_index_less [OF assms(2)]]
  by (simp_all add: upd_hw_def ops_put [OF assms(2)] put_pins [OF assms] gpio_at_put [OF assms(1)] small_code)

lemma gpio_at_drain:
  assumes "valid_pin bank pin" and "length (gpio_open_drain s) = 5"
  shows "gpio_at view (set_drain bank (push_bit (unat pin) 1) on s) = set_at bank pin (\<lambda>p. p\<lparr>gp_drain := on\<rparr>) (gpio_at view s)"
    "length (gpio_open_drain (set_drain bank n on s)) = 5"
proof (intro ext)
  fix bk pn
  show "gpio_at view (set_drain bank (push_bit (unat pin) 1) on s) bk pn = set_at bank pin (\<lambda>p. p\<lparr>gp_drain := on\<rparr>) (gpio_at view s) bk pn"
  proof (cases "valid_pin bk pn")
    case True
    then have "unat bk < 5" "unat pn < 32" "unat bank < 5" using assms(1) by (auto simp: valid_pin_def word_less_nat_alt)
    moreover have "bit (push_bit (unat pin) 1 :: u32) (unat pn) = (pn = pin)" using \<open>unat pn < 32\<close> by (auto simp: bit_simps word_unat_eq_iff simp del: push_bit_of_1)
    ultimately show ?thesis using assms(2)
      by (auto simp: gpio_at_def set_at_def set_drain_def nth_list_update bit_simps word_unat_eq_iff [of bk bank] option.map_comp comp_def simp del: push_bit_of_1
          split: if_splits intro!: option.map_cong)
  qed (simp add: gpio_at_invalid)
next
  show "length (gpio_open_drain (set_drain bank n on s)) = 5" using assms(2) by (simp add: set_drain_def)
qed

section \<open>Properties\<close>

text \<open>The pins by number, and the abstract operations.\<close>

definition gpio_view :: "('d \<Rightarrow> u64 \<Rightarrow> u32) \<Rightarrow> 'd gpio \<Rightarrow> int \<Rightarrow> gpio_pin option" where
  "gpio_view view s p = (case rk3576_gpio_decode p of None \<Rightarrow> None | Some (bank, pin) \<Rightarrow> gpio_at view s bank pin)"

definition with_pull :: "u32 \<Rightarrow> gpio_pin \<Rightarrow> gpio_pin" where
  "with_pull c p = p\<lparr>gp_setup := (gp_setup p)\<lparr>ps_mux := 0, ps_pull := c\<rparr>\<rparr>"

definition mode_pin :: "int \<Rightarrow> gpio_pin \<Rightarrow> gpio_pin" where
  "mode_pin m p =
     (if m = PIN_MODE_OUTPUT then (with_pull 0 (p\<lparr>gp_drain := False\<rparr>))\<lparr>gp_out := True\<rparr>
      else if m = PIN_MODE_INPUT then with_pull 0 (p\<lparr>gp_drain := False, gp_out := False\<rparr>)
      else if m = PIN_MODE_INPUT_PULLUP then with_pull 3 (p\<lparr>gp_drain := False, gp_out := False\<rparr>)
      else if m = PIN_MODE_INPUT_PULLDOWN then with_pull 1 (p\<lparr>gp_drain := False, gp_out := False\<rparr>)
      else if m = PIN_MODE_OUTPUT_OD then (with_pull (ps_pull (gp_setup p)) p)\<lparr>gp_out := False, gp_level := False, gp_drain := True\<rparr>
      else p)"

definition write_pin :: "int \<Rightarrow> gpio_pin \<Rightarrow> gpio_pin" where
  "write_pin v p =
     (if gp_drain p then if v = PIN_LOW then p\<lparr>gp_level := False, gp_out := True\<rparr> else p\<lparr>gp_out := False\<rparr>
      else p\<lparr>gp_level := (v \<noteq> PIN_LOW)\<rparr>)"

lemma decode_valid:
  assumes "rk3576_gpio_decode p = Some (bank, pin)"
  shows "valid_pin bank pin" "p = int (pin_index bank pin)"
proof -
  have p: "0 \<le> p" "p < 160" "bank = word_of_int p div 32" "pin = word_of_int p mod 32" using assms by (auto simp: rk3576_gpio_decode_def split: if_splits)
  have u: "unat (word_of_int p :: u32) = nat p" using p(1,2) by (simp add: unsigned_of_int take_bit_int_eq_self)
  have "unat bank = nat p div 32" "unat pin = nat p mod 32" unfolding p(3,4) by (simp_all add: unat_div unat_mod u)
  then show "valid_pin bank pin" "p = int (pin_index bank pin)"
    using p(1,2) by (auto simp: valid_pin_def pin_index_def word_less_nat_alt div_less_iff_less_mult)
qed

lemma view_set_at:
  assumes "rk3576_gpio_decode p = Some (bank, pin)" and "gpio_at view s' = set_at bank pin f (gpio_at view s)"
  shows "gpio_view view s' = (gpio_view view s)(p := map_option f (gpio_view view s p))"
proof
  fix q
  show "gpio_view view s' q = ((gpio_view view s)(p := map_option f (gpio_view view s p))) q"
    using assms(1) decode_valid(2) [OF assms(1)] decode_valid(2) [of q bank pin]
    by (cases "rk3576_gpio_decode q") (auto simp: gpio_view_def assms(2) set_at_def)
qed

lemma set_at_twice: "set_at bank pin f (set_at bank pin g h) = set_at bank pin (\<lambda>p. f (g p)) h"
  by (auto simp: set_at_def fun_eq_iff option.map_comp comp_def)

lemma pin_mode_at:
  assumes "soc_config b view" and "valid_pin bank pin" and "rk3576_gpio_decode p = Some (bank, pin)" and "length (gpio_open_drain s) = 5"
  shows "gpio_at view (rk3576_pin_mode b p mode s) = set_at bank pin (mode_pin mode) (gpio_at view s)" "length (gpio_open_drain (rk3576_pin_mode b p mode s)) = 5"
proof -
  note ops = gpio_at_direction [OF assms(1,2)] gpio_at_iomux(2,3) [OF assms(1,2)] set_at_twice
  let ?s = "upd_hw (\<lambda>d. snd (rk3576_iomux_set b bank pin 0 d)) s"
  have io: "rk3576_iomux_set b bank pin 0 (gpio_hw s) = (RT_EOK, gpio_hw ?s)" using gpio_at_iomux(1) [OF assms(1,2), of "gpio_hw s"] by (simp add: upd_hw_def prod_eq_iff)
  have s: "s\<lparr>gpio_hw := gpio_hw ?s\<rparr> = ?s" by (simp add: upd_hw_def)
  have len: "length (gpio_open_drain (upd_hw f x)) = length (gpio_open_drain x)" for f x by (simp add: upd_hw_def)
  have id: "set_at bank pin (\<lambda>p. p) g = g" for g :: "u32 \<Rightarrow> u32 \<Rightarrow> gpio_pin option" by (auto simp: set_at_def fun_eq_iff option.map_ident)
  have dl: "length (gpio_open_drain (set_drain bank n on x)) = length (gpio_open_drain x)" for n on and x :: "'a gpio" by (simp add: set_drain_def)
  show "gpio_at view (rk3576_pin_mode b p mode s) = set_at bank pin (mode_pin mode) (gpio_at view s)"
    using assms(4)
    by (simp add: rk3576_pin_mode_def assms(3) io s Let_def mode_pin_def [abs_def] with_pull_def ops gpio_at_drain [OF assms(2)] len dl pull_code_def id del: push_bit_of_1)
  show "length (gpio_open_drain (rk3576_pin_mode b p mode s)) = 5"
    using assms(4) by (simp add: rk3576_pin_mode_def assms(3) io s Let_def len dl)
qed

lemma and_push_bit_1:
  assumes "n < 32"
  shows "(x AND push_bit n 1 = 0) = (\<not> bit (x :: u32) n)"
proof -
  have "x AND push_bit n 1 = (if bit x n then push_bit n 1 else 0)" by (intro bit_word_eqI) (auto simp: bit_simps simp del: push_bit_of_1)
  moreover have "bit (push_bit n 1 :: u32) n" using assms by (simp add: bit_push_bit_iff del: push_bit_of_1)
  then have "push_bit n 1 \<noteq> (0 :: u32)" by (auto simp del: push_bit_of_1)
  ultimately show ?thesis by simp
qed

lemma pin_write_at:
  assumes "soc_config b view" and "valid_pin bank pin" and "rk3576_gpio_decode p = Some (bank, pin)"
  shows "gpio_at view (rk3576_pin_write b p value s) = set_at bank pin (write_pin value) (gpio_at view s)"
    "gpio_open_drain (rk3576_pin_write b p value s) = gpio_open_drain s"
proof -
  have "unat pin < 32" using assms(2) by (simp add: valid_pin_def word_less_nat_alt)
  then have od: "(gpio_open_drain s ! unat bank AND push_bit (unat pin) 1 \<noteq> 0) = bit (gpio_open_drain s ! unat bank) (unat pin)" by (simp add: and_push_bit_1 del: push_bit_of_1)
  have drain: "gp_drain q = bit (gpio_open_drain s ! unat bank) (unat pin)" if "gpio_at view s bank pin = Some q" for q
    using that by (auto simp: gpio_at_def)
  have cong: "set_at bank pin f (gpio_at view s) = set_at bank pin g (gpio_at view s)" if "\<And>q. gpio_at view s bank pin = Some q \<Longrightarrow> f q = g q" for f g
    using that by (auto simp: set_at_def fun_eq_iff intro!: option.map_cong)
  note ops = gpio_at_direction [OF assms(1,2)] set_at_twice
  show "gpio_at view (rk3576_pin_write b p value s) = set_at bank pin (write_pin value) (gpio_at view s)"
    unfolding rk3576_pin_write_def assms(3) option.case prod.case od
    by (auto simp: Let_def ops write_pin_def [abs_def] intro!: cong dest: drain simp del: push_bit_of_1)
  show "gpio_open_drain (rk3576_pin_write b p value s) = gpio_open_drain s"
    by (simp add: rk3576_pin_write_def assms(3) Let_def upd_hw_def)
qed

definition gpio_ok :: "'d gpio \<Rightarrow> bool" where
  "gpio_ok s = (length (gpio_open_drain s) = 5 \<and> hw_pin_ops s)"

lemma gpio_okD:
  assumes "gpio_ok s"
  shows "length (gpio_open_drain s) = 5" "hw_pin_ops s"
  using assms by (simp_all add: gpio_ok_def)

lemma pin_ops_kept:
  "hw_pin_ops (rk3576_pin_mode b pin mode s) = hw_pin_ops s" "hw_pin_ops (rk3576_pin_write b pin value s) = hw_pin_ops s"
  by (simp_all add: rk3576_pin_mode_def rk3576_pin_write_def set_drain_def upd_hw_def Let_def split_beta split: option.split)

lemma pin_ops_view:
  assumes "soc_config b view" and "gpio_ok s"
  shows "gpio_view view (rk3576_pin_mode b pin mode s) = (gpio_view view s)(pin := map_option (mode_pin mode) (gpio_view view s pin)) \<and>
    gpio_view view (rk3576_pin_write b pin value s) = (gpio_view view s)(pin := map_option (write_pin value) (gpio_view view s pin)) \<and>
    gpio_ok (rk3576_pin_mode b pin mode s) \<and> gpio_ok (rk3576_pin_write b pin value s)"
proof (cases "rk3576_gpio_decode pin")
  case None
  then show ?thesis using assms(2) by (auto simp: rk3576_pin_mode_def rk3576_pin_write_def gpio_view_def)
next
  case (Some x)
  obtain bank n where x: "rk3576_gpio_decode pin = Some (bank, n)" using Some by (cases x) auto
  note v = decode_valid(1) [OF x] and l = gpio_okD [OF assms(2)]
  show ?thesis
    using view_set_at [OF x pin_mode_at(1) [OF assms(1) v x l(1)]] view_set_at [OF x pin_write_at(1) [OF assms(1) v x]]
      pin_mode_at(2) [OF assms(1) v x l(1)] pin_write_at(2) [OF assms(1) v x] l by (simp add: gpio_ok_def pin_ops_kept)
qed

lemmas pin_op_views = pin_ops_view [THEN conjunct1] pin_ops_view [THEN conjunct2, THEN conjunct1] pin_ops_view [THEN conjunct2, THEN conjunct2, THEN conjunct1]
  pin_ops_view [THEN conjunct2, THEN conjunct2, THEN conjunct2]

text \<open>C39. The pin interface acts on one pin as the abstract pin does: \<^verbatim>\<open>rt_pin_mode\<close> gives the pin its function, direction, pull and open-drain mark, \<^verbatim>\<open>rt_pin_write\<close> sets its level (an open-drain pin is driven
  low or released), \<^verbatim>\<open>rt_pin_read\<close> returns the bit of the pin in the input register of its bank and changes nothing, and no other pin is touched. A number that is no pin has no effect. None of the calls runs into the assertion once the driver is registered, and all keep the state of the driver well-formed.\<close>

theorem pin_interface_refines:
  assumes "soc_config b view" and "gpio_ok s"
  shows "(\<exists>s'. rt_pin_mode b pin mode s = Some s' \<and> gpio_ok s' \<and> gpio_view view s' = (gpio_view view s)(pin := map_option (mode_pin mode) (gpio_view view s pin))) \<and>
    (\<exists>s'. rt_pin_write b pin value s = Some s' \<and> gpio_ok s' \<and> gpio_view view s' = (gpio_view view s)(pin := map_option (write_pin value) (gpio_view view s pin))) \<and>
    (\<exists>v s'. rt_pin_read b pin s = Some (v, s') \<and> gpio_ok s' \<and> gpio_view view s' = gpio_view view s \<and>
      v = (if 0 \<le> pin \<and> pin < 160 \<and> bit (fst (hw_read b (gpio_bases ! nat (pin div 32) + 0x70) (gpio_hw s))) (nat (pin mod 32)) then 1 else 0))"
proof -
  have "gpio_view view (snd (rk3576_pin_read b pin s)) = gpio_view view s"
    by (rule ext) (simp add: rk3576_pin_read_def rk3576_gpio_hw_get_value_def split_beta gpio_view_def gpio_at_def soc_config.read_keeps [OF assms(1)] split: option.split)
  moreover have "fst (rk3576_pin_read b pin s) = (if 0 \<le> pin \<and> pin < 160 \<and>
      bit (fst (hw_read b (gpio_bases ! nat (pin div 32) + 0x70) (gpio_hw s))) (nat (pin mod 32)) then 1 else 0)"
  proof (cases "0 \<le> pin \<and> pin < 160")
    case True
    have u: "unat (word_of_int pin :: u32) = nat pin" using True by (simp add: unsigned_of_int take_bit_int_eq_self)
    have "unat (word_of_int pin div 32 :: u32) = nat (pin div 32)" "unat (word_of_int pin mod 32 :: u32) = nat (pin mod 32)"
      using True by (simp_all add: unat_div unat_mod u nat_div_distrib nat_mod_distrib)
    moreover have "nat (pin mod 32) < 32" by simp
    moreover have "rk3576_gpio_decode pin = Some (word_of_int pin div 32, word_of_int pin mod 32)" using True by (simp add: rk3576_gpio_decode_def)
    ultimately show ?thesis using True
      by (simp add: rk3576_pin_read_def rk3576_gpio_hw_get_value_def split_beta Let_def and_push_bit_1 del: push_bit_of_1)
  qed (auto simp: rk3576_pin_read_def rk3576_gpio_decode_def)
  moreover have "gpio_ok (snd (rk3576_pin_read b pin s))" using assms(2) by (simp add: gpio_ok_def rk3576_pin_read_def split_beta split: option.split)
  ultimately show ?thesis using pin_op_views [OF assms] gpio_okD [OF assms(2)] by (simp add: rt_pin_mode_def rt_pin_write_def rt_pin_read_def prod_eq_iff)
qed

definition idle_gpio :: "(u64 \<Rightarrow> u32) gpio" where
  "idle_gpio = \<lparr>gpio_hw = \<lambda>_. 0, gpio_open_drain = replicate 5 0, hw_pin_ops = True\<rparr>"

theorem pin_interface_refines_witness:
  "\<exists>s. rt_pin_mode reg_file 37 PIN_MODE_OUTPUT idle_gpio = Some s \<and> map_option gp_out (gpio_view file_view s 37) = Some True \<and>
   gpio_view file_view s 38 = gpio_view file_view idle_gpio 38"
proof -
  have ok: "gpio_ok idle_gpio" by (simp add: gpio_ok_def idle_gpio_def)
  obtain q where "gpio_view file_view idle_gpio 37 = Some q"
    by (simp add: gpio_view_def rk3576_gpio_decode_def gpio_at_def pins_def valid_pin_def Let_def)
  moreover obtain s where "rt_pin_mode reg_file 37 PIN_MODE_OUTPUT idle_gpio = Some s"
    "gpio_view file_view s = (gpio_view file_view idle_gpio)(37 := map_option (mode_pin PIN_MODE_OUTPUT) (gpio_view file_view idle_gpio 37))"
    using pin_interface_refines [OF regs.soc_config_axioms ok, of 37 PIN_MODE_OUTPUT] by blast
  ultimately show ?thesis by (simp add: mode_pin_def)
qed

text \<open>Histories of calls.\<close>

datatype pin_call = Mode int int | Write int int

fun pin_run :: "'d soc \<Rightarrow> pin_call list \<Rightarrow> 'd gpio \<Rightarrow> 'd gpio option" where
  "pin_run b [] s = Some s"
| "pin_run b (Mode pin mode # cs) s = do { s \<leftarrow> rt_pin_mode b pin mode s; pin_run b cs s }"
| "pin_run b (Write pin value # cs) s = do { s \<leftarrow> rt_pin_write b pin value s; pin_run b cs s }"

definition drains_low :: "(int \<Rightarrow> gpio_pin option) \<Rightarrow> bool" where
  "drains_low g = (\<forall>p q. g p = Some q \<longrightarrow> gp_drain q \<longrightarrow> \<not> gp_level q)"

lemma drains_low_step:
  assumes "drains_low g"
  shows "drains_low (g(p := map_option (mode_pin m) (g p)))" "drains_low (g(p := map_option (write_pin v) (g p)))"
  using assms by (auto simp: drains_low_def mode_pin_def write_pin_def with_pull_def split: if_splits)

lemma drains_low_run:
  assumes "soc_config b view"
  shows "gpio_ok s \<Longrightarrow> drains_low (gpio_view view s) \<Longrightarrow> \<exists>s'. pin_run b cs s = Some s' \<and> drains_low (gpio_view view s') \<and> gpio_ok s'"
proof (induction cs arbitrary: s)
  case (Cons c cs)
  note v = pin_op_views [OF assms Cons.prems(1)] and d = drains_low_step [OF Cons.prems(2)] and ops = gpio_okD(2) [OF Cons.prems(1)]
  show ?case
  proof (cases c)
    case (Mode pin mode)
    have "drains_low (gpio_view view (rk3576_pin_mode b pin mode s))" unfolding v(1) by (rule d(1))
    then show ?thesis using Cons.IH [OF v(3)] Mode ops by (simp add: rt_pin_mode_def)
  next
    case (Write pin x)
    have "drains_low (gpio_view view (rk3576_pin_write b pin x s))" unfolding v(2) by (rule d(2))
    then show ?thesis using Cons.IH [OF v(4)] Write ops by (simp add: rt_pin_write_def)
  qed
qed simp

text \<open>C40. Starting with no open-drain pins, every sequence of calls runs to its end and none ever drives an open-drain pin high: it is low or released. A further write to such a pin drives it low exactly
  when the value is \<^verbatim>\<open>PIN_LOW\<close>.\<close>

theorem open_drain_never_driven_high:
  assumes "soc_config b view" and "gpio_ok s" and "gpio_open_drain s = replicate 5 0"
  shows "\<exists>s'. pin_run b cs s = Some s' \<and> (\<forall>p q. gpio_view view s' p = Some q \<longrightarrow> gp_drain q \<longrightarrow>
    \<not> (gp_out q \<and> gp_level q) \<and>
    (\<exists>s'' q'. rt_pin_write b p value s' = Some s'' \<and> gpio_view view s'' p = Some q' \<and> gp_drain q' \<and> gp_out q' = (value = PIN_LOW) \<and> \<not> gp_level q'))"
proof -
  have "\<not> gp_drain q" if "gpio_view view s p = Some q" for p q
  proof -
    obtain bank pin where d: "rk3576_gpio_decode p = Some (bank, pin)" using \<open>gpio_view view s p = Some q\<close> by (auto simp: gpio_view_def split: option.splits)
    have "unat bank < 5" using decode_valid(1) [OF d] by (simp add: valid_pin_def word_less_nat_alt)
    then show ?thesis using that assms(3) by (auto simp: gpio_view_def d gpio_at_def)
  qed
  then have "drains_low (gpio_view view s)" by (auto simp: drains_low_def)
  then obtain s' where run: "pin_run b cs s = Some s'" "drains_low (gpio_view view s')" "gpio_ok s'" using drains_low_run [OF assms(1,2)] by blast
  have "\<not> gp_level q \<and> rt_pin_write b p value s' = Some (rk3576_pin_write b p value s') \<and> gpio_view view (rk3576_pin_write b p value s') p = Some (write_pin value q)"
    if "gpio_view view s' p = Some q" "gp_drain q" for p q
    using that run(2) gpio_okD(2) [OF run(3)] by (auto simp: drains_low_def rt_pin_write_def pin_op_views [OF assms(1) run(3)])
  then show ?thesis using run(1) by (fastforce simp: write_pin_def)
qed

theorem open_drain_never_driven_high_witness:
  "\<exists>s' q. pin_run reg_file [Write 37 1, Mode 37 PIN_MODE_OUTPUT_OD, Write 37 0, Write 37 1] idle_gpio = Some s' \<and>
     gpio_view file_view s' 37 = Some q \<and> gp_drain q \<and> \<not> (gp_out q \<and> gp_level q)"
proof -
  let ?cs = "[Write 37 1, Mode 37 PIN_MODE_OUTPUT_OD, Write 37 0, Write 37 1]"
  note v = pin_op_views [OF regs.soc_config_axioms]
  have ok: "gpio_ok idle_gpio" and od: "gpio_open_drain idle_gpio = replicate 5 0" by (simp_all add: gpio_ok_def idle_gpio_def)
  obtain q0 where q0: "gpio_view file_view idle_gpio 37 = Some q0"
    by (simp add: gpio_view_def rk3576_gpio_decode_def gpio_at_def pins_def valid_pin_def Let_def)
  let ?q = "write_pin 1 (write_pin 0 (mode_pin 4 (write_pin 1 q0)))"
  obtain s' where s': "pin_run reg_file ?cs idle_gpio = Some s'" "gpio_view file_view s' 37 = Some ?q"
    using v ok q0 gpio_okD(2) [OF ok] by (simp add: rt_pin_mode_def rt_pin_write_def pin_ops_kept)
  moreover have "gp_drain ?q" by (simp add: write_pin_def mode_pin_def)
  ultimately show ?thesis using open_drain_never_driven_high [OF regs.soc_config_axioms ok od, of ?cs] by force
qed

section \<open>Names\<close>

text \<open>The names of the 160 pins are read as their numbers, with and without the dot and with either letter.\<close>

definition digit :: "nat \<Rightarrow> char" where "digit n = char_of (n + 48)"

definition pin_digits :: "nat \<Rightarrow> string" where
  "pin_digits pin = (if pin < 10 then [digit pin] else [digit (pin div 10), digit (pin mod 10)])"

lemma of_digit: "n < 10 \<Longrightarrow> of_char (digit n) = n + 48"
  by (simp add: digit_def)

lemma pin_number_digits:
  assumes "pin < 32"
  shows "pin_number (pin_digits pin) 0 = (of_nat pin, [])"
proof -
  have digits: "is_decimal (pin div 10 + 48)" "is_decimal (pin mod 10 + 48)" "pin < 10 \<Longrightarrow> is_decimal (pin + 48)"
    using assms mod_less_divisor [of 10 pin] by (simp_all add: is_decimal_def)
  have "pin div 10 < 10" "pin mod 10 < 10" using assms by auto
  moreover have "of_nat (pin div 10) * 10 + of_nat (pin mod 10) = (of_nat pin :: u32)" by (metis div_mult_mod_eq of_nat_add of_nat_mult of_nat_numeral)
  ultimately show ?thesis using digits by (simp add: pin_digits_def of_digit)
qed

lemma pin_names_read:
  assumes "bank < 5" and "pin < 32" and "c \<in> {CHR ''P'', CHR ''p''}" and "hw_pin_ops s"
  shows "rt_pin_get (c # digit bank # CHR ''.'' # pin_digits pin) s = Some (int (32 * bank + pin))" "rt_pin_get (c # digit bank # pin_digits pin) s = Some (int (32 * bank + pin))"
proof -
  have u: "uint (of_nat bank * 32 + of_nat pin :: u32) = int (32 * bank + pin)"
    using assms(1,2) by (simp add: uint_word_ariths unsigned_of_nat take_bit_nat_eq_self)
  have lt: "\<not> (32 :: u32) \<le> of_nat pin" using assms(2) by (simp add: word_le_nat_alt unsigned_of_nat take_bit_nat_eq_self)
  obtain x xs where x: "pin_digits pin = digit x # xs" "x < 10"
    by (rule that [of "if pin < 10 then pin else pin div 10" "if pin < 10 then [] else [digit (pin mod 10)]"]) (use assms(2) in \<open>auto simp: pin_digits_def\<close>)
  have num: "pin_number (digit x # xs) 0 = (of_nat pin, [])" using pin_number_digits [OF assms(2)] by (simp only: x(1))
  have ch: "name_char (c # y) 0 = of_char c" "name_char (c # digit bank # y) 1 = bank + 48" "name_char (c # e # f # y) 2 = of_char f" "name_char (c # e # f # digit x # y) 3 = x + 48" for e f y
    using assms(1) x(2) by (simp_all add: name_char_def of_digit)
  have c: "(of_char c :: nat) = 80 \<or> (of_char c :: nat) = 112" using assms(3) by auto
  have d: "is_decimal (x + 48)" "x + 48 \<noteq> 46" using x(2) by (simp_all add: is_decimal_def)
  have g: "rk3576_pin_get (Some (c # digit bank # CHR ''.'' # digit x # xs)) = int (32 * bank + pin)" "rk3576_pin_get (Some (c # digit bank # digit x # xs)) = int (32 * bank + pin)"
    unfolding rk3576_pin_get_def option.case Let_def ch of_digit [OF x(2)] using c assms(1) d by (auto simp: num lt u ch of_digit [OF x(2)] simp del: pin_number.simps)
  show "rt_pin_get (c # digit bank # CHR ''.'' # pin_digits pin) s = Some (int (32 * bank + pin))" "rt_pin_get (c # digit bank # pin_digits pin) s = Some (int (32 * bank + pin))"
    unfolding x(1) rt_pin_get_def ch g using c assms(4) by auto
qed

text \<open>The number wraps: the name \<open>P0.4294967297\<close> is taken for pin 1. A name of five characters without a dot overruns the buffer of the shell command.\<close>

lemma pin_number_wraps: "rt_pin_get ''P0.4294967297'' idle_gpio = Some 1"
  by code_simp

lemma pin_cmd_conv_overruns: "pin_cmd_conv ''P0123'' idle_gpio = None" "pin_cmd_conv ''P012'' idle_gpio = Some 12"
  by code_simp+

end
