(* ===== verification/Rk_Clock.thy ===== *)
theory Rk_Clock
  imports Rk_Cru
begin

text \<open>
  The clock tree behind \<^verbatim>\<open>src/driver/drv_cru.c\<close>: the frequency of every UART clock, in natural numbers, as the configuration registers have it, and the
  proof that the driver reads it and sets it.
\<close>

section \<open>The clock tree\<close>

definition cru :: "(u64 \<Rightarrow> u32) \<Rightarrow> u32 \<Rightarrow> u32" where
  "cru v offset = v (CRU_MMIO_BASE + ucast offset)"

definition pll_hz :: "nat \<Rightarrow> nat" where
  "pll_hz s = (if s = 0 then 1188000000 else if s = 1 then 1000000000 else if s = 2 then 786432000 else 24000000)"

text \<open>A fractional clock is a PLL times a numerator over a denominator, cut to 32 bits.\<close>

definition frac_hz :: "(u64 \<Rightarrow> u32) \<Rightarrow> nat \<Rightarrow> nat" where
  "frac_hz v i =
     (let r = cru v (frac_div (uart_fracs ! i)); num = unat (drop_bit 16 r); den = unat (take_bit 16 r)
      in if den = 0 then 0 else pll_hz (unat (take_bit 2 (cru v (frac_sel (uart_fracs ! i))))) * num div den mod 2 ^ 32)"

definition source_hz :: "(u64 \<Rightarrow> u32) \<Rightarrow> nat \<Rightarrow> nat" where
  "source_hz v src = (if src < 4 then pll_hz src else if src < 7 then frac_hz v (src - 4) else 24000000)"

text \<open>The source and the divider of UART \<open>n\<close>.\<close>

definition uart_select :: "(u64 \<Rightarrow> u32) \<Rightarrow> u32 \<Rightarrow> nat \<times> nat" where
  "uart_select v n =
     (if n = 1 then
        if bit (cru v (RK3576_PMU_CLKSEL_CON 8)) 0 then (3, 1)
        else let r = cru v (RK3576_CLKSEL_CON 27) in (unat (take_bit 3 (drop_bit 13 r)), unat (take_bit 8 (drop_bit 5 r)) + 1)
      else
        let r = cru v (clksel (the (rk3576_uart_desc n))) in (unat (take_bit 3 (drop_bit 8 r)), unat (take_bit 8 r) + 1))"

definition uart_hz :: "(u64 \<Rightarrow> u32) \<Rightarrow> u32 \<Rightarrow> nat" where
  "uart_hz v n = (case uart_select v n of (src, dv) \<Rightarrow> source_hz v src div dv)"

text \<open>The source the driver takes for a rate, the first of its list that the rate divides, and the divider, rounded up and cut at 256.\<close>

definition pick_source :: "(u64 \<Rightarrow> u32) \<Rightarrow> nat \<Rightarrow> nat" where
  "pick_source v rate = (case find (\<lambda>src. source_hz v src \<noteq> 0 \<and> rate dvd source_hz v src) [0, 1, 4, 5, 6] of None \<Rightarrow> 3 | Some src \<Rightarrow> src)"

definition pick_divider :: "nat \<Rightarrow> nat \<Rightarrow> nat" where
  "pick_divider hz rate = max 1 (min 256 ((hz + rate - 1) div rate))"

section \<open>Reading\<close>

lemma unat_cru: "offset < 0x50000 \<Longrightarrow> unat (CRU_MMIO_BASE + ucast (offset :: u32) :: u64) = 0x27200000 + unat offset"
  by (subst unat_word_ariths) (simp add: unat_widen word_less_nat_alt)

lemma cru_range: "offset < 0x50000 \<Longrightarrow> config_reg (CRU_MMIO_BASE + ucast (offset :: u32))"
  by (simp add: config_reg_def word_le_nat_alt word_less_nat_alt unat_cru)

lemma and_masks:
  "(x :: u32) AND 0xffff = take_bit 16 x" "x AND 0xff = take_bit 8 x" "x AND 0x7 = take_bit 3 x" "x AND 0x3 = take_bit 2 x"
  by (simp_all add: take_bit_eq_mask mask_eq_exp_minus_1)

lemma upper_half: "take_bit 16 (drop_bit 16 (x :: u32)) = drop_bit 16 x"
  by (rule bit_word_eqI) (auto simp: bit_simps dest: bit_imp_le_length)

lemma field_less: "take_bit 3 (x :: u32) < 8" "take_bit 8 (x :: u32) < 256"
  using take_bit_nat_less_exp [of 3 "unat x"] take_bit_nat_less_exp [of 8 "unat x"]
  by (simp_all add: word_less_nat_alt unsigned_take_bit_eq)

lemma word_mod_dvd: "((x :: u32) mod r = 0) = (unat r dvd unat x)"
  by (simp add: dvd_eq_mod_eq_0 word_unat_eq_iff unat_mod)

lemma parent_rate: "unat (rk3576_cru_parent_rate (take_bit 2 c)) = pll_hz (unat (take_bit 2 c))"
  by (simp add: rk3576_cru_parent_rate_def pll_hz_def word_unat_eq_iff)

text \<open>The table has the UARTs 0 and 2 to 11, each with a register of its own.\<close>

lemma desc_cases:
  assumes "n < 12" and "n \<noteq> 1"
  shows "\<exists>desc. rk3576_uart_desc n = Some desc \<and> desc \<in> set uart_clks \<and> ucast (uart_id desc) = n"
proof -
  have "unat n < 12" using assms(1) by (simp add: word_less_nat_alt)
  moreover have "unat n \<noteq> 1" using assms(2) by (simp add: word_unat_eq_iff)
  ultimately have "unat n \<in> {0, 2, 3, 4, 5, 6, 7, 8, 9, 10, 11}" by (simp; presburger)
  then have "n \<in> {0, 2, 3, 4, 5, 6, 7, 8, 9, 10, 11}" by (auto simp: word_unat_eq_iff)
  then show ?thesis by (elim insertE emptyE) (simp_all add: rk3576_uart_desc_def uart_clks_def uart_clk_desc_def)
qed

lemma desc_regs: "desc \<in> set uart_clks \<Longrightarrow> clksel desc < 0x50000 \<and> 0x3f0 \<le> clksel desc \<and> clksel desc \<le> 0x418"
  by (auto simp: uart_clks_def uart_clk_desc_def)

lemma desc_inj: "x \<in> set uart_clks \<Longrightarrow> y \<in> set uart_clks \<Longrightarrow> clksel x = clksel y \<Longrightarrow> uart_id x = uart_id y"
  by (auto simp: uart_clks_def uart_clk_desc_def)

text \<open>What the driver reads, on any chip that keeps the contract of the configuration registers.\<close>

context soc_config
begin

lemma cru_read_eq:
  assumes "offset < 0x50000"
  shows "fst (rk3576_cru_read b offset d) = cru (view d) offset" "view (snd (rk3576_cru_read b offset d)) = view d"
  using cru_range [OF assms] by (simp_all add: rk3576_cru_read_def cru_def read_value read_keeps)

lemma frac_get_eq:
  assumes "i < 3"
  shows "unat (fst (rk3576_uart_frac_get b i d)) = frac_hz (view d) i" "view (snd (rk3576_uart_frac_get b i d)) = view d"
proof -
  have i: "i \<in> {0, 1, 2}" using assms by auto
  then have r: "frac_sel (uart_fracs ! i) < 0x50000" "frac_div (uart_fracs ! i) < 0x50000" "\<not> length uart_fracs \<le> i"
    by (auto simp: uart_fracs_def)
  show "view (snd (rk3576_uart_frac_get b i d)) = view d"
    using r by (simp add: rk3576_uart_frac_get_def split_beta Let_def cru_read_eq)
  let ?p = "rk3576_cru_parent_rate (take_bit 2 (cru (view d) (frac_sel (uart_fracs ! i))))"
  let ?r = "cru (view d) (frac_div (uart_fracs ! i))"
  have "unat ?p \<le> 1188000000" by (simp add: rk3576_cru_parent_rate_def)
  moreover have "unat (drop_bit 16 ?r) < 65536" using unsigned_less [of ?r, where ?'a = nat] by (simp add: drop_bit_eq_div unat_div)
  ultimately have "unat ?p * unat (drop_bit 16 ?r) \<le> 1188000000 * 65535" by (intro mult_mono) auto
  then have m: "unat (ucast ?p * ucast (drop_bit 16 ?r) :: u64) = unat ?p * unat (drop_bit 16 ?r)"
    by (subst unat_word_ariths) (simp add: unat_widen)
  have "unat (ucast ((ucast ?p * ucast (drop_bit 16 ?r) :: u64) div ucast (take_bit 16 ?r)) :: u32) =
      unat ?p * unat (drop_bit 16 ?r) div unat (take_bit 16 ?r) mod 2 ^ 32"
    by (simp add: unsigned_ucast_eq [where 'b = 64] unat_div m unat_widen take_bit_eq_mod [where 'a = nat])
  then show "unat (fst (rk3576_uart_frac_get b i d)) = frac_hz (view d) i"
    using r by (simp add: rk3576_uart_frac_get_def split_beta Let_def cru_read_eq and_masks upper_half frac_hz_def parent_rate word_unat_eq_iff)
qed

lemma parent_eq:
  assumes "src < 8"
  shows "unat (fst (uart_parent b src d)) = source_hz (view d) (unat src)" "view (snd (uart_parent b src d)) = view d"
proof -
  show "view (snd (uart_parent b src d)) = view d" by (simp add: uart_parent_def frac_get_eq)
  have "unat src < 8" using assms by (simp add: word_less_nat_alt)
  then have "unat src \<in> {0, 1, 2, 3, 4, 5, 6, 7}" by auto
  then have "src \<in> {0, 1, 2, 3, 4, 5, 6, 7}" by (auto simp: word_unat_eq_iff)
  then show "unat (fst (uart_parent b src d)) = source_hz (view d) (unat src)"
    by (auto simp: uart_parent_def source_hz_def pll_hz_def frac_get_eq)
qed

lemma clk_of_eq:
  assumes "src < 8" and "dv < 256"
  shows "unat (fst (uart_clk_of b src dv d)) = source_hz (view d) (unat src) div (unat dv + 1)" "view (snd (uart_clk_of b src dv d)) = view d"
proof -
  have "unat (dv + 1) = unat dv + 1" using assms(2) by (subst unat_word_ariths) (simp add: word_less_nat_alt)
  then show "unat (fst (uart_clk_of b src dv d)) = source_hz (view d) (unat src) div (unat dv + 1)"
    by (simp add: uart_clk_of_def split_beta unat_div parent_eq [OF assms(1)])
  show "view (snd (uart_clk_of b src dv d)) = view d" by (simp add: uart_clk_of_def split_beta parent_eq [OF assms(1)])
qed

lemma get_uart_clk_eq:
  assumes "n < 12"
  shows "unat (fst (rk3576_cru_get_uart_clk b n d)) = uart_hz (view d) n" "view (snd (rk3576_cru_get_uart_clk b n d)) = view d"
proof -
  show "unat (fst (rk3576_cru_get_uart_clk b n d)) = uart_hz (view d) n"
  proof (cases "n = 1")
    case True
    then show ?thesis
      by (auto simp: rk3576_cru_get_uart_clk_def split_beta Let_def cru_read_eq clk_of_eq field_less uart_hz_def uart_select_def bit_0 and_masks
          and_one_eq odd_iff_mod_2_eq_one even_iff_mod_2_eq_zero source_hz_def [of _ 3] pll_hz_def [of 3])
  next
    case False
    then obtain desc where "rk3576_uart_desc n = Some desc" "clksel desc < 0x50000" using desc_cases [OF assms] desc_regs by blast
    then show ?thesis using False
      by (simp add: rk3576_cru_get_uart_clk_def split_beta Let_def cru_read_eq clk_of_eq field_less uart_hz_def uart_select_def and_masks)
  qed
  show "view (snd (rk3576_cru_get_uart_clk b n d)) = view d"
  proof (cases "n = 1")
    case True
    then show ?thesis by (simp add: rk3576_cru_get_uart_clk_def split_beta Let_def cru_read_eq clk_of_eq field_less and_masks)
  next
    case False
    then obtain desc where "rk3576_uart_desc n = Some desc" "clksel desc < 0x50000" using desc_cases [OF assms] desc_regs by blast
    then show ?thesis using False by (simp add: rk3576_cru_get_uart_clk_def split_beta Let_def cru_read_eq clk_of_eq field_less and_masks)
  qed
qed

lemma frac_divides_eq:
  assumes "i < 3"
  shows "fst (frac_divides b i rate d) = (frac_hz (view d) i \<noteq> 0 \<and> unat rate dvd frac_hz (view d) i)" "view (snd (frac_divides b i rate d)) = view d"
proof -
  let ?g = "rk3576_uart_frac_get b i"
  have "fst (?g (snd (?g d))) = fst (?g d)" by (simp add: word_unat_eq_iff frac_get_eq [OF assms])
  then show "fst (frac_divides b i rate d) = (frac_hz (view d) i \<noteq> 0 \<and> unat rate dvd frac_hz (view d) i)"
    by (auto simp: frac_divides_def split_beta Let_def word_mod_dvd unat_gt_0 simp flip: frac_get_eq(1) [OF assms])
  show "view (snd (frac_divides b i rate d)) = view d" by (simp add: frac_divides_def split_beta Let_def frac_get_eq [OF assms])
qed

lemma source_eq:
  "unat (fst (fst (uart_source b rate d))) = pick_source (view d) (unat rate)"
  "unat (snd (fst (uart_source b rate d))) = source_hz (view d) (pick_source (view d) (unat rate))"
  "view (snd (uart_source b rate d)) = view d"
  by (simp_all add: uart_source_def split_beta Let_def frac_divides_eq frac_get_eq pick_source_def source_hz_def pll_hz_def word_mod_dvd)

end

section \<open>Setting\<close>

lemma divider_eq:
  assumes "rate \<noteq> 0" and "unat parent \<le> 2 ^ 31"
  shows "unat (uart_divider parent rate) = pick_divider (unat parent) (unat rate)"
proof -
  let ?p = "unat parent" and ?r = "unat rate"
  have r: "?r > 0" using assms(1) by (simp add: word_unat_eq_iff)
  have eq: "unat (parent + rate - 1) = (?p + ?r - 1) mod 2 ^ 32"
  proof -
    have "unat (rate - 1) = ?r - 1" using assms(1) by (simp add: unat_minus_one)
    moreover have "parent + rate - 1 = parent + (rate - 1)" by simp
    ultimately show ?thesis using r by (simp only: unat_word_ariths) simp
  qed
  let ?q = "(?p + ?r - 1) div ?r"
  have d: "unat ((parent + rate - 1) div rate) = (if ?p + ?r - 1 < 2 ^ 32 then ?q else 0)"
  proof (cases "?p + ?r - 1 < 2 ^ 32")
    case False
    have "?r < 2 ^ 32" using unsigned_less [of rate, where ?'a = nat] by simp
    then have "?p + ?r - 1 - 2 ^ 32 < 2 ^ 32 \<and> ?p + ?r - 1 - 2 ^ 32 < ?r" using False assms(2) r by (simp; linarith)
    then have "(?p + ?r - 1) mod 2 ^ 32 < ?r" using False by (simp add: le_mod_geq)
    then show ?thesis using False by (simp add: unat_div eq)
  qed (simp add: unat_div eq)
  have one: "?q = 1" if "\<not> ?p + ?r - 1 < 2 ^ 32"
  proof -
    have "0 < ?p" "?p \<le> ?r" using that assms(2) unsigned_less [of rate, where ?'a = nat] by auto
    then show ?thesis by (intro div_nat_eqI) auto
  qed
  let ?v = "(parent + rate - 1) div rate"
  have "uart_divider parent rate = (if unat ?v = 0 then 1 else if unat ?v > 256 then 256 else ?v)"
    unfolding uart_divider_def Let_def by (simp add: word_less_nat_alt word_unat_eq_iff)
  then show ?thesis using d one by (auto simp: pick_divider_def)
qed

lemma pick_exact:
  assumes "rate dvd hz" and "hz \<noteq> 0" and "hz \<le> 256 * rate"
  shows "hz div pick_divider hz rate = rate"
proof -
  obtain q where q: "hz = rate * q" using assms(1) by blast
  have r: "0 < rate" "0 < q" using assms(2) q by auto
  have "(rate * q + rate - 1) div rate = q" using r by (intro div_nat_eqI) auto
  moreover have "q \<le> 256" using assms(3) q r by simp
  ultimately show ?thesis using r by (simp add: q pick_divider_def)
qed

text \<open>The two fields of a clock register after a masked write of both.\<close>

lemma select_fields:
  assumes "src < 8" and "dv < 256"
  shows "take_bit 3 (drop_bit 8 ((old AND NOT 0x7ff) OR ((push_bit 8 src OR dv) AND 0x7ff))) = src"
    "take_bit 8 ((old AND NOT 0x7ff) OR ((push_bit 8 src OR dv) AND 0x7ff)) = (dv :: u32)"
    "take_bit 3 (drop_bit 13 ((old AND NOT 0xffe0) OR ((push_bit 13 src OR push_bit 5 dv) AND 0xffe0))) = src"
    "take_bit 8 (drop_bit 5 ((old AND NOT 0xffe0) OR ((push_bit 13 src OR push_bit 5 dv) AND 0xffe0))) = dv"
proof -
  have s: "take_bit 3 src = src" "take_bit 8 dv = dv"
    using assms by (simp_all add: take_bit_eq_mod word_unat_eq_iff unat_mod word_less_nat_alt)
  have b: "n < 3" if "bit src n" for n using that s(1) by (metis bit_take_bit_iff)
  have b': "n < 8" if "bit dv n" for n using that s(2) by (metis bit_take_bit_iff)
  have m: "(0x7ff :: u32) = mask 11" "(0xffe0 :: u32) = push_bit 5 (mask 11)" by (simp_all add: mask_eq_exp_minus_1 push_bit_eq_mult)
  show "take_bit 3 (drop_bit 8 ((old AND NOT 0x7ff) OR ((push_bit 8 src OR dv) AND 0x7ff))) = src"
    unfolding m by (rule bit_word_eqI) (auto simp: bit_simps dest: b b')
  show "take_bit 8 ((old AND NOT 0x7ff) OR ((push_bit 8 src OR dv) AND 0x7ff)) = dv"
    unfolding m by (rule bit_word_eqI) (auto simp: bit_simps dest: b b')
  show "take_bit 3 (drop_bit 13 ((old AND NOT 0xffe0) OR ((push_bit 13 src OR push_bit 5 dv) AND 0xffe0))) = src"
    unfolding m by (rule bit_word_eqI) (auto simp: bit_simps dest: b b')
  show "take_bit 8 (drop_bit 5 ((old AND NOT 0xffe0) OR ((push_bit 13 src OR push_bit 5 dv) AND 0xffe0))) = dv"
    unfolding m by (rule bit_word_eqI) (auto simp: bit_simps dest: b b')
qed

context soc_config
begin

lemma hiword_cru:
  assumes "offset < 0x50000" and "offset \<notin> {0x354, 0x35c, 0x364}" and "take_bit 16 m = m"
  shows "cru (view (rk3576_cru_hiword_update b offset m x d)) r = (if r = offset then (cru (view d) r AND NOT m) OR (x AND m) else cru (view d) r)"
proof -
  have "\<not> plain_reg (CRU_MMIO_BASE + ucast offset)"
  proof
    assume "plain_reg (CRU_MMIO_BASE + ucast offset)"
    then have "unat (CRU_MMIO_BASE + ucast offset :: u64) \<in> {unat (0x27200354 :: u64), unat (0x2720035c :: u64), unat (0x27200364 :: u64)}"
      unfolding plain_reg_def by (elim insertE emptyE) simp_all
    then have "unat offset \<in> {unat (0x354 :: u32), unat (0x35c :: u32), unat (0x364 :: u32)}" by (simp add: unat_cru [OF assms(1)])
    then show False using assms(2) by (simp only: insert_iff empty_iff flip: word_unat_eq_iff) simp
  qed
  then show ?thesis
    using cru_range [OF assms(1)]
    by (auto simp: rk3576_cru_hiword_update_def rk3576_cru_write_def cru_def write_config written_def merge_HIWORD [OF assms(3)] offset_inj)
qed

text \<open>The register writes of \<^verbatim>\<open>rk3576_cru_set_uart_clk\<close>, for a source and a divider.\<close>

lemma set_select_eq:
  assumes n: "n < 12" and src: "src < 8" and dv: "1 \<le> dv" "dv \<le> 256"
    and d': "d' = (if n = 1 then
        (if src = 3 \<and> dv = 1 then rk3576_cru_hiword_update b (RK3576_PMU_CLKSEL_CON 8) 0x1 1 d
         else rk3576_cru_hiword_update b (RK3576_PMU_CLKSEL_CON 8) 0x1 0
           (rk3576_cru_hiword_update b (RK3576_CLKSEL_CON 27) (push_bit 13 0x7 OR push_bit 5 0xff) (push_bit 13 src OR push_bit 5 (dv - 1)) d))
      else rk3576_cru_hiword_update b (clksel (the (rk3576_uart_desc n))) (push_bit 8 0x7 OR 0xff) (push_bit 8 src OR (dv - 1)) d)"
  shows "uart_select (view d') n = (unat src, unat dv)"
    and "m < 12 \<Longrightarrow> m \<noteq> n \<Longrightarrow> uart_select (view d') m = uart_select (view d) m"
    and "i < 3 \<Longrightarrow> frac_hz (view d') i = frac_hz (view d) i"
proof -
  have dw: "dv - 1 < 256" and du: "unat (dv - 1) = unat dv - 1" "1 \<le> unat dv"
    using dv by (auto simp: word_le_nat_alt word_less_nat_alt unat_minus_one word_unat_eq_iff)
  have i: "frac_sel (uart_fracs ! i) \<in> {0x358, 0x360, 0x368}" "frac_div (uart_fracs ! i) \<in> {0x354, 0x35c, 0x364}" if "i < 3" for i
  proof -
    have "i \<in> {0, 1, 2}" using that by auto
    then show "frac_sel (uart_fracs ! i) \<in> {0x358, 0x360, 0x368}" "frac_div (uart_fracs ! i) \<in> {0x354, 0x35c, 0x364}"
      by (auto simp: uart_fracs_def)
  qed
  note h = select_fields [OF src dw]
  have desc: "the (rk3576_uart_desc k) \<in> set uart_clks" "ucast (uart_id (the (rk3576_uart_desc k))) = k" if "k < 12" "k \<noteq> 1" for k
    using desc_cases [OF that] by auto
  have range: "0x3f0 \<le> clksel (the (rk3576_uart_desc k))" "clksel (the (rk3576_uart_desc k)) \<le> 0x418" if "k < 12" "k \<noteq> 1" for k
    using desc_regs [OF desc(1) [OF that]] by auto
  have apart: "clksel (the (rk3576_uart_desc k)) \<notin> {0x354, 0x358, 0x35c, 0x360, 0x364, 0x368, 0x36c, 0x20320}" if "k < 12" "k \<noteq> 1" for k
    using range [OF that] by auto
  have small: "clksel (the (rk3576_uart_desc k)) < 0x50000" if "k < 12" "k \<noteq> 1" for k
    using desc_regs [OF desc(1) [OF that]] by auto
  have inj: "clksel (the (rk3576_uart_desc k)) \<noteq> clksel (the (rk3576_uart_desc n))" if "k < 12" "k \<noteq> 1" "n \<noteq> 1" "k \<noteq> n" for k
    using desc_inj desc [OF that(1,2)] desc [OF n that(3)] that(4) by metis
  have keep: "cru (view d') r = cru (view d) r" if "n = 1 \<Longrightarrow> r \<notin> {0x36c, 0x20320}" "n \<noteq> 1 \<Longrightarrow> r \<noteq> clksel (the (rk3576_uart_desc n))" for r
    using that n apart [OF n] small [OF n] by (auto simp: d' hiword_cru)
  show "uart_select (view d') n = (unat src, unat dv)"
  proof (cases "n = 1")
    case True
    have pmu: "bit (cru (view d') (RK3576_PMU_CLKSEL_CON 8)) 0 = (src = 3 \<and> dv = 1)"
      using True by (auto simp: d' hiword_cru bit_0 even_and_iff even_or_iff)
    have sel: "cru (view d') (RK3576_CLKSEL_CON 27) =
        (cru (view d) (RK3576_CLKSEL_CON 27) AND NOT 0xffe0) OR ((push_bit 13 src OR push_bit 5 (dv - 1)) AND 0xffe0)" if "\<not> (src = 3 \<and> dv = 1)"
      using that True by (auto simp: d' hiword_cru)
    show ?thesis
    proof (cases "src = 3 \<and> dv = 1")
      case A: False
      show ?thesis using A True du unfolding uart_select_def Let_def pmu sel [OF A] h by simp
    qed (use True pmu in \<open>simp add: uart_select_def\<close>)
  next
    case False
    have "cru (view d') (clksel (the (rk3576_uart_desc n))) =
        (cru (view d) (clksel (the (rk3576_uart_desc n))) AND NOT 0x7ff) OR ((push_bit 8 src OR (dv - 1)) AND 0x7ff)"
      using False apart [OF n False] small [OF n False] by (simp add: d' hiword_cru)
    then show ?thesis using False du unfolding uart_select_def Let_def by (simp only: h) simp
  qed
  show "uart_select (view d') m = uart_select (view d) m" if m: "m < 12" "m \<noteq> n"
  proof (cases "m = 1")
    case True
    then show ?thesis using keep [of "0x20320"] keep [of "0x36c"] that apart [OF n] by (auto simp: uart_select_def)
  next
    case False
    then show ?thesis
      using keep [of "clksel (the (rk3576_uart_desc m))"] apart [OF m(1) False] inj [OF m(1) False] m by (auto simp: uart_select_def)
  qed
  show "frac_hz (view d') i = frac_hz (view d) i" if "i < 3"
  proof -
    have "cru (view d') (frac_sel (uart_fracs ! i)) = cru (view d) (frac_sel (uart_fracs ! i))"
      "cru (view d') (frac_div (uart_fracs ! i)) = cru (view d) (frac_div (uart_fracs ! i))"
      by (rule keep; use i [OF that] apart [OF n] in auto)+
    then show ?thesis by (simp add: frac_hz_def Let_def)
  qed
qed

lemma set_uart_clk_eq:
  assumes n: "n < 12" and rate: "rate \<noteq> 0" and fr: "\<forall>i < 3. frac_hz (view d) i \<le> 2 ^ 31"
  defines "src \<equiv> pick_source (view d) (unat rate)"
  defines "dv \<equiv> pick_divider (source_hz (view d) src) (unat rate)" and "d' \<equiv> snd (rk3576_cru_set_uart_clk b n rate d)"
  shows "uart_select (view d') n = (src, dv)"
    and "m < 12 \<Longrightarrow> m \<noteq> n \<Longrightarrow> uart_select (view d') m = uart_select (view d) m"
    and "i < 3 \<Longrightarrow> frac_hz (view d') i = frac_hz (view d) i"
    and "unat (fst (rk3576_cru_set_uart_clk b n rate d)) = uart_hz (view d') n"
proof -
  let ?d = "snd (uart_source b rate d)" and ?src = "fst (fst (uart_source b rate d))" and ?parent = "snd (fst (uart_source b rate d))"
  let ?dv = "uart_divider ?parent rate"
  have se: "unat ?src = src" "unat ?parent = source_hz (view d) src" "view ?d = view d" using source_eq [of rate d] by (simp_all add: src_def)
  have s8: "src < 7" by (auto simp: src_def pick_source_def split: if_splits)
  have "source_hz (view d) src \<le> 2 ^ 31" using s8 fr [rule_format, of "src - 4"] by (auto simp: source_hz_def pll_hz_def)
  then have de: "unat ?dv = dv" using divider_eq [OF rate, of ?parent] se(2) by (simp add: dv_def)
  have w: "?src < 8" "1 \<le> ?dv" "?dv \<le> 256" using se(1) s8 de by (auto simp: word_less_nat_alt word_le_nat_alt dv_def pick_divider_def)
  define e where "e = (if n = 1 then
        (if ?src = 3 \<and> ?dv = 1 then rk3576_cru_hiword_update b (RK3576_PMU_CLKSEL_CON 8) 0x1 1 ?d
         else rk3576_cru_hiword_update b (RK3576_PMU_CLKSEL_CON 8) 0x1 0
           (rk3576_cru_hiword_update b (RK3576_CLKSEL_CON 27) (push_bit 13 0x7 OR push_bit 5 0xff) (push_bit 13 ?src OR push_bit 5 (?dv - 1)) ?d))
      else rk3576_cru_hiword_update b (clksel (the (rk3576_uart_desc n))) (push_bit 8 0x7 OR 0xff) (push_bit 8 ?src OR (?dv - 1)) ?d)"
  have run: "rk3576_cru_set_uart_clk b n rate d = rk3576_cru_get_uart_clk b n e"
    using rate desc_cases [OF n] by (auto simp: rk3576_cru_set_uart_clk_def split_beta Let_def e_def)
  have v: "view d' = view e" by (simp add: d'_def run get_uart_clk_eq [OF n])
  show "uart_select (view d') n = (src, dv)" "m < 12 \<Longrightarrow> m \<noteq> n \<Longrightarrow> uart_select (view d') m = uart_select (view d) m"
    "i < 3 \<Longrightarrow> frac_hz (view d') i = frac_hz (view d) i"
    using set_select_eq [OF n w e_def] by (simp_all add: v se de)
  show "unat (fst (rk3576_cru_set_uart_clk b n rate d)) = uart_hz (view d') n" by (simp add: v run get_uart_clk_eq [OF n])
qed

lemma plain_cru:
  assumes "offset \<in> {0x354, 0x35c, 0x364}"
  shows "cru (view (rk3576_cru_write b offset x d)) r = (if r = offset then x else cru (view d) r)"
proof -
  have "config_reg (CRU_MMIO_BASE + ucast offset)" "plain_reg (CRU_MMIO_BASE + ucast offset)"
    using assms by (auto simp: plain_reg_def config_reg_def)
  then show ?thesis by (auto simp: rk3576_cru_write_def cru_def write_config written_def offset_inj)
qed

lemma low_two: "take_bit 2 ((x AND NOT 3) OR (y AND 3)) = take_bit 2 (y :: u32)"
proof -
  have m: "(3 :: u32) = mask 2" by (simp add: mask_eq_exp_minus_1)
  show ?thesis unfolding m by (rule bit_word_eqI) (auto simp: bit_simps)
qed

text \<open>The fractional clocks that \<^verbatim>\<open>rk3576_cru_init\<close> sets up.\<close>

lemma init_fracs:
  "frac_hz (view (rk3576_cru_init b d)) 0 = 73728000" "frac_hz (view (rk3576_cru_init b d)) 1 = 96000000" "frac_hz (view (rk3576_cru_init b d)) 2 = 128000000"
proof -
  let ?v = "view (rk3576_cru_init b d)"
  note x = rk3576_cru_init_def rk3576_uart_frac_set_def rk3576_cru_gate_enable_def uart_fracs_def hiword_cru plain_cru
  have "cru ?v 0x354 = 0x60060ae" "cru ?v 0x35c = 0xc007d" "cru ?v 0x364 = 0x10007d"
    by (simp_all add: x)
  moreover have "take_bit 2 (cru ?v 0x358) = 0" "take_bit 2 (cru ?v 0x360) = 1" "take_bit 2 (cru ?v 0x368) = 1"
    using low_two [of "cru (view d) 0x358" 0] low_two [of "cru (view d) 0x360" 1] low_two [of "cru (view d) 0x368" 1]
    by (simp_all add: x)
  ultimately show "frac_hz ?v 0 = 73728000" "frac_hz ?v 1 = 96000000" "frac_hz ?v 2 = 128000000"
    by (simp_all add: frac_hz_def uart_fracs_def pll_hz_def)
qed

end

section \<open>Properties\<close>

text \<open>C33. Setting the clock of a UART: the driver takes the first source of its list that the rate divides, or the oscillator, divides it by the quotient rounded up and cut at
  256, and returns the frequency the clock then has; it is the rate itself if the rate divides the source at most 256 times. The clocks of the other UARTs and the fractional
  clocks stay as they are.\<close>

theorem cru_set_uart_clk_correct:
  assumes "soc_config b view" and "n < 12" and "rate \<noteq> 0" and "\<forall>i < 3. frac_hz (view d) i \<le> 2 ^ 31"
  shows "case rk3576_cru_set_uart_clk b n rate d of (hz, d') \<Rightarrow>
    let src = pick_source (view d) (unat rate); dv = pick_divider (source_hz (view d) src) (unat rate)
    in uart_select (view d') n = (src, dv) \<and> unat hz = uart_hz (view d') n \<and> unat hz = source_hz (view d) src div dv \<and>
      (unat rate dvd source_hz (view d) src \<and> source_hz (view d) src \<noteq> 0 \<and> source_hz (view d) src \<le> 256 * unat rate \<longrightarrow> hz = rate) \<and>
      (\<forall>m < 12. m \<noteq> n \<longrightarrow> uart_hz (view d') m = uart_hz (view d) m) \<and> (\<forall>i < 3. frac_hz (view d') i = frac_hz (view d) i)"
proof -
  let ?src = "pick_source (view d) (unat rate)" and ?d' = "snd (rk3576_cru_set_uart_clk b n rate d)"
  let ?hz = "source_hz (view d) ?src"
  let ?dv = "pick_divider ?hz (unat rate)"
  note r = soc_config.set_uart_clk_eq [OF assms(1-4)]
  have "source_hz (view ?d') k = source_hz (view d) k" for k using r(3) by (auto simp: source_hz_def)
  then have sel: "uart_hz (view ?d') m = (case uart_select (view ?d') m of (s, q) \<Rightarrow> source_hz (view d) s div q)" for m by (simp add: uart_hz_def)
  have hz: "unat (fst (rk3576_cru_set_uart_clk b n rate d)) = ?hz div ?dv" using r(1,4) by (simp add: sel)
  have "fst (rk3576_cru_set_uart_clk b n rate d) = rate" if "unat rate dvd ?hz" "?hz \<noteq> 0" "?hz \<le> 256 * unat rate"
    using hz pick_exact [OF that] by (simp add: word_unat_eq_iff)
  moreover have "uart_hz (view ?d') m = uart_hz (view d) m" if "m < 12" "m \<noteq> n" for m using r(2) [OF that] by (simp add: sel) (simp add: uart_hz_def)
  ultimately show ?thesis using r hz by (auto simp: split_beta Let_def)
qed

text \<open>After the set-up of the fractional clocks: 24 MHz for UART 7 come from the second of them.\<close>

lemma init_bound: "soc_config b view \<Longrightarrow> \<forall>i < 3. frac_hz (view (rk3576_cru_init b d)) i \<le> 2 ^ 31"
proof (intro allI impI)
  fix i :: nat assume b: "soc_config b view" and "i < 3"
  then have "i = 0 \<or> i = 1 \<or> i = 2" by auto
  then show "frac_hz (view (rk3576_cru_init b d)) i \<le> 2 ^ 31" using soc_config.init_fracs [OF b, of d] by (elim disjE) simp_all
qed

lemma init_picks:
  assumes "soc_config b view"
  shows "pick_source (view (rk3576_cru_init b d)) 24000000 = 5" "source_hz (view (rk3576_cru_init b d)) 5 = 96000000" "pick_divider 96000000 24000000 = 4"
  using soc_config.init_fracs [OF assms, of d] by (simp_all add: pick_source_def source_hz_def pll_hz_def pick_divider_def)

theorem cru_set_uart_clk_correct_witness:
  "fst (rk3576_cru_set_uart_clk reg_file 7 24000000 (rk3576_cru_init reg_file (\<lambda>_. 0))) = 24000000"
  using cru_set_uart_clk_correct [of reg_file file_view 7 24000000 "rk3576_cru_init reg_file (\<lambda>_. 0)",
    OF regs.soc_config_axioms _ _ init_bound [OF regs.soc_config_axioms]]
  by (simp add: init_picks [OF regs.soc_config_axioms] split_beta)

text \<open>The divider has eight bits, but the choice of the source does not look at it: 4 MHz divide the first PLL, 297 times, so this source is taken with the largest divider, and the
  clock runs at 4.64 MHz, although 4 MHz is a sixth of the oscillator.\<close>

theorem uart_clk_4MHz_missed:
  assumes "soc_config b view" and "n < 12"
  shows "fst (rk3576_cru_set_uart_clk b n 4000000 (rk3576_cru_init b d)) = 4640625"
proof -
  note r = soc_config.set_uart_clk_eq [of b view n 4000000 "rk3576_cru_init b d", OF assms _ init_bound [OF assms(1)]]
  have "pick_source (view (rk3576_cru_init b d)) 4000000 = 0" by (simp add: pick_source_def source_hz_def pll_hz_def)
  then have "unat (fst (rk3576_cru_set_uart_clk b n 4000000 (rk3576_cru_init b d))) = 4640625"
    using r(1,4) by (simp add: uart_hz_def source_hz_def pll_hz_def pick_divider_def)
  then show ?thesis by (simp add: word_unat_eq_iff)
qed

end
