(* ===== verification/Rk_Gic.thy ===== *)
theory Rk_Gic
  imports Rk_Mmio
begin

text \<open>
  The interrupt controller: \<^verbatim>\<open>libcpu/aarch64/common/gic.c\<close> (GICv2, one controller), the table of handlers of \<^verbatim>\<open>interrupt.c\<close>, and the dispatch
  of an interrupt in \<^verbatim>\<open>trap.c\<close>. The handlers are arguments. An interrupt number is the 32-bit pattern of the C \<^verbatim>\<open>int\<close>; the assertions \<^verbatim>\<open>irq >= 0U\<close> compare
  unsigned numbers and always hold.
\<close>

section \<open>Registers\<close>

record arm_gic =
  gic_offset :: u64
  dist_hw_base :: u64
  cpu_hw_base :: u64

definition GIC_DIST_IGROUP :: "u64 \<Rightarrow> u32 \<Rightarrow> u64" where "GIC_DIST_IGROUP hw_base n = hw_base + 0x080 + ucast ((n div 32) * 4)"
definition GIC_DIST_ENABLE_SET :: "u64 \<Rightarrow> u32 \<Rightarrow> u64" where "GIC_DIST_ENABLE_SET hw_base n = hw_base + 0x100 + ucast ((n div 32) * 4)"
definition GIC_DIST_ENABLE_CLEAR :: "u64 \<Rightarrow> u32 \<Rightarrow> u64" where "GIC_DIST_ENABLE_CLEAR hw_base n = hw_base + 0x180 + ucast ((n div 32) * 4)"
definition GIC_DIST_PENDING_SET :: "u64 \<Rightarrow> u32 \<Rightarrow> u64" where "GIC_DIST_PENDING_SET hw_base n = hw_base + 0x200 + ucast ((n div 32) * 4)"
definition GIC_DIST_PENDING_CLEAR :: "u64 \<Rightarrow> u32 \<Rightarrow> u64" where "GIC_DIST_PENDING_CLEAR hw_base n = hw_base + 0x280 + ucast ((n div 32) * 4)"
definition GIC_DIST_ACTIVE_SET :: "u64 \<Rightarrow> u32 \<Rightarrow> u64" where "GIC_DIST_ACTIVE_SET hw_base n = hw_base + 0x300 + ucast ((n div 32) * 4)"
definition GIC_DIST_ACTIVE_CLEAR :: "u64 \<Rightarrow> u32 \<Rightarrow> u64" where "GIC_DIST_ACTIVE_CLEAR hw_base n = hw_base + 0x380 + ucast ((n div 32) * 4)"
definition GIC_DIST_PRI :: "u64 \<Rightarrow> u32 \<Rightarrow> u64" where "GIC_DIST_PRI hw_base n = hw_base + 0x400 + ucast ((n div 4) * 4)"
definition GIC_DIST_TARGET :: "u64 \<Rightarrow> u32 \<Rightarrow> u64" where "GIC_DIST_TARGET hw_base n = hw_base + 0x800 + ucast ((n div 4) * 4)"
definition GIC_DIST_CONFIG :: "u64 \<Rightarrow> u32 \<Rightarrow> u64" where "GIC_DIST_CONFIG hw_base n = hw_base + 0xc00 + ucast ((n div 16) * 4)"
definition GIC_DIST_CPENDSGI :: "u64 \<Rightarrow> u32 \<Rightarrow> u64" where "GIC_DIST_CPENDSGI hw_base n = hw_base + 0xf10 + ucast ((n div 4) * 4)"
definition GIC_DIST_SPENDSGI :: "u64 \<Rightarrow> u32 \<Rightarrow> u64" where "GIC_DIST_SPENDSGI hw_base n = hw_base + 0xf20 + ucast ((n div 4) * 4)"

text \<open>The number of an interrupt within the controller.\<close>

definition gic_irq :: "arm_gic \<Rightarrow> u32 \<Rightarrow> u32" where
  "gic_irq g irq = irq - ucast (gic_offset g)"

definition irq_mask :: "u32 \<Rightarrow> u32" where
  "irq_mask irq = push_bit (unat (irq mod 32)) 1"

section \<open>Operations\<close>

definition arm_gic_get_active_irq :: "'d soc \<Rightarrow> arm_gic \<Rightarrow> 'd \<Rightarrow> u32 \<times> 'd" where
  "arm_gic_get_active_irq b g d = (let (irq, d) = hw_read b (cpu_hw_base g + 0x0c) d in (irq + ucast (gic_offset g), d))"

definition arm_gic_ack :: "'d soc \<Rightarrow> arm_gic \<Rightarrow> u32 \<Rightarrow> 'd \<Rightarrow> 'd" where
  "arm_gic_ack b g irq d =
     (let msk = irq_mask irq; irq = gic_irq g irq;
          d = hw_write b (GIC_DIST_PENDING_CLEAR (dist_hw_base g) irq) msk d
      in hw_write b (cpu_hw_base g + 0x10) irq d)"

definition arm_gic_mask :: "'d soc \<Rightarrow> arm_gic \<Rightarrow> u32 \<Rightarrow> 'd \<Rightarrow> 'd" where
  "arm_gic_mask b g irq d = hw_write b (GIC_DIST_ENABLE_CLEAR (dist_hw_base g) (gic_irq g irq)) (irq_mask irq) d"

definition arm_gic_umask :: "'d soc \<Rightarrow> arm_gic \<Rightarrow> u32 \<Rightarrow> 'd \<Rightarrow> 'd" where
  "arm_gic_umask b g irq d = hw_write b (GIC_DIST_ENABLE_SET (dist_hw_base g) (gic_irq g irq)) (irq_mask irq) d"

definition arm_gic_get_pending_irq :: "'d soc \<Rightarrow> arm_gic \<Rightarrow> u32 \<Rightarrow> 'd \<Rightarrow> u32 \<times> 'd" where
  "arm_gic_get_pending_irq b g irq d =
     (let irq = gic_irq g irq
      in if irq \<ge> 16 then
           let (v, d) = hw_read b (GIC_DIST_PENDING_SET (dist_hw_base g) irq) d in (drop_bit (unat (irq mod 32)) v AND 1, d)
         else
           let (v, d) = hw_read b (GIC_DIST_SPENDSGI (dist_hw_base g) irq) d
           in (if drop_bit (unat ((irq mod 4) * 8)) v AND 0xff \<noteq> 0 then 1 else 0, d))"

definition arm_gic_set_pending_irq :: "'d soc \<Rightarrow> arm_gic \<Rightarrow> u32 \<Rightarrow> 'd \<Rightarrow> 'd" where
  "arm_gic_set_pending_irq b g irq d =
     (let irq = gic_irq g irq
      in if irq \<ge> 16 then hw_write b (GIC_DIST_PENDING_SET (dist_hw_base g) irq) (push_bit (unat (irq mod 32)) 1) d
         else hw_write b (dist_hw_base g + 0xf00) (irq OR 0x02000000) d)"

definition arm_gic_clear_pending_irq :: "'d soc \<Rightarrow> arm_gic \<Rightarrow> u32 \<Rightarrow> 'd \<Rightarrow> 'd" where
  "arm_gic_clear_pending_irq b g irq d =
     (let irq = gic_irq g irq
      in if irq \<ge> 16 then hw_write b (GIC_DIST_PENDING_CLEAR (dist_hw_base g) irq) (push_bit (unat (irq mod 32)) 1) d
         else hw_write b (GIC_DIST_CPENDSGI (dist_hw_base g) irq) (push_bit (unat ((irq mod 4) * 8)) 1) d)"

definition arm_gic_set_configuration :: "'d soc \<Rightarrow> arm_gic \<Rightarrow> u32 \<Rightarrow> u32 \<Rightarrow> 'd \<Rightarrow> 'd" where
  "arm_gic_set_configuration b g irq config d =
     (let irq = gic_irq g irq;
          (icfgr, d) = hw_read b (GIC_DIST_CONFIG (dist_hw_base g) irq) d;
          shift = unat (push_bit 1 (irq mod 16));
          icfgr = icfgr AND NOT (push_bit shift 3);
          icfgr = icfgr OR push_bit shift config
      in hw_write b (GIC_DIST_CONFIG (dist_hw_base g) irq) icfgr d)"

definition arm_gic_get_configuration :: "'d soc \<Rightarrow> arm_gic \<Rightarrow> u32 \<Rightarrow> 'd \<Rightarrow> u32 \<times> 'd" where
  "arm_gic_get_configuration b g irq d =
     (let irq = gic_irq g irq;
          (v, d) = hw_read b (GIC_DIST_CONFIG (dist_hw_base g) irq) d
      in (drop_bit (unat (drop_bit 1 (irq mod 16))) v, d))"

definition arm_gic_clear_active :: "'d soc \<Rightarrow> arm_gic \<Rightarrow> u32 \<Rightarrow> 'd \<Rightarrow> 'd" where
  "arm_gic_clear_active b g irq d = hw_write b (GIC_DIST_ACTIVE_CLEAR (dist_hw_base g) (gic_irq g irq)) (irq_mask irq) d"

definition arm_gic_set_cpu :: "'d soc \<Rightarrow> arm_gic \<Rightarrow> u32 \<Rightarrow> u32 \<Rightarrow> 'd \<Rightarrow> 'd" where
  "arm_gic_set_cpu b g irq cpumask d =
     (let irq = gic_irq g irq; shift = unat ((irq mod 4) * 8);
          (old_tgt, d) = hw_read b (GIC_DIST_TARGET (dist_hw_base g) irq) d;
          old_tgt = old_tgt AND NOT (push_bit shift 0xff);
          old_tgt = old_tgt OR push_bit shift cpumask
      in hw_write b (GIC_DIST_TARGET (dist_hw_base g) irq) old_tgt d)"

definition arm_gic_get_target_cpu :: "'d soc \<Rightarrow> arm_gic \<Rightarrow> u32 \<Rightarrow> 'd \<Rightarrow> u32 \<times> 'd" where
  "arm_gic_get_target_cpu b g irq d =
     (let irq = gic_irq g irq; (v, d) = hw_read b (GIC_DIST_TARGET (dist_hw_base g) irq) d
      in (drop_bit (unat ((irq mod 4) * 8)) v AND 0xff, d))"

definition arm_gic_set_priority :: "'d soc \<Rightarrow> arm_gic \<Rightarrow> u32 \<Rightarrow> u32 \<Rightarrow> 'd \<Rightarrow> 'd" where
  "arm_gic_set_priority b g irq priority d =
     (let irq = gic_irq g irq; shift = unat ((irq mod 4) * 8);
          (msk, d) = hw_read b (GIC_DIST_PRI (dist_hw_base g) irq) d;
          msk = msk AND NOT (push_bit shift 0xff);
          msk = msk OR push_bit shift (priority AND 0xff)
      in hw_write b (GIC_DIST_PRI (dist_hw_base g) irq) msk d)"

definition arm_gic_get_priority :: "'d soc \<Rightarrow> arm_gic \<Rightarrow> u32 \<Rightarrow> 'd \<Rightarrow> u32 \<times> 'd" where
  "arm_gic_get_priority b g irq d =
     (let irq = gic_irq g irq; (v, d) = hw_read b (GIC_DIST_PRI (dist_hw_base g) irq) d
      in (drop_bit (unat ((irq mod 4) * 8)) v AND 0xff, d))"

definition arm_gic_set_interface_prior_mask :: "'d soc \<Rightarrow> arm_gic \<Rightarrow> u32 \<Rightarrow> 'd \<Rightarrow> 'd" where
  "arm_gic_set_interface_prior_mask b g priority d = hw_write b (cpu_hw_base g + 0x04) (priority AND 0xff) d"

definition arm_gic_get_interface_prior_mask :: "'d soc \<Rightarrow> arm_gic \<Rightarrow> 'd \<Rightarrow> u32 \<times> 'd" where
  "arm_gic_get_interface_prior_mask b g d = hw_read b (cpu_hw_base g + 0x04) d"

definition arm_gic_set_binary_point :: "'d soc \<Rightarrow> arm_gic \<Rightarrow> u32 \<Rightarrow> 'd \<Rightarrow> 'd" where
  "arm_gic_set_binary_point b g binary_point d = hw_write b (cpu_hw_base g + 0x08) (binary_point AND 0x7) d"

definition arm_gic_get_binary_point :: "'d soc \<Rightarrow> arm_gic \<Rightarrow> 'd \<Rightarrow> u32 \<times> 'd" where
  "arm_gic_get_binary_point b g d = hw_read b (cpu_hw_base g + 0x08) d"

definition arm_gic_get_irq_status :: "'d soc \<Rightarrow> arm_gic \<Rightarrow> u32 \<Rightarrow> 'd \<Rightarrow> u32 \<times> 'd" where
  "arm_gic_get_irq_status b g irq d =
     (let irq = gic_irq g irq;
          (act, d) = hw_read b (GIC_DIST_ACTIVE_SET (dist_hw_base g) irq) d;
          (pend, d) = hw_read b (GIC_DIST_PENDING_SET (dist_hw_base g) irq) d
      in (push_bit 1 (drop_bit (unat (irq mod 32)) act AND 1) OR (drop_bit (unat (irq mod 32)) pend AND 1), d))"

definition arm_gic_send_sgi :: "'d soc \<Rightarrow> arm_gic \<Rightarrow> u32 \<Rightarrow> u32 \<Rightarrow> u32 \<Rightarrow> 'd \<Rightarrow> 'd" where
  "arm_gic_send_sgi b g irq target_list filter_list d =
     hw_write b (dist_hw_base g + 0xf00)
       (push_bit 24 (filter_list AND 0x3) OR push_bit 16 (target_list AND 0xff) OR (gic_irq g irq AND 0x0f)) d"

definition arm_gic_get_high_pending_irq :: "'d soc \<Rightarrow> arm_gic \<Rightarrow> 'd \<Rightarrow> u32 \<times> 'd" where
  "arm_gic_get_high_pending_irq b g d = hw_read b (cpu_hw_base g + 0x18) d"

definition arm_gic_get_interface_id :: "'d soc \<Rightarrow> arm_gic \<Rightarrow> 'd \<Rightarrow> u32 \<times> 'd" where
  "arm_gic_get_interface_id b g d = hw_read b (cpu_hw_base g + 0xfc) d"

definition arm_gic_set_group :: "'d soc \<Rightarrow> arm_gic \<Rightarrow> u32 \<Rightarrow> u32 \<Rightarrow> 'd \<Rightarrow> 'd option" where
  "arm_gic_set_group b g irq grp d =
     (if grp \<le> 1 then
        let irq = gic_irq g irq; shift = unat (irq mod 32);
            (igroupr, d) = hw_read b (GIC_DIST_IGROUP (dist_hw_base g) irq) d;
            igroupr = igroupr AND NOT (push_bit shift 1);
            igroupr = igroupr OR push_bit shift (grp AND 1)
        in Some (hw_write b (GIC_DIST_IGROUP (dist_hw_base g) irq) igroupr d)
      else None)"

definition arm_gic_get_group :: "'d soc \<Rightarrow> arm_gic \<Rightarrow> u32 \<Rightarrow> 'd \<Rightarrow> u32 \<times> 'd" where
  "arm_gic_get_group b g irq d =
     (let irq = gic_irq g irq; (v, d) = hw_read b (GIC_DIST_IGROUP (dist_hw_base g) irq) d
      in (drop_bit (unat (irq mod 32)) v AND 1, d))"

text \<open>A loop \<^verbatim>\<open>for (i = lo; i < max; i += step) REG(i) = v\<close> of \<^verbatim>\<open>arm_gic_dist_init\<close>.\<close>

definition fill_regs :: "'d soc \<Rightarrow> (u32 \<Rightarrow> u64) \<Rightarrow> nat \<Rightarrow> nat \<Rightarrow> nat \<Rightarrow> u32 \<Rightarrow> 'd \<Rightarrow> 'd" where
  "fill_regs b reg lo stp hi v d = fold (\<lambda>i. hw_write b (reg (of_nat (lo + i * stp))) v) [0..<(hi - lo + stp - 1) div stp] d"

definition gic_max_irq :: "u32 \<Rightarrow> nat" where
  "gic_max_irq gic_type = min 512 (min 1020 ((unat (gic_type AND 0x1f) + 1) * 32))"

definition arm_gic_dist_init :: "'d soc \<Rightarrow> u64 \<Rightarrow> u64 \<Rightarrow> arm_gic \<Rightarrow> 'd \<Rightarrow> (arm_gic \<times> nat) \<times> 'd" where
  "arm_gic_dist_init b dist_base irq_start g d =
     (let g = g\<lparr>dist_hw_base := dist_base, gic_offset := irq_start\<rparr>;
          (gic_type, d) = hw_read b (dist_base + 0x004) d;
          m = gic_max_irq gic_type;
          d = hw_write b (dist_base + 0x000) 0 d;
          d = fill_regs b (GIC_DIST_CONFIG dist_base) 32 16 m 0 d;
          d = fill_regs b (GIC_DIST_TARGET dist_base) 32 4 m 0x01010101 d;
          d = fill_regs b (GIC_DIST_PRI dist_base) 0 4 m 0xa0a0a0a0 d;
          d = fill_regs b (GIC_DIST_ENABLE_CLEAR dist_base) 0 32 m 0xffffffff d;
          d = fill_regs b (GIC_DIST_IGROUP dist_base) 0 32 m 0 d;
          d = hw_write b (dist_base + 0x000) 0x01 d
      in ((g, m), d))"

definition arm_gic_cpu_init :: "'d soc \<Rightarrow> u64 \<Rightarrow> arm_gic \<Rightarrow> 'd \<Rightarrow> arm_gic \<times> 'd" where
  "arm_gic_cpu_init b cpu_base g d =
     (let g = (if cpu_hw_base g = 0 then g\<lparr>cpu_hw_base := cpu_base\<rparr> else g);
          cpu_base = cpu_hw_base g;
          d = hw_write b (cpu_base + 0x04) 0xf0 d;
          d = hw_write b (cpu_base + 0x08) 0x7 d;
          d = hw_write b (cpu_base + 0x00) 0x01 d
      in (g, d))"

section \<open>Handlers\<close>

text \<open>\<^verbatim>\<open>isr_table\<close>, 512 entries of a handler and its parameter; handlers are named by their address, 0 is none. The actions of the handlers are an argument of the dispatch.\<close>

type_synonym isr_table = "(u64 \<times> u64) list"

definition platform_get_gic_dist_base :: u64 where
  "platform_get_gic_dist_base = 0x2a700000 + 0x1000"

definition platform_get_gic_cpu_base :: u64 where
  "platform_get_gic_cpu_base = 0x2a700000 + 0x2000"

definition rt_hw_interrupt_init :: "'d soc \<Rightarrow> arm_gic \<Rightarrow> 'd \<Rightarrow> (arm_gic \<times> isr_table) \<times> 'd" where
  "rt_hw_interrupt_init b g d =
     (let tbl = replicate 512 (0, 0);
          ((g, _), d) = arm_gic_dist_init b platform_get_gic_dist_base 0 g d;
          (g, d) = arm_gic_cpu_init b platform_get_gic_cpu_base g d
      in ((g, tbl), d))"

definition rt_hw_interrupt_mask :: "'d soc \<Rightarrow> arm_gic \<Rightarrow> u32 \<Rightarrow> 'd \<Rightarrow> 'd" where
  "rt_hw_interrupt_mask b g vector d = arm_gic_mask b g vector d"

definition rt_hw_interrupt_umask :: "'d soc \<Rightarrow> arm_gic \<Rightarrow> u32 \<Rightarrow> 'd \<Rightarrow> 'd" where
  "rt_hw_interrupt_umask b g vector d = arm_gic_umask b g vector d"

definition rt_hw_interrupt_get_irq :: "'d soc \<Rightarrow> arm_gic \<Rightarrow> 'd \<Rightarrow> u32 \<times> 'd" where
  "rt_hw_interrupt_get_irq b g d = arm_gic_get_active_irq b g d"

definition rt_hw_interrupt_ack :: "'d soc \<Rightarrow> arm_gic \<Rightarrow> u32 \<Rightarrow> 'd \<Rightarrow> 'd" where
  "rt_hw_interrupt_ack b g vector d = arm_gic_ack b g vector d"

definition rt_hw_interrupt_set_target_cpus :: "'d soc \<Rightarrow> arm_gic \<Rightarrow> u32 \<Rightarrow> u32 \<Rightarrow> 'd \<Rightarrow> 'd" where
  "rt_hw_interrupt_set_target_cpus b g vector cpu_mask d = arm_gic_set_cpu b g vector cpu_mask d"

definition rt_hw_interrupt_get_target_cpus :: "'d soc \<Rightarrow> arm_gic \<Rightarrow> u32 \<Rightarrow> 'd \<Rightarrow> u32 \<times> 'd" where
  "rt_hw_interrupt_get_target_cpus b g vector d = arm_gic_get_target_cpu b g vector d"

definition rt_hw_interrupt_set_triger_mode :: "'d soc \<Rightarrow> arm_gic \<Rightarrow> u32 \<Rightarrow> u32 \<Rightarrow> 'd \<Rightarrow> 'd" where
  "rt_hw_interrupt_set_triger_mode b g vector mode d = arm_gic_set_configuration b g vector mode d"

definition rt_hw_interrupt_get_triger_mode :: "'d soc \<Rightarrow> arm_gic \<Rightarrow> u32 \<Rightarrow> 'd \<Rightarrow> u32 \<times> 'd" where
  "rt_hw_interrupt_get_triger_mode b g vector d = arm_gic_get_configuration b g vector d"

definition rt_hw_interrupt_set_pending :: "'d soc \<Rightarrow> arm_gic \<Rightarrow> u32 \<Rightarrow> 'd \<Rightarrow> 'd" where
  "rt_hw_interrupt_set_pending b g vector d = arm_gic_set_pending_irq b g vector d"

definition rt_hw_interrupt_get_pending :: "'d soc \<Rightarrow> arm_gic \<Rightarrow> u32 \<Rightarrow> 'd \<Rightarrow> u32 \<times> 'd" where
  "rt_hw_interrupt_get_pending b g vector d = arm_gic_get_pending_irq b g vector d"

definition rt_hw_interrupt_clear_pending :: "'d soc \<Rightarrow> arm_gic \<Rightarrow> u32 \<Rightarrow> 'd \<Rightarrow> 'd" where
  "rt_hw_interrupt_clear_pending b g vector d = arm_gic_clear_pending_irq b g vector d"

definition rt_hw_interrupt_set_priority :: "'d soc \<Rightarrow> arm_gic \<Rightarrow> u32 \<Rightarrow> u32 \<Rightarrow> 'd \<Rightarrow> 'd" where
  "rt_hw_interrupt_set_priority b g vector priority d = arm_gic_set_priority b g vector priority d"

definition rt_hw_interrupt_get_priority :: "'d soc \<Rightarrow> arm_gic \<Rightarrow> u32 \<Rightarrow> 'd \<Rightarrow> u32 \<times> 'd" where
  "rt_hw_interrupt_get_priority b g vector d = arm_gic_get_priority b g vector d"

definition rt_hw_interrupt_set_priority_mask :: "'d soc \<Rightarrow> arm_gic \<Rightarrow> u32 \<Rightarrow> 'd \<Rightarrow> 'd" where
  "rt_hw_interrupt_set_priority_mask b g priority d = arm_gic_set_interface_prior_mask b g priority d"

definition rt_hw_interrupt_get_priority_mask :: "'d soc \<Rightarrow> arm_gic \<Rightarrow> 'd \<Rightarrow> u32 \<times> 'd" where
  "rt_hw_interrupt_get_priority_mask b g d = arm_gic_get_interface_prior_mask b g d"

definition rt_hw_interrupt_set_prior_group_bits :: "'d soc \<Rightarrow> arm_gic \<Rightarrow> u32 \<Rightarrow> 'd \<Rightarrow> int \<times> 'd" where
  "rt_hw_interrupt_set_prior_group_bits b g bits d = (if bits < 8 then (0, arm_gic_set_binary_point b g (7 - bits) d) else (- 1, d))"

definition rt_hw_interrupt_get_prior_group_bits :: "'d soc \<Rightarrow> arm_gic \<Rightarrow> 'd \<Rightarrow> u32 \<times> 'd" where
  "rt_hw_interrupt_get_prior_group_bits b g d = (let (bp, d) = arm_gic_get_binary_point b g d in (7 - (bp AND 7), d))"

definition rt_hw_interrupt_install :: "int \<Rightarrow> u64 \<Rightarrow> u64 \<Rightarrow> isr_table \<Rightarrow> (u64 \<times> isr_table) option" where
  "rt_hw_interrupt_install vector handler param tbl =
     (if vector < 512 then
        if vector < 0 then None
        else Some (fst (tbl ! nat vector), if handler \<noteq> 0 then tbl[nat vector := (handler, param)] else tbl)
      else Some (0, tbl))"

definition rt_hw_trap_irq :: "'d soc \<Rightarrow> (u64 \<Rightarrow> u32 \<Rightarrow> u64 \<Rightarrow> 'd \<Rightarrow> 'd) \<Rightarrow> arm_gic \<Rightarrow> isr_table \<Rightarrow> 'd \<Rightarrow> 'd option" where
  "rt_hw_trap_irq b isr g tbl d =
     (let (ir, d) = rt_hw_interrupt_get_irq b g d
      in if ir = 1023 then Some d
         else
           let ir_self = ir AND 0x3ff
           in if unat ir_self < length tbl then
                let (h, param) = tbl ! unat ir_self;
                    d = (if h \<noteq> 0 then isr h ir_self param d else d)
                in Some (rt_hw_interrupt_ack b g ir d)
              else None)"

text \<open>\<^verbatim>\<open>rt_hw_trap_fiq\<close> looks the handler up with the number as the controller returns it: a spurious interrupt (1023), or one from another CPU, is outside the table, and
  a missing handler is called all the same (\<open>None\<close>).\<close>

definition rt_hw_trap_fiq :: "'d soc \<Rightarrow> (u64 \<Rightarrow> u32 \<Rightarrow> u64 \<Rightarrow> 'd \<Rightarrow> 'd) \<Rightarrow> arm_gic \<Rightarrow> isr_table \<Rightarrow> 'd \<Rightarrow> 'd option" where
  "rt_hw_trap_fiq b isr g tbl d =
     (let (ir, d) = rt_hw_interrupt_get_irq b g d
      in if unat ir < length tbl then
           let (h, param) = tbl ! unat ir
           in if h = 0 then None else Some (rt_hw_interrupt_ack b g ir (isr h ir param d))
         else None)"

section \<open>The distributor\<close>

text \<open>What the GIC architecture says of the distributor at \<open>base\<close>: the group, priority, target and configuration registers hold what is written to them; a one written to a set-enable
  or clear-enable register sets or clears the enable bit of the interrupt, a zero does nothing.\<close>

definition plain_offset :: "u64 \<Rightarrow> bool" where
  "plain_offset x = (0x80 \<le> x \<and> x < 0x100 \<or> 0x400 \<le> x \<and> x < 0xd00)"

locale gic_dist =
  fixes b :: "'d soc" and base :: u64 and enabled :: "'d \<Rightarrow> nat \<Rightarrow> bool" and plain :: "'d \<Rightarrow> u64 \<Rightarrow> u32"
  assumes read_plain: "plain_offset x \<Longrightarrow> fst (hw_read b (base + x) d) = plain d x"
    and read_keeps: "plain_offset x \<Longrightarrow> plain (snd (hw_read b (base + x) d)) = plain d" "plain_offset x \<Longrightarrow> enabled (snd (hw_read b (base + x) d)) = enabled d"
    and write_plain: "plain_offset x \<Longrightarrow> plain (hw_write b (base + x) v d) = (plain d)(x := v)" "plain_offset x \<Longrightarrow> enabled (hw_write b (base + x) v d) = enabled d"
    and write_set: "k < 32 \<Longrightarrow> enabled (hw_write b (base + (0x100 + of_nat (k * 4))) v d) n = (enabled d n \<or> n div 32 = k \<and> bit v (n mod 32))"
    and write_clear: "k < 32 \<Longrightarrow> enabled (hw_write b (base + (0x180 + of_nat (k * 4))) v d) n = (enabled d n \<and> \<not> (n div 32 = k \<and> bit v (n mod 32)))"
begin

text \<open>An interrupt is enabled and disabled alone.\<close>

lemma umask_mask:
  assumes "dist_hw_base g = base" and "gic_offset g = 0" and "irq < 1024"
  shows "enabled (arm_gic_umask b g irq d) n = (n = unat irq \<or> enabled d n)" "enabled (arm_gic_mask b g irq d) n = (n \<noteq> unat irq \<and> enabled d n)"
proof -
  have u: "unat irq < 1024" using assms(3) by (simp add: word_less_nat_alt)
  have k: "unat irq div 32 < 32" using u by auto
  have off: "(ucast (irq div 32 * 4) :: u64) = of_nat (unat irq div 32 * 4)"
  proof -
    have "unat (irq div 32 * 4) = unat irq div 32 * 4" using u by (subst unat_word_ariths) (simp add: unat_div)
    then show ?thesis by (metis of_nat_unat)
  qed
  have bit: "bit (irq_mask irq) (n mod 32) = (n mod 32 = unat irq mod 32)"
    by (auto simp: irq_mask_def bit_simps unat_mod simp del: push_bit_of_1)
  have "(n div 32 = unat irq div 32 \<and> n mod 32 = unat irq mod 32) = (n = unat irq)" by (metis div_mult_mod_eq)
  then show "enabled (arm_gic_umask b g irq d) n = (n = unat irq \<or> enabled d n)" "enabled (arm_gic_mask b g irq d) n = (n \<noteq> unat irq \<and> enabled d n)"
    using write_set [OF k] write_clear [OF k] bit
    by (auto simp: arm_gic_umask_def arm_gic_mask_def GIC_DIST_ENABLE_SET_def GIC_DIST_ENABLE_CLEAR_def gic_irq_def assms off add.assoc)
qed

end

lemma field_replace:
  assumes "take_bit w x = x" and "s' = s \<or> s + w \<le> s' \<or> s' + w \<le> s" and "s + w \<le> 32" and "s' + w \<le> 32"
  shows "take_bit w (drop_bit s' ((old AND NOT (push_bit s (mask w))) OR push_bit s x)) = (if s' = s then x else take_bit w (drop_bit s' (old :: u32)))"
proof -
  have x: "n < w" if "bit x n" for n using that assms(1) by (metis bit_take_bit_iff)
  show ?thesis using assms(2-4) by (intro bit_word_eqI) (auto simp: bit_simps dest: x)
qed

context gic_dist
begin

text \<open>The fields of the priority and target registers have eight bits, those of the group registers one: \<open>step\<close> fields in a register at offset \<open>lo\<close>.\<close>

lemma field_offsets:
  assumes "n < (1024 :: u32)"
  shows "plain_offset (0x80 + ucast (n div 32 * 4))" "plain_offset (0x400 + ucast (n div 4 * 4))" "plain_offset (0x800 + ucast (n div 4 * 4))"
proof -
  have u: "unat n < 1024" using assms by (simp add: word_less_nat_alt)
  have "unat (n div 32 * 4) = unat n div 32 * 4" "unat (n div 4 * 4) = unat n div 4 * 4"
    using u by (simp_all add: unat_word_ariths unat_div)
  then have "unat (0x80 + ucast (n div 32 * 4) :: u64) = 0x80 + unat n div 32 * 4" "unat (0x400 + ucast (n div 4 * 4) :: u64) = 0x400 + unat n div 4 * 4"
    "unat (0x800 + ucast (n div 4 * 4) :: u64) = 0x800 + unat n div 4 * 4"
    using u by (simp_all add: unat_word_ariths [where 'a = 64] unat_widen)
  then show "plain_offset (0x80 + ucast (n div 32 * 4))" "plain_offset (0x400 + ucast (n div 4 * 4))" "plain_offset (0x800 + ucast (n div 4 * 4))"
    using u by (auto simp: plain_offset_def word_le_nat_alt word_less_nat_alt)
qed

lemma field_update:
  assumes "plain_offset x" and "plain_offset x'" and "take_bit w v = v" and "s + w \<le> 32" and "s' + w \<le> 32"
    and "x' = x \<Longrightarrow> s' = s \<or> s + w \<le> s' \<or> s' + w \<le> s"
  shows "take_bit w (drop_bit s' (fst (hw_read b (base + x') (hw_write b (base + x)
      ((fst (hw_read b (base + x) d) AND NOT (push_bit s (mask w))) OR push_bit s v) (snd (hw_read b (base + x) d)))))) =
    (if x' = x \<and> s' = s then v else take_bit w (drop_bit s' (fst (hw_read b (base + x') d))))"
  using assms field_replace [of w v s' s "plain d x"]
  by (cases "x' = x") (simp_all add: read_plain read_keeps write_plain)

end

lemma field_index:
  assumes "n < (1024 :: u32)" and "m < (1024 :: u32)"
  shows "((ucast (n div 4 * 4) :: u64) = ucast (m div 4 * 4)) = (unat n div 4 = unat m div 4)"
    "((ucast (n div 32 * 4) :: u64) = ucast (m div 32 * 4)) = (unat n div 32 = unat m div 32)"
    "unat ((n mod 4) * 8) = (unat n mod 4) * 8" "unat (n mod 32) = unat n mod 32"
proof -
  have u: "unat n < 1024" "unat m < 1024" using assms by (simp_all add: word_less_nat_alt)
  show "((ucast (n div 4 * 4) :: u64) = ucast (m div 4 * 4)) = (unat n div 4 = unat m div 4)"
    "((ucast (n div 32 * 4) :: u64) = ucast (m div 32 * 4)) = (unat n div 32 = unat m div 32)"
    unfolding offset_inj using u by (simp_all add: word_unat_eq_iff unat_word_ariths unat_div)
  have "unat n mod 4 < 4" by simp
  then show "unat ((n mod 4) * 8) = (unat n mod 4) * 8" by (subst unat_word_ariths) (simp add: unat_mod)
  show "unat (n mod 32) = unat n mod 32" by (simp add: unat_mod)
qed

lemma byte_mask: "(0xff :: u32) = mask 8"
  by (simp add: mask_eq_exp_minus_1)

section \<open>Initialisation\<close>

text \<open>The rest of what the initialisation relies on: the control register, the type register and the CPU interface at \<open>cpu\<close> are apart from the registers of the interrupts, and
  so are the enable registers from the others.\<close>

locale gic_boot = gic_dist b base enabled plain for b :: "'d soc" and base enabled plain +
  fixes cpu :: u64
  assumes read_type: "plain (snd (hw_read b (base + 4) d)) = plain d" "enabled (snd (hw_read b (base + 4) d)) = enabled d"
    and write_apart: "a \<in> {base, cpu, cpu + 4, cpu + 8} \<Longrightarrow> plain (hw_write b a v d) = plain d" "a \<in> {base, cpu, cpu + 4, cpu + 8} \<Longrightarrow> enabled (hw_write b a v d) = enabled d"
    and write_enable: "k < 32 \<Longrightarrow> plain (hw_write b (base + (0x180 + of_nat (k * 4))) v d) = plain d"

lemma unat_small_offset: "n < 4096 \<Longrightarrow> unat (of_nat n :: u64) = n"
  by (simp add: unsigned_of_nat take_bit_nat_eq_self)

lemma small_offset_inj: "n < 4096 \<Longrightarrow> m < 4096 \<Longrightarrow> ((of_nat n :: u64) = of_nat m) = (n = m)"
  by (metis unat_small_offset)

lemma plain_small_offset: "n < 4096 \<Longrightarrow> plain_offset (of_nat n) = (0x80 \<le> n \<and> n < 0x100 \<or> 0x400 \<le> n \<and> n < 0xd00)"
  by (simp add: plain_offset_def word_le_nat_alt word_less_nat_alt unat_small_offset)

text \<open>The register of an interrupt by its number.\<close>

lemma word_index:
  assumes "n < 1024" and "w \<in> {4, 16, 32}"
  shows "(ucast ((of_nat n div of_nat w :: u32) * 4) :: u64) = of_nat (n div w * 4)"
proof -
  have n: "unat (of_nat n :: u32) = n" "unat (of_nat w :: u32) = w" using assms by (auto simp: unsigned_of_nat take_bit_nat_eq_self)
  have "n div w * 4 < 4096" using assms by auto
  then have "unat ((of_nat n div of_nat w :: u32) * 4) = n div w * 4" by (subst unat_word_ariths) (simp add: unat_div n)
  then show ?thesis by (metis of_nat_unat)
qed

lemma dist_regs:
  assumes "n < 1024"
  shows "GIC_DIST_PRI base (of_nat n) = base + of_nat (0x400 + n div 4 * 4)" "GIC_DIST_TARGET base (of_nat n) = base + of_nat (0x800 + n div 4 * 4)"
    "GIC_DIST_CONFIG base (of_nat n) = base + of_nat (0xc00 + n div 16 * 4)" "GIC_DIST_IGROUP base (of_nat n) = base + of_nat (0x80 + n div 32 * 4)"
    "GIC_DIST_ENABLE_CLEAR base (of_nat n) = base + (0x180 + of_nat (n div 32 * 4))"
  using word_index [OF assms, of 4] word_index [OF assms, of 16] word_index [OF assms, of 32]
  by (simp_all add: GIC_DIST_PRI_def GIC_DIST_TARGET_def GIC_DIST_CONFIG_def GIC_DIST_IGROUP_def GIC_DIST_ENABLE_CLEAR_def add.assoc)

context gic_boot
begin

lemma fill_plain:
  assumes "\<And>i. i < k \<Longrightarrow> reg (of_nat (lo + i * stp)) = base + of_nat (c + i * 4)" and "\<And>i. i < k \<Longrightarrow> plain_offset (of_nat (c + i * 4))" and "c + k * 4 \<le> 4096"
  shows "enabled (fold (\<lambda>i. hw_write b (reg (of_nat (lo + i * stp))) v) [0..<k] d) = enabled d \<and>
    (\<forall>x < 4096. plain (fold (\<lambda>i. hw_write b (reg (of_nat (lo + i * stp))) v) [0..<k] d) (of_nat x) = (if \<exists>i<k. x = c + i * 4 then v else plain d (of_nat x)))"
  using assms
proof (induction k)
  case (Suc k)
  have "(of_nat x = (of_nat (c + k * 4) :: u64)) = (x = c + k * 4)" if "x < 4096" for x
    using that Suc.prems(3) by (intro small_offset_inj) auto
  then show ?case using Suc write_plain [OF Suc.prems(2) [of k]] by (auto simp: less_Suc_eq simp del: of_nat_add of_nat_mult)
qed simp

lemma fill_clear:
  assumes "k \<le> 32"
  shows "plain (fold (\<lambda>i. hw_write b (GIC_DIST_ENABLE_CLEAR base (of_nat (i * 32))) 0xffffffff) [0..<k] d) = plain d \<and>
    (\<forall>n. enabled (fold (\<lambda>i. hw_write b (GIC_DIST_ENABLE_CLEAR base (of_nat (i * 32))) 0xffffffff) [0..<k] d) n = (enabled d n \<and> k \<le> n div 32))"
  using assms
proof (induction k)
  case (Suc k)
  have "bit (0xffffffff :: u32) (n mod 32)" for n :: nat
  proof -
    have "(0xffffffff :: u32) = mask 32" by (simp add: mask_eq_exp_minus_1)
    then show ?thesis by (simp only: bit_mask_iff) simp
  qed
  then show ?case using Suc dist_regs(5) [of "k * 32" base] write_enable [of k] write_clear [of k]
    by (auto simp del: of_nat_mult)
qed simp

text \<open>The state the distributor is left in, for the \<open>32 * m\<close> interrupts it has.\<close>

lemma dist_init_state:
  assumes m: "gic_max_irq (fst (hw_read b (base + 4) d)) = 32 * m" "1 \<le> m" "m \<le> 16" and x: "x < 4096"
    and d'_def: "d' = snd (arm_gic_dist_init b base irq_start g d)"
  shows "enabled d' n = (enabled d n \<and> 32 * m \<le> n)"
    "plain d' (of_nat x) = (if \<exists>i<m. x = 0x80 + i * 4 then 0 else if \<exists>i < 8 * m. x = 0x400 + i * 4 then 0xa0a0a0a0
       else if \<exists>i < 8 * (m - 1). x = 0x820 + i * 4 then 0x01010101 else if \<exists>i < 2 * (m - 1). x = 0xc08 + i * 4 then 0 else plain d (of_nat x))"
proof -
  have cnt: "(32 * m - 32 + 16 - 1) div 16 = 2 * (m - 1)" "(32 * m - 32 + 4 - 1) div 4 = 8 * (m - 1)" "(32 * m - 0 + 4 - 1) div 4 = 8 * m"
    "(32 * m - 0 + 32 - 1) div 32 = m" using m(2) by (cases m; simp)+
  define ctl where "ctl = hw_write b base 0 (snd (hw_read b (base + 4) d))"
  define cfg where "cfg = fold (\<lambda>i. hw_write b (GIC_DIST_CONFIG base (of_nat (32 + i * 16))) 0) [0..<2 * (m - 1)] ctl"
  define tgt where "tgt = fold (\<lambda>i. hw_write b (GIC_DIST_TARGET base (of_nat (32 + i * 4))) 0x01010101) [0..<8 * (m - 1)] cfg"
  define pri where "pri = fold (\<lambda>i. hw_write b (GIC_DIST_PRI base (of_nat (0 + i * 4))) 0xa0a0a0a0) [0..<8 * m] tgt"
  define off where "off = fold (\<lambda>i. hw_write b (GIC_DIST_ENABLE_CLEAR base (of_nat (i * 32))) 0xffffffff) [0..<m] pri"
  define grp where "grp = fold (\<lambda>i. hw_write b (GIC_DIST_IGROUP base (of_nat (0 + i * 32))) 0) [0..<m] off"
  have d': "d' = hw_write b base 1 grp"
    by (simp only: d'_def arm_gic_dist_init_def split_beta Let_def m(1) fill_regs_def cnt grp_def off_def pri_def tgt_def cfg_def ctl_def snd_conv add_0_left add_0_right)
  have c: "enabled cfg = enabled ctl \<and> (\<forall>x < 4096. plain cfg (of_nat x) = (if \<exists>i < 2 * (m - 1). x = 0xc08 + i * 4 then 0 else plain ctl (of_nat x)))"
    unfolding cfg_def using m(3) by (intro fill_plain) (auto simp: dist_regs plain_small_offset simp del: of_nat_mult of_nat_add)
  have t: "enabled tgt = enabled cfg \<and> (\<forall>x < 4096. plain tgt (of_nat x) = (if \<exists>i < 8 * (m - 1). x = 0x820 + i * 4 then 0x01010101 else plain cfg (of_nat x)))"
    unfolding tgt_def using m(3) by (intro fill_plain) (auto simp: dist_regs plain_small_offset simp del: of_nat_mult of_nat_add)
  have p: "enabled pri = enabled tgt \<and> (\<forall>x < 4096. plain pri (of_nat x) = (if \<exists>i < 8 * m. x = 0x400 + i * 4 then 0xa0a0a0a0 else plain tgt (of_nat x)))"
    unfolding pri_def using m(3) by (intro fill_plain) (auto simp: dist_regs plain_small_offset simp del: of_nat_mult of_nat_add)
  have o: "plain off = plain pri \<and> (\<forall>n. enabled off n = (enabled pri n \<and> m \<le> n div 32))" unfolding off_def using m(3) by (intro fill_clear) simp
  have g: "enabled grp = enabled off \<and> (\<forall>x < 4096. plain grp (of_nat x) = (if \<exists>i < m. x = 0x80 + i * 4 then 0 else plain off (of_nat x)))"
    unfolding grp_def using m(3) by (intro fill_plain) (auto simp: dist_regs plain_small_offset simp del: of_nat_mult of_nat_add)
  have ends: "enabled ctl = enabled d" "plain ctl = plain d" "enabled d' = enabled grp" "plain d' = plain grp" by (simp_all add: ctl_def write_apart read_type d')
  have "(32 * m \<le> n) = (m \<le> n div 32)" by (simp add: less_eq_div_iff_mult_less_eq mult.commute)
  then show "enabled d' n = (enabled d n \<and> 32 * m \<le> n)" using c t p o g by (simp add: ends)
  show "plain d' (of_nat x) = (if \<exists>i<m. x = 0x80 + i * 4 then 0 else if \<exists>i < 8 * m. x = 0x400 + i * 4 then 0xa0a0a0a0
       else if \<exists>i < 8 * (m - 1). x = 0x820 + i * 4 then 0x01010101 else if \<exists>i < 2 * (m - 1). x = 0xc08 + i * 4 then 0 else plain d (of_nat x))"
    by (simp only: ends o [THEN conjunct1] c [THEN conjunct2, rule_format, OF x] t [THEN conjunct2, rule_format, OF x]
        p [THEN conjunct2, rule_format, OF x] g [THEN conjunct2, rule_format, OF x])
qed

end

section \<open>Properties\<close>



text \<open>A controller that meets the contract: its registers by offset from the base of the distributor, with the enable bits kept apart.\<close>

definition gic_plain :: "(u64 \<Rightarrow> u32) \<times> (nat \<Rightarrow> bool) \<Rightarrow> u64 \<Rightarrow> u32" where
  "gic_plain d x = (if plain_offset x then fst d x else 0)"

definition gic_file :: "u64 \<Rightarrow> ((u64 \<Rightarrow> u32) \<times> (nat \<Rightarrow> bool)) soc" where
  "gic_file base = \<lparr>hw_read = (\<lambda>a d. (fst d (a - base), d)),
     hw_write = (\<lambda>a v d. let x = a - base in
       if 0x100 \<le> x \<and> x < 0x180 then (fst d, \<lambda>n. snd d n \<or> 0x100 + of_nat (n div 32 * 4) = x \<and> n < 1024 \<and> bit v (n mod 32))
       else if 0x180 \<le> x \<and> x < 0x200 then (fst d, \<lambda>n. snd d n \<and> \<not> (0x180 + of_nat (n div 32 * 4) = x \<and> n < 1024 \<and> bit v (n mod 32)))
       else ((fst d)(x := v), snd d)),
     hw_sleep = (\<lambda>n d. d), hw_yield = (\<lambda>d. d), hw_tick = (\<lambda>d. 0)\<rparr>"

lemma enable_offset:
  assumes "k < 32"
  shows "(0x100 :: u64) \<le> 0x100 + of_nat (k * 4) \<and> 0x100 + of_nat (k * 4) < (0x180 :: u64)" "(0x180 :: u64) \<le> 0x180 + of_nat (k * 4) \<and> 0x180 + of_nat (k * 4) < (0x200 :: u64)"
proof -
  have "unat (of_nat (k * 4) :: u64) = k * 4" using assms by (intro unat_small_offset) simp
  then have "unat (0x100 + of_nat (k * 4) :: u64) = 0x100 + k * 4" "unat (0x180 + of_nat (k * 4) :: u64) = 0x180 + k * 4"
    using assms by (simp_all add: unat_word_ariths del: of_nat_mult)
  then show "(0x100 :: u64) \<le> 0x100 + of_nat (k * 4) \<and> 0x100 + of_nat (k * 4) < (0x180 :: u64)" "(0x180 :: u64) \<le> 0x180 + of_nat (k * 4) \<and> 0x180 + of_nat (k * 4) < (0x200 :: u64)"
    using assms by (simp_all add: word_le_nat_alt word_less_nat_alt del: of_nat_mult)
qed

lemma enable_offset_inj:
  assumes "k < 32"
  shows "((of_nat (n div 32 * 4) :: u64) = of_nat (k * 4) \<and> n < 1024) = (n div 32 = k)"
proof
  assume a: "(of_nat (n div 32 * 4) :: u64) = of_nat (k * 4) \<and> n < 1024"
  have "k * 4 < 4096" "n div 32 * 4 < 4096" using assms a by linarith+
  from this [THEN unat_small_offset] have "k * 4 = n div 32 * 4" using a by simp
  then show "n div 32 = k" by simp
qed (use assms in auto)

interpretation gicd: gic_boot "gic_file base" base snd gic_plain "base + 0x1000" for base
proof
  fix x and d :: "(u64 \<Rightarrow> u32) \<times> (nat \<Rightarrow> bool)" and v :: u32
  assume x: "plain_offset x"
  have "\<not> (0x100 \<le> x \<and> x < 0x180)" "\<not> (0x180 \<le> x \<and> x < 0x200)"
    using x by (auto simp: plain_offset_def word_le_nat_alt word_less_nat_alt)
  then show "fst (hw_read (gic_file base) (base + x) d) = gic_plain d x" "gic_plain (snd (hw_read (gic_file base) (base + x) d)) = gic_plain d"
    "snd (snd (hw_read (gic_file base) (base + x) d)) = snd d" "gic_plain (hw_write (gic_file base) (base + x) v d) = (gic_plain d)(x := v)"
    "snd (hw_write (gic_file base) (base + x) v d) = snd d"
    using x by (auto simp: gic_file_def Let_def gic_plain_def fun_eq_iff)
next
  fix k n :: nat and d :: "(u64 \<Rightarrow> u32) \<times> (nat \<Rightarrow> bool)" and v :: u32
  assume k: "k < 32"
  note off = enable_offset [OF k]
  have nxt: "\<not> (0x180 + of_nat (k * 4) < (0x180 :: u64))" using off(2) by (simp add: not_less del: of_nat_mult)
  show "snd (hw_write (gic_file base) (base + (0x100 + of_nat (k * 4))) v d) n = (snd d n \<or> n div 32 = k \<and> bit v (n mod 32))"
    using off(1) enable_offset_inj [OF k, of n] by (auto simp: gic_file_def Let_def simp del: of_nat_mult)
  show "snd (hw_write (gic_file base) (base + (0x180 + of_nat (k * 4))) v d) n = (snd d n \<and> \<not> (n div 32 = k \<and> bit v (n mod 32)))"
    "gic_plain (hw_write (gic_file base) (base + (0x180 + of_nat (k * 4))) v d) = gic_plain d"
    using off(2) nxt enable_offset_inj [OF k, of n] by (auto simp: gic_file_def gic_plain_def fun_eq_iff Let_def simp del: of_nat_mult)
next
  fix a v and d :: "(u64 \<Rightarrow> u32) \<times> (nat \<Rightarrow> bool)"
  assume "a \<in> {base, base + 0x1000, base + 0x1000 + 4, base + 0x1000 + 8}"
  then have "a - base \<in> {0, 0x1000, 0x1004, 0x1008}" by auto
  then have "\<not> plain_offset (a - base)" "\<not> (0x100 \<le> a - base \<and> a - base < 0x180)" "\<not> (0x180 \<le> a - base \<and> a - base < 0x200)"
    by (auto simp: plain_offset_def)
  then show "gic_plain (hw_write (gic_file base) a v d) = gic_plain d" "snd (hw_write (gic_file base) a v d) = snd d"
    by (auto simp: gic_file_def gic_plain_def fun_eq_iff Let_def)
qed (simp_all add: gic_file_def)

definition sample_gic :: arm_gic where
  "sample_gic = \<lparr>gic_offset = 0, dist_hw_base = 0x2a701000, cpu_hw_base = 0x2a702000\<rparr>"

definition sample_dist :: "(u64 \<Rightarrow> u32) \<times> (nat \<Rightarrow> bool)" where
  "sample_dist = (\<lambda>x. 0xa0a0a0a0, \<lambda>n. False)"


text \<open>A controller with 256 interrupts, all enabled and with arbitrary settings, before the initialisation.\<close>

definition busy_dist :: "(u64 \<Rightarrow> u32) \<times> (nat \<Rightarrow> bool)" where
  "busy_dist = (\<lambda>x. if x = 4 then 7 else 0xdeadbeef, \<lambda>n. True)"


text \<open>The trigger of an interrupt does not survive the round trip: \<^verbatim>\<open>arm_gic_get_configuration\<close> shifts by half the number of the interrupt where the register has two bits
  for each, and does not mask. Interrupt 33, set to edge-triggered, reads as 8.\<close>

theorem configuration_read_back_wrong:
  "fst (arm_gic_get_configuration (gic_file 0) (sample_gic\<lparr>dist_hw_base := 0\<rparr>) 33
     (arm_gic_set_configuration (gic_file 0) (sample_gic\<lparr>dist_hw_base := 0\<rparr>) 33 2 (\<lambda>x. 0, \<lambda>n. False))) = 8"
  by (simp add: arm_gic_get_configuration_def arm_gic_set_configuration_def GIC_DIST_CONFIG_def gic_irq_def sample_gic_def gic_file_def)

end
