(* ===== verification/Rk_Mmu.thy ===== *)
theory Rk_Mmu
  imports Rk_Mmio
begin

text \<open>
  The translation tables of the CPU: \<^verbatim>\<open>libcpu/aarch64/common/mmu.c\<close>, which maps sections of 2 MB in tables of three levels, and the regions
  \<^verbatim>\<open>board.c\<close> maps at start-up. The tables live in memory as the 64-bit words the hardware reads, and the walk of the hardware is written out as a function on
  the same memory. The addresses of \<^verbatim>\<open>MMUTable\<close> and \<^verbatim>\<open>MMUPage\<close>, which the linker chooses, are an argument. Cache and TLB maintenance has no effect on the memory.
\<close>

section \<open>Tables and their operations\<close>

record mmu_layout =
  MMUTable :: u64
  MMUPage :: u64

record mmu =
  mmu_mem :: "u64 \<Rightarrow> u64"     \<comment> \<open>the words of the tables by address\<close>
  mmu_pages :: nat               \<comment> \<open>the static counter of \<^verbatim>\<open>_kernel_free_page\<close>\<close>

record mem_desc =
  vaddr_start :: u64
  vaddr_end :: u64
  paddr_start :: u64
  attr :: u64

abbreviation (input) ARCH_SECTION_SIZE :: u64 where "ARCH_SECTION_SIZE \<equiv> 0x200000"
abbreviation (input) ARCH_SECTION_MASK :: u64 where "ARCH_SECTION_MASK \<equiv> 0x1fffff"
abbreviation (input) MMU_LEVEL_MASK :: u64 where "MMU_LEVEL_MASK \<equiv> 0x1ff"
abbreviation (input) MMU_ADDRESS_MASK :: u64 where "MMU_ADDRESS_MASK \<equiv> 0x0000fffffffff000"
abbreviation (input) MMU_ATTRIB_MASK :: u64 where "MMU_ATTRIB_MASK \<equiv> 0xfff0000000000ffc"
abbreviation (input) MMU_TBL_PAGE_NR_MAX :: nat where "MMU_TBL_PAGE_NR_MAX \<equiv> 32"

abbreviation (input) NORMAL_MEM :: u64 where "NORMAL_MEM \<equiv> 0"
abbreviation (input) NORMAL_NOCACHE_MEM :: u64 where "NORMAL_NOCACHE_MEM \<equiv> 1"
abbreviation (input) DEVICE_MEM :: u64 where "DEVICE_MEM \<equiv> 2"

definition MMU_MAP_CUSTOM :: "u64 \<Rightarrow> u64 \<Rightarrow> u64" where
  "MMU_MAP_CUSTOM ap mtype = push_bit 10 1 OR push_bit 8 2 OR push_bit 6 ap OR push_bit 2 mtype"

text \<open>\<^verbatim>\<open>rt_memset(p, 0, n)\<close> on the words of a region.\<close>

definition clear_words :: "u64 \<Rightarrow> u64 \<Rightarrow> mmu \<Rightarrow> mmu" where
  "clear_words p n s = s\<lparr>mmu_mem := \<lambda>a. if a - p < n then 0 else mmu_mem s a\<rparr>"

definition kernel_free_page :: "mmu_layout \<Rightarrow> mmu \<Rightarrow> u64 \<times> mmu" where
  "kernel_free_page L s =
     (if mmu_pages s \<ge> MMU_TBL_PAGE_NR_MAX then (0, s)
      else (MMUPage L + of_nat (mmu_pages s * 4096), s\<lparr>mmu_pages := mmu_pages s + 1\<rparr>))"

text \<open>One round of the loop of \<^verbatim>\<open>_kenrel_map_2M\<close>: the table below \<open>tbl\<close> for the address, made when it is missing.\<close>

definition map_level :: "mmu_layout \<Rightarrow> u64 \<Rightarrow> nat \<Rightarrow> u64 \<Rightarrow> mmu \<Rightarrow> (int + u64) \<times> mmu" where
  "map_level L va level_shift tbl s =
     (let off = drop_bit level_shift va AND MMU_LEVEL_MASK;
          a = tbl + off * 8;
          (err, s) =
            (if mmu_mem s a AND 1 = 0 then
               let (page, s) = kernel_free_page L s
               in if page = 0 then (True, s)
                  else let s = clear_words page 4096 s
                       in (False, s\<lparr>mmu_mem := (mmu_mem s)(a := page OR 3)\<rparr>)
             else (False, s));
          page = mmu_mem s a
      in if err then (Inl (- 3), s)
         else if page AND 3 = 1 then (Inl (- 4), s)
         else (Inr (page AND MMU_ADDRESS_MASK), s))"

primrec map_levels :: "mmu_layout \<Rightarrow> u64 \<Rightarrow> nat \<Rightarrow> nat \<Rightarrow> u64 \<Rightarrow> mmu \<Rightarrow> (int + u64) \<times> mmu" where
  "map_levels L va 0 level_shift tbl s = (Inr tbl, s)"
| "map_levels L va (Suc n) level_shift tbl s =
     (case map_level L va level_shift tbl s of
        (Inl e, s) \<Rightarrow> (Inl e, s)
      | (Inr tbl, s) \<Rightarrow> map_levels L va n (level_shift - 9) tbl s)"

definition kenrel_map_2M :: "mmu_layout \<Rightarrow> u64 \<Rightarrow> u64 \<Rightarrow> u64 \<Rightarrow> u64 \<Rightarrow> mmu \<Rightarrow> int \<times> mmu" where
  "kenrel_map_2M L tbl va pa at s =
     (if va AND ARCH_SECTION_MASK \<noteq> 0 then (- 1, s)
      else if pa AND ARCH_SECTION_MASK \<noteq> 0 then (- 2, s)
      else
        case map_levels L va 2 39 tbl s of
          (Inl e, s) \<Rightarrow> (e, s)
        | (Inr tbl, s) \<Rightarrow>
            let at = at AND MMU_ATTRIB_MASK; pa = pa OR (at OR 1);
                off = drop_bit 21 va AND MMU_LEVEL_MASK
            in (0, s\<lparr>mmu_mem := (mmu_mem s)(tbl + off * 8 := pa)\<rparr>))"

primrec setmtt_loop :: "mmu_layout \<Rightarrow> u64 \<Rightarrow> nat \<Rightarrow> int \<Rightarrow> u64 \<Rightarrow> u64 \<Rightarrow> mmu \<Rightarrow> int \<times> mmu" where
  "setmtt_loop L map_attr 0 ret va pa s = (ret, s)"
| "setmtt_loop L map_attr (Suc n) ret va pa s =
     (let (ret, s) = kenrel_map_2M L (MMUTable L) va pa map_attr s
      in if ret \<noteq> 0 then (ret, s)
         else setmtt_loop L map_attr n ret (va + ARCH_SECTION_SIZE) (pa + ARCH_SECTION_SIZE) s)"

definition rt_hw_mmu_setmtt :: "mmu_layout \<Rightarrow> u64 \<Rightarrow> u64 \<Rightarrow> u64 \<Rightarrow> u64 \<Rightarrow> mmu \<Rightarrow> int \<times> mmu" where
  "rt_hw_mmu_setmtt L va vend pa at s =
     (let map_attr = MMU_MAP_CUSTOM 0 at
      in if va > vend then (- 1, s)
         else
           let va = (if va mod ARCH_SECTION_SIZE \<noteq> 0 then va div ARCH_SECTION_SIZE * ARCH_SECTION_SIZE else va);
               pa = (if pa mod ARCH_SECTION_SIZE \<noteq> 0 then pa div ARCH_SECTION_SIZE * ARCH_SECTION_SIZE else pa);
               vend = (if vend mod ARCH_SECTION_SIZE \<noteq> 0 then (vend div ARCH_SECTION_SIZE + 1) * ARCH_SECTION_SIZE else vend);
               count = drop_bit 21 (vend - va)
           in setmtt_loop L map_attr (unat count) (- 1) va pa s)"

definition setmtt_desc :: "mmu_layout \<Rightarrow> mem_desc \<Rightarrow> mmu \<Rightarrow> mmu" where
  "setmtt_desc L m s = snd (rt_hw_mmu_setmtt L (vaddr_start m) (vaddr_end m) (paddr_start m) (attr m) s)"

definition rt_hw_init_mmu_table :: "mmu_layout \<Rightarrow> mem_desc list \<Rightarrow> mmu \<Rightarrow> mmu" where
  "rt_hw_init_mmu_table L mdesc s =
     (let s = clear_words (MMUTable L) 4096 s;
          s = clear_words (MMUPage L) (32 * 4096) s
      in fold (setmtt_desc L) mdesc s)"

definition rt_hw_mmu_map :: "mmu_layout \<Rightarrow> u64 \<Rightarrow> u64 \<Rightarrow> u64 \<Rightarrow> mmu \<Rightarrow> int \<times> mmu" where
  "rt_hw_mmu_map L addr sz at s = rt_hw_mmu_setmtt L addr (addr + sz) addr at s"

section \<open>The walk of the hardware\<close>

text \<open>The translation of an address below \<open>2 ^ 48\<close> by tables of 4 KB: an entry with type 3 points to the next table (at the last level, to a page), one with type 1
  is a block, other entries are invalid. The result is the output address and the attributes.\<close>

definition level_index :: "u64 \<Rightarrow> nat \<Rightarrow> nat" where
  "level_index va sh = unat va div 2 ^ sh mod 512"

definition block_out :: "u64 \<Rightarrow> nat \<Rightarrow> u64 \<Rightarrow> u64 \<times> u64" where
  "block_out va sh e = ((e AND MMU_ADDRESS_MASK AND NOT (mask sh)) OR (va AND mask sh), e AND MMU_ATTRIB_MASK)"

primrec table_walk :: "(u64 \<Rightarrow> u64) \<Rightarrow> u64 \<Rightarrow> nat \<Rightarrow> u64 \<Rightarrow> (u64 \<times> u64) option" where
  "table_walk m va 0 tbl = (let e = m (tbl + of_nat (level_index va 12 * 8)) in if e AND 3 = 3 then Some (block_out va 12 e) else None)"
| "table_walk m va (Suc n) tbl =
     (let e = m (tbl + of_nat (level_index va (21 + 9 * n) * 8))
      in if e AND 3 = 3 then table_walk m va n (e AND MMU_ADDRESS_MASK)
         else if e AND 3 = 1 \<and> n < 2 then Some (block_out va (21 + 9 * n) e)
         else None)"

definition translate :: "mmu_layout \<Rightarrow> mmu \<Rightarrow> u64 \<Rightarrow> (u64 \<times> u64) option" where
  "translate L s va = (if va < 2 ^ 48 then table_walk (mmu_mem s) va 3 (MMUTable L) else None)"

section \<open>Well-formed tables\<close>

text \<open>The linker places the tables apart, aligned to pages.\<close>

definition layout_ok :: "mmu_layout \<Rightarrow> bool" where
  "layout_ok L = (unat (MMUTable L) mod 4096 = 0 \<and> unat (MMUPage L) mod 4096 = 0 \<and> unat (MMUTable L) + 4096 \<le> 2 ^ 48 \<and>
     unat (MMUPage L) + 131072 \<le> 2 ^ 48 \<and> 0 < unat (MMUPage L) \<and>
     (unat (MMUTable L) + 4096 \<le> unat (MMUPage L) \<or> unat (MMUPage L) + 131072 \<le> unat (MMUTable L)))"

text \<open>The tables by number: \<open>None\<close> is \<^verbatim>\<open>MMUTable\<close>, \<open>Some j\<close> the page \<^verbatim>\<open>MMUPage[j]\<close>.\<close>

definition table_at :: "mmu_layout \<Rightarrow> nat option \<Rightarrow> u64" where
  "table_at L t = (case t of None \<Rightarrow> MMUTable L | Some j \<Rightarrow> MMUPage L + of_nat (j * 4096))"

definition entry :: "mmu_layout \<Rightarrow> mmu \<Rightarrow> nat option \<Rightarrow> nat \<Rightarrow> u64" where
  "entry L s t i = mmu_mem s (table_at L t + of_nat (i * 8))"

text \<open>The tree of the tables. \<open>own ! j\<close> is the entry that points to page \<open>j\<close>: an entry of \<^verbatim>\<open>MMUTable\<close>, or one of a page that hangs on \<^verbatim>\<open>MMUTable\<close>. No other entry of these tables is in use,
  and the tables of the last level hold blocks.\<close>

definition tables_by :: "mmu_layout \<Rightarrow> mmu \<Rightarrow> (nat option \<times> nat) list \<Rightarrow> bool" where
  "tables_by L s own = (length own = mmu_pages s \<and> mmu_pages s \<le> 32 \<and> distinct own \<and>
     (\<forall>j < mmu_pages s. snd (own ! j) < 512 \<and> entry L s (fst (own ! j)) (snd (own ! j)) = table_at L (Some j) OR 3 \<and>
        (\<forall>k. fst (own ! j) = Some k \<longrightarrow> k < j \<and> fst (own ! k) = None)) \<and>
     (\<forall>i < 512. (None, i) \<notin> set own \<longrightarrow> entry L s None i AND 1 = 0) \<and>
     (\<forall>j < mmu_pages s. fst (own ! j) = None \<longrightarrow> (\<forall>i < 512. (Some j, i) \<notin> set own \<longrightarrow> entry L s (Some j) i AND 1 = 0)) \<and>
     (\<forall>j < mmu_pages s. fst (own ! j) \<noteq> None \<longrightarrow> (\<forall>i < 512. entry L s (Some j) i AND 3 \<noteq> 3)))"

definition tables_ok :: "mmu_layout \<Rightarrow> mmu \<Rightarrow> bool" where
  "tables_ok L s = (\<exists>own. tables_by L s own)"

section \<open>Addresses of entries\<close>

definition valid_table :: "nat option \<Rightarrow> bool" where
  "valid_table t = (\<forall>j. t = Some j \<longrightarrow> j < 32)"

definition table_base :: "mmu_layout \<Rightarrow> nat option \<Rightarrow> nat" where
  "table_base L t = (case t of None \<Rightarrow> unat (MMUTable L) | Some j \<Rightarrow> unat (MMUPage L) + j * 4096)"

lemma valid_table_simps [simp]: "valid_table None" "valid_table (Some j) = (j < 32)"
  by (auto simp: valid_table_def)

lemma unat_plus_small: "unat (x :: u64) + n < 2 ^ 64 \<Longrightarrow> unat (x + of_nat n) = unat x + n"
  by (simp add: unat_word_ariths unsigned_of_nat take_bit_nat_eq_self)

lemma table_base:
  assumes "layout_ok L" and "valid_table t"
  shows "unat (table_at L t) = table_base L t" "table_base L t + 4096 \<le> 2 ^ 48" "table_base L t mod 4096 = 0"
  using assms by (auto simp: layout_ok_def table_base_def table_at_def unat_plus_small simp del: of_nat_mult split: option.splits)

lemma table_base_apart:
  assumes "layout_ok L" and "valid_table t" and "valid_table t'" and "t \<noteq> t'"
  shows "table_base L t + 4096 \<le> table_base L t' \<or> table_base L t' + 4096 \<le> table_base L t"
  using assms by (cases t; cases t') (auto simp: layout_ok_def table_base_def)

lemma unat_entry:
  assumes "layout_ok L" and "valid_table t" and "i < 512"
  shows "unat (table_at L t + of_nat (i * 8)) = table_base L t + i * 8"
  using table_base [OF assms(1,2)] assms(3) by (subst unat_plus_small) auto

lemma entry_addr_inj:
  assumes "layout_ok L" and "valid_table t" and "valid_table t'" and "i < 512" and "i' < 512"
  shows "(table_at L t + of_nat (i * 8) = table_at L t' + of_nat (i' * 8)) = (t = t' \<and> i = i')"
proof
  assume "table_at L t + of_nat (i * 8) = table_at L t' + of_nat (i' * 8)"
  then have eq: "table_base L t + i * 8 = table_base L t' + i' * 8"
    using unat_entry [OF assms(1,2,4)] unat_entry [OF assms(1,3,5)] by simp
  then have "t = t'" using table_base_apart [OF assms(1-3)] assms(4,5) by fastforce
  then show "t = t' \<and> i = i'" using eq by simp
qed simp

lemma entry_write:
  assumes "layout_ok L" and "valid_table t" and "valid_table t'" and "i < 512" and "i' < 512"
  shows "entry L (s\<lparr>mmu_mem := (mmu_mem s)(table_at L t + of_nat (i * 8) := v)\<rparr>) t' i' = (if t' = t \<and> i' = i then v else entry L s t' i')"
  using entry_addr_inj [OF assms(1,3,2,5,4)] by (auto simp: entry_def simp del: of_nat_mult)

lemma entry_clear:
  assumes "layout_ok L" and "valid_table t" and "valid_table t'" and "i < 512"
  shows "entry L (clear_words (table_at L t) 4096 s) t' i = (if t' = t then 0 else entry L s t' i)"
proof -
  let ?a = "table_at L t' + of_nat (i * 8)"
  have a: "unat ?a = table_base L t' + i * 8" by (rule unat_entry [OF assms(1,3,4)])
  have "(?a - table_at L t < 4096) = (t' = t)"
  proof (cases "t' = t")
    case True
    then show ?thesis using assms(4) by (simp add: word_less_nat_alt unsigned_of_nat take_bit_nat_eq_self del: of_nat_mult)
  next
    case False
    note ap = table_base_apart [OF assms(1-3) False [symmetric]] and b = table_base [OF assms(1,2)] and b' = table_base [OF assms(1,3)]
    have "\<not> ?a - table_at L t < 4096"
    proof (cases "table_at L t \<le> ?a")
      case True
      then have "unat (?a - table_at L t) = unat ?a - unat (table_at L t)" by (rule unat_sub)
      moreover have "table_base L t + 4096 \<le> table_base L t'" using ap True a b assms(4) by (auto simp: word_le_nat_alt simp del: of_nat_mult)
      ultimately show ?thesis using a b by (simp add: word_less_nat_alt del: of_nat_mult)
    next
      case False
      then have "unat (?a - table_at L t) = 2 ^ 64 + unat ?a - unat (table_at L t)" by (simp add: unat_sub_if_size word_size word_le_nat_alt del: of_nat_mult)
      then show ?thesis using a b b' assms(4) by (simp add: word_less_nat_alt del: of_nat_mult)
    qed
    then show ?thesis using False by simp
  qed
  then show ?thesis by (simp add: entry_def clear_words_def del: of_nat_mult)
qed

text \<open>The index of a level as the code computes it.\<close>

lemma level_offset: "(drop_bit sh va AND MMU_LEVEL_MASK) * 8 = of_nat (level_index va sh * 8)"
proof -
  have "MMU_LEVEL_MASK = mask 9" by (simp add: mask_eq_exp_minus_1)
  then have "drop_bit sh va AND MMU_LEVEL_MASK = take_bit 9 (drop_bit sh va)" by (simp only: take_bit_eq_mask)
  also have "\<dots> = of_nat (unat (take_bit 9 (drop_bit sh va)))" by simp
  also have "unat (take_bit 9 (drop_bit sh va)) = level_index va sh"
    by (simp only: level_index_def unsigned_take_bit_eq unsigned_drop_bit_eq) (use unsigned_less [of va, where ?'a = nat] in \<open>simp add: drop_bit_eq_div take_bit_eq_mod\<close>)
  finally show ?thesis by simp
qed

lemma level_index_less [simp]: "level_index va sh < 512"
  by (simp add: level_index_def)

lemma pointer_bits:
  assumes "layout_ok L" and "j < 32"
  shows "(table_at L (Some j) OR 3) AND MMU_ADDRESS_MASK = table_at L (Some j)" "(table_at L (Some j) OR 3) AND 3 = 3" "(table_at L (Some j) OR 3) AND 1 = 1"
proof -
  let ?p = "table_at L (Some j)"
  have b: "unat ?p + 4096 \<le> 2 ^ 48" "unat ?p mod 4096 = 0" using table_base [OF assms(1), of "Some j"] assms(2) by simp_all
  have "take_bit 48 ?p = ?p" "take_bit 12 ?p = 0"
    using b unfolding word_unat_eq_iff unsigned_take_bit_eq by (simp_all add: take_bit_eq_mod)
  then have bits: "12 \<le> n \<and> n < 48" if "bit ?p n" for n
    using that by (metis bit_take_bit_iff bit_0_eq bot_apply bot_bool_def linorder_not_le)
  have m: "MMU_ADDRESS_MASK = mask 48 AND NOT (mask 12)" by (simp add: mask_eq_exp_minus_1)
  have three: "(3 :: u64) = mask 2" by (simp add: mask_eq_exp_minus_1)
  show "(?p OR 3) AND MMU_ADDRESS_MASK = ?p" unfolding m three
    by (intro bit_word_eqI) (auto simp: bit_simps dest: bits)
  show "(?p OR 3) AND 3 = 3" by (simp add: bit_eq_iff bit_simps)
  show "(?p OR 3) AND 1 = 1" by (simp add: and_one_eq mod_2_eq_odd even_or_iff)
qed

lemma leaf_bits:
  assumes "pa AND ARCH_SECTION_MASK = 0" and "e = pa OR (at AND MMU_ATTRIB_MASK OR 1)"
  shows "e AND 3 = 1" "pa < 2 ^ 48 \<Longrightarrow> block_out va 21 e = (pa OR (va AND mask 21), at AND MMU_ATTRIB_MASK)"
proof -
  have m: "MMU_ADDRESS_MASK = mask 48 AND NOT (mask 12)" "MMU_ATTRIB_MASK = NOT (mask 52) OR (mask 12 AND NOT (mask 2))" "ARCH_SECTION_MASK = mask 21" "(3 :: u64) = mask 2"
    by (simp_all add: mask_eq_exp_minus_1)
  have "take_bit 21 pa = 0" using assms(1) unfolding m(3) by (simp add: take_bit_eq_mask)
  then have lo: "21 \<le> n" if "bit pa n" for n using that by (metis bit_take_bit_iff bit_0_eq bot_apply bot_bool_def linorder_not_le)
  show "e AND 3 = 1" unfolding assms(2) m
    by (intro bit_word_eqI) (auto simp: bit_simps dest: lo)
  assume "pa < 2 ^ 48"
  then have "take_bit 48 pa = pa" unfolding word_unat_eq_iff unsigned_take_bit_eq by (simp add: take_bit_eq_mod word_less_nat_alt)
  then have hi: "n < 48" if "bit pa n" for n using that by (metis bit_take_bit_iff)
  show "block_out va 21 e = (pa OR (va AND mask 21), at AND MMU_ATTRIB_MASK)" unfolding assms(2) block_out_def m prod.inject
    by (intro conjI bit_word_eqI) (auto simp: bit_simps dest: lo hi)
qed

lemmas leaf_type = leaf_bits(1) [OF _ refl] and leaf_out_bits = leaf_bits(2) [OF _ refl]

section \<open>The tree of the tables\<close>

definition child :: "(nat option \<times> nat) list \<Rightarrow> nat option \<times> nat \<Rightarrow> nat option" where
  "child own = map_of (zip own [0..<length own])"

definition leaf :: "(nat option \<times> nat) list \<Rightarrow> u64 \<Rightarrow> nat option" where
  "leaf own va = Option.bind (child own (None, level_index va 39)) (\<lambda>j. child own (Some j, level_index va 30))"

definition leaf_out :: "u64 \<Rightarrow> u64 \<Rightarrow> (u64 \<times> u64) option" where
  "leaf_out va e = (if e AND 3 = 1 then Some (block_out va 21 e) else None)"

lemma child_Some: "distinct own \<Longrightarrow> (child own x = Some j) = (j < length own \<and> own ! j = x)"
  by (auto simp: child_def in_set_zip map_of_eq_Some_iff)

lemma child_None: "(child own x = None) = (x \<notin> set own)"
proof -
  have "map fst (zip own [0..<length own]) = own" by simp
  then show ?thesis by (metis child_def map_of_eq_None_iff set_map)
qed

lemma child_append: "y \<notin> set own \<Longrightarrow> child (own @ [y]) x = (if x = y then Some (length own) else child own x)"
proof -
  assume "y \<notin> set own"
  then have "child own y = None" by (simp add: child_None)
  moreover have "child (own @ [y]) = [y \<mapsto> length own] ++ child own" by (simp add: child_def)
  ultimately show ?thesis by (cases "child own x") (auto simp: map_add_def)
qed

lemma tables_byD:
  assumes "tables_by L s own"
  shows "length own = mmu_pages s" "mmu_pages s \<le> 32" "distinct own"
    "\<And>j. j < mmu_pages s \<Longrightarrow> snd (own ! j) < 512" "\<And>j. j < mmu_pages s \<Longrightarrow> entry L s (fst (own ! j)) (snd (own ! j)) = table_at L (Some j) OR 3"
    "\<And>j k. j < mmu_pages s \<Longrightarrow> fst (own ! j) = Some k \<Longrightarrow> k < j \<and> fst (own ! k) = None"
    "\<And>i. i < 512 \<Longrightarrow> (None, i) \<notin> set own \<Longrightarrow> entry L s None i AND 1 = 0"
    "\<And>j i. j < mmu_pages s \<Longrightarrow> fst (own ! j) = None \<Longrightarrow> i < 512 \<Longrightarrow> (Some j, i) \<notin> set own \<Longrightarrow> entry L s (Some j) i AND 1 = 0"
    "\<And>j i. j < mmu_pages s \<Longrightarrow> fst (own ! j) \<noteq> None \<Longrightarrow> i < 512 \<Longrightarrow> entry L s (Some j) i AND 3 \<noteq> 3"
  using assms unfolding tables_by_def by blast+

text \<open>The tables an entry of which may point to another table.\<close>

definition inner :: "(nat option \<times> nat) list \<Rightarrow> nat option \<Rightarrow> bool" where
  "inner own t = (case t of None \<Rightarrow> True | Some j \<Rightarrow> j < length own \<and> fst (own ! j) = None)"

lemma inner_valid: "tables_by L s own \<Longrightarrow> inner own t \<Longrightarrow> valid_table t"
  using tables_byD(1,2) by (fastforce simp: inner_def valid_table_def)

lemma inner_entry:
  assumes "tables_by L s own" and "inner own t" and "i < 512"
  shows "child own (t, i) = Some j \<Longrightarrow> entry L s t i = table_at L (Some j) OR 3 \<and> j < 32" "child own (t, i) = None \<Longrightarrow> entry L s t i AND 1 = 0"
proof -
  note d = tables_byD [OF assms(1)]
  show "entry L s t i = table_at L (Some j) OR 3 \<and> j < 32" if "child own (t, i) = Some j"
    using that d(1,2,3) d(5) [of j] by (auto simp: child_Some)
  show "entry L s t i AND 1 = 0" if "child own (t, i) = None"
    using that assms(2,3) d(1) d(7) d(8) by (auto simp: child_None inner_def split: option.splits)
qed

lemma and3_unused: "e AND 1 = 0 \<Longrightarrow> e AND 3 \<noteq> 3 \<and> e AND 3 \<noteq> (1 :: u64)"
proof -
  assume a: "e AND 1 = 0"
  have "(e AND 3) AND 1 = e AND 1" by (simp add: and.assoc)
  then show ?thesis using a by auto
qed

lemma translate_by:
  assumes "layout_ok L" and "tables_by L s own" and "va < 2 ^ 48"
  shows "translate L s va = Option.bind (leaf own va) (\<lambda>k. leaf_out va (entry L s (Some k) (level_index va 21)))"
proof -
  have w3: "translate L s va = (let e = entry L s None (level_index va 39) in if e AND 3 = 3 then table_walk (mmu_mem s) va 2 (e AND MMU_ADDRESS_MASK) else None)"
    using assms(3) by (simp add: translate_def entry_def table_at_def numeral_3_eq_3 numeral_2_eq_2 Let_def)
  have w2: "table_walk (mmu_mem s) va 2 (table_at L t) = (let e = entry L s t (level_index va 30) in if e AND 3 = 3 then table_walk (mmu_mem s) va 1 (e AND MMU_ADDRESS_MASK)
      else if e AND 3 = 1 then Some (block_out va 30 e) else None)" for t
    by (simp add: entry_def numeral_2_eq_2 Let_def)
  have w1: "table_walk (mmu_mem s) va 1 (table_at L t) = leaf_out va (entry L s t (level_index va 21))" if "entry L s t (level_index va 21) AND 3 \<noteq> 3" for t
    using that by (simp add: entry_def leaf_out_def Let_def)
  note d = tables_byD [OF assms(2)]
  show ?thesis
  proof (cases "child own (None, level_index va 39)")
    case None
    then show ?thesis using inner_entry(2) [OF assms(2), of None] by (simp add: w3 leaf_def inner_def and3_unused)
  next
    case (Some j)
    then have j: "entry L s None (level_index va 39) = table_at L (Some j) OR 3" "j < 32" "inner own (Some j)"
      using inner_entry(1) [OF assms(2), of None _ j] d(1-3) by (auto simp: inner_def child_Some)
    show ?thesis
    proof (cases "child own (Some j, level_index va 30)")
      case None
      then show ?thesis using inner_entry(2) [OF assms(2) j(3)] Some by (simp add: w3 w2 j pointer_bits [OF assms(1)] leaf_def and3_unused)
    next
      case (Some k)
      then have k: "entry L s (Some j) (level_index va 30) = table_at L (Some k) OR 3" "k < 32" "k < mmu_pages s" "fst (own ! k) = Some j"
        using inner_entry(1) [OF assms(2) j(3) _ Some] d(1,3) by (auto simp: child_Some)
      have "entry L s (Some k) (level_index va 21) AND 3 \<noteq> 3" using d(9) [OF k(3)] k(4) by simp
      then show ?thesis using Some \<open>child own (None, level_index va 39) = Some j\<close> by (simp add: w3 w2 w1 [simplified] j k pointer_bits [OF assms(1)] leaf_def)
    qed
  qed
qed

section \<open>Walking down\<close>

text \<open>One level: an entry in use is followed, a missing table is made, and without a free page nothing changes.\<close>

lemma map_level_entry:
  "map_level L va sh (table_at L t) s =
     (let i = level_index va sh;
          (err, s) =
            (if entry L s t i AND 1 = 0 then
               if mmu_pages s \<ge> 32 then (True, s)
               else if table_at L (Some (mmu_pages s)) = 0 then (True, s\<lparr>mmu_pages := mmu_pages s + 1\<rparr>)
               else let n = mmu_pages s; s = clear_words (table_at L (Some n)) 4096 (s\<lparr>mmu_pages := n + 1\<rparr>)
                    in (False, s\<lparr>mmu_mem := (mmu_mem s)(table_at L t + of_nat (i * 8) := table_at L (Some n) OR 3)\<rparr>)
             else (False, s));
          page = entry L s t i
      in if err then (Inl (- 3), s) else if page AND 3 = 1 then (Inl (- 4), s) else (Inr (page AND MMU_ADDRESS_MASK), s))"
  unfolding map_level_def Let_def level_offset
  by (simp add: entry_def kernel_free_page_def table_at_def Let_def clear_words_def del: of_nat_mult)

lemma map_level_hit:
  assumes "layout_ok L" and "tables_by L s own" and "inner own t" and "child own (t, level_index va sh) = Some j"
  shows "map_level L va sh (table_at L t) s = (Inr (table_at L (Some j)), s)"
  using inner_entry(1) [OF assms(2,3) level_index_less assms(4)]
  by (simp add: map_level_entry Let_def pointer_bits [OF assms(1)])

lemma map_level_full:
  assumes "tables_by L s own" and "inner own t" and "child own (t, level_index va sh) = None" and "mmu_pages s = 32"
  shows "map_level L va sh (table_at L t) s = (Inl (- 3), s)"
  using inner_entry(2) [OF assms(1,2) level_index_less assms(3)] assms(4) by (simp add: map_level_entry Let_def)

lemma table_at_nonzero: "layout_ok L \<Longrightarrow> j < 32 \<Longrightarrow> table_at L (Some j) \<noteq> 0"
  using table_base(1) [of L "Some j"] by (auto simp: layout_ok_def table_base_def)

lemma tables_by_append:
  assumes "tables_by L s own" and "inner own t" and "i < 512" and "(t, i) \<notin> set own" and "mmu_pages s < 32" and n: "n = mmu_pages s" and "mmu_pages s' = n + 1"
    and e: "\<And>t' i'. valid_table t' \<Longrightarrow> i' < 512 \<Longrightarrow>
      entry L s' t' i' = (if t' = t \<and> i' = i then table_at L (Some n) OR 3 else if t' = Some n then 0 else entry L s t' i')"
  shows "tables_by L s' (own @ [(t, i)])"
proof -
  note d = tables_byD [OF assms(1)]
  have tn: "t \<noteq> Some n" using assms(2) d(1) n by (auto simp: inner_def)
  have val: "valid_table t" by (rule inner_valid [OF assms(1,2)])
  have old: "fst (own ! j) \<noteq> Some n \<and> valid_table (fst (own ! j)) \<and> snd (own ! j) < 512 \<and> own ! j \<noteq> (t, i)" if "j < n" for j
  proof -
    have "own ! j \<in> set own" using that d(1) n by simp
    moreover have "k < j" if "fst (own ! j) = Some k" for k using d(6) [of j k] that \<open>j < n\<close> n by simp
    ultimately show ?thesis using that d(2) d(4) [of j] assms(4) n by (fastforce simp: valid_table_def)
  qed
  have nth: "(own @ [(t, i)]) ! j = (if j < n then own ! j else (t, i))" if "j < n + 1" for j using that d(1) n by (auto simp: nth_append)
  show ?thesis unfolding tables_by_def
  proof (intro conjI allI impI)
    fix j assume j: "j < mmu_pages s'"
    show "snd ((own @ [(t, i)]) ! j) < 512" using j old assms(3,7) by (simp add: nth)
    show "entry L s' (fst ((own @ [(t, i)]) ! j)) (snd ((own @ [(t, i)]) ! j)) = table_at L (Some j) OR 3"
    proof (cases "j < n")
      case True
      then show ?thesis using old [OF True] d(5) [of j] n by (cases "own ! j") (auto simp: nth e)
    next
      case False
      then have "j = n" using j assms(7) by simp
      then show ?thesis using assms(3) by (simp add: nth e [OF val])
    qed
    fix k assume "fst ((own @ [(t, i)]) ! j) = Some k"
    then show "k < j" "fst ((own @ [(t, i)]) ! k) = None"
      using j assms(2,7) d(1) d(6) [of j k] n by (auto simp: nth nth_append inner_def split: if_splits)
  next
    fix j k assume "j < mmu_pages s'" "fst ((own @ [(t, i)]) ! j) = None" "k < 512" "(Some j, k) \<notin> set (own @ [(t, i)])"
    then show "entry L s' (Some j) k AND 1 = 0"
      using assms(5,7) d(8) [of j k] n by (auto simp: nth e split: if_splits)
  next
    fix j k :: nat assume "j < mmu_pages s'" "fst ((own @ [(t, i)]) ! j) \<noteq> None" "k < 512"
    moreover have "Some j \<noteq> t" if "j < n" "fst (own ! j) \<noteq> None" using that assms(2) d(1) n by (auto simp: inner_def)
    ultimately show "entry L s' (Some j) k AND 3 \<noteq> 3"
      using assms(5,7) d(9) [of j k] n tn by (auto simp: nth e split: if_splits)
  qed (use assms d e [of None] in auto)
qed

lemma map_level_new:
  assumes "layout_ok L" and "tables_by L s own" and "inner own t" and "child own (t, level_index va sh) = None" and "mmu_pages s < 32"
  obtains s' where "map_level L va sh (table_at L t) s = (Inr (table_at L (Some (mmu_pages s))), s')"
    "tables_by L s' (own @ [(t, level_index va sh)])" "mmu_pages s' = mmu_pages s + 1"
    "\<And>t' i'. valid_table t' \<Longrightarrow> i' < 512 \<Longrightarrow> entry L s' t' i' =
      (if t' = t \<and> i' = level_index va sh then table_at L (Some (mmu_pages s)) OR 3 else if t' = Some (mmu_pages s) then 0 else entry L s t' i')"
proof -
  let ?n = "mmu_pages s" and ?i = "level_index va sh"
  define s0 where "s0 = clear_words (table_at L (Some ?n)) 4096 (s\<lparr>mmu_pages := Suc ?n\<rparr>)"
  define s' where "s' = s0\<lparr>mmu_mem := (mmu_mem s0)(table_at L t + of_nat (?i * 8) := table_at L (Some ?n) OR 3)\<rparr>"
  have val: "valid_table t" by (rule inner_valid [OF assms(2,3)])
  have tn: "t \<noteq> Some ?n" using assms(3) tables_byD(1) [OF assms(2)] by (auto simp: inner_def)
  have e0: "entry L s0 t' i' = (if t' = Some ?n then 0 else entry L s t' i')" if "valid_table t'" "i' < 512" for t' i'
    unfolding s0_def using that assms(5) by (subst entry_clear [OF assms(1)]) (auto simp: entry_def)
  have e: "entry L s' t' i' = (if t' = t \<and> i' = ?i then table_at L (Some ?n) OR 3 else if t' = Some ?n then 0 else entry L s t' i')" if "valid_table t'" "i' < 512" for t' i'
    unfolding s'_def using that tn by (subst entry_write [OF assms(1) val]) (auto simp: e0)
  have "map_level L va sh (table_at L t) s = (Inr (table_at L (Some ?n)), s')"
    using inner_entry(2) [OF assms(2,3) level_index_less assms(4)] assms(5) table_at_nonzero [OF assms(1)] e [OF val level_index_less]
    by (simp add: map_level_entry Let_def pointer_bits [OF assms(1)] del: of_nat_mult flip: s0_def s'_def)
  moreover have "mmu_pages s' = ?n + 1" by (simp add: s'_def s0_def clear_words_def)
  moreover have "tables_by L s' (own @ [(t, ?i)])"
    by (rule tables_by_append [OF assms(2,3) level_index_less _ assms(5) refl]) (use assms(4) e calculation(2) in \<open>auto simp: child_None\<close>)
  ultimately show thesis using that e by blast
qed

text \<open>A table that is made is empty: no translation changes.\<close>

lemma translate_append:
  assumes "layout_ok L" and "tables_by L s own" and "inner own t" and "i < 512" and "(t, i) \<notin> set own" and "mmu_pages s < 32" and "tables_by L s' (own @ [(t, i)])"
    and e: "\<And>t' i'. valid_table t' \<Longrightarrow> i' < 512 \<Longrightarrow>
      entry L s' t' i' = (if t' = t \<and> i' = i then table_at L (Some (mmu_pages s)) OR 3 else if t' = Some (mmu_pages s) then 0 else entry L s t' i')"
  shows "translate L s' va = translate L s va"
proof (cases "va < 2 ^ 48")
  case True
  note d = tables_byD [OF assms(2)]
  have tn: "t \<noteq> Some (mmu_pages s)" using assms(3) d(1) by (auto simp: inner_def)
  have up: "child own (Some (mmu_pages s), k) = None" for k
  proof (rule ccontr)
    assume "child own (Some (mmu_pages s), k) \<noteq> None"
    then obtain j where "j < mmu_pages s" "own ! j = (Some (mmu_pages s), k)" using d(1,3) by (auto simp: child_Some)
    then show False using d(6) [of j "mmu_pages s"] by simp
  qed
  have new: "leaf_out va (entry L s' (Some (mmu_pages s)) k) = None" if "k < 512" for k
    using e [of "Some (mmu_pages s)" k] tn that assms(6) by (auto simp: leaf_out_def)
  have old: "entry L s' (Some k) j = entry L s (Some k) j" if "child own (Some m, l) = Some k" "j < 512" for k m l j
  proof -
    have k: "k < mmu_pages s" "fst (own ! k) \<noteq> None" using that(1) d(1,3) by (auto simp: child_Some)
    then have "Some k \<noteq> t" using assms(3) by (auto simp: inner_def)
    then show ?thesis using e [of "Some k" j] k(1) d(2) that(2) by simp
  qed
  have leaf: "leaf (own @ [(t, i)]) va = (if t = None \<and> level_index va 39 = i then None
      else case child own (None, level_index va 39) of None \<Rightarrow> None | Some j \<Rightarrow> if (Some j, level_index va 30) = (t, i) then Some (mmu_pages s) else child own (Some j, level_index va 30))"
    using assms(5) d(1) up tn by (auto simp: leaf_def child_append split: option.splits)
  have ti: "child own (t, i) = None" using assms(5) by (simp add: child_None)
  have "Option.bind (leaf (own @ [(t, i)]) va) (\<lambda>k. leaf_out va (entry L s' (Some k) (level_index va 21))) =
      Option.bind (leaf own va) (\<lambda>k. leaf_out va (entry L s (Some k) (level_index va 21)))"
  proof (cases "child own (None, level_index va 39)")
    case None
    then show ?thesis by (simp add: leaf leaf_def [of own])
  next
    case (Some j)
    then show ?thesis using ti new [of "level_index va 21"] old [of j "level_index va 30"]
      by (cases "child own (Some j, level_index va 30)") (auto simp: leaf leaf_def [of own])
  qed
  then show ?thesis by (simp add: translate_by [OF assms(1,7) True] translate_by [OF assms(1,2) True])
qed (simp add: translate_def)

text \<open>The two rounds of the loop. What is added to the tree is on the way to the address.\<close>

definition on_path :: "u64 \<Rightarrow> (nat option \<times> nat) list \<Rightarrow> nat option \<times> nat \<Rightarrow> bool" where
  "on_path va own x = (x = (None, level_index va 39) \<or> (\<exists>j < length own. x = (Some j, level_index va 30) \<and> own ! j = (None, level_index va 39)))"

lemma map_level_tree:
  assumes "layout_ok L" and "tables_by L s own" and "inner own t"
  obtains (down) own' s' j where "map_level L va sh (table_at L t) s = (Inr (table_at L (Some j)), s')" "tables_by L s' own'" "translate L s' = translate L s"
      "own' = own \<or> own' = own @ [(t, level_index va sh)]" "child own' (t, level_index va sh) = Some j" "inner own' t"
  | (full) "map_level L va sh (table_at L t) s = (Inl (- 3), s)" "mmu_pages s = 32"
proof (cases "child own (t, level_index va sh)")
  case (Some j)
  then show thesis using down [of j s own] map_level_hit [OF assms] assms by simp
next
  case None
  note d = tables_byD [OF assms(2)]
  show thesis
  proof (cases "mmu_pages s < 32")
    case True
    obtain s' where s': "map_level L va sh (table_at L t) s = (Inr (table_at L (Some (mmu_pages s))), s')"
      "tables_by L s' (own @ [(t, level_index va sh)])" and e: "\<And>t' i'. valid_table t' \<Longrightarrow> i' < 512 \<Longrightarrow> entry L s' t' i' =
        (if t' = t \<and> i' = level_index va sh then table_at L (Some (mmu_pages s)) OR 3 else if t' = Some (mmu_pages s) then 0 else entry L s t' i')"
      using map_level_new [OF assms None True] by blast
    have "translate L s' = translate L s"
      using translate_append [OF assms level_index_less _ True s'(2) e] None by (auto simp: child_None fun_eq_iff)
    moreover have "inner (own @ [(t, level_index va sh)]) t" using assms(3) by (auto simp: inner_def nth_append split: option.splits)
    ultimately show thesis using down [OF s'] None d(1) by (simp add: child_append child_None)
  next
    case False
    then show thesis using full map_level_full [OF assms(2,3) None] d(2) by simp
  qed
qed

lemma map_levels_tree:
  assumes "layout_ok L" and "tables_by L s own"
  obtains (down) own' s' k where "map_levels L va 2 39 (MMUTable L) s = (Inr (table_at L (Some k)), s')" "tables_by L s' own'" "translate L s' = translate L s"
      "leaf own' va = Some k" "\<exists>e. own' = own @ e \<and> (\<forall>x \<in> set e. on_path va own' x)"
  | (full) own' s' where "map_levels L va 2 39 (MMUTable L) s = (Inl (- 3), s')" "tables_by L s' own'" "translate L s' = translate L s" "mmu_pages s' = 32"
      "\<exists>e. own' = own @ e \<and> (\<forall>x \<in> set e. on_path va own' x)"
proof -
  have root: "MMUTable L = table_at L None" by (simp add: table_at_def)
  have "inner own None" by (simp add: inner_def)
  note step = map_level_tree [OF assms this, of va 39]
  show thesis
  proof (rule step, goal_cases)
    case down: (1 own1 s1 j)
    then have j: "j < length own1" "own1 ! j = (None, level_index va 39)" using tables_byD(3) [OF down(2)] by (auto simp: child_Some)
    then have inn: "inner own1 (Some j)" by (simp add: inner_def)
    note first = down
    show thesis
    proof (rule map_level_tree [OF assms(1) down(2) inn, of va 30], goal_cases)
      case down: (1 own2 s2 k)
      have grow: "\<exists>e. own2 = own @ e \<and> (\<forall>x \<in> set e. on_path va own2 x)"
        using first(4) down(4) j by (auto simp: on_path_def nth_append)
      have "child own2 (None, level_index va 39) = Some j"
        using down(2,4) j tables_byD(3) [OF down(2)] by (auto simp: child_Some nth_append)
      then have "leaf own2 va = Some k" using down(5) by (simp add: leaf_def)
      then show thesis using that(1) [OF _ down(2) _ _ grow] first(1,3) down(1,3) by (simp add: root numeral_2_eq_2)
    next
      case full: 2
      have "\<exists>e. own1 = own @ e \<and> (\<forall>x \<in> set e. on_path va own1 x)" using first(4) by (auto simp: on_path_def)
      then show thesis using that(2) [OF _ first(2)] first(1,3) full by (simp add: root numeral_2_eq_2)
    qed
  next
    case full: 2
    then show thesis using that(2) [OF _ assms(2)] by (simp add: root numeral_2_eq_2)
  qed
qed

section \<open>Mapping a section\<close>

definition same_section :: "u64 \<Rightarrow> u64 \<Rightarrow> bool" where
  "same_section x y = (unat x div 2 ^ 21 = unat y div 2 ^ 21)"

lemma section_levels:
  assumes "x < 2 ^ 48" and "y < 2 ^ 48"
  shows "same_section x y = (level_index x 39 = level_index y 39 \<and> level_index x 30 = level_index y 30 \<and> level_index x 21 = level_index y 21)"
proof -
  have parts: "unat z div 2 ^ 21 = (level_index z 39 * 512 + level_index z 30) * 512 + level_index z 21" if "z < 2 ^ 48" for z :: u64
  proof -
    have "unat z < 2 ^ 48" using that by (simp add: word_less_nat_alt)
    then have "unat z div 2 ^ 39 < 512" by (simp add: div_less_iff_less_mult)
    moreover have "unat z div 2 ^ 30 = unat z div 2 ^ 21 div 512" "unat z div 2 ^ 39 = unat z div 2 ^ 21 div 512 div 512"
      by (simp_all add: div_mult2_eq [symmetric])
    ultimately have "level_index z 39 = unat z div 2 ^ 21 div 512 div 512" "level_index z 30 = unat z div 2 ^ 21 div 512 mod 512" "level_index z 21 = unat z div 2 ^ 21 mod 512"
      by (simp_all only: level_index_def mod_less)
    then show ?thesis by (simp only: div_mult_mod_eq)
  qed
  have two: "(a * 512 + c = b * 512 + e) = (a = b \<and> c = e)" if "c < 512" "e < 512" for a b c e :: nat
    using that by (auto dest: arg_cong [where f = "\<lambda>n. n div 512"] arg_cong [where f = "\<lambda>n. n mod 512"])
  show ?thesis unfolding same_section_def parts [OF assms(1)] parts [OF assms(2)] by (simp only: two level_index_less conj_assoc)
qed

lemma section_range:
  assumes "va AND ARCH_SECTION_MASK = 0" and "va < 2 ^ 48"
  shows "(x < 2 ^ 48 \<and> same_section x va) = (unat va \<le> unat x \<and> unat x < unat va + 2 ^ 21)"
proof -
  have "ARCH_SECTION_MASK = mask 21" by (simp add: mask_eq_exp_minus_1)
  then have "take_bit 21 va = 0" using assms(1) by (simp only: take_bit_eq_mask)
  then have "unat va mod 2 ^ 21 = 0" unfolding word_unat_eq_iff unsigned_take_bit_eq by (simp add: take_bit_eq_mod)
  then obtain q where q: "unat va = q * 2 ^ 21" by (metis add_0_right div_mult_mod_eq)
  then have "q < 2 ^ 27" using assms(2) by (simp add: word_less_nat_alt)
  have "(unat x div 2 ^ 21 = q) = (q * 2 ^ 21 \<le> unat x \<and> unat x < q * 2 ^ 21 + 2 ^ 21)"
    by (auto intro: div_nat_eqI)
  then have "same_section x va = (q * 2 ^ 21 \<le> unat x \<and> unat x < q * 2 ^ 21 + 2 ^ 21)" by (simp add: same_section_def q)
  then show ?thesis using q \<open>q < 2 ^ 27\<close> by (auto simp: word_less_nat_alt)
qed

lemma leaf_write:
  assumes "layout_ok L" and "tables_by L s own" and "leaf own va = Some k" and "v AND 3 = 1"
    and s': "s' = s\<lparr>mmu_mem := (mmu_mem s)(table_at L (Some k) + of_nat (level_index va 21 * 8) := v)\<rparr>"
  shows "tables_by L s' own" "va < 2 ^ 48 \<Longrightarrow> translate L s' x = (if x < 2 ^ 48 \<and> same_section x va then Some (block_out x 21 v) else translate L s x)"
proof -
  note d = tables_byD [OF assms(2)]
  obtain j where j: "child own (None, level_index va 39) = Some j" "child own (Some j, level_index va 30) = Some k"
    using assms(3) by (auto simp: leaf_def bind_eq_Some_conv)
  then have k: "k < mmu_pages s" "fst (own ! k) = Some j" "k < 32" using d(1,2,3) by (auto simp: child_Some)
  have e: "entry L s' t i = (if t = Some k \<and> i = level_index va 21 then v else entry L s t i)" if "valid_table t" "i < 512" for t i
    unfolding s' using that k by (subst entry_write [OF assms(1)]) auto
  have kept: "entry L s' t i = entry L s t i" if "inner own t" "i < 512" for t i
    using e [OF inner_valid [OF assms(2) that(1)] that(2)] that(1) k by (auto simp: inner_def)
  have inn: "inner own (fst (own ! m))" if "m < mmu_pages s" for m
    using d(1) d(6) [OF that] that by (fastforce simp: inner_def split: option.splits)
  have pages: "mmu_pages s' = mmu_pages s" by (simp add: s')
  show tab: "tables_by L s' own" unfolding tables_by_def pages
  proof (intro conjI allI impI)
    fix m assume m: "m < mmu_pages s"
    show "snd (own ! m) < 512" by (rule d(4) [OF m])
    then show "entry L s' (fst (own ! m)) (snd (own ! m)) = table_at L (Some m) OR 3" using d(5) [OF m] kept [OF inn [OF m]] by simp
    fix n assume "fst (own ! m) = Some n"
    then show "n < m" "fst (own ! n) = None" using d(6) [OF m] by auto
  next
    fix i assume "i < 512" "(None, i) \<notin> set own"
    then show "entry L s' None i AND 1 = 0" using d(7) kept [of None i] by (simp add: inner_def)
  next
    fix m i assume "m < mmu_pages s" "fst (own ! m) = None" "i < 512" "(Some m, i) \<notin> set own"
    then show "entry L s' (Some m) i AND 1 = 0" using d(1) d(8) kept [of "Some m" i] by (simp add: inner_def)
  next
    fix m i :: nat assume "m < mmu_pages s" "fst (own ! m) \<noteq> None" "i < 512"
    then show "entry L s' (Some m) i AND 3 \<noteq> 3" using d(2) d(9) [of m i] e [of "Some m" i] assms(4) by auto
  qed (use d in auto)
  assume va: "va < 2 ^ 48"
  show "translate L s' x = (if x < 2 ^ 48 \<and> same_section x va then Some (block_out x 21 v) else translate L s x)"
  proof (cases "x < 2 ^ 48")
    case True
    have same: "(leaf own x = Some k \<and> level_index x 21 = level_index va 21) = same_section x va"
      unfolding section_levels [OF True va] using j d(3) by (auto simp: leaf_def bind_eq_Some_conv child_Some)
    have "leaf_out x (entry L s' (Some m) (level_index x 21)) = (if same_section x va then Some (block_out x 21 v) else leaf_out x (entry L s (Some m) (level_index x 21)))"
      if "leaf own x = Some m" for m
    proof -
      have "m < 32" using that d(1,2,3) by (auto simp: leaf_def bind_eq_Some_conv child_Some)
      then show ?thesis using e [of "Some m" "level_index x 21"] same that assms(4) by (auto simp: leaf_out_def)
    qed
    then show ?thesis using True same
      by (cases "leaf own x") (simp_all add: translate_by [OF assms(1) tab True] translate_by [OF assms(1,2) True])
  qed (simp add: translate_def)
qed

text \<open>Mapping a section keeps the tables well formed, whatever the arguments. Below \<open>2 ^ 48\<close> it updates the translation.\<close>

lemma section_out:
  assumes "same_section x va" and "va AND ARCH_SECTION_MASK = 0" and "pa AND ARCH_SECTION_MASK = 0"
  shows "pa OR (x AND mask 21) = pa + (x - va)"
proof -
  have m: "ARCH_SECTION_MASK = mask 21" by (simp add: mask_eq_exp_minus_1)
  have z: "take_bit 21 va = 0" "take_bit 21 pa = 0" using assms(2,3) unfolding m by (simp_all add: take_bit_eq_mask)
  have "\<not> bit pa n" if "n < 21" for n using z(2) that by (metis bit_0_eq bit_take_bit_iff bot_apply bot_bool_def)
  then have "pa OR (x AND mask 21) = pa + take_bit 21 x"
    by (subst disjunctive_add) (auto simp: bit_simps take_bit_eq_mask)
  moreover have "take_bit 21 x = x - va"
  proof -
    have "unat va mod 2 ^ 21 = 0" using z(1) unfolding word_unat_eq_iff unsigned_take_bit_eq by (simp add: take_bit_eq_mod)
    then have "unat va = unat x div 2 ^ 21 * 2 ^ 21" using assms(1) by (metis same_section_def div_mult_mod_eq add_0_right)
    then have "unat x = unat va + unat x mod 2 ^ 21" by (metis div_mult_mod_eq)
    then have "unat va \<le> unat x" "unat x - unat va = unat x mod 2 ^ 21" by linarith+
    moreover have "unat (take_bit 21 x) = unat x mod 2 ^ 21" unfolding unsigned_take_bit_eq by (simp add: take_bit_eq_mod)
    ultimately show ?thesis by (simp add: word_unat_eq_iff unat_sub word_le_nat_alt)
  qed
  ultimately show ?thesis by simp
qed

definition maps :: "u64 \<Rightarrow> u64 \<Rightarrow> u64 \<Rightarrow> nat \<Rightarrow> (u64 \<Rightarrow> (u64 \<times> u64) option) \<Rightarrow> u64 \<Rightarrow> (u64 \<times> u64) option" where
  "maps va pa at n tr x = (if unat va \<le> unat x \<and> unat x < unat va + n then Some (pa + (x - va), at AND MMU_ATTRIB_MASK) else tr x)"

lemma map_2M_by:
  assumes "layout_ok L" and "tables_by L s own" and "kenrel_map_2M L (MMUTable L) va pa at s = (r, s')"
  obtains own' where "tables_by L s' own'" "\<exists>e. own' = own @ e \<and> (\<forall>x \<in> set e. on_path va own' x)"
    "r = (if va AND ARCH_SECTION_MASK \<noteq> 0 then - 1 else if pa AND ARCH_SECTION_MASK \<noteq> 0 then - 2 else if r = 0 then 0 else - 3)" "r = - 3 \<Longrightarrow> mmu_pages s' = 32"
    "r \<noteq> 0 \<Longrightarrow> translate L s' = translate L s" "r = 0 \<Longrightarrow> va < 2 ^ 48 \<Longrightarrow> pa < 2 ^ 48 \<Longrightarrow> translate L s' = maps va pa at (2 ^ 21) (translate L s)"
proof (cases "va AND ARCH_SECTION_MASK \<noteq> 0 \<or> pa AND ARCH_SECTION_MASK \<noteq> 0")
  case True
  then show thesis using that [of own] assms(2,3) by (auto simp: kenrel_map_2M_def split: if_splits)
next
  case False
  then have al: "va AND ARCH_SECTION_MASK = 0" "pa AND ARCH_SECTION_MASK = 0" by auto
  show thesis
  proof (rule map_levels_tree [OF assms(1,2), of va], goal_cases)
    case (1 own' s1 k)
    let ?v = "pa OR (at AND MMU_ATTRIB_MASK OR 1)"
    have v: "?v AND 3 = 1" by (rule leaf_type [OF al(2)])
    have r: "r = 0" "s' = s1\<lparr>mmu_mem := (mmu_mem s1)(table_at L (Some k) + of_nat (level_index va 21 * 8) := ?v)\<rparr>"
      using assms(3) False 1(1) unfolding kenrel_map_2M_def Let_def level_offset by auto
    note w = leaf_write [OF assms(1) 1(2,4) v r(2)]
    have "translate L s' = maps va pa at (2 ^ 21) (translate L s)" if b: "va < 2 ^ 48" "pa < 2 ^ 48"
    proof
      fix x
      have "(x < 2 ^ 48 \<and> same_section x va) = (unat va \<le> unat x \<and> unat x < unat va + 2 ^ 21)" by (rule section_range [OF al(1) b(1)])
      then show "translate L s' x = maps va pa at (2 ^ 21) (translate L s) x"
        using w(2) [OF b(1), of x] section_out [OF _ al, of x] leaf_out_bits [OF al(2) b(2)] by (auto simp: maps_def 1(3))
    qed
    then show thesis using that [of own'] w(1) 1(5) False by (auto simp: r(1))
  next
    case (2 own' s1)
    then have "r = - 3" "s' = s1" using assms(3) False by (auto simp: kenrel_map_2M_def)
    then show thesis using that [of own'] 2 False by auto
  qed
qed

end
