(* ===== verification/Rk_MemMap.thy ===== *)
theory Rk_MemMap
  imports Rk_Mmu
begin

text \<open>
  The memory map of the board: regions mapped by \<^verbatim>\<open>rt_hw_mmu_setmtt\<close>, the table \<^verbatim>\<open>platform_mem_desc\<close> of \<^verbatim>\<open>src/driver/board.c\<close>, and the translation the CPU does once
  \<^verbatim>\<open>rt_hw_init_mmu_table\<close> has run. The address of \<^verbatim>\<open>rk3576_gmac_dma_pool\<close> is chosen by the linker and is an argument.
\<close>

section \<open>Regions\<close>

abbreviation (input) aligned :: "u64 \<Rightarrow> bool" where "aligned x \<equiv> x AND ARCH_SECTION_MASK = 0"

lemma aligned_mod: "aligned x = (unat x mod 2 ^ 21 = 0)"
proof -
  have "ARCH_SECTION_MASK = mask 21" by (simp add: mask_eq_exp_minus_1)
  then have "x AND ARCH_SECTION_MASK = take_bit 21 x" by (simp only: take_bit_eq_mask)
  moreover have "(take_bit 21 x = 0) = (unat x mod 2 ^ 21 = 0)" unfolding word_unat_eq_iff unsigned_take_bit_eq by (simp add: take_bit_eq_mod)
  ultimately show ?thesis by simp
qed

lemma aligned_next:
  assumes "aligned x"
  shows "aligned (x + ARCH_SECTION_SIZE)"
proof -
  have "2097152 dvd unat x" using assms unfolding aligned_mod by auto
  then have "2097152 dvd (unat x + 2097152) mod 2 ^ 64" by (intro dvd_mod) (auto intro: dvdI [of _ _ "2 ^ 43"])
  then show ?thesis unfolding aligned_mod unat_word_ariths by auto
qed

text \<open>Trees that serve the first 4 GB only: one table of the second level, at most four of the third.\<close>

definition low_slot :: "(nat option \<times> nat) list \<Rightarrow> nat option \<times> nat \<Rightarrow> bool" where
  "low_slot own x = (case x of (None, i) \<Rightarrow> i = 0 | (Some j, i) \<Rightarrow> i < 4 \<and> j < length own \<and> own ! j = (None, 0))"

definition low_tree :: "(nat option \<times> nat) list \<Rightarrow> bool" where
  "low_tree own = (\<forall>x \<in> set own. low_slot own x)"

lemma low_tree_grow:
  assumes "low_tree own" and "own' = own @ e" and "\<forall>x \<in> set e. on_path va own' x" and "unat va < 2 ^ 32"
  shows "low_tree own'"
proof -
  have "level_index va 39 = 0" "level_index va 30 < 4" using assms(4) by (auto simp: level_index_def div_less_iff_less_mult)
  then have "low_slot own' x" if "x \<in> set e" for x using assms(3) that by (auto simp: on_path_def low_slot_def)
  moreover have "low_slot own' x" if "low_slot own x" for x
    using that by (auto simp: low_slot_def assms(2) nth_append split: prod.splits option.splits)
  ultimately show ?thesis using assms(1) by (auto simp: low_tree_def assms(2))
qed

lemma low_tree_size:
  assumes "low_tree own" and "distinct own"
  shows "length own \<le> 5"
proof -
  obtain j where j: "\<forall>k < length own. own ! k = (None, 0) \<longrightarrow> k = j"
    using assms(2) by (metis nth_eq_iff_index_eq)
  have "x \<in> insert (None, 0) ((\<lambda>i. (Some j, i)) ` {..<4})" if "x \<in> set own" for x
  proof -
    have low: "low_slot own x" using assms(1) that by (simp add: low_tree_def)
    obtain t i where x: "x = (t, i)" by fastforce
    show ?thesis using low j by (cases t) (auto simp: low_slot_def x)
  qed
  then have "set own \<subseteq> insert (None, 0) ((\<lambda>i. (Some j, i)) ` {..<4})" by blast
  then have "card (set own) \<le> card (insert (None, 0) ((\<lambda>i. (Some j, i)) ` {..<4 :: nat}))" by (intro card_mono) auto
  also have "\<dots> \<le> Suc (card ((\<lambda>i. (Some j, i)) ` {..<4 :: nat}))" by (rule card_insert_le_m1) auto
  also have "card ((\<lambda>i. (Some j, i)) ` {..<4 :: nat}) \<le> 4" using card_image_le [of "{..<4 :: nat}"] by simp
  finally show ?thesis by (simp add: distinct_card [OF assms(2)])
qed

lemma setmtt_loop_by:
  assumes "layout_ok L" and "tables_by L s own" and "aligned va" and "aligned pa" and "setmtt_loop L at n ret va pa s = (r, s')"
  obtains own' m where "tables_by L s' own'" "m \<le> n" "low_tree own \<Longrightarrow> unat va + n * 2 ^ 21 \<le> 2 ^ 32 \<Longrightarrow> low_tree own'"
    "n = 0 \<Longrightarrow> r = ret" "0 < n \<Longrightarrow> r = 0 \<and> m = n \<or> r = - 3 \<and> mmu_pages s' = 32"
    "unat va + n * 2 ^ 21 \<le> 2 ^ 48 \<Longrightarrow> unat pa + n * 2 ^ 21 \<le> 2 ^ 48 \<Longrightarrow> translate L s' = maps va pa at (m * 2 ^ 21) (translate L s)"
  using assms(2-)
proof (induction n arbitrary: ret va pa s own thesis)
  case 0
  have "translate L s = maps va pa at 0 (translate L s)" by (auto simp: maps_def fun_eq_iff)
  then show ?case using "0.prems"(1) [of own 0] "0.prems"(2-) by simp
next
  case (Suc n)
  obtain r1 s1 where one: "kenrel_map_2M L (MMUTable L) va pa at s = (r1, s1)" by fastforce
  obtain own1 e where o: "tables_by L s1 own1" "own1 = own @ e" "\<forall>x \<in> set e. on_path va own1 x" "r1 \<in> {0, - 3}" "r1 = - 3 \<Longrightarrow> mmu_pages s1 = 32"
    "r1 \<noteq> 0 \<Longrightarrow> translate L s1 = translate L s" "r1 = 0 \<Longrightarrow> va < 2 ^ 48 \<Longrightarrow> pa < 2 ^ 48 \<Longrightarrow> translate L s1 = maps va pa at (2 ^ 21) (translate L s)"
  proof (rule map_2M_by [OF assms(1) Suc.prems(2) one], goal_cases)
    case (1 own1)
    then show ?thesis using 1(1) Suc.prems(3,4) by (auto split: if_splits)
  qed
  have low: "low_tree own1" if "low_tree own" "unat va + Suc n * 2 ^ 21 \<le> 2 ^ 32"
    using low_tree_grow [OF that(1) o(2,3)] that(2) by simp
  show ?case
  proof (cases "r1 = 0")
    case False
    then have "r = - 3" "s' = s1" using Suc.prems(5) one o(4) by auto
    moreover have "translate L s1 = maps va pa at 0 (translate L s)" using o(6) False by (auto simp: maps_def fun_eq_iff)
    ultimately show ?thesis using Suc.prems(1) [of own1 0] o(1,4,5) low False by simp
  next
    case True
    have rest: "setmtt_loop L at n 0 (va + ARCH_SECTION_SIZE) (pa + ARCH_SECTION_SIZE) s1 = (r, s')" using Suc.prems(5) one True by simp
    have plus: "unat (x + ARCH_SECTION_SIZE) = unat x + 2 ^ 21" if "unat x + Suc n * 2 ^ 21 \<le> 2 ^ 48" for x
      using that unat_plus_small [of x "2 ^ 21"] by simp
    show ?thesis
    proof (rule Suc.IH [OF _ o(1) aligned_next [OF Suc.prems(3)] aligned_next [OF Suc.prems(4)] rest], goal_cases)
      case (1 own' m)
      have "translate L s' = maps va pa at (Suc m * 2 ^ 21) (translate L s)" if b: "unat va + Suc n * 2 ^ 21 \<le> 2 ^ 48" "unat pa + Suc n * 2 ^ 21 \<le> 2 ^ 48"
      proof -
        have "va < 2 ^ 48" "pa < 2 ^ 48" using b by (simp_all add: word_less_nat_alt)
        then show ?thesis using 1(6) o(7) [OF True] b plus [OF b(1)] plus [OF b(2)] by (auto simp: maps_def fun_eq_iff)
      qed
      moreover have "low_tree own'" if "low_tree own" "unat va + Suc n * 2 ^ 21 \<le> 2 ^ 32"
        using 1(3) low [OF that] that(2) plus [of va] by simp
      ultimately show ?thesis using Suc.prems(1) [of own' "Suc m"] 1(1,2,4,5) by auto
    qed
  qed
qed

section \<open>Rounding to sections\<close>

definition section_floor :: "nat \<Rightarrow> nat" where "section_floor n = n div 2 ^ 21 * 2 ^ 21"
definition section_ceil :: "nat \<Rightarrow> nat" where "section_ceil n = (n + 2 ^ 21 - 1) div 2 ^ 21 * 2 ^ 21"

lemma floor_ceil: "section_floor n \<le> n" "n \<le> section_ceil n" "section_floor n mod 2 ^ 21 = 0" "section_ceil n mod 2 ^ 21 = 0"
  by (simp_all add: section_floor_def section_ceil_def)

lemma floor_word:
  "(if x mod ARCH_SECTION_SIZE \<noteq> 0 then x div ARCH_SECTION_SIZE * ARCH_SECTION_SIZE else x) = x div ARCH_SECTION_SIZE * ARCH_SECTION_SIZE"
  "unat (x div ARCH_SECTION_SIZE * ARCH_SECTION_SIZE) = section_floor (unat x)" "aligned (x div ARCH_SECTION_SIZE * ARCH_SECTION_SIZE)"
proof -
  show "(if x mod ARCH_SECTION_SIZE \<noteq> 0 then x div ARCH_SECTION_SIZE * ARCH_SECTION_SIZE else x) = x div ARCH_SECTION_SIZE * ARCH_SECTION_SIZE"
    using div_mult_mod_eq [of x ARCH_SECTION_SIZE] by (metis add_0_right)
  have "section_floor (unat x) < 2 ^ 64" using floor_ceil(1) [of "unat x"] unsigned_less [of x, where ?'a = nat] by simp
  then show u: "unat (x div ARCH_SECTION_SIZE * ARCH_SECTION_SIZE) = section_floor (unat x)"
    by (simp add: unat_word_ariths unat_div section_floor_def)
  show "aligned (x div ARCH_SECTION_SIZE * ARCH_SECTION_SIZE)" unfolding aligned_mod u by (rule floor_ceil(3))
qed

lemma ceil_word:
  assumes "section_ceil (unat x) \<le> 2 ^ 48"
  shows "unat (if x mod ARCH_SECTION_SIZE \<noteq> 0 then (x div ARCH_SECTION_SIZE + 1) * ARCH_SECTION_SIZE else x) = section_ceil (unat x)"
proof (cases "x mod ARCH_SECTION_SIZE = 0")
  case True
  then have "unat x mod 2 ^ 21 = 0" by (simp add: word_unat_eq_iff unat_mod)
  then obtain q where q: "unat x = q * 2 ^ 21" by (metis add_0_right div_mult_mod_eq)
  show ?thesis using True by (simp add: section_ceil_def q)
next
  case False
  then have m: "unat x mod 2 ^ 21 \<noteq> 0" by (simp add: word_unat_eq_iff unat_mod)
  define q r where "q = unat x div 2 ^ 21" and "r = unat x mod 2 ^ 21"
  have qr: "unat x = q * 2097152 + r" "r < 2097152" "0 < r" using m by (simp_all add: q_def r_def)
  have "(unat x + 2 ^ 21 - 1) div 2 ^ 21 = q + 1" unfolding qr(1) using qr(2,3) by (intro div_nat_eqI) auto
  then have "(unat x + 2 ^ 21 - 1) div 2 ^ 21 = unat x div 2 ^ 21 + 1" by (simp only: q_def)
  then have c: "section_ceil (unat x) = (unat x div 2 ^ 21 + 1) * 2 ^ 21" by (simp add: section_ceil_def)
  have "unat (x div ARCH_SECTION_SIZE + 1) = unat x div 2 ^ 21 + 1"
    using assms c by (subst unat_word_ariths) (simp add: unat_div)
  then have "unat ((x div ARCH_SECTION_SIZE + 1) * ARCH_SECTION_SIZE) = (unat x div 2 ^ 21 + 1) * 2 ^ 21"
    using assms c by (subst unat_word_ariths) simp
  then show ?thesis using False c by simp
qed

lemma setmtt_by:
  assumes "layout_ok L" and "tables_by L s own" and "rt_hw_mmu_setmtt L va vend pa at s = (r, s')"
  obtains own' m where "tables_by L s' own'" "r \<in> {0, - 1, - 3}" "r = - 3 \<Longrightarrow> mmu_pages s' = 32"
    "va \<le> vend \<Longrightarrow> section_ceil (unat vend) \<le> 2 ^ 48 \<Longrightarrow> m \<le> section_ceil (unat vend) - section_floor (unat va) \<and>
      (r = 0 \<longrightarrow> m = section_ceil (unat vend) - section_floor (unat va)) \<and> (r = - 1 \<longrightarrow> section_ceil (unat vend) = section_floor (unat va))"
    "va \<le> vend \<Longrightarrow> section_ceil (unat vend) \<le> 2 ^ 32 \<Longrightarrow> low_tree own \<Longrightarrow> low_tree own'"
    "va \<le> vend \<Longrightarrow> section_ceil (unat vend) \<le> 2 ^ 48 \<Longrightarrow> section_floor (unat pa) + (section_ceil (unat vend) - section_floor (unat va)) \<le> 2 ^ 48 \<Longrightarrow>
      translate L s' = maps (va div ARCH_SECTION_SIZE * ARCH_SECTION_SIZE) (pa div ARCH_SECTION_SIZE * ARCH_SECTION_SIZE) (MMU_MAP_CUSTOM 0 at) m (translate L s)"
proof (cases "va > vend")
  case True
  then have "r = - 1" "s' = s" using assms(3) by (simp_all add: rt_hw_mmu_setmtt_def)
  then show thesis using that [of own 0] assms(2) True by simp
next
  case False
  let ?va = "va div ARCH_SECTION_SIZE * ARCH_SECTION_SIZE" and ?pa = "pa div ARCH_SECTION_SIZE * ARCH_SECTION_SIZE"
  let ?ve = "if vend mod ARCH_SECTION_SIZE \<noteq> 0 then (vend div ARCH_SECTION_SIZE + 1) * ARCH_SECTION_SIZE else vend"
  let ?n = "unat (drop_bit 21 (?ve - ?va))" and ?len = "section_ceil (unat vend) - section_floor (unat va)"
  have loop: "setmtt_loop L (MMU_MAP_CUSTOM 0 at) ?n (- 1) ?va ?pa s = (r, s')"
    using assms(3) False unfolding rt_hw_mmu_setmtt_def Let_def floor_word(1) by simp
  have len: "?n * 2 ^ 21 = ?len" "section_floor (unat va) \<le> section_ceil (unat vend)" if c: "section_ceil (unat vend) \<le> 2 ^ 48"
  proof -
    have fl: "section_floor (unat va) \<le> section_ceil (unat vend)"
      using False floor_ceil(1) [of "unat va"] floor_ceil(2) [of "unat vend"] by (simp add: not_less word_le_nat_alt)
    then have "unat (?ve - ?va) = ?len" using ceil_word [OF c] floor_word(2) [of va] by (simp add: unat_sub word_le_nat_alt)
    moreover have "?len mod 2 ^ 21 = 0" using floor_ceil(3) [of "unat va"] floor_ceil(4) [of "unat vend"] by (simp add: mod_eq_0_iff_dvd dvd_diff_nat)
    ultimately have "unat (?ve - ?va) div 2 ^ 21 * 2 ^ 21 = ?len" by (metis add_0_right div_mult_mod_eq)
    moreover have "?n = unat (?ve - ?va) div 2 ^ 21"
      unfolding unsigned_drop_bit_eq using unsigned_less [of "?ve - ?va", where ?'a = nat] by (simp add: drop_bit_eq_div take_bit_eq_mod)
    ultimately show "?n * 2 ^ 21 = ?len" "section_floor (unat va) \<le> section_ceil (unat vend)" using fl by simp_all
  qed
  show thesis
  proof (rule setmtt_loop_by [OF assms(1,2) floor_word(3) floor_word(3) loop], goal_cases)
    case (1 own' k)
    have low: "low_tree own'" if "section_ceil (unat vend) \<le> 2 ^ 32" "low_tree own"
      using 1(3) [OF that(2)] that(1) len by (simp add: floor_word(2))
    have le: "k * 2 ^ 21 \<le> ?len \<and> (r = 0 \<longrightarrow> k * 2 ^ 21 = ?len) \<and> (r = - 1 \<longrightarrow> section_ceil (unat vend) = section_floor (unat va))" if "section_ceil (unat vend) \<le> 2 ^ 48"
      using len [OF that] 1(2,4,5) by (cases "?n = 0") auto
    have tr: "translate L s' = maps ?va ?pa (MMU_MAP_CUSTOM 0 at) (k * 2 ^ 21) (translate L s)"
      if "section_ceil (unat vend) \<le> 2 ^ 48" "section_floor (unat pa) + ?len \<le> 2 ^ 48"
      using 1(6) len [OF that(1)] that by (simp add: floor_word(2))
    have r: "r \<in> {0, - 1, - 3}" "r = - 3 \<Longrightarrow> mmu_pages s' = 32" using 1(4,5) by (cases "?n = 0"; auto)+
    show thesis by (rule that [of own' "k * 2 ^ 21", OF 1(1) r]) (use low le tr in blast)+
  qed
qed

text \<open>Below 4 GB the pages for tables do not run out.\<close>

lemma setmtt_low:
  assumes "layout_ok L" and "tables_by L s own" and "low_tree own" and "va \<le> vend" and "section_ceil (unat vend) \<le> 2 ^ 32"
    and "section_floor (unat pa) + (section_ceil (unat vend) - section_floor (unat va)) \<le> 2 ^ 48"
  obtains own' where "tables_by L (snd (rt_hw_mmu_setmtt L va vend pa at s)) own'" "low_tree own'"
    "translate L (snd (rt_hw_mmu_setmtt L va vend pa at s)) = maps (va div ARCH_SECTION_SIZE * ARCH_SECTION_SIZE) (pa div ARCH_SECTION_SIZE * ARCH_SECTION_SIZE)
      (MMU_MAP_CUSTOM 0 at) (section_ceil (unat vend) - section_floor (unat va)) (translate L s)"
proof -
  obtain r s' where rs: "rt_hw_mmu_setmtt L va vend pa at s = (r, s')" by fastforce
  have c: "section_ceil (unat vend) \<le> 2 ^ 48" using assms(5) by simp
  show thesis
  proof (rule setmtt_by [OF assms(1,2) rs], goal_cases)
    case (1 own' m)
    have low: "low_tree own'" by (rule 1(5) [OF assms(4,5,3)])
    have "mmu_pages s' \<noteq> 32" using low_tree_size [OF low] tables_byD(1,3) [OF 1(1)] by simp
    then have "m = section_ceil (unat vend) - section_floor (unat va)" using 1(2,3) 1(4) [OF assms(4) c] by auto
    then show thesis using that [of own'] 1(1) low 1(6) [OF assms(4) c assms(6)] rs by simp
  qed
qed

section \<open>Start-up\<close>

lemma init_tables:
  assumes "layout_ok L" and "mmu_pages s = 0"
  shows "tables_by L (clear_words (MMUPage L) (32 * 4096) (clear_words (MMUTable L) 4096 s)) []"
    "translate L (clear_words (MMUPage L) (32 * 4096) (clear_words (MMUTable L) 4096 s)) x = None"
proof -
  let ?s = "clear_words (MMUPage L) (32 * 4096) (clear_words (MMUTable L) 4096 s)"
  have "entry L (clear_words (table_at L None) 4096 s) None i = 0" if "i < 512" for i
    using entry_clear [OF assms(1), of None None i s] that by simp
  then have "entry L ?s None i = 0" if "i < 512" for i
    using that by (auto simp: entry_def table_at_def clear_words_def)
  then show tab: "tables_by L ?s []" using assms(2) by (simp add: tables_by_def clear_words_def)
  show "translate L ?s x = None"
    using translate_by [OF assms(1) tab, of x] by (cases "x < 2 ^ 48") (auto simp: leaf_def child_def translate_def)
qed

text \<open>\<^verbatim>\<open>platform_mem_desc\<close>.\<close>

definition region :: "u64 \<Rightarrow> u64 \<Rightarrow> u64 \<Rightarrow> u64 \<Rightarrow> mem_desc" where
  "region va sz pa at = \<lparr>vaddr_start = va, vaddr_end = va + sz, paddr_start = pa, attr = at\<rparr>"

definition platform_mem_desc :: "u64 \<Rightarrow> mem_desc list" where
  "platform_mem_desc rk3576_gmac_dma_pool =
     [\<lparr>vaddr_start = 0x40000000, vaddr_end = 0x80000000, paddr_start = 0x40000000, attr = NORMAL_MEM\<rparr>,
      region 0x2ad40000 0x10000 0x2ad40000 DEVICE_MEM,
      region 0x27310000 0x10000 0x27310000 DEVICE_MEM,
      region 0x2ad50000 0x80000 0x2ad50000 DEVICE_MEM,
      region 0x2afc0000 0x20000 0x2afc0000 DEVICE_MEM,
      region CRU_MMIO_BASE CRU_MMIO_SIZE CRU_MMIO_BASE DEVICE_MEM,
      region IOC_GRF_MMIO_BASE IOC_GRF_MMIO_SIZE IOC_GRF_MMIO_BASE DEVICE_MEM,
      region 0x27320000 0x10000 0x27320000 DEVICE_MEM,
      region 0x2ae10000 0x10000 0x2ae10000 DEVICE_MEM,
      region 0x2ae20000 0x10000 0x2ae20000 DEVICE_MEM,
      region 0x2ae30000 0x10000 0x2ae30000 DEVICE_MEM,
      region 0x2ae40000 0x10000 0x2ae40000 DEVICE_MEM,
      region 0x2a220000 0x10000 0x2a220000 DEVICE_MEM,
      region 0x80000000 0x200000 rk3576_gmac_dma_pool NORMAL_NOCACHE_MEM,
      region (0x2a700000 + 0x1000) 0x10000 (0x2a700000 + 0x1000) DEVICE_MEM,
      region (0x2a700000 + 0x2000) 0x10000 (0x2a700000 + 0x2000) DEVICE_MEM]"

text \<open>What the table amounts to: the RAM and six sections of registers at their own addresses, and the pool of the network driver at an uncached alias.\<close>

definition platform_map :: "u64 \<Rightarrow> u64 \<Rightarrow> (u64 \<times> u64) option" where
  "platform_map rk3576_gmac_dma_pool x =
     (if 0x40000000 \<le> x \<and> x < 0x80000000 then Some (x, MMU_MAP_CUSTOM 0 NORMAL_MEM)
      else if 0x80000000 \<le> x \<and> x < 0x80200000 then Some (rk3576_gmac_dma_pool + (x - 0x80000000), MMU_MAP_CUSTOM 0 NORMAL_NOCACHE_MEM)
      else if unat x div 2 ^ 21 \<in> {0x130, 0x139, 0x151, 0x153, 0x156, 0x157} then Some (x, MMU_MAP_CUSTOM 0 DEVICE_MEM)
      else None)"

definition low_region :: "mem_desc \<Rightarrow> bool" where
  "low_region m = (vaddr_start m \<le> vaddr_end m \<and> section_ceil (unat (vaddr_end m)) \<le> 2 ^ 32 \<and>
     section_floor (unat (paddr_start m)) + (section_ceil (unat (vaddr_end m)) - section_floor (unat (vaddr_start m))) \<le> 2 ^ 48)"

definition region_map :: "mem_desc \<Rightarrow> (u64 \<Rightarrow> (u64 \<times> u64) option) \<Rightarrow> u64 \<Rightarrow> (u64 \<times> u64) option" where
  "region_map m = maps (vaddr_start m div ARCH_SECTION_SIZE * ARCH_SECTION_SIZE) (paddr_start m div ARCH_SECTION_SIZE * ARCH_SECTION_SIZE)
     (MMU_MAP_CUSTOM 0 (attr m)) (section_ceil (unat (vaddr_end m)) - section_floor (unat (vaddr_start m)))"

lemma fold_regions:
  assumes "layout_ok L" and "tables_by L s own" and "low_tree own" and "list_all low_region ms"
  shows "tables_ok L (fold (setmtt_desc L) ms s) \<and> translate L (fold (setmtt_desc L) ms s) = fold region_map ms (translate L s)"
  using assms(2-)
proof (induction ms arbitrary: s own)
  case Nil
  then show ?case by (auto simp: tables_ok_def)
next
  case (Cons m ms)
  then have m: "vaddr_start m \<le> vaddr_end m" "section_ceil (unat (vaddr_end m)) \<le> 2 ^ 32"
    "section_floor (unat (paddr_start m)) + (section_ceil (unat (vaddr_end m)) - section_floor (unat (vaddr_start m))) \<le> 2 ^ 48" by (simp_all add: low_region_def)
  show ?case
  proof (rule setmtt_low [OF assms(1) Cons.prems(1,2) m, of "attr m"], goal_cases)
    case (1 own')
    then show ?thesis using Cons.IH [of "setmtt_desc L m s" own'] Cons.prems(3) by (simp add: setmtt_desc_def region_map_def)
  qed
qed

lemma custom_attr: "at \<in> {0, 1, 2} \<Longrightarrow> MMU_MAP_CUSTOM 0 at AND MMU_ATTRIB_MASK = MMU_MAP_CUSTOM 0 at"
  by (auto simp: MMU_MAP_CUSTOM_def)

lemma section_maps:
  assumes "unat va = k * 2 ^ 21" and "at \<in> {0, 1, 2}"
  shows "maps va va (MMU_MAP_CUSTOM 0 at) (2 ^ 21) tr x = (if unat x div 2 ^ 21 = k then Some (x, MMU_MAP_CUSTOM 0 at) else tr x)"
proof -
  have "(unat x div 2 ^ 21 = k) = (unat va \<le> unat x \<and> unat x < unat va + 2 ^ 21)" unfolding assms(1) by (auto intro: div_nat_eqI)
  then show ?thesis using assms(2) by (simp add: maps_def custom_attr)
qed

definition one_section :: "mem_desc \<Rightarrow> nat \<Rightarrow> bool" where
  "one_section m k = (section_floor (unat (vaddr_start m)) = k * 2 ^ 21 \<and> section_ceil (unat (vaddr_end m)) = (k + 1) * 2 ^ 21 \<and> paddr_start m = vaddr_start m \<and> attr m \<in> {0, 1, 2})"

lemma region_section:
  assumes "one_section m k"
  shows "region_map m tr x = (if unat x div 2 ^ 21 = k then Some (x, MMU_MAP_CUSTOM 0 (attr m)) else tr x)"
  using assms section_maps [of "vaddr_start m div ARCH_SECTION_SIZE * ARCH_SECTION_SIZE" k "attr m" tr x]
  by (simp add: one_section_def region_map_def floor_word(2))

lemma platform_fold:
  assumes "aligned pool"
  shows "fold region_map (platform_mem_desc pool) (\<lambda>x. None) x = platform_map pool x"
proof -
  have s: "one_section (region 0x2ad40000 0x10000 0x2ad40000 DEVICE_MEM) 0x156" "one_section (region 0x27310000 0x10000 0x27310000 DEVICE_MEM) 0x139"
    "one_section (region 0x2ad50000 0x80000 0x2ad50000 DEVICE_MEM) 0x156" "one_section (region 0x2afc0000 0x20000 0x2afc0000 DEVICE_MEM) 0x157"
    "one_section (region CRU_MMIO_BASE CRU_MMIO_SIZE CRU_MMIO_BASE DEVICE_MEM) 0x139" "one_section (region IOC_GRF_MMIO_BASE IOC_GRF_MMIO_SIZE IOC_GRF_MMIO_BASE DEVICE_MEM) 0x130"
    "one_section (region 0x27320000 0x10000 0x27320000 DEVICE_MEM) 0x139" "one_section (region 0x2ae10000 0x10000 0x2ae10000 DEVICE_MEM) 0x157"
    "one_section (region 0x2ae20000 0x10000 0x2ae20000 DEVICE_MEM) 0x157" "one_section (region 0x2ae30000 0x10000 0x2ae30000 DEVICE_MEM) 0x157"
    "one_section (region 0x2ae40000 0x10000 0x2ae40000 DEVICE_MEM) 0x157" "one_section (region 0x2a220000 0x10000 0x2a220000 DEVICE_MEM) 0x151"
    "one_section (region (0x2a700000 + 0x1000) 0x10000 (0x2a700000 + 0x1000) DEVICE_MEM) 0x153" "one_section (region (0x2a700000 + 0x2000) 0x10000 (0x2a700000 + 0x2000) DEVICE_MEM) 0x153"
    by (simp_all add: one_section_def region_def section_floor_def section_ceil_def)
  note sec = s [THEN region_section]
  have at: "attr (region va sz pa a) = a" for va sz pa a by (simp add: region_def)
  have ram: "region_map \<lparr>vaddr_start = 0x40000000, vaddr_end = 0x80000000, paddr_start = 0x40000000, attr = NORMAL_MEM\<rparr> tr x =
      (if 0x40000000 \<le> unat x \<and> unat x < 0x80000000 then Some (x, MMU_MAP_CUSTOM 0 NORMAL_MEM) else tr x)" for tr
    using custom_attr [of 0] by (simp add: region_map_def section_floor_def section_ceil_def maps_def)
  have "section_floor (unat pool) = unat pool"
    using assms div_mult_mod_eq [of "unat pool" "2 ^ 21"] unfolding aligned_mod section_floor_def by linarith
  then have "pool div ARCH_SECTION_SIZE * ARCH_SECTION_SIZE = pool" by (simp only: word_unat_eq_iff floor_word(2))
  then have dma: "region_map (region 0x80000000 0x200000 pool NORMAL_NOCACHE_MEM) tr x =
      (if 0x80000000 \<le> unat x \<and> unat x < 0x80200000 then Some (pool + (x - 0x80000000), MMU_MAP_CUSTOM 0 NORMAL_NOCACHE_MEM) else tr x)" for tr
    using custom_attr [of 1] by (simp add: region_map_def region_def section_floor_def section_ceil_def maps_def)
  have dev: "\<not> (0x40000000 \<le> unat x \<and> unat x < 0x80000000)" "\<not> (0x80000000 \<le> unat x \<and> unat x < 0x80200000)" if "unat x div 2 ^ 21 \<in> {0x130, 0x139, 0x151, 0x153, 0x156, 0x157}"
  proof -
    have "unat x div 2 ^ 21 < 0x200" using that by auto
    then have "unat x < 0x200 * 2 ^ 21" by (simp add: div_less_iff_less_mult)
    then show "\<not> (0x40000000 \<le> unat x \<and> unat x < 0x80000000)" "\<not> (0x80000000 \<le> unat x \<and> unat x < 0x80200000)" by auto
  qed
  have "fold region_map (platform_mem_desc pool) (\<lambda>x. None) x = (if unat x div 2 ^ 21 \<in> {0x130, 0x139, 0x151, 0x153, 0x156, 0x157} then Some (x, MMU_MAP_CUSTOM 0 DEVICE_MEM)
      else if 0x80000000 \<le> unat x \<and> unat x < 0x80200000 then Some (pool + (x - 0x80000000), MMU_MAP_CUSTOM 0 NORMAL_NOCACHE_MEM)
      else if 0x40000000 \<le> unat x \<and> unat x < 0x80000000 then Some (x, MMU_MAP_CUSTOM 0 NORMAL_MEM) else None)"
    unfolding platform_mem_desc_def fold_simps comp_def id_def sec ram dma at by auto
  also have "\<dots> = platform_map pool x" using dev by (auto simp: platform_map_def word_le_nat_alt word_less_nat_alt)
  finally show ?thesis .
qed

section \<open>Properties\<close>

text \<open>C36. The tables are well formed (a tree whose inner entries point to pages of their own and whose leaves are blocks) after every operation, whatever its arguments, and the
  mapping functions report nothing but success, an empty range or a lack of pages.\<close>

theorem mmu_tables_well_formed:
  assumes "layout_ok L" and "tables_ok L s"
  shows "tables_ok L (snd (kenrel_map_2M L (MMUTable L) va pa at s)) \<and> tables_ok L (snd (rt_hw_mmu_setmtt L va vend pa at s)) \<and>
    fst (rt_hw_mmu_setmtt L va vend pa at s) \<in> {0, - 1, - 3} \<and> tables_ok L (snd (rt_hw_mmu_map L va sz at s)) \<and>
    (\<forall>s0. mmu_pages s0 = 0 \<longrightarrow> tables_ok L (rt_hw_init_mmu_table L mdesc s0))"
proof -
  have one: "tables_ok L (snd (kenrel_map_2M L (MMUTable L) va pa at s))"
    using assms(2) unfolding tables_ok_def by (metis map_2M_by [OF assms(1)] prod.collapse)
  have mtt: "tables_ok L (snd (rt_hw_mmu_setmtt L va vend pa at s)) \<and> fst (rt_hw_mmu_setmtt L va vend pa at s) \<in> {0, - 1, - 3}" if "tables_ok L s" for va vend pa at s
    using that unfolding tables_ok_def by (metis setmtt_by [OF assms(1)] prod.collapse)
  have "tables_ok L (fold (setmtt_desc L) ms s)" if "tables_ok L s" for ms s
    using that by (induction ms arbitrary: s) (auto simp: setmtt_desc_def mtt)
  then have "tables_ok L (rt_hw_init_mmu_table L mdesc s0)" if "mmu_pages s0 = 0" for s0
    using init_tables(1) [OF assms(1) that] unfolding rt_hw_init_mmu_table_def Let_def tables_ok_def by blast
  then show ?thesis using one mtt [OF assms(2)] by (simp add: rt_hw_mmu_map_def)
qed

definition sample_layout :: mmu_layout where
  "sample_layout = \<lparr>MMUTable = 0x40100000, MMUPage = 0x40101000\<rparr>"

definition blank_mmu :: mmu where
  "blank_mmu = \<lparr>mmu_mem = \<lambda>a. 0, mmu_pages = 0\<rparr>"

lemma sample_layout_ok: "layout_ok sample_layout"
  by (simp add: layout_ok_def sample_layout_def)

lemma blank_mmu_ok: "tables_ok L blank_mmu" "translate L blank_mmu x = None"
proof -
  have "tables_by L blank_mmu []" by (simp add: tables_by_def blank_mmu_def entry_def)
  then show "tables_ok L blank_mmu" unfolding tables_ok_def by blast
  show "translate L blank_mmu x = None" by (simp add: translate_def blank_mmu_def numeral_3_eq_3)
qed

theorem mmu_tables_well_formed_witness:
  "tables_ok sample_layout (snd (rt_hw_mmu_map sample_layout 0x2ad40000 0x10000 DEVICE_MEM blank_mmu))"
  using mmu_tables_well_formed [OF sample_layout_ok blank_mmu_ok(1), where va = "0x2ad40000" and sz = "0x10000"] by blast

text \<open>C37. \<^verbatim>\<open>rt_hw_mmu_setmtt\<close> maps the region, rounded to sections of 2 MB, to consecutive physical addresses and changes no other translation. When the pages for tables run out,
  the beginning of the region is mapped and the rest is as before.\<close>

theorem setmtt_refines:
  assumes "layout_ok L" and "tables_ok L s" and "va \<le> vend" and "lo = section_floor (unat va)" and "hi = section_ceil (unat vend)" and "hi \<le> 2 ^ 48"
    and "section_floor (unat pa) + (hi - lo) \<le> 2 ^ 48" and "rt_hw_mmu_setmtt L va vend pa at s = (r, s')"
  shows "tables_ok L s' \<and> r \<in> {0, - 1, - 3} \<and> (r = - 1 \<longrightarrow> hi = lo) \<and> (r = - 3 \<longrightarrow> mmu_pages s' = 32) \<and>
    (\<exists>n \<le> hi - lo. (r = 0 \<longrightarrow> n = hi - lo) \<and>
      (\<forall>x. translate L s' x = (if lo \<le> unat x \<and> unat x < lo + n
         then Some (of_nat (section_floor (unat pa)) + (x - of_nat lo), MMU_MAP_CUSTOM 0 at AND MMU_ATTRIB_MASK) else translate L s x)))"
proof -
  obtain own where own: "tables_by L s own" using assms(2) by (auto simp: tables_ok_def)
  have low: "y div ARCH_SECTION_SIZE * ARCH_SECTION_SIZE = of_nat (section_floor (unat y))" for y by (metis of_nat_unat floor_word(2) ucast_id)
  have u: "unat (of_nat (section_floor (unat va)) :: u64) = section_floor (unat va)" using floor_word(2) [of va] low by simp
  show ?thesis
  proof (rule setmtt_by [OF assms(1) own assms(8)], goal_cases)
    case (1 own' m)
    have hi: "section_ceil (unat vend) \<le> 2 ^ 48" and pa: "section_floor (unat pa) + (section_ceil (unat vend) - section_floor (unat va)) \<le> 2 ^ 48"
      using assms(4-7) by simp_all
    have "translate L s' x = (if lo \<le> unat x \<and> unat x < lo + m
         then Some (of_nat (section_floor (unat pa)) + (x - of_nat lo), MMU_MAP_CUSTOM 0 at AND MMU_ATTRIB_MASK) else translate L s x)" for x
      unfolding 1(6) [OF assms(3) hi pa] maps_def low u assms(4) by (rule refl)
    then show ?thesis using 1(1,2,3) 1(4) [OF assms(3) hi] assms(4,5) by (auto simp: tables_ok_def)
  qed
qed

theorem setmtt_refines_witness:
  "fst (rt_hw_mmu_setmtt sample_layout 0x2ad40000 0x2ad50000 0x2ad40000 DEVICE_MEM blank_mmu) \<in> {0, - 3} \<and>
   translate sample_layout (snd (rt_hw_mmu_setmtt sample_layout 0x2ad40000 0x2ad50000 0x2ad40000 DEVICE_MEM blank_mmu)) 0x2ae00000 = None"
proof -
  obtain r s' where rs: "rt_hw_mmu_setmtt sample_layout 0x2ad40000 0x2ad50000 0x2ad40000 DEVICE_MEM blank_mmu = (r, s')" by fastforce
  show ?thesis using setmtt_refines [OF sample_layout_ok blank_mmu_ok(1) _ refl refl _ _ rs] by (auto simp: rs section_floor_def section_ceil_def blank_mmu_ok(2))
qed

text \<open>C38. After \<^verbatim>\<open>rt_hw_init_mmu_table\<close> the CPU sees the RAM and the sections of the registers at their own addresses, the pool of the network driver at its uncached alias, and nothing else.
  The 32 pages for tables are enough.\<close>

theorem platform_memory_map:
  assumes "layout_ok L" and "mmu_pages s = 0" and "rk3576_gmac_dma_pool AND ARCH_SECTION_MASK = 0" and "unat rk3576_gmac_dma_pool + 2 ^ 21 \<le> 2 ^ 48"
  shows "tables_ok L (rt_hw_init_mmu_table L (platform_mem_desc rk3576_gmac_dma_pool) s) \<and>
    translate L (rt_hw_init_mmu_table L (platform_mem_desc rk3576_gmac_dma_pool) s) = platform_map rk3576_gmac_dma_pool"
proof -
  have "section_floor (unat rk3576_gmac_dma_pool) + 0x200000 \<le> 2 ^ 48" using floor_ceil(1) [of "unat rk3576_gmac_dma_pool"] assms(4) by simp
  then have "list_all low_region (platform_mem_desc rk3576_gmac_dma_pool)"
    by (simp add: platform_mem_desc_def low_region_def region_def section_floor_def section_ceil_def)
  moreover have "low_tree []" by (simp add: low_tree_def)
  moreover have "translate L (clear_words (MMUPage L) (32 * 4096) (clear_words (MMUTable L) 4096 s)) = (\<lambda>x. None)"
    by (rule ext) (rule init_tables(2) [OF assms(1,2)])
  moreover have "fold region_map (platform_mem_desc rk3576_gmac_dma_pool) (\<lambda>x. None) = platform_map rk3576_gmac_dma_pool"
    by (rule ext) (rule platform_fold [OF assms(3)])
  ultimately show ?thesis using fold_regions [OF assms(1) init_tables(1) [OF assms(1,2)]] by (simp add: rt_hw_init_mmu_table_def Let_def)
qed

theorem platform_memory_map_witness:
  "translate sample_layout (rt_hw_init_mmu_table sample_layout (platform_mem_desc 0x48000000) blank_mmu) 0x2ad40014 = Some (0x2ad40014, 0x608) \<and>
   translate sample_layout (rt_hw_init_mmu_table sample_layout (platform_mem_desc 0x48000000) blank_mmu) 0x80000100 = Some (0x48000100, 0x604) \<and>
   translate sample_layout (rt_hw_init_mmu_table sample_layout (platform_mem_desc 0x48000000) blank_mmu) 0 = None"
proof -
  have "mmu_pages blank_mmu = 0" by (simp add: blank_mmu_def)
  note m = platform_memory_map [OF sample_layout_ok this, where rk3576_gmac_dma_pool = "0x48000000"]
  show ?thesis using m by (simp add: platform_map_def MMU_MAP_CUSTOM_def)
qed

end
