(* ===== verification/Spec2Isabelle.thy ===== *)
theory Spec2Isabelle
  imports Rt_Sem Rt_Mutex Rt_Event Rt_Mailbox Rt_Mq Rt_RingBuffer Rt_Mempool Rt_Device Rt_Heap Rt_Printf Rk_Gpio Rk_Clock Rk_Gic Rk_MemMap
begin

text \<open>
  A verification library for the kernel of RT-Thread, the real-time operating system this repository
  runs on the RK3576 (\<^verbatim>\<open>src/rt-thread/\<close>, single CPU, 32 priorities, 100 ticks a second, hard and soft
  timers, an 8-byte \<^verbatim>\<open>rt_ubase_t\<close>), and for the code that runs it on this board (\<^verbatim>\<open>src/driver/\<close>, \<^verbatim>\<open>libcpu/aarch64/common/\<close>). It follows the C code function by function: a C structure is a
  record, a C integer a word of its width, an assertion that fails or an access out of range the
  value None, a call that waits the value \<^verbatim>\<open>Blocked\<close> with the state it leaves behind.

  \<^bold>\<open>The parts of the program and the theories that model them.\<close>

  \<^item> Rt_Prelude: the integer types and error codes of \<^verbatim>\<open>rtdef.h\<close>, \<^verbatim>\<open>RT_ASSERT\<close> as \<^verbatim>\<open>rt_assert\<close>, and the lemmas on words,
    lists and the option monad the other theories share.
  \<^item> Rt_List: the intrusive lists of \<^verbatim>\<open>rtservice.h\<close> on a heap of next and prev pointers
    (\<^verbatim>\<open>rt_list_insert_after\<close>, \<^verbatim>\<open>rt_list_insert_before\<close>, \<^verbatim>\<open>rt_list_remove\<close>, \<^verbatim>\<open>rt_list_len\<close>), and the list store the kernel model is
    written on: every head with the sequence hanging on it, every node with the head it hangs on. The locale
    list_store states the laws of such a store; the refinement theorem ties the pointer code to it.
  \<^item> Rt_Kservice: \<^verbatim>\<open>__rt_ffs\<close> with its table, \<^verbatim>\<open>rt_strncpy\<close>, \<^verbatim>\<open>rt_strncmp\<close> (\<^verbatim>\<open>kservice.c\<close>).
  \<^item> Rt_MemOps, Rt_String, Rt_Printf: the memory functions, the string functions and the formatted output of \<^verbatim>\<open>kservice.c\<close> on memories of bytes or characters.
    The block-wise \<^verbatim>\<open>rt_memset\<close> and \<^verbatim>\<open>rt_memcpy\<close> equal byte-by-byte descriptions, \<^verbatim>\<open>rt_memmove\<close> moves overlapping ranges, \<^verbatim>\<open>rt_strstr\<close> finds the first occurrence, and
    \<^verbatim>\<open>rt_vsnprintf\<close> prints a reference text, cut to the buffer.
  \<^item> Rt_Kernel: the record kernel, that is the global variables of the kernel files, and the records of threads,
    timers and IPC objects; the stack of structures \<^verbatim>\<open>rt_object\<close>.
  \<^item> Rt_Sched: \<^verbatim>\<open>scheduler.c\<close>. The invariant kernel_ok says that the bitmap, the priority lists, the states of the
    threads and the timers of sleeping threads agree; every operation of the kernel keeps it.
    \<^verbatim>\<open>rt_schedule\<close> runs a thread of the highest ready priority and is confined to scheduling state; critical sections nest.
  \<^item> Rt_Object: \<^verbatim>\<open>object.c\<close>. Class lists, \<^verbatim>\<open>rt_object_init\<close>, \<^verbatim>\<open>rt_object_detach\<close>, \<^verbatim>\<open>rt_object_allocate\<close>, \<^verbatim>\<open>rt_object_delete\<close>,
    \<^verbatim>\<open>rt_object_find\<close>; an object that is initialised is found again by its name.
  \<^item> Rt_Timer, Rt_TimerRun: \<^verbatim>\<open>timer.c\<close> and \<^verbatim>\<open>clock.c\<close>. Start, stop, control, and the expiry loops
    \<^verbatim>\<open>rt_timer_check\<close> and \<^verbatim>\<open>rt_soft_timer_check\<close>, called from \<^verbatim>\<open>rt_tick_increase\<close>. Ticks are 32-bit words that wrap. The list stays
    sorted by the time that is left, one tick serves exactly the timers that are due, and the loop ends, except for a
    periodic timer of period 0, for which it is proved to run forever.
  \<^item> Rt_ThreadState, Rt_Thread, Rt_ThreadProps: \<^verbatim>\<open>thread.c\<close>, \<^verbatim>\<open>idle.c\<close> (the defunct list), the initial frame of
    \<^verbatim>\<open>libcpu/aarch64/common/stack.c\<close>. Creation, start, exit, suspend, resume, yield, sleep, priority change. A sleeping
    thread is made ready by exactly the tick it asked for.
  \<^item> Rt_IpcList: the wait queues of \<^verbatim>\<open>ipc.c\<close> (\<^verbatim>\<open>_ipc_list_suspend\<close>, \<^verbatim>\<open>_ipc_list_resume\<close>, \<^verbatim>\<open>_ipc_list_resume_all\<close>). The locale
    wait_head is the contract of a wait queue; each IPC object interprets it on its own list head.
  \<^item> Rt_Sem, Rt_Mutex, Rt_Event: semaphores, recursive mutexes with priority inheritance, event sets.
  \<^item> Rt_MsgWait, Rt_Mailbox, Rt_MqPool, Rt_Mq: mailboxes and message queues. Rt_MsgWait holds what the two share, Rt_MqPool the
    atomic sections on the slots of a message queue with a step relation for their interleaving, Rt_Mq the calls.
  \<^item> Rt_Fifo, Rt_RingBuffer: the contract bounded_fifo and the ring buffer of \<^verbatim>\<open>components/drivers/ipc/ringbuffer.c\<close>. The
    ring buffer, the mailbox and the message queue all interpret the contract, so that the theorem on streams is
    proved once.
  \<^item> Rt_Errno, Rt_Mempool: the error number of \<^verbatim>\<open>kservice.c\<close> and the memory pools of \<^verbatim>\<open>mempool.c\<close>. The free list runs through the
    link words in front of the blocks, which the record kernel keeps by address. No block is ever handed out twice or lost.
  \<^item> Rt_Smem, Rt_SmemProps, Rt_SmemRun: the small-memory heap of \<^verbatim>\<open>mem.c\<close>. The headers spell a sequence of blocks (heap_ok); allocation,
    release with merging and reallocation are shown to do what they say on that sequence, and over any history of calls the blocks that clients hold are
    apart, and all memory comes back.
  \<^item> Rt_Heap: the system heap of \<^verbatim>\<open>kservice.c\<close> (\<^verbatim>\<open>rt_malloc\<close>, \<^verbatim>\<open>rt_realloc\<close>, \<^verbatim>\<open>rt_calloc\<close>, \<^verbatim>\<open>rt_free\<close>, \<^verbatim>\<open>rt_malloc_align\<close>), the small-memory heap behind a mutex. The locale
    heap_op is the contract of a section of code on the heap; that the mutex serialises such sections is proved in it once and interpreted for each of them.
  \<^item> Rt_Device: the device framework of \<^verbatim>\<open>device.c\<close>, with the functions of the drivers as arguments: unique names, and opens and
    closes that behave as a reference counter.

  \<^item> Rk_Mmio: the registers of the chip. What a read or a write at an address does is a parameter, the record soc; the locale soc_config states what the manual says of the
    configuration registers, among them the write masks in the upper half of a word, and a register file interprets it.
  \<^item> Rk_Cru, Rk_Clock: the clock and reset unit (\<^verbatim>\<open>src/driver/drv_cru.c\<close>). Rk_Clock is the clock tree as a reference: the rate set for a serial port is the one read back and the one the tree gives.
  \<^item> Rk_Iomux, Rk_Fields, Rk_Pins: the pin multiplexer (\<^verbatim>\<open>src/driver/drv_iomux.c\<close>). The locale pin_field is the contract of a family of bit fields; the function, pull, drive and
    Schmitt fields of the 160 pins interpret it, and every setter changes one setting of one pin.
  \<^item> Rk_Gic: the interrupt controller (\<^verbatim>\<open>gic.c\<close>, \<^verbatim>\<open>interrupt.c\<close>, \<^verbatim>\<open>trap.c\<close> of \<^verbatim>\<open>libcpu/aarch64/common/\<close>): its initialisation, the settings of the interrupts, and the dispatch to the handlers.
    The locales gic_dist and gic_boot state what the GIC architecture says of the registers.
  \<^item> Rk_Mmu, Rk_MemMap: the translation tables (\<^verbatim>\<open>mmu.c\<close>) as words in memory, the walk of the hardware on the same memory, and the map of the board (\<^verbatim>\<open>src/driver/board.c\<close>). The tables stay a tree, mapping a region
    updates the translation of that region only, and the map after start-up is given in full.
  \<^item> Rk_Gpio: the GPIO pins (\<^verbatim>\<open>src/driver/gpio/\<close> behind \<^verbatim>\<open>components/drivers/misc/pin.c\<close>) on the multiplexer of Rk_Pins. The calls act on one pin as an abstract pin does, and an open-drain pin is never driven high.

  \<^bold>\<open>How they interact.\<close> Interrupts call \<^verbatim>\<open>rt_tick_increase\<close>, which accounts the time slice, yields when it is used
  up and serves the timers; the timer of a thread runs \<^verbatim>\<open>_thread_timeout\<close>, which puts the thread back on the ready
  queue. The IPC calls suspend the current thread on a wait queue, start its timer and call \<^verbatim>\<open>rt_schedule\<close>. The
  model passes the kernel record through all of these. The sections the code runs with interrupts off are atomic
  steps; a call that blocks is cut at its \<^verbatim>\<open>rt_schedule\<close>: the first half ends with \<^verbatim>\<open>Blocked\<close>, and
  a function named \<^verbatim>\<open>..._resume\<close> is the half that runs when the thread is scheduled again, on the state of that moment.

  \<^bold>\<open>What is shown.\<close> For every IPC object an abstract operation (a counter, an owner with a nesting depth, a set of
  bits, a sequence of words, a sequence of messages) and the theorem that the code does this operation on every
  branch, errors and timeouts included, keeps the invariants of the kernel and of the object, and wakes the
  thread it should. Mailboxes and message queues deliver what was sent, in order, over any sequence of calls; the slots of
  a message queue are never shared or lost under any interleaving of its atomic sections.

  \<^bold>\<open>Loops.\<close> The loops whose end depends on the data (\<^verbatim>\<open>rt_list_len\<close>, the timer loops, the wake-up of all waiters, the
  retry loops of mailbox and queue, the flush of a queue) are partial functions into option, so not ending is the
  value None; the theorems give the value Some. There is no fuel. Timeouts are 32-bit tick counts;
  the code asserts that they are below half the range, and the theorems carry the same bound.

  \<^bold>\<open>Not modelled.\<close> SMP code (\<^verbatim>\<open>RT_USING_SMP\<close> is off), signals, modules and debug output are not part
  of the configuration or have no effect on the state; hooks are taken as not installed, as at start-up. The kernel objects do not
  allocate from the modelled heap: what an allocation returns is an argument of the operation that asks for it. The loops of the idle thread and of the soft timer thread, which never return, are modelled by
  their bodies only. The second heap (\<^verbatim>\<open>memheap.c\<close>), the
  file systems, the network stacks, the drivers of the serial ports and of the network, the registration of the pin device and the order of the board start-up are not modelled.
\<close>

end
